(* ===== verification/QS_Prelude.thy ===== *)
theory QS_Prelude
  imports Main "HOL-Library.Word"
begin

unbundle bit_operations_syntax

text \<open>
  Shared vocabulary of the development: the machine types of the source, the faults a C or
  C++ expression can run into, byte order, and the list lemmas the component theories use.

  The host is the little-endian x86 the project is built for (\<^verbatim>\<open>Bin\<close>, \<^verbatim>\<open>BinX64\<close>); what
  differs between its 32- and 64-bit builds is \<^verbatim>\<open>sizeof(size_t)\<close>, which the definitions that
  depend on it take as the argument \<open>sz\<close> (4 or 8).
\<close>

section \<open>Machine types\<close>

type_synonym byte = "8 word"
type_synonym u16 = "16 word"
type_synonym u32 = "32 word"
type_synonym u64 = "64 word"

text \<open>
  A \<^verbatim>\<open>size_t\<close> is a natural number below \<open>size_mod sz\<close>; arithmetic on it wraps there. The cast
  \<^verbatim>\<open>(ev_ssize_t)\<close> reinterprets it as a signed number of the same width, and
  \<^verbatim>\<open>(size_t)c\<close> of a signed \<^verbatim>\<open>char\<close> extends the sign.
\<close>

definition size_mod :: "nat \<Rightarrow> nat" where
  "size_mod sz = 2 ^ (8 * sz)"

definition ssize_of :: "nat \<Rightarrow> nat \<Rightarrow> int" where
  "ssize_of sz n = (if 2 * n < size_mod sz then int n else int n - int (size_mod sz))"

definition size_of_char :: "nat \<Rightarrow> byte \<Rightarrow> nat" where
  "size_of_char sz c = nat (sint c mod int (size_mod sz))"

section \<open>Faults\<close>

text \<open>
  What the language leaves undefined is a value of its own: a read or write outside an object,
  the use of a null pointer. An operation that can do so returns a sum, with \<^const>\<open>Inl\<close> for
  the fault.
\<close>

datatype cfault = OutOfBounds | NullDeref

section \<open>Collections of rewrite rules\<close>

named_theorems byte_simps \<open>byte order conversions\<close>

section \<open>Byte order\<close>

fun le_val :: "byte list \<Rightarrow> nat" where
  "le_val [] = 0"
| "le_val (b # bs) = unat b + 256 * le_val bs"

fun le_bytes :: "nat \<Rightarrow> nat \<Rightarrow> byte list" where
  "le_bytes 0 v = []"
| "le_bytes (Suc n) v = of_nat (v mod 256) # le_bytes n (v div 256)"

text \<open>\<^verbatim>\<open>ntohs\<close>, \<^verbatim>\<open>ntohl\<close> (and \<^verbatim>\<open>htons\<close>, \<^verbatim>\<open>htonl\<close>) on a little-endian host reverse the bytes.\<close>

definition bswap :: "nat \<Rightarrow> nat \<Rightarrow> nat" where
  "bswap n v = le_val (rev (le_bytes n v))"

definition ntohs :: "nat \<Rightarrow> nat" where "ntohs v = bswap 2 v"
definition ntohl :: "nat \<Rightarrow> nat" where "ntohl v = bswap 4 v"

definition be_val :: "byte list \<Rightarrow> nat" where "be_val bs = le_val (rev bs)"
definition be_bytes :: "nat \<Rightarrow> nat \<Rightarrow> byte list" where "be_bytes n v = rev (le_bytes n v)"

text \<open>A load of \<open>k\<close> bytes through a pointer into an object, and a store; both stay inside it.\<close>

definition load_le :: "nat \<Rightarrow> nat \<Rightarrow> byte list \<Rightarrow> cfault + nat" where
  "load_le k off bs =
     (if off + k \<le> length bs then Inr (le_val (take k (drop off bs))) else Inl OutOfBounds)"

definition store_bytes :: "byte list \<Rightarrow> nat \<Rightarrow> byte list \<Rightarrow> cfault + byte list" where
  "store_bytes src off bs =
     (if off + length src \<le> length bs
      then Inr (take off bs @ src @ drop (off + length src) bs) else Inl OutOfBounds)"

lemma length_le_bytes [simp]: "length (le_bytes n v) = n"
  by (induction n arbitrary: v) auto

lemma length_be_bytes [simp]: "length (be_bytes n v) = n"
  by (simp add: be_bytes_def)

lemma unat_of_nat_byte [simp]: "unat (of_nat (v mod 256) :: byte) = v mod 256"
  by (simp add: unat_of_nat)

lemma unat_byte_less [simp]: "unat (b :: byte) < 256"
  using unsigned_less [of b] by simp

lemma le_val_le_bytes [byte_simps]: "le_val (le_bytes n v) = v mod 256 ^ n"
proof (induction n arbitrary: v)
  case 0
  then show ?case by simp
next
  case (Suc n)
  have "v mod 256 ^ Suc n = v mod (256 * 256 ^ n)" by simp
  also have "\<dots> = 256 * (v div 256 mod 256 ^ n) + v mod 256" by (rule mod_mult2_eq)
  finally show ?case using Suc by simp
qed

lemma le_val_less: "le_val bs < 256 ^ length bs"
proof (induction bs)
  case Nil
  then show ?case by simp
next
  case (Cons b bs)
  with unat_byte_less [of b] show ?case by (simp del: unat_byte_less)
qed

lemma le_bytes_le_val [byte_simps]: "le_bytes (length bs) (le_val bs) = bs"
proof (induction bs)
  case Nil
  then show ?case by simp
next
  case (Cons b bs)
  have b: "unat b < 256" by simp
  then have "of_nat ((unat b + 256 * le_val bs) mod 256) = b" by simp
  moreover have "(unat b + 256 * le_val bs) div 256 = le_val bs" using b by simp
  ultimately show ?case using Cons by simp
qed

lemma be_val_be_bytes [byte_simps]: "be_val (be_bytes n v) = v mod 256 ^ n"
  by (simp add: be_val_def be_bytes_def le_val_le_bytes)

lemma be_bytes_be_val [byte_simps]: "be_bytes (length bs) (be_val bs) = bs"
  using le_bytes_le_val [of "rev bs"] by (simp add: be_val_def be_bytes_def)

lemma be_val_less: "be_val bs < 256 ^ length bs"
  using le_val_less [of "rev bs"] by (simp add: be_val_def)

lemma bswap_less: "bswap n v < 256 ^ n"
  using le_val_less [of "rev (le_bytes n v)"] by (simp add: bswap_def)

lemma bswap_le_val [byte_simps]: "length bs = n \<Longrightarrow> bswap n (le_val bs) = be_val bs"
  using le_bytes_le_val [of bs] by (simp add: bswap_def be_val_def)

lemma le_bytes_bswap [byte_simps]: "le_bytes n (bswap n v) = be_bytes n v"
  using le_bytes_le_val [of "rev (le_bytes n v)"] by (simp add: bswap_def be_bytes_def)

lemma le_bytes_mod [byte_simps]: "le_bytes n (v mod 256 ^ n) = le_bytes n v"
  using le_bytes_le_val [of "le_bytes n v"] by (simp add: le_val_le_bytes)

lemma bswap_bswap [byte_simps]: "bswap n (bswap n v) = v mod 256 ^ n"
  by (simp add: bswap_def [of n "bswap n v"] le_bytes_bswap be_bytes_def le_val_le_bytes)

lemma load_le_Inr [simp]:
  "off + k \<le> length bs \<Longrightarrow> load_le k off bs = Inr (le_val (take k (drop off bs)))"
  by (simp add: load_le_def)

lemma length_store_bytes: "store_bytes src off bs = Inr bs' \<Longrightarrow> length bs' = length bs"
  by (auto simp: store_bytes_def split: if_splits)

lemma store_bytes_read:
  "store_bytes src off bs = Inr bs' \<Longrightarrow> take (length src) (drop off bs') = src"
  by (auto simp: store_bytes_def split: if_splits)

section \<open>Signed bytes\<close>

lemma sint_byte: "sint (c :: byte) = (if unat c < 128 then int (unat c) else int (unat c) - 256)"
proof -
  have u: "uint c < 256" "0 \<le> uint c" using uint_bounded [of c] by simp_all
  have "sint c = signed_take_bit 7 (uint c)" by (simp add: sint_uint)
  also have "\<dots> = (uint c + 128) mod 256 - 128"
    by (simp add: signed_take_bit_eq_take_bit_shift take_bit_eq_mod)
  also have "\<dots> = (if uint c < 128 then uint c else uint c - 256)"
  proof (cases "uint c < 128")
    case True
    with u show ?thesis by simp
  next
    case False
    have "(uint c + 128) mod 256 = (uint c + 128 - 256) mod 256"
      by (rule minus_mod_self2 [symmetric])
    also have "\<dots> = uint c - 128" using u False by (simp add: mod_pos_pos_trivial)
    finally show ?thesis using False by simp
  qed
  finally show ?thesis
    using of_nat_less_iff [of "unat c" 128, where 'a = int] by simp
qed

lemma size_mod_ge: "0 < sz \<Longrightarrow> 256 \<le> size_mod sz"
  using power_increasing [of 8 "8 * sz" "2::nat"] by (simp add: size_mod_def)

lemma size_of_char_nonneg:
  assumes "unat c < 128" and "0 < sz"
  shows "size_of_char sz c = unat c"
proof -
  have "nat (int (unat c) mod int (size_mod sz)) = unat c mod size_mod sz"
    by (simp add: nat_mod_distrib del: of_nat_unat)
  also have "\<dots> = unat c" using assms(1) size_mod_ge [OF assms(2)] by simp
  finally show ?thesis using assms by (simp add: size_of_char_def sint_byte del: of_nat_unat)
qed

lemma size_of_char_neg:
  assumes "128 \<le> unat c" and "0 < sz"
  shows "size_of_char sz c = size_mod sz + unat c - 256"
proof -
  have m: "256 \<le> size_mod sz" by (rule size_mod_ge [OF assms(2)])
  have u: "unat c < 256" by simp
  have "(int (unat c) - 256) mod int (size_mod sz)
      = (int (unat c) - 256 + int (size_mod sz)) mod int (size_mod sz)" by simp
  also have "\<dots> = int (unat c) - 256 + int (size_mod sz)"
    using m u by (intro mod_pos_pos_trivial) linarith+
  finally show ?thesis using assms m by (simp add: size_of_char_def sint_byte del: of_nat_unat)
qed

section \<open>Lists\<close>

lemma length_2D: "length xs = 2 \<Longrightarrow> \<exists>a b. xs = [a, b]"
  by (auto simp: length_Suc_conv eval_nat_numeral)

lemma length_4D: "length xs = 4 \<Longrightarrow> \<exists>a b c d. xs = [a, b, c, d]"
  by (auto simp: length_Suc_conv eval_nat_numeral)

lemma length_5D: "length xs = 5 \<Longrightarrow> \<exists>a b c d e. xs = [a, b, c, d, e]"
  by (auto simp: length_Suc_conv eval_nat_numeral)

lemma length_4_plusD: "length xs = 4 + k \<Longrightarrow> \<exists>a b c d zs. xs = a # b # c # d # zs \<and> length zs = k"
  by (auto simp: length_Suc_conv eval_nat_numeral)

lemma take_append_exact [simp]: "length xs = n \<Longrightarrow> take n (xs @ ys) = xs"
  by simp

lemma drop_append_exact [simp]: "length xs = n \<Longrightarrow> drop n (xs @ ys) = ys"
  by simp

section \<open>Words of 32 bits as numbers\<close>

text \<open>\<open>NN_B\<close> is the number of their values, the base of the multiple-precision arithmetic.\<close>

abbreviation NN_B :: nat where "NN_B \<equiv> 4294967296"

lemma unat_u32_less [simp]: "unat (x :: u32) < NN_B" using unsigned_less [of x] by simp

lemma unat_u32_add: "unat (a + b :: u32) = (if unat a + unat b < NN_B then unat a
  + unat b else unat a + unat b - NN_B)"
  using unat_u32_less[of a] unat_u32_less[of b]
    by (simp add: unat_word_ariths mod_if del: unat_u32_less)

lemma unat_u32_sub: "unat (a - b :: u32) = (if unat b \<le> unat a then unat a - unat b else NN_B
  + unat a - unat b)"
  using unat_sub_if_size [of a b] by (auto simp add: word_size)

lemma u32_eq_iff: "(a :: u32) = b \<longleftrightarrow> unat a = unat b" by (rule word_unat_eq_iff)

lemma unat_take_bit_u32: "unat (take_bit n (a::u32)) = unat a mod 2 ^ n"
  by (simp add: unsigned_take_bit_eq flip: take_bit_eq_mod)

lemma unat_drop_bit_u32: "unat (drop_bit n (a::u32)) = unat a div 2 ^ n"
proof -
  have "take_bit 32 (unat a) = unat a" using unat_u32_less [of a]
    by (intro take_bit_nat_eq_self) simp
  then show ?thesis by (simp add: unsigned_drop_bit_eq flip: drop_bit_eq_div)
qed

lemma unat_push_bit_u32: "unat (push_bit n (a::u32)) = (unat a * 2 ^ n) mod NN_B"
  using unsigned_push_bit_eq [of n a, where 'a = nat]
  by (simp add: push_bit_eq_mult take_bit_eq_mod mult.commute)

lemma unat_mult_nowrap: "unat a * unat b < NN_B \<Longrightarrow> unat (a * b :: u32)
  = unat a * unat b"
  by (simp add: unat_word_ariths)

lemma unat_or_disjoint: "a AND b = 0 \<Longrightarrow> unat (a OR b :: 'a::len word) = unat a
  + unat b"
proof -
  assume "a AND b = 0"
  then have "unat a AND unat b = 0" by (simp flip: unsigned_and_eq)
  then show ?thesis by (simp add: unsigned_or_eq disjunctive_add_eq_or)
qed

lemma push_bit_and_low: "unat (x :: u32) < 2 ^ c \<Longrightarrow> push_bit c y AND x = 0"
proof -
  assume a: "unat x < 2 ^ c"
  then have tb: "take_bit c x = x" by (simp add: u32_eq_iff unat_take_bit_u32)
  show ?thesis by (rule bit_eqI) (subst tb [symmetric], auto simp add: bit_simps)
qed

lemma or_add_low: "unat (x :: u32) < 2 ^ c \<Longrightarrow> unat (push_bit c y OR x)
  = unat (push_bit c y) + unat x"
  by (intro unat_or_disjoint push_bit_and_low)

lemma unat_ucast_byte: "unat (ucast (x :: byte) :: u32) = unat x"
  using order_less_trans [OF unat_byte_less [of x], of NN_B]
  by (simp add: unsigned_ucast_eq take_bit_nat_eq_self_iff del: unat_byte_less)

lemma ucast_drop_byte: "(ucast (drop_bit u (t :: u32)) :: byte) = of_nat (unat t div 2 ^ u mod 256)"
proof -
  have "unat (ucast (drop_bit u t) :: byte) = unat t div 2 ^ u mod 256"
    by (simp add: unsigned_ucast_eq unat_drop_bit_u32 take_bit_eq_mod)
  then show ?thesis by (simp add: word_unat_eq_iff)
qed

lemma le_val_append: "le_val (xs @ ys) = le_val xs + 256 ^ length xs * le_val ys"
  by (induction xs) (simp_all add: algebra_simps)

lemma le_bytes_add: "le_bytes (m + n) v = le_bytes m v @ le_bytes n (v div 256 ^ m)"
  by (induction m arbitrary: v) (simp_all add: div_mult2_eq)

end
