(* ===== verification/NN_Basic.thy ===== *)
theory NN_Basic
  imports QS_Prelude
begin

text \<open>
  \<^verbatim>\<open>QBase/RSAEuro/nn.c\<close>, first part: natural numbers as arrays of 32-bit
    digits, least significant
  first. An array argument \<open>x[digits]\<close> of the source is the list of its first
    \<open>digits\<close> cells, and
  an operation returns the list of the cells it writes (with the carry where the source returns
  one). The loops walk the arrays with pointers that move by one cell, which is recursion over
  the lists; every operation reads a cell before the same cell of an aliased destination is
  written, so the source's in-place calls give the same values.
\<close>

section \<open>Digits and their value\<close>

type_synonym nn_digit = u32

definition MAX_NN_DIGIT :: nn_digit where "MAX_NN_DIGIT = 0xffffffff"
definition MAX_NN_HALF_DIGIT :: nn_digit where "MAX_NN_HALF_DIGIT = 0xffff"
definition LOW_HALF :: "nn_digit \<Rightarrow> nn_digit" where "LOW_HALF x
  = x AND MAX_NN_HALF_DIGIT"
definition HIGH_HALF :: "nn_digit \<Rightarrow> nn_digit" where
  "HIGH_HALF x = drop_bit 16 x AND MAX_NN_HALF_DIGIT"
definition TO_HIGH_HALF :: "nn_digit \<Rightarrow> nn_digit" where "TO_HIGH_HALF x = push_bit 16 x"
definition DIGIT_2MSB :: "nn_digit \<Rightarrow> nn_digit" where "DIGIT_2MSB x
  = drop_bit 30 x AND 3"

fun nn_val :: "nn_digit list \<Rightarrow> nat" where
  "nn_val [] = 0"
| "nn_val (d # ds) = unat d + NN_B * nn_val ds"

section \<open>The operations\<close>

subsection \<open>Conversions\<close>

text \<open>
  \<^verbatim>\<open>NN_Decode\<close> reads the character string from its last byte down; the
    bytes still to read are
  held last first.
\<close>

fun nn_decode_digit :: "nat \<Rightarrow> nn_digit \<Rightarrow> byte list \<Rightarrow> nn_digit
  \<times> byte list" where
  "nn_decode_digit u t [] = (t, [])"
| "nn_decode_digit u t (x # rb) =
     (if u < 32 then nn_decode_digit (u + 8) (t OR push_bit u (ucast x)) rb else (t, x # rb))"

fun nn_decode_digits :: "nat \<Rightarrow> byte list \<Rightarrow> nn_digit list" where
  "nn_decode_digits 0 rb = []"
| "nn_decode_digits (Suc n) [] = 0 # nn_decode_digits n []"
| "nn_decode_digits (Suc n) (x # rb) =
     (let (t, rb') = nn_decode_digit 0 0 (x # rb) in t # nn_decode_digits n rb')"

definition NN_Decode :: "nat \<Rightarrow> byte list \<Rightarrow> nn_digit list" where
  "NN_Decode digits b = nn_decode_digits digits (rev b)"

text \<open>\<^verbatim>\<open>NN_Encode\<close> writes the last byte first; \<open>n\<close>
  cells are still to be written.\<close>

fun nn_encode_digit :: "nat \<Rightarrow> nat \<Rightarrow> nn_digit \<Rightarrow> byte list" where
  "nn_encode_digit u 0 t = []"
| "nn_encode_digit u (Suc n) t =
     (if u < 32 then ucast (drop_bit u t) # nn_encode_digit (u + 8) n t else [])"

fun nn_encode_digits :: "nat \<Rightarrow> nn_digit list \<Rightarrow> byte list" where
  "nn_encode_digits n [] = replicate n 0"
| "nn_encode_digits n (t # b) =
     (if n = 0 then [] else nn_encode_digit 0 n t @ nn_encode_digits (n - 4) b)"

definition NN_Encode :: "nat \<Rightarrow> nn_digit list \<Rightarrow> byte list" where
  "NN_Encode len b = rev (nn_encode_digits len b)"

subsection \<open>Assignments\<close>

definition NN_Assign :: "nn_digit list \<Rightarrow> nat \<Rightarrow> nn_digit list" where
  "NN_Assign b digits = take digits b"

definition NN_AssignZero :: "nat \<Rightarrow> nn_digit list" where
  "NN_AssignZero digits = replicate digits 0"

definition NN_ASSIGN_DIGIT :: "nn_digit \<Rightarrow> nat \<Rightarrow> nn_digit list" where
  "NN_ASSIGN_DIGIT b digits = (NN_AssignZero digits)[0 := b]"

definition NN_Assign2Exp :: "nat \<Rightarrow> nat \<Rightarrow> nn_digit list" where
  "NN_Assign2Exp b digits =
     (if b \<ge> digits * 32 then NN_AssignZero digits
      else (NN_AssignZero digits)[b div 32 := push_bit (b mod 32) 1])"

subsection \<open>Addition and subtraction\<close>

text \<open>One turn of the loop of \<^verbatim>\<open>NN_Add\<close>: the digit written and the
  carry.\<close>

definition nn_add_digit :: "nn_digit \<Rightarrow> nn_digit \<Rightarrow> nn_digit \<Rightarrow>
  nn_digit \<times> nn_digit" where
  "nn_add_digit carry b c =
     (let temp = b + carry
      in if temp < carry then (c, carry)
         else let temp = temp + c in (temp, if temp < c then 1 else 0))"

fun nn_add :: "nn_digit \<Rightarrow> nn_digit list \<Rightarrow> nn_digit list \<Rightarrow>
  nn_digit list \<times> nn_digit" where
  "nn_add carry (b # bs) (c # cs) =
     (case nn_add_digit carry b c of (temp, carry') \<Rightarrow>
        case nn_add carry' bs cs of (as, carry'') \<Rightarrow> (temp # as, carry''))"
| "nn_add carry [] cs = ([], carry)"
| "nn_add carry bs [] = ([], carry)"

definition NN_Add :: "nn_digit list \<Rightarrow> nn_digit list \<Rightarrow> nn_digit list
  \<times> nn_digit" where
  "NN_Add b c = nn_add 0 b c"

text \<open>The same for \<^verbatim>\<open>NN_Sub\<close>.\<close>

definition nn_sub_digit :: "nn_digit \<Rightarrow> nn_digit \<Rightarrow> nn_digit \<Rightarrow>
  nn_digit \<times> nn_digit" where
  "nn_sub_digit borrow b c =
     (let temp = b - borrow
      in if temp = MAX_NN_DIGIT then (MAX_NN_DIGIT - c, borrow)
         else let temp = temp - c in (temp, if temp > MAX_NN_DIGIT - c then 1 else 0))"

fun nn_sub :: "nn_digit \<Rightarrow> nn_digit list \<Rightarrow> nn_digit list \<Rightarrow>
  nn_digit list \<times> nn_digit" where
  "nn_sub borrow (b # bs) (c # cs) =
     (case nn_sub_digit borrow b c of (temp, borrow') \<Rightarrow>
        case nn_sub borrow' bs cs of (as, borrow'') \<Rightarrow> (temp # as, borrow''))"
| "nn_sub borrow [] cs = ([], borrow)"
| "nn_sub borrow bs [] = ([], borrow)"

definition NN_Sub :: "nn_digit list \<Rightarrow> nn_digit list \<Rightarrow> nn_digit list
  \<times> nn_digit" where
  "NN_Sub b c = nn_sub 0 b c"

subsection \<open>Multiplication\<close>

text \<open>\<^verbatim>\<open>dmult\<close>: the 64-bit product of two digits from four
  half-digit products.\<close>

definition dmult :: "nn_digit \<Rightarrow> nn_digit \<Rightarrow> nn_digit \<times> nn_digit" where
  "dmult a b =
     (let al = LOW_HALF a; ah = HIGH_HALF a; bl = LOW_HALF b; bh = HIGH_HALF b;
          low = al * bl; high = ah * bh;
          m1 = al * bh; m2 = ah * bl; m = m1 + m2;
          carry = (if m < m1 then push_bit 16 1 else 0);
          ml = push_bit 16 (m AND MAX_NN_HALF_DIGIT);
          mh = drop_bit 16 m;
          low = low + ml;
          carry = (if low < ml then carry + 1 else carry);
          high = high + (carry + mh)
      in (high, low))"

text \<open>
  \<^verbatim>\<open>NN_Digits\<close>: the significant length of the first \<open>digits\<close>
    cells, scanned from the top.
\<close>

fun nn_digits :: "nn_digit list \<Rightarrow> nat \<Rightarrow> nat" where
  "nn_digits a 0 = 0"
| "nn_digits a (Suc n) = (if a ! n \<noteq> 0 then Suc n else nn_digits a n)"

definition NN_Digits :: "nn_digit list \<Rightarrow> nat" where
  "NN_Digits a = nn_digits a (length a)"

text \<open>
  One turn of the inner loop of \<^verbatim>\<open>NN_Mult\<close> on the cell
    \<open>t[i+j]\<close>, the inner loop on the cells from
  \<open>t[i]\<close> on with the final \<open>t[i+cDigits] += carry\<close>, and the outer loop,
    which moves the window
  into \<open>t\<close> up by one cell.
\<close>

definition nn_mult_digit :: "nn_digit \<Rightarrow> nn_digit \<Rightarrow> nn_digit \<Rightarrow>
  nn_digit \<Rightarrow> nn_digit \<times> nn_digit" where
  "nn_mult_digit b c carry t =
     (case dmult b c of (dhigh, dlow) \<Rightarrow>
        let t = t + carry;
            carry = (if t < carry then 1 else 0);
            t = t + dlow;
            carry = (if t < dlow then carry + 1 else carry)
        in (t, carry + dhigh))"

fun nn_mult_row :: "nn_digit \<Rightarrow> nn_digit list \<Rightarrow> nn_digit \<Rightarrow>
  nn_digit list \<Rightarrow> nn_digit list" where
  "nn_mult_row b (c # cs) carry (t # ts) =
     (case nn_mult_digit b c carry t of (t', carry') \<Rightarrow> t' # nn_mult_row b cs carry' ts)"
| "nn_mult_row b [] carry (t # ts) = (t + carry) # ts"
| "nn_mult_row b cs carry [] = []"

fun nn_mult :: "nn_digit list \<Rightarrow> nn_digit list \<Rightarrow> nn_digit list
  \<Rightarrow> nn_digit list" where
  "nn_mult [] cs t = t"
| "nn_mult (b # bs) cs t =
     (case (if b \<noteq> 0 then nn_mult_row b cs 0 t else t) of
        t0 # ts \<Rightarrow> t0 # nn_mult bs cs ts | [] \<Rightarrow> [])"

definition NN_Mult :: "nn_digit list \<Rightarrow> nn_digit list \<Rightarrow> nat \<Rightarrow>
  nn_digit list" where
  "NN_Mult b c digits =
     (let t = NN_AssignZero (2 * digits);
          bDigits = NN_Digits (take digits b);
          cDigits = NN_Digits (take digits c)
      in NN_Assign (nn_mult (take bDigits b) (take cDigits c) t) (2 * digits))"

subsection \<open>Shifts\<close>

fun nn_lshift :: "nat \<Rightarrow> nn_digit \<Rightarrow> nn_digit list \<Rightarrow> nn_digit
  list \<times> nn_digit" where
  "nn_lshift c carry [] = ([], carry)"
| "nn_lshift c carry (temp # b) =
     (case nn_lshift c (if c \<noteq> 0 then drop_bit (32 - c) temp else 0) b of
        (a, carry') \<Rightarrow> ((push_bit c temp OR carry) # a, carry'))"

text \<open>Nothing is written when \<open>c\<close> is not smaller than the digit;
  \<open>a\<close> is the old destination.\<close>

definition NN_LShift :: "nn_digit list \<Rightarrow> nn_digit list \<Rightarrow> nat \<Rightarrow>
  nn_digit list \<times> nn_digit" where
  "NN_LShift a b c = (if c < 32 then nn_lshift c 0 b else (a, 0))"

text \<open>\<^verbatim>\<open>NN_RShift\<close> walks down; the list argument is the digits still
  to process, top first.\<close>

fun nn_rshift :: "nat \<Rightarrow> nn_digit \<Rightarrow> nn_digit list \<Rightarrow> nn_digit
  list \<times> nn_digit" where
  "nn_rshift c carry [] = ([], carry)"
| "nn_rshift c carry (temp # b) =
     (case nn_rshift c (if c \<noteq> 0 then push_bit (32 - c) temp else 0) b of
        (a, carry') \<Rightarrow> ((drop_bit c temp OR carry) # a, carry'))"

definition NN_RShift :: "nn_digit list \<Rightarrow> nn_digit list \<Rightarrow> nat \<Rightarrow>
  nn_digit list \<times> nn_digit" where
  "NN_RShift a b c =
     (if c < 32 then (case nn_rshift c 0 (rev b) of (r, carry) \<Rightarrow> (rev r, carry)) else
       (a, 0))"

subsection \<open>Comparisons and lengths\<close>

text \<open>\<^verbatim>\<open>NN_Cmp\<close> on the first \<open>digits\<close> cells, from the
  top.\<close>

fun nn_cmp :: "nn_digit list \<Rightarrow> nn_digit list \<Rightarrow> nat \<Rightarrow> int" where
  "nn_cmp a b 0 = 0"
| "nn_cmp a b (Suc n) = (if a ! n > b ! n then 1 else if a ! n < b ! n then -1 else nn_cmp a b n)"

definition NN_Cmp :: "nn_digit list \<Rightarrow> nn_digit list \<Rightarrow> nat \<Rightarrow>
  int" where
  "NN_Cmp a b digits = nn_cmp a b digits"

fun NN_Zero :: "nn_digit list \<Rightarrow> bool" where
  "NN_Zero [] = True"
| "NN_Zero (x # a) = (if x \<noteq> 0 then False else NN_Zero a)"

fun nn_digitbits :: "nat \<Rightarrow> nn_digit \<Rightarrow> nat" where
  "nn_digitbits 0 a = 0"
| "nn_digitbits (Suc n) a = (if a = 0 then 0 else Suc (nn_digitbits n (drop_bit 1 a)))"

definition NN_DigitBits :: "nn_digit \<Rightarrow> nat" where
  "NN_DigitBits a = nn_digitbits 32 a"

definition NN_Bits :: "nn_digit list \<Rightarrow> nat" where
  "NN_Bits a = (let digits = NN_Digits a
                in if digits = 0 then 0 else (digits - 1) * 32 + NN_DigitBits (a ! (digits - 1)))"

text \<open>
  \<^verbatim>\<open>subdigitmult\<close>: the digits of \<open>b - c * d\<close> and the borrow.
    When \<open>c\<close> is 0 the source writes
  nothing, and its only call has \<open>a = b\<close>.
\<close>

definition nn_submult_digit :: "nn_digit \<Rightarrow> nn_digit \<Rightarrow> nn_digit
  \<Rightarrow> nn_digit \<Rightarrow> nn_digit \<times> nn_digit" where
  "nn_submult_digit c borrow b d =
     (case dmult c d of (thigh, tlow) \<Rightarrow>
        let a = b - borrow;
            borrow = (if a > MAX_NN_DIGIT - borrow then 1 else 0);
            a = a - tlow;
            borrow = (if a > MAX_NN_DIGIT - tlow then borrow + 1 else borrow)
        in (a, borrow + thigh))"

fun nn_submult :: "nn_digit \<Rightarrow> nn_digit \<Rightarrow> nn_digit list \<Rightarrow>
  nn_digit list \<Rightarrow> nn_digit list \<times> nn_digit" where
  "nn_submult c borrow (b # bs) (d # ds) =
     (case nn_submult_digit c borrow b d of (a, borrow') \<Rightarrow>
        case nn_submult c borrow' bs ds of (as, borrow'') \<Rightarrow> (a # as, borrow''))"
| "nn_submult c borrow [] ds = ([], borrow)"
| "nn_submult c borrow bs [] = ([], borrow)"

definition subdigitmult :: "nn_digit list \<Rightarrow> nn_digit \<Rightarrow> nn_digit list
  \<Rightarrow> nn_digit list \<times> nn_digit" where
  "subdigitmult b c d = (if c \<noteq> 0 then nn_submult c 0 b d else (take (length d) b, 0))"

section \<open>Digits as numbers\<close>

lemma unat_MAX: "unat MAX_NN_DIGIT = NN_B - 1" by (simp add: MAX_NN_DIGIT_def)

lemmas u32_arith = unat_u32_add unat_u32_sub unat_MAX word_less_nat_alt word_le_nat_alt 

section \<open>Addition and subtraction\<close>

lemma nn_add_digit_val:
  assumes "unat carry \<le> 1" "nn_add_digit carry b c = (t, k)"
  shows "unat t + NN_B * unat k = unat b + unat c + unat carry" "unat k \<le> 1"
  using assms unat_u32_less[of b] unat_u32_less[of c]
  by (auto simp: nn_add_digit_def Let_def u32_arith simp del: unat_u32_less split: if_splits)

lemma nn_add_val:
  assumes "length b = length c" "unat carry \<le> 1" "nn_add carry b c = (a, k)"
  shows "nn_val a + NN_B ^ length b * unat k = nn_val b + nn_val c + unat carry \<and> length a
    = length b \<and> unat k \<le> 1"
  using assms
proof (induction b c arbitrary: carry a k rule: list_induct2)
  case Nil
  then show ?case by simp
next
  case (Cons b bs c cs)
  obtain t k' where d: "nn_add_digit carry b c = (t, k')" by force
  obtain as where as: "nn_add k' bs cs = (as, k)" "a = t # as"
    using Cons.prems(2) d by (auto split: prod.splits)
  note step = nn_add_digit_val [OF Cons.prems(1) d]
  note IH = Cons.IH [OF step(2) as(1)]
  then have "NN_B * (nn_val as + NN_B ^ length bs * unat k) = NN_B * (nn_val bs + nn_val cs
    + unat k')" by simp
  with step(1) IH as(2) show ?case by (simp add: algebra_simps)
qed

lemma nn_sub_digit_val:
  assumes "unat w \<le> 1" "nn_sub_digit w b c = (t, k)"
  shows "unat t + unat c + unat w = unat b + NN_B * unat k" "unat k \<le> 1"
  using assms unat_u32_less[of b] unat_u32_less[of c]
  by (auto simp: nn_sub_digit_def Let_def u32_arith u32_eq_iff simp del: unat_u32_less split:
    if_splits)

lemma nn_sub_val:
  assumes "length b = length c" "unat w \<le> 1" "nn_sub w b c = (a, k)"
  shows "nn_val a + nn_val c + unat w = nn_val b + NN_B ^ length b * unat k \<and> length a
    = length b \<and> unat k \<le> 1"
  using assms
proof (induction b c arbitrary: w a k rule: list_induct2)
  case Nil
  then show ?case by simp
next
  case (Cons b bs c cs)
  obtain t k' where d: "nn_sub_digit w b c = (t, k')" by force
  obtain as where as: "nn_sub k' bs cs = (as, k)" "a = t # as"
    using Cons.prems(2) d by (auto split: prod.splits)
  note step = nn_sub_digit_val [OF Cons.prems(1) d]
  note IH = Cons.IH [OF step(2) as(1)]
  then have "NN_B * (nn_val as + nn_val cs + unat k') = NN_B * (nn_val bs
    + NN_B ^ length bs * unat k)" by simp
  with step(1) IH as(2) show ?case by (simp add: algebra_simps)
qed

section \<open>Products\<close>

lemma LOW_HALF_take_bit: "LOW_HALF a = take_bit 16 a"
  by (simp add: LOW_HALF_def MAX_NN_HALF_DIGIT_def take_bit_eq_mask mask_eq_exp_minus_1)

lemma unat_LOW_HALF: "unat (LOW_HALF a) = unat a mod 65536"
  by (simp only: LOW_HALF_take_bit unat_take_bit_u32) simp

lemma HIGH_HALF_bits: "HIGH_HALF a = take_bit 16 (drop_bit 16 a)"
  by (simp only: HIGH_HALF_def LOW_HALF_take_bit [symmetric] LOW_HALF_def)

lemma unat_HIGH_HALF: "unat (HIGH_HALF a) = unat a div 65536"
proof -
  have "unat (HIGH_HALF a) = (unat a div 65536) mod 65536"
    by (simp only: HIGH_HALF_bits unat_take_bit_u32 unat_drop_bit_u32) simp
  moreover have "unat a div 65536 < 65536" using unat_u32_less[of a] by (simp del: unat_u32_less)
  ultimately show ?thesis by simp
qed

lemma half_prod: "x < 65536 \<Longrightarrow> y < 65536
  \<Longrightarrow> x * y \<le> 65535 * (65535::nat)"
  by (intro mult_le_mono) auto

lemma dmult_nat:
  fixes ah al bh bl m0 m1 l0 l1 :: nat
  assumes M: "al * bh + ah * bl = 65536 * m1 + m0" and L: "al * bl + m0 * 65536 = NN_B * l1 + l0"
  shows "(65536 * ah + al) * (65536 * bh + bl) = NN_B * (ah * bh + m1 + l1) + l0"
proof -
  have "(65536 * ah + al) * (65536 * bh + bl) = NN_B * (ah * bh) + 65536 * (al * bh + ah * bl)
    + al * bl"
    by (simp add: algebra_simps)
  also have "\<dots> = NN_B * (ah * bh) + NN_B * m1 + (al * bl + m0 * 65536)" unfolding M by simp
  finally show ?thesis unfolding L by simp
qed

lemma dmult_val:
  assumes "dmult a b = (high, low)"
  shows "NN_B * unat high + unat low = unat a * unat b"
proof -
  let ?ah = "unat a div 65536" and ?al = "unat a mod 65536"
  let ?bh = "unat b div 65536" and ?bl = "unat b mod 65536"
  have lt: "?al < 65536" "?bl < 65536" "?ah < 65536" "?bh < 65536"
    using unat_u32_less[of a] unat_u32_less[of b] by (simp_all del: unat_u32_less)
  note hp = half_prod [OF lt(1) lt(4)] half_prod [OF lt(3) lt(2)] half_prod [OF lt(1) lt(2)]
    half_prod [OF lt(3) lt(4)]
  define m1 where "m1 = LOW_HALF a * HIGH_HALF b"
  define m2 where "m2 = HIGH_HALF a * LOW_HALF b"
  define m where "m = m1 + m2"
  define ml where "ml = push_bit 16 (m AND MAX_NN_HALF_DIGIT)"
  define lo where "lo = LOW_HALF a * LOW_HALF b"
  define hi where "hi = HIGH_HALF a * HIGH_HALF b"
  define c1 where "c1 = (if m < m1 then 65536 else 0 :: nat)"
  define c2 where "c2 = (if lo + ml < ml then 1 else 0 :: nat)"
  have v: "unat m1 = ?al * ?bh" "unat m2 = ?ah * ?bl" "unat lo = ?al * ?bl" "unat hi = ?ah * ?bh"
    unfolding m1_def m2_def lo_def hi_def using hp
    by (simp_all add: unat_mult_nowrap unat_LOW_HALF unat_HIGH_HALF)
  have ml: "unat ml = (unat m mod 65536) * 65536"
  proof -
    have "unat m mod 65536 < 65536" by simp
    moreover have "m AND MAX_NN_HALF_DIGIT = LOW_HALF m" by (simp add: LOW_HALF_def)
    ultimately show ?thesis unfolding ml_def by (simp add: unat_push_bit_u32 unat_LOW_HALF)
  qed
  have M: "?al * ?bh + ?ah * ?bl = 65536 * (c1 + unat m div 65536) + unat m mod 65536"
  proof -
    have "?al * ?bh + ?ah * ?bl = 65536 * c1 + unat m"
      unfolding v(1,2) [symmetric] m_def c1_def
      using unat_u32_less[of m1] unat_u32_less[of m2]
        by (auto simp: u32_arith simp del: unat_u32_less)
    then show ?thesis by simp
  qed
  have L: "?al * ?bl + (unat m mod 65536) * 65536 = NN_B * c2 + unat (lo + ml)"
    unfolding v(3) [symmetric] ml [symmetric] c2_def
    using unat_u32_less[of lo] unat_u32_less[of ml]
      by (auto simp: u32_arith simp del: unat_u32_less)
  have eq: "unat a * unat b = NN_B * (?ah * ?bh + (c1 + unat m div 65536) + c2) + unat (lo + ml)"
    using dmult_nat [OF M L] by simp
  have "unat a * unat b < NN_B * NN_B"
    using unat_u32_less[of a] unat_u32_less[of b] by (intro mult_strict_mono') auto
  with eq have small: "?ah * ?bh + (c1 + unat m div 65536) + c2 < NN_B" by simp
  define cw where "cw = (let carry = (if m < m1 then push_bit 16 1 else 0 :: u32) in if lo
    + ml < ml then carry + 1 else carry)"
  have cw: "unat cw = c1 + c2" by (simp add: cw_def c1_def c2_def Let_def)
  have "high = hi + (cw + drop_bit 16 m)" "low = lo + ml"
    using assms unfolding dmult_def Let_def cw_def hi_def lo_def m_def m1_def m2_def ml_def
      by (simp_all split: if_splits)
  moreover have "unat (hi + (cw + drop_bit 16 m)) = ?ah * ?bh + (c1 + unat m div 65536) + c2"
    using small by (simp add: unat_u32_add cw v(4) unat_drop_bit_u32)
  ultimately show ?thesis using eq by simp
qed

lemma digit_prod_bound: "unat (a::u32) * unat (b::u32) \<le> (NN_B - 1) * (NN_B - 1)"
  using unat_u32_less[of a] unat_u32_less[of b]
    by (intro mult_le_mono) (simp_all del: unat_u32_less)

lemma nn_mult_digit_val:
  assumes "nn_mult_digit b c carry t = (t', k)"
  shows "unat t' + NN_B * unat k = unat t + unat carry + unat b * unat c"
proof -
  obtain dh dl where d: "dmult b c = (dh, dl)" by force
  note dv = dmult_val [OF d]
  define t1 where "t1 = t + carry"
  define k1 where "k1 = (if t1 < carry then 1 else 0 :: u32)"
  define k2 where "k2 = (if t1 + dl < dl then k1 + 1 else k1)"
  have r: "t' = t1 + dl" "k = k2 + dh"
    using assms d by (auto simp: nn_mult_digit_def Let_def t1_def k1_def k2_def split: if_splits)
  have 1: "unat t1 + NN_B * unat k1 = unat t + unat carry"
    using unat_u32_less[of t] unat_u32_less[of carry] unfolding t1_def k1_def
    by (auto simp: u32_arith simp del: unat_u32_less)
  have 2: "unat (t1 + dl) + NN_B * unat k2 = unat t1 + unat dl + NN_B * unat k1"
    using unat_u32_less[of t1] unat_u32_less[of dl] unfolding k2_def k1_def
    by (auto simp: u32_arith simp del: unat_u32_less)
  have "unat t + unat carry + unat b * unat c \<le> (NN_B - 1) + (NN_B - 1)
    + (NN_B - 1) * (NN_B - 1)"
    using unat_u32_less[of t] unat_u32_less[of carry] digit_prod_bound[of b c]
    by (intro add_mono) (simp_all del: unat_u32_less)
  with 1 2 dv have "NN_B * (unat k2 + unat dh) < NN_B * NN_B" by (simp add: algebra_simps)
  then have "unat k2 + unat dh < NN_B" by simp
  then have "unat k = unat k2 + unat dh" using r by (simp add: unat_u32_add)
  with r 1 2 dv show ?thesis by (simp add: algebra_simps)
qed

lemma nn_submult_digit_val:
  assumes "nn_submult_digit c w b d = (a, k)"
  shows "unat a + unat w + unat c * unat d = unat b + NN_B * unat k"
proof -
  obtain dh dl where d: "dmult c d = (dh, dl)" by force
  note dv = dmult_val [OF d]
  define a1 where "a1 = b - w"
  define k1 where "k1 = (if a1 > MAX_NN_DIGIT - w then 1 else 0 :: u32)"
  define k2 where "k2 = (if a1 - dl > MAX_NN_DIGIT - dl then k1 + 1 else k1)"
  have r: "a = a1 - dl" "k = k2 + dh"
    using assms d by (auto simp: nn_submult_digit_def Let_def a1_def k1_def k2_def split: if_splits)
  have 1: "unat a1 + unat w = unat b + NN_B * unat k1"
    using unat_u32_less[of b] unat_u32_less[of w] unfolding a1_def k1_def
    by (auto simp: u32_arith simp del: unat_u32_less)
  have 2: "unat (a1 - dl) + unat dl + NN_B * unat k1 = unat a1 + NN_B * unat k2"
    using unat_u32_less[of a1] unat_u32_less[of dl] unfolding k2_def k1_def
    by (auto simp: u32_arith simp del: unat_u32_less)
  have le: "unat a + unat w + unat c * unat d \<le> (NN_B - 1) + (NN_B - 1)
    + (NN_B - 1) * (NN_B - 1)"
    using unat_u32_less[of a] unat_u32_less[of w] digit_prod_bound[of c d]
    by (intro add_mono) (simp_all del: unat_u32_less)
  have e: "unat a + unat w + unat c * unat d = unat b + NN_B * (unat k2 + unat dh)"
    using 1 2 [folded r(1)] dv unfolding distrib_left by linarith
  with le have "NN_B * (unat k2 + unat dh) < NN_B * NN_B" by simp
  then have "unat k2 + unat dh < NN_B" by simp
  then have "unat k = unat k2 + unat dh" using r by (simp add: unat_u32_add)
  with e show ?thesis by simp
qed

lemma nn_submult_val:
  assumes "length b = length d" "nn_submult c w b d = (a, k)"
  shows "nn_val a + unat w + unat c * nn_val d = nn_val b + NN_B ^ length b * unat k
    \<and> length a = length b"
  using assms
proof (induction b d arbitrary: w a k rule: list_induct2)
  case Nil
  then show ?case by simp
next
  case (Cons b bs d ds)
  obtain t k' where e: "nn_submult_digit c w b d = (t, k')" by force
  obtain as where as: "nn_submult c k' bs ds = (as, k)" "a = t # as"
    using Cons.prems e by (auto split: prod.splits)
  note step = nn_submult_digit_val [OF e]
  note IH = Cons.IH [OF as(1)]
  then have "NN_B * (nn_val as + unat k' + unat c * nn_val ds) = NN_B * (nn_val bs
    + NN_B ^ length bs * unat k)" by simp
  with step IH as(2) show ?case by (simp add: algebra_simps)
qed

lemma subdigitmult_val:
  assumes "length b = length d" "subdigitmult b c d = (a, k)"
  shows "nn_val a + unat c * nn_val d = nn_val b + NN_B ^ length b * unat k \<and> length a
    = length b"
  using assms nn_submult_val [of b d c 0 a k] by (auto simp: subdigitmult_def split: if_splits)

lemma nn_mult_row_val:
  assumes "length cs < length t" "t ! length cs = 0"
  shows "nn_val (nn_mult_row b cs carry t) = nn_val t + unat b * nn_val cs + unat carry
    \<and> length (nn_mult_row b cs carry t) = length t
    \<and> drop (Suc (length cs)) (nn_mult_row b cs carry t) = drop (Suc (length cs)) t"
  using assms
proof (induction cs arbitrary: carry t)
  case Nil
  then obtain ts where "t = 0 # ts" by (cases t) auto
  then show ?case by simp
next
  case (Cons c cs)
  then obtain t0 ts where t: "t = t0 # ts" by (cases t) auto
  obtain t' k where d: "nn_mult_digit b c carry t0 = (t', k)" by force
  note step = nn_mult_digit_val [OF d]
  have IH: "nn_val (nn_mult_row b cs k ts) = nn_val ts + unat b * nn_val cs + unat k
    \<and> length (nn_mult_row b cs k ts) = length ts
    \<and> drop (Suc (length cs)) (nn_mult_row b cs k ts) = drop (Suc (length cs)) ts"
    using Cons.prems t by (intro Cons.IH) auto
  then have "NN_B * nn_val (nn_mult_row b cs k ts) = NN_B * (nn_val ts + unat b * nn_val cs
    + unat k)" by simp
  with step IH t d show ?case by (simp add: algebra_simps)
qed

lemma nn_mult_val:
  assumes "length bs + length cs \<le> length t" "drop (length cs) t
    = replicate (length t - length cs) 0"
  shows "nn_val (nn_mult bs cs t) = nn_val t + nn_val bs * nn_val cs
    \<and> length (nn_mult bs cs t) = length t"
  using assms
proof (induction bs arbitrary: t)
  case Nil
  then show ?case by simp
next
  case (Cons b bs)
  have l: "length cs < length t" using Cons.prems(1) by simp
  then have z: "t ! length cs = 0"
    using arg_cong [OF Cons.prems(2), of "\<lambda>x. x ! 0"] by simp
  define t1 where "t1 = (if b \<noteq> 0 then nn_mult_row b cs 0 t else t)"
  have t1: "nn_val t1 = nn_val t + unat b * nn_val cs \<and> length t1 = length t
      \<and> drop (Suc (length cs)) t1 = drop (Suc (length cs)) t"
    using nn_mult_row_val [OF l z, of b 0] by (simp add: t1_def)
  then obtain h ts where ts: "t1 = h # ts" using l by (cases t1) auto
  have len: "length t = Suc (length ts)" using t1 ts by simp
  have "drop (length cs) ts = drop (Suc (length cs)) t" using t1 ts by simp
  also have "\<dots> = replicate (length ts - length cs) 0"
    using arg_cong [OF Cons.prems(2), of "drop 1"] len by (simp add: drop_drop)
  finally have "nn_val (nn_mult bs cs ts) = nn_val ts + nn_val bs * nn_val cs
    \<and> length (nn_mult bs cs ts) = length ts"
    using Cons.prems(1) t1 ts by (intro Cons.IH) auto
  then show ?case using t1 ts by (simp add: t1_def [symmetric] algebra_simps)
qed

section \<open>Values of arrays\<close>

lemma nn_val_append: "nn_val (xs @ ys) = nn_val xs + NN_B ^ length xs * nn_val ys"
  by (induction xs) (simp_all add: algebra_simps)

lemma nn_val_replicate_0 [simp]: "nn_val (replicate n 0) = 0"
  by (induction n) auto

lemma nn_val_less: "nn_val a < NN_B ^ length a"
proof (induction a)
  case Nil
  then show ?case by simp
next
  case (Cons d a)
  have "unat d + NN_B * nn_val a < NN_B * (nn_val a + 1)"
    using unat_u32_less [of d] by (simp del: unat_u32_less)
  also have "\<dots> \<le> NN_B * NN_B ^ length a" using Cons by (intro mult_le_mono2) simp
  finally show ?case by simp
qed

lemma nn_digits_props:
  assumes "n \<le> length a"
  shows "nn_digits a n \<le> n" "nn_val (take (nn_digits a n) a) = nn_val (take n a)"
    "nn_digits a n \<noteq> 0 \<Longrightarrow> a ! (nn_digits a n - 1) \<noteq> 0"
proof -
  show "nn_digits a n \<le> n" by (induction n) auto
  show "nn_val (take (nn_digits a n) a) = nn_val (take n a)"
    using assms by (induction n) (auto simp: take_Suc_conv_app_nth nn_val_append)
  show "nn_digits a n \<noteq> 0 \<Longrightarrow> a ! (nn_digits a n - 1) \<noteq> 0"
    by (induction n) (auto split: if_splits)
qed

lemma NN_Digits_props:
  shows "NN_Digits a \<le> length a" "nn_val (take (NN_Digits a) a) = nn_val a"
    "NN_Digits a \<noteq> 0 \<Longrightarrow> a ! (NN_Digits a - 1) \<noteq> 0"
  using nn_digits_props [of "length a" a] by (auto simp: NN_Digits_def)

lemma NN_Mult_val:
  assumes "length b = digits" "length c = digits"
  shows "nn_val (NN_Mult b c digits) = nn_val b * nn_val c" "length (NN_Mult b c digits)
    = 2 * digits"
proof -
  let ?bs = "take (NN_Digits b) b" and ?cs = "take (NN_Digits c) c"
  have "length ?bs + length ?cs \<le> 2 * digits" using assms by simp
  then have "nn_val (nn_mult ?bs ?cs (replicate (2 * digits) 0)) = nn_val ?bs * nn_val ?cs
     \<and> length (nn_mult ?bs ?cs (replicate (2 * digits) 0)) = 2 * digits"
    using nn_mult_val [of ?bs ?cs "replicate (2 * digits) 0"] by simp
  then show "nn_val (NN_Mult b c digits) = nn_val b * nn_val c" "length (NN_Mult b c digits)
    = 2 * digits"
    using assms by (simp_all add: NN_Mult_def Let_def NN_AssignZero_def NN_Assign_def
      NN_Digits_props)
qed

lemma nn_val_inj: "length a = length b \<Longrightarrow> nn_val a = nn_val b \<Longrightarrow> a
  = b"
proof (induction a b rule: list_induct2)
  case Nil
  then show ?case by simp
next
  case (Cons x xs y ys)
  have "unat x = unat y \<and> nn_val xs = nn_val ys"
  proof
    have "(unat x + NN_B * nn_val xs) mod NN_B = (unat y + NN_B * nn_val ys) mod NN_B"
      using Cons.prems by simp
    then show e: "unat x = unat y" by simp
    then show "nn_val xs = nn_val ys" using Cons.prems by simp
  qed
  with Cons.IH show ?case by (simp add: u32_eq_iff)
qed

lemma nn_cmp_val:
  assumes "n \<le> length a" "n \<le> length b"
  shows "nn_cmp a b n = (if nn_val (take n a) < nn_val (take n b) then -1 else if nn_val (take n
    a) = nn_val (take n b) then 0 else 1)"
  using assms
proof (induction n)
  case 0
  then show ?case by simp
next
  case (Suc n)
  let ?x = "nn_val (take n a)" and ?y = "nn_val (take n b)"
  have e: "nn_val (take (Suc n) a) = ?x + NN_B ^ n * unat (a ! n)" "nn_val (take (Suc n) b) = ?y
    + NN_B ^ n * unat (b ! n)"
    using Suc.prems by (simp_all add: take_Suc_conv_app_nth nn_val_append)
  have l: "?x < NN_B ^ n" "?y < NN_B ^ n" using nn_val_less [of "take n a"] nn_val_less [of "take
    n b"] Suc.prems by simp_all
  consider "unat (a ! n) < unat (b ! n)" | "unat (a ! n)
    = unat (b ! n)" | "unat (b ! n) < unat (a ! n)" by linarith
  then show ?case
  proof cases
    case 1
    then have "NN_B ^ n * Suc (unat (a ! n)) \<le> NN_B ^ n * unat (b ! n)"
      by (intro mult_le_mono2) simp
    with l e 1 show ?thesis by (simp add: word_less_nat_alt)
  next
    case 2
    with Suc e show ?thesis by (simp add: word_less_nat_alt)
  next
    case 3
    then have "NN_B ^ n * Suc (unat (b ! n)) \<le> NN_B ^ n * unat (a ! n)"
      by (intro mult_le_mono2) simp
    with l e 3 show ?thesis by (simp add: word_less_nat_alt)
  qed
qed

lemma NN_Zero_val: "NN_Zero a \<longleftrightarrow> nn_val a = 0"
  by (induction a) (auto simp: unat_eq_0)

lemma nn_digitbits_val:
  "unat a < 2 ^ n \<Longrightarrow> nn_digitbits n a \<le> n
    \<and> unat a < 2 ^ nn_digitbits n a \<and> (a \<noteq> 0
      \<longrightarrow> nn_digitbits n a \<noteq> 0 \<and> 2 ^ (nn_digitbits n a - 1) \<le> unat a)"
proof (induction n arbitrary: a)
  case 0
  then show ?case by (simp add: unat_eq_0)
next
  case (Suc n)
  show ?case
  proof (cases "a = 0")
    case True
    then show ?thesis by simp
  next
    case False
    let ?h = "drop_bit 1 a"
    have h: "unat ?h = unat a div 2" using unat_drop_bit_u32 [of 1 a] by simp
    have "unat ?h < 2 ^ n" using Suc.prems h by simp
    note IH = Suc.IH [OF this]
    have a0: "0 < unat a" using False by (simp add: unat_gt_0)
    show ?thesis
    proof (cases "?h = 0")
      case True
      then have "unat a div 2 = 0" using h by simp
      then have "unat a = 1" using a0 by simp
      with True False show ?thesis by (cases n) simp_all
    next
      case nz: False
      let ?k = "nn_digitbits n ?h"
      obtain k where k: "?k = Suc k" using IH nz by (cases ?k) auto
      from IH nz h k have "2 ^ k \<le> unat a div 2" "unat a div 2 < 2 ^ Suc k" by auto
      then have "2 ^ Suc k \<le> unat a" "unat a < 2 ^ Suc (Suc k)" by auto
      with IH k False show ?thesis by simp
    qed
  qed
qed

lemma NN_DigitBits_val:
  "NN_DigitBits a \<le> 32 \<and> unat a < 2 ^ NN_DigitBits a
    \<and> (a \<noteq> 0 \<longrightarrow> NN_DigitBits a \<noteq> 0
      \<and> 2 ^ (NN_DigitBits a - 1) \<le> unat a)"
  unfolding NN_DigitBits_def by (rule nn_digitbits_val) simp

section \<open>Shifting\<close>

lemma nn_lshift_digit:
  assumes "c < 32" "unat carry < 2 ^ c"
  shows "unat (push_bit c t OR carry) + NN_B * unat (if c \<noteq> 0 then drop_bit (32 - c) t else
    0 :: u32) = unat t * 2 ^ c + unat carry"
    "unat (if c \<noteq> 0 then drop_bit (32 - c) t else 0 :: u32) < 2 ^ c"
proof -
  have p: "(2::nat) ^ c * 2 ^ (32 - c) = NN_B" using assms(1) by (simp flip: power_add)
  have h: "unat (if c \<noteq> 0 then drop_bit (32 - c) t else 0 :: u32) = unat t * 2 ^ c div NN_B"
  proof (cases "c = 0")
    case True
    then show ?thesis by simp
  next
    case False
    have "unat t * 2 ^ c div NN_B = unat t * 2 ^ c div (2 ^ c * 2 ^ (32 - c))" by (simp only: p)
    also have "\<dots> = unat t div 2 ^ (32 - c)" by (simp add: div_mult2_eq)
    finally show ?thesis using False by (simp add: unat_drop_bit_u32)
  qed
  show "unat (push_bit c t OR carry) + NN_B * unat (if c \<noteq> 0 then drop_bit (32 - c) t else
    0 :: u32) = unat t * 2 ^ c + unat carry"
    unfolding h or_add_low [OF assms(2)] unat_push_bit_u32 by simp
  have "unat t * 2 ^ c < NN_B * 2 ^ c" by simp
  then show "unat (if c \<noteq> 0 then drop_bit (32 - c) t else 0 :: u32) < 2 ^ c"
    unfolding h by (intro less_mult_imp_div_less) (simp add: mult.commute)
qed

lemma nn_lshift_val:
  assumes "c < 32" "unat carry < 2 ^ c" "nn_lshift c carry b = (a, k)"
  shows "nn_val a + NN_B ^ length b * unat k = nn_val b * 2 ^ c + unat carry \<and> length a
    = length b \<and> unat k < 2 ^ c"
  using assms(2,3)
proof (induction b arbitrary: carry a k)
  case Nil
  then show ?case by simp
next
  case (Cons t b)
  let ?k = "if c \<noteq> 0 then drop_bit (32 - c) t else 0 :: u32"
  obtain as where as: "nn_lshift c ?k b = (as, k)" "a = (push_bit c t OR carry) # as"
    using Cons.prems(2) by (auto split: prod.splits)
  note st = nn_lshift_digit [OF assms(1) Cons.prems(1), of t]
  note IH = Cons.IH [OF st(2) as(1)]
  then have "NN_B * (nn_val as + NN_B ^ length b * unat k) = NN_B * (nn_val b * 2 ^ c
    + unat ?k)" by simp
  with st(1) IH as(2) show ?case unfolding as(2) nn_val.simps length_Cons power_Suc distrib_left
    distrib_right by (simp add: algebra_simps)
qed

lemma nn_rshift_val:
  assumes "c < 32" "unat carry = x * 2 ^ (32 - c)" "x < 2 ^ c" "nn_rshift c carry b = (r, k)"
  shows "nn_val (rev r) = (nn_val (rev b) + NN_B ^ length b * x) div 2 ^ c \<and> length r
    = length b"
  using assms(2-4)
proof (induction b arbitrary: carry x r k)
  case Nil
  then show ?case by simp
next
  case (Cons t b)
  let ?k = "if c \<noteq> 0 then push_bit (32 - c) t else 0 :: u32"
  obtain as where as: "nn_rshift c ?k b = (as, k)" "r = (drop_bit c t OR carry) # as"
    using Cons.prems(3) by (auto split: prod.splits)
  have p: "(2::nat) ^ c * 2 ^ (32 - c) = NN_B" using assms(1) by (simp flip: power_add)
  have k: "unat ?k = (unat t mod 2 ^ c) * 2 ^ (32 - c)"
  proof (cases "c = 0")
    case True
    then show ?thesis by simp
  next
    case False
    have "unat t * 2 ^ (32 - c) mod NN_B = unat t * 2 ^ (32 - c) mod (2 ^ c * 2 ^ (32 - c))"
      by (simp only: p)
    also have "\<dots> = (unat t mod 2 ^ c) * 2 ^ (32 - c)" by (simp only: mod_mult_mult2)
    finally show ?thesis using False by (simp add: unat_push_bit_u32)
  qed
  have IH: "nn_val (rev as) = (nn_val (rev b) + NN_B ^ length b * (unat t mod 2 ^ c)) div 2 ^ c
    \<and> length as = length b"
    by (rule Cons.IH [OF k _ as(1)]) simp
  have cw: "carry = push_bit (32 - c) (of_nat x)"
  proof -
    have "x < NN_B" using Cons.prems(2) assms(1) power_strict_increasing [of c 32 "2::nat"] by simp
    moreover have "x * 2 ^ (32 - c) < NN_B" using Cons.prems(1) unat_u32_less [of carry] by simp
    ultimately show ?thesis using Cons.prems(1)
      by (simp add: u32_eq_iff unat_push_bit_u32 unat_of_nat)
  qed
  have "unat (drop_bit c t) < 2 ^ (32 - c)"
  proof -
    have "unat t < 2 ^ (32 - c) * 2 ^ c" using p unat_u32_less [of t] by (simp add: mult.commute)
    then show ?thesis by (simp add: unat_drop_bit_u32 less_mult_imp_div_less)
  qed
  from or_add_low [OF this, of "of_nat x"] have d: "unat (drop_bit c t OR carry)
    = unat t div 2 ^ c + x * 2 ^ (32 - c)"
    using cw Cons.prems(1) by (simp add: or.commute unat_drop_bit_u32)
  have e: "nn_val (rev (t # b)) + NN_B ^ length (t # b) * x
     = (nn_val (rev b) + NN_B ^ length b * (unat t mod 2 ^ c))
       + NN_B ^ length b * (unat t div 2 ^ c + x * 2 ^ (32 - c)) * 2 ^ c"
  proof -
    have "NN_B ^ length b * unat t = NN_B ^ length b * (unat t mod 2 ^ c)
      + NN_B ^ length b * (unat t div 2 ^ c) * 2 ^ c"
      using arg_cong [OF mod_mult_div_eq [of "unat t" "2 ^ c"], of "\<lambda>z. NN_B ^ length b *
        z"]
      by (simp only: distrib_left mult.assoc mult.commute [of "2 ^ c"])
    moreover have "NN_B ^ length (t # b) * x = NN_B ^ length b * (x * 2 ^ (32 - c)) * 2 ^ c"
    proof -
      have "NN_B ^ length (t # b) * x = NN_B ^ length b * (2 ^ c * 2 ^ (32 - c)) * x" unfolding p
        by simp
      also have "\<dots> = NN_B ^ length b * (x * 2 ^ (32 - c)) * 2 ^ c" by (simp only: ac_simps)
      finally show ?thesis .
    qed
    ultimately show ?thesis by (simp add: nn_val_append distrib_left distrib_right)
  qed
  have "(nn_val (rev (t # b)) + NN_B ^ length (t # b) * x) div 2 ^ c
     = (nn_val (rev b) + NN_B ^ length b * (unat t mod 2 ^ c)) div 2 ^ c
       + NN_B ^ length b * (unat t div 2 ^ c + x * 2 ^ (32 - c))"
    unfolding e by simp
  with IH as(2) d show ?case by (simp add: nn_val_append)
qed

lemma NN_RShift_val:
  assumes "c < 32"
  shows "nn_val (fst (NN_RShift a b c)) = nn_val b div 2 ^ c" "length (fst (NN_RShift a b c))
    = length b"
proof -
  obtain r k where r: "nn_rshift c 0 (rev b) = (r, k)" by force
  from nn_rshift_val [OF assms _ _ r, of 0] assms r
  show "nn_val (fst (NN_RShift a b c)) = nn_val b div 2 ^ c" "length (fst (NN_RShift a b c))
    = length b"
    by (simp_all add: NN_RShift_def)
qed

section \<open>Character strings\<close>

lemma nn_decode_digit_val:
  assumes "i + j = 4" "unat t < 2 ^ (8 * i)" "nn_decode_digit (8 * i) t rb = (t', rb')"
  shows "unat t' = unat t + 2 ^ (8 * i) * le_val (take j rb) \<and> rb' = drop j rb"
  using assms
proof (induction j arbitrary: i t rb)
  case 0
  then show ?case by (cases rb) auto
next
  case (Suc j)
  show ?case
  proof (cases rb)
    case Nil
    with Suc.prems show ?thesis by simp
  next
    case (Cons x r)
    have i: "8 * i < 32" using Suc.prems(1) by simp
    let ?t = "t OR push_bit (8 * i) (ucast x)"
    have x: "unat (ucast x :: u32) = unat x" by (rule unat_ucast_byte)
    have b: "unat x * 2 ^ (8 * i) < 256 * 2 ^ (8 * i)" by (intro mult_strict_right_mono) simp_all
    have le: "(256::nat) * 2 ^ (8 * i) = 2 ^ (8 * Suc i)" by (simp add: power_add)
    also have "\<dots> \<le> 2 ^ 32" using Suc.prems(1) by (intro power_increasing) auto
    finally have "unat x * 2 ^ (8 * i) < 2 ^ 32" by (rule order_less_le_trans [OF b])
    then have "unat x * 2 ^ (8 * i) < NN_B" by simp
    then have t: "unat ?t = unat t + unat x * 2 ^ (8 * i)"
      using or_add_low [OF Suc.prems(2), of "ucast x"] x by (simp add: or.commute unat_push_bit_u32)
    have xx: "(unat x + 1) * 2 ^ (8 * i) \<le> 256 * 2 ^ (8 * i)"
      by (intro mult_le_mono1) (simp add: Suc_le_eq)
    then have "unat ?t < 2 ^ (8 * Suc i)" using t Suc.prems(2) le by simp
    moreover have "nn_decode_digit (8 * Suc i) ?t r = (t', rb')" using Suc.prems(3) Cons i
      by (simp add: add.commute)
    ultimately have "unat t' = unat ?t + 2 ^ (8 * Suc i) * le_val (take j r) \<and> rb' = drop j r"
      using Suc.prems(1) by (intro Suc.IH) auto
    with t Cons show ?thesis by (simp add: algebra_simps power_add)
  qed
qed

lemma nn_decode_digits_val:
  "nn_val (nn_decode_digits n rb) = le_val rb mod NN_B ^ n \<and> length (nn_decode_digits n rb)
    = n"
proof (induction n arbitrary: rb)
  case 0
  then show ?case by simp
next
  case (Suc n)
  show ?case
  proof (cases rb)
    case Nil
    with Suc show ?thesis by simp
  next
    case (Cons x r)
    obtain t rb' where d: "nn_decode_digit 0 0 rb = (t, rb')" by force
    have t: "unat t = le_val (take 4 rb)" "rb' = drop 4 rb"
      using nn_decode_digit_val [of 0 4 0 rb t rb'] d by simp_all
    have lt: "le_val (take 4 rb) < NN_B" using unat_u32_less [of t] t(1) by simp
    have "le_val rb = le_val (take 4 rb @ drop 4 rb)" by simp
    also have "\<dots> = le_val (take 4 rb) + NN_B * le_val (drop 4 rb)"
    proof (cases "4 \<le> length rb")
      case True
      then show ?thesis unfolding le_val_append by simp
    next
      case False
      then show ?thesis by simp
    qed
    finally have "le_val rb mod NN_B ^ Suc n = unat t + NN_B * (le_val (drop 4 rb) mod NN_B ^ n)"
      using lt by (simp add: t(1) mod_mult2_eq)
    with Suc [of "drop 4 rb"] d t(2) Cons show ?thesis by simp
  qed
qed

lemma NN_Decode_val: "nn_val (NN_Decode digits b)
  = be_val b mod NN_B ^ digits" "length (NN_Decode digits b) = digits"
  using nn_decode_digits_val [of digits "rev b"] by (simp_all add: NN_Decode_def be_val_def)

lemma nn_encode_digit_val:
  "i + j = 4 \<Longrightarrow> nn_encode_digit (8 * i) n t
    = le_bytes (min n j) (unat t div 2 ^ (8 * i))"
proof (induction n arbitrary: i j)
  case 0
  then show ?case by simp
next
  case (Suc n)
  show ?case
  proof (cases j)
    case 0
    with Suc.prems show ?thesis by simp
  next
    case (Suc j')
    have "unat t div 2 ^ (8 * i) div 256 = unat t div 2 ^ (8 * Suc i)"
      by (simp add: power_add mult.commute flip: div_mult2_eq)
    with Suc.IH [of "Suc i" j'] Suc.prems Suc show ?thesis
      by (simp add: ucast_drop_byte add.commute)
  qed
qed

lemma nn_encode_digits_val: "nn_encode_digits n b = le_bytes n (nn_val b)"
proof (induction n b rule: nn_encode_digits.induct)
  case (1 n)
  show ?case by (induction n) auto
next
  case (2 n t b)
  have d: "nn_encode_digit 0 n t = le_bytes (min n 4) (unat t)"
    using nn_encode_digit_val [of 0 4 n t] by simp
  show ?case
  proof (cases "n \<le> 4")
    case True
    then obtain k where k: "4 = n + k" using le_Suc_ex by blast
    have "le_bytes n (unat t + NN_B * nn_val b) = le_bytes n ((unat t
      + NN_B * nn_val b) mod 256 ^ n)"
      by (simp add: byte_simps)
    also have "(unat t + NN_B * nn_val b) mod 256 ^ n = unat t mod 256 ^ n"
    proof -
      have "NN_B = 256 ^ n * (256 ^ k :: nat)" unfolding power_add [symmetric] k [symmetric] by simp
      then show ?thesis by (metis mod_mult_self2 mult.assoc)
    qed
    finally show ?thesis using True d by (cases b) (simp_all add: byte_simps min_def)
  next
    case False
    then obtain m where m: "n = 4 + m" using le_Suc_ex [of 4 n] by auto
    have "le_bytes 4 (unat t + NN_B * nn_val b) = le_bytes 4 ((unat t
      + NN_B * nn_val b) mod 256 ^ 4)"
      by (simp only: byte_simps)
    then have "le_bytes 4 (unat t + NN_B * nn_val b) = le_bytes 4 (unat t)" by simp
    then show ?thesis using 2 d m le_bytes_add [of 4 m "unat t + NN_B * nn_val b"] by simp
  qed
qed

lemma NN_Encode_val: "NN_Encode len b = be_bytes len (nn_val b)"
  by (simp add: NN_Encode_def nn_encode_digits_val be_bytes_def)

end
