(* ===== verification/NN_Div.thy ===== *)
theory NN_Div
  imports NN_Basic "HOL-Library.Monad_Syntax"
begin

text \<open>
  \<^verbatim>\<open>QBase/RSAEuro/nn.c\<close>: \<^verbatim>\<open>NN_Div\<close>, long division by 32-bit digits in which every quotient digit is
  estimated by a division of 64 by 32 bits, itself done in two half-digit steps. The loops that
  correct the estimates have no bound of their own in the source, so they are
  \<^theory_text>\<open>partial_function (option)\<close>: \<^const>\<open>None\<close> would be a loop that never ends. The theorems
  below show that every division returns.
\<close>

section \<open>One quotient digit\<close>

type_synonym nn_half = u16

text \<open>
  \<^verbatim>\<open>t[0] -= x\<close> with the borrow taken from \<^verbatim>\<open>t[1]\<close>, as the source writes it five times:
  \<^verbatim>\<open>if ((*t -= x) > (MAX_NN_DIGIT - x)) t[1]--\<close>.
\<close>

definition nn_t_sub :: "nn_digit \<Rightarrow> nn_digit \<times> nn_digit \<Rightarrow> nn_digit \<times> nn_digit" where
  "nn_t_sub x t = (let t0 = fst t - x in (t0, if t0 > MAX_NN_DIGIT - x then snd t - 1 else snd t))"

text \<open>The first correcting loop, on the high half of the digit.\<close>

partial_function (option) nn_fix_high ::
  "nn_half \<Rightarrow> nn_half \<Rightarrow> nn_digit \<times> nn_digit \<Rightarrow> nn_half \<Rightarrow> ((nn_digit \<times> nn_digit) \<times> nn_half) option"
where
  "nn_fix_high cHigh cLow t aHigh =
     (if snd t > ucast cHigh \<or> snd t = ucast cHigh \<and> fst t \<ge> TO_HIGH_HALF (ucast cLow)
      then (case nn_t_sub (TO_HIGH_HALF (ucast cLow)) t of
              (t0, t1) \<Rightarrow> nn_fix_high cHigh cLow (t0, t1 - ucast cHigh) (aHigh + 1))
      else Some (t, aHigh))"

text \<open>The second one, on the low half.\<close>

partial_function (option) nn_fix_low ::
  "nn_digit \<Rightarrow> nn_digit \<times> nn_digit \<Rightarrow> nn_half \<Rightarrow> ((nn_digit \<times> nn_digit) \<times> nn_half) option"
where
  "nn_fix_low s t aLow =
     (if snd t > 0 \<or> snd t = 0 \<and> fst t \<ge> s
      then nn_fix_low s (nn_t_sub s t) (aLow + 1)
      else Some (t, aLow))"

text \<open>
  The digit for the two top digits \<open>t\<close> of the window when the top digit of the divisor is not the
  largest one; \<open>s\<close> is that digit plus one.
\<close>

definition nn_quot_high :: "nn_digit \<Rightarrow> nn_digit \<times> nn_digit \<Rightarrow> ((nn_digit \<times> nn_digit) \<times> nn_half) option"
where
  "nn_quot_high s t =
     (let cHigh = ucast (HIGH_HALF s) :: nn_half;
          cLow = ucast (LOW_HALF s) :: nn_half;
          aHigh = (if cHigh = 0xffff then ucast (HIGH_HALF (snd t))
                   else ucast (snd t div (ucast cHigh + 1))) :: nn_half;
          u = ucast aHigh * ucast cLow :: nn_digit;
          v = ucast aHigh * ucast cHigh :: nn_digit
      in case nn_t_sub (TO_HIGH_HALF u) t of
           (t0, t1) \<Rightarrow> nn_fix_high cHigh cLow (t0, t1 - HIGH_HALF u - v) aHigh)"

definition nn_quot_low :: "nn_digit \<Rightarrow> nn_digit \<times> nn_digit \<Rightarrow> ((nn_digit \<times> nn_digit) \<times> nn_half) option"
where
  "nn_quot_low s t =
     (let cHigh = ucast (HIGH_HALF s) :: nn_half;
          cLow = ucast (LOW_HALF s) :: nn_half;
          aLow = (if cHigh = 0xffff then ucast (LOW_HALF (snd t))
                  else ucast ((TO_HIGH_HALF (snd t) + HIGH_HALF (fst t)) div (ucast cHigh + 1))) :: nn_half;
          u = ucast aLow * ucast cLow :: nn_digit;
          v = ucast aLow * ucast cHigh :: nn_digit
      in case nn_t_sub (TO_HIGH_HALF v) (nn_t_sub u t) of
           (t0, t1) \<Rightarrow> nn_fix_low s (t0, t1 - HIGH_HALF v) aLow)"

definition nn_quot_digit :: "nn_digit \<Rightarrow> nn_digit \<times> nn_digit \<Rightarrow> nn_digit option" where
  "nn_quot_digit s t =
     do { (t', aHigh) \<leftarrow> nn_quot_high s t;
          (t'', aLow) \<leftarrow> nn_quot_low s t';
          Some (TO_HIGH_HALF (ucast aHigh) + ucast aLow) }"

section \<open>The division\<close>

text \<open>
  One turn of the loop over the quotient digits works on the window \<open>cc[i..i+ddDigits]\<close>: \<open>low\<close> is
  its lower part and \<open>hi\<close> its last cell.
\<close>

partial_function (option) nn_div_fix ::
  "nn_digit list \<Rightarrow> nn_digit list \<Rightarrow> nn_digit \<Rightarrow> nn_digit \<Rightarrow> (nn_digit list \<times> nn_digit \<times> nn_digit) option"
where
  "nn_div_fix dd low hi ai =
     (if hi \<noteq> 0 \<or> NN_Cmp low dd (length dd) \<ge> 0
      then (case NN_Sub low dd of (low', borrow) \<Rightarrow> nn_div_fix dd low' (hi - borrow) (ai + 1))
      else Some (low, hi, ai))"

definition nn_div_step ::
  "nn_digit list \<Rightarrow> nn_digit list \<Rightarrow> (nn_digit list \<times> nn_digit \<times> nn_digit) option" where
  "nn_div_step dd w =
     (let n = length dd; s = dd ! (n - 1)
      in do { ai \<leftarrow> (if s = MAX_NN_DIGIT then Some (w ! n)
                     else nn_quot_digit (s + 1) (w ! (n - 1), w ! n));
              (case subdigitmult (take n w) ai dd of
                 (low, borrow) \<Rightarrow> nn_div_fix dd low (w ! n - borrow) ai) })"

text \<open>The loop from \<open>i\<close> down to 0, with \<open>i + 1\<close> as the argument.\<close>

fun nn_div_loop ::
  "nn_digit list \<Rightarrow> nat \<Rightarrow> nn_digit list \<Rightarrow> nn_digit list \<Rightarrow> (nn_digit list \<times> nn_digit list) option" where
  "nn_div_loop dd 0 cc a = Some (cc, a)"
| "nn_div_loop dd (Suc i) cc a =
     (let n = length dd
      in do { (low, hi, ai) \<leftarrow> nn_div_step dd (take (n + 1) (drop i cc));
              nn_div_loop dd i (take i cc @ low @ [hi] @ drop (i + n + 1) cc) (a[i := ai]) })"

text \<open>
  \<^verbatim>\<open>NN_Div\<close>: the cells of \<open>a\<close> and \<open>b\<close> afterwards (untouched when the divisor is zero). \<open>cc\<close> is
  zero above the shifted \<open>c\<close> and its carry.
\<close>

definition NN_Div ::
  "nn_digit list \<Rightarrow> nn_digit list \<Rightarrow> nn_digit list \<Rightarrow> nn_digit list
     \<Rightarrow> (nn_digit list \<times> nn_digit list) option"
where
  "NN_Div a b c d =
     (let cDigits = length c; dDigits = length d; ddDigits = NN_Digits d
      in if ddDigits = 0 then Some (a, b)
         else
           let shift = 32 - NN_DigitBits (d ! (ddDigits - 1));
               (ccs, carry) = NN_LShift (NN_AssignZero cDigits) c shift;
               cc = ccs @ [carry] @ NN_AssignZero (ddDigits - (cDigits + 1));
               (dd, _) = NN_LShift (NN_AssignZero ddDigits) (take ddDigits d) shift
           in do { (cc', a') \<leftarrow> nn_div_loop dd (cDigits + 1 - ddDigits) cc (NN_AssignZero cDigits);
                   Some (a', fst (NN_RShift (NN_AssignZero ddDigits) (take ddDigits cc') shift)
                             @ NN_AssignZero (dDigits - ddDigits)) })"

definition NN_Mod :: "nn_digit list \<Rightarrow> nn_digit list \<Rightarrow> nn_digit list \<Rightarrow> nn_digit list option" where
  "NN_Mod a b c = map_option snd (NN_Div (NN_AssignZero (length b)) a b c)"

definition NN_ModMult ::
  "nn_digit list \<Rightarrow> nn_digit list \<Rightarrow> nn_digit list \<Rightarrow> nn_digit list \<Rightarrow> nn_digit list option" where
  "NN_ModMult a b c d = NN_Mod a (NN_Mult b c (length d)) d"

section \<open>Correctness of a quotient digit\<close>

text \<open>The value of the two digits \<open>t[0]\<close>, \<open>t[1]\<close>.\<close>

definition t_val :: "nn_digit \<times> nn_digit \<Rightarrow> nat" where
  "t_val t = unat (snd t) * NN_B + unat (fst t)"

lemma nn_t_sub_val:
  assumes "unat x \<le> t_val t"
  shows "t_val (nn_t_sub x t) = t_val t - unat x"
proof (cases "unat x \<le> unat (fst t)")
  case True
  then show ?thesis
    using unat_u32_less [of "fst t"] unat_u32_less [of x]
    by (simp add: nn_t_sub_def t_val_def Let_def u32_arith del: unat_u32_less)
next
  case False
  then have "snd t \<noteq> 0" using assms by (auto simp: t_val_def)
  then have "1 \<le> unat (snd t)" by (simp add: Suc_le_eq unat_gt_0)
  then show ?thesis
    using False unat_u32_less [of "fst t"] unat_u32_less [of x]
    by (simp add: nn_t_sub_def t_val_def Let_def u32_arith diff_mult_distrib del: unat_u32_less)
qed

lemma t_val_sub_high:
  assumes "unat y * NN_B \<le> t_val t"
  shows "t_val (fst t, snd t - y) = t_val t - unat y * NN_B"
proof -
  have "unat y \<le> unat (snd t)"
  proof (rule ccontr)
    assume "\<not> ?thesis"
    then have "(unat (snd t) + 1) * NN_B \<le> unat y * NN_B" by (intro mult_le_mono1) simp
    then show False using assms unat_u32_less [of "fst t"] by (simp add: t_val_def del: unat_u32_less)
  qed
  then show ?thesis using assms by (simp add: t_val_def u32_arith diff_mult_distrib)
qed

lemma unat_ucast_half: "unat (ucast (x :: nn_half) :: nn_digit) = unat x"
proof -
  have "unat x < 2 ^ 32" using unsigned_less [of x, where 'a = nat] by (simp)
  then show ?thesis by (simp add: unsigned_ucast_eq take_bit_nat_eq_self_iff)
qed

lemma unat_half_less: "unat (x :: nn_half) < 65536" using unsigned_less [of x, where 'a = nat] by simp

lemma unat_ucast_to_half: "unat (ucast (x :: nn_digit) :: nn_half) = unat x mod 65536"
  by (simp add: unsigned_ucast_eq take_bit_eq_mod)

lemma unat_TO_HIGH_HALF: "unat (TO_HIGH_HALF x) = unat x mod 65536 * 65536"
proof -
  have "unat x * 65536 mod NN_B = unat x * 65536 mod (65536 * 65536)" by simp
  also have "\<dots> = unat x mod 65536 * 65536" by (simp only: mod_mult_mult2)
  finally show ?thesis by (simp add: TO_HIGH_HALF_def unat_push_bit_u32)
qed

lemma nn_fix_high_val:
  assumes "s = unat cHigh * 65536 + unat cLow" "0 < s" "unat aHigh + t_val t div (s * 65536) < 65536"
  shows "\<exists>t' a'. nn_fix_high cHigh cLow t aHigh = Some (t', a') \<and> t_val t' = t_val t mod (s * 65536)
     \<and> unat a' = unat aHigh + t_val t div (s * 65536)"
  using assms(3)
proof (induction "t_val t" arbitrary: t aHigh rule: less_induct)
  case less
  let ?x = "TO_HIGH_HALF (ucast cLow)"
  have x: "unat ?x = unat cLow * 65536"
    using unat_half_less [of cLow] by (simp add: unat_TO_HIGH_HALF unat_ucast_half)
  have S: "s * 65536 = unat cHigh * NN_B + unat ?x" by (simp add: assms(1) x)
  have xl: "unat ?x < NN_B" by simp
  have cond: "(snd t > ucast cHigh \<or> snd t = ucast cHigh \<and> fst t \<ge> ?x) \<longleftrightarrow> s * 65536 \<le> t_val t"
  proof -
    consider "unat (snd t) < unat cHigh" | "unat (snd t) = unat cHigh" | "unat cHigh < unat (snd t)" by linarith
    then show ?thesis
    proof cases
      case 1
      then have "(unat (snd t) + 1) * NN_B \<le> unat cHigh * NN_B" by (intro mult_le_mono1) simp
      with 1 S unat_u32_less [of "fst t"] show ?thesis
        by (simp add: t_val_def word_less_nat_alt word_le_nat_alt unat_ucast_half u32_eq_iff del: unat_u32_less)
    next
      case 2
      with S show ?thesis
        by (simp add: t_val_def word_less_nat_alt word_le_nat_alt unat_ucast_half u32_eq_iff)
    next
      case 3
      then have "(unat cHigh + 1) * NN_B \<le> unat (snd t) * NN_B" by (intro mult_le_mono1) simp
      with 3 S xl show ?thesis
        by (simp add: t_val_def word_less_nat_alt word_le_nat_alt unat_ucast_half u32_eq_iff
            del: unat_u32_less)
    qed
  qed
  show ?case
  proof (cases "s * 65536 \<le> t_val t")
    case False
    then have "nn_fix_high cHigh cLow t aHigh = Some (t, aHigh)"
      using cond by (subst nn_fix_high.simps) (rule if_not_P, blast)
    with False show ?thesis by simp
  next
    case True
    define t1 where "t1 = nn_t_sub ?x t"
    define t2 where "t2 = (fst t1, snd t1 - ucast cHigh)"
    have v1: "t_val t1 = t_val t - unat ?x" unfolding t1_def using True S by (intro nn_t_sub_val) simp
    have v2: "t_val t2 = t_val t - s * 65536"
      unfolding t2_def using True S v1 by (subst t_val_sub_high) (simp_all add: unat_ucast_half)
    have e: "nn_fix_high cHigh cLow t aHigh = nn_fix_high cHigh cLow t2 (aHigh + 1)"
      using True cond by (simp add: nn_fix_high.simps [of cHigh cLow t aHigh] t2_def t1_def split: prod.split)
    have d: "t_val t div (s * 65536) = Suc (t_val t2 div (s * 65536))" "t_val t mod (s * 65536) = t_val t2 mod (s * 65536)"
      using True assms(2) v2 by (simp_all add: le_div_geq le_mod_geq)
    have a: "unat (aHigh + 1) = unat aHigh + 1" using less.prems d by (simp add: unat_word_ariths)
    have "t_val t2 < t_val t" using v2 True assms(2) by simp
    from less.hyps [OF this, of "aHigh + 1"] less.prems d a e show ?thesis by simp
  qed
qed

lemma nn_fix_low_val:
  assumes "0 < unat s" "unat aLow + t_val t div unat s < 65536"
  shows "\<exists>t' a'. nn_fix_low s t aLow = Some (t', a') \<and> t_val t' = t_val t mod unat s
     \<and> unat a' = unat aLow + t_val t div unat s"
  using assms(2)
proof (induction "t_val t" arbitrary: t aLow rule: less_induct)
  case less
  have cond: "(snd t > 0 \<or> snd t = 0 \<and> fst t \<ge> s) \<longleftrightarrow> unat s \<le> t_val t"
  proof (cases "snd t = 0")
    case True
    then show ?thesis by (simp add: t_val_def word_le_nat_alt)
  next
    case False
    then have "1 * NN_B \<le> unat (snd t) * NN_B" by (intro mult_le_mono1) (simp add: Suc_le_eq unat_gt_0)
    with False unat_u32_less [of s] show ?thesis by (simp add: t_val_def word_gt_0 del: unat_u32_less)
  qed
  show ?case
  proof (cases "unat s \<le> t_val t")
    case False
    then have "nn_fix_low s t aLow = Some (t, aLow)"
      using cond by (subst nn_fix_low.simps) (rule if_not_P, blast)
    with False show ?thesis by simp
  next
    case True
    let ?t = "nn_t_sub s t"
    have v: "t_val ?t = t_val t - unat s" by (rule nn_t_sub_val [OF True])
    have d: "t_val t div unat s = Suc (t_val ?t div unat s)" "t_val t mod unat s = t_val ?t mod unat s"
      using True assms(1) v by (simp_all add: le_div_geq le_mod_geq)
    have a: "unat (aLow + 1) = unat aLow + 1" using less.prems d by (simp add: unat_word_ariths)
    have "t_val ?t < t_val t" using v True assms(1) by simp
    moreover have "nn_fix_low s t aLow = nn_fix_low s ?t (aLow + 1)"
      using True cond by (subst nn_fix_low.simps) (rule if_P, blast)
    ultimately show ?thesis using less.hyps [of ?t "aLow + 1"] less.prems d a by simp
  qed
qed

lemma unat_half_HIGH: "unat (ucast (HIGH_HALF s) :: nn_half) = unat s div 65536"
  using unat_u32_less [of s] by (simp add: unat_ucast_to_half unat_HIGH_HALF del: unat_u32_less)

lemma unat_half_LOW: "unat (ucast (LOW_HALF s) :: nn_half) = unat s mod 65536"
  by (simp add: unat_ucast_to_half unat_LOW_HALF)

lemma unat_half_mult: "unat (ucast (a :: nn_half) * ucast (b :: nn_half) :: nn_digit) = unat a * unat b"
proof -
  have "unat a * unat b \<le> 65535 * 65535" using unat_half_less[of a] unat_half_less[of b] by (intro mult_le_mono) auto
  then show ?thesis by (subst unat_mult_nowrap) (simp_all add: unat_ucast_half)
qed

lemma split16: "x * 65536 = x mod 65536 * 65536 + x div 65536 * NN_B" for x :: nat
  using div_mult_mod_eq [of x 65536] by linarith

lemma est_le:
  fixes s ch :: nat
  assumes "ch = s div 65536"
  shows "x div (ch + 1) * s \<le> x * 65536" "s \<le> (ch + 1) * 65536"
proof -
  have s: "s < (ch + 1) * 65536" unfolding assms by (simp add: algebra_simps) 
  then show "s \<le> (ch + 1) * 65536" by simp
  have "x div (ch + 1) * s \<le> x div (ch + 1) * ((ch + 1) * 65536)" using s by (intro mult_le_mono2) simp
  also have "\<dots> = (x div (ch + 1) * (ch + 1)) * 65536" by (simp only: mult.assoc)
  also have "\<dots> \<le> x * 65536" by (intro mult_le_mono1 div_times_less_eq_dividend)
  finally show "x div (ch + 1) * s \<le> x * 65536" .
qed

lemma est_less:
  fixes s ch x :: nat
  assumes "ch = s div 65536" "x < s" 
  shows "x div (ch + 1) < 65536"
proof -
  have "x < 65536 * (ch + 1)" using est_le(2) [OF assms(1)] assms(2) by (simp add: mult.commute)
  then show ?thesis by (simp add: less_mult_imp_div_less)
qed

lemma nn_quot_high_val:
  assumes "unat (snd t) < unat s"
  shows "\<exists>t' a'. nn_quot_high s t = Some (t', a') \<and> t_val t' = t_val t mod (unat s * 65536)
     \<and> unat a' = t_val t div (unat s * 65536)"
proof -
  define ch where "ch = unat s div 65536"
  let ?cH = "ucast (HIGH_HALF s) :: nn_half" and ?cL = "ucast (LOW_HALF s) :: nn_half"
  define aH where "aH = (if ?cH = 0xffff then ucast (HIGH_HALF (snd t))
                   else ucast (snd t div (ucast ?cH + 1)) :: nn_half)"
  define q where "q = unat (snd t) div (ch + 1)"
  have q: "q < 65536" unfolding q_def by (rule est_less [OF ch_def assms])
  have cH: "unat ?cH = ch" by (simp add: unat_half_HIGH ch_def)
  have cL: "unat ?cL = unat s mod 65536" by (rule unat_half_LOW)
  have s: "unat s = ch * 65536 + unat s mod 65536" by (simp add: ch_def)
  have aH: "unat aH = q"
  proof (cases "?cH = 0xffff")
    case True
    then have "ch = 65535" using cH by simp
    then show ?thesis using True by (simp add: aH_def unat_half_HIGH q_def)
  next
    case False
    then have "ch \<noteq> 65535" using cH by (auto simp: word_unat_eq_iff)
    then have "ch + 1 < 65536" using cH unat_half_less [of ?cH] by simp
    then have "unat (ucast ?cH + 1 :: nn_digit) = ch + 1" by (simp add: unat_u32_add unat_ucast_half cH)
    then show ?thesis using False q by (simp add: aH_def unat_ucast_to_half unat_div q_def)
  qed
  define u v where "u = (ucast aH * ucast ?cL :: nn_digit)" and "v = (ucast aH * ucast ?cH :: nn_digit)"
  have u: "unat u = q * (unat s mod 65536)" by (simp only: u_def unat_half_mult aH cL)
  have v: "unat v = q * ch" by (simp only: v_def unat_half_mult aH cH)
  have S: "q * (unat s * 65536) = unat (TO_HIGH_HALF u) + unat (HIGH_HALF u) * NN_B + unat v * NN_B"
  proof -
    have "q * (unat s * 65536) = q * ((ch * 65536 + unat s mod 65536) * 65536)" using s by simp
    also have "\<dots> = unat v * NN_B + unat u * 65536" unfolding u v by (simp add: algebra_simps)
    finally show ?thesis using split16 [of "unat u"] by (simp add: unat_TO_HIGH_HALF unat_HIGH_HALF)
  qed
  have "q * unat s \<le> unat (snd t) * 65536" unfolding q_def by (rule est_le(1) [OF ch_def])
  then have "q * unat s * 65536 \<le> unat (snd t) * 65536 * 65536" by (rule mult_le_mono1)
  then have le: "q * (unat s * 65536) \<le> t_val t" by (simp add: t_val_def)
  define t1 where "t1 = nn_t_sub (TO_HIGH_HALF u) t"
  define t2 where "t2 = (fst t1, snd t1 - HIGH_HALF u)"
  define t3 where "t3 = (fst t2, snd t2 - v)"
  have v1: "t_val t1 = t_val t - unat (TO_HIGH_HALF u)" unfolding t1_def using le S by (intro nn_t_sub_val) simp
  have v2: "t_val t2 = t_val t1 - unat (HIGH_HALF u) * NN_B"
    unfolding t2_def by (rule t_val_sub_high) (use le S v1 in simp)
  have v3: "t_val t3 = t_val t2 - unat v * NN_B"
    unfolding t3_def by (rule t_val_sub_high) (use le S v1 v2 in simp)
  have t3: "t_val t = t_val t3 + q * (unat s * 65536)" using v1 v2 v3 le S by simp
  have pos: "0 < unat s * 65536" using assms by simp
  have d: "t_val t div (unat s * 65536) = q + t_val t3 div (unat s * 65536)"
    "t_val t mod (unat s * 65536) = t_val t3 mod (unat s * 65536)" unfolding t3 using pos by simp_all
  have "t_val t < unat s * NN_B"
  proof -
    have "(unat (snd t) + 1) * NN_B \<le> unat s * NN_B" using assms by (intro mult_le_mono1) simp
    then show ?thesis using unat_u32_less [of "fst t"] by (simp add: t_val_def del: unat_u32_less)
  qed
  then have "t_val t < 65536 * (unat s * 65536)" by simp
  then have "t_val t div (unat s * 65536) < 65536" by (rule less_mult_imp_div_less)
  then have "\<exists>t' a'. nn_fix_high ?cH ?cL t3 aH = Some (t', a') \<and> t_val t' = t_val t3 mod (unat s * 65536)
     \<and> unat a' = unat aH + t_val t3 div (unat s * 65536)"
    using d aH assms by (intro nn_fix_high_val) (simp_all add: cH cL ch_def)
  moreover have "nn_quot_high s t = nn_fix_high ?cH ?cL t3 aH"
    by (simp add: nn_quot_high_def Let_def t3_def t2_def t1_def u_def v_def aH_def split: prod.split)
  ultimately show ?thesis using d aH by simp
qed

lemma nn_quot_low_val:
  assumes "t_val t < unat s * 65536"
  shows "\<exists>t' a'. nn_quot_low s t = Some (t', a') \<and> t_val t' = t_val t mod unat s
     \<and> unat a' = t_val t div unat s"
proof -
  define ch where "ch = unat s div 65536"
  define x where "x = t_val t div 65536"
  let ?cH = "ucast (HIGH_HALF s) :: nn_half" and ?cL = "ucast (LOW_HALF s) :: nn_half"
  define aL where "aL = (if ?cH = 0xffff then ucast (LOW_HALF (snd t))
                  else ucast ((TO_HIGH_HALF (snd t) + HIGH_HALF (fst t)) div (ucast ?cH + 1)) :: nn_half)"
  define q where "q = x div (ch + 1)"
  have xs: "x < unat s" using assms by (simp add: x_def less_mult_imp_div_less)
  have t1: "unat (snd t) < 65536"
  proof (rule ccontr)
    assume "\<not> ?thesis"
    then have "65536 * NN_B \<le> unat (snd t) * NN_B" by (intro mult_le_mono1) simp
    then show False using assms unat_u32_less [of s] by (simp add: t_val_def del: unat_u32_less)
  qed
  have x: "x = unat (snd t) * 65536 + unat (fst t) div 65536"
  proof -
    have "t_val t = unat (fst t) + (unat (snd t) * 65536) * 65536" by (simp add: t_val_def)
    then show ?thesis unfolding x_def by (simp only: div_mult_self1)
  qed
  have q: "q < 65536" unfolding q_def by (rule est_less [OF ch_def xs])
  have cH: "unat ?cH = ch" by (simp add: unat_half_HIGH ch_def)
  have cL: "unat ?cL = unat s mod 65536" by (rule unat_half_LOW)
  have s: "unat s = ch * 65536 + unat s mod 65536" by (simp add: ch_def)
  have f: "unat (fst t) div 65536 < 65536" using unat_u32_less [of "fst t"] by (simp del: unat_u32_less)
  have aL: "unat aL = q"
  proof (cases "?cH = 0xffff")
    case True
    then have "ch = 65535" using cH by simp
    then show ?thesis using True t1 f by (simp add: aL_def unat_half_LOW q_def x)
  next
    case False
    then have "ch \<noteq> 65535" using cH by (auto simp: word_unat_eq_iff)
    then have "ch + 1 < 65536" using cH unat_half_less [of ?cH] by simp
    then have "unat (ucast ?cH + 1 :: nn_digit) = ch + 1" by (simp add: unat_u32_add unat_ucast_half cH)
    moreover have "unat (TO_HIGH_HALF (snd t) + HIGH_HALF (fst t)) = x"
      using t1 f x xs unat_u32_less [of s]
      by (simp add: unat_u32_add unat_TO_HIGH_HALF unat_HIGH_HALF del: unat_u32_less)
    ultimately show ?thesis using False q by (simp add: aL_def unat_ucast_to_half unat_div q_def)
  qed
  define u v where "u = (ucast aL * ucast ?cL :: nn_digit)" and "v = (ucast aL * ucast ?cH :: nn_digit)"
  have u: "unat u = q * (unat s mod 65536)" by (simp only: u_def unat_half_mult aL cL)
  have v: "unat v = q * ch" by (simp only: v_def unat_half_mult aL cH)
  have S: "q * unat s = unat u + unat (TO_HIGH_HALF v) + unat (HIGH_HALF v) * NN_B"
  proof -
    have "q * unat s = q * (ch * 65536 + unat s mod 65536)" using s by simp
    also have "\<dots> = unat v * 65536 + unat u" unfolding u v by (simp add: algebra_simps)
    finally show ?thesis using split16 [of "unat v"] by (simp add: unat_TO_HIGH_HALF unat_HIGH_HALF)
  qed
  have "q * unat s \<le> x * 65536" unfolding q_def by (rule est_le(1) [OF ch_def])
  also have "\<dots> \<le> t_val t" unfolding x_def by (rule div_times_less_eq_dividend)
  finally have le: "q * unat s \<le> t_val t" .
  define t1 where "t1 = nn_t_sub u t"
  define t2 where "t2 = nn_t_sub (TO_HIGH_HALF v) t1"
  define t3 where "t3 = (fst t2, snd t2 - HIGH_HALF v)"
  have v1: "t_val t1 = t_val t - unat u" unfolding t1_def using le S by (intro nn_t_sub_val) simp
  have v2: "t_val t2 = t_val t1 - unat (TO_HIGH_HALF v)"
    unfolding t2_def by (rule nn_t_sub_val) (use le S v1 in simp)
  have v3: "t_val t3 = t_val t2 - unat (HIGH_HALF v) * NN_B"
    unfolding t3_def by (rule t_val_sub_high) (use le S v1 v2 in simp)
  have t3: "t_val t = t_val t3 + q * unat s" using v1 v2 v3 le S by simp
  have pos: "0 < unat s" using xs by simp
  have d: "t_val t div unat s = q + t_val t3 div unat s"
    "t_val t mod unat s = t_val t3 mod unat s" unfolding t3 using pos by simp_all
  have "t_val t < 65536 * unat s" using assms by simp
  then have "t_val t div unat s < 65536" by (rule less_mult_imp_div_less)
  then have "\<exists>t' a'. nn_fix_low s t3 aL = Some (t', a') \<and> t_val t' = t_val t3 mod unat s
     \<and> unat a' = unat aL + t_val t3 div unat s"
    using d aL pos by (intro nn_fix_low_val) simp_all
  moreover have "nn_quot_low s t = nn_fix_low s t3 aL"
    by (simp add: nn_quot_low_def Let_def t3_def t2_def t1_def u_def v_def aL_def split: prod.split)
  ultimately show ?thesis using d aL by simp
qed

lemma nn_quot_digit_val:
  assumes "unat (snd t) < unat s"
  shows "\<exists>q. nn_quot_digit s t = Some q \<and> unat q = t_val t div unat s"
proof -
  obtain t' aH where h: "nn_quot_high s t = Some (t', aH)" "t_val t' = t_val t mod (unat s * 65536)"
    "unat aH = t_val t div (unat s * 65536)" using nn_quot_high_val [OF assms] by blast
  have pos: "0 < unat s" using assms by simp
  have "t_val t' < unat s * 65536" using h(2) pos by simp
  from nn_quot_low_val [OF this] obtain t'' aL where l: "nn_quot_low s t' = Some (t'', aL)"
    "unat aL = t_val t' div unat s" by blast
  have "t_val t div unat s = unat aH * 65536 + unat aL"
  proof -
    have "t_val t = unat aH * 65536 * unat s + t_val t'" unfolding h(2,3)
      using div_mult_mod_eq [of "t_val t" "unat s * 65536"] by (simp only: mult.assoc mult.commute [of 65536])
    then show ?thesis using pos by (simp add: l(2))
  qed
  moreover have "unat (TO_HIGH_HALF (ucast aH) + ucast aL) = unat aH * 65536 + unat aL"
    using unat_half_less [of aH] unat_half_less [of aL]
    by (simp add: unat_u32_add unat_TO_HIGH_HALF unat_ucast_half)
  ultimately show ?thesis by (simp add: nn_quot_digit_def h l)
qed

section \<open>Correctness of the division\<close>

text \<open>A digit that is too small by no more than the quotient allows is corrected by the loop.\<close>

lemma nn_div_fix_val:
  assumes "length low = length dd" "0 < nn_val dd"
    "unat ai + (nn_val low + NN_B ^ length dd * unat hi) div nn_val dd < NN_B"
  shows "\<exists>low' ai'. nn_div_fix dd low hi ai = Some (low', 0, ai') \<and> length low' = length dd
     \<and> nn_val low' = (nn_val low + NN_B ^ length dd * unat hi) mod nn_val dd
     \<and> unat ai' = unat ai + (nn_val low + NN_B ^ length dd * unat hi) div nn_val dd"
  using assms(1,3)
proof (induction "nn_val low + NN_B ^ length dd * unat hi" arbitrary: low hi ai rule: less_induct)
  case less
  let ?P = "NN_B ^ length dd" and ?D = "nn_val dd"
  let ?V = "nn_val low + ?P * unat hi"
  have cond: "(hi \<noteq> 0 \<or> NN_Cmp low dd (length dd) \<ge> 0) \<longleftrightarrow> ?D \<le> ?V"
  proof (cases "hi = 0")
    case True
    then show ?thesis using less.prems(1) by (simp add: NN_Cmp_def nn_cmp_val)
  next
    case False
    then have "?P * 1 \<le> ?P * unat hi" by (intro mult_le_mono2) (simp add: Suc_le_eq unat_gt_0)
    with nn_val_less [of dd] have "?D \<le> ?V" by linarith
    with False show ?thesis by blast
  qed
  show ?case
  proof (cases "?D \<le> ?V")
    case False
    then have e: "nn_div_fix dd low hi ai = Some (low, hi, ai)"
      using cond by (subst nn_div_fix.simps) (rule if_not_P, blast)
    have "hi = 0" using False cond by blast
    with e False less.prems show ?thesis by simp
  next
    case True
    obtain low1 k where lk: "NN_Sub low dd = (low1, k)" by force
    have s: "nn_val low1 + ?D = nn_val low + ?P * unat k" "length low1 = length dd" "unat k \<le> 1"
      using nn_sub_val [of low dd 0 low1 k] lk less.prems(1) by (simp_all add: NN_Sub_def)
    have kh: "unat k \<le> unat hi"
    proof (rule ccontr)
      assume "\<not> ?thesis"
      then have "unat hi = 0" "unat k = 1" using s(3) by simp_all
      with s(1) True nn_val_less [of low1] s(2) show False by simp
    qed
    let ?V1 = "nn_val low1 + ?P * unat (hi - k)"
    have "?P * unat (hi - k) + ?P * unat k = ?P * unat hi"
      using kh by (simp add: unat_u32_sub flip: distrib_left)
    then have V1: "?V1 + ?D = ?V" using s(1) by simp
    have d: "?V div ?D = Suc (?V1 div ?D)" "?V mod ?D = ?V1 mod ?D"
      unfolding V1 [symmetric] using div_add_self2 [of ?D ?V1] assms(2) by simp_all
    have a: "unat (ai + 1) = unat ai + 1" using less.prems(2) d by (simp add: unat_u32_add)
    have e: "nn_div_fix dd low hi ai = nn_div_fix dd low1 (hi - k) (ai + 1)"
      using True cond by (subst nn_div_fix.simps) (simp add: lk)
    have "?V1 < ?V" using V1 assms(2) by simp
    from less.hyps [OF this s(2), of "ai + 1"] less.prems(2) a d e show ?thesis by simp
  qed
qed

text \<open>The estimate: the quotient of the top two digits by the top digit of the divisor plus one.\<close>

lemma nn_est_digit:
  assumes "unat (snd t) \<le> unat s"
  shows "\<exists>q. (if s = MAX_NN_DIGIT then Some (snd t) else nn_quot_digit (s + 1) t) = Some q
     \<and> unat q = t_val t div (unat s + 1)"
proof (cases "s = MAX_NN_DIGIT")
  case True
  have "t_val t div NN_B = unat (snd t)" by (simp add: t_val_def)
  with True show ?thesis by (simp add: unat_MAX)
next
  case False
  then have "unat s \<noteq> unat MAX_NN_DIGIT" by (simp only: u32_eq_iff simp_thms)
  then have "unat s + 1 < NN_B" using unat_u32_less [of s] by (simp add: unat_MAX del: unat_u32_less)
  then have s: "unat (s + 1) = unat s + 1" by (simp add: unat_u32_add)
  show ?thesis using nn_quot_digit_val [of t "s + 1"] assms s False by simp
qed

lemma nn_val_split_last:
  assumes "xs \<noteq> []"
  shows "nn_val xs = nn_val (butlast xs) + NN_B ^ (length xs - 1) * unat (last xs)"
  using nn_val_append [of "butlast xs" "[last xs]"] assms by simp

lemma nn_val_le_last:
  assumes "xs \<noteq> []"
  shows "nn_val xs < (unat (last xs) + 1) * NN_B ^ (length xs - 1)"
  using nn_val_split_last [OF assms] nn_val_less [of "butlast xs"] by (simp add: algebra_simps)

lemma nn_div_step_val:
  assumes "dd \<noteq> []" "length w = length dd + 1" "nn_val w < nn_val dd * NN_B"
  shows "\<exists>low ai. nn_div_step dd w = Some (low, 0, ai) \<and> length low = length dd
     \<and> nn_val low = nn_val w mod nn_val dd \<and> unat ai = nn_val w div nn_val dd"
proof -
  define n where "n = length dd"
  let ?P = "NN_B ^ (n - 1)"
  obtain m where m: "n = Suc m" using assms(1) by (cases n) (simp_all add: n_def)
  define s t where "s = dd ! m" and "t = (w ! m, w ! n)"
  have sl: "s = last dd" using assms(1) m by (simp add: s_def last_conv_nth n_def)
  have wn: "w = take m w @ [w ! m, w ! n]"
    using assms(2) m by (simp add: n_def list_eq_iff_nth_eq nth_append less_Suc_eq)
  have W: "nn_val w = nn_val (take m w) + NN_B ^ m * t_val t"
    by (subst wn) (use assms(2) m in \<open>simp add: nn_val_append t_def t_val_def n_def algebra_simps\<close>)
  have w1: "take n w @ [w ! n] = w" using assms(2) by (simp add: n_def list_eq_iff_nth_eq nth_append less_Suc_eq)
  have W1: "nn_val w = nn_val (take n w) + NN_B ^ n * unat (w ! n)"
    by (subst w1 [symmetric], subst nn_val_append) (use assms(2) in \<open>simp add: n_def\<close>)
  have D: "nn_val dd < (unat s + 1) * NN_B ^ m" using nn_val_le_last [OF assms(1)] m by (simp add: sl n_def)
  have Dpos: "0 < nn_val dd" using assms(3) by (cases "nn_val dd") auto
  have "unat (w ! n) \<le> unat s"
  proof (rule ccontr)
    assume "\<not> ?thesis"
    then have "(unat s + 1) * NN_B ^ n \<le> unat (w ! n) * NN_B ^ n" by (intro mult_le_mono1) simp
    moreover have "nn_val dd * NN_B < (unat s + 1) * NN_B ^ m * NN_B" using D by (intro mult_strict_right_mono) auto
    ultimately show False using assms(3) W1 m by (simp add: mult.commute mult.left_commute)
  qed
  then have ts: "unat (snd t) \<le> unat s" "snd t = w ! n" by (simp_all add: t_def)
  obtain q where q: "(if s = MAX_NN_DIGIT then Some (w ! n) else nn_quot_digit (s + 1) t) = Some q"
    "unat q = t_val t div (unat s + 1)" using nn_est_digit [OF ts(1)] unfolding ts(2) by blast
  have "unat q * nn_val dd \<le> unat q * ((unat s + 1) * NN_B ^ m)" using D by (intro mult_le_mono2) simp
  also have "\<dots> = t_val t div (unat s + 1) * (unat s + 1) * NN_B ^ m" by (simp only: q(2) mult.assoc)
  also have "\<dots> \<le> t_val t * NN_B ^ m" by (intro mult_le_mono1 div_times_less_eq_dividend)
  finally have le: "unat q * nn_val dd \<le> nn_val w" using W by (simp add: mult.commute)
  obtain low k where lk: "subdigitmult (take n w) q dd = (low, k)" by force
  have sub: "nn_val low + unat q * nn_val dd = nn_val (take n w) + NN_B ^ n * unat k" "length low = n"
    using subdigitmult_val [OF _ lk] assms(2) by (simp_all add: n_def)
  have kw: "unat k \<le> unat (w ! n)"
  proof (rule ccontr)
    assume "\<not> ?thesis"
    then have "NN_B ^ n * (unat (w ! n) + 1) \<le> NN_B ^ n * unat k" by (intro mult_le_mono2) simp
    then show False using le sub W1 nn_val_less [of low] by (simp add: algebra_simps)
  qed
  let ?V = "nn_val low + NN_B ^ n * unat (w ! n - k)"
  have "NN_B ^ n * unat (w ! n - k) + NN_B ^ n * unat k = NN_B ^ n * unat (w ! n)"
    using kw by (simp add: unat_u32_sub flip: distrib_left)
  then have V: "nn_val w = ?V + unat q * nn_val dd" using W1 sub(1) by simp
  have d: "nn_val w div nn_val dd = unat q + ?V div nn_val dd" "nn_val w mod nn_val dd = ?V mod nn_val dd"
    unfolding V using Dpos by simp_all
  have "nn_val w div nn_val dd < NN_B" using assms(3) by (simp add: less_mult_imp_div_less mult.commute)
  then obtain low' ai' where r: "nn_div_fix dd low (w ! n - k) q = Some (low', 0, ai')" "length low' = n"
    "nn_val low' = nn_val w mod nn_val dd" "unat ai' = nn_val w div nn_val dd"
    using nn_div_fix_val [of low dd q "w ! n - k"] sub(2) Dpos d by (auto simp: n_def)
  have "nn_div_step dd w = nn_div_fix dd low (w ! n - k) q"
  proof -
    have mm: "m = length dd - 1" using m by (simp add: n_def)
    show ?thesis unfolding nn_div_step_def Let_def
      by (simp only: q(1) [unfolded s_def t_def n_def mm] lk [unfolded n_def] n_def Option.bind.simps prod.case)
  qed
  then show ?thesis using r by (simp add: n_def)
qed

lemma nn_div_loop_val:
  assumes "dd \<noteq> []" "i + length dd \<le> length cc" "nn_val (drop i cc) < nn_val dd" "i \<le> length a"
  shows "\<exists>cc' a'. nn_div_loop dd i cc a = Some (cc', a') \<and> length cc' = length cc
     \<and> length a' = length a \<and> nn_val cc' = nn_val cc mod nn_val dd
     \<and> nn_val (take i a') = nn_val cc div nn_val dd \<and> drop i a' = drop i a"
  using assms(2-)
proof (induction i arbitrary: cc a)
  case 0
  then show ?case by simp
next
  case (Suc i)
  let ?n = "length dd" and ?D = "nn_val dd"
  let ?w = "take (?n + 1) (drop i cc)" and ?rest = "drop (i + ?n + 1) cc"
  have n: "0 < ?n" using assms(1) by simp
  have i: "i < length cc" using Suc.prems(1) by simp
  have dr: "drop i cc = cc ! i # drop (Suc i) cc" using i by (rule Cons_nth_drop_Suc [symmetric])
  have tk: "take i cc @ drop i cc = cc" by simp
  have dw: "?w @ ?rest = drop i cc" using append_take_drop_id [of "?n + 1" "drop i cc"] by (simp add: ac_simps)
  have lw: "length ?w = ?n + 1" using Suc.prems(1) by simp
  have rest: "nn_val ?rest = 0"
  proof (rule ccontr)
    assume "nn_val ?rest \<noteq> 0"
    then have "NN_B ^ ?n * 1 \<le> NN_B ^ ?n * nn_val ?rest" by (intro mult_le_mono2) simp
    moreover have "drop (Suc i) cc = take ?n (drop (Suc i) cc) @ ?rest"
      using append_take_drop_id [of ?n "drop (Suc i) cc"] by (simp add: ac_simps)
    then have "nn_val (drop (Suc i) cc) = nn_val (take ?n (drop (Suc i) cc)) + NN_B ^ ?n * nn_val ?rest"
      using nn_val_append [of "take ?n (drop (Suc i) cc)" ?rest] Suc.prems(1) by simp
    ultimately show False using Suc.prems(2) nn_val_less [of dd] by linarith
  qed
  have W: "nn_val ?w = nn_val (drop i cc)" using nn_val_append [of ?w ?rest] rest unfolding dw by simp
  also have "\<dots> = unat (cc ! i) + NN_B * nn_val (drop (Suc i) cc)" by (subst dr) simp
  also have "\<dots> < NN_B * (nn_val (drop (Suc i) cc) + 1)" using unat_u32_less [of "cc ! i"] by simp
  also have "\<dots> \<le> NN_B * ?D" using Suc.prems(2) by (intro mult_le_mono2) simp
  finally have "nn_val ?w < ?D * NN_B" by (simp add: mult.commute)
  from nn_div_step_val [OF assms(1) lw this] obtain low ai where st: "nn_div_step dd ?w = Some (low, 0, ai)"
    "length low = ?n" "nn_val low = nn_val ?w mod ?D" "unat ai = nn_val ?w div ?D" by blast
  define cc1 where "cc1 = take i cc @ low @ [0] @ ?rest"
  have d1: "nn_val (drop i cc1) = nn_val ?w mod ?D"
    using i rest st(3) by (simp add: cc1_def nn_val_append min_def)
  have c1: "nn_val cc1 = nn_val (take i cc) + NN_B ^ i * (nn_val ?w mod ?D)"
    using nn_val_append [of "take i cc1" "drop i cc1"] i d1 by (simp add: cc1_def min_def)
  have "nn_val cc = nn_val (take i cc) + NN_B ^ i * nn_val ?w"
    using nn_val_append [of "take i cc" "drop i cc"] i W by (simp add: min_def)
  also have "nn_val ?w = nn_val ?w mod ?D + ?D * (nn_val ?w div ?D)" by simp
  finally have c: "nn_val cc = nn_val cc1 + NN_B ^ i * (nn_val ?w div ?D) * ?D"
    unfolding c1 by (simp only: distrib_left distrib_right ac_simps)
  have Dpos: "0 < ?D" using Suc.prems(2) by (rule gr_implies_not0 [THEN neq0_conv [THEN iffD1]])
  have l1: "length cc1 = length cc" using Suc.prems(1) st(2) by (simp add: cc1_def)
  obtain cc' a' where r: "nn_div_loop dd i cc1 (a[i := ai]) = Some (cc', a')" "length cc' = length cc"
     "length a' = length a" "nn_val cc' = nn_val cc1 mod ?D"
     "nn_val (take i a') = nn_val cc1 div ?D" "drop i a' = drop i (a[i := ai])"
    using Suc.IH [of cc1 "a[i := ai]"] Suc.prems d1 l1 Dpos by auto
  have ia: "i < length a" using Suc.prems(3) by simp
  have dai: "drop i (a[i := ai]) = ai # drop (Suc i) a"
    using ia Cons_nth_drop_Suc [of i "a[i := ai]"] by simp
  have "a' ! i = ai" using r(3,6) ia dai by (metis Cons_nth_drop_Suc nth_via_drop)
  then have "take (Suc i) a' = take i a' @ [ai]" using ia r(3) by (simp add: take_Suc_conv_app_nth)
  then have "nn_val (take (Suc i) a') = nn_val cc1 div ?D + NN_B ^ i * (nn_val ?w div ?D)"
    using r(5) ia r(3) st(4) by (simp add: nn_val_append min_def)
  moreover have "drop (Suc i) a' = drop (Suc i) a" using r(6) dai
    by (metis drop_Suc drop_drop list.sel(3) plus_1_eq_Suc tl_drop)
  moreover have "nn_div_loop dd (Suc i) cc a = nn_div_loop dd i cc1 (a[i := ai])"
    using st(1) by (simp add: cc1_def Let_def)
  moreover have "nn_val cc div ?D = nn_val cc1 div ?D + NN_B ^ i * (nn_val ?w div ?D)"
    "nn_val cc mod ?D = nn_val cc1 mod ?D" unfolding c using Dpos by simp_all
  ultimately show ?case using r by simp
qed

lemma nn_val_append_zeros [simp]: "nn_val (xs @ replicate n 0) = nn_val xs"
  by (simp add: nn_val_append)

lemma NN_LShift_val:
  assumes "c < 32" "NN_LShift a b c = (a', k)"
  shows "nn_val a' + NN_B ^ length b * unat k = nn_val b * 2 ^ c" "length a' = length b" "unat k < 2 ^ c"
  using nn_lshift_val [of c 0 b a' k] assms by (simp_all add: NN_LShift_def)

text \<open>The normalised divisor has its top bit set and no carry.\<close>

lemma nn_div_normalise:
  fixes d :: "nn_digit list"
  defines "n \<equiv> NN_Digits d"
  defines "shift \<equiv> 32 - NN_DigitBits (d ! (n - 1))"
  assumes "n \<noteq> 0" "NN_LShift a (take n d) shift = (dd, k)"
  shows "shift < 32" "length dd = n" "nn_val dd = nn_val d * 2 ^ shift" "2 ^ 31 * NN_B ^ (n - 1) \<le> nn_val dd"
proof -
  let ?x = "d ! (n - 1)"
  have nx: "n \<le> length d" "nn_val (take n d) = nn_val d" "?x \<noteq> 0"
    using NN_Digits_props [of d] assms(3) by (simp_all add: n_def)
  then have b: "NN_DigitBits ?x \<le> 32" "unat ?x < 2 ^ NN_DigitBits ?x" "NN_DigitBits ?x \<noteq> 0"
    "2 ^ (NN_DigitBits ?x - 1) \<le> unat ?x" using NN_DigitBits_val [of ?x] by auto
  then show sh: "shift < 32" by (simp add: shift_def)
  note ls = NN_LShift_val [OF sh assms(4)]
  have ltk: "length (take n d) = n" using nx(1) by simp
  show l: "length dd = n" using ls(2) ltk by simp
  have tk: "take n d = take (n - 1) d @ [?x]" using assms(3) nx(1) by (cases n) (simp_all add: take_Suc_conv_app_nth)
  have lt: "length (take (n - 1) d) = n - 1" using nx(1) by simp
  have v: "nn_val d = nn_val (take (n - 1) d) + NN_B ^ (n - 1) * unat ?x"
    using nn_val_append [of "take (n - 1) d" "[?x]"] unfolding nx(2) [symmetric] tk lt by simp
  have N: "NN_B ^ n = NN_B * NN_B ^ (n - 1)" using assms(3) by (cases n) simp_all
  have p32: "(2::nat) ^ NN_DigitBits ?x * 2 ^ shift = NN_B" using b(1) by (simp add: shift_def flip: power_add)
  have p31: "(2::nat) ^ (NN_DigitBits ?x - 1) * 2 ^ shift = 2 ^ 31"
  proof -
    have "NN_DigitBits ?x - 1 + shift = 31" using b(1,3) by (simp add: shift_def)
    then show ?thesis by (simp flip: power_add)
  qed
  have "nn_val d < NN_B ^ (n - 1) * (unat ?x + 1)"
    using v nn_val_less [of "take (n - 1) d"] unfolding lt by simp
  also have "\<dots> \<le> NN_B ^ (n - 1) * 2 ^ NN_DigitBits ?x" using b(2) by (intro mult_le_mono2) simp
  finally have "nn_val d * 2 ^ shift < NN_B ^ (n - 1) * 2 ^ NN_DigitBits ?x * 2 ^ shift"
    by (intro mult_strict_right_mono) simp_all
  then have "nn_val d * 2 ^ shift < NN_B ^ n" unfolding mult.assoc p32 N by (simp only: mult.commute)
  then have "unat k = 0" using ls(1) ltk nx(2) by (cases "unat k") auto
  then show dv: "nn_val dd = nn_val d * 2 ^ shift" using ls(1) nx(2) by simp
  have "2 ^ 31 * NN_B ^ (n - 1) = NN_B ^ (n - 1) * 2 ^ (NN_DigitBits ?x - 1) * 2 ^ shift"
    unfolding mult.assoc p31 by (rule mult.commute)
  also have "\<dots> \<le> nn_val d * 2 ^ shift" unfolding v using b(4) by (intro mult_le_mono1 trans_le_add2 mult_le_mono2)
  finally show "2 ^ 31 * NN_B ^ (n - 1) \<le> nn_val dd" using dv by simp
qed

lemma NN_Div_val:
  assumes "0 < nn_val d"
  shows "\<exists>a' b'. NN_Div a b c d = Some (a', b') \<and> length a' = length c \<and> length b' = length d
     \<and> nn_val a' = nn_val c div nn_val d \<and> nn_val b' = nn_val c mod nn_val d"
proof -
  define n m where "n = NN_Digits d" and "m = length c"
  define shift where "shift = 32 - NN_DigitBits (d ! (n - 1))"
  have n0: "n \<noteq> 0" using NN_Digits_props(2) [of d] assms by (cases n) (simp_all add: n_def)
  obtain ccs k where ck: "NN_LShift (NN_AssignZero m) c shift = (ccs, k)" by force
  obtain dd k' where dk: "NN_LShift (NN_AssignZero n) (take n d) shift = (dd, k')" by force
  note nrm = nn_div_normalise [of d, folded n_def, folded shift_def, OF n0 dk]
  note ls = NN_LShift_val [OF nrm(1) ck]
  define cc where "cc = ccs @ [k] @ NN_AssignZero (n - (m + 1))"
  define i where "i = m + 1 - n"
  have cv: "nn_val cc = nn_val c * 2 ^ shift" using ls(1,2)
    by (simp add: cc_def nn_val_append NN_AssignZero_def)
  have lc: "length cc = m + 1 + (n - (m + 1))" using ls(2) by (simp add: cc_def m_def NN_AssignZero_def)
  have dd0: "dd \<noteq> []" using nrm(2) n0 by auto
  have k31: "unat k + 1 \<le> 2 ^ 31"
  proof -
    have "(2::nat) ^ shift \<le> 2 ^ 31" using nrm(1) by (intro power_increasing) simp_all
    then show ?thesis using ls(3) by simp
  qed
  have hd: "nn_val (drop i cc) < nn_val dd"
  proof (cases "n \<le> m + 1")
    case True
    then have e: "drop i cc = drop i ccs @ [k]" using n0 ls(2) by (simp add: cc_def i_def NN_AssignZero_def m_def)
    have "length (drop i ccs) = n - 1" using True n0 ls(2) by (simp add: i_def m_def)
    then have "nn_val (drop i cc) < NN_B ^ (n - 1) * (unat k + 1)"
      using nn_val_less [of "drop i ccs"] by (simp add: e nn_val_append)
    also have "\<dots> \<le> NN_B ^ (n - 1) * 2 ^ 31" using k31 by (intro mult_le_mono2)
    finally show ?thesis using nrm(4) by (simp only: mult.commute)
  next
    case False
    then have "drop i cc = (ccs @ [k]) @ replicate (n - (m + 1)) 0" by (simp add: cc_def i_def NN_AssignZero_def)
    then have "nn_val (drop i cc) = nn_val (ccs @ [k])" by (simp only: nn_val_append_zeros)
    also have "\<dots> < NN_B ^ (m + 1)" using nn_val_less [of "ccs @ [k]"] ls(2) by (simp add: m_def)
    also have "\<dots> \<le> NN_B ^ (n - 1)" using False by (intro power_increasing) simp_all
    also have "\<dots> \<le> 2 ^ 31 * NN_B ^ (n - 1)" by simp
    finally show ?thesis using nrm(4) by linarith
  qed
  have "i + length dd \<le> length cc" using lc nrm(2) by (simp add: i_def)
  moreover have "i \<le> length (NN_AssignZero m)" using n0 by (simp add: NN_AssignZero_def i_def)
  ultimately obtain cc' a' where r: "nn_div_loop dd i cc (NN_AssignZero m) = Some (cc', a')"
    "length cc' = length cc" "length a' = m" "nn_val cc' = nn_val cc mod nn_val dd"
    "nn_val (take i a') = nn_val cc div nn_val dd" "drop i a' = replicate (m - i) 0"
    using nn_div_loop_val [OF dd0 _ hd] by (fastforce simp: NN_AssignZero_def)
  have a': "nn_val a' = nn_val c div nn_val d"
    using nn_val_append_zeros [of "take i a'" "m - i"] r(5) append_take_drop_id [of i a'] cv nrm(3)
    unfolding r(6) [symmetric] by simp
  have tk: "nn_val (take n cc') = nn_val cc'"
  proof -
    have "nn_val (drop n cc') = 0"
    proof (rule ccontr)
      assume "nn_val (drop n cc') \<noteq> 0"
      then have "NN_B ^ n * 1 \<le> NN_B ^ n * nn_val (drop n cc')" by (intro mult_le_mono2) simp
      moreover have "nn_val cc' < NN_B ^ n"
        using r(4) nn_val_less [of dd] nrm(2) hd by (metis gr_implies_not0 mod_less_divisor neq0_conv order.strict_trans)
      moreover have "length (take n cc') = n" using r(2) lc by simp
      then have "nn_val cc' = nn_val (take n cc') + NN_B ^ n * nn_val (drop n cc')"
        using nn_val_append [of "take n cc'" "drop n cc'"] by simp
      ultimately show False by linarith
    qed
    then show ?thesis using nn_val_append [of "take n cc'" "drop n cc'"] by simp
  qed
  define b' where "b' = fst (NN_RShift (NN_AssignZero n) (take n cc') shift) @ NN_AssignZero (length d - n)"
  have "nn_val b' = nn_val cc' div 2 ^ shift"
    using NN_RShift_val(1) [OF nrm(1)] tk by (simp add: b'_def NN_AssignZero_def)
  also have "\<dots> = nn_val c mod nn_val d" by (simp add: r(4) cv nrm(3) flip: mod_mult_mult2)
  finally have "nn_val b' = nn_val c mod nn_val d" .
  moreover have "length b' = length d" using NN_RShift_val(2) [OF nrm(1)] r(2) lc NN_Digits_props(1) [of d]
    by (simp add: b'_def NN_AssignZero_def n_def)
  moreover have "NN_Div a b c d = Some (a', b')"
    unfolding NN_Div_def Let_def n_def [symmetric] m_def [symmetric] shift_def [symmetric]
    using r(1) by (simp add: n0 ck dk b'_def cc_def i_def)
  ultimately show ?thesis using a' r(3) by (auto simp: m_def)
qed

lemma NN_Mod_val:
  assumes "0 < nn_val c"
  shows "\<exists>r. NN_Mod a b c = Some r \<and> length r = length c \<and> nn_val r = nn_val b mod nn_val c"
  using NN_Div_val [OF assms, of "NN_AssignZero (length b)" a b] by (auto simp: NN_Mod_def)

lemma NN_ModMult_val:
  assumes "0 < nn_val d" "length b = length d" "length c = length d"
  shows "\<exists>r. NN_ModMult a b c d = Some r \<and> length r = length d
     \<and> nn_val r = nn_val b * nn_val c mod nn_val d"
  using NN_Mod_val [OF assms(1), of a "NN_Mult b c (length d)"] NN_Mult_val(1) [OF assms(2,3)]
  by (simp add: NN_ModMult_def)

text \<open>
  C13. The division of \<^verbatim>\<open>nn.c\<close> always returns when the divisor is not zero, whatever the lengths of
  its operands, and then leaves the quotient in \<open>a\<close> (as many digits as \<open>c\<close> has) and the remainder in
  \<open>b\<close> (as many digits as \<open>d\<close> has), although each quotient digit is only estimated from half digits.
\<close>

theorem NN_Div_correct:
  assumes "nn_val d \<noteq> 0"
  shows "\<exists>q r. NN_Div a b c d = Some (q, r) \<and> length q = length c \<and> length r = length d
     \<and> nn_val c = nn_val q * nn_val d + nn_val r \<and> nn_val r < nn_val d"
  using NN_Div_val [of d a b c] assms by auto

theorem NN_Div_correct_witness:
  "\<exists>q r. NN_Div [] [] [5, 0, 0xffffffff] [7, 0x80000000] = Some (q, r) \<and> length q = Suc (Suc (Suc 0)) \<and> length r = Suc (Suc 0)
     \<and> nn_val [5, 0, 0xffffffff] = nn_val q * nn_val [7, 0x80000000] + nn_val r
     \<and> nn_val r < nn_val [7, 0x80000000]"
  using NN_Div_correct [of "[7, 0x80000000]" "[]" "[]" "[5, 0, 0xffffffff]"] by simp

end
