(* ===== verification/NN_Exp.thy ===== *)
theory NN_Exp
  imports NN_Div
begin

text \<open>
  \<^verbatim>\<open>QBase/RSAEuro/nn.c\<close>: the modular operations the RSA code is built from, \<^verbatim>\<open>NN_ModExp\<close> (two
  bits of the exponent at a time), \<^verbatim>\<open>NN_ModInv\<close> and \<^verbatim>\<open>NN_Gcd\<close>. They are shown to compute the
  power, an inverse and the greatest common divisor of the numbers their digits stand for.
\<close>

section \<open>The operations\<close>

subsection \<open>Exponentiation\<close>

text \<open>The scan past the leading zero bit pairs of the top digit.\<close>

partial_function (option) nn_skip_pairs :: "nn_digit \<Rightarrow> nat \<Rightarrow> (nn_digit \<times> nat) option" where
  "nn_skip_pairs ci ciBits =
     (if DIGIT_2MSB ci = 0 then nn_skip_pairs (push_bit 2 ci) (ciBits - 2) else Some (ci, ciBits))"

text \<open>The inner loop; \<open>n\<close> is the number of bit pairs left, \<open>ciBits / 2\<close> at first.\<close>

fun nn_exp_pairs ::
  "nn_digit list list \<Rightarrow> nn_digit list \<Rightarrow> nat \<Rightarrow> nn_digit \<Rightarrow> nn_digit list \<Rightarrow> nn_digit list option"
where
  "nn_exp_pairs bPower d 0 ci t = Some t"
| "nn_exp_pairs bPower d (Suc n) ci t =
     do { t \<leftarrow> NN_ModMult t t t d;
          t \<leftarrow> NN_ModMult t t t d;
          t \<leftarrow> (let s = DIGIT_2MSB ci
               in if s \<noteq> 0 then NN_ModMult t t (bPower ! (unat s - 1)) d else Some t);
          nn_exp_pairs bPower d n (push_bit 2 ci) t }"

text \<open>The outer loop from digit \<open>i\<close> down to 0, with \<open>i + 1\<close> as the argument.\<close>

fun nn_exp_loop ::
  "nn_digit list list \<Rightarrow> nn_digit list \<Rightarrow> nn_digit list \<Rightarrow> nat \<Rightarrow> nat \<Rightarrow> nn_digit list \<Rightarrow> nn_digit list option"
where
  "nn_exp_loop bPower d c cDigits 0 t = Some t"
| "nn_exp_loop bPower d c cDigits (Suc i) t =
     do { (ci, ciBits) \<leftarrow> (if i = cDigits - 1 then nn_skip_pairs (c ! i) 32 else Some (c ! i, 32));
          t \<leftarrow> nn_exp_pairs bPower d (ciBits div 2) ci t;
          nn_exp_loop bPower d c cDigits i t }"

definition NN_ModExp :: "nn_digit list \<Rightarrow> nn_digit list \<Rightarrow> nn_digit list \<Rightarrow> nn_digit list option" where
  "NN_ModExp b c d =
     (let dDigits = length d; bPower0 = NN_Assign b dDigits
      in do { bPower1 \<leftarrow> NN_ModMult (NN_AssignZero dDigits) bPower0 b d;
              bPower2 \<leftarrow> NN_ModMult (NN_AssignZero dDigits) bPower1 b d;
              let cDigits = NN_Digits c;
              nn_exp_loop [bPower0, bPower1, bPower2] d c cDigits cDigits (NN_ASSIGN_DIGIT 1 dDigits) })"

subsection \<open>Inverse\<close>

text \<open>The loop of the extended Euclidean algorithm; the result is \<open>u1\<close> and its sign.\<close>

partial_function (option) nn_modinv_loop ::
  "nn_digit list \<Rightarrow> nn_digit list \<Rightarrow> nn_digit list \<Rightarrow> nn_digit list \<Rightarrow> int \<Rightarrow> (nn_digit list \<times> int) option"
where
  "nn_modinv_loop u1 v1 u3 v3 u1Sign =
     (if \<not> NN_Zero v3
      then do { (q, t3) \<leftarrow> NN_Div (NN_AssignZero (length u3)) (NN_AssignZero (length u3)) u3 v3;
                let w = NN_Mult q v1 (length u3);
                let t1 = fst (NN_Add u1 (take (length u3) w));
                nn_modinv_loop v1 t1 v3 t3 (- u1Sign) }
      else Some (u1, u1Sign))"

definition NN_ModInv :: "nn_digit list \<Rightarrow> nn_digit list \<Rightarrow> nn_digit list option" where
  "NN_ModInv b c =
     (let digits = length c
      in do { (u1, u1Sign) \<leftarrow> nn_modinv_loop (NN_ASSIGN_DIGIT 1 digits) (NN_AssignZero digits)
                               (NN_Assign b digits) (NN_Assign c digits) 1;
              Some (if u1Sign < 0 then fst (NN_Sub c u1) else NN_Assign u1 digits) })"

subsection \<open>Greatest common divisor\<close>

definition iplus1 :: "nat \<Rightarrow> nat" where "iplus1 i = (if i = 2 then 0 else i + 1)"
definition iminus1 :: "nat \<Rightarrow> nat" where "iminus1 i = (if i = 0 then 2 else i - 1)"

text \<open>The three rows \<open>t[0..2]\<close> used in turn; the result is the row \<open>g(iminus1)\<close> at the end.\<close>

partial_function (option) nn_gcd_loop :: "nn_digit list list \<Rightarrow> nat \<Rightarrow> nn_digit list option" where
  "nn_gcd_loop t i =
     (if \<not> NN_Zero (t ! i)
      then do { r \<leftarrow> NN_Mod (t ! iplus1 i) (t ! iminus1 i) (t ! i);
                nn_gcd_loop (t[iplus1 i := r]) (iplus1 i) }
      else Some (t ! iminus1 i))"

text \<open>\<open>t2\<close> is what the row not yet written holds.\<close>

definition NN_Gcd :: "nn_digit list \<Rightarrow> nn_digit list \<Rightarrow> nn_digit list \<Rightarrow> nn_digit list option" where
  "NN_Gcd t2 b c = nn_gcd_loop [NN_Assign c (length c), NN_Assign b (length c), t2] 1"

section \<open>Correctness of the exponentiation\<close>

lemma DIGIT_2MSB_val: "unat (DIGIT_2MSB x) = unat x div 2 ^ 30"
proof -
  have "unat x div 2 ^ 30 < 4" using unat_u32_less [of x] by (simp del: unat_u32_less)
  moreover have "DIGIT_2MSB x = take_bit 2 (drop_bit 30 x)" by (simp add: DIGIT_2MSB_def take_bit_eq_mask mask_eq_exp_minus_1)
  ultimately show ?thesis by (simp add: unat_take_bit_u32 unat_drop_bit_u32)
qed

text \<open>\<open>n\<close> bit pairs at the top of a digit, read as a number.\<close>

lemma pairs_step:
  assumes "unat ci = v * 4 ^ (16 - Suc n)" "v < 4 ^ Suc n" "n < 16"
  shows "unat (push_bit 2 ci) = (v mod 4 ^ n) * 4 ^ (16 - n)" "unat (DIGIT_2MSB ci) = v div 4 ^ n"
proof -
  have e: "(4::nat) ^ n * 4 ^ (15 - n) = 2 ^ 30" "(4::nat) ^ n * 4 ^ (16 - n) = 2 ^ 32"
    "4 ^ (16 - n) = (4::nat) * 4 ^ (15 - n)"
    using assms(3) by (simp_all flip: power_add power_Suc add: Suc_diff_le)
  have "unat ci div 2 ^ 30 = v * 4 ^ (15 - n) div (4 ^ n * 4 ^ (15 - n))" unfolding e assms(1) by simp
  also have "\<dots> = v div 4 ^ n" by (rule div_mult_mult2) simp
  finally show "unat (DIGIT_2MSB ci) = v div 4 ^ n" by (simp only: DIGIT_2MSB_val)
  have "unat (push_bit 2 ci) = (v * 4 ^ (16 - n)) mod (4 ^ n * 4 ^ (16 - n))"
    unfolding unat_push_bit_u32 e(2) assms(1) using e(3) by (simp add: mult.assoc mult.commute [of 4])
  also have "\<dots> = (v mod 4 ^ n) * 4 ^ (16 - n)" by (rule mod_mult_mult2)
  finally show "unat (push_bit 2 ci) = (v mod 4 ^ n) * 4 ^ (16 - n)" .
qed

lemma mod_pow4: "(x mod D * (x mod D) mod D * (x mod D * (x mod D) mod D)) mod D = x ^ 4 mod D" for x D :: nat
proof -
  have "x ^ 4 = (x * x) * (x * x)" by (simp add: numeral_eq_Suc algebra_simps)
  then show ?thesis by (simp only: mod_mult_left_eq mod_mult_right_eq)
qed

lemma nn_exp_pairs_val:
  assumes D: "1 < nn_val d" and b: "length bPower = 3"
      "\<And>j. j < 3 \<Longrightarrow> length (bPower ! j) = length d \<and> nn_val (bPower ! j) mod nn_val d = x ^ (j + 1) mod nn_val d"
    and "n \<le> 16" "unat ci = v * 4 ^ (16 - n)" "v < 4 ^ n"
    and "length t = length d" "nn_val t = x ^ e mod nn_val d"
  shows "\<exists>t'. nn_exp_pairs bPower d n ci t = Some t' \<and> length t' = length d
     \<and> nn_val t' = x ^ (e * 4 ^ n + v) mod nn_val d"
  using assms(4-)
proof (induction n arbitrary: ci v t e)
  case 0
  then show ?case by simp
next
  case (Suc n)
  let ?D = "nn_val d"
  have D0: "0 < ?D" using D by simp
  have st: "unat (push_bit 2 ci) = (v mod 4 ^ n) * 4 ^ (16 - n)" "unat (DIGIT_2MSB ci) = v div 4 ^ n"
    using pairs_step [OF Suc.prems(2,3)] Suc.prems(1) by simp_all
  obtain t1 where t1: "NN_ModMult t t t d = Some t1" "length t1 = length d" "nn_val t1 = nn_val t * nn_val t mod ?D"
    using NN_ModMult_val [OF D0 Suc.prems(4,4)] by blast
  obtain t2 where t2: "NN_ModMult t1 t1 t1 d = Some t2" "length t2 = length d" "nn_val t2 = nn_val t1 * nn_val t1 mod ?D"
    using NN_ModMult_val [OF D0 t1(2,2)] by blast
  have v2: "nn_val t2 = x ^ (e * 4) mod ?D"
    unfolding t2(3) t1(3) Suc.prems(5) mod_pow4 by (simp add: power_mult)
  let ?s = "v div 4 ^ n"
  have s4: "?s < 4" using Suc.prems(3) by (simp add: less_mult_imp_div_less mult.commute)
  obtain t3 where t3: "(let s = DIGIT_2MSB ci in if s \<noteq> 0 then NN_ModMult t2 t2 (bPower ! (unat s - 1)) d else Some t2) = Some t3"
    "length t3 = length d" "nn_val t3 = x ^ (e * 4 + ?s) mod ?D"
  proof (cases "?s = 0")
    case True
    then have "DIGIT_2MSB ci = 0" using st(2) by (simp only: unat_eq_0)
    then show ?thesis using that [of t2] t2(2) v2 True by simp
  next
    case False
    then have nz: "DIGIT_2MSB ci \<noteq> 0" using st(2) by (metis unat_0)
    have j: "?s - 1 < 3" "?s - 1 + 1 = ?s" using s4 False by simp_all
    obtain t3 where t3: "NN_ModMult t2 t2 (bPower ! (?s - 1)) d = Some t3" "length t3 = length d"
      "nn_val t3 = nn_val t2 * nn_val (bPower ! (?s - 1)) mod ?D"
      using NN_ModMult_val [OF D0 t2(2)] b(2) [OF j(1)] by blast
    have "nn_val t3 = (x ^ (e * 4) mod ?D) * (nn_val (bPower ! (?s - 1)) mod ?D) mod ?D"
      unfolding t3(3) v2 by (simp only: mod_simps)
    also have "\<dots> = x ^ (e * 4 + ?s) mod ?D"
      using b(2) [OF j(1)] j(2) by (simp only: mod_simps power_add)
    finally show ?thesis using that [of t3] nz t3 st(2) by (simp only: Let_def if_True simp_thms)
  qed
  have "\<exists>t'. nn_exp_pairs bPower d n (push_bit 2 ci) t3 = Some t' \<and> length t' = length d
     \<and> nn_val t' = x ^ ((e * 4 + ?s) * 4 ^ n + v mod 4 ^ n) mod ?D"
    by (rule Suc.IH) (use Suc.prems(1) st(1) t3 in simp_all)
  moreover have "(e * 4 + ?s) * 4 ^ n + v mod 4 ^ n = e * 4 ^ Suc n + v" by (simp add: algebra_simps)
  ultimately show ?case using t1(1) t2(1) t3(1) by simp
qed

lemma nn_skip_pairs_val:
  assumes "n \<le> 16" "unat ci = v * 4 ^ (16 - n)" "v < 4 ^ n" "v \<noteq> 0"
  shows "\<exists>ci' m. nn_skip_pairs ci (2 * n) = Some (ci', 2 * m) \<and> m \<le> 16 \<and> unat ci' = v * 4 ^ (16 - m) \<and> v < 4 ^ m"
  using assms
proof (induction n arbitrary: ci)
  case 0
  then show ?case by simp
next
  case (Suc n)
  have st: "unat (push_bit 2 ci) = (v mod 4 ^ n) * 4 ^ (16 - n)" "unat (DIGIT_2MSB ci) = v div 4 ^ n"
    using pairs_step [OF Suc.prems(2,3)] Suc.prems(1) by simp_all
  show ?case
  proof (cases "v < 4 ^ n")
    case True
    then have "DIGIT_2MSB ci = 0" using st(2) by (simp add: unat_eq_0)
    moreover have "2 * Suc n - 2 = 2 * n" by simp
    ultimately have "nn_skip_pairs ci (2 * Suc n) = nn_skip_pairs (push_bit 2 ci) (2 * n)"
      by (subst nn_skip_pairs.simps) (simp only: if_True simp_thms)
    then show ?thesis using Suc.IH [of "push_bit 2 ci"] Suc.prems(1,4) st(1) True by simp
  next
    case False
    then have "unat (DIGIT_2MSB ci) \<noteq> 0" using st(2) by (simp add: div_eq_0_iff)
    then have "DIGIT_2MSB ci \<noteq> 0" by (metis unat_0)
    then have "nn_skip_pairs ci (2 * Suc n) = Some (ci, 2 * Suc n)" by (subst nn_skip_pairs.simps) simp
    then show ?thesis using Suc.prems(1-3) by blast
  qed
qed

lemma nn_exp_loop_val:
  assumes D: "1 < nn_val d" and b: "length bPower = 3"
      "\<And>j. j < 3 \<Longrightarrow> length (bPower ! j) = length d \<and> nn_val (bPower ! j) mod nn_val d = x ^ (j + 1) mod nn_val d"
    and c: "n \<le> length c" "n \<noteq> 0 \<Longrightarrow> c ! (n - 1) \<noteq> 0"
    and "i \<le> n" "length t = length d" "nn_val t = x ^ nn_val (drop i (take n c)) mod nn_val d"
  shows "\<exists>t'. nn_exp_loop bPower d c n i t = Some t' \<and> length t' = length d
     \<and> nn_val t' = x ^ nn_val (take n c) mod nn_val d"
  using assms(6-)
proof (induction i arbitrary: t)
  case 0
  then show ?case by simp
next
  case (Suc i)
  let ?e = "nn_val (drop (Suc i) (take n c))" and ?v = "unat (c ! i)"
  have i: "i < n" using Suc.prems(1) by simp
  have v16: "?v < 4 ^ 16" using unat_u32_less [of "c ! i"] by (simp del: unat_u32_less)
  obtain ci m where cm: "(if i = n - 1 then nn_skip_pairs (c ! i) 32 else Some (c ! i, 32)) = Some (ci, 2 * m)"
    "m \<le> 16" "unat ci = ?v * 4 ^ (16 - m)" "?v < 4 ^ m" "?e * 4 ^ m = ?e * NN_B"
  proof (cases "i = n - 1")
    case True
    then have "?v \<noteq> 0" using c(2) i by (simp add: unat_eq_0)
    from nn_skip_pairs_val [of 16 "c ! i" ?v, OF _ _ v16 this] obtain ci' m where
      "nn_skip_pairs (c ! i) 32 = Some (ci', 2 * m)" "m \<le> 16" "unat ci' = ?v * 4 ^ (16 - m)" "?v < 4 ^ m" by auto
    moreover have "?e = 0" using True by simp
    ultimately show ?thesis using that [of ci' m] True by simp
  next
    case False
    then show ?thesis using that [of "c ! i" 16] v16 by simp
  qed
  obtain t1 where t1: "nn_exp_pairs bPower d m ci t = Some t1" "length t1 = length d"
    "nn_val t1 = x ^ (?e * 4 ^ m + ?v) mod nn_val d"
    using nn_exp_pairs_val [OF D b cm(2-4) Suc.prems(2,3)] by blast
  have "drop i (take n c) = c ! i # drop (Suc i) (take n c)"
    using i c(1) Cons_nth_drop_Suc [of i "take n c"] by simp
  then have "nn_val (drop i (take n c)) = ?e * 4 ^ m + ?v" using cm(5) by (simp add: mult.commute)
  then have "\<exists>t'. nn_exp_loop bPower d c n i t1 = Some t' \<and> length t' = length d
     \<and> nn_val t' = x ^ nn_val (take n c) mod nn_val d"
    using t1 i by (intro Suc.IH) simp_all
  then show ?case using t1(1) cm(1) by (simp split del: if_split)
qed

lemma nn_val_ASSIGN_DIGIT:
  assumes "0 < n" shows "nn_val (NN_ASSIGN_DIGIT b n) = unat b" "length (NN_ASSIGN_DIGIT b n) = n"
  using assms by (cases n; simp add: NN_ASSIGN_DIGIT_def NN_AssignZero_def)+

lemma NN_ModExp_val:
  assumes "1 < nn_val d" "length b = length d"
  shows "\<exists>r. NN_ModExp b c d = Some r \<and> length r = length d
     \<and> nn_val r = nn_val b ^ nn_val c mod nn_val d"
proof -
  let ?D = "nn_val d" and ?x = "nn_val b" and ?n = "length d"
  have D0: "0 < ?D" using assms(1) by simp
  have n0: "0 < ?n" using assms(1) by (cases d) auto
  have b0: "NN_Assign b ?n = b" using assms(2) by (simp add: NN_Assign_def)
  obtain b1 where b1: "NN_ModMult (NN_AssignZero ?n) b b d = Some b1" "length b1 = ?n" "nn_val b1 = ?x * ?x mod ?D"
    using NN_ModMult_val [OF D0 assms(2,2)] by blast
  obtain b2 where b2: "NN_ModMult (NN_AssignZero ?n) b1 b d = Some b2" "length b2 = ?n" "nn_val b2 = nn_val b1 * ?x mod ?D"
    using NN_ModMult_val [OF D0 b1(2) assms(2)] by blast
  have bp: "length ([b, b1, b2] ! j) = ?n \<and> nn_val ([b, b1, b2] ! j) mod ?D = ?x ^ (j + 1) mod ?D" if j3: "j < 3" for j
  proof -
    consider "j = 0" | "j = 1" | "j = 2" using j3 by linarith
    then show ?thesis
      by cases (simp_all add: assms(2) b1(2,3) b2(2,3) power2_eq_square power3_eq_cube mod_simps)
  qed
  have "\<exists>t'. nn_exp_loop [b, b1, b2] d c (NN_Digits c) (NN_Digits c) (NN_ASSIGN_DIGIT 1 ?n) = Some t' \<and> length t' = ?n
     \<and> nn_val t' = ?x ^ nn_val (take (NN_Digits c) c) mod ?D"
    using NN_Digits_props [of c] bp assms(1) n0
    by (intro nn_exp_loop_val) (simp_all add: nn_val_ASSIGN_DIGIT)
  then show ?thesis
    using b1(1) b2(1) NN_Digits_props(2) [of c] by (auto simp: NN_ModExp_def Let_def b0)
qed

section \<open>Correctness of the Euclidean algorithms\<close>

lemma nn_gcd_loop_val:
  assumes "length t = 3" "i < 3" "length (t ! i) = n" "length (t ! iminus1 i) = n" 
    "length (t ! i) = n"
  shows "\<exists>r. nn_gcd_loop t i = Some r \<and> length r = n \<and> nn_val r = gcd (nn_val (t ! iminus1 i)) (nn_val (t ! i))"
  using assms
proof (induction "nn_val (t ! i)" arbitrary: t i rule: less_induct)
  case less
  show ?case
  proof (cases "NN_Zero (t ! i)")
    case True
    then show ?thesis using less.prems by (subst nn_gcd_loop.simps) (simp add: NN_Zero_val)
  next
    case False
    then have pos: "0 < nn_val (t ! i)" by (simp add: NN_Zero_val)
    let ?p = "iplus1 i"
    obtain r where r: "NN_Mod (t ! ?p) (t ! iminus1 i) (t ! i) = Some r" "length r = n"
      "nn_val r = nn_val (t ! iminus1 i) mod nn_val (t ! i)"
      using NN_Mod_val [OF pos] less.prems(3) by blast
    let ?t = "t[?p := r]"
    have p: "?p < 3" "iminus1 ?p = i" "?p \<noteq> i" using less.prems(2) by (auto simp: iplus1_def iminus1_def)
    have nth: "?t ! ?p = r" "?t ! iminus1 ?p = t ! i" using p less.prems(1) by simp_all
    have "\<exists>u. nn_gcd_loop ?t ?p = Some u \<and> length u = n \<and> nn_val u = gcd (nn_val (?t ! iminus1 ?p)) (nn_val (?t ! ?p))"
      using r pos p(1) less.prems by (intro less.hyps) (simp_all add: nth)
    moreover have "nn_gcd_loop t i = nn_gcd_loop ?t ?p"
      using False r(1) by (subst nn_gcd_loop.simps) simp
    moreover have "gcd (nn_val (t ! i)) (nn_val r) = gcd (nn_val (t ! iminus1 i)) (nn_val (t ! i))"
      unfolding r(3) by (metis gcd.commute gcd_red_nat)
    ultimately show ?thesis unfolding nth by simp
  qed
qed

lemma NN_Gcd_val:
  assumes "length b = length c"
  shows "\<exists>r. NN_Gcd t2 b c = Some r \<and> length r = length c \<and> nn_val r = gcd (nn_val b) (nn_val c)"
  using nn_gcd_loop_val [of "[NN_Assign c (length c), NN_Assign b (length c), t2]" 1 "length c"] assms
  by (simp add: NN_Gcd_def iminus1_def NN_Assign_def gcd.commute)

text \<open>
  What the loop of \<^verbatim>\<open>NN_ModInv\<close> keeps: \<open>u1\<close> and \<open>v1\<close> are, up to sign, the factors of \<open>b\<close> in \<open>u3\<close>
  and \<open>v3\<close> modulo \<open>c\<close>, and they stay below \<open>c\<close>, so that no digit of \<open>u1 + q * v1\<close> is lost.
\<close>

definition modinv_inv :: "nat \<Rightarrow> nat \<Rightarrow> nat \<Rightarrow> nat \<Rightarrow> nat \<Rightarrow> nat \<Rightarrow> int \<Rightarrow> bool" where
  "modinv_inv b c u1 v1 u3 v3 sg \<longleftrightarrow>
     (sg = 1 \<or> sg = - 1) \<and> u1 * v3 + v1 * u3 = c \<and> u1 \<le> c \<and> v1 \<le> c \<and> gcd u3 v3 = gcd b c
     \<and> int c dvd sg * int u1 * int b - int u3 \<and> int c dvd - sg * int v1 * int b - int v3"

lemma modinv_inv_step:
  assumes I: "modinv_inv b c u1 v1 u3 v3 sg" and "0 < v3"
  shows "modinv_inv b c v1 (u1 + u3 div v3 * v1) v3 (u3 mod v3) (- sg)"
proof -
  let ?q = "u3 div v3"
  have u3: "u3 mod v3 + ?q * v3 = u3" by simp
  have "v1 * (u3 mod v3) + (u1 + ?q * v1) * v3 = v1 * (u3 mod v3 + ?q * v3) + u1 * v3"
    by (simp only: distrib_left distrib_right ac_simps)
  then have e: "v1 * (u3 mod v3) + (u1 + ?q * v1) * v3 = c" using I unfolding u3 by (simp add: modinv_inv_def)
  have "u1 + ?q * v1 \<le> (u1 + ?q * v1) * v3" using assms(2) by simp
  then have le: "u1 + ?q * v1 \<le> c" using e by linarith
  have g: "gcd v3 (u3 mod v3) = gcd b c" using I by (metis gcd.commute gcd_red_nat modinv_inv_def)
  have "int c dvd (sg * int u1 * int b - int u3) - int ?q * (- sg * int v1 * int b - int v3)"
    using I unfolding modinv_inv_def by (blast intro: dvd_diff dvd_mult)
  moreover have "int u3 = int (u3 mod v3) + int ?q * int v3" by (simp only: u3 flip: of_nat_mult of_nat_add)
  ultimately have "int c dvd - (- sg) * int (u1 + ?q * v1) * int b - int (u3 mod v3)"
    by (simp add: algebra_simps del: of_nat_mod of_nat_div)
  moreover have "- sg = 1 \<or> - sg = - 1" using I by (auto simp: modinv_inv_def)
  ultimately show ?thesis using I e le g unfolding modinv_inv_def by simp
qed

lemma nn_modinv_loop_val:
  assumes "c < NN_B ^ n" "length u1 = n" "length v1 = n" "length u3 = n" "length v3 = n"
    "modinv_inv b c (nn_val u1) (nn_val v1) (nn_val u3) (nn_val v3) sg"
  shows "\<exists>u sg'. nn_modinv_loop u1 v1 u3 v3 sg = Some (u, sg') \<and> length u = n
     \<and> (\<exists>v g. modinv_inv b c (nn_val u) v g 0 sg')"
  using assms(2-)
proof (induction "nn_val v3" arbitrary: u1 v1 u3 v3 sg rule: less_induct)
  case less
  show ?case
  proof (cases "NN_Zero v3")
    case True
    then have "nn_modinv_loop u1 v1 u3 v3 sg = Some (u1, sg)" by (subst nn_modinv_loop.simps) simp
    then show ?thesis using less.prems True by (auto simp: NN_Zero_val)
  next
    case False
    then have pos: "0 < nn_val v3" by (simp add: NN_Zero_val)
    obtain q t3 where qt: "NN_Div (NN_AssignZero n) (NN_AssignZero n) u3 v3 = Some (q, t3)" "length q = n"
      "length t3 = n" "nn_val q = nn_val u3 div nn_val v3" "nn_val t3 = nn_val u3 mod nn_val v3"
      using NN_Div_val [OF pos, of "NN_AssignZero n" "NN_AssignZero n" u3] less.prems(3,4) by auto
    let ?w = "NN_Mult q v1 n"
    obtain t1 k where tk: "NN_Add u1 (take n ?w) = (t1, k)" by force
    have wv: "nn_val ?w = nn_val q * nn_val v1" "length ?w = 2 * n" using NN_Mult_val [OF qt(2) less.prems(2)] by simp_all
    have st: "modinv_inv b c (nn_val v1) (nn_val u1 + nn_val ?w) (nn_val v3) (nn_val t3) (- sg)"
      using modinv_inv_step [OF less.prems(5) pos] by (simp only: wv(1) qt(4,5))
    then have wl: "nn_val u1 + nn_val ?w < NN_B ^ n" using assms(1) unfolding modinv_inv_def by linarith
    have tw: "nn_val (take n ?w) = nn_val ?w"
    proof -
      have "nn_val ?w = nn_val (take n ?w) + NN_B ^ n * nn_val (drop n ?w)"
        using nn_val_append [of "take n ?w" "drop n ?w"] wv(2) by simp
      then show ?thesis using wl by (cases "nn_val (drop n ?w)") simp_all
    qed
    have ad: "nn_val t1 + NN_B ^ n * unat k = nn_val u1 + nn_val ?w" "length t1 = n"
      using nn_add_val [of u1 "take n ?w" 0 t1 k] tk less.prems(1) wv(2) tw by (simp_all add: NN_Add_def)
    then have t1: "nn_val t1 = nn_val u1 + nn_val ?w" using wl by (cases "unat k") simp_all
    have "\<exists>u sg'. nn_modinv_loop v1 t1 v3 t3 (- sg) = Some (u, sg') \<and> length u = n
       \<and> (\<exists>v g. modinv_inv b c (nn_val u) v g 0 sg')"
      using pos qt(3,5) ad(2) less.prems(2,4) st by (intro less.hyps) (simp_all only: t1 mod_less_divisor)
    moreover have "nn_modinv_loop u1 v1 u3 v3 sg = nn_modinv_loop v1 t1 v3 t3 (- sg)"
      by (subst nn_modinv_loop.simps) (simp add: False qt(1) tk less.prems(3))
    ultimately show ?thesis by simp
  qed
qed

lemma NN_ModInv_val:
  assumes "length b = length c" "1 < nn_val c" "coprime (nn_val b) (nn_val c)"
  shows "\<exists>r. NN_ModInv b c = Some r \<and> length r = length c \<and> nn_val r < nn_val c
     \<and> nn_val r * nn_val b mod nn_val c = 1"
proof -
  let ?n = "length c" and ?b = "nn_val b" and ?c = "nn_val c"
  have n0: "0 < ?n" using assms(2) by (cases c) auto
  have as: "NN_Assign b ?n = b" "NN_Assign c ?n = c" using assms(1) by (simp_all add: NN_Assign_def)
  have "modinv_inv ?b ?c (nn_val (NN_ASSIGN_DIGIT 1 ?n)) (nn_val (NN_AssignZero ?n)) ?b ?c 1"
    using assms(2) n0 by (simp add: modinv_inv_def nn_val_ASSIGN_DIGIT NN_AssignZero_def)
  then obtain u sg v g where u: "nn_modinv_loop (NN_ASSIGN_DIGIT 1 ?n) (NN_AssignZero ?n) b c 1 = Some (u, sg)"
    "length u = ?n" "modinv_inv ?b ?c (nn_val u) v g 0 sg"
    using nn_modinv_loop_val [of ?c ?n "NN_ASSIGN_DIGIT 1 ?n" "NN_AssignZero ?n" b c ?b 1] nn_val_less [of c] assms(1) n0
    by (auto simp: nn_val_ASSIGN_DIGIT NN_AssignZero_def)
  define r where "r = (if sg < 0 then fst (NN_Sub c u) else NN_Assign u ?n)"
  have uc: "nn_val u \<le> ?c" and g: "g = 1" and sg: "sg = 1 \<or> sg = - 1"
    and dv: "int ?c dvd sg * int (nn_val u) * int ?b - 1"
    using u(3) assms(3) by (auto simp: modinv_inv_def coprime_iff_gcd_eq_1)
  obtain a k where ak: "NN_Sub c u = (a, k)" by force
  have sv: "nn_val a + nn_val u = ?c + NN_B ^ ?n * unat k" "length a = ?n"
    using nn_sub_val [of c u 0 a k] ak u(2) by (simp_all add: NN_Sub_def)
  have "unat k = 0"
    using sv uc nn_val_less [of a] by (cases "unat k") simp_all
  then have a: "nn_val a = ?c - nn_val u" using sv by simp
  have l: "length r = ?n" using sv(2) u(2) ak by (simp add: r_def NN_Assign_def)
  have dr: "int ?c dvd int (nn_val r) * int ?b - 1"
  proof (cases "sg < 0")
    case True
    then have "int (nn_val r) = int ?c - int (nn_val u)" using ak a uc by (simp add: r_def)
    moreover have "int ?c dvd int ?c * int ?b + (- int (nn_val u) * int ?b - 1)"
      using dv sg True by (intro dvd_add dvd_triv_left) auto
    moreover have "(int ?c - int (nn_val u)) * int ?b - 1 = int ?c * int ?b + (- int (nn_val u) * int ?b - 1)"
      by (simp add: algebra_simps)
    ultimately show ?thesis by metis
  next
    case False
    then show ?thesis using dv sg u(2) by (auto simp: r_def NN_Assign_def)
  qed
  then have "int (nn_val r) * int ?b mod int ?c = 1 mod int ?c" by (simp add: mod_eq_dvd_iff)
  then have m: "nn_val r * ?b mod ?c = 1" using assms(2)
    by (metis (no_types) mod_less nat_int of_nat_1 of_nat_mod of_nat_mult)
  have "nn_val r \<le> ?c" using a uc u(2) ak by (simp add: r_def NN_Assign_def)
  moreover have "nn_val r \<noteq> ?c" using m by auto
  ultimately show ?thesis using m l u(1) by (simp add: NN_ModInv_def Let_def as r_def)
qed

section \<open>The properties\<close>

text \<open>
  C14. \<^verbatim>\<open>NN_ModExp\<close>, which reads the exponent two bits at a time from the top and multiplies by a
  table of the first three powers, always returns and computes \<open>b ^ c mod d\<close> for a modulus greater
  than one and an exponent of any length.
\<close>

theorem NN_ModExp_correct:
  assumes "1 < nn_val d" "length b = length d"
  shows "\<exists>r. NN_ModExp b c d = Some r \<and> length r = length d
     \<and> nn_val r = nn_val b ^ nn_val c mod nn_val d"
  using assms by (rule NN_ModExp_val)

theorem NN_ModExp_correct_witness:
  "\<exists>r. NN_ModExp [3, 7] [13, 0] [11, 13] = Some r \<and> length r = Suc (Suc 0)
     \<and> nn_val r = nn_val [3, 7] ^ 13 mod nn_val [11, 13]"
  using NN_ModExp_correct [of "[11, 13]" "[3, 7]" "[13, 0]"] by simp

text \<open>
  C39. \<^verbatim>\<open>NN_ModInv\<close> always returns and computes the inverse of \<open>b\<close> modulo \<open>c\<close>, reduced, when one
  exists: its sign-free extended Euclidean algorithm never loses a carry.
\<close>

theorem NN_ModInv_correct:
  assumes "length b = length c" "1 < nn_val c" "coprime (nn_val b) (nn_val c)"
  shows "\<exists>r. NN_ModInv b c = Some r \<and> length r = length c \<and> nn_val r < nn_val c
     \<and> nn_val r * nn_val b mod nn_val c = 1"
  using assms by (rule NN_ModInv_val)

theorem NN_ModInv_correct_witness:
  "\<exists>r. NN_ModInv [3] [10] = Some r \<and> length r = Suc 0 \<and> nn_val r < 10 \<and> nn_val r * 3 mod 10 = 1"
proof -
  have "coprime (3 :: nat) 10" by (simp add: coprime_iff_gcd_eq_1 gcd_non_0_nat)
  then show ?thesis using NN_ModInv_correct [of "[3]" "[10]"] by simp
qed

text \<open>
  \<^verbatim>\<open>NN_Gcd\<close>, on three rows used in turn, always returns and computes the greatest common
  divisor, whatever the row that is not initialised holds; the comment asks for \<open>b > c\<close>, which is not
  needed.
\<close>

theorem NN_Gcd_correct:
  assumes "length b = length c"
  shows "\<exists>r. NN_Gcd t2 b c = Some r \<and> length r = length c \<and> nn_val r = gcd (nn_val b) (nn_val c)"
  using assms by (rule NN_Gcd_val)

theorem NN_Gcd_correct_witness:
  "\<exists>r. NN_Gcd [0xdead] [12] [18] = Some r \<and> length r = Suc 0 \<and> nn_val r = 6"
proof -
  have "gcd (12 :: nat) 18 = 6" by (simp add: gcd_non_0_nat)
  then show ?thesis using NN_Gcd_correct [of "[12]" "[18]" "[0xdead]"] by simp
qed

end
