(* ===== verification/Digest_Base.thy ===== *)
theory Digest_Base
  imports QS_Prelude
begin

text \<open>
  What the message digests of \<^verbatim>\<open>QBase/RSAEuro\<close> share. First the three memory routines of
  \<^verbatim>\<open>r_stdlib.c\<close>, then the buffering of \<^verbatim>\<open>MD2Update\<close>, \<^verbatim>\<open>MD4Update\<close> and \<^verbatim>\<open>MD5Update\<close>, whose bodies
  are the same but for the block length and the function that absorbs a block: the input completes
  the block begun in the buffer, the whole blocks that follow are absorbed from the input itself and
  the rest is kept in the buffer. The locale \<open>message_digest\<close> is the interface the signature code
  relies on: a context stands for the message passed to it so far, however it was cut into pieces.
\<close>

section \<open>Memory routines\<close>

text \<open>
  A block is a list of bytes and a pointer into it an offset. A write outside the block has no
  place in the list; the lemmas are about the calls that stay inside.
\<close>

fun R_memset :: "'a list \<Rightarrow> nat \<Rightarrow> 'a \<Rightarrow> nat \<Rightarrow> 'a list" where
  "R_memset output off value 0 = output"
| "R_memset output off value (Suc len) = R_memset (output[off := value]) (off + 1) value len"

fun R_memcpy :: "'a list \<Rightarrow> nat \<Rightarrow> 'a list \<Rightarrow> 'a list" where
  "R_memcpy output off [] = output"
| "R_memcpy output off (x # input) = R_memcpy (output[off := x]) (off + 1) input"

fun R_memcmp :: "byte list \<Rightarrow> byte list \<Rightarrow> int" where
  "R_memcmp (x # Block1) (y # Block2) =
     (if x \<noteq> y then uint x - uint y else R_memcmp Block1 Block2)"
| "R_memcmp _ _ = 0"

lemma length_R_memset [simp]: "length (R_memset out off v n) = length out"
  by (induction out off v n rule: R_memset.induct) auto

lemma length_R_memcpy [simp]: "length (R_memcpy out off xs) = length out"
  by (induction out off xs rule: R_memcpy.induct) auto

lemma R_memcpy_eq:
  "off + length xs \<le> length out \<Longrightarrow>
     R_memcpy out off xs = take off out @ xs @ drop (off + length xs) out"
proof (induction out off xs rule: R_memcpy.induct)
  case (2 out off x xs)
  then show ?case by (simp add: take_Suc_conv_app_nth)
qed simp

lemma R_memset_eq: "R_memset out off v n = R_memcpy out off (replicate n v)"
  by (induction out off v n rule: R_memset.induct) auto

lemma R_memcmp_0: "length xs = length ys \<Longrightarrow> R_memcmp xs ys = 0 \<longleftrightarrow> xs = ys"
  by (induction xs ys rule: R_memcmp.induct) (auto dest: unsigned_word_eqI)

section \<open>Buffering by blocks\<close>

text \<open>
  The loop over the whole blocks of the input: the state after them and the bytes left over. The index of
  the source's loop is an unsigned int (an int in \<^verbatim>\<open>shsc.c\<close>) and the list stands for an input that
  this type can count: the laws below are stated for inputs of less than \<open>2 ^ 31\<close> bytes.
\<close>

function blk_loop :: "nat \<Rightarrow> ('s \<Rightarrow> byte list \<Rightarrow> 's) \<Rightarrow> 's \<Rightarrow> byte list \<Rightarrow> 's \<times> byte list" where
  "blk_loop blk f st bs =
     (if blk = 0 \<or> length bs < blk then (st, bs)
      else blk_loop blk f (f st (take blk bs)) (drop blk bs))"
  by pat_completeness auto
termination by (relation "measure (\<lambda>(blk, f, st, bs). length bs)") auto

declare blk_loop.simps [simp del]

definition blk_update ::
  "nat \<Rightarrow> ('s \<Rightarrow> byte list \<Rightarrow> 's) \<Rightarrow> 's \<Rightarrow> byte list \<Rightarrow> nat \<Rightarrow> byte list \<Rightarrow> 's \<times> byte list" where
  "blk_update blk f st buffer index input =
     (let partLen = blk - index
      in if length input \<ge> partLen
         then (let buffer1 = R_memcpy buffer index (take partLen input);
                   (st1, rest) = blk_loop blk f (f st buffer1) (drop partLen input)
               in (st1, R_memcpy buffer1 0 rest))
         else (st, R_memcpy buffer index input))"

text \<open>What the compression function keeps, the loop keeps.\<close>

lemma blk_loop_invariant:
  assumes "P st" "\<And>st b. P st \<Longrightarrow> length b = blk \<Longrightarrow> P (f st b)"
  shows "P (fst (blk_loop blk f st m))"
  using assms(1)
proof (induction "length m" arbitrary: st m rule: less_induct)
  case less
  show ?case
  proof (cases "blk = 0 \<or> length m < blk")
    case True
    then show ?thesis using less.prems by (subst blk_loop.simps) simp
  next
    case False
    then have "P (f st (take blk m))" "length (drop blk m) < length m" using assms(2) less.prems by auto
    then show ?thesis using False less.hyps by (subst blk_loop.simps) simp
  qed
qed

text \<open>The buffer holds, up to the index, what is left of the message \<open>m\<close> after its whole blocks.\<close>

definition blk_rep ::
  "nat \<Rightarrow> ('s \<Rightarrow> byte list \<Rightarrow> 's) \<Rightarrow> 's \<Rightarrow> byte list \<Rightarrow> 's \<Rightarrow> byte list \<Rightarrow> bool" where
  "blk_rep blk f st0 m st buffer \<longleftrightarrow>
     length buffer = blk \<and> blk_loop blk f st0 m = (st, take (length m mod blk) buffer)"

locale block_buffer =
  fixes blk :: nat and f :: "'s \<Rightarrow> byte list \<Rightarrow> 's"
  assumes blk_pos: "0 < blk"
begin

lemma blk_loop_short: "length bs < blk \<Longrightarrow> blk_loop blk f st bs = (st, bs)"
  by (simp add: blk_loop.simps)

lemma blk_loop_block: "length b = blk \<Longrightarrow> blk_loop blk f st (b @ bs) = blk_loop blk f (f st b) bs"
  using blk_pos by (simp add: blk_loop.simps [of blk f st "b @ bs"])

lemma blk_loop_append:
  "blk_loop blk f st (xs @ ys) = (case blk_loop blk f st xs of (st', r) \<Rightarrow> blk_loop blk f st' (r @ ys))"
proof (induction xs arbitrary: st rule: length_induct)
  case (1 xs)
  show ?case
  proof (cases "length xs < blk")
    case True
    then show ?thesis by (simp add: blk_loop_short)
  next
    case False
    let ?b = "take blk xs"
    have b: "length ?b = blk" "?b @ drop blk xs = xs" "length (drop blk xs) < length xs"
      using False blk_pos by auto
    have "blk_loop blk f st (?b @ drop blk xs @ ys) = blk_loop blk f (f st ?b) (drop blk xs @ ys)"
      by (rule blk_loop_block [OF b(1)])
    moreover have "blk_loop blk f st xs = blk_loop blk f (f st ?b) (drop blk xs)"
      using blk_loop_block [OF b(1), of st "drop blk xs"] b(2) by simp
    ultimately show ?thesis using 1 b(2,3) by (metis append.assoc)
  qed
qed

lemma blk_rep_init: "length buffer = blk \<Longrightarrow> blk_rep blk f st [] st buffer"
  using blk_pos by (simp add: blk_rep_def blk_loop_short)

lemma length_blk_loop: "length (snd (blk_loop blk f st m)) = length m mod blk"
proof (induction m arbitrary: st rule: length_induct)
  case (1 m)
  show ?case
  proof (cases "length m < blk")
    case True
    then show ?thesis by (simp add: blk_loop_short)
  next
    case False
    then show ?thesis using 1 blk_pos
      by (subst blk_loop.simps) (simp add: le_mod_geq)
  qed
qed

text \<open>The contract of the buffering: a context for \<open>m\<close> becomes one for \<open>m\<close> followed by the input.\<close>

lemma blk_rep_update:
  assumes "blk_rep blk f st0 m st buffer"
    and "blk_update blk f st buffer (length m mod blk) input = (st', buffer')"
  shows "blk_rep blk f st0 (m @ input) st' buffer'"
proof -
  let ?i = "length m mod blk"
  have len: "length buffer = blk" and i: "?i < blk"
    and L: "blk_loop blk f st0 m = (st, take ?i buffer)"
    using assms(1) blk_pos by (auto simp: blk_rep_def)
  have all: "blk_loop blk f st0 (m @ input) = blk_loop blk f st (take ?i buffer @ input)"
    using blk_loop_append [of st0 m input] by (simp add: L)
  show ?thesis
  proof (cases "blk - ?i \<le> length input")
    case False
    then have e: "st' = st" "buffer' = take ?i buffer @ input @ drop (?i + length input) buffer"
      using assms(2) len by (auto simp: blk_update_def Let_def R_memcpy_eq)
    have "(length m + length input) mod blk = ?i + length input"
      using False by (metis add.commute less_diff_conv mod_add_left_eq mod_less not_le)
    then show ?thesis using e False len i all
      by (simp add: blk_rep_def blk_loop_short)
  next
    case True
    let ?b = "take ?i buffer @ take (blk - ?i) input"
    have b1: "R_memcpy buffer ?i (take (blk - ?i) input) = ?b"
      using True len i by (simp add: R_memcpy_eq)
    obtain st1 r where lr: "blk_loop blk f (f st ?b) (drop (blk - ?i) input) = (st1, r)" by force
    have r: "length r = (length input - (blk - ?i)) mod blk" "length r < blk"
      using length_blk_loop [of "f st ?b" "drop (blk - ?i) input"] lr blk_pos by auto
    have lb: "length ?b = blk" using True len i by simp
    have e: "st' = st1" "buffer' = r @ drop (length r) ?b"
      using assms(2) True lr r(2) lb by (auto simp: blk_update_def Let_def b1 R_memcpy_eq)
    have "take ?i buffer @ input = ?b @ drop (blk - ?i) input" by simp
    then have "blk_loop blk f st0 (m @ input) = (st1, r)"
      using all blk_loop_block [OF lb] lr by metis
    moreover have "length (m @ input) mod blk = length r"
      using length_blk_loop [of st0 "m @ input"] calculation by simp
    ultimately show ?thesis using e r(2) lb by (simp add: blk_rep_def)
  qed
qed

end

section \<open>The interface of a message digest\<close>

locale message_digest =
  fixes valid :: "'c \<Rightarrow> bool" and init :: "'c \<Rightarrow> 'c" and update :: "'c \<Rightarrow> byte list \<Rightarrow> 'c" and final :: "'c \<Rightarrow> byte list"
    and rep :: "'c \<Rightarrow> byte list \<Rightarrow> bool" and digest :: "byte list \<Rightarrow> byte list"
  assumes rep_init: "valid c \<Longrightarrow> rep (init c) []"
    and rep_update: "rep c m \<Longrightarrow> length xs < 2 ^ 31 \<Longrightarrow> rep (update c xs) (m @ xs)"
    and rep_final: "rep c m \<Longrightarrow> final c = digest m"
begin

lemma rep_fold:
  "rep c m \<Longrightarrow> \<forall>xs \<in> set chunks. length xs < 2 ^ 31 \<Longrightarrow> rep (fold (\<lambda>xs c. update c xs) chunks c) (m @ concat chunks)"
proof (induction chunks arbitrary: c m)
  case (Cons xs chunks)
  then show ?case using Cons.IH [OF rep_update [OF Cons.prems(1), of xs]] by simp
qed simp

text \<open>The digest depends on the message alone, not on how it was passed.\<close>

lemma digest_of_chunks:
  assumes "valid c" "\<forall>xs \<in> set chunks. length xs < 2 ^ 31"
  shows "final (fold (\<lambda>xs c. update c xs) chunks (init c)) = digest (concat chunks)"
  using rep_final [OF rep_fold [OF rep_init [OF assms(1)] assms(2)]] by simp

end

end
