(* ===== verification/MD45.thy ===== *)
theory MD45
  imports Digest_Base
begin

text \<open>
  \<^verbatim>\<open>QBase/RSAEuro/md5c.c\<close> and \<^verbatim>\<open>md4c.c\<close>. The two files have the same context, byte order, padding
  and update routine and differ in the function that absorbs a block. Each is shown to be an instance
  of the digest interface: whatever way a message is cut into pieces, the result is the digest of the
  padded message, with its length in bits modulo \<open>2 ^ 64\<close>.
\<close>

section \<open>The context and the byte order\<close>

record md_ctx =
  md_state :: "u32 list"
  md_count0 :: u32
  md_count1 :: u32
  md_buffer :: "byte list"

text \<open>\<^verbatim>\<open>Encode\<close> and \<^verbatim>\<open>Decode\<close>, little-endian.\<close>

fun md_Encode :: "u32 list \<Rightarrow> byte list" where
  "md_Encode [] = []"
| "md_Encode (x # input) =
     [ucast (x AND 0xff), ucast (drop_bit 8 x AND 0xff), ucast (drop_bit 16 x AND 0xff),
      ucast (drop_bit 24 x AND 0xff)] @ md_Encode input"

fun md_Decode :: "byte list \<Rightarrow> u32 list" where
  "md_Decode (b0 # b1 # b2 # b3 # input) =
     (ucast b0 OR push_bit 8 (ucast b1) OR push_bit 16 (ucast b2) OR push_bit 24 (ucast b3))
       # md_Decode input"
| "md_Decode _ = []"

definition md_PADDING :: "byte list" where
  "md_PADDING = 0x80 # replicate 63 0"

section \<open>The block functions\<close>

definition ROTATE_LEFT :: "u32 \<Rightarrow> nat \<Rightarrow> u32" where
  "ROTATE_LEFT x n = (push_bit n x OR drop_bit (32 - n) x)"

text \<open>
  A step \<^verbatim>\<open>FF (a, b, c, d, x[k], s, ac)\<close> changes its first register, and the next one is called
  with the registers moved on by one. A step here returns them already moved, so that four steps
  bring every register back to its place. The tables list the indices, shift counts and constants in
  the order of the calls.
\<close>

definition md5_F :: "u32 \<Rightarrow> u32 \<Rightarrow> u32 \<Rightarrow> u32" where "md5_F x y z = ((x AND y) OR (NOT x AND z))"
definition md5_G :: "u32 \<Rightarrow> u32 \<Rightarrow> u32 \<Rightarrow> u32" where "md5_G x y z = ((x AND z) OR (y AND NOT z))"
definition md5_H :: "u32 \<Rightarrow> u32 \<Rightarrow> u32 \<Rightarrow> u32" where "md5_H x y z = (x XOR y XOR z)"
definition md5_I :: "u32 \<Rightarrow> u32 \<Rightarrow> u32 \<Rightarrow> u32" where "md5_I x y z = (y XOR (x OR NOT z))"

definition md5_FF :: "(nat \<times> nat \<times> u32) list" where
  "md5_FF =
     [(0, 7, 0xd76aa478), (1, 12, 0xe8c7b756), (2, 17, 0x242070db), (3, 22, 0xc1bdceee),
      (4, 7, 0xf57c0faf), (5, 12, 0x4787c62a), (6, 17, 0xa8304613), (7, 22, 0xfd469501),
      (8, 7, 0x698098d8), (9, 12, 0x8b44f7af), (10, 17, 0xffff5bb1), (11, 22, 0x895cd7be),
      (12, 7, 0x6b901122), (13, 12, 0xfd987193), (14, 17, 0xa679438e), (15, 22, 0x49b40821)]"

definition md5_GG :: "(nat \<times> nat \<times> u32) list" where
  "md5_GG =
     [(1, 5, 0xf61e2562), (6, 9, 0xc040b340), (11, 14, 0x265e5a51), (0, 20, 0xe9b6c7aa),
      (5, 5, 0xd62f105d), (10, 9, 0x2441453), (15, 14, 0xd8a1e681), (4, 20, 0xe7d3fbc8),
      (9, 5, 0x21e1cde6), (14, 9, 0xc33707d6), (3, 14, 0xf4d50d87), (8, 20, 0x455a14ed),
      (13, 5, 0xa9e3e905), (2, 9, 0xfcefa3f8), (7, 14, 0x676f02d9), (12, 20, 0x8d2a4c8a)]"

definition md5_HH :: "(nat \<times> nat \<times> u32) list" where
  "md5_HH =
     [(5, 4, 0xfffa3942), (8, 11, 0x8771f681), (11, 16, 0x6d9d6122), (14, 23, 0xfde5380c),
      (1, 4, 0xa4beea44), (4, 11, 0x4bdecfa9), (7, 16, 0xf6bb4b60), (10, 23, 0xbebfbc70),
      (13, 4, 0x289b7ec6), (0, 11, 0xeaa127fa), (3, 16, 0xd4ef3085), (6, 23, 0x4881d05),
      (9, 4, 0xd9d4d039), (12, 11, 0xe6db99e5), (15, 16, 0x1fa27cf8), (2, 23, 0xc4ac5665)]"

definition md5_II :: "(nat \<times> nat \<times> u32) list" where
  "md5_II =
     [(0, 6, 0xf4292244), (7, 10, 0x432aff97), (14, 15, 0xab9423a7), (5, 21, 0xfc93a039),
      (12, 6, 0x655b59c3), (3, 10, 0x8f0ccc92), (10, 15, 0xffeff47d), (1, 21, 0x85845dd1),
      (8, 6, 0x6fa87e4f), (15, 10, 0xfe2ce6e0), (6, 15, 0xa3014314), (13, 21, 0x4e0811a1),
      (4, 6, 0xf7537e82), (11, 10, 0xbd3af235), (2, 15, 0x2ad7d2bb), (9, 21, 0xeb86d391)]"

fun md5_step ::
  "(u32 \<Rightarrow> u32 \<Rightarrow> u32 \<Rightarrow> u32) \<Rightarrow> u32 list \<Rightarrow> nat \<times> nat \<times> u32 \<Rightarrow> u32 \<times> u32 \<times> u32 \<times> u32
     \<Rightarrow> u32 \<times> u32 \<times> u32 \<times> u32" where
  "md5_step f x (k, s, ac) (a, b, c, d) = (d, ROTATE_LEFT (a + (f b c d + x ! k + ac)) s + b, b, c)"

definition MD5Transform :: "u32 list \<Rightarrow> byte list \<Rightarrow> u32 list" where
  "MD5Transform state block =
     (let x = md_Decode block;
          r = (state ! 0, state ! 1, state ! 2, state ! 3);
          r = fold (md5_step md5_F x) md5_FF r;
          r = fold (md5_step md5_G x) md5_GG r;
          r = fold (md5_step md5_H x) md5_HH r;
          (a, b, c, d) = fold (md5_step md5_I x) md5_II r
      in [state ! 0 + a, state ! 1 + b, state ! 2 + c, state ! 3 + d])"

definition md4_F :: "u32 \<Rightarrow> u32 \<Rightarrow> u32 \<Rightarrow> u32" where "md4_F x y z = ((x AND y) OR (NOT x AND z))"
definition md4_G :: "u32 \<Rightarrow> u32 \<Rightarrow> u32 \<Rightarrow> u32" where "md4_G x y z = ((x AND y) OR (x AND z) OR (y AND z))"
definition md4_H :: "u32 \<Rightarrow> u32 \<Rightarrow> u32 \<Rightarrow> u32" where "md4_H x y z = (x XOR y XOR z)"

definition md4_FF :: "(nat \<times> nat) list" where
  "md4_FF =
     [(0, 3), (1, 7), (2, 11), (3, 19),
      (4, 3), (5, 7), (6, 11), (7, 19),
      (8, 3), (9, 7), (10, 11), (11, 19),
      (12, 3), (13, 7), (14, 11), (15, 19)]"

definition md4_GG :: "(nat \<times> nat) list" where
  "md4_GG =
     [(0, 3), (4, 5), (8, 9), (12, 13),
      (1, 3), (5, 5), (9, 9), (13, 13),
      (2, 3), (6, 5), (10, 9), (14, 13),
      (3, 3), (7, 5), (11, 9), (15, 13)]"

definition md4_HH :: "(nat \<times> nat) list" where
  "md4_HH =
     [(0, 3), (8, 9), (4, 11), (12, 15),
      (2, 3), (10, 9), (6, 11), (14, 15),
      (1, 3), (9, 9), (5, 11), (13, 15),
      (3, 3), (11, 9), (7, 11), (15, 15)]"

fun md4_step ::
  "(u32 \<Rightarrow> u32 \<Rightarrow> u32 \<Rightarrow> u32) \<Rightarrow> u32 \<Rightarrow> u32 list \<Rightarrow> nat \<times> nat \<Rightarrow> u32 \<times> u32 \<times> u32 \<times> u32
     \<Rightarrow> u32 \<times> u32 \<times> u32 \<times> u32" where
  "md4_step f ac x (k, s) (a, b, c, d) = (d, ROTATE_LEFT (a + (f b c d + x ! k + ac)) s, b, c)"

definition MD4Transform :: "u32 list \<Rightarrow> byte list \<Rightarrow> u32 list" where
  "MD4Transform state block =
     (let x = md_Decode block;
          r = (state ! 0, state ! 1, state ! 2, state ! 3);
          r = fold (md4_step md4_F 0 x) md4_FF r;
          r = fold (md4_step md4_G 0x5a827999 x) md4_GG r;
          (a, b, c, d) = fold (md4_step md4_H 0x6ed9eba1 x) md4_HH r
      in [state ! 0 + a, state ! 1 + b, state ! 2 + c, state ! 3 + d])"

section \<open>The operations\<close>

definition MD5Init :: "md_ctx \<Rightarrow> md_ctx" where
  "MD5Init context = context\<lparr>md_count0 := 0, md_count1 := 0,
     md_state := [0x67452301, 0xefcdab89, 0x98badcfe, 0x10325476]\<rparr>"

text \<open>The common body of the two update routines; \<open>index\<close> is the number of bytes modulo 64.\<close>

definition md_index :: "md_ctx \<Rightarrow> nat" where
  "md_index context = unat (drop_bit 3 (md_count0 context) AND 0x3F)"

definition md_count_add :: "u32 \<Rightarrow> md_ctx \<Rightarrow> md_ctx" where
  "md_count_add inputLen context =
     (let count0 = md_count0 context + push_bit 3 inputLen;
          count1 = (if count0 < push_bit 3 inputLen then md_count1 context + 1 else md_count1 context)
      in context\<lparr>md_count0 := count0, md_count1 := count1 + drop_bit 29 inputLen\<rparr>)"

definition md_update :: "(u32 list \<Rightarrow> byte list \<Rightarrow> u32 list) \<Rightarrow> md_ctx \<Rightarrow> byte list \<Rightarrow> md_ctx" where
  "md_update transform context input =
     (case blk_update 64 transform (md_state context) (md_buffer context) (md_index context) input of
        (state, buffer) \<Rightarrow>
          (md_count_add (of_nat (length input)) context)\<lparr>md_state := state, md_buffer := buffer\<rparr>)"

definition MD5Update :: "md_ctx \<Rightarrow> byte list \<Rightarrow> md_ctx" where
  "MD5Update context input = md_update MD5Transform context input"

text \<open>The digest; the source then clears the context.\<close>

definition MD5Final :: "md_ctx \<Rightarrow> byte list" where
  "MD5Final context =
     (let bits = md_Encode [md_count0 context, md_count1 context];
          index = md_index context;
          padLen = (if index < 56 then 56 - index else 120 - index);
          context = MD5Update context (take padLen md_PADDING);
          context = MD5Update context bits
      in md_Encode (md_state context))"

definition MD4Init :: "md_ctx \<Rightarrow> md_ctx" where
  "MD4Init context = context\<lparr>md_count0 := 0, md_count1 := 0,
     md_state := [0x67452301, 0xefcdab89, 0x98badcfe, 0x10325476]\<rparr>"

definition MD4Update :: "md_ctx \<Rightarrow> byte list \<Rightarrow> md_ctx" where
  "MD4Update context input = md_update MD4Transform context input"

definition MD4Final :: "md_ctx \<Rightarrow> byte list" where
  "MD4Final context =
     (let bits = md_Encode [md_count0 context, md_count1 context];
          index = md_index context;
          padLen = (if index < 56 then 56 - index else 120 - index);
          context = MD4Update context (take padLen md_PADDING);
          context = MD4Update context bits
      in md_Encode (md_state context))"

section \<open>The bit count\<close>

definition md_bits :: "md_ctx \<Rightarrow> nat" where
  "md_bits c = unat (md_count0 c) + NN_B * unat (md_count1 c)"

lemma two_digit_mod: "a < B \<Longrightarrow> a + B * (x mod B) = (a + B * x) mod (B * B)" for a B x :: nat
  by (simp add: mod_mult2_eq)

lemma count_carry:
  fixes c0 c1 p :: u32
  assumes "n < NN_B" "p = push_bit 3 (of_nat n)" "h = drop_bit 29 (of_nat n :: u32)"
  shows "unat (c0 + p) + NN_B * unat ((if c0 + p < p then c1 + 1 else c1) + h)
     = (unat c0 + NN_B * unat c1 + 8 * n) mod 2 ^ 64"
proof -
  have n: "unat (of_nat n :: u32) = n" using assms(1) by (simp add: unat_of_nat take_bit_nat_eq_self)
  have p: "unat p = 8 * n mod NN_B" unfolding assms(2) unat_push_bit_u32 n by (simp add: mult.commute)
  have h: "unat h = 8 * n div NN_B"
    unfolding assms(3) unat_drop_bit_u32 n using div_mult_mult1 [of 8 n "2 ^ 29"] by simp
  have ph: "8 * n = unat p + NN_B * unat h" unfolding p h by (rule mod_mult_div_eq [symmetric])
  let ?k = "if unat c0 + unat p < NN_B then 0 else 1 :: nat"
  have c: "unat (c0 + p) + NN_B * ?k = unat c0 + unat p" by (simp add: unat_u32_add)
  have lt: "c0 + p < p \<longleftrightarrow> ?k = 1"
    using unat_u32_less [of c0] unat_u32_less [of p] by (auto simp: word_less_nat_alt unat_u32_add simp del: unat_u32_less)
  have "unat ((if c0 + p < p then c1 + 1 else c1) + h) = (unat c1 + ?k + unat h) mod NN_B"
    unfolding lt by (simp add: unat_word_ariths mod_simps)
  then have "unat (c0 + p) + NN_B * unat ((if c0 + p < p then c1 + 1 else c1) + h)
     = (unat (c0 + p) + NN_B * (unat c1 + ?k + unat h)) mod (NN_B * NN_B)"
    by (simp only: two_digit_mod [OF unat_u32_less])
  also have "unat (c0 + p) + NN_B * (unat c1 + ?k + unat h) = unat c0 + NN_B * unat c1 + 8 * n"
    using c ph by (simp only: distrib_left)
  finally show ?thesis by simp
qed

lemma md_bits_add:
  "n < NN_B \<Longrightarrow> md_bits (md_count_add (of_nat n) c) = (md_bits c + 8 * n) mod 2 ^ 64"
  using count_carry [of n _ _ "md_count0 c" "md_count1 c"] by (simp add: md_bits_def md_count_add_def Let_def)

lemma md_index_bits: "md_index c = md_bits c div 8 mod 64"
proof -
  have "drop_bit 3 (md_count0 c) AND 0x3F = take_bit 6 (drop_bit 3 (md_count0 c))"
    by (simp add: take_bit_eq_mask mask_eq_exp_minus_1)
  then have "md_index c = unat (md_count0 c) div 8 mod 64"
    by (simp only: md_index_def unat_take_bit_u32 unat_drop_bit_u32) simp
  moreover have "md_bits c = unat (md_count0 c) + (536870912 * unat (md_count1 c)) * 8" by (simp add: md_bits_def)
  then have "md_bits c div 8 = unat (md_count0 c) div 8 + 8388608 * unat (md_count1 c) * 64"
    by (simp add: div_mult_self1)
  ultimately show ?thesis by (simp only: mod_mult_self1)
qed

lemma bits_index: "8 * n mod 2 ^ 64 div 8 mod 64 = n mod 64" for n :: nat
proof -
  have "8 * n mod 2 ^ 64 = 8 * (n mod 2 ^ 61)" using mod_mult_mult1 [of 8 n "2 ^ 61"] by simp
  moreover have "n mod 2 ^ 61 mod 64 = n mod 64" by (rule mod_mod_cancel) simp
  ultimately show ?thesis by simp
qed

section \<open>Instances of the interface\<close>

interpretation md_blk: block_buffer 64 f for f :: "u32 list \<Rightarrow> byte list \<Rightarrow> u32 list"
  by unfold_locales simp

text \<open>A context stands for the message \<open>m\<close>.\<close>

definition md_rep :: "(u32 list \<Rightarrow> byte list \<Rightarrow> u32 list) \<Rightarrow> md_ctx \<Rightarrow> byte list \<Rightarrow> bool" where
  "md_rep f c m \<longleftrightarrow> md_bits c = 8 * length m mod 2 ^ 64
     \<and> blk_rep 64 f [0x67452301, 0xefcdab89, 0x98badcfe, 0x10325476] m (md_state c) (md_buffer c)"

text \<open>The padding of a message and its digest.\<close>

definition md_pad :: "byte list \<Rightarrow> byte list" where
  "md_pad m = (let index = length m mod 64; padLen = (if index < 56 then 56 - index else 120 - index)
               in m @ [0x80] @ replicate (padLen - 1) 0 @ le_bytes 8 (8 * length m))"

definition md_digest :: "(u32 list \<Rightarrow> byte list \<Rightarrow> u32 list) \<Rightarrow> byte list \<Rightarrow> byte list" where
  "md_digest f m = md_Encode (fst (blk_loop 64 f [0x67452301, 0xefcdab89, 0x98badcfe, 0x10325476] (md_pad m)))"

lemma le_bytes_4: "le_bytes 4 v =
    [of_nat (v mod 256), of_nat (v div 2 ^ 8 mod 256), of_nat (v div 2 ^ 16 mod 256), of_nat (v div 2 ^ 24 mod 256)]"
proof -
  have "(4 :: nat) = Suc (Suc (Suc (Suc 0)))" by simp
  then show ?thesis by (simp only: le_bytes.simps) (simp flip: div_mult2_eq)
qed

lemma length_md_Encode [simp]: "length (md_Encode ws) = 4 * length ws"
  by (induction ws) simp_all

lemma md_Encode_one: "md_Encode [x] = le_bytes 4 (unat x)"
proof -
  have mask: "0xff = (mask 8 :: u32)" by (simp add: mask_eq_exp_minus_1)
  have b: "ucast (drop_bit u x AND 0xff) = (of_nat (unat x div 2 ^ u mod 256) :: byte)" for u and x :: u32
  proof -
    have "ucast (drop_bit u x AND 0xff) = (ucast (drop_bit u x) :: byte)"
      unfolding mask by (rule bit_word_eqI) (auto simp: bit_simps)
    then show ?thesis by (simp only: ucast_drop_byte)
  qed
  show ?thesis using b [of 0 x] by (simp add: le_bytes_4 b)
qed

lemma md_Encode_le: "md_Encode [x, y] = le_bytes 8 (unat x + NN_B * unat y)"
proof -
  have "md_Encode [x, y] = md_Encode [x] @ md_Encode [y]" by simp
  also have "\<dots> = le_bytes 4 (unat x) @ le_bytes 4 (unat y)" by (simp only: md_Encode_one)
  also have "le_bytes 4 (unat x) = le_bytes 4 (unat x + NN_B * unat y)"
    using le_bytes_mod [of 4 "unat x + NN_B * unat y"] le_bytes_mod [of 4 "unat x"] by simp
  also have "unat y = (unat x + NN_B * unat y) div 256 ^ 4" by simp
  finally show ?thesis using le_bytes_add [of 4 4 "unat x + NN_B * unat y"] by simp
qed

lemma md_rep_init: "length (md_buffer c) = 64 \<Longrightarrow>
    md_rep f (c\<lparr>md_count0 := 0, md_count1 := 0,
       md_state := [0x67452301, 0xefcdab89, 0x98badcfe, 0x10325476]\<rparr>) []"
  by (simp add: md_rep_def md_bits_def blk_rep_def blk_loop.simps)

lemma md_rep_index: "md_rep f c m \<Longrightarrow> md_index c = length m mod 64"
  unfolding md_rep_def by (simp only: md_index_bits bits_index)

lemma md_rep_update:
  assumes "md_rep f c m" "length xs < 2 ^ 32"
  shows "md_rep f (md_update f c xs) (m @ xs)"
proof -
  obtain st b where u: "blk_update 64 f (md_state c) (md_buffer c) (length m mod 64) xs = (st, b)" by force
  have "md_bits (md_count_add (of_nat (length xs)) c) = (8 * length m mod 2 ^ 64 + 8 * length xs) mod 2 ^ 64"
    using assms by (simp add: md_bits_add md_rep_def)
  also have "\<dots> = 8 * length (m @ xs) mod 2 ^ 64" by (simp add: mod_simps algebra_simps)
  finally have "md_bits (md_count_add (of_nat (length xs)) c) = 8 * length (m @ xs) mod 2 ^ 64" .
  moreover have "blk_rep 64 f [0x67452301, 0xefcdab89, 0x98badcfe, 0x10325476] (m @ xs) st b"
    by (rule md_blk.blk_rep_update [OF _ u]) (use assms in \<open>simp add: md_rep_def\<close>)
  ultimately show ?thesis
    using assms(1) by (simp add: md_rep_def md_update_def md_rep_index [OF assms(1)] u md_bits_def)
qed

lemma md_rep_final:
  assumes "md_rep f c m"
  shows "md_Encode (md_state (md_update f (md_update f c
      (take (if md_index c < 56 then 56 - md_index c else 120 - md_index c) md_PADDING))
      (md_Encode [md_count0 c, md_count1 c]))) = md_digest f m"
proof -
  let ?p = "if md_index c < 56 then 56 - md_index c else 120 - md_index c"
  have i: "md_index c = length m mod 64" by (rule md_rep_index [OF assms])
  have p: "0 < ?p" "?p \<le> 64" unfolding i by auto
  have pad: "take ?p md_PADDING = 0x80 # replicate (?p - 1) 0"
    using p by (cases ?p) (simp_all add: md_PADDING_def min_def)
  have "md_Encode [md_count0 c, md_count1 c] = le_bytes 8 (md_bits c)" by (simp only: md_Encode_le md_bits_def)
  also have "\<dots> = le_bytes 8 (8 * length m)"
    using assms le_bytes_mod [of 8 "8 * length m"] by (simp add: md_rep_def)
  finally have bits: "md_Encode [md_count0 c, md_count1 c] = le_bytes 8 (8 * length m)" .
  have 1: "md_rep f (md_update f c (take ?p md_PADDING)) (m @ take ?p md_PADDING)"
    by (rule md_rep_update [OF assms]) (use p in simp)
  have "md_rep f (md_update f (md_update f c (take ?p md_PADDING)) (le_bytes 8 (8 * length m)))
     ((m @ take ?p md_PADDING) @ le_bytes 8 (8 * length m))"
    by (rule md_rep_update [OF 1]) simp
  moreover have "(m @ take ?p md_PADDING) @ le_bytes 8 (8 * length m) = md_pad m"
    unfolding pad by (simp add: md_pad_def Let_def i)
  ultimately have "md_rep f (md_update f (md_update f c (take ?p md_PADDING)) (le_bytes 8 (8 * length m))) (md_pad m)"
    by simp
  then show ?thesis unfolding bits by (simp add: md_rep_def blk_rep_def md_digest_def)
qed

text \<open>The padded message is a whole number of blocks, so that nothing of it stays in the buffer.\<close>

lemma md_pad_blocks: "length (md_pad m) mod 64 = 0"
proof -
  let ?i = "length m mod 64"
  obtain k where k: "length m = 64 * k + ?i" by (metis mult_div_mod_eq)
  have "length (md_pad m) = length m + (if ?i < 56 then 56 - ?i else 120 - ?i) + 8"
    by (auto simp: md_pad_def Let_def)
  also have "\<dots> = 64 * (k + (if ?i < 56 then 1 else 2))"
    using k mod_less_divisor [of 64 "length m"] by (auto split: if_splits)
  finally show ?thesis by simp
qed

lemma length_md_digest:
  "length (md_digest MD5Transform m) = 16" "length (md_digest MD4Transform m) = 16"
  using blk_loop_invariant [of "\<lambda>st. length st = 4" _ 64 MD5Transform] blk_loop_invariant [of "\<lambda>st. length st = 4" _ 64 MD4Transform]
  by (simp_all add: md_digest_def MD5Transform_def MD4Transform_def Let_def split: prod.split)

definition md_valid :: "md_ctx \<Rightarrow> bool" where "md_valid c \<longleftrightarrow> length (md_buffer c) = 64"

interpretation md5: message_digest md_valid MD5Init MD5Update MD5Final "md_rep MD5Transform" "md_digest MD5Transform"
proof
  show "md_rep MD5Transform (MD5Init c) []" if "md_valid c" for c
    unfolding MD5Init_def by (rule md_rep_init) (use that in \<open>simp add: md_valid_def\<close>)
  show "md_rep MD5Transform (MD5Update c xs) (m @ xs)" if "md_rep MD5Transform c m" "length xs < 2 ^ 31" for c m xs
    unfolding MD5Update_def by (rule md_rep_update) (use that in simp_all)
  show "MD5Final c = md_digest MD5Transform m" if "md_rep MD5Transform c m" for c m
    unfolding MD5Final_def MD5Update_def Let_def by (rule md_rep_final [OF that])
qed

interpretation md4: message_digest md_valid MD4Init MD4Update MD4Final "md_rep MD4Transform" "md_digest MD4Transform"
proof
  show "md_rep MD4Transform (MD4Init c) []" if "md_valid c" for c
    unfolding MD4Init_def by (rule md_rep_init) (use that in \<open>simp add: md_valid_def\<close>)
  show "md_rep MD4Transform (MD4Update c xs) (m @ xs)" if "md_rep MD4Transform c m" "length xs < 2 ^ 31" for c m xs
    unfolding MD4Update_def by (rule md_rep_update) (use that in simp_all)
  show "MD4Final c = md_digest MD4Transform m" if "md_rep MD4Transform c m" for c m
    unfolding MD4Final_def MD4Update_def Let_def by (rule md_rep_final [OF that])
qed

section \<open>The properties\<close>

text \<open>
  MD5 of a message passed in any pieces, each of less than \<open>2 ^ 31\<close> bytes, is the digest of the
  message: its blocks and those of its padding (a one bit, zeros and the bit count modulo \<open>2 ^ 64\<close>,
  a whole number of blocks in all) absorbed in turn.
\<close>

theorem MD5_pieces:
  assumes "length (md_buffer c) = 64" "\<forall>xs \<in> set chunks. length xs < 2 ^ 31"
  shows "MD5Final (fold (\<lambda>xs c. MD5Update c xs) chunks (MD5Init c)) = md_digest MD5Transform (concat chunks)
     \<and> length (md_pad (concat chunks)) mod 64 = 0"
  using md5.digest_of_chunks [of c chunks] assms md_pad_blocks by (simp add: md_valid_def)

theorem MD5_pieces_witness:
  "MD5Final (fold (\<lambda>xs c. MD5Update c xs) [[], []]
      (MD5Init \<lparr>md_state = [], md_count0 = 5, md_count1 = 7, md_buffer = replicate 64 1\<rparr>))
     = md_digest MD5Transform []
   \<and> md_digest MD5Transform [] = [0xd4, 0x1d, 0x8c, 0xd9, 0x8f, 0x00, 0xb2, 0x04, 0xe9, 0x80, 0x09, 0x98, 0xec, 0xf8, 0x42, 0x7e]"
proof
  show "MD5Final (fold (\<lambda>xs c. MD5Update c xs) [[], []]
      (MD5Init \<lparr>md_state = [], md_count0 = 5, md_count1 = 7, md_buffer = replicate 64 1\<rparr>))
     = md_digest MD5Transform []"
    using MD5_pieces [of "\<lparr>md_state = [], md_count0 = 5, md_count1 = 7, md_buffer = replicate 64 1\<rparr>" "[[], []]"]
    by simp
  show "md_digest MD5Transform [] = [0xd4, 0x1d, 0x8c, 0xd9, 0x8f, 0x00, 0xb2, 0x04, 0xe9, 0x80, 0x09, 0x98, 0xec, 0xf8, 0x42, 0x7e]"
    by code_simp
qed

text \<open>
  The same for MD4.
\<close>

theorem MD4_pieces:
  assumes "length (md_buffer c) = 64" "\<forall>xs \<in> set chunks. length xs < 2 ^ 31"
  shows "MD4Final (fold (\<lambda>xs c. MD4Update c xs) chunks (MD4Init c)) = md_digest MD4Transform (concat chunks)"
  using md4.digest_of_chunks [of c chunks] assms by (simp add: md_valid_def)

theorem MD4_pieces_witness:
  "MD4Final (fold (\<lambda>xs c. MD4Update c xs) [[97], [98, 99]]
      (MD4Init \<lparr>md_state = [], md_count0 = 5, md_count1 = 7, md_buffer = replicate 64 1\<rparr>))
     = md_digest MD4Transform [97, 98, 99]
   \<and> md_digest MD4Transform [97, 98, 99] = [0xa4, 0x48, 0x01, 0x7a, 0xaf, 0x21, 0xd8, 0x52, 0x5f, 0xc1, 0x0a, 0xe8, 0x7a, 0xa6, 0x72, 0x9d]"
proof
  show "MD4Final (fold (\<lambda>xs c. MD4Update c xs) [[97], [98, 99]]
      (MD4Init \<lparr>md_state = [], md_count0 = 5, md_count1 = 7, md_buffer = replicate 64 1\<rparr>))
     = md_digest MD4Transform [97, 98, 99]"
    using MD4_pieces [of "\<lparr>md_state = [], md_count0 = 5, md_count1 = 7, md_buffer = replicate 64 1\<rparr>" "[[97], [98, 99]]"]
    by simp
  show "md_digest MD4Transform [97, 98, 99] = [0xa4, 0x48, 0x01, 0x7a, 0xaf, 0x21, 0xd8, 0x52, 0x5f, 0xc1, 0x0a, 0xe8, 0x7a, 0xa6, 0x72, 0x9d]"
    by code_simp
qed

end
