(* ===== verification/R_Random.thy ===== *)
theory R_Random
  imports MD45
begin

text \<open>
  \<^verbatim>\<open>QBase/RSAEuro/r_random.c\<close>: the random generator the RSA code pads with. Seed bytes are mixed into
  a 16-byte state by adding their MD5; the output is the MD5 of the state, which is then stepped like
  a counter. Clock and time of day are parameters of the two routines that seed from them.
\<close>

section \<open>The state\<close>

definition ID_OK :: int where "ID_OK = 0"
definition RE_NEED_RANDOM :: int where "RE_NEED_RANDOM = 0x0408"

record r_random_struct =
  bytesNeeded :: nat
  rnd_state :: "byte list"
  outputAvailable :: nat
  rnd_output :: "byte list"

definition RANDOM_BYTES_RQ :: nat where "RANDOM_BYTES_RQ = 256"
definition RANDOM_BYTES_RQINT :: nat where "RANDOM_BYTES_RQINT = 512"
definition MIX_CNT :: nat where "MIX_CNT = 16"

text \<open>
  The three calls \<^verbatim>\<open>MD5Init\<close>, \<^verbatim>\<open>MD5Update\<close>, \<^verbatim>\<open>MD5Final\<close> on a context that is a local variable; what
  it holds before has no influence.
\<close>

definition rnd_md5_in :: "md_ctx \<Rightarrow> byte list \<Rightarrow> byte list" where
  "rnd_md5_in context block = MD5Final (MD5Update (MD5Init context) block)"

definition rnd_md5 :: "byte list \<Rightarrow> byte list" where
  "rnd_md5 = rnd_md5_in \<lparr>md_state = replicate 4 0, md_count0 = 0, md_count1 = 0, md_buffer = replicate 64 0\<rparr>"

section \<open>The operations\<close>

definition R_RandomInit :: "r_random_struct \<Rightarrow> r_random_struct" where
  "R_RandomInit random = random\<lparr>rnd_state := R_memset (rnd_state random) 0 0 16,
     outputAvailable := 0, bytesNeeded := RANDOM_BYTES_RQ\<rparr>"

text \<open>
  The addition of the digest to the state from the last byte to the first; \<open>j\<close> is the
  \<^verbatim>\<open>unsigned short\<close> that holds a sum and then its carry. The lists are reversed.
\<close>

fun rnd_add :: "u16 \<Rightarrow> byte list \<Rightarrow> byte list \<Rightarrow> byte list" where
  "rnd_add j (s # state) (d # digest) =
     (let j = j + (ucast s + ucast d) in ucast j # rnd_add (drop_bit 8 j) state digest)"
| "rnd_add j _ _ = []"

definition R_RandomUpdate :: "r_random_struct \<Rightarrow> byte list \<Rightarrow> r_random_struct" where
  "R_RandomUpdate random block =
     random\<lparr>rnd_state := rev (rnd_add 0 (rev (rnd_state random)) (rev (rnd_md5 block))),
            bytesNeeded := (if bytesNeeded random < length block then 0
                            else bytesNeeded random - length block)\<rparr>"

definition R_GetRandomBytesNeeded :: "r_random_struct \<Rightarrow> nat" where
  "R_GetRandomBytesNeeded random = bytesNeeded random"

text \<open>\<^verbatim>\<open>if (random->state[i-1]++) break\<close>, from the last byte; the list is reversed.\<close>

fun rnd_step :: "byte list \<Rightarrow> byte list" where
  "rnd_step [] = []"
| "rnd_step (x # state) = (if x \<noteq> 0 then (x + 1) # state else (x + 1) # rnd_step state)"

definition rnd_refill :: "r_random_struct \<Rightarrow> r_random_struct" where
  "rnd_refill random = random\<lparr>rnd_output := rnd_md5 (rnd_state random),
                              rnd_state := rev (rnd_step (rev (rnd_state random)))\<rparr>"

text \<open>The loop, with the bytes written so far and the bytes still asked for.\<close>

function rnd_loop :: "r_random_struct \<Rightarrow> nat \<Rightarrow> nat \<Rightarrow> byte list \<Rightarrow> byte list \<times> r_random_struct" where
  "rnd_loop random avail len block =
     (if avail < len
      then rnd_loop (rnd_refill random) 16 (len - avail)
             (block @ take avail (drop (16 - avail) (rnd_output random)))
      else (block @ take len (drop (16 - avail) (rnd_output random)),
            random\<lparr>outputAvailable := avail - len\<rparr>))"
  by pat_completeness auto
termination
  by (relation "measure (\<lambda>(random, avail, len, block). len + (if avail = 0 then 1 else 0))") auto

declare rnd_loop.simps [simp del]

text \<open>The status, the bytes written and the generator afterwards.\<close>

definition R_GenerateBytes :: "nat \<Rightarrow> r_random_struct \<Rightarrow> int \<times> byte list \<times> r_random_struct" where
  "R_GenerateBytes len random =
     (if bytesNeeded random \<noteq> 0 then (RE_NEED_RANDOM, [], random)
      else (case rnd_loop random (outputAvailable random) len [] of (block, random) \<Rightarrow> (ID_OK, block, random)))"

definition R_RandomFinal :: "r_random_struct \<Rightarrow> r_random_struct" where
  "R_RandomFinal random = \<lparr>bytesNeeded = 0, rnd_state = replicate 16 0, outputAvailable = 0,
     rnd_output = replicate 16 0\<rparr>"

text \<open>\<^verbatim>\<open>subrand\<close> with its static variable, the result word first; \<open>idum\<close> is a \<^verbatim>\<open>long\<close>.\<close>

definition subrand_consts :: "(u32 \<times> u32) list" where
  "subrand_consts = [(0xbaa96887, 0x4bf03b58), (0x1e17d32c, 0xe8740fc3),
                     (0x03dcbc3c, 0x69aac5a6), (0xf033d1b2, 0x55a7ca46)]"

fun subrand_round :: "u32 \<times> u32 \<Rightarrow> u32 \<times> u32 \<Rightarrow> u32 \<times> u32" where
  "subrand_round (c1, c2) (irword, lword) =
     (let iswap = irword; ia = iswap XOR c1;
          itmpl = ia AND 0xffff; itmph = drop_bit 16 ia;
          ib = itmpl * itmpl + NOT (itmph * itmph);
          ia = (drop_bit 16 ib OR push_bit 16 (ib AND 0xffff))
      in (lword XOR ((ia XOR c2) + itmpl * itmph), iswap))"

definition subrand :: "int \<Rightarrow> int \<Rightarrow> u32 \<times> int" where
  "subrand idums idum =
     (let (idums, idum) = (if idum < 0 then (- idum, 1) else (idums, idum))
      in (fst (fold subrand_round subrand_consts (of_int idum, of_int idums)), idums))"

text \<open>
  \<^verbatim>\<open>R_RandomCreate\<close> seeds from what the \<open>n\<close>-th turn reads: the time, the bytes of the broken-down
  time and those of the processor clock.
\<close>

function rnd_seed_loop ::
  "(nat \<Rightarrow> int \<times> byte list \<times> byte list) \<Rightarrow> nat \<Rightarrow> int \<Rightarrow> r_random_struct \<Rightarrow> r_random_struct" where
  "rnd_seed_loop env n idums random =
     (if bytesNeeded random \<noteq> 0
      then (let (t, gmt, cnow) = env n;
                (temp, idums) = subrand idums t;
                random = R_RandomUpdate random (md_Encode [temp]);
                random = R_RandomUpdate random gmt;
                random = R_RandomUpdate random cnow
            in rnd_seed_loop env (n + 1) idums random)
      else random)"
  by pat_completeness auto
termination
  by (relation "measure (\<lambda>(env, n, idums, random). bytesNeeded random)")
    (auto simp: R_RandomUpdate_def)

declare rnd_seed_loop.simps [simp del]

definition R_RandomCreate ::
  "(nat \<Rightarrow> int \<times> byte list \<times> byte list) \<Rightarrow> int \<Rightarrow> r_random_struct \<Rightarrow> r_random_struct" where
  "R_RandomCreate env idums random =
     rnd_seed_loop env 0 idums (random\<lparr>rnd_state := R_memset (rnd_state random) 0 0 16,
       outputAvailable := 0, bytesNeeded := RANDOM_BYTES_RQINT\<rparr>)"

text \<open>\<^verbatim>\<open>R_RandomMix\<close>: the clock and the time the \<open>i\<close>-th turn reads, cut to a byte.\<close>

fun rnd_mix :: "(nat \<Rightarrow> byte \<times> byte) \<Rightarrow> nat \<Rightarrow> byte list \<Rightarrow> byte list" where
  "rnd_mix env i state =
     (let state = state[i := state ! i XOR fst (env i)]
      in state[15 - i := state ! (15 - i) XOR snd (env i)])"

definition R_RandomMix :: "(nat \<Rightarrow> byte \<times> byte) \<Rightarrow> r_random_struct \<Rightarrow> r_random_struct" where
  "R_RandomMix env random =
     (let state = fold (rnd_mix env) [0..<MIX_CNT] (rnd_state random)
      in random\<lparr>rnd_state := state, rnd_output := rnd_md5 state, outputAvailable := 16\<rparr>)"

section \<open>The digest calls\<close>

lemma rnd_md5_in_eq:
  assumes "length (md_buffer context) = 64" "length b < 2 ^ 31"
  shows "rnd_md5_in context b = md_digest MD5Transform b" "length (rnd_md5_in context b) = 16"
proof -
  show e: "rnd_md5_in context b = md_digest MD5Transform b"
    using md5.digest_of_chunks [of "context" "[b]"] assms by (simp add: rnd_md5_in_def md_valid_def)
  show "length (rnd_md5_in context b) = 16"
    unfolding e by (rule length_md_digest)
qed

lemma rnd_md5_eq: "length b < 2 ^ 31 \<Longrightarrow> rnd_md5 b = md_digest MD5Transform b"
  and length_rnd_md5: "length b < 2 ^ 31 \<Longrightarrow> length (rnd_md5 b) = 16"
  unfolding rnd_md5_def by (rule rnd_md5_in_eq; simp)+

section \<open>Mixing\<close>

lemma unat_ucast_byte16: "unat (ucast (x :: byte) :: u16) = unat x"
  using order_less_trans [OF unat_byte_less [of x], of 65536]
  by (simp add: unsigned_ucast_eq take_bit_nat_eq_self_iff del: unat_byte_less)

lemma rnd_add_digit:
  fixes j :: u16 and s d :: byte
  assumes "unat j \<le> 1"
  defines "k \<equiv> j + (ucast s + ucast d)"
  shows "unat k = unat j + unat s + unat d" "unat (ucast k :: byte) = unat k mod 256"
    "unat (drop_bit 8 k) = unat k div 256" "unat (drop_bit 8 k) \<le> 1"
proof -
  have s: "unat s < 256" "unat d < 256" by simp_all
  have "unat (ucast s + ucast d :: u16) = unat s + unat d"
    using s by (simp add: unat_word_ariths unat_ucast_byte16 del: unat_byte_less)
  then show k: "unat k = unat j + unat s + unat d" unfolding k_def using s assms(1)
    by (simp add: unat_word_ariths del: unat_byte_less)
  show "unat (ucast k :: byte) = unat k mod 256" by (simp add: unsigned_ucast_eq take_bit_eq_mod)
  show d: "unat (drop_bit 8 k) = unat k div 256"
  proof -
    have "take_bit 16 (unat k) = unat k" using unsigned_less [of k, where 'a = nat] by (intro take_bit_nat_eq_self) simp
    then show ?thesis by (simp add: unsigned_drop_bit_eq drop_bit_eq_div [of 8 "unat k"])
  qed
  show "unat (drop_bit 8 k) \<le> 1" unfolding d k using s assms(1) by linarith
qed

lemma carry_mod: "0 < B \<Longrightarrow> a mod B + B * ((x + a div B) mod M) = (a + B * x) mod (B * M)" for a B x M :: nat
  by (simp add: mod_mult2_eq)

lemma rnd_add_val_aux:
  assumes "length s = length d" "unat j \<le> 1"
  shows "le_val (rnd_add j s d) = (le_val s + le_val d + unat j) mod 256 ^ length s
    \<and> length (rnd_add j s d) = length s"
  using assms
proof (induction s d arbitrary: j rule: list_induct2)
  case Nil
  then show ?case by simp
next
  case (Cons x s y d)
  let ?k = "j + (ucast x + ucast y) :: u16"
  note k = rnd_add_digit [OF Cons.prems, of x y]
  have IH: "le_val (rnd_add (drop_bit 8 ?k) s d) = (le_val s + le_val d + unat ?k div 256) mod 256 ^ length s"
    using Cons.IH [OF k(4)] by (simp only: k(3))
  have "le_val (rnd_add j (x # s) (y # d)) = unat ?k mod 256 + 256 * ((le_val s + le_val d + unat ?k div 256) mod 256 ^ length s)"
    by (simp only: rnd_add.simps Let_def le_val.simps IH k(2))
  also have "\<dots> = (unat ?k + 256 * (le_val s + le_val d)) mod (256 * 256 ^ length s)"
    by (rule carry_mod) simp
  also have "unat ?k + 256 * (le_val s + le_val d) = le_val (x # s) + le_val (y # d) + unat j"
    unfolding k(1) by simp
  finally show ?case using Cons.IH [OF k(4)] by (simp add: Let_def)
qed

lemmas rnd_add_val = rnd_add_val_aux [THEN conjunct1] rnd_add_val_aux [THEN conjunct2]

lemma le_val_replicate_0: "le_val (replicate n 0) = 0"
  by (induction n) auto

section \<open>The counter\<close>

text \<open>
  The step stops at a byte that was not zero before it, so each byte counts from one to zero: less
  one, the bytes are the digits of a counter.
\<close>

definition rnd_next :: "byte list \<Rightarrow> byte list" where
  "rnd_next state = rev (rnd_step (rev state))"

definition rnd_counter :: "byte list \<Rightarrow> nat" where
  "rnd_counter state = be_val (map (\<lambda>x. x - 1) state)"

lemma length_rnd_step [simp]: "length (rnd_step xs) = length xs"
  by (induction xs) auto

lemma rnd_step_val:
  "le_val (map (\<lambda>x. x - 1) (rnd_step xs)) = (le_val (map (\<lambda>x. x - 1) xs) + 1) mod 256 ^ length xs"
proof (induction xs)
  case (Cons x xs)
  let ?v = "le_val (map (\<lambda>x. x - 1) xs)"
  have v: "?v < 256 ^ length xs" using le_val_less [of "map (\<lambda>x. x - 1) xs"] by simp
  show ?case
  proof (cases "x = 0")
    case False
    have u: "unat x < 256" by simp
    have "1 \<le> unat x" using False by (simp add: Suc_le_eq unat_gt_0)
    then have x1: "unat (x - 1) + 1 = unat x" by (subst unat_sub) (simp_all add: word_le_nat_alt)
    have "unat x + 256 * ?v < 256 * 256 ^ length xs" using u v by (simp flip: Suc_le_eq)
    then show ?thesis using False x1 by simp
  next
    case True
    have "255 + 256 * ?v + 1 = 256 * (?v + 1)" by simp
    then have "(255 + 256 * ?v + 1) mod (256 * 256 ^ length xs) = 256 * ((?v + 1) mod 256 ^ length xs)"
      by (simp only: mod_mult_mult1)
    moreover have "unat (- 1 :: byte) = 255" by (simp add: unsigned_minus_1_eq_mask mask_eq_exp_minus_1)
    ultimately show ?thesis using True Cons by simp
  qed
qed simp

lemma rnd_counter_next: "rnd_counter (rnd_next s) = (rnd_counter s + 1) mod 256 ^ length s"
  using rnd_step_val [of "rev s"] by (simp add: rnd_counter_def rnd_next_def be_val_def rev_map)

lemma length_rnd_next [simp]: "length (rnd_next s) = length s" by (simp add: rnd_next_def)

lemma rnd_next_funpow: "length ((rnd_next ^^ n) s) = length s"
  "rnd_counter ((rnd_next ^^ n) s) = (rnd_counter s + n) mod 256 ^ length s"
proof (induction n)
  case 0
  case 2
  show ?case using be_val_less [of "map (\<lambda>x. x - 1) s"] by (simp add: rnd_counter_def)
next
  case (Suc n)
  case 2
  show ?case using Suc by (simp add: rnd_counter_next mod_simps)
qed simp_all

lemma rnd_counter_inj: "length s = length t \<Longrightarrow> rnd_counter s = rnd_counter t \<Longrightarrow> s = t"
proof -
  assume l: "length s = length t" and e: "rnd_counter s = rnd_counter t"
  then have "map (\<lambda>x. x - 1) s = map (\<lambda>x. x - 1) t"
    by (metis be_bytes_be_val length_map rnd_counter_def)
  then show "s = t" by (simp add: inj_map_eq_map inj_def)
qed

section \<open>Generating\<close>

definition rnd_ok :: "r_random_struct \<Rightarrow> bool" where
  "rnd_ok r \<longleftrightarrow> length (rnd_state r) = 16 \<and> length (rnd_output r) = 16 \<and> outputAvailable r \<le> 16"

lemma rnd_refill_ok: "length (rnd_state r) = 16 \<Longrightarrow>
    length (rnd_state (rnd_refill r)) = 16 \<and> length (rnd_output (rnd_refill r)) = 16 \<and>
    bytesNeeded (rnd_refill r) = bytesNeeded r"
  by (simp add: rnd_refill_def length_rnd_md5)

text \<open>The number of bytes the generator says it has left is not looked at by the loop.\<close>

lemma rnd_loop_avail_field: "rnd_loop (r\<lparr>outputAvailable := x\<rparr>) avail len block = rnd_loop r avail len block"
proof (induction r avail len block rule: rnd_loop.induct)
  case (1 r avail len block)
  have "rnd_refill (r\<lparr>outputAvailable := x\<rparr>) = (rnd_refill r)\<lparr>outputAvailable := x\<rparr>" by (simp add: rnd_refill_def)
  then show ?case using 1
    by (subst (1 2) rnd_loop.simps) simp
qed

lemma rnd_loop_props:
  assumes "length (rnd_state r) = 16" "length (rnd_output r) = 16" "avail \<le> 16"
    "rnd_loop r avail len block = (bs, r')"
  shows "length bs = length block + len \<and> rnd_ok r' \<and> bytesNeeded r' = bytesNeeded r"
  using assms
proof (induction r avail len block arbitrary: bs r' rule: rnd_loop.induct)
  case (1 r avail len block)
  show ?case
  proof (cases "avail < len")
    case True
    have "rnd_loop (rnd_refill r) 16 (len - avail) (block @ take avail (drop (16 - avail) (rnd_output r))) = (bs, r')"
      using True "1.prems"(4) by (subst (asm) rnd_loop.simps) simp
    from "1.IH" [OF True _ _ _ this] show ?thesis
      using rnd_refill_ok [OF "1.prems"(1)] True "1.prems"(2,3) by simp
  next
    case False
    then have "bs = block @ take len (drop (16 - avail) (rnd_output r))" "r' = r\<lparr>outputAvailable := avail - len\<rparr>"
      using "1.prems"(4) by (subst (asm) rnd_loop.simps, simp)+
    then show ?thesis using False "1.prems"(1-3) by (simp add: rnd_ok_def)
  qed
qed

lemma rnd_loop_split:
  assumes "length (rnd_output r) = 16" "length (rnd_state r) = 16" "avail \<le> 16" "rnd_loop r avail a block = (bs, r')"
  shows "rnd_loop r avail (a + b) block = rnd_loop r' (outputAvailable r') b bs"
  using assms
proof (induction r avail a block arbitrary: bs r' rule: rnd_loop.induct)
  case (1 r avail a block)
  let ?out = "\<lambda>n. take n (drop (16 - avail) (rnd_output r))"
  show ?case
  proof (cases "avail < a")
    case True
    have e: "rnd_loop (rnd_refill r) 16 (a - avail) (block @ ?out avail) = (bs, r')"
      using True "1.prems"(4) by (subst (asm) rnd_loop.simps) simp
    have "rnd_loop r avail (a + b) block = rnd_loop (rnd_refill r) 16 (a - avail + b) (block @ ?out avail)"
      using True by (subst rnd_loop.simps) simp
    then show ?thesis using "1.IH" [OF True _ _ _ e] rnd_refill_ok [OF "1.prems"(2)] by simp
  next
    case False
    have e: "bs = block @ ?out a" "r' = r\<lparr>outputAvailable := avail - a\<rparr>"
      using False "1.prems"(4) by (subst (asm) rnd_loop.simps, simp)+
    have d: "drop (16 - (avail - a)) (rnd_output r) = drop a (drop (16 - avail) (rnd_output r))"
      using False "1.prems"(1,3) by (simp add: add.commute)
    have tk: "?out (a + n) = ?out a @ take n (drop (16 - (avail - a)) (rnd_output r))" for n
      unfolding d by (rule take_add)
    have r: "rnd_loop r' (outputAvailable r') b bs = rnd_loop r (avail - a) b (block @ ?out a)"
      using e by (simp add: rnd_loop_avail_field)
    show ?thesis
    proof (cases "avail - a < b")
      case True
      have a: "a + (avail - a) = avail" "avail < a + b" "a + b - avail = b - (avail - a)" using False True by simp_all
      then show ?thesis unfolding r using True tk [of "avail - a", unfolded a(1)]
        by (subst (1 2) rnd_loop.simps) (simp only: if_True append_assoc)
    next
      case nb: False
      then have "\<not> avail < a + b" using False by simp
      then show ?thesis unfolding r using nb tk [of b] by (subst (1 2) rnd_loop.simps) simp
    qed
  qed
qed

lemma rnd_loop_acc: "rnd_loop r avail len (xs @ block) = (case rnd_loop r avail len block of (bs, r') \<Rightarrow> (xs @ bs, r'))"
proof (induction r avail len block rule: rnd_loop.induct)
  case (1 r avail len block)
  show ?case
  proof (cases "avail < len")
    case True
    then show ?thesis using "1.IH" by (subst (1 2) rnd_loop.simps) simp
  next
    case False
    then show ?thesis by (subst (1 2) rnd_loop.simps) simp
  qed
qed

section \<open>The properties\<close>

text \<open>
  The generator, once seeded, returns exactly as many bytes as asked for, and how a request is cut
  into several does not matter: the bytes are consecutive pieces of one stream, and the generator ends
  in the same state.
\<close>

theorem R_GenerateBytes_split:
  assumes "rnd_ok r" "bytesNeeded r = 0"
    and "R_GenerateBytes a r = (st1, x, r1)" "R_GenerateBytes b r1 = (st2, y, r2)"
  shows "st1 = ID_OK \<and> st2 = ID_OK \<and> length x = a \<and> length y = b \<and> rnd_ok r2
     \<and> R_GenerateBytes (a + b) r = (ID_OK, x @ y, r2)"
proof -
  have 1: "st1 = ID_OK" "rnd_loop r (outputAvailable r) a [] = (x, r1)"
    using assms(2,3) by (auto simp: R_GenerateBytes_def split: prod.splits)
  have p1: "length x = a" "rnd_ok r1" "bytesNeeded r1 = 0"
    using rnd_loop_props [OF _ _ _ 1(2)] assms(1,2) by (auto simp: rnd_ok_def)
  have 2: "st2 = ID_OK" "rnd_loop r1 (outputAvailable r1) b [] = (y, r2)"
    using assms(4) p1(3) by (auto simp: R_GenerateBytes_def split: prod.splits)
  have p2: "length y = b" "rnd_ok r2" using rnd_loop_props [OF _ _ _ 2(2)] p1(2) by (auto simp: rnd_ok_def)
  have "rnd_loop r (outputAvailable r) (a + b) [] = rnd_loop r1 (outputAvailable r1) b x"
    using assms(1) by (intro rnd_loop_split [OF _ _ _ 1(2)]) (simp_all add: rnd_ok_def)
  also have "\<dots> = (x @ y, r2)" using rnd_loop_acc [of r1 "outputAvailable r1" b x "[]"] 2(2) by simp
  finally show ?thesis using assms(2) 1(1) 2(1) p1(1) p2 by (simp add: R_GenerateBytes_def)
qed

theorem R_GenerateBytes_split_witness:
  "R_GenerateBytes (2 + 3) \<lparr>bytesNeeded = 0, rnd_state = replicate 16 0, outputAvailable = 6,
      rnd_output = [1, 2, 3, 4, 5, 6, 7, 8, 9, 10, 11, 12, 13, 14, 15, 16]\<rparr>
   = (ID_OK, [11, 12] @ [13, 14, 15], \<lparr>bytesNeeded = 0, rnd_state = replicate 16 0, outputAvailable = 1,
      rnd_output = [1, 2, 3, 4, 5, 6, 7, 8, 9, 10, 11, 12, 13, 14, 15, 16]\<rparr>)"
proof -
  let ?r = "\<lambda>n. \<lparr>bytesNeeded = 0, rnd_state = replicate 16 0, outputAvailable = n,
      rnd_output = [1, 2, 3, 4, 5, 6, 7, 8, 9, 10, 11, 12, 13, 14, 15, 16]\<rparr>"
  have a: "R_GenerateBytes 2 (?r 6) = (ID_OK, [11, 12], ?r 4)" by (simp add: R_GenerateBytes_def rnd_loop.simps)
  have b: "R_GenerateBytes 3 (?r 4) = (ID_OK, [13, 14, 15], ?r 1)" by (simp add: R_GenerateBytes_def rnd_loop.simps)
  show ?thesis using R_GenerateBytes_split [OF _ _ a b] by (simp add: rnd_ok_def)
qed

text \<open>
  Mixing in a block adds its MD5 to the state as numbers of 128 bits, carries included, and takes
  the length of the block off the bytes still needed, down to zero.
\<close>

theorem R_RandomUpdate_adds:
  assumes "length (rnd_state r) = 16" "length block < 2 ^ 31"
  shows "be_val (rnd_state (R_RandomUpdate r block))
      = (be_val (rnd_state r) + be_val (md_digest MD5Transform block)) mod 2 ^ 128
    \<and> bytesNeeded (R_RandomUpdate r block) = bytesNeeded r - length block
    \<and> length (rnd_state (R_RandomUpdate r block)) = 16"
proof -
  have l: "length (rev (rnd_state r)) = length (rev (rnd_md5 block))" using assms length_rnd_md5 by simp
  have "be_val (rnd_state (R_RandomUpdate r block)) = (be_val (rnd_state r) + be_val (rnd_md5 block)) mod 256 ^ 16"
    using rnd_add_val(1) [OF l, of 0] assms(1) by (simp add: R_RandomUpdate_def be_val_def)
  moreover have "(256 :: nat) ^ 16 = 2 ^ 128" by simp
  ultimately show ?thesis
    using rnd_add_val(2) [OF l, of 0] assms by (simp add: R_RandomUpdate_def rnd_md5_eq)
qed

theorem R_RandomUpdate_adds_witness:
  "be_val (rnd_state (R_RandomUpdate (R_RandomInit \<lparr>bytesNeeded = 1, rnd_state = replicate 16 5, outputAvailable = 3,
      rnd_output = []\<rparr>) [])) = be_val (md_digest MD5Transform []) mod 2 ^ 128"
  using R_RandomUpdate_adds [of "R_RandomInit \<lparr>bytesNeeded = 1, rnd_state = replicate 16 5, outputAvailable = 3,
      rnd_output = []\<rparr>" "[]"]
  by (simp add: R_RandomInit_def R_memset_eq R_memcpy_eq be_val_def le_val_replicate_0)

text \<open>
  The step of the state between two output blocks, which stops at the first byte that was not
  zero, runs through all \<open>2 ^ 128\<close> states before it comes back to one.
\<close>

theorem rnd_state_period:
  assumes "length (rnd_state r) = 16"
  shows "rnd_state ((rnd_refill ^^ n) r) = rnd_state r \<longleftrightarrow> 2 ^ 128 dvd n"
proof -
  have st: "rnd_state ((rnd_refill ^^ n) r) = (rnd_next ^^ n) (rnd_state r)"
    by (induction n) (simp_all add: rnd_refill_def rnd_next_def)
  let ?s = "rnd_state r" and ?t = "(rnd_next ^^ n) (rnd_state r)"
  have len: "length ?t = length ?s" by (rule rnd_next_funpow)
  have c: "rnd_counter ?s < 256 ^ 16"
    using be_val_less [of "map (\<lambda>x. x - 1) ?s"] assms by (simp add: rnd_counter_def)
  have "?t = ?s \<longleftrightarrow> rnd_counter ?t = rnd_counter ?s" using rnd_counter_inj [OF len] by auto
  also have "\<dots> \<longleftrightarrow> (rnd_counter ?s + n) mod 256 ^ 16 = rnd_counter ?s mod 256 ^ 16"
    using rnd_next_funpow(2) [of n ?s] assms c by simp
  also have "\<dots> \<longleftrightarrow> 256 ^ 16 dvd n" 
    using mod_eq_dvd_iff_nat [of "rnd_counter ?s" "rnd_counter ?s + n" "256 ^ 16"] by simp
  finally show ?thesis unfolding st by simp
qed

theorem rnd_state_period_witness:
  "rnd_state ((rnd_refill ^^ (2 ^ 128)) \<lparr>bytesNeeded = 0, rnd_state = replicate 16 255, outputAvailable = 0,
      rnd_output = replicate 16 0\<rparr>) = replicate 16 255"
  using rnd_state_period [of "\<lparr>bytesNeeded = 0, rnd_state = replicate 16 255, outputAvailable = 0,
      rnd_output = replicate 16 0\<rparr>" "2 ^ 128"]
  by (simp only: r_random_struct.simps length_replicate simp_thms dvd_refl)

end
