(* ===== verification/RSA_Math.thy ===== *)
theory RSA_Math
  imports QS_Prelude
begin

text \<open>
  The arithmetic behind the RSA operations: Fermat's little theorem, the recombination of the two
  halves of a private operation, and a criterion that certifies concrete primes.
\<close>

section \<open>Primes\<close>

definition is_prime :: "nat \<Rightarrow> bool" where
  "is_prime p \<longleftrightarrow> 1 < p \<and> (\<forall>d. d dvd p \<longrightarrow> d = 1 \<or> d = p)"

lemma is_primeD: "is_prime p \<Longrightarrow> 1 < p" "is_prime p \<Longrightarrow> d dvd p \<Longrightarrow> d = 1 \<or> d = p"
  by (auto simp: is_prime_def)

lemma is_prime_trial: "1 < p \<Longrightarrow> \<forall>d \<in> set [2..<p]. \<not> d dvd p \<Longrightarrow> is_prime p"
  unfolding is_prime_def
proof (intro conjI allI impI)
  fix d assume p: "1 < p" and t: "\<forall>d \<in> set [2..<p]. \<not> d dvd p" and d: "d dvd p"
  have "d \<le> p" using d p by (intro dvd_imp_le) simp_all
  moreover have "d \<noteq> 0" using d p by (cases d) simp_all
  ultimately show "d = 1 \<or> d = p" using t d by (cases "d = 1 \<or> d = p") auto
qed

lemma is_prime_coprime: "is_prime p \<Longrightarrow> \<not> p dvd a \<Longrightarrow> coprime p a"
proof -
  assume p: "is_prime p" and a: "\<not> p dvd a"
  have "gcd p a \<noteq> p" using gcd_dvd2 [of p a] a by metis
  then have "gcd p a = 1" using is_primeD(2) [OF p gcd_dvd1] by metis
  then show ?thesis by (simp add: coprime_iff_gcd_eq_1)
qed

lemma is_prime_dvd_mult: "is_prime p \<Longrightarrow> p dvd a * b \<longleftrightarrow> p dvd a \<or> p dvd b"
  by (cases "p dvd a") (simp_all add: is_prime_coprime coprime_dvd_mult_right_iff)

lemma is_prime_dvd_binomial:
  assumes "is_prime p" "0 < k" "k < p"
  shows "p dvd p choose k"
proof -
  have "k * (p choose k) = p * ((p - 1) choose (k - 1))" using assms(2) by (rule times_binomial_minus1_eq)
  then have "p dvd k * (p choose k)" by simp
  moreover have "\<not> p dvd k" using assms(2,3) by (simp add: nat_dvd_not_less)
  ultimately show ?thesis using is_prime_dvd_mult [OF assms(1)] by blast
qed

lemma fermat_power:
  assumes "is_prime p"
  shows "a ^ p mod p = a mod p"
proof (induction a)
  case 0
  then show ?case using is_primeD(1) [OF assms] by (simp add: zero_power)
next
  case (Suc a)
  have p: "1 < p" by (rule is_primeD(1) [OF assms])
  let ?f = "\<lambda>k. (p choose k) * a ^ k * 1 ^ (p - k)"
  have "Suc a ^ p = (\<Sum>k\<le>p. ?f k)" using binomial [of a 1 p] by simp
  also have "{..p} = insert 0 (insert p {1..<p})" using p by auto
  also have "(\<Sum>k\<in>insert 0 (insert p {1..<p}). ?f k) = ?f 0 + ?f p + (\<Sum>k\<in>{1..<p}. ?f k)"
    using p by simp
  finally have e: "Suc a ^ p = 1 + a ^ p + (\<Sum>k\<in>{1..<p}. ?f k)" by simp
  have "p dvd (\<Sum>k\<in>{1..<p}. ?f k)"
    using is_prime_dvd_binomial [OF assms] by (intro dvd_sum) (simp add: dvd_mult2)
  then have "Suc a ^ p mod p = (1 + a ^ p) mod p" unfolding e by (metis mod_add_eq dvd_imp_mod_0 add.right_neutral mod_mod_trivial)
  also have "\<dots> = (1 + a) mod p" using Suc by (metis mod_add_right_eq)
  finally show ?case by simp
qed

lemma fermat_one:
  assumes "is_prime p" "\<not> p dvd a"
  shows "a ^ (p - 1) mod p = 1"
proof -
  have p: "1 < p" by (rule is_primeD(1) [OF assms(1)])
  have e: "a ^ p = a * a ^ (p - 1)" using p by (cases p) simp_all
  have c: "coprime p a" by (rule is_prime_coprime [OF assms])
  have "int p dvd int (a ^ p) - int a"
    using fermat_power [OF assms(1), of a] by (metis mod_eq_dvd_iff of_nat_mod)
  also have "int (a ^ p) - int a = int a * (int (a ^ (p - 1)) - 1)" by (simp add: e algebra_simps)
  finally have "int p dvd int (a ^ (p - 1)) - 1"
    using c by (simp add: coprime_dvd_mult_right_iff)
  then have "int (a ^ (p - 1)) mod int p = 1 mod int p" by (simp only: mod_eq_dvd_iff)
  then have "a ^ (p - 1) mod p = 1 mod p" by (metis nat_int of_nat_1 of_nat_mod)
  then show ?thesis using p by simp
qed

text \<open>The exponents of a key undo each other modulo each prime.\<close>

lemma fermat_exponent:
  assumes "is_prime p" "0 < n" "n mod (p - 1) = 1 mod (p - 1)"
  shows "a ^ n mod p = a mod p"
proof (cases "p dvd a")
  case True
  then show ?thesis using assms(2) by (simp add: dvd_power mod_eq_0_iff_dvd dvd_trans)
next
  case False
  have "p - 1 dvd n - 1" using assms(2,3) by (metis mod_eq_dvd_iff_nat Suc_leI One_nat_def)
  then obtain k where "n - 1 = (p - 1) * k" by (rule dvdE)
  then have n: "n = Suc ((p - 1) * k)" using assms(2) by simp
  have "a ^ n mod p = a * (a ^ (p - 1) mod p) ^ k mod p"
    unfolding n power_Suc power_mult by (metis mod_mult_right_eq power_mod)
  then show ?thesis unfolding fermat_one [OF assms(1) False] by simp
qed

section \<open>Recombination\<close>

lemma crt_unique:
  fixes x y p q :: nat
  assumes "coprime p q" "x mod p = y mod p" "x mod q = y mod q" "x < p * q" "y < p * q"
  shows "x = y"
proof -
  have "int p dvd int x - int y" "int q dvd int x - int y"
    using assms(2,3) by (metis mod_eq_dvd_iff of_nat_mod)+
  then have "int p * int q dvd int x - int y" using assms(1) by (simp add: divides_mult)
  moreover have "\<bar>int x - int y\<bar> < int p * int q" using assms(4,5) by (simp flip: of_nat_mult add: abs_less_iff)
  ultimately show ?thesis using zdvd_imp_le [of "int p * int q" "\<bar>int x - int y\<bar>"] by fastforce
qed

lemma garner:
  fixes mP mQ p q qInv t :: nat
  assumes "mP < p" "mQ < q" "q * qInv mod p = 1" "d mod p = (mP + k * p - mQ) mod p" "mQ \<le> mP + k * p"
  defines "x \<equiv> (d * qInv mod p) * q + mQ"
  shows "x mod p = mP" "x mod q = mQ" "x < p * q"
proof -
  have p: "0 < p" using assms(1) by simp
  show "x mod q = mQ" using assms(2) by (simp add: x_def)
  have "x mod p = (d * (q * qInv mod p) + mQ) mod p"
  proof -
    have "x mod p = (d * qInv * q + mQ) mod p" unfolding x_def by (metis mod_add_left_eq mod_mult_left_eq)
    also have "d * qInv * q = d * (q * qInv)" by (simp only: ac_simps)
    finally show ?thesis by (metis mod_add_left_eq mod_mult_right_eq)
  qed
  also have "\<dots> = (d mod p + mQ) mod p" by (simp add: assms(3) mod_simps)
  also have "\<dots> = (mP + k * p - mQ + mQ) mod p" unfolding assms(4) by (simp only: mod_simps)
  also have "\<dots> = mP" using assms(1,5) by simp
  finally show "x mod p = mP" .
  have "d * qInv mod p + 1 \<le> p" using p by (simp add: Suc_le_eq)
  then have "(d * qInv mod p + 1) * q \<le> p * q" by (rule mult_le_mono1)
  then show "x < p * q" unfolding x_def using assms(2) by simp
qed

section \<open>Certificates of primality\<close>

lemma small_factor:
  assumes "1 < N" "\<not> is_prime N"
  shows "\<exists>r. is_prime r \<and> r dvd N \<and> r * r \<le> N"
proof -
  define r where "r = (LEAST d. 1 < d \<and> d dvd N)"
  have r: "1 < r" "r dvd N" using LeastI [of "\<lambda>d. 1 < d \<and> d dvd N" N] assms(1) by (auto simp: r_def)
  have least: "r \<le> d" if "1 < d" "d dvd N" for d unfolding r_def by (rule Least_le) (use that in simp)
  have "is_prime r"
    unfolding is_prime_def
  proof (intro conjI allI impI r(1))
    fix d assume d: "d dvd r"
    have "d \<noteq> 0" using d r(1) by (cases d) auto
    then show "d = 1 \<or> d = r" using least [of d] d r dvd_imp_le [OF d] by (cases "d = 1") (auto dest: dvd_trans)
  qed
  moreover have "r * r \<le> N"
  proof -
    obtain m where m: "N = r * m" using r(2) by (rule dvdE)
    have "m \<noteq> 1" using assms(2) m \<open>is_prime r\<close> by auto
    moreover have "m \<noteq> 0" using m assms(1) by (cases m) auto
    ultimately have "r \<le> m" using least [of m] m by simp
    then show ?thesis using m by simp
  qed
  ultimately show ?thesis using r(2) by blast
qed

lemma pocklington:
  assumes N: "1 < N" "N - 1 = q * m" "is_prime q" "N < (q + 1) * (q + 1)"
    and a: "a ^ (N - 1) mod N = 1" and c: "coprime (a ^ m mod N + N - 1) N"
  shows "is_prime N"
proof (rule ccontr)
  assume "\<not> is_prime N"
  then obtain r where r: "is_prime r" "r dvd N" "r * r \<le> N" using small_factor N(1) by blast
  have r1: "1 < r" by (rule is_primeD(1) [OF r(1)])
  have ar: "a ^ (N - 1) mod r = 1" using a r(2) r1 by (metis mod_mod_cancel mod_less)
  have N1: "0 < N - 1" using N(1) by simp
  define k where "k = (LEAST k. 0 < k \<and> a ^ k mod r = 1)"
  have k: "0 < k" "a ^ k mod r = 1"
    using LeastI [of "\<lambda>k. 0 < k \<and> a ^ k mod r = 1" "N - 1"] ar N1 by (auto simp: k_def)
  have ord: "k dvd n" if "a ^ n mod r = 1" for n
  proof -
    have e: "a ^ n = (a ^ k) ^ (n div k) * a ^ (n mod k)"
      unfolding power_mult [symmetric] power_add [symmetric] by simp
    have "(a ^ k) ^ (n div k) mod r = 1 mod r" using power_mod [of "a ^ k" r "n div k"] k(2) by simp
    then have "a ^ n mod r = 1 * a ^ (n mod k) mod r" unfolding e by (metis mod_mult_left_eq)
    then have "a ^ (n mod k) mod r = 1" using that by simp
    then have "\<not> 0 < n mod k" using Least_le [of "\<lambda>k. 0 < k \<and> a ^ k mod r = 1" "n mod k"] k(1)
      by (metis k_def mod_less_divisor not_le)
    then show ?thesis by (simp add: dvd_eq_mod_eq_0)
  qed
  have nra: "\<not> r dvd a"
  proof
    assume "r dvd a"
    then have "r dvd a ^ (N - 1)" using N1 by (simp add: dvd_power dvd_trans)
    then show False using ar by (simp add: dvd_eq_mod_eq_0)
  qed
  have nm: "\<not> k dvd m"
  proof
    assume "k dvd m"
    then obtain j where j: "m = k * j" by (rule dvdE)
    have "a ^ m mod r = 1" unfolding j power_mult using k(2) r1 by (metis mod_less power_mod power_one)
    then have "(a ^ m mod N) mod r = 1" using r(2) by (simp add: mod_mod_cancel)
    then have "(a ^ m mod N + (N - 1)) mod r = (1 + (N - 1)) mod r" by (metis mod_add_left_eq)
    then have "r dvd a ^ m mod N + N - 1" using N(1) r(2) by (simp add: dvd_eq_mod_eq_0)
    then have "r dvd 1" by (rule coprime_common_divisor [OF c _ r(2)])
    then show False using r1 by simp
  qed
  have "k dvd q * m" using ord [OF ar] N(2) by simp
  then have "q dvd k"
    using nm is_prime_coprime [OF N(3), of k] coprime_dvd_mult_right_iff [of k q m] coprime_commute [of q k] by blast
  moreover have "k dvd r - 1" by (rule ord) (rule fermat_one [OF r(1) nra])
  ultimately have "q \<le> r - 1" using r1 by (meson dvd_imp_le dvd_trans zero_less_diff)
  then have "(q + 1) * (q + 1) \<le> r * r" using r1 by (intro mult_le_mono) simp_all
  then show False using r(3) N(4) by simp
qed
end
