(* ===== verification/RSA.thy ===== *)
theory RSA
  imports NN_Exp R_Random RSA_Math
begin

text \<open>
  \<^verbatim>\<open>QBase/RSAEuro/rsa.c\<close>: raw RSA by \<^verbatim>\<open>nn.c\<close>, with the Chinese remainder theorem on the private side,
  and the PKCS block formats around it. The results are sums, the error code of the toolkit or the
  bytes written, in an option for the loops of \<^verbatim>\<open>nn.c\<close> and for the search of non-zero random bytes.
\<close>

section \<open>Keys\<close>

definition RE_DATA :: int where "RE_DATA = 0x0401"
definition RE_LEN :: int where "RE_LEN = 0x0406"
definition MAX_RSA_MODULUS_LEN :: nat where "MAX_RSA_MODULUS_LEN = (1024 + 7) div 8"
definition MAX_RSA_PRIME_LEN :: nat where "MAX_RSA_PRIME_LEN = ((1024 + 1) div 2 + 7) div 8"
definition MAX_NN_DIGITS :: nat where "MAX_NN_DIGITS = (MAX_RSA_MODULUS_LEN + 4 - 1) div 4 + 1"

record r_rsa_public_key =
  pub_bits :: nat
  pub_modulus :: "byte list"
  pub_exponent :: "byte list"

record r_rsa_private_key =
  prv_bits :: nat
  prv_modulus :: "byte list"
  prv_publicExponent :: "byte list"
  prv_exponent :: "byte list"
  prv_prime0 :: "byte list"
  prv_prime1 :: "byte list"
  prv_primeExponent0 :: "byte list"
  prv_primeExponent1 :: "byte list"
  prv_coefficient :: "byte list"

section \<open>Raw operations\<close>

definition rsapublicfunc :: "byte list \<Rightarrow> r_rsa_public_key \<Rightarrow> (int + byte list) option" where
  "rsapublicfunc input publicKey =
     (let m = NN_Decode MAX_NN_DIGITS input;
          n = NN_Decode MAX_NN_DIGITS (pub_modulus publicKey);
          e = NN_Decode MAX_NN_DIGITS (pub_exponent publicKey);
          nDigits = NN_Digits n; eDigits = NN_Digits e
      in if NN_Cmp m n nDigits \<ge> 0 then Some (Inl RE_DATA)
         else
           let outputLen = (pub_bits publicKey + 7) div 8
           in do { c \<leftarrow> NN_ModExp (take nDigits m) (take eDigits e) (take nDigits n);
                   Some (Inr (NN_Encode outputLen c)) })"

text \<open>Arrays that are zeroed up to \<open>nDigits\<close> and then written up to \<open>pDigits\<close>.\<close>

definition rsaprivatefunc :: "byte list \<Rightarrow> r_rsa_private_key \<Rightarrow> (int + byte list) option" where
  "rsaprivatefunc input privateKey =
     (let c = NN_Decode MAX_NN_DIGITS input;
          p = NN_Decode MAX_NN_DIGITS (prv_prime0 privateKey);
          q = NN_Decode MAX_NN_DIGITS (prv_prime1 privateKey);
          dP = NN_Decode MAX_NN_DIGITS (prv_primeExponent0 privateKey);
          dQ = NN_Decode MAX_NN_DIGITS (prv_primeExponent1 privateKey);
          n = NN_Decode MAX_NN_DIGITS (prv_modulus privateKey);
          qInv = NN_Decode MAX_NN_DIGITS (prv_coefficient privateKey);
          cDigits = NN_Digits c; pDigits = NN_Digits p; nDigits = NN_Digits n
      in if NN_Cmp c n nDigits \<ge> 0 then Some (Inl RE_DATA)
         else
           let outputLen = (prv_bits privateKey + 7) div 8
           in do { cP \<leftarrow> NN_Mod (NN_AssignZero pDigits) (take cDigits c) (take pDigits p);
                   cQ \<leftarrow> NN_Mod (NN_AssignZero pDigits) (take cDigits c) (take pDigits q);
                   mP \<leftarrow> NN_ModExp cP (take pDigits dP) (take pDigits p);
                   mQ \<leftarrow> NN_ModExp cQ (take pDigits dQ) (take pDigits q);
                   let mQ' = R_memcpy (NN_AssignZero nDigits) 0 mQ;
                   let t = (if NN_Cmp mP mQ pDigits \<ge> 0 then fst (NN_Sub mP mQ)
                            else fst (NN_Sub (take pDigits p) (fst (NN_Sub mQ mP))));
                   t \<leftarrow> NN_ModMult t t (take pDigits qInv) (take pDigits p);
                   let t = NN_Mult t (take pDigits q) pDigits;
                   let t = fst (NN_Add (take nDigits t) (take nDigits mQ'));
                   Some (Inr (NN_Encode outputLen t)) })"

section \<open>Encryption under the public key\<close>

text \<open>The search for a byte that is not zero, and the padding string.\<close>

partial_function (option) rsa_random_byte :: "r_random_struct \<Rightarrow> (byte \<times> r_random_struct) option" where
  "rsa_random_byte random =
     (case R_GenerateBytes 1 random of (status, block, random) \<Rightarrow>
        if hd block = 0 then rsa_random_byte random else Some (hd block, random))"

fun rsa_random_pad :: "nat \<Rightarrow> r_random_struct \<Rightarrow> (byte list \<times> r_random_struct) option" where
  "rsa_random_pad 0 random = Some ([], random)"
| "rsa_random_pad (Suc n) random =
     do { (b, random) \<leftarrow> rsa_random_byte random;
          (bs, random) \<leftarrow> rsa_random_pad n random;
          Some (b # bs, random) }"

definition RSAPublicEncrypt ::
  "byte list \<Rightarrow> r_rsa_public_key \<Rightarrow> r_random_struct \<Rightarrow> ((int + byte list) \<times> r_random_struct) option" where
  "RSAPublicEncrypt input publicKey random =
     (let modulusLen = (pub_bits publicKey + 7) div 8; inputLen = length input
      in if inputLen + 11 > modulusLen then Some (Inl RE_LEN, random)
         else if R_GetRandomBytesNeeded random \<noteq> 0 then Some (Inl RE_NEED_RANDOM, random)
         else do { (ps, random) \<leftarrow> rsa_random_pad (modulusLen - inputLen - 1 - 2) random;
                   r \<leftarrow> rsapublicfunc ([0, 2] @ ps @ [0] @ input) publicKey;
                   Some (r, random) })"

text \<open>The scan for the end of the padding from index \<open>i\<close> on; it stops at \<open>modulusLen - 1\<close>.\<close>

function rsa_scan :: "(byte \<Rightarrow> bool) \<Rightarrow> byte list \<Rightarrow> nat \<Rightarrow> nat \<Rightarrow> nat" where
  "rsa_scan stop block modulusLen i =
     (if i < modulusLen - 1 then if stop (block ! i) then i else rsa_scan stop block modulusLen (i + 1)
      else i)"
  by pat_completeness auto
termination by (relation "measure (\<lambda>(stop, block, modulusLen, i). modulusLen - i)") auto

declare rsa_scan.simps [simp del]

definition RSAPrivateDecrypt :: "byte list \<Rightarrow> r_rsa_private_key \<Rightarrow> (int + byte list) option" where
  "RSAPrivateDecrypt input privateKey =
     (let modulusLen = (prv_bits privateKey + 7) div 8
      in if length input > modulusLen then Some (Inl RE_LEN)
         else do { r \<leftarrow> rsaprivatefunc input privateKey;
                   Some (case r of
                     Inl status \<Rightarrow> Inl status
                   | Inr pkcsBlock \<Rightarrow>
                       if length pkcsBlock \<noteq> modulusLen then Inl RE_LEN
                       else if pkcsBlock ! 0 \<noteq> 0 \<or> pkcsBlock ! 1 \<noteq> 2 then Inl RE_DATA
                       else
                         let i = rsa_scan (\<lambda>b. b = 0) pkcsBlock modulusLen 2 + 1
                         in if i \<ge> modulusLen then Inl RE_DATA
                            else let outputLen = modulusLen - i
                                 in if outputLen + 11 > modulusLen then Inl RE_DATA
                                    else Inr (take outputLen (drop i pkcsBlock))) })"

section \<open>Encryption under the private key\<close>

definition RSAPrivateEncrypt :: "byte list \<Rightarrow> r_rsa_private_key \<Rightarrow> (int + byte list) option" where
  "RSAPrivateEncrypt input privateKey =
     (let modulusLen = (prv_bits privateKey + 7) div 8; inputLen = length input
      in if inputLen + 11 > modulusLen then Some (Inl RE_LEN)
         else rsaprivatefunc ([0, 1] @ replicate (modulusLen - inputLen - 1 - 2) 0xff @ [0] @ input) privateKey)"

definition RSAPublicDecrypt :: "byte list \<Rightarrow> r_rsa_public_key \<Rightarrow> (int + byte list) option" where
  "RSAPublicDecrypt input publicKey =
     (let modulusLen = (pub_bits publicKey + 7) div 8
      in if length input > modulusLen then Some (Inl RE_LEN)
         else do { r \<leftarrow> rsapublicfunc input publicKey;
                   Some (case r of
                     Inl status \<Rightarrow> Inl status
                   | Inr pkcsBlock \<Rightarrow>
                       if length pkcsBlock \<noteq> modulusLen then Inl RE_LEN
                       else if pkcsBlock ! 0 \<noteq> 0 \<or> pkcsBlock ! 1 \<noteq> 1 then Inl RE_DATA
                       else
                         let i = rsa_scan (\<lambda>b. b \<noteq> 0xff) pkcsBlock modulusLen 2
                         in if pkcsBlock ! i \<noteq> 0 then Inl RE_DATA
                            else let outputLen = modulusLen - (i + 1)
                                 in if outputLen + 11 > modulusLen then Inl RE_DATA
                                    else Inr (take outputLen (drop (i + 1) pkcsBlock))) })"

section \<open>Correctness of the raw operations\<close>

text \<open>
  A pair of keys that fit together: the modulus is the product of two factors, the larger first, and has the
  length the keys announce, the coefficient is the inverse of the second factor modulo the first, and raising
  to the product of the exponents changes nothing modulo either factor. The last holds for primes and exponents
  that are inverse to each other modulo the primes less one, which is how keys are made.
\<close>

definition rsa_n :: "r_rsa_private_key \<Rightarrow> nat" where "rsa_n k = be_val (prv_modulus k)"
definition rsa_p :: "r_rsa_private_key \<Rightarrow> nat" where "rsa_p k = be_val (prv_prime0 k)"
definition rsa_q :: "r_rsa_private_key \<Rightarrow> nat" where "rsa_q k = be_val (prv_prime1 k)"
definition rsa_dP :: "r_rsa_private_key \<Rightarrow> nat" where "rsa_dP k = be_val (prv_primeExponent0 k)"
definition rsa_dQ :: "r_rsa_private_key \<Rightarrow> nat" where "rsa_dQ k = be_val (prv_primeExponent1 k)"
definition rsa_qInv :: "r_rsa_private_key \<Rightarrow> nat" where "rsa_qInv k = be_val (prv_coefficient k)"
definition rsa_e :: "r_rsa_public_key \<Rightarrow> nat" where "rsa_e k = be_val (pub_exponent k)"

definition rsa_key_sizes :: "r_rsa_private_key \<Rightarrow> bool" where
  "rsa_key_sizes k \<longleftrightarrow> length (prv_modulus k) = MAX_RSA_MODULUS_LEN
     \<and> length (prv_prime0 k) = MAX_RSA_PRIME_LEN \<and> length (prv_prime1 k) = MAX_RSA_PRIME_LEN
     \<and> length (prv_primeExponent0 k) = MAX_RSA_PRIME_LEN \<and> length (prv_primeExponent1 k) = MAX_RSA_PRIME_LEN
     \<and> length (prv_coefficient k) = MAX_RSA_PRIME_LEN"

definition rsa_private_ok :: "r_rsa_private_key \<Rightarrow> bool" where
  "rsa_private_ok k \<longleftrightarrow> rsa_key_sizes k \<and> 12 \<le> prv_bits k
     \<and> 2 ^ (prv_bits k - 1) \<le> rsa_n k \<and> rsa_n k < 2 ^ prv_bits k
     \<and> rsa_n k = rsa_p k * rsa_q k \<and> 2 < rsa_q k \<and> rsa_q k < rsa_p k
     \<and> rsa_dP k < rsa_p k \<and> rsa_dQ k < rsa_q k \<and> rsa_qInv k < rsa_p k
     \<and> rsa_q k * rsa_qInv k mod rsa_p k = 1"

definition rsa_keys_ok :: "r_rsa_public_key \<Rightarrow> r_rsa_private_key \<Rightarrow> bool" where
  "rsa_keys_ok pub prv \<longleftrightarrow> rsa_private_ok prv \<and> pub_bits pub = prv_bits prv
     \<and> pub_modulus pub = prv_modulus prv \<and> length (pub_exponent pub) = MAX_RSA_MODULUS_LEN
     \<and> (\<forall>m. m ^ (rsa_e pub * rsa_dP prv) mod rsa_p prv = m mod rsa_p prv)
     \<and> (\<forall>m. m ^ (rsa_e pub * rsa_dQ prv) mod rsa_q prv = m mod rsa_q prv)"

lemmas rsa_lens = MAX_RSA_MODULUS_LEN_def MAX_RSA_PRIME_LEN_def MAX_NN_DIGITS_def

lemma NN_Decode_full:
  assumes "length b \<le> 128"
  shows "nn_val (NN_Decode MAX_NN_DIGITS b) = be_val b" "length (NN_Decode MAX_NN_DIGITS b) = 33"
proof -
  have "be_val b < 256 ^ length b" by (rule be_val_less)
  also have "(256 :: nat) ^ length b \<le> 256 ^ 128" using assms by (intro power_increasing) simp_all
  also have "(256 :: nat) ^ 128 < NN_B ^ MAX_NN_DIGITS" by (simp add: rsa_lens)
  finally show "nn_val (NN_Decode MAX_NN_DIGITS b) = be_val b" by (simp only: NN_Decode_val mod_less)
  show "length (NN_Decode MAX_NN_DIGITS b) = 33" by (simp add: NN_Decode_val rsa_lens)
qed

lemma nn_val_take:
  assumes "k \<le> length a" "nn_val a < NN_B ^ k"
  shows "nn_val (take k a) = nn_val a" "length (take k a) = k"
proof -
  have e: "nn_val a = nn_val (take k a) + NN_B ^ k * nn_val (drop k a)"
    using nn_val_append [of "take k a" "drop k a"] assms(1) by simp
  show "length (take k a) = k" using assms(1) by simp
  have "nn_val (drop k a) = 0"
  proof (rule ccontr)
    assume "nn_val (drop k a) \<noteq> 0"
    then have "NN_B ^ k * 1 \<le> NN_B ^ k * nn_val (drop k a)" by (intro mult_le_mono2) simp
    then show False using e assms(2) by linarith
  qed
  then show "nn_val (take k a) = nn_val a" using e by simp
qed

text \<open>The number of significant digits of a number.\<close>

lemma NN_Digits_bounds:
  shows "nn_val a < NN_B ^ NN_Digits a" "0 < nn_val a \<Longrightarrow> 0 < NN_Digits a \<and> NN_B ^ (NN_Digits a - 1) \<le> nn_val a"
proof -
  let ?k = "NN_Digits a"
  have k: "?k \<le> length a" "nn_val (take ?k a) = nn_val a" by (rule NN_Digits_props)+
  show "nn_val a < NN_B ^ ?k" using nn_val_less [of "take ?k a"] k by simp
  assume pos: "0 < nn_val a"
  have k0: "?k \<noteq> 0" using k(2) pos by (cases ?k) simp_all
  then have "a ! (?k - 1) \<noteq> 0" by (rule NN_Digits_props(3))
  then have "1 \<le> unat (a ! (?k - 1))" by (simp add: Suc_le_eq unat_gt_0)
  then have "NN_B ^ (?k - 1) * 1 \<le> NN_B ^ (?k - 1) * unat (a ! (?k - 1))" by (rule mult_le_mono2)
  moreover have "take ?k a = take (?k - 1) a @ [a ! (?k - 1)]"
    using k0 k(1) by (cases ?k) (simp_all add: take_Suc_conv_app_nth)
  moreover have "length (take (?k - 1) a) = ?k - 1" using k(1) by simp
  ultimately have "NN_B ^ (?k - 1) * 1 \<le> NN_B ^ (?k - 1) * unat (a ! (?k - 1))"
    and "nn_val a = nn_val (take (?k - 1) a) + NN_B ^ (?k - 1) * unat (a ! (?k - 1))"
    using nn_val_append [of "take (?k - 1) a" "[a ! (?k - 1)]"] k(2) by simp_all
  then have "NN_B ^ (?k - 1) \<le> nn_val a" by linarith
  with k0 show "0 < ?k \<and> NN_B ^ (?k - 1) \<le> nn_val a" by blast
qed

lemma NN_B_less_exp: "NN_B ^ i \<le> x \<Longrightarrow> x < NN_B ^ j \<Longrightarrow> i < j"
  using power_less_imp_less_exp [of NN_B i j] by linarith
text \<open>The digit arrays of a number below a modulus, cut to the digits of the modulus.\<close>

lemma NN_Cmp_less:
  assumes "nn_val m < nn_val n" "length m = length n"
  shows "\<not> NN_Cmp m n (NN_Digits n) \<ge> 0" "nn_val (take (NN_Digits n) m) = nn_val m"
    "length (take (NN_Digits n) m) = NN_Digits n"
proof -
  have k: "NN_Digits n \<le> length n" "nn_val (take (NN_Digits n) n) = nn_val n" by (rule NN_Digits_props)+
  have "nn_val m < NN_B ^ NN_Digits n" using assms(1) NN_Digits_bounds(1) [of n] by simp
  then show t: "nn_val (take (NN_Digits n) m) = nn_val m" "length (take (NN_Digits n) m) = NN_Digits n"
    using nn_val_take [of "NN_Digits n" m] k(1) assms(2) by simp_all
  show "\<not> NN_Cmp m n (NN_Digits n) \<ge> 0"
    using k assms t(1) by (simp add: NN_Cmp_def nn_cmp_val)
qed

lemma rsapublicfunc_val:
  assumes "length (pub_modulus k) = MAX_RSA_MODULUS_LEN" "length (pub_exponent k) = MAX_RSA_MODULUS_LEN"
    and "length m \<le> MAX_RSA_MODULUS_LEN" "be_val m < be_val (pub_modulus k)" "1 < be_val (pub_modulus k)"
  shows "rsapublicfunc m k = Some (Inr (be_bytes ((pub_bits k + 7) div 8)
      (be_val m ^ be_val (pub_exponent k) mod be_val (pub_modulus k))))"
proof -
  let ?m = "NN_Decode MAX_NN_DIGITS m" and ?n = "NN_Decode MAX_NN_DIGITS (pub_modulus k)"
    and ?e = "NN_Decode MAX_NN_DIGITS (pub_exponent k)"
  have v: "nn_val ?m = be_val m" "nn_val ?n = be_val (pub_modulus k)" "nn_val ?e = be_val (pub_exponent k)"
    "length ?m = length ?n"
    using assms(1-3) by (simp_all add: NN_Decode_full MAX_RSA_MODULUS_LEN_def)
  note c = NN_Cmp_less [of ?m ?n, unfolded v(1,2), OF assms(4) v(4)]
  have n: "nn_val (take (NN_Digits ?n) ?n) = be_val (pub_modulus k)" "nn_val (take (NN_Digits ?e) ?e) = be_val (pub_exponent k)"
    by (simp_all only: NN_Digits_props(2) v)
  have "length (take (NN_Digits ?n) ?n) = NN_Digits ?n" using NN_Digits_props(1) [of ?n] by simp
  then obtain r where "NN_ModExp (take (NN_Digits ?n) ?m) (take (NN_Digits ?e) ?e) (take (NN_Digits ?n) ?n) = Some r"
    "nn_val r = be_val m ^ be_val (pub_exponent k) mod be_val (pub_modulus k)"
    using NN_ModExp_val [of "take (NN_Digits ?n) ?n" "take (NN_Digits ?n) ?m" "take (NN_Digits ?e) ?e"] assms(5) c(2,3) n
    by auto
  then show ?thesis unfolding rsapublicfunc_def Let_def using c(1) by (simp add: NN_Encode_val)
qed

lemma NN_Sub_val: "length a = length b \<Longrightarrow> nn_val b \<le> nn_val a \<Longrightarrow>
   nn_val (fst (NN_Sub a b)) = nn_val a - nn_val b \<and> length (fst (NN_Sub a b)) = length a"
proof -
  assume l: "length a = length b" and le: "nn_val b \<le> nn_val a"
  obtain r k where rk: "NN_Sub a b = (r, k)" by force
  have s: "nn_val r + nn_val b = nn_val a + NN_B ^ length a * unat k" "length r = length a"
    using nn_sub_val [of a b 0 r k] rk l by (simp_all add: NN_Sub_def)
  have "unat k = 0" using s le nn_val_less [of r] by (cases "unat k") simp_all
  then show ?thesis using s rk by simp
qed

lemma NN_Add_val: "length a = length b \<Longrightarrow> nn_val a + nn_val b < NN_B ^ length a \<Longrightarrow>
   nn_val (fst (NN_Add a b)) = nn_val a + nn_val b \<and> length (fst (NN_Add a b)) = length a"
proof -
  assume l: "length a = length b" and le: "nn_val a + nn_val b < NN_B ^ length a"
  obtain r k where rk: "NN_Add a b = (r, k)" by force
  have s: "nn_val r + NN_B ^ length a * unat k = nn_val a + nn_val b" "length r = length a"
    using nn_add_val [of a b 0 r k] rk l by (simp_all add: NN_Add_def)
  have "unat k = 0" using s le by (cases "unat k") simp_all
  then show ?thesis using s rk by simp
qed

text \<open>The difference of the two half results, taken modulo the first prime.\<close>

lemma rsa_difference:
  assumes "length mP = k" "length mQ = k" "length p = k" "nn_val mP < nn_val p" "nn_val mQ < nn_val p"
  defines "t \<equiv> (if NN_Cmp mP mQ k \<ge> 0 then fst (NN_Sub mP mQ) else fst (NN_Sub p (fst (NN_Sub mQ mP))))"
  shows "length t = k" "\<exists>j. nn_val mQ \<le> nn_val mP + j * nn_val p \<and> nn_val t = nn_val mP + j * nn_val p - nn_val mQ"
proof -
  have "length t = k \<and> (\<exists>j. nn_val mQ \<le> nn_val mP + j * nn_val p \<and> nn_val t = nn_val mP + j * nn_val p - nn_val mQ)"
  proof (cases "nn_val mQ \<le> nn_val mP")
    case True
    then have "NN_Cmp mP mQ k \<ge> 0" using assms(1,2) by (simp add: NN_Cmp_def nn_cmp_val)
    then show ?thesis using NN_Sub_val [of mP mQ] True assms(1,2) by (auto simp: t_def intro!: exI [of _ 0])
  next
    case False
    then have c: "\<not> NN_Cmp mP mQ k \<ge> 0" using assms(1,2) by (simp add: NN_Cmp_def nn_cmp_val)
    have 1: "nn_val (fst (NN_Sub mQ mP)) = nn_val mQ - nn_val mP" "length (fst (NN_Sub mQ mP)) = k"
      using NN_Sub_val [of mQ mP] False assms(1,2) by simp_all
    then have "nn_val t = nn_val p - (nn_val mQ - nn_val mP)" "length t = k"
      using NN_Sub_val [of p "fst (NN_Sub mQ mP)"] c assms(3,5) by (simp_all add: t_def)
    then show ?thesis using False assms(5) by (auto intro!: exI [of _ 1])
  qed
  then show "length t = k" "\<exists>j. nn_val mQ \<le> nn_val mP + j * nn_val p \<and> nn_val t = nn_val mP + j * nn_val p - nn_val mQ"
    by blast+
qed

lemma R_memcpy_zeros: "length xs \<le> n \<Longrightarrow> nn_val (R_memcpy (NN_AssignZero n) 0 xs) = nn_val xs"
  by (simp add: R_memcpy_eq NN_AssignZero_def)

lemma rsaprivatefunc_val:
  assumes ok: "rsa_private_ok k" and c: "length c \<le> MAX_RSA_MODULUS_LEN" "be_val c < rsa_n k"
  shows "\<exists>x. rsaprivatefunc c k = Some (Inr (be_bytes ((prv_bits k + 7) div 8) x)) \<and> x < rsa_n k
     \<and> x mod rsa_p k = be_val c ^ rsa_dP k mod rsa_p k \<and> x mod rsa_q k = be_val c ^ rsa_dQ k mod rsa_q k"
proof -
  let ?N = "NN_Decode MAX_NN_DIGITS"
  let ?c = "?N c" and ?p = "?N (prv_prime0 k)" and ?q = "?N (prv_prime1 k)" and ?dP = "?N (prv_primeExponent0 k)"
    and ?dQ = "?N (prv_primeExponent1 k)" and ?n = "?N (prv_modulus k)" and ?qInv = "?N (prv_coefficient k)"
  define P Q nD pD where "P = rsa_p k" and "Q = rsa_q k" and "nD = NN_Digits ?n" and "pD = NN_Digits ?p"
  have len: "length (prv_modulus k) \<le> 128" "length (prv_prime0 k) \<le> 128" "length (prv_prime1 k) \<le> 128"
    "length (prv_primeExponent0 k) \<le> 128" "length (prv_primeExponent1 k) \<le> 128" "length (prv_coefficient k) \<le> 128"
    "length c \<le> 128"
    using ok c(1) by (simp_all add: rsa_private_ok_def rsa_key_sizes_def MAX_RSA_MODULUS_LEN_def MAX_RSA_PRIME_LEN_def)
  have key: "rsa_n k = P * Q" "2 < P" "2 < Q" "Q < P" "rsa_dP k < P" "rsa_dQ k < Q" "rsa_qInv k < P"
    "Q * rsa_qInv k mod P = 1" using ok by (auto simp: rsa_private_ok_def P_def Q_def)
  have v: "nn_val ?c = be_val c" "nn_val ?p = P" "nn_val ?q = Q" "nn_val ?dP = rsa_dP k" "nn_val ?dQ = rsa_dQ k"
    "nn_val ?n = P * Q" "nn_val ?qInv = rsa_qInv k"
    using len key(1) by (simp_all add: NN_Decode_full P_def Q_def rsa_n_def rsa_p_def rsa_q_def rsa_dP_def rsa_dQ_def rsa_qInv_def)
  have l33: "length (?N b) = 33" for b by (simp add: NN_Decode_val rsa_lens)
  have PQ: "1 < P" "1 < Q" using key(2,3) by simp_all
  then have n0: "0 < P * Q" by simp
  have pD: "pD \<le> 33" "P < NN_B ^ pD" "0 < pD" "NN_B ^ (pD - 1) \<le> P"
    using NN_Digits_props(1) [of ?p] NN_Digits_bounds [of ?p] PQ by (simp_all add: pD_def v l33)
  have nD: "nD \<le> 33" "P * Q < NN_B ^ nD" "NN_B ^ (nD - 1) \<le> P * Q"
    using NN_Digits_props(1) [of ?n] NN_Digits_bounds [of ?n] n0 by (simp_all add: nD_def v l33)
  have tk: "nn_val (take pD a) = nn_val a" "length (take pD a) = pD" if "nn_val a < P" "length a = 33" for a
    using nn_val_take [of pD a] that pD by simp_all
  have tp: "nn_val (take pD ?p) = P" "length (take pD ?p) = pD"
    using nn_val_take [of pD ?p] pD l33 v(2) by simp_all
  have tq: "nn_val (take pD ?q) = Q" "length (take pD ?q) = pD" using tk [of ?q] key(4) l33 v(3) by simp_all
  have te: "nn_val (take pD ?dP) = rsa_dP k" "nn_val (take pD ?dQ) = rsa_dQ k" "nn_val (take pD ?qInv) = rsa_qInv k"
    "length (take pD ?qInv) = pD"
    using tk [of ?dP] tk [of ?dQ] tk [of ?qInv] key(4-7) l33 v(4,5,7) by simp_all
  have tc: "nn_val (take (NN_Digits ?c) ?c) = be_val c" by (simp only: NN_Digits_props(2) v(1))
  have cmp: "\<not> NN_Cmp ?c ?n nD \<ge> 0"
    unfolding nD_def using c(2) key(1) l33 v(1,6) by (intro NN_Cmp_less(1)) simp_all
  obtain cP where cP: "NN_Mod (NN_AssignZero pD) (take (NN_Digits ?c) ?c) (take pD ?p) = Some cP" "length cP = pD"
    "nn_val cP = be_val c mod P" using NN_Mod_val [of "take pD ?p" "NN_AssignZero pD" "take (NN_Digits ?c) ?c"] PQ tp tc by auto
  obtain cQ where cQ: "NN_Mod (NN_AssignZero pD) (take (NN_Digits ?c) ?c) (take pD ?q) = Some cQ" "length cQ = pD"
    "nn_val cQ = be_val c mod Q" using NN_Mod_val [of "take pD ?q" "NN_AssignZero pD" "take (NN_Digits ?c) ?c"] PQ tq tc by auto
  obtain mP where mP: "NN_ModExp cP (take pD ?dP) (take pD ?p) = Some mP" "length mP = pD"
    "nn_val mP = be_val c ^ rsa_dP k mod P"
    using NN_ModExp_val [of "take pD ?p" cP "take pD ?dP"] PQ tp cP te(1) by (auto simp: power_mod)
  obtain mQ where mQ: "NN_ModExp cQ (take pD ?dQ) (take pD ?q) = Some mQ" "length mQ = pD"
    "nn_val mQ = be_val c ^ rsa_dQ k mod Q"
    using NN_ModExp_val [of "take pD ?q" cQ "take pD ?dQ"] PQ tq cQ te(2) by (auto simp: power_mod)
  have less: "nn_val mP < P" "nn_val mQ < Q" using mP(3) mQ(3) PQ by simp_all
  define t1 where "t1 = (if NN_Cmp mP mQ pD \<ge> 0 then fst (NN_Sub mP mQ) else fst (NN_Sub (take pD ?p) (fst (NN_Sub mQ mP))))"
  obtain j where t1: "length t1 = pD" "nn_val mQ \<le> nn_val mP + j * P" "nn_val t1 = nn_val mP + j * P - nn_val mQ"
    using rsa_difference [of mP pD mQ "take pD ?p"] mP(2) mQ(2) tp less key(4) unfolding t1_def by auto
  obtain t2 where t2: "NN_ModMult t1 t1 (take pD ?qInv) (take pD ?p) = Some t2" "length t2 = pD"
    "nn_val t2 = nn_val t1 * rsa_qInv k mod P"
    using NN_ModMult_val [of "take pD ?p" t1 "take pD ?qInv" t1] PQ tp t1(1) te(3,4) by auto
  let ?t3 = "NN_Mult t2 (take pD ?q) pD"
  have t3: "nn_val ?t3 = nn_val t2 * Q" "length ?t3 = 2 * pD" using NN_Mult_val [OF t2(2) tq(2)] tq(1) by simp_all
  define x where "x = nn_val t2 * Q + nn_val mQ"
  have g: "x mod P = nn_val mP" "x mod Q = nn_val mQ" "x < P * Q"
    using garner [OF less key(8), of "nn_val t1" j] t1 unfolding x_def t2(3) by simp_all
  have dd: "nD \<le> 2 * pD"
  proof -
    have "P * Q < NN_B ^ pD * NN_B ^ pD" using pD(2) key(4) by (intro mult_strict_mono) simp_all
    then have "P * Q < NN_B ^ (2 * pD)" by (simp add: power_add mult_2)
    then have "nD - 1 < 2 * pD" using NN_B_less_exp nD(3) by blast
    then show ?thesis by simp
  qed
  have dp: "pD \<le> nD"
  proof -
    have "P * 1 \<le> P * Q" using PQ by (intro mult_le_mono2) simp
    then have "P < NN_B ^ nD" using nD(2) by linarith
    then have "pD - 1 < nD" by (rule NN_B_less_exp [OF pD(4)])
    then show ?thesis using pD(3) by simp
  qed
  let ?mQ = "R_memcpy (NN_AssignZero nD) 0 mQ"
  have q4: "nn_val (take nD ?mQ) = nn_val mQ" "length (take nD ?mQ) = nD"
    using R_memcpy_zeros [of mQ nD] mQ(2) dp by (simp_all add: NN_AssignZero_def)
  have t4: "nn_val (take nD ?t3) = nn_val t2 * Q" "length (take nD ?t3) = nD"
    using nn_val_take [of nD ?t3] t3 dd g(3) nD(2) by (simp_all add: x_def)
  have t5: "nn_val (fst (NN_Add (take nD ?t3) (take nD ?mQ))) = x"
    using NN_Add_val [of "take nD ?t3" "take nD ?mQ"] t4 q4 g(3) nD(2) by (simp add: x_def)
  have "rsaprivatefunc c k = Some (Inr (NN_Encode ((prv_bits k + 7) div 8) (fst (NN_Add (take nD ?t3) (take nD ?mQ)))))"
    unfolding rsaprivatefunc_def Let_def nD_def [symmetric] pD_def [symmetric]
    using cmp cP(1) cQ(1) mP(1) mQ(1) t2(1) [unfolded t1_def] by (simp del: NN_Encode_def)
  then have "rsaprivatefunc c k = Some (Inr (be_bytes ((prv_bits k + 7) div 8) x))" by (simp add: NN_Encode_val t5)
  then show ?thesis using g mP(3) mQ(3) key(1) by (auto simp: P_def Q_def)
qed

section \<open>Round trips\<close>

lemma be_val_Cons: "be_val (x # xs) = unat x * 256 ^ length xs + be_val xs"
  by (simp add: be_val_def le_val_append)

text \<open>Both keys undo each other on the numbers below the modulus.\<close>

lemma rsa_coprime: "rsa_private_ok k \<Longrightarrow> coprime (rsa_p k) (rsa_q k)"
proof -
  assume "rsa_private_ok k"
  then have "gcd (rsa_q k * rsa_qInv k) (rsa_p k) = 1"
    using gcd_red_nat [of "rsa_q k * rsa_qInv k" "rsa_p k"] by (simp add: rsa_private_ok_def)
  then show ?thesis by (metis coprime_commute coprime_iff_gcd_eq_1 coprime_mult_left_iff)
qed

text \<open>Primes, and exponents that are inverse modulo the primes less one.\<close>

lemma rsa_prime_exponent:
  assumes "is_prime p" "2 < p" "e * d mod (p - 1) = 1 mod (p - 1)"
  shows "m ^ (e * d) mod p = m mod p"
proof -
  have "0 < e * d" using assms(2,3) by (auto intro!: Nat.gr0I)
  then show ?thesis by (rule fermat_exponent [OF assms(1) _ assms(3)])
qed

lemma rsa_inverse:
  assumes "rsa_keys_ok pub prv" "x < rsa_n prv" "m < rsa_n prv"
    and "x mod rsa_p prv = m ^ (rsa_e pub * rsa_dP prv) mod rsa_p prv"
    and "x mod rsa_q prv = m ^ (rsa_e pub * rsa_dQ prv) mod rsa_q prv"
  shows "x = m"
proof -
  have ok: "rsa_private_ok prv" and e: "x mod rsa_p prv = m mod rsa_p prv" "x mod rsa_q prv = m mod rsa_q prv"
    using assms(1,4,5) by (simp_all add: rsa_keys_ok_def)
  show ?thesis by (rule crt_unique [OF rsa_coprime [OF ok] e]) (use assms(2,3) ok in \<open>simp_all add: rsa_private_ok_def\<close>)
qed

lemma rsa_n_gt_1: "rsa_private_ok k \<Longrightarrow> 1 < rsa_n k"
  using less_1_mult [of "rsa_p k" "rsa_q k"] by (simp add: rsa_private_ok_def)

text \<open>The length of a block in bytes.\<close>

definition rsa_len :: "r_rsa_private_key \<Rightarrow> nat" where "rsa_len k = (prv_bits k + 7) div 8"

lemma rsa_len_bounds:
  assumes "rsa_private_ok k"
  shows "256 ^ (rsa_len k - 1) \<le> rsa_n k" "rsa_n k < 256 ^ rsa_len k" "rsa_len k \<le> 128" "2 \<le> rsa_len k"
proof -
  let ?L = "rsa_len k" and ?b = "prv_bits k"
  have b: "12 \<le> ?b" "2 ^ (?b - 1) \<le> rsa_n k" "rsa_n k < 2 ^ ?b" "length (prv_modulus k) = 128"
    using assms by (simp_all add: rsa_private_ok_def rsa_key_sizes_def MAX_RSA_MODULUS_LEN_def)
  have L: "8 * (?L - 1) \<le> ?b - 1" "?b \<le> 8 * ?L" by (simp_all add: rsa_len_def)
  have p: "(256 :: nat) ^ n = 2 ^ (8 * n)" for n by (simp add: power_mult)
  have "(2 :: nat) ^ (8 * (?L - 1)) \<le> 2 ^ (?b - 1)" using L(1) by (intro power_increasing) simp_all
  then show "256 ^ (?L - 1) \<le> rsa_n k" unfolding p using b(2) by (rule order_trans)
  have "(2 :: nat) ^ ?b \<le> 2 ^ (8 * ?L)" using L(2) by (intro power_increasing) simp_all
  then show "rsa_n k < 256 ^ ?L" unfolding p using b(3) by (rule less_le_trans [rotated])
  have "rsa_n k < 256 ^ 128" using be_val_less [of "prv_modulus k"] b(4) by (simp add: rsa_n_def)
  then have "(2 :: nat) ^ (?b - 1) < 2 ^ 1024" using b(2) p [of 128] by simp
  then have "?b - 1 < 1024" by (rule power_less_imp_less_exp [rotated]) simp
  then show "?L \<le> 128" "2 \<le> ?L" using b(1) by (simp_all add: rsa_len_def)
qed

text \<open>A block of either format is a number below the modulus.\<close>

lemma rsa_block_less:
  assumes "rsa_private_ok k" "length (0 # b # xs) = rsa_len k" "unat b \<le> 2"
  shows "be_val (0 # b # xs) < rsa_n k"
proof -
  have "be_val (0 # b # xs) = unat b * 256 ^ length xs + be_val xs" by (simp add: be_val_Cons)
  also have "\<dots> < (unat b + 1) * 256 ^ length xs" using be_val_less [of xs] by simp
  also have "\<dots> \<le> 256 * 256 ^ length xs" using assms(3) by (intro mult_le_mono1) simp
  also have "\<dots> = 256 ^ (rsa_len k - 1)" using assms(2) by (cases "rsa_len k") simp_all
  also have "\<dots> \<le> rsa_n k" by (rule rsa_len_bounds(1) [OF assms(1)])
  finally show ?thesis .
qed

lemma be_bytes_block: "length b = n \<Longrightarrow> be_bytes n (be_val b) = b"
  using be_bytes_be_val [of b] by simp

text \<open>The scan finds the first index that stops it, or the last one.\<close>

lemma rsa_scan_eq:
  assumes "i \<le> k" "k \<le> n - 1" "\<And>j. i \<le> j \<Longrightarrow> j < k \<Longrightarrow> \<not> stop (block ! j)" "k < n - 1 \<Longrightarrow> stop (block ! k)"
  shows "rsa_scan stop block n i = k"
  using assms(1,3)
proof (induction "k - i" arbitrary: i)
  case 0
  then show ?case using assms(2,4) by (subst rsa_scan.simps) auto
next
  case (Suc d)
  then have ik: "i < k" by simp
  then have "rsa_scan stop block n i = rsa_scan stop block n (i + 1)"
    using assms(2) Suc.prems(2) by (subst rsa_scan.simps) simp
  then show ?case using Suc.hyps(1) [of "i + 1"] Suc.hyps(2) Suc.prems(2) ik by simp
qed

text \<open>Both raw operations in a row give a block back.\<close>

lemma rsa_public_private:
  assumes ok: "rsa_keys_ok pub prv" and b: "length b = rsa_len prv" "be_val b < rsa_n prv"
  shows "\<exists>out. rsapublicfunc b pub = Some (Inr out) \<and> length out = rsa_len prv \<and> rsaprivatefunc out prv = Some (Inr b)"
proof -
  have pk: "rsa_private_ok prv" "pub_modulus pub = prv_modulus prv" "length (pub_exponent pub) = MAX_RSA_MODULUS_LEN"
    "pub_bits pub = prv_bits prv" using ok by (simp_all add: rsa_keys_ok_def)
  have ml: "length (prv_modulus prv) = MAX_RSA_MODULUS_LEN" using pk(1) by (simp add: rsa_private_ok_def rsa_key_sizes_def)
  note L = rsa_len_bounds [OF pk(1)]
  have n: "rsa_n prv = be_val (pub_modulus pub)" "rsa_e pub = be_val (pub_exponent pub)" by (simp_all add: rsa_n_def rsa_e_def pk(2))
  have n1: "1 < rsa_n prv" by (rule rsa_n_gt_1 [OF pk(1)])
  let ?y = "be_val b ^ rsa_e pub mod rsa_n prv"
  define out where "out = be_bytes (rsa_len prv) ?y"
  have f: "rsapublicfunc b pub = Some (Inr out)"
    using rsapublicfunc_val [of pub b] ml pk(2-4) b L(3) n n1
    by (simp add: out_def rsa_len_def MAX_RSA_MODULUS_LEN_def)
  have y: "?y < rsa_n prv" using n1 by simp
  then have vo: "be_val out = ?y" "length out = rsa_len prv"
    using L(2) by (simp_all add: out_def be_val_be_bytes)
  obtain x where x: "rsaprivatefunc out prv = Some (Inr (be_bytes (rsa_len prv) x))" "x < rsa_n prv"
    "x mod rsa_p prv = ?y ^ rsa_dP prv mod rsa_p prv" "x mod rsa_q prv = ?y ^ rsa_dQ prv mod rsa_q prv"
    using rsaprivatefunc_val [OF pk(1), of out] vo y L(3) by (auto simp: MAX_RSA_MODULUS_LEN_def rsa_len_def)
  have red: "?y ^ d mod r = be_val b ^ (rsa_e pub * d) mod r" if "r dvd rsa_n prv" for d r
    using mod_mod_cancel [OF that, of "be_val b ^ rsa_e pub"] by (metis power_mod power_mult)
  have pq: "rsa_p prv dvd rsa_n prv" "rsa_q prv dvd rsa_n prv" using pk(1) by (simp_all add: rsa_private_ok_def)
  have "x = be_val b"
    by (rule rsa_inverse [OF ok x(2) b(2)]) (simp_all only: x(3,4) red [OF pq(1)] red [OF pq(2)])
  then show ?thesis using f x(1) vo(2) be_bytes_block [OF b(1)] by simp
qed

lemma rsa_private_public:
  assumes ok: "rsa_keys_ok pub prv" and b: "length b = rsa_len prv" "be_val b < rsa_n prv"
  shows "\<exists>out. rsaprivatefunc b prv = Some (Inr out) \<and> length out = rsa_len prv \<and> rsapublicfunc out pub = Some (Inr b)"
proof -
  have pk: "rsa_private_ok prv" "pub_modulus pub = prv_modulus prv" "length (pub_exponent pub) = MAX_RSA_MODULUS_LEN"
    "pub_bits pub = prv_bits prv" using ok by (simp_all add: rsa_keys_ok_def)
  have ml: "length (prv_modulus prv) = MAX_RSA_MODULUS_LEN" using pk(1) by (simp add: rsa_private_ok_def rsa_key_sizes_def)
  note L = rsa_len_bounds [OF pk(1)]
  have n: "rsa_n prv = be_val (pub_modulus pub)" "rsa_e pub = be_val (pub_exponent pub)" by (simp_all add: rsa_n_def rsa_e_def pk(2))
  have n1: "1 < rsa_n prv" by (rule rsa_n_gt_1 [OF pk(1)])
  obtain x where x: "rsaprivatefunc b prv = Some (Inr (be_bytes (rsa_len prv) x))" "x < rsa_n prv"
    "x mod rsa_p prv = be_val b ^ rsa_dP prv mod rsa_p prv" "x mod rsa_q prv = be_val b ^ rsa_dQ prv mod rsa_q prv"
    using rsaprivatefunc_val [OF pk(1), of b] b L(3) by (auto simp: MAX_RSA_MODULUS_LEN_def rsa_len_def)
  let ?out = "be_bytes (rsa_len prv) x"
  have vo: "be_val ?out = x" using x(2) L(2) by (simp add: be_val_be_bytes)
  have f: "rsapublicfunc ?out pub = Some (Inr (be_bytes (rsa_len prv) (x ^ rsa_e pub mod rsa_n prv)))"
    using rsapublicfunc_val [of pub ?out] ml pk(2-4) vo x(2) L(3) n n1
    by (simp add: rsa_len_def MAX_RSA_MODULUS_LEN_def)
  have pq: "rsa_p prv dvd rsa_n prv" "rsa_q prv dvd rsa_n prv" using pk(1) by (simp_all add: rsa_private_ok_def)
  have red: "(x ^ rsa_e pub mod rsa_n prv) mod r = be_val b ^ (rsa_e pub * d) mod r"
    if "r dvd rsa_n prv" "x mod r = be_val b ^ d mod r" for d r
    unfolding mod_mod_cancel [OF that(1)] using that(2) by (metis mult.commute power_mod power_mult)
  have "x ^ rsa_e pub mod rsa_n prv = be_val b"
    by (rule rsa_inverse [OF ok _ b(2)]) (use n1 in \<open>simp_all only: red [OF pq(1) x(3)] red [OF pq(2) x(4)] mod_less_divisor\<close>)
  then show ?thesis using f x(1) be_bytes_block [OF b(1)] by simp
qed

text \<open>The padding bytes are as many as asked for and none of them is zero.\<close>

lemma rsa_random_byte_nonzero:
  assumes "rsa_random_byte random = Some y"
  shows "fst y \<noteq> 0"
proof (rule rsa_random_byte.raw_induct [of "\<lambda>random y. fst y \<noteq> 0", OF _ assms])
  fix f random' y'
  assume "\<And>random y. f random = Some y \<Longrightarrow> fst y \<noteq> 0"
    and "(case R_GenerateBytes 1 random' of (status, block, random) \<Rightarrow>
          if hd block = 0 then f random else Some (hd block, random)) = Some y'"
  then show "fst y' \<noteq> 0" by (auto split: prod.splits if_splits)
qed

lemma rsa_random_pad_props:
  "rsa_random_pad n random = Some (ps, random') \<Longrightarrow> length ps = n \<and> (\<forall>b \<in> set ps. b \<noteq> 0)"
proof (induction n arbitrary: random ps)
  case (Suc n)
  then obtain b r bs where "rsa_random_byte random = Some (b, r)" "rsa_random_pad n r = Some (bs, random')" "ps = b # bs"
    by (auto simp: Option.bind_eq_Some_conv split: prod.splits)
  then show ?case using Suc.IH rsa_random_byte_nonzero by fastforce
qed auto

lemma RSAPrivateDecrypt_block:
  assumes "rsaprivatefunc out prv = Some (Inr ([0, 2] @ ps @ [0] @ input))" "length out = rsa_len prv"
    and "length input + 11 \<le> rsa_len prv" "length ps = rsa_len prv - length input - 3" "\<forall>b \<in> set ps. b \<noteq> 0"
  shows "RSAPrivateDecrypt out prv = Some (if input = [] then Inl RE_DATA else Inr input)"
proof -
  let ?b = "[0, 2] @ ps @ [0] @ input" and ?k = "2 + length ps" and ?L = "rsa_len prv"
  have k: "?k = ?L - length input - 1" "?k \<le> ?L - 1" "length ?b = ?L" using assms(3,4) by simp_all
  have sc: "rsa_scan (\<lambda>b. b = 0) ?b ?L 2 = ?k"
  proof (rule rsa_scan_eq)
    fix j assume "2 \<le> j" "j < ?k"
    then have "j = 2 + (j - 2)" "j - 2 < length ps" by simp_all
    then obtain i where "j = 2 + i" "i < length ps" by blast
    then show "\<not> ?b ! j = 0" using assms(5) by (simp add: nth_append)
  qed (use k(2) in \<open>simp_all add: nth_append\<close>)
  moreover have "?k + 1 \<ge> ?L \<longleftrightarrow> input = []" using k(1) assms(3) by (cases input) simp_all
  moreover have "?L - (?k + 1) = length input" using k(1) assms(3) by simp
  moreover have "drop (?k + 1) ?b = input" by simp
  ultimately show ?thesis
    using assms(1-3) k(3) sc unfolding RSAPrivateDecrypt_def Let_def rsa_len_def [symmetric]
    by (cases "input = []") (simp_all split del: if_split)
qed

lemma RSAPublicDecrypt_block:
  assumes "rsapublicfunc out pub = Some (Inr ([0, 1] @ replicate n 0xff @ [0] @ input))"
    and "(pub_bits pub + 7) div 8 = L" "length out = L" "length input + 11 \<le> L" "n = L - length input - 3"
  shows "RSAPublicDecrypt out pub = Some (Inr input)"
proof -
  let ?b = "[0, 1] @ replicate n 0xff @ [0] @ input" and ?k = "2 + n"
  have k: "?k = L - length input - 1" "?k \<le> L - 1" "length ?b = L" using assms(4,5) by simp_all
  have "rsa_scan (\<lambda>b. b \<noteq> 0xff) ?b L 2 = ?k"
  proof (rule rsa_scan_eq)
    fix j assume "2 \<le> j" "j < ?k"
    then have "j = 2 + (j - 2)" "j - 2 < n" by simp_all
    then obtain i where "j = 2 + i" "i < n" by blast
    then show "\<not> ?b ! j \<noteq> 0xff" by (simp add: nth_append)
  qed (use k(2) in \<open>simp_all add: nth_append\<close>)
  moreover have "L - (?k + 1) = length input" using k(1) assms(4) by simp
  moreover have "?b ! ?k = 0" "drop (?k + 1) ?b = input" by (simp_all add: nth_append)
  ultimately show ?thesis
    using assms(1,3,4) k(3) unfolding RSAPublicDecrypt_def Let_def assms(2)
    by (simp del: append_Cons append_Nil) simp
qed

section \<open>The properties\<close>

lemma RSAPublicEncrypt_ok:
  assumes ok: "rsa_keys_ok pub prv" and len: "length input + 11 \<le> rsa_len prv"
    and r: "R_GetRandomBytesNeeded random = 0"
      "rsa_random_pad (rsa_len prv - length input - 3) random = Some (ps, random')"
  shows "\<exists>out. RSAPublicEncrypt input pub random = Some (Inr out, random') \<and> length out = rsa_len prv
     \<and> RSAPrivateDecrypt out prv = Some (if input = [] then Inl RE_DATA else Inr input)"
proof -
  let ?b = "[0, 2] @ ps @ [0] @ input"
  have ps: "length ps = rsa_len prv - length input - 3" "\<forall>b \<in> set ps. b \<noteq> 0" using rsa_random_pad_props [OF r(2)] by simp_all
  have L: "(pub_bits pub + 7) div 8 = rsa_len prv" "rsa_private_ok prv" using ok by (simp_all add: rsa_keys_ok_def rsa_len_def)
  have lb: "length ?b = rsa_len prv" using ps(1) len by simp
  moreover have "be_val ?b < rsa_n prv" using rsa_block_less [OF L(2), of 2 "ps @ [0] @ input"] lb by simp
  ultimately obtain out where out: "rsapublicfunc ?b pub = Some (Inr out)" "length out = rsa_len prv"
    "rsaprivatefunc out prv = Some (Inr ?b)" using rsa_public_private [OF ok] by blast
  have "RSAPublicEncrypt input pub random = Some (Inr out, random')"
    using len r out(1) unfolding RSAPublicEncrypt_def Let_def L(1) by (simp add: numeral_3_eq_3)
  then show ?thesis using RSAPrivateDecrypt_block [OF out(3,2) len ps] out(2) by simp
qed

lemma RSAPrivateEncrypt_ok:
  assumes ok: "rsa_keys_ok pub prv" and len: "length input + 11 \<le> rsa_len prv"
  shows "\<exists>out. RSAPrivateEncrypt input prv = Some (Inr out) \<and> length out = rsa_len prv
     \<and> RSAPublicDecrypt out pub = Some (Inr input)"
proof -
  let ?n = "rsa_len prv - length input - 3"
  let ?b = "[0, 1] @ replicate ?n 0xff @ [0] @ input"
  have L: "(pub_bits pub + 7) div 8 = rsa_len prv" "rsa_private_ok prv" using ok by (simp_all add: rsa_keys_ok_def rsa_len_def)
  have lb: "length ?b = rsa_len prv" using len by simp
  moreover have "be_val ?b < rsa_n prv" using rsa_block_less [OF L(2), of 1 "replicate ?n 0xff @ [0] @ input"] lb by simp
  ultimately obtain out where out: "rsaprivatefunc ?b prv = Some (Inr out)" "length out = rsa_len prv"
    "rsapublicfunc out pub = Some (Inr ?b)" using rsa_private_public [OF ok] by blast
  have "RSAPrivateEncrypt input prv = Some (Inr out)"
    using len out(1) unfolding RSAPrivateEncrypt_def Let_def rsa_len_def [symmetric] by (simp add: numeral_3_eq_3)
  then show ?thesis using RSAPublicDecrypt_block [OF out(3) L(1) out(2) len refl] out(2) by simp
qed

text \<open>
  C16. What \<^verbatim>\<open>RSAPublicEncrypt\<close> encrypts, \<^verbatim>\<open>RSAPrivateDecrypt\<close> gives back: for every pair of keys and
  every block that is not empty and at least eleven bytes shorter than the modulus, once the generator has supplied the
  padding, encryption succeeds with as many bytes as the modulus has and decryption of them returns
  the block.
\<close>

theorem RSA_encrypt_decrypt:
  assumes "rsa_keys_ok pub prv" "length input + 11 \<le> rsa_len prv" "input \<noteq> []"
    and "R_GetRandomBytesNeeded random = 0"
    and "rsa_random_pad (rsa_len prv - length input - 3) random = Some (ps, random')"
  shows "\<exists>out. RSAPublicEncrypt input pub random = Some (Inr out, random') \<and> length out = rsa_len prv
     \<and> RSAPrivateDecrypt out prv = Some (Inr input)"
  using RSAPublicEncrypt_ok [OF assms(1,2,4,5)] assms(3) by auto

text \<open>
  An empty block is encrypted like any other, but decryption refuses the result: its scan for the
  zero byte stops one byte before the end of the block, where the zero byte is.
\<close>

theorem RSA_empty_block:
  assumes "rsa_keys_ok pub prv" "11 \<le> rsa_len prv" "R_GetRandomBytesNeeded random = 0"
    and "rsa_random_pad (rsa_len prv - 3) random = Some (ps, random')"
  shows "\<exists>out. RSAPublicEncrypt [] pub random = Some (Inr out, random')
     \<and> RSAPrivateDecrypt out prv = Some (Inl RE_DATA)"
  using RSAPublicEncrypt_ok [OF assms(1) _ assms(3), of "[]" ps random'] assms(2,4) by auto

text \<open>
  A block encrypted under the private key, as a signature is, is given back under the public key,
  the empty block included; no random bytes are used.
\<close>

theorem RSA_sign_verify:
  assumes "rsa_keys_ok pub prv" "length input + 11 \<le> rsa_len prv"
  shows "\<exists>out. RSAPrivateEncrypt input prv = Some (Inr out) \<and> length out = rsa_len prv
     \<and> RSAPublicDecrypt out pub = Some (Inr input)"
  using assms by (rule RSAPrivateEncrypt_ok)

end
