(* ===== verification/RSA_Example.thy ===== *)
theory RSA_Example
  imports RSA
begin

text \<open>
  A pair of keys with a modulus of 96 bits, small enough for its primes to be certified by the kernel
  and large enough for the block formats. It shows that the hypotheses of the RSA properties can be met.
\<close>

section \<open>Two primes\<close>

function powmod :: "int \<Rightarrow> int \<Rightarrow> int \<Rightarrow> int" where
  "powmod a n N = (if n \<le> 0 then 1 mod N
     else if n mod 2 = 0 then powmod (a * a mod N) (n div 2) N
     else a * powmod (a * a mod N) (n div 2) N mod N)"
  by pat_completeness auto
termination by (relation "measure (\<lambda>(a, n, N). nat n)") auto

declare powmod.simps [simp del]

lemma powmod_eq: "powmod a n N = a ^ nat n mod N"
proof (induction a n N rule: powmod.induct)
  case (1 a n N)
  have sq: "(a * a mod N) ^ k mod N = a ^ (2 * k) mod N" for k
    by (simp add: power_mod power_mult power2_eq_square)
  show ?case
  proof (cases "n \<le> 0")
    case True
    then show ?thesis by (subst powmod.simps) simp
  next
    case pos: False
    show ?thesis
    proof (cases "n mod 2 = 0")
      case True
      then have "2 * (n div 2) = n" using mult_div_mod_eq [of 2 n] by linarith
      then have "2 * nat (n div 2) = nat n" using pos nat_mult_distrib [of 2 "n div 2"] by simp
      then show ?thesis using True pos 1(1) [OF pos True] sq by (subst powmod.simps) simp
    next
      case False
      then have "n mod 2 = 1" by (simp add: mod_2_eq_odd split: if_splits)
      then have "n = 2 * (n div 2) + 1" using mult_div_mod_eq [of 2 n] by linarith
      then have n: "nat n = Suc (2 * nat (n div 2))" using pos by linarith
      have "a * (a ^ (2 * nat (n div 2)) mod N) mod N = a ^ Suc (2 * nat (n div 2)) mod N"
        by (simp add: mod_mult_right_eq)
      then show ?thesis using 1(2) [OF pos False] sq False pos n by (subst powmod.simps) simp
    qed
  qed
qed

lemma powmod_nat: "powmod (int a) (int n) (int N) = int (a ^ n mod N)"
  by (simp add: powmod_eq of_nat_mod)

lemma pocklington_cert:
  assumes "is_prime q" "1 < N" "N - 1 = q * m" "N < (q + 1) * (q + 1)"
    "powmod (int a) (int m) (int N) = int v" "powmod (int v) (int q) (int N) = 1" "gcd (v + N - 1) N = 1"
  shows "is_prime N"
proof (rule pocklington [of N q m a])
  have v: "a ^ m mod N = v" using assms(5) unfolding powmod_nat by simp
  have "(a ^ m mod N) ^ q mod N = 1" using assms(6) unfolding v powmod_nat by simp
  then show "a ^ (N - 1) mod N = 1" unfolding assms(3) by (simp add: power_mod power_mult mult.commute)
  show "coprime (a ^ m mod N + N - 1) N" using assms(7) by (simp add: v coprime_iff_gcd_eq_1)
qed (use assms in simp_all)

lemma prime_97: "is_prime 97" by (rule is_prime_trial) (simp_all add: upt_rec)

lemma prime_89: "is_prime 89" by (rule is_prime_trial) (simp_all add: upt_rec)

lemma prime_6791: "is_prime 6791"
proof (rule pocklington_cert [OF prime_97, of 6791 70 2 6094])
  have "powmod 2 70 6791 = 6094" by code_simp
  then show "powmod (int 2) (int 70) (int 6791) = int 6094" by simp
  have "powmod 6094 97 6791 = 1" by code_simp
  then show "powmod (int 6094) (int 97) (int 6791) = 1" by simp
qed (simp_all add: gcd_non_0_nat)

lemma prime_38179003: "is_prime 38179003"
proof (rule pocklington_cert [OF prime_6791, of 38179003 5622 2 11501505])
  have "powmod 2 5622 38179003 = 11501505" by code_simp
  then show "powmod (int 2) (int 5622) (int 38179003) = int 11501505" by simp
  have "powmod 11501505 6791 38179003 = 1" by code_simp
  then show "powmod (int 11501505) (int 6791) (int 38179003) = 1" by simp
qed (simp_all add: gcd_non_0_nat)

lemma prime_211248317857307: "is_prime 211248317857307"
proof (rule pocklington_cert [OF prime_38179003, of 211248317857307 5533102 2 151603650850978])
  have "powmod 2 5533102 211248317857307 = 151603650850978" by code_simp
  then show "powmod (int 2) (int 5533102) (int 211248317857307) = int 151603650850978" by simp
  have "powmod 151603650850978 38179003 211248317857307 = 1" by code_simp
  then show "powmod (int 151603650850978) (int 38179003) (int 211248317857307) = 1" by simp
qed (simp_all add: gcd_non_0_nat)

lemma prime_5519: "is_prime 5519"
proof (rule pocklington_cert [OF prime_89, of 5519 62 2 2835])
  have "powmod 2 62 5519 = 2835" by code_simp
  then show "powmod (int 2) (int 62) (int 5519) = int 2835" by simp
  have "powmod 2835 89 5519 = 1" by code_simp
  then show "powmod (int 2835) (int 89) (int 5519) = 1" by simp
qed (simp_all add: gcd_non_0_nat)

lemma prime_25906187: "is_prime 25906187"
proof (rule pocklington_cert [OF prime_5519, of 25906187 4694 2 5572928])
  have "powmod 2 4694 25906187 = 5572928" by code_simp
  then show "powmod (int 2) (int 4694) (int 25906187) = int 5572928" by simp
  have "powmod 5572928 5519 25906187 = 1" by code_simp
  then show "powmod (int 5572928) (int 5519) (int 25906187) = 1" by simp
qed (simp_all add: gcd_non_0_nat)

lemma prime_202006083751201: "is_prime 202006083751201"
proof (rule pocklington_cert [OF prime_25906187, of 202006083751201 7797600 2 65413486175564])
  have "powmod 2 7797600 202006083751201 = 65413486175564" by code_simp
  then show "powmod (int 2) (int 7797600) (int 202006083751201) = int 65413486175564" by simp
  have "powmod 65413486175564 25906187 202006083751201 = 1" by code_simp
  then show "powmod (int 65413486175564) (int 25906187) (int 202006083751201) = 1" by simp
qed (simp_all add: gcd_non_0_nat)

section \<open>The keys\<close>

definition example_private :: r_rsa_private_key where
  "example_private = \<lparr>prv_bits = 96,
     prv_modulus = be_bytes 128 42673445389383487621207875707, prv_publicExponent = be_bytes 128 65537, prv_exponent = be_bytes 128 0,
     prv_prime0 = be_bytes 64 211248317857307, prv_prime1 = be_bytes 64 202006083751201,
     prv_primeExponent0 = be_bytes 64 24046148758953, prv_primeExponent1 = be_bytes 64 157407978470273,
     prv_coefficient = be_bytes 64 191003223362569\<rparr>"

definition example_public :: r_rsa_public_key where
  "example_public = \<lparr>pub_bits = 96, pub_modulus = be_bytes 128 42673445389383487621207875707, pub_exponent = be_bytes 128 65537\<rparr>"

lemma example_values:
  "rsa_n example_private = 42673445389383487621207875707" "rsa_p example_private = 211248317857307" "rsa_q example_private = 202006083751201"
  "rsa_dP example_private = 24046148758953" "rsa_dQ example_private = 157407978470273" "rsa_qInv example_private = 191003223362569"
  "rsa_e example_public = 65537" "prv_bits example_private = 96" "rsa_len example_private = 12"
  by (simp_all add: rsa_n_def rsa_p_def rsa_q_def rsa_dP_def rsa_dQ_def rsa_qInv_def rsa_e_def rsa_len_def
      example_private_def example_public_def be_val_be_bytes)

lemma example_keys_ok: "rsa_keys_ok example_public example_private"
proof -
  have "rsa_key_sizes example_private"
    by (simp add: rsa_key_sizes_def example_private_def rsa_lens)
  then have "rsa_private_ok example_private"
    by (simp add: rsa_private_ok_def example_values)
  moreover have "m ^ (65537 * 24046148758953) mod 211248317857307 = m mod 211248317857307"
    "m ^ (65537 * 157407978470273) mod 202006083751201 = m mod 202006083751201" for m :: nat
    by (rule rsa_prime_exponent [OF prime_211248317857307]; simp) (rule rsa_prime_exponent [OF prime_202006083751201]; simp)
  ultimately show ?thesis unfolding rsa_keys_ok_def example_values
    by (simp add: example_public_def example_private_def rsa_lens)
qed

text \<open>A seeded generator with a block of output at hand.\<close>

definition example_random :: "nat \<Rightarrow> r_random_struct" where
  "example_random n = \<lparr>bytesNeeded = 0, rnd_state = replicate 16 0, outputAvailable = n,
     rnd_output = [1, 2, 3, 4, 5, 6, 7, 8, 9, 10, 11, 12, 13, 14, 15, 16]\<rparr>"

lemma example_random_byte:
  "0 < n \<Longrightarrow> n \<le> 16 \<Longrightarrow> rsa_random_byte (example_random n) = Some (of_nat (17 - n), example_random (n - 1))"
proof -
  assume n: "0 < n" "n \<le> 16"
  have "take 1 (drop (16 - n) (rnd_output (example_random n))) = [of_nat (17 - n)]"
    using n by (auto simp: example_random_def le_Suc_eq numeral_eq_Suc)
  then have "R_GenerateBytes 1 (example_random n) = (ID_OK, [of_nat (17 - n)], example_random (n - 1))"
    using n by (simp add: R_GenerateBytes_def rnd_loop.simps) (simp add: example_random_def)
  moreover have "of_nat (17 - n) \<noteq> (0 :: byte)"
  proof -
    have "unat (of_nat (17 - n) :: byte) = 17 - n"
      using n by (simp add: unat_of_nat take_bit_nat_eq_self del: of_nat_diff)
    moreover have "17 - n \<noteq> 0" using n by simp
    ultimately show ?thesis by (metis unat_0)
  qed
  ultimately show ?thesis by (subst rsa_random_byte.simps) simp
qed

lemma example_random_needed: "R_GetRandomBytesNeeded (example_random n) = 0"
  by (simp add: R_GetRandomBytesNeeded_def example_random_def)

lemma example_random_pad:
  "rsa_random_pad 8 (example_random 16) = Some ([1, 2, 3, 4, 5, 6, 7, 8], example_random 8)"
  "rsa_random_pad 9 (example_random 16) = Some ([1, 2, 3, 4, 5, 6, 7, 8, 9], example_random 7)"
  by (simp_all add: numeral_eq_Suc example_random_byte)

section \<open>The hypotheses of the RSA properties hold\<close>

theorem RSA_encrypt_decrypt_witness:
  "\<exists>out. RSAPublicEncrypt [42] example_public (example_random 16) = Some (Inr out, example_random 8)
     \<and> length out = 12 \<and> RSAPrivateDecrypt out example_private = Some (Inr [42])"
  using RSA_encrypt_decrypt [OF example_keys_ok, of "[42]" "example_random 16" "[1, 2, 3, 4, 5, 6, 7, 8]" "example_random 8"]
  by (simp add: example_values example_random_pad example_random_needed)

theorem RSA_empty_block_witness:
  "\<exists>out. RSAPublicEncrypt [] example_public (example_random 16) = Some (Inr out, example_random 7)
     \<and> RSAPrivateDecrypt out example_private = Some (Inl RE_DATA)"
  using RSA_empty_block [OF example_keys_ok, of "example_random 16" "[1, 2, 3, 4, 5, 6, 7, 8, 9]" "example_random 7"]
  by (simp add: example_values example_random_pad example_random_needed)

theorem RSA_sign_verify_witness:
  "\<exists>out. RSAPrivateEncrypt [7] example_private = Some (Inr out) \<and> length out = 12
     \<and> RSAPublicDecrypt out example_public = Some (Inr [7])"
  using RSA_sign_verify [OF example_keys_ok, of "[7]"] by (simp add: example_values)

end
