(* ===== verification/R_Prime.thy ===== *)
theory R_Prime
  imports RSA
begin

text \<open>
  \<^verbatim>\<open>QBase/RSAEuro/prime.c\<close>: the search for a probable prime of a given residue in an interval, and the
  test it uses, division by the odd primes below 8192 followed by Fermat's test to the base two.
\<close>

section \<open>The test\<close>

text \<open>The table without the zero that ends it.\<close>

definition SMALL_PRIMES :: "nn_digit list" where
  "SMALL_PRIMES =
     [3, 5, 7, 11, 13, 17, 19, 23, 29, 31, 37, 41, 43, 47, 53, 59,
      61, 67, 71, 73, 79, 83, 89, 97, 101, 103, 107, 109, 113, 127, 131, 137,
      139, 149, 151, 157, 163, 167, 173, 179, 181, 191, 193, 197, 199, 211, 223, 227,
      229, 233, 239, 241, 251, 257, 263, 269, 271, 277, 281, 283, 293, 307, 311, 313,
      317, 331, 337, 347, 349, 353, 359, 367, 373, 379, 383, 389, 397, 401, 409, 419,
      421, 431, 433, 439, 443, 449, 457, 461, 463, 467, 479, 487, 491, 499, 503, 509,
      521, 523, 541, 547, 557, 563, 569, 571, 577, 587, 593, 599, 601, 607, 613, 617,
      619, 631, 641, 643, 647, 653, 659, 661, 673, 677, 683, 691, 701, 709, 719, 727,
      733, 739, 743, 751, 757, 761, 769, 773, 787, 797, 809, 811, 821, 823, 827, 829,
      839, 853, 857, 859, 863, 877, 881, 883, 887, 907, 911, 919, 929, 937, 941, 947,
      953, 967, 971, 977, 983, 991, 997, 1009, 1013, 1019, 1021, 1031, 1033, 1039, 1049, 1051,
      1061, 1063, 1069, 1087, 1091, 1093, 1097, 1103, 1109, 1117, 1123, 1129, 1151, 1153, 1163, 1171,
      1181, 1187, 1193, 1201, 1213, 1217, 1223, 1229, 1231, 1237, 1249, 1259, 1277, 1279, 1283, 1289,
      1291, 1297, 1301, 1303, 1307, 1319, 1321, 1327, 1361, 1367, 1373, 1381, 1399, 1409, 1423, 1427,
      1429, 1433, 1439, 1447, 1451, 1453, 1459, 1471, 1481, 1483, 1487, 1489, 1493, 1499, 1511, 1523,
      1531, 1543, 1549, 1553, 1559, 1567, 1571, 1579, 1583, 1597, 1601, 1607, 1609, 1613, 1619, 1621,
      1627, 1637, 1657, 1663, 1667, 1669, 1693, 1697, 1699, 1709, 1721, 1723, 1733, 1741, 1747, 1753,
      1759, 1777, 1783, 1787, 1789, 1801, 1811, 1823, 1831, 1847, 1861, 1867, 1871, 1873, 1877, 1879,
      1889, 1901, 1907, 1913, 1931, 1933, 1949, 1951, 1973, 1979, 1987, 1993, 1997, 1999, 2003, 2011,
      2017, 2027, 2029, 2039, 2053, 2063, 2069, 2081, 2083, 2087, 2089, 2099, 2111, 2113, 2129, 2131,
      2137, 2141, 2143, 2153, 2161, 2179, 2203, 2207, 2213, 2221, 2237, 2239, 2243, 2251, 2267, 2269,
      2273, 2281, 2287, 2293, 2297, 2309, 2311, 2333, 2339, 2341, 2347, 2351, 2357, 2371, 2377, 2381,
      2383, 2389, 2393, 2399, 2411, 2417, 2423, 2437, 2441, 2447, 2459, 2467, 2473, 2477, 2503, 2521,
      2531, 2539, 2543, 2549, 2551, 2557, 2579, 2591, 2593, 2609, 2617, 2621, 2633, 2647, 2657, 2659,
      2663, 2671, 2677, 2683, 2687, 2689, 2693, 2699, 2707, 2711, 2713, 2719, 2729, 2731, 2741, 2749,
      2753, 2767, 2777, 2789, 2791, 2797, 2801, 2803, 2819, 2833, 2837, 2843, 2851, 2857, 2861, 2879,
      2887, 2897, 2903, 2909, 2917, 2927, 2939, 2953, 2957, 2963, 2969, 2971, 2999, 3001, 3011, 3019,
      3023, 3037, 3041, 3049, 3061, 3067, 3079, 3083, 3089, 3109, 3119, 3121, 3137, 3163, 3167, 3169,
      3181, 3187, 3191, 3203, 3209, 3217, 3221, 3229, 3251, 3253, 3257, 3259, 3271, 3299, 3301, 3307,
      3313, 3319, 3323, 3329, 3331, 3343, 3347, 3359, 3361, 3371, 3373, 3389, 3391, 3407, 3413, 3433,
      3449, 3457, 3461, 3463, 3467, 3469, 3491, 3499, 3511, 3517, 3527, 3529, 3533, 3539, 3541, 3547,
      3557, 3559, 3571, 3581, 3583, 3593, 3607, 3613, 3617, 3623, 3631, 3637, 3643, 3659, 3671, 3673,
      3677, 3691, 3697, 3701, 3709, 3719, 3727, 3733, 3739, 3761, 3767, 3769, 3779, 3793, 3797, 3803,
      3821, 3823, 3833, 3847, 3851, 3853, 3863, 3877, 3881, 3889, 3907, 3911, 3917, 3919, 3923, 3929,
      3931, 3943, 3947, 3967, 3989, 4001, 4003, 4007, 4013, 4019, 4021, 4027, 4049, 4051, 4057, 4073,
      4079, 4091, 4093, 4099, 4111, 4127, 4129, 4133, 4139, 4153, 4157, 4159, 4177, 4201, 4211, 4217,
      4219, 4229, 4231, 4241, 4243, 4253, 4259, 4261, 4271, 4273, 4283, 4289, 4297, 4327, 4337, 4339,
      4349, 4357, 4363, 4373, 4391, 4397, 4409, 4421, 4423, 4441, 4447, 4451, 4457, 4463, 4481, 4483,
      4493, 4507, 4513, 4517, 4519, 4523, 4547, 4549, 4561, 4567, 4583, 4591, 4597, 4603, 4621, 4637,
      4639, 4643, 4649, 4651, 4657, 4663, 4673, 4679, 4691, 4703, 4721, 4723, 4729, 4733, 4751, 4759,
      4783, 4787, 4789, 4793, 4799, 4801, 4813, 4817, 4831, 4861, 4871, 4877, 4889, 4903, 4909, 4919,
      4931, 4933, 4937, 4943, 4951, 4957, 4967, 4969, 4973, 4987, 4993, 4999, 5003, 5009, 5011, 5021,
      5023, 5039, 5051, 5059, 5077, 5081, 5087, 5099, 5101, 5107, 5113, 5119, 5147, 5153, 5167, 5171,
      5179, 5189, 5197, 5209, 5227, 5231, 5233, 5237, 5261, 5273, 5279, 5281, 5297, 5303, 5309, 5323,
      5333, 5347, 5351, 5381, 5387, 5393, 5399, 5407, 5413, 5417, 5419, 5431, 5437, 5441, 5443, 5449,
      5471, 5477, 5479, 5483, 5501, 5503, 5507, 5519, 5521, 5527, 5531, 5557, 5563, 5569, 5573, 5581,
      5591, 5623, 5639, 5641, 5647, 5651, 5653, 5657, 5659, 5669, 5683, 5689, 5693, 5701, 5711, 5717,
      5737, 5741, 5743, 5749, 5779, 5783, 5791, 5801, 5807, 5813, 5821, 5827, 5839, 5843, 5849, 5851,
      5857, 5861, 5867, 5869, 5879, 5881, 5897, 5903, 5923, 5927, 5939, 5953, 5981, 5987, 6007, 6011,
      6029, 6037, 6043, 6047, 6053, 6067, 6073, 6079, 6089, 6091, 6101, 6113, 6121, 6131, 6133, 6143,
      6151, 6163, 6173, 6197, 6199, 6203, 6211, 6217, 6221, 6229, 6247, 6257, 6263, 6269, 6271, 6277,
      6287, 6299, 6301, 6311, 6317, 6323, 6329, 6337, 6343, 6353, 6359, 6361, 6367, 6373, 6379, 6389,
      6397, 6421, 6427, 6449, 6451, 6469, 6473, 6481, 6491, 6521, 6529, 6547, 6551, 6553, 6563, 6569,
      6571, 6577, 6581, 6599, 6607, 6619, 6637, 6653, 6659, 6661, 6673, 6679, 6689, 6691, 6701, 6703,
      6709, 6719, 6733, 6737, 6761, 6763, 6779, 6781, 6791, 6793, 6803, 6823, 6827, 6829, 6833, 6841,
      6857, 6863, 6869, 6871, 6883, 6899, 6907, 6911, 6917, 6947, 6949, 6959, 6961, 6967, 6971, 6977,
      6983, 6991, 6997, 7001, 7013, 7019, 7027, 7039, 7043, 7057, 7069, 7079, 7103, 7109, 7121, 7127,
      7129, 7151, 7159, 7177, 7187, 7193, 7207, 7211, 7213, 7219, 7229, 7237, 7243, 7247, 7253, 7283,
      7297, 7307, 7309, 7321, 7331, 7333, 7349, 7351, 7369, 7393, 7411, 7417, 7433, 7451, 7457, 7459,
      7477, 7481, 7487, 7489, 7499, 7507, 7517, 7523, 7529, 7537, 7541, 7547, 7549, 7559, 7561, 7573,
      7577, 7583, 7589, 7591, 7603, 7607, 7621, 7639, 7643, 7649, 7669, 7673, 7681, 7687, 7691, 7699,
      7703, 7717, 7723, 7727, 7741, 7753, 7757, 7759, 7789, 7793, 7817, 7823, 7829, 7841, 7853, 7867,
      7873, 7877, 7879, 7883, 7901, 7907, 7919, 7927, 7933, 7937, 7949, 7951, 7963, 7993, 8009, 8011,
      8017, 8039, 8053, 8059, 8069, 8081, 8087, 8089, 8093, 8101, 8111, 8117, 8123, 8147, 8161, 8167,
      8171, 8179, 8191]"

text \<open>
  The loop over the table: whether no small prime divides \<open>a\<close>. It leaves the loop, satisfied, at the
  first small prime that \<open>a\<close> is equal to; the comparison is made for numbers of one digit only.
\<close>

fun prime_trial :: "nn_digit list \<Rightarrow> nn_digit list \<Rightarrow> bool option" where
  "prime_trial a [] = Some True"
| "prime_trial a (s # ss) =
     (if length a = 1 \<and> NN_Cmp a [s] 1 = 0 then Some True
      else do { t \<leftarrow> NN_Mod [s] a [s];
                if NN_Zero (take 1 t) then Some False else prime_trial a ss })"

definition probableprime :: "nn_digit list \<Rightarrow> bool option" where
  "probableprime a =
     do { status \<leftarrow> prime_trial a SMALL_PRIMES;
          if status
          then (let t = NN_ASSIGN_DIGIT 2 (length a)
                in do { u \<leftarrow> NN_ModExp t a a; Some (NN_Cmp t u (length a) = 0) })
          else Some False }"

section \<open>The search\<close>

partial_function (option) prime_search ::
  "nn_digit list \<Rightarrow> nn_digit list \<Rightarrow> nn_digit list \<Rightarrow> (int + nn_digit list) option" where
  "prime_search t d a =
     do { status \<leftarrow> probableprime a;
          if status then Some (Inr a)
          else if NN_Cmp a t (length a) > 0 then Some (Inl RE_DATA)
          else prime_search t d (fst (NN_Add a d)) }"

text \<open>The number the search starts from, for the random number \<open>a\<close>.\<close>

definition prime_start ::
  "nn_digit list \<Rightarrow> nn_digit list \<Rightarrow> nn_digit list \<Rightarrow> nn_digit list \<Rightarrow> nn_digit list option" where
  "prime_start b c d a =
     (let digits = length b;
          t = fst (NN_Sub c b);
          u = NN_ASSIGN_DIGIT 1 digits;
          t = fst (NN_Add t u)
      in do { a \<leftarrow> NN_Mod a a t;
              let a = fst (NN_Add a b);
              t \<leftarrow> NN_Mod t a d;
              let a = fst (NN_Sub a t);
              let a = fst (NN_Add a u);
              let a = (if NN_Cmp a b digits < 0 then fst (NN_Add a d) else a);
              Some (if NN_Cmp a c digits > 0 then fst (NN_Sub a d) else a) })"

definition GeneratePrime ::
  "nn_digit list \<Rightarrow> nn_digit list \<Rightarrow> nn_digit list \<Rightarrow> r_random_struct
     \<Rightarrow> ((int + nn_digit list) \<times> r_random_struct) option" where
  "GeneratePrime b c d randomStruct =
     (let digits = length b
      in case R_GenerateBytes (digits * 4) randomStruct of
           (status, block, randomStruct) \<Rightarrow>
             if status \<noteq> 0 then Some (Inl status, randomStruct)
             else do { a \<leftarrow> prime_start b c d (NN_Decode digits block);
                       let t = fst (NN_Sub (NN_Assign c digits) d);
                       r \<leftarrow> prime_search t d a;
                       Some (r, randomStruct) })"

section \<open>Correctness of the test\<close>

lemma SMALL_PRIMES_range: "s \<in> set SMALL_PRIMES \<Longrightarrow> 1 < unat s \<and> unat s < 8192"
proof -
  have "list_all (\<lambda>s. 1 < s \<and> s < 8192) SMALL_PRIMES" unfolding SMALL_PRIMES_def by simp
  then show "s \<in> set SMALL_PRIMES \<Longrightarrow> 1 < unat s \<and> unat s < 8192"
    by (auto simp: list_all_iff word_less_nat_alt)
qed

lemma NN_Cmp_full:
  assumes "length a = n" "length b = n"
  shows "NN_Cmp a b n < 0 \<longleftrightarrow> nn_val a < nn_val b" "NN_Cmp a b n > 0 \<longleftrightarrow> nn_val b < nn_val a" "NN_Cmp a b n = 0 \<longleftrightarrow> nn_val a = nn_val b"
  using assms by (simp_all add: NN_Cmp_def nn_cmp_val)

lemma nn_val_update_zeros:
  "i < n \<Longrightarrow> nn_val ((replicate n 0)[i := x]) = NN_B ^ i * unat x"
proof -
  assume "i < n"
  then have "(replicate n 0)[i := x] = replicate i 0 @ x # replicate (n - i - 1) 0"
    by (simp add: upd_conv_take_nth_drop min_def)
  then show ?thesis by (simp add: nn_val_append)
qed

lemma NN_Assign2Exp_val:
  assumes "b < 32 * digits"
  shows "nn_val (NN_Assign2Exp b digits) = 2 ^ b" "length (NN_Assign2Exp b digits) = digits"
proof -
  have i: "b div 32 < digits" using assms by (simp add: less_mult_imp_div_less mult.commute)
  have "unat (push_bit (b mod 32) (1 :: nn_digit)) = 2 ^ (b mod 32)"
    using unat_push_bit_u32 [of "b mod 32" 1] power_strict_increasing [of "b mod 32" 32 "2 :: nat"] by (simp del: push_bit_of_1)
  then have "nn_val ((replicate digits 0)[b div 32 := push_bit (b mod 32) 1]) = 2 ^ (32 * (b div 32)) * 2 ^ (b mod 32)"
    using nn_val_update_zeros [OF i] by (simp add: power_mult)
  then show "nn_val (NN_Assign2Exp b digits) = 2 ^ b"
    using assms by (simp add: NN_Assign2Exp_def NN_AssignZero_def power_add [symmetric])
  show "length (NN_Assign2Exp b digits) = digits" by (simp add: NN_Assign2Exp_def NN_AssignZero_def)
qed

text \<open>What the test decides: no table prime divides the number, unless it is one, and it passes Fermat's test.\<close>

lemma prime_trial_val:
  assumes "\<forall>s \<in> set ss. 0 < unat s"
  shows "prime_trial a ss = Some (\<exists>k \<le> length ss. (\<forall>s \<in> set (take k ss). \<not> unat s dvd nn_val a)
     \<and> (k = length ss \<or> length a = 1 \<and> nn_val a = unat (ss ! k)))"
  using assms
proof (induction ss)
  case (Cons s ss)
  obtain t where t: "NN_Mod [s] a [s] = Some t" "length t = 1" "nn_val t = nn_val a mod unat s"
    using NN_Mod_val [of "[s]" "[s]" a] Cons.prems by auto
  have z: "NN_Zero (take 1 t) \<longleftrightarrow> unat s dvd nn_val a" using t by (simp add: NN_Zero_val dvd_eq_mod_eq_0)
  let ?Q = "\<lambda>ss k. (\<forall>s \<in> set (take k ss). \<not> unat s dvd nn_val a) \<and> (k = length ss \<or> length a = 1 \<and> nn_val a = unat (ss ! k))"
  have step: "(\<exists>k \<le> length (s # ss). ?Q (s # ss) k) \<longleftrightarrow>
      length a = 1 \<and> nn_val a = unat s \<or> \<not> unat s dvd nn_val a \<and> (\<exists>k \<le> length ss. ?Q ss k)" (is "?l \<longleftrightarrow> ?r")
  proof
    assume ?l
    then obtain k where k: "k \<le> length (s # ss)" "?Q (s # ss) k" by blast
    then show ?r by (cases k) auto
  next
    assume ?r
    then consider "length a = 1" "nn_val a = unat s" | k where "\<not> unat s dvd nn_val a" "k \<le> length ss" "?Q ss k" by blast
    then show ?l
    proof cases
      case 1
      then show ?thesis by (intro exI [of _ 0]) simp
    next
      case 2
      then show ?thesis by (intro exI [of _ "Suc k"]) simp
    qed
  qed
  have c: "length a = 1 \<and> NN_Cmp a [s] 1 = 0 \<longleftrightarrow> length a = 1 \<and> nn_val a = unat s"
    using NN_Cmp_full(3) [of a 1 "[s]"] by auto
  show ?case unfolding step using Cons t(1) z c by auto
qed auto

lemma probableprime_val:
  assumes "1 < nn_val a"
  shows "probableprime a = Some ((\<exists>k \<le> length SMALL_PRIMES.
       (\<forall>s \<in> set (take k SMALL_PRIMES). \<not> unat s dvd nn_val a)
       \<and> (k = length SMALL_PRIMES \<or> length a = 1 \<and> nn_val a = unat (SMALL_PRIMES ! k)))
     \<and> 2 ^ nn_val a mod nn_val a = 2)"
proof -
  have n0: "0 < length a" using assms by (cases a) auto
  note t = nn_val_ASSIGN_DIGIT [OF n0, of 2]
  obtain u where u: "NN_ModExp (NN_ASSIGN_DIGIT 2 (length a)) a a = Some u" "length u = length a"
    "nn_val u = 2 ^ nn_val a mod nn_val a" using NN_ModExp_val [OF assms, of "NN_ASSIGN_DIGIT 2 (length a)" a] t by auto
  have "NN_Cmp (NN_ASSIGN_DIGIT 2 (length a)) u (length a) = 0 \<longleftrightarrow> 2 ^ nn_val a mod nn_val a = 2"
    using NN_Cmp_full(3) [of "NN_ASSIGN_DIGIT 2 (length a)" "length a" u] t u(2,3) by auto
  moreover have "\<forall>s \<in> set SMALL_PRIMES. 0 < unat s" using SMALL_PRIMES_range by fastforce
  ultimately show ?thesis unfolding probableprime_def using prime_trial_val [of SMALL_PRIMES a] u(1) by simp
qed
text \<open>The first position of a list where a value stands, or its end.\<close>

lemma first_index:
  "\<exists>k \<le> length xs. (\<forall>x \<in> set (take k xs). f x \<noteq> v) \<and> (k = length xs \<or> v = f (xs ! k))"
proof (induction xs)
  case (Cons x xs)
  then obtain k where k: "k \<le> length xs" "\<forall>x \<in> set (take k xs). f x \<noteq> v" "k = length xs \<or> v = f (xs ! k)" by blast
  show ?case
  proof (cases "f x = v")
    case True
    then show ?thesis by (intro exI [of _ 0]) simp
  next
    case False
    then show ?thesis using k by (intro exI [of _ "Suc k"]) simp
  qed
qed simp


text \<open>
  Every odd prime passes the test, provided it is not a prime of the table stored in more than one
  digit (the source compares with the table only when the number has one digit).
\<close>

theorem probableprime_complete:
  assumes "is_prime (nn_val a)" "2 < nn_val a" "length a = 1 \<or> 8191 < nn_val a"
  shows "probableprime a = Some True"
proof -
  let ?P = "nn_val a" and ?S = SMALL_PRIMES
  have div: "unat s = ?P" if "s \<in> set ?S" "unat s dvd ?P" for s
    using is_primeD(2) [OF assms(1) that(2)] SMALL_PRIMES_range [OF that(1)] by auto
  have "\<exists>k \<le> length ?S. (\<forall>s \<in> set (take k ?S). unat s \<noteq> ?P) \<and> (k = length ?S \<or> ?P = unat (?S ! k))"
    by (rule first_index)
  then obtain k where k: "k \<le> length ?S" "\<forall>s \<in> set (take k ?S). unat s \<noteq> ?P" "k = length ?S \<or> ?P = unat (?S ! k)"
    by blast
  have "\<not> 8191 < ?P" if "k \<noteq> length ?S" using SMALL_PRIMES_range [of "?S ! k"] k(1,3) that by simp
  then have "k = length ?S \<or> length a = 1 \<and> ?P = unat (?S ! k)" using assms(3) k(3) by blast
  moreover have "\<forall>s \<in> set (take k ?S). \<not> unat s dvd ?P" using k(2) div in_set_takeD by metis
  ultimately have "\<exists>k \<le> length ?S. (\<forall>s \<in> set (take k ?S). \<not> unat s dvd ?P) \<and> (k = length ?S \<or> length a = 1 \<and> ?P = unat (?S ! k))"
    using k(1) by blast
  moreover have "2 ^ ?P mod ?P = 2" using fermat_power [OF assms(1), of 2] assms(2) by simp
  ultimately show ?thesis using probableprime_val [of a] assms(2) by simp
qed
lemma probableprime_complete_witness: "probableprime [11] = Some True"
  using probableprime_complete [of "[11]"] is_prime_trial [of 11] by (simp add: upt_rec)

lemma probableprime_fermat: "1 < nn_val a \<Longrightarrow> \<exists>s. probableprime a = Some s"
  using probableprime_val by blast

section \<open>Correctness of the search\<close>

text \<open>The search returns; it finds the first candidate that passes the test, or there is none below the bound.\<close>

lemma prime_search_val:
  assumes "length a = n" "length d = n" "length c = n" "length t = n" "nn_val t = nn_val c - nn_val d"
    "0 < nn_val d" "nn_val d \<le> nn_val c" "1 < nn_val a" "nn_val a \<le> nn_val c"
  shows "\<exists>r. prime_search t d a = Some r
     \<and> (case r of Inl e \<Rightarrow> e = RE_DATA
         | Inr p \<Rightarrow> length p = n \<and> nn_val a \<le> nn_val p \<and> nn_val p \<le> nn_val c
             \<and> nn_val p mod nn_val d = nn_val a mod nn_val d \<and> probableprime p = Some True)"
  using assms
proof (induction "nn_val c - nn_val a" arbitrary: a rule: less_induct)
  case less
  obtain s where s: "probableprime a = Some s" using probableprime_fermat less.prems(8) by blast
  consider "s" | "\<not> s" "nn_val t < nn_val a" | "\<not> s" "nn_val a \<le> nn_val t" by linarith
  then show ?case
  proof cases
    case 1
    then show ?thesis using less.prems s by (simp add: prime_search.simps [of t d a])
  next
    case 2
    then show ?thesis using s NN_Cmp_full(2) [OF less.prems(1,4)] less.prems(1) by (simp add: prime_search.simps [of t d a])
  next
    case 3
    let ?a = "fst (NN_Add a d)"
    have "nn_val a + nn_val d \<le> nn_val c" using 3(2) less.prems(5,7) by linarith
    moreover have "nn_val c < NN_B ^ length a" using nn_val_less [of c] less.prems(1,3) by simp
    ultimately have a: "nn_val ?a = nn_val a + nn_val d" "length ?a = n" "nn_val a + nn_val d \<le> nn_val c"
      using NN_Add_val [of a d] less.prems(1,2) by auto
    have dec: "nn_val c - nn_val ?a < nn_val c - nn_val a" using a(1,3) less.prems(6) by linarith
    have g: "1 < nn_val ?a" "nn_val ?a \<le> nn_val c" using a(1,3) less.prems(8) by linarith+
    have m: "nn_val ?a mod nn_val d = nn_val a mod nn_val d" "nn_val a \<le> nn_val ?a" using a(1) by simp_all
    have e: "prime_search t d a = prime_search t d ?a"
      using s 3 NN_Cmp_full(2) [OF less.prems(1,4)] less.prems(1) by (simp add: prime_search.simps [of t d a])
    obtain r where r: "prime_search t d ?a = Some r" "case r of Inl e \<Rightarrow> e = RE_DATA
        | Inr p \<Rightarrow> length p = n \<and> nn_val ?a \<le> nn_val p \<and> nn_val p \<le> nn_val c
             \<and> nn_val p mod nn_val d = nn_val ?a mod nn_val d \<and> probableprime p = Some True"
      using less.hyps [OF dec a(2) less.prems(2-7) g] by blast
    then show ?thesis using e m by (auto split: sum.splits intro: order_trans)
  qed
qed

text \<open>The start: the first number of the interval at or around the random one that is \<open>1\<close> modulo \<open>d\<close>.\<close>

lemma start_arith:
  fixes r B C D :: nat
  assumes "B \<le> r" "r \<le> C" "0 < D" "D \<le> C - B" "B \<le> C"
  defines "x \<equiv> r - r mod D + 1"
  defines "y \<equiv> (if x < B then x + D else x)"
  defines "z \<equiv> (if C < y then y - D else y)"
  shows "B \<le> z" "z \<le> C" "z mod D = 1 mod D" "x < B \<Longrightarrow> x + D \<le> C" "y \<le> C + 1" "D \<le> y \<or> y \<le> C" "x \<le> C \<or> x = C + 1 \<and> D dvd C"
proof -
  have m: "r mod D < D" "r mod D \<le> r" using assms(3) by simp_all
  have x: "x mod D = 1 mod D"
  proof -
    have "x = r div D * D + 1" unfolding x_def by (simp add: minus_mod_eq_div_mult)
    then show ?thesis by (metis mod_mult_self3)
  qed
  then have y: "y mod D = 1 mod D" by (simp add: y_def)
  show "x < B \<Longrightarrow> x + D \<le> C" using assms(1-5) by linarith
  have xr: "x \<le> r + 1" "r + 2 \<le> x + D" using m unfolding x_def by linarith+
  show yc: "y \<le> C + 1"
  proof (cases "x < B")
    case True
    then show ?thesis using assms(4,5) unfolding y_def by simp
  next
    case False
    then show ?thesis using xr(1) assms(2) unfolding y_def by simp
  qed
  show "D \<le> y \<or> y \<le> C" using yc assms(3-5) by linarith
  have "B \<le> y" using xr(2) assms(1) unfolding y_def by simp
  moreover have "C < y \<Longrightarrow> B \<le> y - D \<and> y - D \<le> C" using assms(3-5) yc by linarith
  ultimately show "B \<le> z" "z \<le> C" unfolding z_def by auto
  show "z mod D = 1 mod D"
  proof (cases "C < y")
    case True
    then have "y = (y - D) + D" using assms(4) by linarith
    then have "(y - D) mod D = y mod D" by (metis mod_add_self2)
    then show ?thesis using True y by (simp add: z_def)
  qed (simp add: z_def y)
  show "x \<le> C \<or> x = C + 1 \<and> D dvd C"
  proof (cases "r mod D = 0")
    case True
    then show ?thesis using assms(2) unfolding x_def by (auto simp: le_less)
  next
    case False
    then show ?thesis using assms(2) m unfolding x_def by linarith
  qed
qed

lemma prime_start_val:
  assumes len: "length b = n" "length c = n" "length d = n" "length a = n" "0 < n"
    and B: "0 < nn_val b" "nn_val b \<le> nn_val c" and D: "0 < nn_val d" "nn_val d \<le> nn_val c - nn_val b"
    and top: "\<not> nn_val d dvd nn_val c \<or> nn_val c + 1 < NN_B ^ n"
  shows "\<exists>a'. prime_start b c d a = Some a' \<and> length a' = n \<and> nn_val b \<le> nn_val a' \<and> nn_val a' \<le> nn_val c
     \<and> nn_val a' mod nn_val d = 1 mod nn_val d"
proof -
  let ?B = "nn_val b" and ?C = "nn_val c" and ?D = "nn_val d"
  have C: "?C < NN_B ^ n" using nn_val_less [of c] len(2) by simp
  define u where "u = NN_ASSIGN_DIGIT 1 n"
  have u: "nn_val u = 1" "length u = n" using nn_val_ASSIGN_DIGIT [OF len(5), of 1] by (simp_all add: u_def)
  define t0 where "t0 = fst (NN_Sub c b)"
  have t0: "nn_val t0 = ?C - ?B" "length t0 = n" using NN_Sub_val [of c b] len B by (simp_all add: t0_def)
  define t where "t = fst (NN_Add t0 u)"
  have t: "nn_val t = ?C - ?B + 1" "length t = n" using NN_Add_val [of t0 u] t0 u B C by (simp_all add: t_def)
  obtain a1 where a1: "NN_Mod a a t = Some a1" "length a1 = n" "nn_val a1 = nn_val a mod (?C - ?B + 1)"
    using NN_Mod_val [of t a a] t by auto
  have r1: "nn_val a1 \<le> ?C - ?B" using a1(3) by (simp add: less_Suc_eq_le [symmetric])
  define a2 where "a2 = fst (NN_Add a1 b)"
  have a2: "nn_val a2 = nn_val a1 + ?B" "length a2 = n" using NN_Add_val [of a1 b] r1 a1(2) len B(2) C by (simp_all add: a2_def)
  have r: "?B \<le> nn_val a2" "nn_val a2 \<le> ?C" using a2(1) r1 B(2) by linarith+
  note S = start_arith [OF r D B(2)]
  obtain t1 where t1: "NN_Mod t a2 d = Some t1" "length t1 = n" "nn_val t1 = nn_val a2 mod ?D"
    using NN_Mod_val [of d t a2] D len by auto
  define a3 where "a3 = fst (NN_Sub a2 t1)"
  have a3: "nn_val a3 = nn_val a2 - nn_val a2 mod ?D" "length a3 = n"
    using NN_Sub_val [of a2 t1] t1 a2(2) by (simp_all add: a3_def)
  define a4 where "a4 = fst (NN_Add a3 u)"
  have "nn_val a3 + 1 < NN_B ^ n" using S(7) C top a3(1) by auto
  then have a4: "nn_val a4 = nn_val a2 - nn_val a2 mod ?D + 1" "length a4 = n"
    using NN_Add_val [of a3 u] a3 u by (simp_all add: a4_def)
  define a5 where "a5 = (if NN_Cmp a4 b n < 0 then fst (NN_Add a4 d) else a4)"
  have a5: "nn_val a5 = (if nn_val a4 < ?B then nn_val a4 + ?D else nn_val a4)" "length a5 = n"
    using NN_Add_val [of a4 d] NN_Cmp_full(1) [OF a4(2) len(1)] S(4) a4 len(3) C by (auto simp: a5_def)
  define a6 where "a6 = (if NN_Cmp a5 c n > 0 then fst (NN_Sub a5 d) else a5)"
  have "?C < nn_val a5 \<Longrightarrow> ?D \<le> nn_val a5" using D B(2) by linarith
  then have a6: "nn_val a6 = (if ?C < nn_val a5 then nn_val a5 - ?D else nn_val a5)" "length a6 = n"
    using NN_Sub_val [of a5 d] NN_Cmp_full(2) [OF a5(2) len(2)] a5(2) len(3) by (auto simp: a6_def)
  have "prime_start b c d a = Some a6"
    unfolding prime_start_def Let_def len(1) u_def [symmetric] t0_def [symmetric] t_def [symmetric]
    by (simp only: a1(1) bind.bind_lunit a2_def [symmetric] t1(1) a3_def [symmetric] a4_def [symmetric] a5_def [symmetric] a6_def)
  then show ?thesis using S(1-3) [folded a4(1), folded a5(1), folded a6(1)] a6(2) by simp
qed

lemma GeneratePrime_val:
  assumes "length b = n" "length c = n" "length d = n" "1 < nn_val b" "nn_val b \<le> nn_val c"
    "0 < nn_val d" "nn_val d \<le> nn_val c - nn_val b" "\<not> nn_val d dvd nn_val c \<or> nn_val c + 1 < NN_B ^ n"
  shows "\<exists>r random'. GeneratePrime b c d random = Some (r, random')
     \<and> (case r of Inl e \<Rightarrow> e = RE_NEED_RANDOM \<and> bytesNeeded random \<noteq> 0 \<or> e = RE_DATA \<and> bytesNeeded random = 0
         | Inr a \<Rightarrow> length a = n \<and> nn_val b \<le> nn_val a \<and> nn_val a \<le> nn_val c
             \<and> nn_val a mod nn_val d = 1 mod nn_val d \<and> probableprime a = Some True)"
proof (cases "bytesNeeded random = 0")
  case False
  then show ?thesis by (simp add: GeneratePrime_def R_GenerateBytes_def RE_NEED_RANDOM_def)
next
  case True
  obtain block random' where g: "R_GenerateBytes (n * 4) random = (0, block, random')"
    using True by (cases "rnd_loop random (outputAvailable random) (n * 4) []") (simp add: R_GenerateBytes_def ID_OK_def)
  have n: "0 < n" using assms(1,4) by (cases b) auto
  obtain a where a: "prime_start b c d (NN_Decode n block) = Some a" "length a = n" "nn_val b \<le> nn_val a"
    "nn_val a \<le> nn_val c" "nn_val a mod nn_val d = 1 mod nn_val d"
    using prime_start_val [OF assms(1-3) NN_Decode_val(2) n _ assms(5-8)] assms(4) by auto
  let ?t = "fst (NN_Sub (NN_Assign c n) d)"
  have t: "length ?t = n" "nn_val ?t = nn_val c - nn_val d"
    using NN_Sub_val [of c d] assms(2,3,7) by (simp_all add: NN_Assign_def)
  have ord: "nn_val d \<le> nn_val c" "1 < nn_val a" using assms(4,7) a(3) by linarith+
  obtain r where "prime_search ?t d a = Some r"
     "case r of Inl e \<Rightarrow> e = RE_DATA
         | Inr p \<Rightarrow> length p = n \<and> nn_val a \<le> nn_val p \<and> nn_val p \<le> nn_val c
             \<and> nn_val p mod nn_val d = nn_val a mod nn_val d \<and> probableprime p = Some True"
    using prime_search_val [OF a(2) assms(3,2) t assms(6) ord a(4)] by blast
  then show ?thesis using g a assms(1) True
    by (auto simp: GeneratePrime_def split: sum.splits intro!: exI [of _ r])
qed

text \<open>
  C17. For an interval above one that is at least as long as the step, and whose end is no multiple of the step or can be raised by one, the search always
  returns: with the status of the generator when that is not seeded, with the data error when no candidate passes, and otherwise with a number of the
  interval that is one modulo the step and passes the test. The source asks only that the interval is not empty; with a step
  that is too long, the number may lie below it (12 to 13 in steps of 5 starts at 11).
\<close>

theorem GeneratePrime_correct:
  assumes "length b = n" "length c = n" "length d = n" "1 < nn_val b" "nn_val b \<le> nn_val c"
    "0 < nn_val d" "nn_val d \<le> nn_val c - nn_val b" "\<not> nn_val d dvd nn_val c \<or> nn_val c + 1 < NN_B ^ n"
  shows "\<exists>r random'. GeneratePrime b c d random = Some (r, random')
     \<and> (case r of Inl e \<Rightarrow> e = RE_NEED_RANDOM \<and> bytesNeeded random \<noteq> 0 \<or> e = RE_DATA \<and> bytesNeeded random = 0
         | Inr a \<Rightarrow> length a = n \<and> nn_val b \<le> nn_val a \<and> nn_val a \<le> nn_val c
             \<and> nn_val a mod nn_val d = 1 mod nn_val d \<and> probableprime a = Some True)"
  using assms by (rule GeneratePrime_val)

lemma GeneratePrime_correct_witness:
  "\<exists>r random'. GeneratePrime [5] [13] [2] \<lparr>bytesNeeded = 0, rnd_state = replicate 16 7, outputAvailable = 0,
       rnd_output = replicate 16 0\<rparr> = Some (r, random')
     \<and> (case r of Inl e \<Rightarrow> e = RE_DATA | Inr a \<Rightarrow> length a = 1 \<and> 5 \<le> nn_val a \<and> nn_val a \<le> 13
             \<and> nn_val a mod 2 = 1 \<and> probableprime a = Some True)"
  using GeneratePrime_correct [of "[5]" 1 "[13]" "[2]" "\<lparr>bytesNeeded = 0, rnd_state = replicate 16 7, outputAvailable = 0,
       rnd_output = replicate 16 0\<rparr>"] by (auto split: sum.splits)

end
