(* ===== verification/R_Keygen.thy ===== *)
theory R_Keygen
  imports R_Prime RSA_Example
begin

text \<open>
  \<^verbatim>\<open>QBase/RSAEuro/r_keygen.c\<close>: the generation of a pair of RSA keys. Local arrays that the source leaves
  uninitialised before a routine fills them are shown as zeros.
\<close>

section \<open>The generator\<close>

record r_rsa_proto_key =
  proto_bits :: nat
  useFermat4 :: bool

definition RE_MODULUS_LEN :: int where "RE_MODULUS_LEN = 0x0407"
definition MIN_RSA_MODULUS_BITS :: nat where "MIN_RSA_MODULUS_BITS = 508"
definition MAX_RSA_MODULUS_BITS :: nat where "MAX_RSA_MODULUS_BITS = 1024"

text \<open>Whether the number less one has no factor in common with \<open>b\<close>.\<close>

definition RSAFilter :: "nn_digit list \<Rightarrow> nn_digit list \<Rightarrow> bool option" where
  "RSAFilter a b =
     (let aDigits = length a;
          t = NN_ASSIGN_DIGIT 1 aDigits;
          aMinus1 = fst (NN_Sub a t)
      in do { u \<leftarrow> NN_Gcd (NN_AssignZero aDigits) aMinus1 (take aDigits b);
              Some (NN_Cmp t u aDigits = 0) })"

text \<open>The bounds and the step of the search for a prime of \<open>bits\<close> bits: \<open>t\<close>, \<open>u\<close> and \<open>v\<close>.\<close>

definition keygen_interval :: "nat \<Rightarrow> nat \<Rightarrow> nn_digit list \<times> nn_digit list \<times> nn_digit list" where
  "keygen_interval bits digits =
     (let t = NN_Assign2Exp (bits - 1) digits;
          u = NN_Assign2Exp (bits - 2) digits;
          t = fst (NN_Add t u);
          v = NN_ASSIGN_DIGIT 1 digits;
          v = fst (NN_Sub t v);
          u = fst (NN_Add u v);
          v = NN_ASSIGN_DIGIT 2 digits
      in (t, u, v))"

text \<open>Primes are drawn until one passes the filter.\<close>

partial_function (option) keygen_prime ::
  "nn_digit list \<Rightarrow> nn_digit list \<Rightarrow> nn_digit list \<Rightarrow> nn_digit list \<Rightarrow> r_random_struct
     \<Rightarrow> ((int + nn_digit list) \<times> r_random_struct) option" where
  "keygen_prime t u v e randomStruct =
     do { r \<leftarrow> GeneratePrime t u v randomStruct;
          (case r of
             (Inl status, randomStruct) \<Rightarrow> Some (Inl status, randomStruct)
           | (Inr p, randomStruct) \<Rightarrow>
               do { ok \<leftarrow> RSAFilter p e;
                    if ok then Some (Inr p, randomStruct) else keygen_prime t u v e randomStruct }) }"

text \<open>From the primes to the keys.\<close>

definition keygen_keys ::
  "nat \<Rightarrow> nn_digit list \<Rightarrow> nn_digit list \<Rightarrow> nn_digit list \<Rightarrow> (r_rsa_public_key \<times> r_rsa_private_key) option" where
  "keygen_keys bits e p0 q0 =
     (let nDigits = (bits + 31) div 32;
          pDigits = (nDigits + 1) div 2;
          (p, q) = (if NN_Cmp p0 q0 pDigits < 0 then (q0, p0) else (p0, q0));
          n = NN_Mult p q pDigits
      in do { qInv \<leftarrow> NN_ModInv q p;
              let t = NN_ASSIGN_DIGIT 1 pDigits;
              let pMinus1 = fst (NN_Sub p t);
              let qMinus1 = fst (NN_Sub q t);
              let phiN = NN_Mult pMinus1 qMinus1 pDigits;
              d \<leftarrow> NN_ModInv e (take nDigits phiN);
              dP \<leftarrow> NN_Mod (NN_AssignZero pDigits) d pMinus1;
              dQ \<leftarrow> NN_Mod (NN_AssignZero pDigits) d qMinus1;
              let pub = \<lparr>pub_bits = bits,
                pub_modulus = NN_Encode MAX_RSA_MODULUS_LEN (take nDigits n),
                pub_exponent = NN_Encode MAX_RSA_MODULUS_LEN (take 1 e)\<rparr>;
              Some (pub,
                \<lparr>prv_bits = bits,
                 prv_modulus = take MAX_RSA_MODULUS_LEN (pub_modulus pub),
                 prv_publicExponent = take MAX_RSA_MODULUS_LEN (pub_exponent pub),
                 prv_exponent = NN_Encode MAX_RSA_MODULUS_LEN d,
                 prv_prime0 = NN_Encode MAX_RSA_PRIME_LEN p,
                 prv_prime1 = NN_Encode MAX_RSA_PRIME_LEN q,
                 prv_primeExponent0 = NN_Encode MAX_RSA_PRIME_LEN dP,
                 prv_primeExponent1 = NN_Encode MAX_RSA_PRIME_LEN dQ,
                 prv_coefficient = NN_Encode MAX_RSA_PRIME_LEN qInv\<rparr>) })"

definition R_GeneratePEMKeys ::
  "r_rsa_proto_key \<Rightarrow> r_random_struct
     \<Rightarrow> ((int + r_rsa_public_key \<times> r_rsa_private_key) \<times> r_random_struct) option" where
  "R_GeneratePEMKeys protoKey randomStruct =
     (if proto_bits protoKey < MIN_RSA_MODULUS_BITS \<or> MAX_RSA_MODULUS_BITS < proto_bits protoKey
      then Some (Inl RE_MODULUS_LEN, randomStruct)
      else let bits = proto_bits protoKey;
               nDigits = (bits + 31) div 32;
               pDigits = (nDigits + 1) div 2;
               pBits = (bits + 1) div 2;
               qBits = bits - pBits;
               e = NN_ASSIGN_DIGIT (if useFermat4 protoKey then 65537 else 3) nDigits
           in case keygen_interval pBits pDigits of (t, u, v) \<Rightarrow>
              do { r \<leftarrow> keygen_prime t u v e randomStruct;
                   (case r of
                      (Inl status, randomStruct) \<Rightarrow> Some (Inl status, randomStruct)
                    | (Inr p, randomStruct) \<Rightarrow>
                      (case keygen_interval qBits pDigits of (t, u, v) \<Rightarrow>
                       do { r \<leftarrow> keygen_prime t u v e randomStruct;
                            (case r of
                               (Inl status, randomStruct) \<Rightarrow> Some (Inl status, randomStruct)
                             | (Inr q, randomStruct) \<Rightarrow>
                                do { keys \<leftarrow> keygen_keys bits e p q; Some (Inr keys, randomStruct) }) })) })"

section \<open>The steps\<close>

lemma RSAFilter_val:
  assumes "0 < nn_val a" "length a \<le> length b"
  shows "RSAFilter a b = Some (gcd (nn_val a - 1) (nn_val (take (length a) b)) = 1)"
proof -
  let ?n = "length a"
  have n: "0 < ?n" using assms(1) by (cases a) auto
  note t = nn_val_ASSIGN_DIGIT [OF n, of 1]
  have m: "nn_val (fst (NN_Sub a (NN_ASSIGN_DIGIT 1 ?n))) = nn_val a - 1" "length (fst (NN_Sub a (NN_ASSIGN_DIGIT 1 ?n))) = ?n"
    using NN_Sub_val [of a "NN_ASSIGN_DIGIT 1 ?n"] t assms(1) by simp_all
  obtain u where u: "NN_Gcd (NN_AssignZero ?n) (fst (NN_Sub a (NN_ASSIGN_DIGIT 1 ?n))) (take ?n b) = Some u" "length u = ?n"
    "nn_val u = gcd (nn_val a - 1) (nn_val (take ?n b))"
    using NN_Gcd_val [of "fst (NN_Sub a (NN_ASSIGN_DIGIT 1 ?n))" "take ?n b"] m assms(2) by auto
  have "NN_Cmp (NN_ASSIGN_DIGIT 1 ?n) u ?n = 0 \<longleftrightarrow> nn_val u = 1"
    using NN_Cmp_full(3) [OF t(2) u(2)] t(1) by auto
  then show ?thesis using u(1,3) by (simp add: RSAFilter_def Let_def)
qed

lemma keygen_interval_val:
  assumes "8 \<le> bits" "bits \<le> 32 * digits" "keygen_interval bits digits = (t, u, v)"
  shows "nn_val t = 3 * 2 ^ (bits - 2)" "nn_val u = 2 ^ bits - 1" "nn_val v = 2"
    "length t = digits" "length u = digits" "length v = digits"
proof -
  have n: "0 < digits" using assms(1,2) by (cases digits) auto
  have e: "2 ^ (bits - 1) = (2 :: nat) * 2 ^ (bits - 2)" "2 ^ bits = (4 :: nat) * 2 ^ (bits - 2)"
    using assms(1) by (cases bits; cases "bits - 1"; simp)+
  have "(2 :: nat) ^ bits \<le> 2 ^ (32 * digits)" using assms(2) by (rule power_increasing) simp
  then have B: "2 ^ bits \<le> NN_B ^ digits" by (simp add: power_mult)
  have p: "0 < (2 :: nat) ^ (bits - 2)" by simp
  have lim: "3 * 2 ^ (bits - 2) < NN_B ^ digits" "2 ^ (bits - 2) + (3 * 2 ^ (bits - 2) - 1) < NN_B ^ digits"
    using B p unfolding e(2) by linarith+
  let ?t = "NN_Assign2Exp (bits - 1) digits" and ?u = "NN_Assign2Exp (bits - 2) digits" and ?v = "NN_ASSIGN_DIGIT 1 digits"
  have a: "nn_val ?t = 2 * 2 ^ (bits - 2)" "length ?t = digits" "nn_val ?u = 2 ^ (bits - 2)" "length ?u = digits"
    using NN_Assign2Exp_val [of "bits - 1" digits] NN_Assign2Exp_val [of "bits - 2" digits] e(1) assms(1,2) by simp_all
  have t: "nn_val (fst (NN_Add ?t ?u)) = 3 * 2 ^ (bits - 2)" "length (fst (NN_Add ?t ?u)) = digits"
    using NN_Add_val [of ?t ?u] a lim by simp_all
  have v: "nn_val (fst (NN_Sub (fst (NN_Add ?t ?u)) ?v)) = 3 * 2 ^ (bits - 2) - 1" "length (fst (NN_Sub (fst (NN_Add ?t ?u)) ?v)) = digits"
    using NN_Sub_val [of "fst (NN_Add ?t ?u)" ?v] t nn_val_ASSIGN_DIGIT [OF n, of 1] p by simp_all
  have u: "nn_val (fst (NN_Add ?u (fst (NN_Sub (fst (NN_Add ?t ?u)) ?v)))) = 2 ^ bits - 1"
    "length (fst (NN_Add ?u (fst (NN_Sub (fst (NN_Add ?t ?u)) ?v)))) = digits"
    using NN_Add_val [of ?u "fst (NN_Sub (fst (NN_Add ?t ?u)) ?v)"] a(3,4) v lim e(2) by simp_all
  have r: "t = fst (NN_Add ?t ?u)" "u = fst (NN_Add ?u (fst (NN_Sub (fst (NN_Add ?t ?u)) ?v)))" "v = NN_ASSIGN_DIGIT 2 digits"
    using assms(3) by (auto simp: keygen_interval_def Let_def)
  show "nn_val t = 3 * 2 ^ (bits - 2)" "nn_val u = 2 ^ bits - 1" "nn_val v = 2" "length t = digits" "length u = digits" "length v = digits"
    unfolding r using t u nn_val_ASSIGN_DIGIT [OF n, of 2] by simp_all
qed

section \<open>The keys\<close>

lemma keygen_digits: "((bits + 31) div 32 + 1) div 2 = (bits + 63) div (64 :: nat)"
proof -
  have "(bits + 31) div 32 + 1 = (bits + 63) div 32" by simp
  then show ?thesis by (simp only: div_mult2_eq [symmetric]) simp
qed

lemma keygen_keys_swap:
  assumes "length p = (bits + 63) div 64" "length q = (bits + 63) div 64" "nn_val p < nn_val q"
  shows "keygen_keys bits e p q = keygen_keys bits e q p"
proof -
  have "NN_Cmp p q ((bits + 63) div 64) < 0" "\<not> NN_Cmp q p ((bits + 63) div 64) < 0"
    using NN_Cmp_full(1) [OF assms(1,2)] NN_Cmp_full(1) [OF assms(2,1)] assms(3) by simp_all
  then show ?thesis unfolding keygen_keys_def Let_def keygen_digits by simp
qed

text \<open>The numbers of a key that is made from the primes \<open>P\<close> and \<open>Q\<close> and the public exponent \<open>E\<close>.\<close>

lemma rsa_exponents:
  fixes P Q E d :: nat
  assumes "d * E mod ((P - 1) * (Q - 1)) = 1"
  shows "E * (d mod (P - 1)) mod (P - 1) = 1 mod (P - 1)" "E * (d mod (Q - 1)) mod (Q - 1) = 1 mod (Q - 1)"
proof -
  have "d * E mod ((P - 1) * (Q - 1)) mod r = d * E mod r" if "r dvd (P - 1) * (Q - 1)" for r
    using that by (rule mod_mod_cancel)
  then have "d * E mod (P - 1) = 1 mod (P - 1)" "d * E mod (Q - 1) = 1 mod (Q - 1)" unfolding assms by simp_all
  then show "E * (d mod (P - 1)) mod (P - 1) = 1 mod (P - 1)" "E * (d mod (Q - 1)) mod (Q - 1) = 1 mod (Q - 1)"
    by (simp_all add: mod_mult_right_eq mult.commute)
qed

definition keygen_pub :: "nat \<Rightarrow> nat \<Rightarrow> nat \<Rightarrow> nat \<Rightarrow> r_rsa_public_key" where
  "keygen_pub bits P Q E = \<lparr>pub_bits = bits, pub_modulus = be_bytes MAX_RSA_MODULUS_LEN (P * Q),
     pub_exponent = be_bytes MAX_RSA_MODULUS_LEN E\<rparr>"

definition keygen_prv :: "nat \<Rightarrow> nat \<Rightarrow> nat \<Rightarrow> nat \<Rightarrow> nat \<Rightarrow> nat \<Rightarrow> r_rsa_private_key" where
  "keygen_prv bits P Q E d qInv = \<lparr>prv_bits = bits,
     prv_modulus = be_bytes MAX_RSA_MODULUS_LEN (P * Q), prv_publicExponent = be_bytes MAX_RSA_MODULUS_LEN E,
     prv_exponent = be_bytes MAX_RSA_MODULUS_LEN d,
     prv_prime0 = be_bytes MAX_RSA_PRIME_LEN P, prv_prime1 = be_bytes MAX_RSA_PRIME_LEN Q,
     prv_primeExponent0 = be_bytes MAX_RSA_PRIME_LEN (d mod (P - 1)),
     prv_primeExponent1 = be_bytes MAX_RSA_PRIME_LEN (d mod (Q - 1)),
     prv_coefficient = be_bytes MAX_RSA_PRIME_LEN qInv\<rparr>"

lemma rsa_len_values: "MAX_RSA_MODULUS_LEN = 128" "MAX_RSA_PRIME_LEN = 64"
  by (simp_all add: rsa_lens)

lemma keygen_values:
  assumes "P * Q < 2 ^ 1024" "P < 2 ^ 512" "Q < P" "1 < Q" "E < NN_B" "qInv < P"
  shows "rsa_n (keygen_prv bits P Q E d qInv) = P * Q" "rsa_p (keygen_prv bits P Q E d qInv) = P"
    "rsa_q (keygen_prv bits P Q E d qInv) = Q" "rsa_dP (keygen_prv bits P Q E d qInv) = d mod (P - 1)"
    "rsa_dQ (keygen_prv bits P Q E d qInv) = d mod (Q - 1)" "rsa_qInv (keygen_prv bits P Q E d qInv) = qInv"
    "rsa_e (keygen_pub bits P Q E) = E"
proof -
  have b: "(256 :: nat) ^ 128 = 2 ^ 1024" "(256 :: nat) ^ 64 = 2 ^ 512"
    using power_mult [of "2 :: nat" 8 128] power_mult [of "2 :: nat" 8 64] by simp_all
  have "d mod (P - 1) < P - 1" "d mod (Q - 1) < Q - 1" using assms(3,4) by simp_all
  then have l: "d mod (P - 1) < 2 ^ 512" "d mod (Q - 1) < 2 ^ 512" "Q < 2 ^ 512" "qInv < 2 ^ 512" using assms by linarith+
  have "E < 2 ^ 1024" using assms(5) power_increasing [of 32 1024 "2 :: nat"] by simp
  then show "rsa_n (keygen_prv bits P Q E d qInv) = P * Q" "rsa_p (keygen_prv bits P Q E d qInv) = P"
    "rsa_q (keygen_prv bits P Q E d qInv) = Q" "rsa_dP (keygen_prv bits P Q E d qInv) = d mod (P - 1)"
    "rsa_dQ (keygen_prv bits P Q E d qInv) = d mod (Q - 1)" "rsa_qInv (keygen_prv bits P Q E d qInv) = qInv"
    "rsa_e (keygen_pub bits P Q E) = E"
    using assms(1,2) l unfolding rsa_n_def rsa_p_def rsa_q_def rsa_dP_def rsa_dQ_def rsa_qInv_def rsa_e_def keygen_pub_def keygen_prv_def
      r_rsa_private_key.simps r_rsa_public_key.simps be_val_be_bytes rsa_len_values b
    by (simp_all only: mod_less)
qed

lemma keygen_numbers:
  assumes bits: "12 \<le> bits" "bits \<le> 1024" "2 ^ (bits - 1) \<le> P * Q" "P * Q < 2 ^ bits"
    and pq: "is_prime P" "is_prime Q" "2 < Q" "Q < P" and qInv: "qInv < P" "qInv * Q mod P = 1"
    and d: "d * E mod ((P - 1) * (Q - 1)) = 1" and fit: "P < 2 ^ 512" "E < NN_B"
  shows "rsa_keys_ok (keygen_pub bits P Q E) (keygen_prv bits P Q E d qInv)"
    "rsa_p (keygen_prv bits P Q E d qInv) = P" "rsa_q (keygen_prv bits P Q E d qInv) = Q" "rsa_e (keygen_pub bits P Q E) = E"
proof -
  let ?pub = "keygen_pub bits P Q E" and ?prv = "keygen_prv bits P Q E d qInv"
  have "(2 :: nat) ^ bits \<le> 2 ^ 1024" using bits(2) by (rule power_increasing) simp
  then have big: "P * Q < 2 ^ 1024" using bits(4) by linarith
  have one: "1 < Q" using pq(3) by simp
  note v = keygen_values(1-6) [OF big fit(1) pq(4) one fit(2) qInv(1), of bits d]
    keygen_values(7) [OF big fit(1) pq(4) one fit(2) qInv(1), of bits]
  have m: "d mod (P - 1) < P - 1" "d mod (Q - 1) < Q - 1" using pq(3,4) by simp_all
  have dl: "d mod (P - 1) < P" "d mod (Q - 1) < Q" using m by linarith+
  have f: "prv_bits ?prv = bits" "pub_bits ?pub = bits" "pub_modulus ?pub = prv_modulus ?prv"
    "length (pub_exponent ?pub) = MAX_RSA_MODULUS_LEN" by (simp_all add: keygen_pub_def keygen_prv_def)
  have "rsa_key_sizes ?prv" by (simp add: rsa_key_sizes_def keygen_prv_def)
  then have "rsa_private_ok ?prv"
    unfolding rsa_private_ok_def v f using bits pq dl qInv by (simp add: mult.commute)
  moreover have "m ^ (E * (d mod (P - 1))) mod P = m mod P" "m ^ (E * (d mod (Q - 1))) mod Q = m mod Q" for m
    using rsa_prime_exponent [OF pq(1), of E] rsa_prime_exponent [OF pq(2,3), of E] rsa_exponents [OF d] pq(3,4) by simp_all
  ultimately show "rsa_keys_ok ?pub ?prv" unfolding rsa_keys_ok_def v f by blast
  show "rsa_p ?prv = P" "rsa_q ?prv = Q" "rsa_e ?pub = E" by (fact v)+
qed

lemma keygen_keys_sorted:
  assumes len: "length p = (bits + 63) div 64" "length q = (bits + 63) div 64" "length e = (bits + 31) div 32"
    and bits: "12 \<le> bits" "bits \<le> 1024" "2 ^ (bits - 1) \<le> nn_val p * nn_val q" "nn_val p * nn_val q < 2 ^ bits"
    and pq: "is_prime (nn_val p)" "is_prime (nn_val q)" "2 < nn_val q" "nn_val q < nn_val p"
    and e: "coprime (nn_val e) (nn_val p - 1)" "coprime (nn_val e) (nn_val q - 1)" "nn_val (take 1 e) = nn_val e"
  shows "\<exists>pub prv. keygen_keys bits e p q = Some (pub, prv) \<and> rsa_keys_ok pub prv \<and> prv_bits prv = bits
     \<and> rsa_p prv = nn_val p \<and> rsa_q prv = nn_val q \<and> rsa_e pub = nn_val e"
proof -
  define P Q E where "P = nn_val p" and "Q = nn_val q" and "E = nn_val e"
  note PQE = P_def [symmetric] Q_def [symmetric] E_def [symmetric]
  let ?nD = "(bits + 31) div 32" and ?pD = "(bits + 63) div 64"
  have dig: "?pD \<le> 16" "?nD \<le> 32" "bits \<le> 32 * ?nD" "?nD \<le> 2 * ?pD" "0 < ?pD" using bits(1,2) by linarith+
  have cmp: "\<not> NN_Cmp p q ?pD < 0" using NN_Cmp_full(1) [OF len(1,2)] pq(4) by simp
  have c: "coprime Q P"
  proof -
    have "\<not> Q dvd P" using is_primeD(2) [OF pq(1), of "nn_val q"] pq(3,4) unfolding PQE by auto
    then show ?thesis using is_prime_coprime [OF pq(2)] unfolding PQE by blast
  qed
  have one: "1 < P" "1 < Q" using pq(3,4) unfolding PQE by simp_all
  obtain qInv where qInv: "NN_ModInv q p = Some qInv" "length qInv = ?pD" "nn_val qInv < P" "nn_val qInv * Q mod P = 1"
    using NN_ModInv_val [of q p] len(1,2) c one unfolding PQE by auto
  define t pm qm phi where "t = NN_ASSIGN_DIGIT 1 ?pD" and "pm = fst (NN_Sub p t)" and "qm = fst (NN_Sub q t)"
    and "phi = take ?nD (NN_Mult pm qm ?pD)"
  have t: "nn_val t = 1" "length t = ?pD" using nn_val_ASSIGN_DIGIT [OF dig(5), of 1] by (simp_all add: t_def)
  have m: "nn_val pm = P - 1" "length pm = ?pD" "nn_val qm = Q - 1" "length qm = ?pD"
    using NN_Sub_val [of p t] NN_Sub_val [of q t] t len(1,2) one unfolding PQE by (simp_all add: pm_def qm_def)
  have lim: "P * Q < NN_B ^ ?nD"
  proof -
    have "(2 :: nat) ^ bits \<le> 2 ^ (32 * ?nD)" using dig(3) by (rule power_increasing) simp
    then show ?thesis using bits(4) unfolding PQE by (simp add: power_mult)
  qed
  have "(P - 1) * (Q - 1) \<le> P * Q" by (intro mult_le_mono) simp_all
  then have phi: "nn_val phi = (P - 1) * (Q - 1)" "length phi = ?nD"
    using NN_Mult_val [OF m(2,4)] m(1,3) lim dig(4) by (simp_all add: phi_def nn_val_take)
  have "2 * 1 \<le> (P - 1) * (Q - 1)" using pq(3,4) unfolding PQE by (intro mult_le_mono) simp_all
  then have phi1: "1 < nn_val phi" unfolding phi(1) by simp
  have ce: "coprime E (nn_val phi)" using e(1,2) unfolding phi(1) PQE by (simp add: coprime_mult_right_iff)
  obtain d where d: "NN_ModInv e phi = Some d" "length d = ?nD" "nn_val d < nn_val phi" "nn_val d * E mod nn_val phi = 1"
    using NN_ModInv_val [of e phi] len(3) phi(2) phi1 ce unfolding PQE by auto
  have z: "0 < nn_val pm" "0 < nn_val qm" using m one by simp_all
  obtain dP dQ where dP: "NN_Mod (NN_AssignZero ?pD) d pm = Some dP" "nn_val dP = nn_val d mod (P - 1)"
    and dQ: "NN_Mod (NN_AssignZero ?pD) d qm = Some dQ" "nn_val dQ = nn_val d mod (Q - 1)"
    using NN_Mod_val [OF z(1), of "NN_AssignZero ?pD" d] NN_Mod_val [OF z(2), of "NN_AssignZero ?pD" d] m by auto
  note ex = rsa_exponents [OF d(4) [unfolded phi(1)]]
  have n: "nn_val (take ?nD (NN_Mult p q ?pD)) = P * Q" using NN_Mult_val [OF len(1,2)] lim unfolding PQE by (simp add: nn_val_take)
  have k: "keygen_keys bits e p q = Some (keygen_pub bits P Q E, keygen_prv bits P Q E (nn_val d) (nn_val qInv))"
    unfolding keygen_keys_def Let_def keygen_digits using cmp qInv(1) d(1) dP dQ n e(3)
    by (simp add: t_def [symmetric] pm_def [symmetric] qm_def [symmetric] phi_def [symmetric] PQE keygen_pub_def keygen_prv_def
        NN_Encode_val rsa_lens)
  have "NN_B ^ ?pD \<le> NN_B ^ 16" using dig(1) by (intro power_increasing) simp_all
  then have P512: "P < 2 ^ 512" using nn_val_less [of p] len(1) power_mult [of "2 :: nat" 32 16] unfolding PQE by simp
  have "nn_val (take 1 e) < NN_B ^ 1" using nn_val_less [of "take 1 e"] len(3) dig(3) bits(1) by (cases e) simp_all
  then have E32: "E < NN_B" using e(3) unfolding PQE by simp
  note N = keygen_numbers [OF bits(1,2) bits(3,4) [unfolded PQE] pq [unfolded PQE] qInv(3,4) d(4) [unfolded phi(1)] P512 E32]
  show ?thesis unfolding PQE using k N by (simp add: keygen_prv_def)
qed

lemma keygen_keys_made:
  assumes "length p = (bits + 63) div 64" "length q = (bits + 63) div 64" "length e = (bits + 31) div 32"
    and "12 \<le> bits" "bits \<le> 1024" "2 ^ (bits - 1) \<le> nn_val p * nn_val q" "nn_val p * nn_val q < 2 ^ bits"
    and "is_prime (nn_val p)" "is_prime (nn_val q)" "2 < nn_val p" "2 < nn_val q" "nn_val p \<noteq> nn_val q"
    and "coprime (nn_val e) (nn_val p - 1)" "coprime (nn_val e) (nn_val q - 1)" "nn_val (take 1 e) = nn_val e"
  shows "\<exists>pub prv. keygen_keys bits e p q = Some (pub, prv) \<and> rsa_keys_ok pub prv \<and> prv_bits prv = bits
     \<and> rsa_p prv = max (nn_val p) (nn_val q) \<and> rsa_q prv = min (nn_val p) (nn_val q) \<and> rsa_e pub = nn_val e"
proof (cases "nn_val q < nn_val p")
  case True
  then show ?thesis using keygen_keys_sorted [of p bits q e] assms by (simp add: max_def min_def)
next
  case False
  then have "nn_val p < nn_val q" using assms(12) by simp
  then show ?thesis using keygen_keys_sorted [of q bits p e] keygen_keys_swap [of p bits q e] assms
    by (simp add: max_def min_def mult.commute)
qed

text \<open>
  C18. The keys made from two different primes, in either order, whose product has the announced length and
  whose predecessors have no factor in common with the public exponent, satisfy everything that the
  encryption and the signature rely on: the round trips of the RSA operations hold for them.
\<close>

theorem keygen_keys_correct:
  assumes "length p = (bits + 63) div 64" "length q = (bits + 63) div 64" "length e = (bits + 31) div 32"
    and "12 \<le> bits" "bits \<le> 1024" "2 ^ (bits - 1) \<le> nn_val p * nn_val q" "nn_val p * nn_val q < 2 ^ bits"
    and "is_prime (nn_val p)" "is_prime (nn_val q)" "2 < nn_val p" "2 < nn_val q" "nn_val p \<noteq> nn_val q"
    and "coprime (nn_val e) (nn_val p - 1)" "coprime (nn_val e) (nn_val q - 1)" "nn_val (take 1 e) = nn_val e"
  shows "\<exists>pub prv. keygen_keys bits e p q = Some (pub, prv) \<and> rsa_keys_ok pub prv \<and> prv_bits prv = bits
     \<and> rsa_p prv = max (nn_val p) (nn_val q) \<and> rsa_q prv = min (nn_val p) (nn_val q) \<and> rsa_e pub = nn_val e"
  using assms by (rule keygen_keys_made)

lemma keygen_keys_primes:
  assumes "length p = (bits + 63) div 64" "length q = (bits + 63) div 64" "bits \<le> 1024"
    "keygen_keys bits e p q = Some (pub, prv)"
  shows "rsa_p prv = max (nn_val p) (nn_val q)" "rsa_q prv = min (nn_val p) (nn_val q)" "prv_bits prv = bits"
proof -
  have "NN_B ^ ((bits + 63) div 64) \<le> NN_B ^ 16" using assms(3) by (intro power_increasing) simp_all
  then have l: "nn_val p < 256 ^ 64" "nn_val q < 256 ^ 64"
    using nn_val_less [of p] nn_val_less [of q] assms(1,2) by simp_all
  have c: "NN_Cmp p q ((bits + 63) div 64) < 0 \<longleftrightarrow> nn_val p < nn_val q" using NN_Cmp_full(1) [OF assms(1,2)] .
  have "prv_prime0 prv = be_bytes 64 (max (nn_val p) (nn_val q)) \<and> prv_prime1 prv = be_bytes 64 (min (nn_val p) (nn_val q))
      \<and> prv_bits prv = bits"
    using assms(4) unfolding keygen_keys_def Let_def keygen_digits c
    by (auto simp: bind_eq_Some_conv NN_Encode_val rsa_len_values max_def min_def split: if_splits)
  then show "rsa_p prv = max (nn_val p) (nn_val q)" "rsa_q prv = min (nn_val p) (nn_val q)" "prv_bits prv = bits"
    using l by (simp_all add: rsa_p_def rsa_q_def be_val_be_bytes max_def min_def)
qed

section \<open>The whole generation\<close>

definition keygen_prime_ok :: "nat \<Rightarrow> nat \<Rightarrow> nat \<Rightarrow> nn_digit list \<Rightarrow> bool" where
  "keygen_prime_ok bits digits E p \<longleftrightarrow> length p = digits \<and> 3 * 2 ^ (bits - 2) \<le> nn_val p \<and> nn_val p < 2 ^ bits
     \<and> coprime E (nn_val p - 1) \<and> probableprime p = Some True"

lemma keygen_prime_draw:
  assumes "8 \<le> bits" "bits \<le> 32 * digits" "keygen_interval bits digits = (t, u, v)"
  shows "\<exists>r random'. GeneratePrime t u v random = Some (r, random')
     \<and> (case r of Inl st \<Rightarrow> st = RE_NEED_RANDOM \<or> st = RE_DATA
         | Inr p \<Rightarrow> length p = digits \<and> 3 * 2 ^ (bits - 2) \<le> nn_val p \<and> nn_val p < 2 ^ bits
             \<and> probableprime p = Some True)"
proof -
  note i = keygen_interval_val [OF assms]
  have e: "2 ^ bits = (4 :: nat) * 2 ^ (bits - 2)" using assms(1) by (cases bits; cases "bits - 1"; simp)
  have "(2 :: nat) ^ 6 \<le> 2 ^ (bits - 2)" using assms(1) by (intro power_increasing) simp_all
  then have big: "(64 :: nat) \<le> 2 ^ (bits - 2)" by simp
  have ord: "1 < nn_val t" "nn_val t \<le> nn_val u" "0 < nn_val v" "nn_val v \<le> nn_val u - nn_val t"
    using big i(1-3) e by linarith+
  have "odd (nn_val u)" unfolding i(2) e by (simp add: even_diff_nat)
  then have "\<not> nn_val v dvd nn_val u" unfolding i(3) .
  then obtain r random' where g: "GeneratePrime t u v random = Some (r, random')"
    "case r of Inl st \<Rightarrow> st = RE_NEED_RANDOM \<and> bytesNeeded random \<noteq> 0 \<or> st = RE_DATA \<and> bytesNeeded random = 0
      | Inr a \<Rightarrow> length a = digits \<and> nn_val t \<le> nn_val a \<and> nn_val a \<le> nn_val u
          \<and> nn_val a mod nn_val v = 1 mod nn_val v \<and> probableprime a = Some True"
    using GeneratePrime_val [OF i(4-6) ord, of random] by blast
  have "nn_val a < 2 ^ bits" if "nn_val a \<le> nn_val u" for a using that big i(2) e by linarith
  then show ?thesis using g i(1) by (cases r) auto
qed

lemma keygen_prime_val:
  assumes "8 \<le> bits" "bits \<le> 32 * digits" "keygen_interval bits digits = (t, u, v)" "digits \<le> length e"
    "keygen_prime t u v e random = Some (res, random')"
  shows "case res of Inl st \<Rightarrow> st = RE_NEED_RANDOM \<or> st = RE_DATA
     | Inr p \<Rightarrow> keygen_prime_ok bits digits (nn_val (take digits e)) p"
proof -
  have "case fst y of Inl st \<Rightarrow> st = RE_NEED_RANDOM \<or> st = RE_DATA
     | Inr p \<Rightarrow> keygen_prime_ok bits digits (nn_val (take digits e)) p" if "keygen_prime t u v e random = Some y" for y
  proof (rule keygen_prime.raw_induct [where P = "\<lambda>t' u' v' e' random' y. t' = t \<longrightarrow> u' = u \<longrightarrow> v' = v \<longrightarrow> e' = e \<longrightarrow>
      (case fst y of Inl st \<Rightarrow> st = RE_NEED_RANDOM \<or> st = RE_DATA
        | Inr p \<Rightarrow> keygen_prime_ok bits digits (nn_val (take digits e)) p)", rule_format, OF _ that refl refl refl refl])
    fix f ta ua va ea random' y'
    assume IH: "\<And>ua va ea randomStruct b y. f ua va ea randomStruct b = Some y \<Longrightarrow> ua = t \<Longrightarrow> va = u \<Longrightarrow> ea = v
        \<Longrightarrow> randomStruct = e \<Longrightarrow> case fst y of Inl st \<Rightarrow> st = RE_NEED_RANDOM \<or> st = RE_DATA
          | Inr p \<Rightarrow> keygen_prime_ok bits digits (nn_val (take digits e)) p"
      and eq: "ta = t" "ua = u" "va = v" "ea = e"
      and body: "GeneratePrime ta ua va random' \<bind> (\<lambda>r. case r of (Inl status, randomStruct) \<Rightarrow> Some (Inl status, randomStruct)
              | (Inr p, randomStruct) \<Rightarrow> RSAFilter p ea \<bind> (\<lambda>ok. if ok then Some (Inr p, randomStruct)
                        else f ta ua va ea randomStruct)) = Some y'"
    obtain r rs where g: "GeneratePrime t u v random' = Some (r, rs)"
      "case r of Inl st \<Rightarrow> st = RE_NEED_RANDOM \<or> st = RE_DATA
         | Inr p \<Rightarrow> length p = digits \<and> 3 * 2 ^ (bits - 2) \<le> nn_val p \<and> nn_val p < 2 ^ bits \<and> probableprime p = Some True"
      using keygen_prime_draw [OF assms(1-3), of random'] by blast
    show "case fst y' of Inl st \<Rightarrow> st = RE_NEED_RANDOM \<or> st = RE_DATA
          | Inr p \<Rightarrow> keygen_prime_ok bits digits (nn_val (take digits e)) p"
    proof (cases r)
      case (Inl st)
      then show ?thesis using body g unfolding eq by auto
    next
      case (Inr p)
      then have p: "length p = digits" "3 * 2 ^ (bits - 2) \<le> nn_val p" "nn_val p < 2 ^ bits" "probableprime p = Some True"
        using g(2) by simp_all
      have "0 < nn_val p" using p(2) zero_less_power [of "2 :: nat" "bits - 2"] by linarith
      then have "RSAFilter p e = Some (coprime (nn_val (take digits e)) (nn_val p - 1))"
        using RSAFilter_val [of p e] assms(4) p(1) by (simp add: coprime_iff_gcd_eq_1 gcd.commute)
      then show ?thesis using body g(1) IH Inr p unfolding eq by (auto simp: keygen_prime_ok_def split: if_splits)
    qed
  qed
  then show ?thesis using assms(5) by fastforce
qed

lemma keygen_prime_product:
  assumes "keygen_prime_ok pBits digits E p" "keygen_prime_ok qBits digits E q" "2 \<le> pBits" "2 \<le> qBits"
  shows "2 ^ (pBits + qBits - 1) \<le> nn_val p * nn_val q" "nn_val p * nn_val q < 2 ^ (pBits + qBits)"
proof -
  obtain a b where ab: "pBits = a + 2" "qBits = b + 2" using assms(3,4) by (metis le_add_diff_inverse2)
  have "2 ^ (pBits + qBits - 1) = 8 * (2 ^ a * 2 ^ b :: nat)" unfolding ab by (simp add: power_add)
  moreover have "(3 * 2 ^ a) * (3 * 2 ^ b) \<le> nn_val p * nn_val q"
    using assms(1,2) unfolding ab by (intro mult_le_mono) (simp_all add: keygen_prime_ok_def)
  moreover have "(3 * 2 ^ a) * (3 * 2 ^ b) = 9 * (2 ^ a * 2 ^ b :: nat)" by simp
  ultimately show "2 ^ (pBits + qBits - 1) \<le> nn_val p * nn_val q" by linarith
  show "nn_val p * nn_val q < 2 ^ (pBits + qBits)"
    using assms(1,2) unfolding power_add by (intro mult_strict_mono) (simp_all add: keygen_prime_ok_def)
qed

lemma take_ASSIGN_DIGIT: "k \<le> n \<Longrightarrow> take k (NN_ASSIGN_DIGIT x n) = NN_ASSIGN_DIGIT x k"
  by (simp add: NN_ASSIGN_DIGIT_def NN_AssignZero_def take_update_swap min_def)

lemma R_GeneratePEMKeys_cases:
  assumes bits: "508 \<le> proto_bits proto" "proto_bits proto \<le> 1024"
    and r: "R_GeneratePEMKeys proto random = Some (res, random')"
  defines "bits \<equiv> proto_bits proto"
  defines "e \<equiv> NN_ASSIGN_DIGIT (if useFermat4 proto then 65537 else 3) ((bits + 31) div 32)"
  shows "res = Inl RE_NEED_RANDOM \<or> res = Inl RE_DATA \<or>
    (\<exists>p q keys. keygen_prime_ok ((bits + 1) div 2) ((bits + 63) div 64) (nn_val e) p
       \<and> keygen_prime_ok (bits - (bits + 1) div 2) ((bits + 63) div 64) (nn_val e) q
       \<and> keygen_keys bits e p q = Some keys \<and> res = Inr keys)"
proof -
  let ?pD = "(bits + 63) div 64" and ?pB = "(bits + 1) div 2" and ?qB = "bits - (bits + 1) div 2"
  obtain t u v where i: "keygen_interval ?pB ?pD = (t, u, v)" by (metis prod_cases3)
  obtain t' u' v' where i': "keygen_interval ?qB ?pD = (t', u', v')" by (metis prod_cases3)
  have b: "8 \<le> ?pB" "?pB \<le> 32 * ?pD" "8 \<le> ?qB" "?qB \<le> 32 * ?pD" using bits unfolding bits_def by linarith+
  have n: "0 < (bits + 31) div 32" "?pD \<le> (bits + 31) div 32" "0 < ?pD" using bits unfolding bits_def by linarith+
  then have e: "?pD \<le> length e" "nn_val (take ?pD e) = nn_val e"
    unfolding e_def take_ASSIGN_DIGIT [OF n(2)] by (simp_all only: nn_val_ASSIGN_DIGIT)
  note P = keygen_prime_val [OF b(1,2) i e(1), unfolded e(2)] and Q = keygen_prime_val [OF b(3,4) i' e(1), unfolded e(2)]
  have "\<not> (bits < MIN_RSA_MODULUS_BITS \<or> MAX_RSA_MODULUS_BITS < bits)"
    using bits by (simp add: bits_def MIN_RSA_MODULUS_BITS_def MAX_RSA_MODULUS_BITS_def)
  then have "(case keygen_interval ?pB ?pD of (t, u, v) \<Rightarrow>
       keygen_prime t u v e random \<bind> (\<lambda>r. case r of (Inl status, randomStruct) \<Rightarrow> Some (Inl status, randomStruct)
         | (Inr p, randomStruct) \<Rightarrow> (case keygen_interval ?qB ?pD of (t, u, v) \<Rightarrow>
            keygen_prime t u v e randomStruct \<bind> (\<lambda>r. case r of (Inl status, randomStruct) \<Rightarrow> Some (Inl status, randomStruct)
             | (Inr q, randomStruct) \<Rightarrow> keygen_keys bits e p q \<bind> (\<lambda>keys. Some (Inr keys, randomStruct)))))) = Some (res, random')"
    using r unfolding R_GeneratePEMKeys_def Let_def keygen_digits bits_def [symmetric] e_def [symmetric] by simp
  then obtain r rs where r1: "keygen_prime t u v e random = Some (r, rs)"
    and b1: "(case r of Inl status \<Rightarrow> Some (Inl status, rs)
         | Inr p \<Rightarrow> keygen_prime t' u' v' e rs \<bind> (\<lambda>r. case r of (Inl status, randomStruct) \<Rightarrow> Some (Inl status, randomStruct)
             | (Inr q, randomStruct) \<Rightarrow> keygen_keys bits e p q \<bind> (\<lambda>keys. Some (Inr keys, randomStruct)))) = Some (res, random')"
    unfolding i i' by (cases "keygen_prime t u v e random") auto
  show ?thesis
  proof (cases r)
    case (Inl st)
    then show ?thesis using P [OF r1] b1 by auto
  next
    case p: (Inr p)
    then obtain r' rs' where r2: "keygen_prime t' u' v' e rs = Some (r', rs')"
      and b2: "(case r' of Inl status \<Rightarrow> Some (Inl status, rs')
             | Inr q \<Rightarrow> keygen_keys bits e p q \<bind> (\<lambda>keys. Some (Inr keys, rs'))) = Some (res, random')"
      using b1 by (cases "keygen_prime t' u' v' e rs") auto
    show ?thesis using P [OF r1] Q [OF r2] b2 p by (cases r') (auto simp: bind_eq_Some_conv)
  qed
qed

text \<open>
  A key length out of range is refused; otherwise the status is that of the search for the primes, or the
  modulus of the keys made has exactly the length asked for, and the keys satisfy what the RSA operations
  rely on whenever the two numbers found, which have passed the probabilistic test, are different primes.
\<close>

theorem R_GeneratePEMKeys_correct:
  assumes "R_GeneratePEMKeys proto random = Some (res, random')"
  shows "case res of
      Inl st \<Rightarrow> (st = RE_MODULUS_LEN \<and> \<not> (508 \<le> proto_bits proto \<and> proto_bits proto \<le> 1024))
        \<or> (508 \<le> proto_bits proto \<and> proto_bits proto \<le> 1024 \<and> (st = RE_NEED_RANDOM \<or> st = RE_DATA))
    | Inr (pub, prv) \<Rightarrow> prv_bits prv = proto_bits proto \<and> 508 \<le> proto_bits proto \<and> proto_bits proto \<le> 1024
        \<and> 2 ^ (prv_bits prv - 1) \<le> rsa_p prv * rsa_q prv \<and> rsa_p prv * rsa_q prv < 2 ^ prv_bits prv
        \<and> (is_prime (rsa_p prv) \<and> is_prime (rsa_q prv) \<and> rsa_p prv \<noteq> rsa_q prv
              \<longrightarrow> rsa_keys_ok pub prv \<and> rsa_e pub = (if useFermat4 proto then 65537 else 3))"
proof (cases "508 \<le> proto_bits proto \<and> proto_bits proto \<le> 1024")
  case False
  then show ?thesis using assms
    by (auto simp: R_GeneratePEMKeys_def MIN_RSA_MODULUS_BITS_def MAX_RSA_MODULUS_BITS_def)
next
  case True
  let ?bits = "proto_bits proto"
  let ?e = "NN_ASSIGN_DIGIT (if useFermat4 proto then 65537 else 3) ((?bits + 31) div 32)"
  let ?pB = "(?bits + 1) div 2" and ?qB = "?bits - (?bits + 1) div 2" and ?pD = "(?bits + 63) div 64"
  consider "res = Inl RE_NEED_RANDOM" | "res = Inl RE_DATA"
    | p q pub prv where "keygen_prime_ok ?pB ?pD (nn_val ?e) p" "keygen_prime_ok ?qB ?pD (nn_val ?e) q"
        "keygen_keys ?bits ?e p q = Some (pub, prv)" "res = Inr (pub, prv)"
    using R_GeneratePEMKeys_cases [OF conjunct1 [OF True] conjunct2 [OF True] assms] by (metis surj_pair)
  then show ?thesis
  proof cases
    case 3
    have sz: "2 \<le> ?pB" "2 \<le> ?qB" "?pB + ?qB = ?bits" "12 \<le> ?bits" "0 < (?bits + 31) div 32" using True by linarith+
    note pr = keygen_prime_product [OF 3(1,2) sz(1,2), unfolded sz(3)]
    have len: "length p = ?pD" "length q = ?pD" using 3(1,2) by (simp_all add: keygen_prime_ok_def)
    note k = keygen_keys_primes [OF len conjunct2 [OF True] 3(3)]
    have mm: "rsa_p prv * rsa_q prv = nn_val p * nn_val q" unfolding k by (simp add: max_def min_def mult.commute)
    have e: "nn_val ?e = (if useFermat4 proto then 65537 else 3)" "length ?e = (?bits + 31) div 32" "nn_val (take 1 ?e) = nn_val ?e"
      using nn_val_ASSIGN_DIGIT [OF sz(5)] take_ASSIGN_DIGIT [of 1 "(?bits + 31) div 32"] sz(5) nn_val_ASSIGN_DIGIT [of 1] by simp_all
    have g: "2 < nn_val p" "2 < nn_val q"
      using 3(1,2) zero_less_power [of "2 :: nat" "?pB - 2"] zero_less_power [of "2 :: nat" "?qB - 2"]
      unfolding keygen_prime_ok_def by linarith+
    have "rsa_keys_ok pub prv \<and> rsa_e pub = nn_val ?e" if "is_prime (rsa_p prv)" "is_prime (rsa_q prv)" "rsa_p prv \<noteq> rsa_q prv"
    proof -
      have "is_prime (nn_val p)" "is_prime (nn_val q)" "nn_val p \<noteq> nn_val q" using that unfolding k by (auto simp: max_def min_def split: if_splits)
      then show ?thesis
        using keygen_keys_made [OF len e(2) sz(4) conjunct2 [OF True] pr _ _ g _ _ _ e(3)] 3(1-3) by (simp add: keygen_prime_ok_def)
    qed
    then show ?thesis using 3(4) k(3) pr e(1) True unfolding mm [symmetric] by simp
  qed (use True in simp_all)
qed

lemma keygen_keys_correct_witness:
  "\<exists>pub prv. keygen_keys 96 [65537, 0, 0] [886918433, 47033] [351403547, 49185] = Some (pub, prv)
     \<and> rsa_keys_ok pub prv \<and> rsa_p prv = 211248317857307 \<and> rsa_q prv = 202006083751201 \<and> rsa_e pub = 65537"
proof -
  have c: "coprime 65537 (211248317857307 - 1 :: nat)" "coprime 65537 (202006083751201 - 1 :: nat)"
    by (simp_all add: coprime_iff_gcd_eq_1 gcd_non_0_nat)
  show ?thesis
    using keygen_keys_correct [of "[886918433, 47033]" 96 "[351403547, 49185]" "[65537, 0, 0]"] c
    by (simp add: prime_211248317857307 prime_202006083751201 max_def min_def) metis
qed

lemma R_GeneratePEMKeys_correct_witness:
  "R_GeneratePEMKeys \<lparr>proto_bits = 507, useFermat4 = True\<rparr> (example_random 16) = Some (Inl RE_MODULUS_LEN, example_random 16)
    \<and> RE_MODULUS_LEN \<noteq> RE_NEED_RANDOM"
proof -
  have r: "R_GeneratePEMKeys \<lparr>proto_bits = 507, useFermat4 = True\<rparr> (example_random 16) = Some (Inl RE_MODULUS_LEN, example_random 16)"
    by (simp add: R_GeneratePEMKeys_def MIN_RSA_MODULUS_BITS_def)
  from R_GeneratePEMKeys_correct [OF this] r show ?thesis by (simp add: RE_MODULUS_LEN_def RE_NEED_RANDOM_def)
qed

end
