(* ===== verification/R_DH.thy ===== *)
theory R_DH
  imports R_Prime RSA_Example
begin

text \<open>
  \<^verbatim>\<open>QBase/RSAEuro/r_dh.c\<close>: Diffie-Hellman key agreement. The byte strings of the parameters carry
  their lengths; arrays that the source leaves uninitialised before a routine fills them are shown as zeros.
\<close>

section \<open>The operations\<close>

record r_dh_params =
  dh_prime :: "byte list"
  dh_generator :: "byte list"

definition DH_PRIME_LEN :: "nat \<Rightarrow> nat" where "DH_PRIME_LEN bits = (bits + 7) div 8"

text \<open>The upper bound of an interval that starts at the power of two \<open>t\<close>.\<close>

definition dh_PREP :: "nn_digit list \<Rightarrow> nat \<Rightarrow> nn_digit list" where
  "dh_PREP t digits =
     (let x = NN_Assign t digits;
          z = NN_ASSIGN_DIGIT 1 digits;
          z = fst (NN_Sub t z)
      in fst (NN_Add x z))"

text \<open>
  The six numbers are arrays of \<^verbatim>\<open>MAX_NN_DIGITS\<close> digits on the stack, and nothing compares the length asked for with that: the first
  routine that fills one writes behind it when the prime is longer.
\<close>

definition R_GenerateDHParams ::
  "nat \<Rightarrow> nat \<Rightarrow> r_random_struct \<Rightarrow> (cfault + (int + r_dh_params) \<times> r_random_struct) option" where
  "R_GenerateDHParams primeBits subPrimeBits randomStruct =
     (let pDigits = (primeBits + 31) mod 2 ^ 32 div 32
      in if pDigits > MAX_NN_DIGITS then Some (Inl OutOfBounds)
         else let t = NN_Assign2Exp (subPrimeBits - 1) pDigits;
                  u = dh_PREP t pDigits;
                  v = NN_ASSIGN_DIGIT 2 pDigits
      in do { r \<leftarrow> GeneratePrime t u v randomStruct;
              (case r of
                 (Inl status, randomStruct) \<Rightarrow> Some (Inr (Inl status, randomStruct))
               | (Inr q, randomStruct) \<Rightarrow>
                  (let t = NN_Assign2Exp (primeBits - 1) pDigits;
                       u = dh_PREP t pDigits;
                       v = fst (NN_LShift v q 1)
                   in do { r \<leftarrow> GeneratePrime t u v randomStruct;
                           (case r of
                              (Inl status, randomStruct) \<Rightarrow> Some (Inr (Inl status, randomStruct))
                            | (Inr p, randomStruct) \<Rightarrow>
                               (let g = NN_ASSIGN_DIGIT 2 pDigits
                                in do { (t, u) \<leftarrow> NN_Div t u p q;
                                        g \<leftarrow> NN_ModExp g t p;
                                        let primeLen = DH_PRIME_LEN primeBits;
                                        Some (Inr (Inr \<lparr>dh_prime = NN_Encode primeLen p, dh_generator = NN_Encode primeLen g\<rparr>,
                                              randomStruct)) })) })) })"

text \<open>The public and the private value of one party.\<close>

definition R_SetupDHAgreement ::
  "nat \<Rightarrow> r_dh_params \<Rightarrow> r_random_struct \<Rightarrow> ((int + byte list \<times> byte list) \<times> r_random_struct) option" where
  "R_SetupDHAgreement privateValueLen params randomStruct =
     (let p = NN_Decode MAX_NN_DIGITS (dh_prime params);
          pDigits = NN_Digits p;
          g = NN_Decode pDigits (dh_generator params)
      in case R_GenerateBytes privateValueLen randomStruct of
           (status, privateValue, randomStruct) \<Rightarrow>
             if status \<noteq> 0 then Some (Inl status, randomStruct)
             else let x = NN_Decode pDigits privateValue;
                      xDigits = NN_Digits x
                  in do { y \<leftarrow> NN_ModExp g (take xDigits x) (take pDigits p);
                          Some (Inr (NN_Encode (length (dh_prime params)) y, privateValue), randomStruct) })"

definition R_ComputeDHAgreedKey ::
  "byte list \<Rightarrow> byte list \<Rightarrow> r_dh_params \<Rightarrow> (int + byte list) option" where
  "R_ComputeDHAgreedKey otherPublicValue privateValue params =
     (let p = NN_Decode MAX_NN_DIGITS (dh_prime params);
          pDigits = NN_Digits p;
          x = NN_Decode pDigits privateValue;
          y = NN_Decode pDigits otherPublicValue;
          xDigits = NN_Digits x
      in if NN_Cmp y p pDigits \<ge> 0 then Some (Inl RE_DATA)
         else do { z \<leftarrow> NN_ModExp y (take xDigits x) (take pDigits p);
                   Some (Inr (NN_Encode (length (dh_prime params)) z)) })"

section \<open>Agreement\<close>

definition dh_p :: "r_dh_params \<Rightarrow> nat" where "dh_p params = be_val (dh_prime params)"

text \<open>A byte string read into as many digits as the prime has.\<close>

definition dh_num :: "r_dh_params \<Rightarrow> byte list \<Rightarrow> nat" where
  "dh_num params b = be_val b mod NN_B ^ NN_Digits (NN_Decode MAX_NN_DIGITS (dh_prime params))"

definition dh_params_ok :: "r_dh_params \<Rightarrow> bool" where
  "dh_params_ok params \<longleftrightarrow> 1 < dh_p params \<and> length (dh_prime params) \<le> 128"

lemma dh_prime_val:
  assumes "dh_params_ok params"
  defines "p \<equiv> NN_Decode MAX_NN_DIGITS (dh_prime params)"
  shows "nn_val (take (NN_Digits p) p) = dh_p params" "length (take (NN_Digits p) p) = NN_Digits p"
    "dh_p params < NN_B ^ NN_Digits p" "dh_p params < 256 ^ length (dh_prime params)"
proof -
  have v: "nn_val p = dh_p params"
    unfolding p_def dh_p_def by (rule NN_Decode_full(1)) (use assms(1) in \<open>simp add: dh_params_ok_def\<close>)
  show "nn_val (take (NN_Digits p) p) = dh_p params" using NN_Digits_props(2) [of p] v by simp
  show "length (take (NN_Digits p) p) = NN_Digits p" using NN_Digits_props(1) [of p] by simp
  show "dh_p params < NN_B ^ NN_Digits p" using NN_Digits_bounds(1) [of p] v by simp
  show "dh_p params < 256 ^ length (dh_prime params)" unfolding dh_p_def by (rule be_val_less)
qed

lemma dh_exp:
  assumes "dh_params_ok params"
  defines "p \<equiv> NN_Decode MAX_NN_DIGITS (dh_prime params)"
  shows "\<exists>y. NN_ModExp (NN_Decode (NN_Digits p) b) (take (NN_Digits (NN_Decode (NN_Digits p) c)) (NN_Decode (NN_Digits p) c))
       (take (NN_Digits p) p) = Some y \<and> nn_val y = dh_num params b ^ dh_num params c mod dh_p params"
proof -
  note P = dh_prime_val [OF assms(1), folded p_def]
  have "1 < nn_val (take (NN_Digits p) p)" unfolding P using assms(1) by (simp add: dh_params_ok_def)
  moreover have pv: "nn_val p = dh_p params" using P(1) NN_Digits_props(2) [of p] by simp
  moreover have nb: "nn_val (NN_Decode (NN_Digits p) b) = dh_num params b" for b by (simp add: NN_Decode_val dh_num_def p_def)
  ultimately show ?thesis
    using NN_ModExp_val [of "take (NN_Digits p) p" "NN_Decode (NN_Digits p) b"
        "take (NN_Digits (NN_Decode (NN_Digits p) c)) (NN_Decode (NN_Digits p) c)"]
    unfolding P(2) NN_Digits_props(2) nb NN_Decode_val(2) pv by blast
qed

lemma R_SetupDHAgreement_val:
  assumes "dh_params_ok params" "R_GenerateBytes len random = (ID_OK, x, random')"
  shows "R_SetupDHAgreement len params random
     = Some (Inr (be_bytes (length (dh_prime params)) (dh_num params (dh_generator params) ^ dh_num params x mod dh_p params), x), random')"
  using dh_exp [OF assms(1), of "dh_generator params" x] assms(2)
  by (auto simp: R_SetupDHAgreement_def Let_def ID_OK_def NN_Encode_val)

lemma R_ComputeDHAgreedKey_val:
  assumes "dh_params_ok params" "dh_num params y < dh_p params"
  shows "R_ComputeDHAgreedKey y x params
     = Some (Inr (be_bytes (length (dh_prime params)) (dh_num params y ^ dh_num params x mod dh_p params)))"
proof -
  define p where "p = NN_Decode MAX_NN_DIGITS (dh_prime params)"
  note P = dh_prime_val [OF assms(1), folded p_def]
  have l: "NN_Digits p \<le> length p" by (rule NN_Digits_props)
  have y: "nn_val (NN_Decode (NN_Digits p) y) = dh_num params y" by (simp add: NN_Decode_val dh_num_def p_def)
  have "\<not> NN_Cmp (NN_Decode (NN_Digits p) y) p (NN_Digits p) \<ge> 0"
    using assms(2) P(1) l y by (simp add: NN_Cmp_def nn_cmp_val NN_Decode_val(2))
  then show ?thesis using dh_exp [OF assms(1), of y x, folded p_def]
    by (auto simp: R_ComputeDHAgreedKey_def Let_def NN_Encode_val p_def [symmetric])
qed

lemma dh_num_public:
  assumes "dh_params_ok params" "v < dh_p params"
  shows "dh_num params (be_bytes (length (dh_prime params)) v) = v"
  using assms(2) dh_prime_val(3,4) [OF assms(1)] by (simp add: dh_num_def be_val_be_bytes)

text \<open>
  C19. Two parties that have set themselves up with the same parameters, each with a private value of its own
  length, and have exchanged their public values compute the same key: the generator raised to the product
  of the private values, modulo the prime, in as many bytes as the prime has.
\<close>

theorem DH_agreement:
  assumes "dh_params_ok params" "bytesNeeded r1 = 0" "bytesNeeded r2 = 0"
  shows "\<exists>y1 x1 r1' y2 x2 r2' key.
      R_SetupDHAgreement len1 params r1 = Some (Inr (y1, x1), r1')
    \<and> R_SetupDHAgreement len2 params r2 = Some (Inr (y2, x2), r2')
    \<and> R_ComputeDHAgreedKey y2 x1 params = Some (Inr key) \<and> R_ComputeDHAgreedKey y1 x2 params = Some (Inr key)
    \<and> length key = length (dh_prime params)
    \<and> be_val key = dh_num params (dh_generator params) ^ (dh_num params x1 * dh_num params x2) mod dh_p params"
proof -
  let ?P = "dh_p params" and ?G = "dh_num params (dh_generator params)" and ?l = "length (dh_prime params)"
  obtain x1 r1' where 1: "R_GenerateBytes len1 r1 = (ID_OK, x1, r1')"
    using assms(2) by (cases "rnd_loop r1 (outputAvailable r1) len1 []") (simp add: R_GenerateBytes_def)
  obtain x2 r2' where 2: "R_GenerateBytes len2 r2 = (ID_OK, x2, r2')"
    using assms(3) by (cases "rnd_loop r2 (outputAvailable r2) len2 []") (simp add: R_GenerateBytes_def)
  let ?y1 = "?G ^ dh_num params x1 mod ?P" and ?y2 = "?G ^ dh_num params x2 mod ?P"
  have P: "1 < ?P" using assms(1) by (simp add: dh_params_ok_def)
  then have y: "?y1 < ?P" "?y2 < ?P" by simp_all
  note n = dh_num_public [OF assms(1) y(1)] dh_num_public [OF assms(1) y(2)]
  have "?y2 ^ dh_num params x1 mod ?P = ?G ^ (dh_num params x1 * dh_num params x2) mod ?P"
    "?y1 ^ dh_num params x2 mod ?P = ?G ^ (dh_num params x1 * dh_num params x2) mod ?P"
    by (simp_all add: power_mod power_mult [symmetric] mult.commute)
  then have c: "R_ComputeDHAgreedKey (be_bytes ?l ?y2) x1 params = Some (Inr (be_bytes ?l (?G ^ (dh_num params x1 * dh_num params x2) mod ?P)))"
    "R_ComputeDHAgreedKey (be_bytes ?l ?y1) x2 params = Some (Inr (be_bytes ?l (?G ^ (dh_num params x1 * dh_num params x2) mod ?P)))"
    using R_ComputeDHAgreedKey_val [OF assms(1), of "be_bytes ?l ?y2" x1] R_ComputeDHAgreedKey_val [OF assms(1), of "be_bytes ?l ?y1" x2] y n
    by simp_all
  have "?G ^ (dh_num params x1 * dh_num params x2) mod ?P < 256 ^ ?l"
    using P dh_prime_val(4) [OF assms(1)] mod_less_divisor [of ?P] by (meson less_trans zero_less_one)
  then have "be_val (be_bytes ?l (?G ^ (dh_num params x1 * dh_num params x2) mod ?P)) = ?G ^ (dh_num params x1 * dh_num params x2) mod ?P"
    unfolding be_val_be_bytes by (rule mod_less)
  then show ?thesis using c R_SetupDHAgreement_val [OF assms(1) 1] R_SetupDHAgreement_val [OF assms(1) 2] length_be_bytes by metis
qed

lemma DH_agreement_witness:
  "\<exists>y1 x1 r1' y2 x2 r2' key.
      R_SetupDHAgreement 2 \<lparr>dh_prime = [97], dh_generator = [5]\<rparr> (example_random 16) = Some (Inr (y1, x1), r1')
    \<and> R_SetupDHAgreement 3 \<lparr>dh_prime = [97], dh_generator = [5]\<rparr> (example_random 9) = Some (Inr (y2, x2), r2')
    \<and> R_ComputeDHAgreedKey y2 x1 \<lparr>dh_prime = [97], dh_generator = [5]\<rparr> = Some (Inr key)
    \<and> R_ComputeDHAgreedKey y1 x2 \<lparr>dh_prime = [97], dh_generator = [5]\<rparr> = Some (Inr key) \<and> length key = 1"
  using DH_agreement [of "\<lparr>dh_prime = [97], dh_generator = [5]\<rparr>" "example_random 16" "example_random 9" 2 3]
  by (auto simp: dh_params_ok_def dh_p_def be_val_def example_random_def)

section \<open>The parameters\<close>

lemma dh_PREP_val:
  assumes "nn_val t = 2 ^ (k - 1)" "length t = digits" "0 < k" "k \<le> 32 * digits"
  shows "nn_val (dh_PREP t digits) = 2 ^ k - 1" "length (dh_PREP t digits) = digits"
proof -
  have n: "0 < digits" using assms(3,4) by (cases digits) auto
  have e: "2 ^ k = (2 :: nat) * 2 ^ (k - 1)" using assms(3) by (cases k) simp_all
  have "(2 :: nat) ^ k \<le> 2 ^ (32 * digits)" using assms(4) by (rule power_increasing) simp
  then have B: "2 ^ k \<le> NN_B ^ digits" by (simp add: power_mult)
  let ?z = "fst (NN_Sub t (NN_ASSIGN_DIGIT 1 digits))"
  have z: "nn_val ?z = 2 ^ (k - 1) - 1" "length ?z = digits"
    using NN_Sub_val [of t "NN_ASSIGN_DIGIT 1 digits"] nn_val_ASSIGN_DIGIT [OF n, of 1] assms(1,2) by simp_all
  have p: "0 < (2 :: nat) ^ (k - 1)" by simp
  have "2 ^ (k - 1) + (2 ^ (k - 1) - 1) < NN_B ^ digits" using B e p by linarith
  then have "nn_val (fst (NN_Add t ?z)) = 2 ^ (k - 1) + (2 ^ (k - 1) - 1)" "length (fst (NN_Add t ?z)) = digits"
    using NN_Add_val [of t ?z] z assms(1,2) by simp_all
  then show "nn_val (dh_PREP t digits) = 2 ^ k - 1" "length (dh_PREP t digits) = digits"
    using assms(2) e by (simp_all add: dh_PREP_def Let_def NN_Assign_def)
qed

text \<open>A draw from the numbers of \<open>k\<close> bits, in even steps.\<close>

lemma dh_draw:
  assumes "2 \<le> k" "k \<le> 32 * digits" "length d = digits" "even (nn_val d)" "0 < nn_val d" "nn_val d < 2 ^ (k - 1)"
  defines "t \<equiv> NN_Assign2Exp (k - 1) digits"
  shows "\<exists>r random'. GeneratePrime t (dh_PREP t digits) d random = Some (r, random')
     \<and> (case r of Inl st \<Rightarrow> st = RE_NEED_RANDOM \<or> st = RE_DATA
         | Inr a \<Rightarrow> length a = digits \<and> 2 ^ (k - 1) \<le> nn_val a \<and> nn_val a < 2 ^ k
             \<and> nn_val a mod nn_val d = 1 \<and> probableprime a = Some True)"
proof -
  have t: "nn_val t = 2 ^ (k - 1)" "length t = digits" using NN_Assign2Exp_val [of "k - 1" digits] assms(1,2) by (simp_all add: t_def)
  have u: "nn_val (dh_PREP t digits) = 2 ^ k - 1" "length (dh_PREP t digits) = digits"
    using dh_PREP_val [OF t] assms(1,2) by simp_all
  obtain j where j: "k = j + 2" using assms(1) by (metis le_add_diff_inverse2)
  have e: "2 ^ k = (2 :: nat) * 2 ^ (k - 1)" "(1 :: nat) < 2 ^ (k - 1)" using one_less_power [of "2 :: nat" "j + 1"] unfolding j by simp_all
  have ord: "1 < nn_val t" "nn_val t \<le> nn_val (dh_PREP t digits)" "nn_val d \<le> nn_val (dh_PREP t digits) - nn_val t"
    using t(1) u(1) e assms(6) by linarith+
  have "odd (nn_val (dh_PREP t digits))" unfolding u(1) e(1) by (simp add: even_diff_nat)
  then have "\<not> nn_val d dvd nn_val (dh_PREP t digits)" using assms(4) dvd_trans by blast
  then obtain r random' where g: "GeneratePrime t (dh_PREP t digits) d random = Some (r, random')"
    "case r of Inl st \<Rightarrow> st = RE_NEED_RANDOM \<and> bytesNeeded random \<noteq> 0 \<or> st = RE_DATA \<and> bytesNeeded random = 0
      | Inr a \<Rightarrow> length a = digits \<and> nn_val t \<le> nn_val a \<and> nn_val a \<le> nn_val (dh_PREP t digits)
          \<and> nn_val a mod nn_val d = 1 mod nn_val d \<and> probableprime a = Some True"
    using GeneratePrime_val [OF t(2) u(2) assms(3) ord(1,2) assms(5) ord(3), of random] by blast
  have "nn_val d \<noteq> 1" using assms(4) by auto
  then have "1 mod nn_val d = 1" using assms(5) by simp
  moreover have "nn_val a < 2 ^ k" if "nn_val a \<le> nn_val (dh_PREP t digits)" for a using that u(1) e by linarith
  ultimately show ?thesis using g t(1) by (cases r) auto
qed

text \<open>The generator: the power of two to the cofactor has an order that divides the subprime.\<close>

lemma dh_generator_order:
  assumes "is_prime P" "2 < P" "P mod Q = 1" "0 < Q"
  shows "(2 ^ (P div Q) mod P) ^ Q mod P = 1"
proof -
  have "P div Q * Q = P - 1" using assms(3) minus_mod_eq_div_mult [of P Q] by simp
  then have "(2 ^ (P div Q)) ^ Q = (2 :: nat) ^ (P - 1)" by (simp add: power_mult [symmetric])
  moreover have "\<not> P dvd 2" using assms(2) by (auto dest: dvd_imp_le)
  ultimately show ?thesis using fermat_one [OF assms(1), of 2] by (simp add: power_mod)
qed

lemma dh_double:
  assumes "2 * nn_val q < 2 ^ (k - 1)" "k \<le> 32 * length q"
  shows "nn_val (fst (NN_LShift v q 1)) = 2 * nn_val q" "length (fst (NN_LShift v q 1)) = length q"
proof -
  obtain d c where d: "NN_LShift v q 1 = (d, c)" by force
  note l = NN_LShift_val [OF _ d]
  have "(2 :: nat) ^ (k - 1) \<le> 2 ^ (32 * length q)" using assms(2) by (intro power_increasing) simp_all
  then have B: "2 * nn_val q < NN_B ^ length q" using assms(1) by (simp add: power_mult)
  have "unat c = 0"
  proof (rule ccontr)
    assume "unat c \<noteq> 0"
    then have "NN_B ^ length q * 1 \<le> NN_B ^ length q * unat c" by (intro mult_le_mono2) simp
    moreover have "nn_val d + NN_B ^ length q * unat c = nn_val q * 2" using l(1) by simp
    ultimately show False using B by linarith
  qed
  then show "nn_val (fst (NN_LShift v q 1)) = 2 * nn_val q" "length (fst (NN_LShift v q 1)) = length q" using l(1,2) d by simp_all
qed

lemma dh_params_made:
  assumes "length p = (primeBits + 31) div 32" "length q = length p" "0 < nn_val q" "2 \<le> primeBits"
    "2 ^ (primeBits - 1) \<le> nn_val p" "nn_val p < 2 ^ primeBits"
  shows "\<exists>t' u' g. NN_Div t u p q = Some (t', u') \<and> NN_ModExp (NN_ASSIGN_DIGIT 2 ((primeBits + 31) div 32)) t' p = Some g
     \<and> be_val (NN_Encode (DH_PRIME_LEN primeBits) p) = nn_val p
     \<and> be_val (NN_Encode (DH_PRIME_LEN primeBits) g) = 2 ^ (nn_val p div nn_val q) mod nn_val p"
proof -
  have "2 ^ 1 \<le> (2 :: nat) ^ (primeBits - 1)" using assms(4) by (intro power_increasing) simp_all
  then have P: "1 < nn_val p" using assms(5) by simp
  obtain t' u' where d: "NN_Div t u p q = Some (t', u')" "nn_val t' = nn_val p div nn_val q"
    using NN_Div_val [OF assms(3), of t u p] by auto
  have D: "0 < (primeBits + 31) div 32" using assms(4) by linarith
  note two = nn_val_ASSIGN_DIGIT [OF D, of 2]
  obtain g where g: "NN_ModExp (NN_ASSIGN_DIGIT 2 ((primeBits + 31) div 32)) t' p = Some g"
    "nn_val g = 2 ^ (nn_val p div nn_val q) mod nn_val p"
    using NN_ModExp_val [OF P, of "NN_ASSIGN_DIGIT 2 ((primeBits + 31) div 32)" t'] two assms(1) d(2) by auto
  have "primeBits \<le> 8 * DH_PRIME_LEN primeBits" unfolding DH_PRIME_LEN_def by linarith
  then have "(2 :: nat) ^ primeBits \<le> 2 ^ (8 * DH_PRIME_LEN primeBits)" by (intro power_increasing) simp_all
  then have f: "nn_val p < 256 ^ DH_PRIME_LEN primeBits" using assms(6) by (simp add: power_mult)
  moreover have "nn_val g < nn_val p" unfolding g(2) using P by simp
  ultimately show ?thesis using d(1) g by (simp add: NN_Encode_val be_val_be_bytes)
qed

lemma dh_second_draw:
  assumes "3 \<le> subPrimeBits" "subPrimeBits + 2 \<le> primeBits" "length q = (primeBits + 31) div 32"
    and "2 ^ (subPrimeBits - 1) \<le> nn_val q" "nn_val q < 2 ^ subPrimeBits"
  defines "t \<equiv> NN_Assign2Exp (primeBits - 1) ((primeBits + 31) div 32)"
  shows "\<exists>r random'. GeneratePrime t (dh_PREP t ((primeBits + 31) div 32)) (fst (NN_LShift v q 1)) random = Some (r, random')
     \<and> (case r of Inl st \<Rightarrow> st = RE_NEED_RANDOM \<or> st = RE_DATA
         | Inr a \<Rightarrow> length a = (primeBits + 31) div 32 \<and> 2 ^ (primeBits - 1) \<le> nn_val a \<and> nn_val a < 2 ^ primeBits
             \<and> nn_val a mod (2 * nn_val q) = 1)"
proof -
  have D: "primeBits \<le> 32 * ((primeBits + 31) div 32)" by linarith
  have "2 * nn_val q < 2 ^ (subPrimeBits + 1)" using assms(5) by simp
  also have "(2 :: nat) ^ (subPrimeBits + 1) \<le> 2 ^ (primeBits - 1)" using assms(2) by (intro power_increasing) simp_all
  finally have pw: "2 * nn_val q < 2 ^ (primeBits - 1)" .
  have d: "nn_val (fst (NN_LShift v q 1)) = 2 * nn_val q" "length (fst (NN_LShift v q 1)) = (primeBits + 31) div 32"
    using dh_double [of q primeBits v] pw assms(3) D by simp_all
  have "0 < nn_val q" using assms(4) zero_less_power [of "2 :: nat" "subPrimeBits - 1"] by linarith
  then show ?thesis using dh_draw [OF _ D d(2), of random] d(1) pw assms(1,2) unfolding t_def by (fastforce split: sum.splits)
qed

lemma dh_group:
  assumes "3 \<le> subPrimeBits" "subPrimeBits + 2 \<le> primeBits" "2 ^ (subPrimeBits - 1) \<le> Q" "2 ^ (primeBits - 1) \<le> P" "P mod (2 * Q) = 1"
  shows "2 ^ (P div Q) mod P < P" "is_prime P \<Longrightarrow> (2 ^ (P div Q) mod P) ^ Q mod P = 1"
proof -
  have "(2 :: nat) ^ 2 \<le> 2 ^ (primeBits - 1)" using assms(1,2) by (intro power_increasing) simp_all
  then have big: "2 < P" using assms(4) by simp
  have q: "1 < Q" using assms(3) one_less_power [of "2 :: nat" "subPrimeBits - 1"] assms(1) by linarith
  then have one: "P mod Q = 1" using mod_mod_cancel [of Q "2 * Q" P] assms(5) by simp
  show "2 ^ (P div Q) mod P < P" using big by simp
  show "(2 ^ (P div Q) mod P) ^ Q mod P = 1" if "is_prime P" using dh_generator_order [OF that big one] q by simp
qed

text \<open>What generated parameters satisfy, with the subprime \<open>q\<close>.\<close>

definition dh_made :: "nat \<Rightarrow> nat \<Rightarrow> r_dh_params \<Rightarrow> nat \<Rightarrow> bool" where
  "dh_made primeBits subPrimeBits params q \<longleftrightarrow>
     2 ^ (primeBits - 1) \<le> dh_p params \<and> dh_p params < 2 ^ primeBits \<and> 2 ^ (subPrimeBits - 1) \<le> q \<and> q < 2 ^ subPrimeBits
     \<and> dh_p params mod (2 * q) = 1 \<and> be_val (dh_generator params) < dh_p params
     \<and> (is_prime (dh_p params) \<longrightarrow> be_val (dh_generator params) ^ q mod dh_p params = 1)"

lemma dh_generates:
  assumes "3 \<le> subPrimeBits" "subPrimeBits + 2 \<le> primeBits" "primeBits \<le> 1056"
  shows "\<exists>r random'. R_GenerateDHParams primeBits subPrimeBits random = Some (Inr (r, random'))
     \<and> (case r of Inl st \<Rightarrow> st = RE_NEED_RANDOM \<or> st = RE_DATA | Inr params \<Rightarrow> \<exists>q. dh_made primeBits subPrimeBits params q)"
proof -
  let ?D = "(primeBits + 31) div 32"
  define t1 t2 where "t1 = NN_Assign2Exp (subPrimeBits - 1) ?D" and "t2 = NN_Assign2Exp (primeBits - 1) ?D"
  define v where "v = NN_ASSIGN_DIGIT 2 ?D"
  have m: "(primeBits + 31) mod 2 ^ 32 = primeBits + 31" "\<not> MAX_NN_DIGITS < ?D"
    using assms(3) by (simp_all add: MAX_NN_DIGITS_def MAX_RSA_MODULUS_LEN_def)
  note unf = R_GenerateDHParams_def Let_def m(1) if_not_P [OF m(2)] t1_def [symmetric] t2_def [symmetric] v_def [symmetric]
  have D: "0 < ?D" "subPrimeBits \<le> 32 * ?D" using assms(1,2) by linarith+
  have v: "nn_val v = 2" "length v = ?D" using nn_val_ASSIGN_DIGIT [OF D(1), of 2] by (simp_all add: v_def)
  have "(2 :: nat) ^ 2 \<le> 2 ^ (subPrimeBits - 1)" using assms(1) by (intro power_increasing) simp_all
  then have "nn_val v < 2 ^ (subPrimeBits - 1)" using v(1) by simp
  then obtain r1 rs1 where g1: "GeneratePrime t1 (dh_PREP t1 ?D) v random = Some (r1, rs1)"
    "case r1 of Inl st \<Rightarrow> st = RE_NEED_RANDOM \<or> st = RE_DATA
      | Inr a \<Rightarrow> length a = ?D \<and> 2 ^ (subPrimeBits - 1) \<le> nn_val a \<and> nn_val a < 2 ^ subPrimeBits
          \<and> nn_val a mod nn_val v = 1 \<and> probableprime a = Some True"
    using dh_draw [OF _ D(2) v(2), of random] v(1) assms(1) unfolding t1_def by auto
  show ?thesis
  proof (cases r1)
    case (Inl st)
    then show ?thesis using g1 unfolding unf by auto
  next
    case q: (Inr q)
    then have Q: "length q = ?D" "2 ^ (subPrimeBits - 1) \<le> nn_val q" "nn_val q < 2 ^ subPrimeBits" using g1(2) by simp_all
    obtain r2 rs2 where g2: "GeneratePrime t2 (dh_PREP t2 ?D) (fst (NN_LShift v q 1)) rs1 = Some (r2, rs2)"
      "case r2 of Inl st \<Rightarrow> st = RE_NEED_RANDOM \<or> st = RE_DATA
        | Inr a \<Rightarrow> length a = ?D \<and> 2 ^ (primeBits - 1) \<le> nn_val a \<and> nn_val a < 2 ^ primeBits \<and> nn_val a mod (2 * nn_val q) = 1"
      using dh_second_draw [OF assms(1,2) Q, of v rs1] unfolding t2_def by auto
    show ?thesis
    proof (cases r2)
      case (Inl st)
      then show ?thesis using g1 g2 q unfolding unf by auto
    next
      case p: (Inr p)
      then have P: "length p = ?D" "2 ^ (primeBits - 1) \<le> nn_val p" "nn_val p < 2 ^ primeBits" "nn_val p mod (2 * nn_val q) = 1"
        using g2(2) by simp_all
      have "0 < nn_val q" using Q(2) zero_less_power [of "2 :: nat" "subPrimeBits - 1"] by linarith
      then obtain params where m: "R_GenerateDHParams primeBits subPrimeBits random = Some (Inr (Inr params, rs2))"
        "dh_p params = nn_val p" "be_val (dh_generator params) = 2 ^ (nn_val p div nn_val q) mod nn_val p"
        using dh_params_made [of p primeBits q t2 "dh_PREP t2 ?D"] g1(1) g2(1) q p P Q(1) assms(1,2) unfolding unf by (auto simp: dh_p_def)
      then show ?thesis using dh_group [OF assms(1,2) Q(2) P(2,4)] P Q(2,3) by (auto simp: dh_made_def intro!: exI [of _ "nn_val q"])
    qed
  qed
qed

text \<open>
  C20. For a subprime of at least three bits and a prime that has at least two bits more, up to the 1056 bits of the arrays, the generation of parameters returns. The parameters
  it makes hold a number of the length asked for that passed the test and is one modulo twice a number of the subprime's length that passed it
  too, and when the first is prime the generator's order divides the second. A longer prime overwrites the stack.
\<close>

theorem R_GenerateDHParams_correct:
  assumes "3 \<le> subPrimeBits" "subPrimeBits + 2 \<le> primeBits" "primeBits < 2 ^ 32 - 31"
  shows "(primeBits \<le> 1056 \<longrightarrow> (\<exists>r random'. R_GenerateDHParams primeBits subPrimeBits random = Some (Inr (r, random'))
         \<and> (case r of Inl st \<Rightarrow> st = RE_NEED_RANDOM \<or> st = RE_DATA
             | Inr params \<Rightarrow> \<exists>q. dh_made primeBits subPrimeBits params q)))
    \<and> (1056 < primeBits \<longrightarrow> R_GenerateDHParams primeBits subPrimeBits random = Some (Inl OutOfBounds))"
proof (intro conjI impI)
  assume "primeBits \<le> 1056"
  then show "\<exists>r random'. R_GenerateDHParams primeBits subPrimeBits random = Some (Inr (r, random'))
      \<and> (case r of Inl st \<Rightarrow> st = RE_NEED_RANDOM \<or> st = RE_DATA | Inr params \<Rightarrow> \<exists>q. dh_made primeBits subPrimeBits params q)"
    using dh_generates [OF assms(1,2)] by blast
next
  assume "1056 < primeBits"
  moreover have "(primeBits + 31) mod 2 ^ 32 = primeBits + 31" using assms(3) by simp
  ultimately have "MAX_NN_DIGITS < (primeBits + 31) mod 2 ^ 32 div 32" by (simp add: MAX_NN_DIGITS_def MAX_RSA_MODULUS_LEN_def)
  then show "R_GenerateDHParams primeBits subPrimeBits random = Some (Inl OutOfBounds)" unfolding R_GenerateDHParams_def Let_def by simp
qed

lemma R_GenerateDHParams_correct_witness:
  "(\<exists>r random'. R_GenerateDHParams 12 4 (example_random 16) = Some (Inr (r, random'))
     \<and> (case r of Inl st \<Rightarrow> st = RE_NEED_RANDOM \<or> st = RE_DATA
         | Inr params \<Rightarrow> 2048 \<le> dh_p params \<and> dh_p params < 4096 \<and> be_val (dh_generator params) < dh_p params))
   \<and> R_GenerateDHParams 2048 160 (example_random 16) = Some (Inl OutOfBounds)"
proof
  show "\<exists>r random'. R_GenerateDHParams 12 4 (example_random 16) = Some (Inr (r, random'))
     \<and> (case r of Inl st \<Rightarrow> st = RE_NEED_RANDOM \<or> st = RE_DATA
         | Inr params \<Rightarrow> 2048 \<le> dh_p params \<and> dh_p params < 4096 \<and> be_val (dh_generator params) < dh_p params)"
    using R_GenerateDHParams_correct [of 4 12 "example_random 16"] by (auto simp: dh_made_def split: sum.splits)
  show "R_GenerateDHParams 2048 160 (example_random 16) = Some (Inl OutOfBounds)"
    using R_GenerateDHParams_correct [of 160 2048 "example_random 16"] by simp
qed

end
