(* ===== verification/DES.thy ===== *)
theory DES
  imports RSA
begin

unbundle bit_operations_syntax

text \<open>
  \<^verbatim>\<open>QBase/RSAEuro/desc.c\<close>: DES, DESX and triple DES in the mode of chained blocks. The rounds of the source
  compute in variables of type \<^verbatim>\<open>unsigned long\<close>, whose width \<open>'l\<close> depends on the platform, while blocks and
  subkeys are made of four-byte words: the width is a parameter of the model.
\<close>

section \<open>Tables\<close>

definition bytebit :: "byte list" where "bytebit = [128, 64, 32, 16, 8, 4, 2, 1]"

definition bigbyte :: "u32 list" where
  "bigbyte =
     [0x800000, 0x400000, 0x200000, 0x100000, 0x80000, 0x40000, 0x20000, 0x10000,
      0x8000, 0x4000, 0x2000, 0x1000, 0x800, 0x400, 0x200, 0x100,
      0x80, 0x40, 0x20, 0x10, 0x8, 0x4, 0x2, 0x1]"

definition totrot :: "nat list" where
  "totrot = [1, 2, 4, 6, 8, 10, 12, 14, 15, 17, 19, 21, 23, 25, 27, 28]"

definition pc1 :: "nat list" where
  "pc1 =
     [56, 48, 40, 32, 24, 16, 8, 0, 57, 49, 41, 33, 25, 17,
      9, 1, 58, 50, 42, 34, 26, 18, 10, 2, 59, 51, 43, 35,
      62, 54, 46, 38, 30, 22, 14, 6, 61, 53, 45, 37, 29, 21,
      13, 5, 60, 52, 44, 36, 28, 20, 12, 4, 27, 19, 11, 3]"

definition pc2 :: "nat list" where
  "pc2 =
     [13, 16, 10, 23, 0, 4, 2, 27, 14, 5, 20, 9,
      22, 18, 11, 3, 25, 7, 15, 6, 26, 19, 12, 1,
      40, 51, 30, 36, 46, 54, 29, 39, 50, 44, 32, 47,
      43, 48, 38, 55, 33, 52, 45, 41, 49, 35, 28, 31]"

definition Spbox :: "u32 list list" where
  "Spbox =
     [[0x01010400, 0x00000000, 0x00010000, 0x01010404, 0x01010004, 0x00010404, 0x00000004, 0x00010000,
      0x00000400, 0x01010400, 0x01010404, 0x00000400, 0x01000404, 0x01010004, 0x01000000, 0x00000004,
      0x00000404, 0x01000400, 0x01000400, 0x00010400, 0x00010400, 0x01010000, 0x01010000, 0x01000404,
      0x00010004, 0x01000004, 0x01000004, 0x00010004, 0x00000000, 0x00000404, 0x00010404, 0x01000000,
      0x00010000, 0x01010404, 0x00000004, 0x01010000, 0x01010400, 0x01000000, 0x01000000, 0x00000400,
      0x01010004, 0x00010000, 0x00010400, 0x01000004, 0x00000400, 0x00000004, 0x01000404, 0x00010404,
      0x01010404, 0x00010004, 0x01010000, 0x01000404, 0x01000004, 0x00000404, 0x00010404, 0x01010400,
      0x00000404, 0x01000400, 0x01000400, 0x00000000, 0x00010004, 0x00010400, 0x00000000, 0x01010004],
      [0x80108020, 0x80008000, 0x00008000, 0x00108020, 0x00100000, 0x00000020, 0x80100020, 0x80008020,
      0x80000020, 0x80108020, 0x80108000, 0x80000000, 0x80008000, 0x00100000, 0x00000020, 0x80100020,
      0x00108000, 0x00100020, 0x80008020, 0x00000000, 0x80000000, 0x00008000, 0x00108020, 0x80100000,
      0x00100020, 0x80000020, 0x00000000, 0x00108000, 0x00008020, 0x80108000, 0x80100000, 0x00008020,
      0x00000000, 0x00108020, 0x80100020, 0x00100000, 0x80008020, 0x80100000, 0x80108000, 0x00008000,
      0x80100000, 0x80008000, 0x00000020, 0x80108020, 0x00108020, 0x00000020, 0x00008000, 0x80000000,
      0x00008020, 0x80108000, 0x00100000, 0x80000020, 0x00100020, 0x80008020, 0x80000020, 0x00100020,
      0x00108000, 0x00000000, 0x80008000, 0x00008020, 0x80000000, 0x80100020, 0x80108020, 0x00108000],
      [0x00000208, 0x08020200, 0x00000000, 0x08020008, 0x08000200, 0x00000000, 0x00020208, 0x08000200,
      0x00020008, 0x08000008, 0x08000008, 0x00020000, 0x08020208, 0x00020008, 0x08020000, 0x00000208,
      0x08000000, 0x00000008, 0x08020200, 0x00000200, 0x00020200, 0x08020000, 0x08020008, 0x00020208,
      0x08000208, 0x00020200, 0x00020000, 0x08000208, 0x00000008, 0x08020208, 0x00000200, 0x08000000,
      0x08020200, 0x08000000, 0x00020008, 0x00000208, 0x00020000, 0x08020200, 0x08000200, 0x00000000,
      0x00000200, 0x00020008, 0x08020208, 0x08000200, 0x08000008, 0x00000200, 0x00000000, 0x08020008,
      0x08000208, 0x00020000, 0x08000000, 0x08020208, 0x00000008, 0x00020208, 0x00020200, 0x08000008,
      0x08020000, 0x08000208, 0x00000208, 0x08020000, 0x00020208, 0x00000008, 0x08020008, 0x00020200],
      [0x00802001, 0x00002081, 0x00002081, 0x00000080, 0x00802080, 0x00800081, 0x00800001, 0x00002001,
      0x00000000, 0x00802000, 0x00802000, 0x00802081, 0x00000081, 0x00000000, 0x00800080, 0x00800001,
      0x00000001, 0x00002000, 0x00800000, 0x00802001, 0x00000080, 0x00800000, 0x00002001, 0x00002080,
      0x00800081, 0x00000001, 0x00002080, 0x00800080, 0x00002000, 0x00802080, 0x00802081, 0x00000081,
      0x00800080, 0x00800001, 0x00802000, 0x00802081, 0x00000081, 0x00000000, 0x00000000, 0x00802000,
      0x00002080, 0x00800080, 0x00800081, 0x00000001, 0x00802001, 0x00002081, 0x00002081, 0x00000080,
      0x00802081, 0x00000081, 0x00000001, 0x00002000, 0x00800001, 0x00002001, 0x00802080, 0x00800081,
      0x00002001, 0x00002080, 0x00800000, 0x00802001, 0x00000080, 0x00800000, 0x00002000, 0x00802080],
      [0x00000100, 0x02080100, 0x02080000, 0x42000100, 0x00080000, 0x00000100, 0x40000000, 0x02080000,
      0x40080100, 0x00080000, 0x02000100, 0x40080100, 0x42000100, 0x42080000, 0x00080100, 0x40000000,
      0x02000000, 0x40080000, 0x40080000, 0x00000000, 0x40000100, 0x42080100, 0x42080100, 0x02000100,
      0x42080000, 0x40000100, 0x00000000, 0x42000000, 0x02080100, 0x02000000, 0x42000000, 0x00080100,
      0x00080000, 0x42000100, 0x00000100, 0x02000000, 0x40000000, 0x02080000, 0x42000100, 0x40080100,
      0x02000100, 0x40000000, 0x42080000, 0x02080100, 0x40080100, 0x00000100, 0x02000000, 0x42080000,
      0x42080100, 0x00080100, 0x42000000, 0x42080100, 0x02080000, 0x00000000, 0x40080000, 0x42000000,
      0x00080100, 0x02000100, 0x40000100, 0x00080000, 0x00000000, 0x40080000, 0x02080100, 0x40000100],
      [0x20000010, 0x20400000, 0x00004000, 0x20404010, 0x20400000, 0x00000010, 0x20404010, 0x00400000,
      0x20004000, 0x00404010, 0x00400000, 0x20000010, 0x00400010, 0x20004000, 0x20000000, 0x00004010,
      0x00000000, 0x00400010, 0x20004010, 0x00004000, 0x00404000, 0x20004010, 0x00000010, 0x20400010,
      0x20400010, 0x00000000, 0x00404010, 0x20404000, 0x00004010, 0x00404000, 0x20404000, 0x20000000,
      0x20004000, 0x00000010, 0x20400010, 0x00404000, 0x20404010, 0x00400000, 0x00004010, 0x20000010,
      0x00400000, 0x20004000, 0x20000000, 0x00004010, 0x20000010, 0x20404010, 0x00404000, 0x20400000,
      0x00404010, 0x20404000, 0x00000000, 0x20400010, 0x00000010, 0x00004000, 0x20400000, 0x00404010,
      0x00004000, 0x00400010, 0x20004010, 0x00000000, 0x20404000, 0x20000000, 0x00400010, 0x20004010],
      [0x00200000, 0x04200002, 0x04000802, 0x00000000, 0x00000800, 0x04000802, 0x00200802, 0x04200800,
      0x04200802, 0x00200000, 0x00000000, 0x04000002, 0x00000002, 0x04000000, 0x04200002, 0x00000802,
      0x04000800, 0x00200802, 0x00200002, 0x04000800, 0x04000002, 0x04200000, 0x04200800, 0x00200002,
      0x04200000, 0x00000800, 0x00000802, 0x04200802, 0x00200800, 0x00000002, 0x04000000, 0x00200800,
      0x04000000, 0x00200800, 0x00200000, 0x04000802, 0x04000802, 0x04200002, 0x04200002, 0x00000002,
      0x00200002, 0x04000000, 0x04000800, 0x00200000, 0x04200800, 0x00000802, 0x00200802, 0x04200800,
      0x00000802, 0x04000002, 0x04200802, 0x04200000, 0x00200800, 0x00000000, 0x00000002, 0x04200802,
      0x00000000, 0x00200802, 0x04200000, 0x00000800, 0x04000002, 0x04000800, 0x00000800, 0x00200002],
      [0x10001040, 0x00001000, 0x00040000, 0x10041040, 0x10000000, 0x10001040, 0x00000040, 0x10000000,
      0x00040040, 0x10040000, 0x10041040, 0x00041000, 0x10041000, 0x00041040, 0x00001000, 0x00000040,
      0x10040000, 0x10000040, 0x10001000, 0x00001040, 0x00041000, 0x00040040, 0x10040040, 0x10041000,
      0x00001040, 0x00000000, 0x00000000, 0x10040040, 0x10000040, 0x10001000, 0x00041040, 0x00040000,
      0x00041040, 0x00040000, 0x10041000, 0x00001000, 0x00000040, 0x10040040, 0x00001000, 0x00041040,
      0x10001000, 0x00000040, 0x10000040, 0x10040000, 0x10040040, 0x10000000, 0x00040000, 0x10001040,
      0x00000000, 0x10041040, 0x00040040, 0x10000040, 0x10040000, 0x10001000, 0x10001040, 0x00000000,
      0x10041040, 0x00041000, 0x00041000, 0x00001040, 0x00001040, 0x00040040, 0x10000000, 0x10041000]]"

section \<open>The key schedule\<close>

definition des_pc1m :: "byte list \<Rightarrow> bool list" where
  "des_pc1m key = map (\<lambda>l. (key ! (l div 8)) AND (bytebit ! (l mod 8)) \<noteq> 0) pc1"

definition des_pcr :: "bool list \<Rightarrow> nat \<Rightarrow> bool list" where
  "des_pcr pc1m rot =
     map (\<lambda>j. let l = j + rot in if l < 28 then pc1m ! l else pc1m ! (l - 28)) [0..<28]
     @ map (\<lambda>j. let l = j + rot in if l < 56 then pc1m ! l else pc1m ! (l - 28)) [28..<56]"

text \<open>The bits that the permuted choice of the table from \<open>off\<close> on takes.\<close>

definition des_choice :: "bool list \<Rightarrow> nat \<Rightarrow> u32" where
  "des_choice pcr off = fold (\<lambda>j kn. if pcr ! (pc2 ! (j + off)) then kn OR bigbyte ! j else kn) [0..<24] 0"

definition des_kn :: "byte list \<Rightarrow> u32 list" where
  "des_kn key =
     (let pc1m = des_pc1m key
      in concat (map (\<lambda>rot. let pcr = des_pcr pc1m rot in [des_choice pcr 0, des_choice pcr 24]) totrot))"

definition cook0 :: "u32 \<Rightarrow> u32 \<Rightarrow> u32" where
  "cook0 raw0 raw1 =
     push_bit 6 (raw0 AND 0x00fc0000) OR push_bit 10 (raw0 AND 0x00000fc0)
     OR drop_bit 10 (raw1 AND 0x00fc0000) OR drop_bit 6 (raw1 AND 0x00000fc0)"

definition cook1 :: "u32 \<Rightarrow> u32 \<Rightarrow> u32" where
  "cook1 raw0 raw1 =
     push_bit 12 (raw0 AND 0x0003f000) OR push_bit 16 (raw0 AND 0x0000003f)
     OR drop_bit 4 (raw1 AND 0x0003f000) OR (raw1 AND 0x0000003f)"

text \<open>The pointer \<^verbatim>\<open>cooked\<close> as an index, which may end before the array when it walks down.\<close>

fun cookey_loop :: "u32 list \<Rightarrow> int \<Rightarrow> int \<Rightarrow> u32 list \<Rightarrow> u32 list" where
  "cookey_loop subkeys cooked increment (raw0 # raw1 # kn) =
     cookey_loop (subkeys[nat cooked := cook0 raw0 raw1, nat (cooked + 1) := cook1 raw0 raw1])
       (cooked + 1 + increment) increment kn"
| "cookey_loop subkeys cooked increment _ = subkeys"

definition cookey :: "u32 list \<Rightarrow> bool \<Rightarrow> u32 list" where
  "cookey kn encrypt =
     cookey_loop (replicate 32 0) (if encrypt then 0 else 30) (if encrypt then 1 else -3) kn"

definition deskey :: "byte list \<Rightarrow> bool \<Rightarrow> u32 list" where
  "deskey key encrypt = cookey (des_kn key) encrypt"

section \<open>The block function\<close>

type_synonym des_block = "u32 \<times> u32"

definition scrunch :: "byte list \<Rightarrow> des_block" where
  "scrunch outof =
     (push_bit 24 (ucast (outof ! 0)) OR push_bit 16 (ucast (outof ! 1)) OR push_bit 8 (ucast (outof ! 2)) OR ucast (outof ! 3),
      push_bit 24 (ucast (outof ! 4)) OR push_bit 16 (ucast (outof ! 5)) OR push_bit 8 (ucast (outof ! 6)) OR ucast (outof ! 7))"

definition unscrunch_word :: "u32 \<Rightarrow> byte list" where
  "unscrunch_word w = [ucast (drop_bit 24 w AND 0xff), ucast (drop_bit 16 w AND 0xff), ucast (drop_bit 8 w AND 0xff), ucast (w AND 0xff)]"

definition unscrunch :: "des_block \<Rightarrow> byte list" where
  "unscrunch outof = unscrunch_word (fst outof) @ unscrunch_word (snd outof)"

text \<open>The exchange of the bits of \<open>a\<close>, shifted, and \<open>b\<close> that the mask selects.\<close>

definition des_exchange :: "nat \<Rightarrow> 'l :: len word \<Rightarrow> 'l word \<times> 'l word \<Rightarrow> 'l word \<times> 'l word" where
  "des_exchange k m = (\<lambda>(a, b).
     let work = (drop_bit k a XOR b) AND m in (a XOR push_bit k work, b XOR work))"

definition des_rol :: "'l :: len word \<Rightarrow> 'l word" where
  "des_rol x = push_bit 1 x OR drop_bit 31 x"

definition des_ror :: "'l :: len word \<Rightarrow> 'l word" where
  "des_ror x = push_bit 31 x OR drop_bit 1 x"

definition des_initial :: "'l :: len word \<times> 'l word \<Rightarrow> 'l word \<times> 'l word" where
  "des_initial block =
     (let (left, right) = des_exchange 4 0x0f0f0f0f block;
          (left, right) = des_exchange 16 0xffff (left, right);
          (right, left) = des_exchange 2 0x33333333 (right, left);
          (right, left) = des_exchange 8 0xff00ff (right, left);
          right = des_rol right;
          (left, right) = des_exchange 0 0xaaaaaaaa (left, right)
      in (des_rol left, right))"

definition des_final :: "'l :: len word \<times> 'l word \<Rightarrow> 'l word \<times> 'l word" where
  "des_final block =
     (let (left, right) = block;
          right = des_ror right;
          (left, right) = des_exchange 0 0xaaaaaaaa (left, right);
          left = des_ror left;
          (left, right) = des_exchange 8 0xff00ff (left, right);
          (left, right) = des_exchange 2 0x33333333 (left, right);
          (right, left) = des_exchange 16 0xffff (right, left);
          (right, left) = des_exchange 4 0x0f0f0f0f (right, left)
      in (right, left))"

definition des_sp :: "nat \<Rightarrow> 'l :: len word \<Rightarrow> 'l word" where
  "des_sp i work = ucast (Spbox ! i ! unat (work AND 0x3f))"

text \<open>What the macro \<^verbatim>\<open>F\<close> adds to the left half.\<close>

definition des_F :: "'l :: len word \<Rightarrow> u32 \<Rightarrow> u32 \<Rightarrow> 'l word" where
  "des_F r key0 key1 =
     (let work = (drop_bit 4 r OR push_bit 28 r) XOR ucast key0;
          work' = r XOR ucast key1
      in des_sp 6 work XOR des_sp 4 (drop_bit 8 work) XOR des_sp 2 (drop_bit 16 work) XOR des_sp 0 (drop_bit 24 work)
         XOR des_sp 7 work' XOR des_sp 5 (drop_bit 8 work') XOR des_sp 3 (drop_bit 16 work') XOR des_sp 1 (drop_bit 24 work'))"

fun des_rounds :: "'l :: len word \<times> 'l word \<Rightarrow> u32 list \<Rightarrow> 'l word \<times> 'l word" where
  "des_rounds (left, right) (k0 # k1 # k2 # k3 # ks) =
     (let left = left XOR des_F right k0 k1;
          right = right XOR des_F left k2 k3
      in des_rounds (left, right) ks)"
| "des_rounds block ks = block"

definition desfunc :: "'l :: len itself \<Rightarrow> des_block \<Rightarrow> u32 list \<Rightarrow> des_block" where
  "desfunc _ block ks =
     (let b = des_final (des_rounds (des_initial (ucast (fst block) :: 'l word, ucast (snd block))) ks)
      in (ucast (fst b), ucast (snd b)))"

section \<open>Chained blocks\<close>

definition des_xor :: "des_block \<Rightarrow> des_block \<Rightarrow> des_block" where
  "des_xor a b = (fst a XOR fst b, snd a XOR snd b)"

text \<open>The loop over the eight-byte blocks of the input.\<close>

function des_loop :: "('c \<Rightarrow> byte list \<Rightarrow> byte list \<times> 'c) \<Rightarrow> 'c \<Rightarrow> byte list \<Rightarrow> byte list \<times> 'c" where
  "des_loop step context input =
     (if length input < 8 then ([], context)
      else case step context (take 8 input) of (out, context) \<Rightarrow>
           case des_loop step context (drop 8 input) of (rest, context) \<Rightarrow> (out @ rest, context))"
  by pat_completeness auto
termination by (relation "measure (\<lambda>(step, context, input). length input)") auto

declare des_loop.simps [simp del]

record des_cbc_ctx =
  des_subkeys :: "u32 list"
  des_iv :: des_block
  des_originalIV :: des_block
  des_encrypt :: bool

definition DES_CBCInit :: "byte list \<Rightarrow> byte list \<Rightarrow> bool \<Rightarrow> des_cbc_ctx" where
  "DES_CBCInit key iv encrypt =
     \<lparr>des_subkeys = deskey key encrypt, des_iv = scrunch iv, des_originalIV = scrunch iv, des_encrypt = encrypt\<rparr>"

definition des_cbc_step :: "'l :: len itself \<Rightarrow> des_cbc_ctx \<Rightarrow> byte list \<Rightarrow> byte list \<times> des_cbc_ctx" where
  "des_cbc_step L context input =
     (let inputBlock = scrunch input;
          work = (if \<not> des_encrypt context then inputBlock else des_xor inputBlock (des_iv context));
          work = desfunc L work (des_subkeys context)
      in if \<not> des_encrypt context
         then (unscrunch (des_xor work (des_iv context)), context\<lparr>des_iv := inputBlock\<rparr>)
         else (unscrunch work, context\<lparr>des_iv := work\<rparr>))"

definition DES_CBCUpdate :: "'l :: len itself \<Rightarrow> des_cbc_ctx \<Rightarrow> byte list \<Rightarrow> int \<times> byte list \<times> des_cbc_ctx" where
  "DES_CBCUpdate L context input =
     (if length input mod 8 \<noteq> 0 then (RE_LEN, [], context) else (ID_OK, des_loop (des_cbc_step L) context input))"

definition DES_CBCRestart :: "des_cbc_ctx \<Rightarrow> des_cbc_ctx" where
  "DES_CBCRestart context = context\<lparr>des_iv := des_originalIV context\<rparr>"

record desx_cbc_ctx =
  desx_subkeys :: "u32 list"
  desx_iv :: des_block
  inputWhitener :: des_block
  outputWhitener :: des_block
  desx_originalIV :: des_block
  desx_encrypt :: bool

definition DESX_CBCInit :: "byte list \<Rightarrow> byte list \<Rightarrow> bool \<Rightarrow> desx_cbc_ctx" where
  "DESX_CBCInit key iv encrypt =
     \<lparr>desx_subkeys = deskey key encrypt, desx_iv = scrunch iv, inputWhitener = scrunch (drop 8 key),
      outputWhitener = scrunch (drop 16 key), desx_originalIV = scrunch iv, desx_encrypt = encrypt\<rparr>"

definition desx_cbc_step :: "'l :: len itself \<Rightarrow> desx_cbc_ctx \<Rightarrow> byte list \<Rightarrow> byte list \<times> desx_cbc_ctx" where
  "desx_cbc_step L context input =
     (let inputBlock = scrunch input;
          work = (if \<not> desx_encrypt context then des_xor inputBlock (outputWhitener context)
                  else des_xor (des_xor inputBlock (desx_iv context)) (inputWhitener context));
          work = desfunc L work (desx_subkeys context)
      in if \<not> desx_encrypt context
         then (unscrunch (des_xor work (des_xor (desx_iv context) (inputWhitener context))),
               context\<lparr>desx_iv := inputBlock\<rparr>)
         else let work = des_xor work (outputWhitener context)
              in (unscrunch work, context\<lparr>desx_iv := work\<rparr>))"

definition DESX_CBCUpdate :: "'l :: len itself \<Rightarrow> desx_cbc_ctx \<Rightarrow> byte list \<Rightarrow> int \<times> byte list \<times> desx_cbc_ctx" where
  "DESX_CBCUpdate L context input =
     (if length input mod 8 \<noteq> 0 then (RE_LEN, [], context) else (ID_OK, des_loop (desx_cbc_step L) context input))"

definition DESX_CBCRestart :: "desx_cbc_ctx \<Rightarrow> desx_cbc_ctx" where
  "DESX_CBCRestart context = context\<lparr>desx_iv := desx_originalIV context\<rparr>"

record des3_cbc_ctx =
  des3_subkeys :: "u32 list \<times> u32 list \<times> u32 list"
  des3_iv :: des_block
  des3_originalIV :: des_block
  des3_encrypt :: bool

definition DES3_CBCInit :: "byte list \<Rightarrow> byte list \<Rightarrow> bool \<Rightarrow> des3_cbc_ctx" where
  "DES3_CBCInit key iv encrypt =
     \<lparr>des3_subkeys =
        (deskey (if encrypt then key else drop 16 key) encrypt,
         deskey (drop 8 key) (\<not> encrypt),
         deskey (if encrypt then drop 16 key else key) encrypt),
      des3_iv = scrunch iv, des3_originalIV = scrunch iv, des3_encrypt = encrypt\<rparr>"

definition des3_cbc_step :: "'l :: len itself \<Rightarrow> des3_cbc_ctx \<Rightarrow> byte list \<Rightarrow> byte list \<times> des3_cbc_ctx" where
  "des3_cbc_step L context input =
     (case des3_subkeys context of (k0, k1, k2) \<Rightarrow>
      let inputBlock = scrunch input;
          work = (if \<not> des3_encrypt context then inputBlock else des_xor inputBlock (des3_iv context));
          work = desfunc L work k0;
          work = desfunc L work k1;
          work = desfunc L work k2
      in if \<not> des3_encrypt context
         then (unscrunch (des_xor work (des3_iv context)), context\<lparr>des3_iv := inputBlock\<rparr>)
         else (unscrunch work, context\<lparr>des3_iv := work\<rparr>))"

definition DES3_CBCUpdate :: "'l :: len itself \<Rightarrow> des3_cbc_ctx \<Rightarrow> byte list \<Rightarrow> int \<times> byte list \<times> des3_cbc_ctx" where
  "DES3_CBCUpdate L context input =
     (if length input mod 8 \<noteq> 0 then (RE_LEN, [], context) else (ID_OK, des_loop (des3_cbc_step L) context input))"

definition DES3_CBCRestart :: "des3_cbc_ctx \<Rightarrow> des3_cbc_ctx" where
  "DES3_CBCRestart context = context\<lparr>des3_iv := des3_originalIV context\<rparr>"

section \<open>The block function is a permutation\<close>

lemma des_exchange_inverse:
  assumes "m AND NOT (mask (32 - k)) = 0"
  shows "des_exchange k m (des_exchange k m (a, b)) = (a, b :: 32 word)"
proof -
  define work where "work = (drop_bit k a XOR b) AND m"
  have "drop_bit k (push_bit k work) = work"
  proof (rule bit_word_eqI)
    fix n assume n: "n < LENGTH(32)"
    have "\<not> bit work n" if "32 - k \<le> n"
    proof -
      have "\<not> bit (m AND NOT (mask (32 - k))) n" unfolding assms by simp
      then show ?thesis using that n by (simp add: work_def bit_simps)
    qed
    then show "bit (drop_bit k (push_bit k work)) n = bit work n" using n by (cases "32 - k \<le> n") (auto simp: bit_simps)
  qed
  then have "(drop_bit k (a XOR push_bit k work) XOR (b XOR work)) = drop_bit k a XOR b"
    by (simp add: drop_bit_xor xor.assoc xor.left_commute xor.commute)
  then have w: "(drop_bit k (a XOR push_bit k work) XOR (b XOR work)) AND m = work" by (simp only: work_def)
  have "des_exchange k m (a, b) = (a XOR push_bit k work, b XOR work)" by (simp only: des_exchange_def Let_def work_def prod.case)
  moreover have "des_exchange k m (a XOR push_bit k work, b XOR work) = (a, b)"
    by (simp only: des_exchange_def Let_def prod.case w) (simp add: xor.assoc)
  ultimately show ?thesis by simp
qed

lemma bit_des_rol: "n < 32 \<Longrightarrow> bit (des_rol x) n \<longleftrightarrow> (if n = 0 then bit (x :: 32 word) 31 else bit x (n - 1))"
  unfolding des_rol_def bit_or_iff bit_push_bit_iff bit_drop_bit_eq using bit_imp_le_length [of x "31 + n"] by auto

lemma bit_des_ror: "n < 32 \<Longrightarrow> bit (des_ror x) n \<longleftrightarrow> (if n = 31 then bit (x :: 32 word) 0 else bit x (n + 1))"
  unfolding des_ror_def bit_or_iff bit_push_bit_iff bit_drop_bit_eq using bit_imp_le_length [of x "1 + n"] by auto

lemma des_rol_ror: "des_ror (des_rol x) = x" "des_rol (des_ror x) = (x :: 32 word)"
  by (rule bit_word_eqI; auto simp: bit_des_rol bit_des_ror)+

lemmas des_inverse = des_exchange_inverse des_rol_ror

text \<open>The final permutation undoes the initial one, with the halves exchanged.\<close>

lemma des_final_initial: "des_final (prod.swap (des_initial b)) = (b :: 32 word \<times> 32 word)"
proof -
  obtain l r where b: "b = (l, r)" by force
  obtain l1 r1 where 1: "des_exchange 4 0x0f0f0f0f (l, r) = (l1, r1)" by force
  obtain l2 r2 where 2: "des_exchange 16 0xffff (l1, r1) = (l2, r2)" by force
  obtain r3 l3 where 3: "des_exchange 2 0x33333333 (r2, l2) = (r3, l3)" by force
  obtain r4 l4 where 4: "des_exchange 8 0xff00ff (r3, l3) = (r4, l4)" by force
  obtain l5 r5 where 5: "des_exchange 0 0xaaaaaaaa (l4, des_rol r4) = (l5, r5)" by force
  have i: "des_exchange 4 0x0f0f0f0f (l1, r1) = (l, r)" "des_exchange 16 0xffff (l2, r2) = (l1, r1)"
    "des_exchange 2 0x33333333 (r3, l3) = (r2, l2)" "des_exchange 8 0xff00ff (r4, l4) = (r3, l3)"
    "des_exchange 0 0xaaaaaaaa (l5, r5) = (l4, des_rol r4)"
    using des_exchange_inverse [of "0x0f0f0f0f" 4 l r] des_exchange_inverse [of "0xffff" 16 l1 r1]
      des_exchange_inverse [of "0x33333333" 2 r2 l2] des_exchange_inverse [of "0xff00ff" 8 r3 l3]
      des_exchange_inverse [of "0xaaaaaaaa" 0 l4 "des_rol r4"] 1 2 3 4 5 by (simp_all add: mask_eq_exp_minus_1)
  have sym: "des_exchange 0 0xaaaaaaaa (r5, l5) = (des_rol r4, l4)"
    using i(5) by (auto simp: des_exchange_def Let_def xor.commute)
  have f: "des_initial b = (des_rol l5, r5)" unfolding des_initial_def b by (simp add: 1 2 3 4 5)
  show ?thesis unfolding f by (simp add: des_final_def des_rol_ror sym i b)
qed

lemma des_initial_final: "des_initial (des_final b) = prod.swap (b :: 32 word \<times> 32 word)"
proof -
  have "des_final (prod.swap (des_initial (des_final b))) = des_final b" by (rule des_final_initial)
  moreover have "inj (des_final :: 32 word \<times> 32 word \<Rightarrow> _)"
    by (rule finite_UNIV_surj_inj [OF finite surjI]) (rule des_final_initial)
  ultimately show ?thesis by (metis injD swap_swap)
qed

text \<open>The rounds, in pairs, are a Feistel network: the same rounds in the opposite order undo them.\<close>

fun feistel :: "32 word \<times> 32 word \<Rightarrow> (u32 \<times> u32) list \<Rightarrow> 32 word \<times> 32 word" where
  "feistel (l, r) [] = (l, r)"
| "feistel (l, r) (k # ks) = feistel (r, l XOR des_F r (fst k) (snd k)) ks"

fun key_pairs :: "u32 list \<Rightarrow> (u32 \<times> u32) list" where
  "key_pairs (k0 # k1 # ks) = (k0, k1) # key_pairs ks"
| "key_pairs ks = []"

lemma feistel_Nil [simp]: "feistel b [] = b"
  by (cases b) simp

lemma feistel_append: "feistel b (ks @ ks') = feistel (feistel b ks) ks'"
  by (induction b ks rule: feistel.induct) auto

lemma feistel_inverse: "feistel (prod.swap (feistel b ks)) (rev ks) = prod.swap b"
proof (induction b ks rule: feistel.induct)
  case (2 l r k ks)
  then show ?case by (simp add: feistel_append xor.assoc)
qed simp

lemma des_rounds_feistel: "length ks mod 4 = 0 \<Longrightarrow> des_rounds b ks = feistel b (key_pairs ks)"
proof (induction b ks rule: des_rounds.induct)
  case (1 l r k0 k1 k2 k3 ks)
  then show ?case by (simp add: Let_def)
qed simp_all

lemma desfunc_inverse:
  assumes "length ks mod 4 = 0" "length ks' mod 4 = 0" "key_pairs ks' = rev (key_pairs ks)"
  shows "desfunc TYPE(32) (desfunc TYPE(32) b ks) ks' = b"
proof -
  let ?i = "des_initial (ucast (fst b) :: 32 word, ucast (snd b))"
  have "desfunc TYPE(32) (desfunc TYPE(32) b ks) ks' = des_final (des_rounds (des_initial (des_final (des_rounds ?i ks))) ks')"
    by (simp add: desfunc_def Let_def)
  also have "\<dots> = des_final (prod.swap ?i)"
    unfolding des_initial_final des_rounds_feistel [OF assms(1)] des_rounds_feistel [OF assms(2)] assms(3) feistel_inverse ..
  also have "\<dots> = b" unfolding des_final_initial by simp
  finally show ?thesis .
qed

section \<open>The key schedule for decryption is the one for encryption, backwards\<close>

definition cooked :: "u32 list \<Rightarrow> (u32 \<times> u32) list" where
  "cooked kn = map (\<lambda>(raw0, raw1). (cook0 raw0 raw1, cook1 raw0 raw1)) (key_pairs kn)"

abbreviation unpair :: "(u32 \<times> u32) list \<Rightarrow> u32 list" where
  "unpair ps \<equiv> concat (map (\<lambda>(a, b). [a, b]) ps)"

lemma cooked_Cons [simp]: "cooked (raw0 # raw1 # kn) = (cook0 raw0 raw1, cook1 raw0 raw1) # cooked kn"
  by (simp add: cooked_def)

lemma length_unpair [simp]: "length (unpair ps) = 2 * length ps"
  by (induction ps) auto

lemma key_pairs_unpair [simp]: "key_pairs (unpair ps) = ps"
  by (induction ps) auto

lemma length_key_pairs: "length (key_pairs ks) = length ks div 2"
  by (induction ks rule: key_pairs.induct) auto

lemma length_cooked [simp]: "length (cooked kn) = length kn div 2"
  by (simp add: cooked_def length_key_pairs)

lemma two_more: "length kn = 2 * Suc n \<Longrightarrow> \<exists>a b kn'. kn = a # b # kn' \<and> length kn' = 2 * n"
  by (cases kn; cases "tl kn") auto

lemma cookey_up:
  "length kn = 2 * n \<Longrightarrow> cookey_loop (pre @ replicate (2 * n) 0) (int (length pre)) 1 kn = pre @ unpair (cooked kn)"
proof (induction n arbitrary: pre kn)
  case (Suc n)
  obtain a b kn' where kn: "kn = a # b # kn'" "length kn' = 2 * n" using two_more [OF Suc.prems] by blast
  have i: "nat (int (length pre)) = length pre" "nat (int (length pre) + 1) = Suc (length pre)" by simp_all
  have "(pre @ replicate (2 * Suc n) 0)[length pre := cook0 a b, Suc (length pre) := cook1 a b]
      = (pre @ [cook0 a b, cook1 a b]) @ replicate (2 * n) 0" by (simp add: list_update_append)
  then show ?case
    using Suc.IH [OF kn(2), of "pre @ [cook0 a b, cook1 a b]"] unfolding kn(1) cookey_loop.simps i
    by (simp add: algebra_simps)
qed (simp add: cooked_def)

lemma cookey_down:
  "length kn = 2 * n \<Longrightarrow> cookey_loop (replicate (2 * n) 0 @ post) (2 * int n - 2) (-3) kn = unpair (rev (cooked kn)) @ post"
proof (induction n arbitrary: post kn)
  case (Suc n)
  obtain a b kn' where kn: "kn = a # b # kn'" "length kn' = 2 * n" using two_more [OF Suc.prems] by blast
  have i: "nat (2 * int (Suc n) - 2) = 2 * n" "nat (2 * int (Suc n) - 2 + 1) = Suc (2 * n)" by simp_all
  have "replicate (2 * Suc n) 0 = replicate (2 * n) 0 @ [0, 0 :: u32]"
    by (simp add: replicate_append_same [symmetric] numeral_2_eq_2)
  then have "(replicate (2 * Suc n) 0 @ post)[2 * n := cook0 a b, Suc (2 * n) := cook1 a b]
      = replicate (2 * n) 0 @ [cook0 a b, cook1 a b] @ post" by (simp add: list_update_append)
  then show ?case
    using Suc.IH [OF kn(2), of "[cook0 a b, cook1 a b] @ post"] unfolding kn(1) cookey_loop.simps i
    by (simp add: algebra_simps)
qed (simp add: cooked_def)

lemma length_des_kn: "length (des_kn key) = 32"
  by (simp add: des_kn_def Let_def totrot_def)

lemma deskey_pairs:
  "deskey key True = unpair (cooked (des_kn key))" "deskey key False = unpair (rev (cooked (des_kn key)))"
  using cookey_up [of "des_kn key" 16 "[]"] cookey_down [of "des_kn key" 16 "[]"] length_des_kn [of key]
  by (simp_all add: deskey_def cookey_def)

definition des_keys_inv :: "u32 list \<Rightarrow> u32 list \<Rightarrow> bool" where
  "des_keys_inv ks ks' \<longleftrightarrow> (\<forall>b. desfunc TYPE(32) (desfunc TYPE(32) b ks) ks' = b)"

lemma des_keys_invD: "des_keys_inv ks ks' \<Longrightarrow> desfunc TYPE(32) (desfunc TYPE(32) b ks) ks' = b"
  by (simp only: des_keys_inv_def)

lemma deskey_inv: "des_keys_inv (deskey key e) (deskey key (\<not> e))"
  unfolding des_keys_inv_def
proof
  fix b
  have "length (deskey key e) mod 4 = 0" for e
    by (cases e) (simp_all add: deskey_pairs length_des_kn del: length_concat)
  moreover have "key_pairs (deskey key (\<not> e)) = rev (key_pairs (deskey key e))"
    by (cases e) (simp_all only: deskey_pairs key_pairs_unpair rev_rev_ident simp_thms)
  ultimately show "desfunc TYPE(32) (desfunc TYPE(32) b (deskey key e)) (deskey key (\<not> e)) = b"
    by (intro desfunc_inverse)
qed

section \<open>Blocks as bytes\<close>

lemma bit_scrunch4:
  fixes a b c d :: byte
  assumes "n < 32"
  shows "bit (push_bit 24 (ucast a) OR push_bit 16 (ucast b) OR push_bit 8 (ucast c) OR ucast d :: u32) n
    \<longleftrightarrow> (if n < 8 then bit d n else if n < 16 then bit c (n - 8) else if n < 24 then bit b (n - 16) else bit a (n - 24))"
  using assms by (auto simp: bit_simps dest: bit_imp_le_length)

lemma bit_byte_of: "n < 8 \<Longrightarrow> bit (ucast (drop_bit k w AND 0xff :: u32) :: byte) n \<longleftrightarrow> bit w (k + n)"
proof -
  assume "n < 8"
  moreover have "(0xff :: u32) = mask 8" by (simp add: mask_eq_exp_minus_1)
  ultimately show ?thesis using bit_imp_le_length [of w "k + n"]
    by (simp only: bit_simps bit_and_iff bit_mask_iff) auto
qed

lemma scrunch_word:
  fixes w :: u32
  shows "push_bit 24 (ucast (unscrunch_word w ! 0)) OR push_bit 16 (ucast (unscrunch_word w ! 1))
     OR push_bit 8 (ucast (unscrunch_word w ! 2)) OR ucast (unscrunch_word w ! 3) = w"
proof (rule bit_word_eqI)
  fix n assume n: "n < LENGTH(32)"
  show "bit (push_bit 24 (ucast (unscrunch_word w ! 0)) OR push_bit 16 (ucast (unscrunch_word w ! 1))
     OR push_bit 8 (ucast (unscrunch_word w ! 2)) OR ucast (unscrunch_word w ! 3) :: u32) n = bit w n"
    using n bit_byte_of [of n 0 w] bit_byte_of [of "n - 8" 8 w] bit_byte_of [of "n - 16" 16 w] bit_byte_of [of "n - 24" 24 w]
    by (simp add: bit_scrunch4 unscrunch_word_def)
qed

lemma unscrunch_word_scrunch:
  fixes a b c d :: byte
  shows "unscrunch_word (push_bit 24 (ucast a) OR push_bit 16 (ucast b) OR push_bit 8 (ucast c) OR ucast d) = [a, b, c, d]"
proof -
  let ?w = "push_bit 24 (ucast a) OR push_bit 16 (ucast b) OR push_bit 8 (ucast c) OR ucast d :: u32"
  have e: "ucast (drop_bit k w AND 0xff) = x" if "\<And>n. n < 8 \<Longrightarrow> bit w (k + n) = bit x n" for k and w :: u32 and x :: byte
    using that by (intro bit_word_eqI) (simp add: bit_byte_of)
  have "ucast (drop_bit 24 ?w AND 0xff) = a" by (rule e) (simp add: bit_scrunch4)
  moreover have "ucast (drop_bit 16 ?w AND 0xff) = b" by (rule e) (simp add: bit_scrunch4)
  moreover have "ucast (drop_bit 8 ?w AND 0xff) = c" by (rule e) (simp add: bit_scrunch4)
  moreover have "ucast (drop_bit 0 ?w AND 0xff) = d" by (rule e) (simp add: bit_scrunch4)
  ultimately show ?thesis by (simp only: unscrunch_word_def drop_bit_0 id_apply)
qed

lemma unscrunch_scrunch: "length b = 8 \<Longrightarrow> unscrunch (scrunch b) = b"
proof -
  assume "length b = 8"
  then obtain b0 b1 b2 b3 b4 b5 b6 b7 where "b = [b0, b1, b2, b3, b4, b5, b6, b7]"
    by (auto simp: numeral_eq_Suc length_Suc_conv)
  then show ?thesis by (simp add: unscrunch_def scrunch_def unscrunch_word_scrunch)
qed

lemma scrunch_unscrunch [simp]: "scrunch (unscrunch w) = w"
  using scrunch_word [of "fst w"] scrunch_word [of "snd w"]
  by (cases w) (simp add: scrunch_def unscrunch_def unscrunch_word_def nth_append)

lemma length_unscrunch [simp]: "length (unscrunch w) = 8"
  by (simp add: unscrunch_def unscrunch_word_def)

lemma des_xor_twice [simp]: "des_xor (des_xor a b) b = a"
  by (simp add: des_xor_def xor.assoc)

lemma des_xor_assoc: "des_xor (des_xor a b) c = des_xor a (des_xor b c)"
  by (simp add: des_xor_def xor.assoc)

section \<open>Decryption undoes encryption\<close>

text \<open>
  The contract of a mode of operation: \<open>step\<close> treats one block, and the relation \<open>rel\<close> between the context that
  encrypts and the one that decrypts is kept when the second receives what the first gave out.
\<close>

locale chained_cipher =
  fixes step :: "'c \<Rightarrow> byte list \<Rightarrow> byte list \<times> 'c" and rel :: "'c \<Rightarrow> 'c \<Rightarrow> bool"
  assumes step_inverse: "rel c d \<Longrightarrow> length b = 8 \<Longrightarrow> step c b = (out, c') \<Longrightarrow>
      length out = 8 \<and> (\<exists>d'. step d out = (b, d') \<and> rel c' d')"
begin

lemma loop_inverse:
  "rel c d \<Longrightarrow> length input mod 8 = 0 \<Longrightarrow> des_loop step c input = (out, c') \<Longrightarrow>
     length out = length input \<and> (\<exists>d'. des_loop step d out = (input, d') \<and> rel c' d')"
proof (induction "length input" arbitrary: input c d out rule: less_induct)
  case less
  show ?case
  proof (cases "length input < 8")
    case True
    then have "input = []" using less.prems(2) by simp
    then show ?thesis using less.prems by (simp add: des_loop.simps)
  next
    case False
    obtain o1 c1 where 1: "step c (take 8 input) = (o1, c1)" by force
    obtain o2 where 2: "des_loop step c1 (drop 8 input) = (o2, c')" "out = o1 @ o2"
      using less.prems(3) False 1 by (auto simp: des_loop.simps [of step c] split: prod.splits)
    have l: "length (take 8 input) = 8" using False by simp
    obtain d1 where d: "length o1 = 8" "step d o1 = (take 8 input, d1)" "rel c1 d1"
      using step_inverse [OF less.prems(1) l 1] by blast
    have m: "length (drop 8 input) < length input" "length (drop 8 input) mod 8 = 0"
      using False less.prems(2) by (simp_all add: mod_if)
    obtain d' where d': "length o2 = length (drop 8 input)" "des_loop step d1 o2 = (drop 8 input, d')" "rel c' d'"
      using less.hyps [OF m(1) d(3) m(2) 2(1)] by blast
    show ?thesis using d d' 2(2) False by (simp add: des_loop.simps [of step d])
  qed
qed

text \<open>A message in two parts, each made of whole blocks.\<close>

lemma loop_append:
  "length xs mod 8 = 0 \<Longrightarrow> des_loop step c (xs @ ys) =
     (case des_loop step c xs of (o1, c1) \<Rightarrow> case des_loop step c1 ys of (o2, c2) \<Rightarrow> (o1 @ o2, c2))"
proof (induction "length xs" arbitrary: xs c rule: less_induct)
  case less
  show ?case
  proof (cases "length xs < 8")
    case True
    then have "xs = []" using less.prems by simp
    then show ?thesis by (simp add: des_loop.simps [of step c "[]"] split: prod.split)
  next
    case False
    have m: "length (drop 8 xs) < length xs" "length (drop 8 xs) mod 8 = 0"
      using False less.prems by (simp_all add: mod_if)
    show ?thesis using False less.hyps [OF m]
      by (simp add: des_loop.simps [of step c "xs @ ys"] des_loop.simps [of step c xs] split: prod.split)
  qed
qed

end

definition des_rel :: "des_cbc_ctx \<Rightarrow> des_cbc_ctx \<Rightarrow> bool" where
  "des_rel c d \<longleftrightarrow> des_encrypt c \<and> \<not> des_encrypt d \<and> des_iv c = des_iv d \<and> des_originalIV c = des_originalIV d
     \<and> des_keys_inv (des_subkeys c) (des_subkeys d)"

definition desx_rel :: "desx_cbc_ctx \<Rightarrow> desx_cbc_ctx \<Rightarrow> bool" where
  "desx_rel c d \<longleftrightarrow> desx_encrypt c \<and> \<not> desx_encrypt d \<and> desx_iv c = desx_iv d \<and> desx_originalIV c = desx_originalIV d
     \<and> inputWhitener c = inputWhitener d \<and> outputWhitener c = outputWhitener d
     \<and> des_keys_inv (desx_subkeys c) (desx_subkeys d)"

definition des3_rel :: "des3_cbc_ctx \<Rightarrow> des3_cbc_ctx \<Rightarrow> bool" where
  "des3_rel c d \<longleftrightarrow> des3_encrypt c \<and> \<not> des3_encrypt d \<and> des3_iv c = des3_iv d \<and> des3_originalIV c = des3_originalIV d
     \<and> (case (des3_subkeys c, des3_subkeys d) of ((k0, k1, k2), (l0, l1, l2)) \<Rightarrow>
          des_keys_inv k0 l2 \<and> des_keys_inv k1 l1 \<and> des_keys_inv k2 l0)"

interpretation des: chained_cipher "des_cbc_step TYPE(32)" des_rel
proof
  fix c d b out c'
  assume "des_rel c d" "length (b :: byte list) = 8" "des_cbc_step TYPE(32) c b = (out, c')"
  then show "length out = 8 \<and> (\<exists>d'. des_cbc_step TYPE(32) d out = (b, d') \<and> des_rel c' d')"
    by (auto simp: des_cbc_step_def des_rel_def des_keys_invD Let_def unscrunch_scrunch)
qed

interpretation desx: chained_cipher "desx_cbc_step TYPE(32)" desx_rel
proof
  fix c d b out c'
  assume "desx_rel c d" "length (b :: byte list) = 8" "desx_cbc_step TYPE(32) c b = (out, c')"
  then show "length out = 8 \<and> (\<exists>d'. desx_cbc_step TYPE(32) d out = (b, d') \<and> desx_rel c' d')"
    by (auto simp: desx_cbc_step_def desx_rel_def des_keys_invD Let_def unscrunch_scrunch des_xor_assoc [of _ "desx_iv d"])
qed

interpretation des3: chained_cipher "des3_cbc_step TYPE(32)" des3_rel
proof
  fix c d b out c'
  assume "des3_rel c d" "length (b :: byte list) = 8" "des3_cbc_step TYPE(32) c b = (out, c')"
  then show "length out = 8 \<and> (\<exists>d'. des3_cbc_step TYPE(32) d out = (b, d') \<and> des3_rel c' d')"
    by (auto simp: des3_cbc_step_def des3_rel_def des_keys_invD Let_def unscrunch_scrunch split: prod.splits)
qed

lemma des_rel_init: "des_rel (DES_CBCInit key iv True) (DES_CBCInit key iv False)"
  using deskey_inv [of key True] by (simp add: des_rel_def DES_CBCInit_def)

lemma desx_rel_init: "desx_rel (DESX_CBCInit key iv True) (DESX_CBCInit key iv False)"
  using deskey_inv [of key True] by (simp add: desx_rel_def DESX_CBCInit_def)

lemma des3_rel_init: "des3_rel (DES3_CBCInit key iv True) (DES3_CBCInit key iv False)"
  using deskey_inv [of key True] deskey_inv [of "drop 8 key" False] deskey_inv [of "drop 16 key" True]
  by (simp add: des3_rel_def DES3_CBCInit_def)

text \<open>
  C21. Where \<^verbatim>\<open>unsigned long\<close> has four bytes, for each of the three ciphers a context made for decryption with the same
  key and initial vector gives back what the context made for encryption was given, for every input
  of whole blocks.
\<close>

theorem DES_modes_roundtrip:
  assumes "length input mod 8 = 0"
  shows "(\<exists>out c d. DES_CBCUpdate TYPE(32) (DES_CBCInit key iv True) input = (ID_OK, out, c) \<and> length out = length input
        \<and> DES_CBCUpdate TYPE(32) (DES_CBCInit key iv False) out = (ID_OK, input, d))
    \<and> (\<exists>out c d. DESX_CBCUpdate TYPE(32) (DESX_CBCInit key iv True) input = (ID_OK, out, c) \<and> length out = length input
        \<and> DESX_CBCUpdate TYPE(32) (DESX_CBCInit key iv False) out = (ID_OK, input, d))
    \<and> (\<exists>out c d. DES3_CBCUpdate TYPE(32) (DES3_CBCInit key iv True) input = (ID_OK, out, c) \<and> length out = length input
        \<and> DES3_CBCUpdate TYPE(32) (DES3_CBCInit key iv False) out = (ID_OK, input, d))"
proof (intro conjI)
  obtain o1 c1 where 1: "des_loop (des_cbc_step TYPE(32)) (DES_CBCInit key iv True) input = (o1, c1)" by force
  show "\<exists>out c d. DES_CBCUpdate TYPE(32) (DES_CBCInit key iv True) input = (ID_OK, out, c) \<and> length out = length input
        \<and> DES_CBCUpdate TYPE(32) (DES_CBCInit key iv False) out = (ID_OK, input, d)"
    using des.loop_inverse [OF des_rel_init assms 1] 1 assms by (auto simp: DES_CBCUpdate_def)
  obtain o2 c2 where 2: "des_loop (desx_cbc_step TYPE(32)) (DESX_CBCInit key iv True) input = (o2, c2)" by force
  show "\<exists>out c d. DESX_CBCUpdate TYPE(32) (DESX_CBCInit key iv True) input = (ID_OK, out, c) \<and> length out = length input
        \<and> DESX_CBCUpdate TYPE(32) (DESX_CBCInit key iv False) out = (ID_OK, input, d)"
    using desx.loop_inverse [OF desx_rel_init assms 2] 2 assms by (auto simp: DESX_CBCUpdate_def)
  obtain o3 c3 where 3: "des_loop (des3_cbc_step TYPE(32)) (DES3_CBCInit key iv True) input = (o3, c3)" by force
  show "\<exists>out c d. DES3_CBCUpdate TYPE(32) (DES3_CBCInit key iv True) input = (ID_OK, out, c) \<and> length out = length input
        \<and> DES3_CBCUpdate TYPE(32) (DES3_CBCInit key iv False) out = (ID_OK, input, d)"
    using des3.loop_inverse [OF des3_rel_init assms 3] 3 assms by (auto simp: DES3_CBCUpdate_def)
qed

lemma DES_modes_roundtrip_witness:
  "\<exists>out c d. DES3_CBCUpdate TYPE(32) (DES3_CBCInit (replicate 24 7) (replicate 8 3) True) (replicate 8 9) = (ID_OK, out, c)
     \<and> length out = 8 \<and> DES3_CBCUpdate TYPE(32) (DES3_CBCInit (replicate 24 7) (replicate 8 3) False) out = (ID_OK, replicate 8 9, d)"
  using conjunct2 [OF conjunct2 [OF DES_modes_roundtrip [of "replicate 8 9" "replicate 24 7" "replicate 8 3"]]] by simp

end
