(* ===== verification/DES_Width.thy ===== *)
theory DES_Width
  imports DES
begin

text \<open>
  What the width of \<^verbatim>\<open>unsigned long\<close> does to the block function of \<^verbatim>\<open>QBase/RSAEuro/desc.c\<close>: the key of zeros,
  whose schedule is made of zeros, and the steps of one run at both widths.
\<close>

section \<open>The key schedule of the key of zeros\<close>

lemma des_pc1m_zero: "des_pc1m (replicate 8 0) = replicate 56 False"
proof -
  have "\<forall>l \<in> set pc1. l div 8 < 8" by (simp add: pc1_def)
  then have "des_pc1m (replicate 8 0) = map (\<lambda>_. False) pc1" unfolding des_pc1m_def by (intro map_cong) simp_all
  moreover have "length pc1 = 56" by (simp add: pc1_def)
  ultimately show ?thesis by (simp add: map_replicate_const)
qed

lemma des_pcr_zero:
  assumes "rot \<in> set totrot"
  shows "des_pcr (replicate 56 False) rot = replicate 56 False"
proof -
  have f: "l < 56 \<Longrightarrow> \<not> replicate 56 False ! l" for l by (simp only: nth_replicate) simp
  have r: "rot \<le> 28" using assms by (auto simp: totrot_def)
  have lo: "map (\<lambda>j. let l = j + rot in if l < 28 then replicate 56 False ! l else replicate 56 False ! (l - 28)) [0..<28] = map (\<lambda>_. False) [0..<28]"
  proof (rule map_cong [OF refl])
    fix j assume "j \<in> set [0..<28]"
    then have "j < 28" by (simp only: set_upt atLeastLessThan_iff)
    then have "if j + rot < 28 then j + rot < 56 else j + rot - 28 < 56" using r by auto
    then show "(let l = j + rot in if l < 28 then replicate 56 False ! l else replicate 56 False ! (l - 28)) = False"
      using f unfolding Let_def by (simp split: if_splits)
  qed
  have hi: "map (\<lambda>j. let l = j + rot in if l < 56 then replicate 56 False ! l else replicate 56 False ! (l - 28)) [28..<56] = map (\<lambda>_. False) [28..<56]"
  proof (rule map_cong [OF refl])
    fix j assume "j \<in> set [28..<56]"
    then have "j < 56" by (simp only: set_upt atLeastLessThan_iff)
    then have "if j + rot < 56 then j + rot < 56 else j + rot - 28 < 56" using r by auto
    then show "(let l = j + rot in if l < 56 then replicate 56 False ! l else replicate 56 False ! (l - 28)) = False"
      using f unfolding Let_def by (simp split: if_splits)
  qed
  show ?thesis unfolding des_pcr_def lo hi by (simp only: map_replicate_const length_upt) (simp add: replicate_add [symmetric])
qed

lemma des_choice_zero:
  assumes "off = 0 \<or> off = 24"
  shows "des_choice (replicate 56 False) off = 0"
proof -
  have "pc2 ! (j + off) < 56" if "j < 24" for j
  proof -
    have "\<forall>x \<in> set pc2. x < 56" by (simp add: pc2_def)
    moreover have "length pc2 = 48" by (simp add: pc2_def)
    moreover have "j + off < 48" using that assms by linarith
    ultimately show ?thesis using nth_mem by metis
  qed
  then have "\<not> replicate 56 False ! (pc2 ! (j + off))" if "j < 24" for j using that by (simp only: nth_replicate) simp
  then have "fold (\<lambda>j kn. if replicate 56 False ! (pc2 ! (j + off)) then kn OR bigbyte ! j else kn) js 0 = 0"
    if "set js \<subseteq> {0..<24}" for js using that by (induction js) simp_all
  then show ?thesis unfolding des_choice_def using set_upt by blast
qed

lemma deskey_zero: "deskey (replicate 8 0) e = replicate 32 0"
proof -
  have kn: "des_kn (replicate 8 0) = concat (map (\<lambda>_. [0, 0]) totrot)"
    unfolding des_kn_def Let_def des_pc1m_zero by (simp add: des_pcr_zero des_choice_zero cong: map_cong)
  have "cooked (des_kn (replicate 8 0)) = replicate 16 (0, 0)"
    unfolding kn by (simp add: totrot_def cooked_def cook0_def cook1_def numeral_eq_Suc)
  then show ?thesis by (cases e) (simp_all add: deskey_pairs numeral_eq_Suc)
qed

section \<open>One block at both widths\<close>

lemma zeros_32: "replicate 32 (0 :: u32) = [0, 0, 0, 0, 0, 0, 0, 0, 0, 0, 0, 0, 0, 0, 0, 0, 0, 0, 0, 0, 0, 0, 0, 0, 0, 0, 0, 0, 0, 0, 0, 0]"
  by (simp add: numeral_eq_Suc)

lemma des_F_32:
  shows "des_F (0x77d41b85 :: 32 word) 0 0 = 0x335855ec"
    "des_F (0xb195a14 :: 32 word) 0 0 = 0xc36f5d11"
    "des_F (0xb4bb4694 :: 32 word) 0 0 = 0x26de7431"
    "des_F (0x2dc72e25 :: 32 word) 0 0 = 0x53646469"
    "des_F (0xe7df22fd :: 32 word) 0 0 = 0x66658cdd"
    "des_F (0x4ba2a2f8 :: 32 word) 0 0 = 0xf7ed3a5c"
    "des_F (0x103218a1 :: 32 word) 0 0 = 0x6b568519"
    "des_F (0x20f427e1 :: 32 word) 0 0 = 0x238c0e19"
    "des_F (0x33be16b8 :: 32 word) 0 0 = 0xdb273574"
    "des_F (0xfbd31295 :: 32 word) 0 0 = 0x258ce179"
    "des_F (0x1632f7c1 :: 32 word) 0 0 = 0x4758d63b"
    "des_F (0xbc8bc4ae :: 32 word) 0 0 = 0xa1c6208d"
    "des_F (0xb7f4d74c :: 32 word) 0 0 = 0x72fe1e31"
    "des_F (0xce75da9f :: 32 word) 0 0 = 0x6456035"
    "des_F (0xb1b1b779 :: 32 word) 0 0 = 0xce75da9f"
    "des_F (0x0 :: 32 word) 0 0 = 0xb1b1b779"
  by code_simp+

lemma des_rounds_32: "des_rounds (0x38410ff8 :: 32 word, 0x77d41b85) (replicate 32 0) = (0x0, 0x0)"
  unfolding zeros_32 by (simp add: des_F_32 Let_def)

lemma des_ends_32:
  "des_initial (0x8ca64de9 :: 32 word, 0xc1b123a7) = (0x38410ff8, 0x77d41b85)" "des_final (0x0 :: 32 word, 0x0) = (0x0, 0x0)"
  by code_simp+

lemma des_F_64:
  shows "des_F (0x177d41b85 :: 64 word) 0 0 = 0x335855ec"
    "des_F (0xb195a14 :: 64 word) 0 0 = 0xc36f5d11"
    "des_F (0x1b4bb4694 :: 64 word) 0 0 = 0x26df7035"
    "des_F (0x2dc62a21 :: 64 word) 0 0 = 0x21a40529"
    "des_F (0x1951f43bd :: 64 word) 0 0 = 0x234cc8dd"
    "des_F (0xe8ae2fc :: 64 word) 0 0 = 0x27e13e70"
    "des_F (0x1b2fe7dcd :: 64 word) 0 0 = 0x683f394c"
    "des_F (0x66b5dbb0 :: 64 word) 0 0 = 0xaa50ea05"
    "des_F (0x118ae97c8 :: 64 word) 0 0 = 0x6d5424fb"
    "des_F (0xbe1ff4b :: 64 word) 0 0 = 0xa9af5d1d"
    "des_F (0x1b101cad5 :: 64 word) 0 0 = 0x8a5da9c7"
    "des_F (0x81bc568c :: 64 word) 0 0 = 0x9824979a"
    "des_F (0x129255d4f :: 64 word) 0 0 = 0xcf4bc342"
    "des_F (0x4ef795ce :: 64 word) 0 0 = 0x2ba35db9"
    "des_F (0x1028600f6 :: 64 word) 0 0 = 0x31899e57"
    "des_F (0x7f7e0b99 :: 64 word) 0 0 = 0x2938ac1e"
  by code_simp+

lemma des_rounds_64: "des_rounds (0x38410ff8 :: 64 word, 0x177d41b85) (replicate 32 0) = (0x7f7e0b99, 0x12bbeace8)"
  unfolding zeros_32 by (simp add: des_F_64 Let_def)

lemma des_ends_64:
  "des_initial (0x8ca64de9 :: 64 word, 0xc1b123a7) = (0x38410ff8, 0x177d41b85)" "des_final (0x7f7e0b99 :: 64 word, 0x12bbeace8) = (0x95df5674f8b4ffb2, 0x6aef0198f5a117f2)"
  by code_simp+

text \<open>
  The width of the variables matters. With four bytes the block function encrypts the zero block under the
  zero key to the published value and decrypts that to the zero block; where \<^verbatim>\<open>unsigned long\<close> has eight
  bytes, the rotations by one place keep a bit that should have gone and decryption gives something else.
\<close>

theorem desfunc_width:
  "desfunc TYPE(32) (0, 0) (deskey (replicate 8 0) True) = (0x8ca64de9, 0xc1b123a7)
   \<and> desfunc TYPE(32) (0x8ca64de9, 0xc1b123a7) (deskey (replicate 8 0) False) = (0, 0)
   \<and> desfunc TYPE(64) (0x8ca64de9, 0xc1b123a7) (deskey (replicate 8 0) False) = (0xf8b4ffb2, 0xf5a117f2)"
proof (intro conjI)
  show d: "desfunc TYPE(32) (0x8ca64de9, 0xc1b123a7) (deskey (replicate 8 0) False) = (0, 0)"
    unfolding deskey_zero desfunc_def by (simp add: des_ends_32 des_rounds_32)
  show "desfunc TYPE(32) (0, 0) (deskey (replicate 8 0) True) = (0x8ca64de9, 0xc1b123a7)"
    using des_keys_invD [OF deskey_inv [of "replicate 8 0" False], of "(0x8ca64de9, 0xc1b123a7)"] unfolding d by simp
  show "desfunc TYPE(64) (0x8ca64de9, 0xc1b123a7) (deskey (replicate 8 0) False) = (0xf8b4ffb2, 0xf5a117f2)"
    unfolding deskey_zero desfunc_def by (simp add: des_ends_64 des_rounds_64)
qed

end
