(* ===== verification/MD2.thy ===== *)
theory MD2
  imports Digest_Base
begin

text \<open>
  \<^verbatim>\<open>QBase/RSAEuro/md2c.c\<close>. A block changes the state and a checksum, and the checksum is absorbed
  as the last block. The routine that buffers is the one of MD4 and MD5 with blocks of 16 bytes.
\<close>

record md2_ctx =
  md2_state :: "byte list"
  md2_checksum :: "byte list"
  md2_count :: nat
  md2_buffer :: "byte list"

definition PI_SUBST :: "byte list" where
  "PI_SUBST =
     [41, 46, 67, 201, 162, 216, 124, 1, 61, 54, 84, 161, 236, 240, 6, 19,
      98, 167, 5, 243, 192, 199, 115, 140, 152, 147, 43, 217, 188, 76, 130, 202,
      30, 155, 87, 60, 253, 212, 224, 22, 103, 66, 111, 24, 138, 23, 229, 18,
      190, 78, 196, 214, 218, 158, 222, 73, 160, 251, 245, 142, 187, 47, 238, 122,
      169, 104, 121, 145, 21, 178, 7, 63, 148, 194, 16, 137, 11, 34, 95, 33,
      128, 127, 93, 154, 90, 144, 50, 39, 53, 62, 204, 231, 191, 247, 151, 3,
      255, 25, 48, 179, 72, 165, 181, 209, 215, 94, 146, 42, 172, 86, 170, 198,
      79, 184, 56, 210, 150, 164, 125, 182, 118, 252, 107, 226, 156, 116, 4, 241,
      69, 157, 112, 89, 100, 113, 135, 32, 134, 91, 207, 101, 230, 45, 168, 2,
      27, 96, 37, 173, 174, 176, 185, 246, 28, 70, 97, 105, 52, 64, 126, 15,
      85, 71, 163, 35, 221, 81, 175, 58, 195, 92, 249, 206, 186, 197, 234, 38,
      44, 83, 13, 110, 133, 40, 132, 9, 211, 223, 205, 244, 65, 129, 77, 82,
      106, 220, 55, 200, 108, 193, 171, 250, 36, 225, 123, 8, 12, 189, 177, 74,
      120, 136, 149, 139, 227, 99, 232, 109, 233, 203, 213, 254, 59, 0, 29, 57,
      242, 239, 183, 14, 102, 88, 208, 228, 166, 119, 114, 248, 235, 117, 75, 10,
      49, 68, 80, 180, 143, 237, 31, 26, 219, 153, 141, 51, 159, 17, 131, 20]"

text \<open>\<^verbatim>\<open>PADDING[padLen]\<close>, a string of \<open>padLen\<close> bytes of that value.\<close>

definition md2_PADDING :: "nat \<Rightarrow> byte list" where
  "md2_PADDING padLen = replicate padLen (of_nat padLen)"

section \<open>The block function\<close>

text \<open>The inner loop \<^verbatim>\<open>t = x[j] ^= PI_SUBST[t]\<close> over the 48 bytes.\<close>

fun md2_pass :: "byte \<Rightarrow> byte list \<Rightarrow> byte \<times> byte list" where
  "md2_pass t [] = (t, [])"
| "md2_pass t (x # xs) =
     (let x' = x XOR PI_SUBST ! unat t; (t', xs') = md2_pass x' xs in (t', x' # xs'))"

text \<open>The 18 passes; \<open>i\<close> runs up to 17.\<close>

fun md2_round :: "nat \<Rightarrow> byte \<times> byte list \<Rightarrow> byte \<times> byte list" where
  "md2_round i (t, x) = (case md2_pass t x of (t, x) \<Rightarrow> (t + of_nat i, x))"

text \<open>The checksum loop \<^verbatim>\<open>t = checksum[i] ^= PI_SUBST[block[i] ^ t]\<close>.\<close>

fun md2_sum :: "byte \<Rightarrow> byte list \<Rightarrow> byte list \<Rightarrow> byte list" where
  "md2_sum t (c # checksum) (b # block) =
     (let c' = c XOR PI_SUBST ! unat (b XOR t) in c' # md2_sum c' checksum block)"
| "md2_sum t _ _ = []"

definition MD2Transform :: "byte list \<times> byte list \<Rightarrow> byte list \<Rightarrow> byte list \<times> byte list" where
  "MD2Transform st block =
     (let (state, checksum) = st;
          x = take 16 state @ take 16 block @ map2 (XOR) (take 16 state) (take 16 block);
          (t, x) = fold md2_round [0..<18] (0, x)
      in (take 16 x, md2_sum (checksum ! 15) checksum block))"

section \<open>The operations\<close>

definition MD2Init :: "md2_ctx \<Rightarrow> md2_ctx" where
  "MD2Init context = context\<lparr>md2_count := 0,
     md2_state := R_memset (md2_state context) 0 0 16,
     md2_checksum := R_memset (md2_checksum context) 0 0 16\<rparr>"

definition MD2Update :: "md2_ctx \<Rightarrow> byte list \<Rightarrow> md2_ctx" where
  "MD2Update context input =
     (let index = md2_count context;
          ((state, checksum), buffer) =
            blk_update 16 MD2Transform (md2_state context, md2_checksum context) (md2_buffer context) index input
      in context\<lparr>md2_count := (index + length input) mod 16, md2_state := state,
                 md2_checksum := checksum, md2_buffer := buffer\<rparr>)"

definition MD2Final :: "md2_ctx \<Rightarrow> byte list" where
  "MD2Final context =
     (let index = md2_count context;
          padLen = 16 - index;
          context = MD2Update context (md2_PADDING padLen);
          context = MD2Update context (md2_checksum context)
      in take 16 (md2_state context))"

section \<open>An instance of the interface\<close>

interpretation md2_blk: block_buffer 16 MD2Transform
  by unfold_locales simp

abbreviation md2_start :: "byte list \<times> byte list" where
  "md2_start \<equiv> (replicate 16 0, replicate 16 0)"

definition md2_rep :: "md2_ctx \<Rightarrow> byte list \<Rightarrow> bool" where
  "md2_rep c m \<longleftrightarrow> md2_count c = length m mod 16
     \<and> blk_rep 16 MD2Transform md2_start m (md2_state c, md2_checksum c) (md2_buffer c)"

definition md2_valid :: "md2_ctx \<Rightarrow> bool" where
  "md2_valid c \<longleftrightarrow> length (md2_state c) = 16 \<and> length (md2_checksum c) = 16 \<and> length (md2_buffer c) = 16"

text \<open>The message, its padding and the checksum of both.\<close>

definition md2_digest :: "byte list \<Rightarrow> byte list" where
  "md2_digest m =
     (let (state, checksum) = fst (blk_loop 16 MD2Transform md2_start
                                    (m @ md2_PADDING (16 - length m mod 16)))
      in take 16 (fst (MD2Transform (state, checksum) checksum)))"

lemma md2_rep_update:
  assumes "md2_rep c m"
  shows "md2_rep (MD2Update c xs) (m @ xs)"
proof -
  obtain st ck b where u: "blk_update 16 MD2Transform (md2_state c, md2_checksum c) (md2_buffer c)
      (length m mod 16) xs = ((st, ck), b)" by (metis prod.exhaust)
  have "blk_rep 16 MD2Transform md2_start (m @ xs) (st, ck) b"
    by (rule md2_blk.blk_rep_update [OF _ u]) (use assms in \<open>simp add: md2_rep_def\<close>)
  then show ?thesis using assms by (simp add: md2_rep_def MD2Update_def u Let_def mod_simps)
qed

lemma length_md2_sum [simp]: "length ck = length b \<Longrightarrow> length (md2_sum t ck b) = length ck"
  by (induction t ck b rule: md2_sum.induct) (auto simp: Let_def)

text \<open>The checksum keeps its 16 bytes.\<close>

lemma blk_loop_md2_checksum:
  "length (snd st) = 16 \<Longrightarrow> length (snd (fst (blk_loop 16 MD2Transform st m))) = 16"
proof (induction "length m" arbitrary: st m rule: less_induct)
  case less
  show ?case
  proof (cases "length m < 16")
    case True
    then show ?thesis using less.prems by (simp add: md2_blk.blk_loop_short)
  next
    case False
    have "length (snd (MD2Transform st (take 16 m))) = 16"
      using False less.prems by (auto simp: MD2Transform_def Let_def split: prod.split)
    then show ?thesis using False less.hyps [of "drop 16 m"] by (subst blk_loop.simps) simp
  qed
qed

lemma md2_rep_final:
  assumes "md2_rep c m"
  shows "MD2Final c = md2_digest m"
proof -
  let ?p = "16 - length m mod 16"
  let ?c1 = "MD2Update c (md2_PADDING ?p)"
  have r1: "md2_rep ?c1 (m @ md2_PADDING ?p)" by (rule md2_rep_update [OF assms])
  have l0: "(length m + ?p) mod 16 = 0"
    using mult_div_mod_eq [of 16 "length m"] mod_less_divisor [of 16 "length m"]
    by (metis add.commute le_add_diff_inverse less_imp_le mod_add_left_eq mod_self zero_less_numeral)
  have L: "blk_loop 16 MD2Transform md2_start (m @ md2_PADDING ?p) = ((md2_state ?c1, md2_checksum ?c1), [])"
    using r1 l0 by (simp add: md2_rep_def blk_rep_def md2_PADDING_def)
  have ck: "length (md2_checksum ?c1) = 16" using blk_loop_md2_checksum [of md2_start "m @ md2_PADDING ?p"] L by simp
  have "md2_rep (MD2Update ?c1 (md2_checksum ?c1)) ((m @ md2_PADDING ?p) @ md2_checksum ?c1)"
    by (rule md2_rep_update [OF r1])
  then have "fst (blk_loop 16 MD2Transform md2_start ((m @ md2_PADDING ?p) @ md2_checksum ?c1))
     = (md2_state (MD2Update ?c1 (md2_checksum ?c1)), md2_checksum (MD2Update ?c1 (md2_checksum ?c1)))"
    by (simp add: md2_rep_def blk_rep_def)
  moreover have "blk_loop 16 MD2Transform md2_start ((m @ md2_PADDING ?p) @ md2_checksum ?c1)
     = (MD2Transform (md2_state ?c1, md2_checksum ?c1) (md2_checksum ?c1), [])"
    using md2_blk.blk_loop_block [OF ck, of "(md2_state ?c1, md2_checksum ?c1)" "[]"]
    by (simp only: md2_blk.blk_loop_append [of _ "m @ md2_PADDING ?p"] L prod.case append_Nil append_Nil2)
      (simp add: md2_blk.blk_loop_short)
  moreover have "md2_count c = length m mod 16" using assms by (simp add: md2_rep_def)
  ultimately show ?thesis by (simp add: MD2Final_def md2_digest_def Let_def L)
qed

interpretation md2: message_digest md2_valid MD2Init MD2Update MD2Final md2_rep md2_digest
proof
  show "md2_rep (MD2Init c) []" if "md2_valid c" for c
    using that md2_blk.blk_rep_init
    by (simp add: md2_rep_def MD2Init_def md2_valid_def R_memset_eq R_memcpy_eq)
  show "md2_rep (MD2Update c xs) (m @ xs)" if "md2_rep c m" for c m xs
    using that by (rule md2_rep_update)
  show "MD2Final c = md2_digest m" if "md2_rep c m" for c m
    using that by (rule md2_rep_final)
qed

lemma length_md2_pass: "length (snd (md2_pass t x)) = length x"
  by (induction t x rule: md2_pass.induct) (auto simp: Let_def split: prod.split)

lemma length_md2_rounds: "length (snd (fold md2_round is (t, x))) = length x"
proof (induction "is" arbitrary: t x)
  case (Cons i "is")
  obtain t' x' where m: "md2_pass t x = (t', x')" by force
  have "length x' = length x" using length_md2_pass [of t x] m by simp
  then show ?case using Cons [of "t' + of_nat i" x'] m by simp
qed simp

lemma length_md2_digest: "length (md2_digest m) = 16"
proof -
  let ?P = "\<lambda>st :: byte list \<times> byte list. length (fst st) = 16 \<and> length (snd st) = 16"
  have step: "?P (MD2Transform st b)" if "?P st" "length b = 16" for st b
  proof (cases st)
    case (Pair s c)
    then have "length (snd (fold md2_round [0..<18] (0, take 16 s @ take 16 b @ map2 (XOR) (take 16 s) (take 16 b)))) = 48"
      using length_md2_rounds [of "[0..<18]" 0 "take 16 s @ take 16 b @ map2 (XOR) (take 16 s) (take 16 b)"] that by simp
    then show ?thesis using that Pair length_md2_sum [of c b "c ! 15"]
      by (auto simp: MD2Transform_def Let_def split: prod.split)
  qed
  obtain s c where sc: "fst (blk_loop 16 MD2Transform md2_start (m @ md2_PADDING (16 - length m mod 16))) = (s, c)" by force
  have "?P (s, c)" using blk_loop_invariant [of ?P md2_start 16 MD2Transform] step sc by (metis fst_conv length_replicate snd_conv)
  then have "?P (MD2Transform (s, c) c)" by (intro step) simp_all
  then show ?thesis using sc by (simp add: md2_digest_def)
qed

text \<open>
  MD2 of a message passed in any pieces is the digest of the message: its blocks and those of
  its padding absorbed in turn, then their checksum.
\<close>

theorem MD2_pieces:
  assumes "length (md2_state c) = 16" "length (md2_checksum c) = 16" "length (md2_buffer c) = 16"
    and "\<forall>xs \<in> set chunks. length xs < 2 ^ 31"
  shows "MD2Final (fold (\<lambda>xs c. MD2Update c xs) chunks (MD2Init c)) = md2_digest (concat chunks)"
  using md2.digest_of_chunks [of c chunks] assms by (simp add: md2_valid_def)

theorem MD2_pieces_witness:
  "MD2Final (fold (\<lambda>xs c. MD2Update c xs) [[1, 2], [], [3]]
      (MD2Init \<lparr>md2_state = replicate 16 9, md2_checksum = replicate 16 8, md2_count = 5, md2_buffer = replicate 16 7\<rparr>))
     = md2_digest [1, 2, 3]"
  using MD2_pieces [of "\<lparr>md2_state = replicate 16 9, md2_checksum = replicate 16 8, md2_count = 5,
      md2_buffer = replicate 16 7\<rparr>" "[[1, 2], [], [3]]"]
  by simp

end
