(* ===== verification/SHS.thy ===== *)
theory SHS
  imports MD45
begin

text \<open>
  \<^verbatim>\<open>QBase/RSAEuro/shsc.c\<close>, the first version of the Secure Hash Standard (the message schedule has
  no rotation). The data block is an array of words that is filled as bytes; on the little-endian
  machines the program runs on, \<^verbatim>\<open>byteReverse\<close> turns its words round before a block is absorbed.
\<close>

record shs_ctx =
  shs_digest :: "u32 list"
  shs_countLo :: u32
  shs_countHi :: u32
  shs_data :: "u32 list"

definition SHS_BLOCKSIZE :: nat where "SHS_BLOCKSIZE = 64"

section \<open>The block function\<close>

definition shs_f1 :: "u32 \<Rightarrow> u32 \<Rightarrow> u32 \<Rightarrow> u32" where "shs_f1 x y z = ((x AND y) OR (NOT x AND z))"
definition shs_f2 :: "u32 \<Rightarrow> u32 \<Rightarrow> u32 \<Rightarrow> u32" where "shs_f2 x y z = (x XOR y XOR z)"
definition shs_f3 :: "u32 \<Rightarrow> u32 \<Rightarrow> u32 \<Rightarrow> u32" where
  "shs_f3 x y z = ((x AND y) OR (x AND z) OR (y AND z))"
definition shs_f4 :: "u32 \<Rightarrow> u32 \<Rightarrow> u32 \<Rightarrow> u32" where "shs_f4 x y z = (x XOR y XOR z)"

definition shs_S :: "nat \<Rightarrow> u32 \<Rightarrow> u32" where "shs_S n X = (push_bit n X OR drop_bit (32 - n) X)"

definition shs_expand :: "nat \<Rightarrow> u32 list \<Rightarrow> u32 list" where
  "shs_expand count W = W @ [W ! (count - 3) XOR W ! (count - 8) XOR W ! (count - 14) XOR W ! (count - 16)]"

fun shs_subRound ::
  "(u32 \<Rightarrow> u32 \<Rightarrow> u32 \<Rightarrow> u32) \<Rightarrow> u32 \<Rightarrow> u32 \<Rightarrow> u32 \<times> u32 \<times> u32 \<times> u32 \<times> u32
     \<Rightarrow> u32 \<times> u32 \<times> u32 \<times> u32 \<times> u32" where
  "shs_subRound f K w (A, B, C, D, E) = (shs_S 5 A + f B C D + E + w + K, A, shs_S 30 B, C, D)"

definition SHSTransform :: "u32 list \<Rightarrow> u32 list \<Rightarrow> u32 list" where
  "SHSTransform digest data =
     (let W = fold shs_expand [16..<80] (take 16 data);
          r = (digest ! 0, digest ! 1, digest ! 2, digest ! 3, digest ! 4);
          r = fold (shs_subRound shs_f1 0x5A827999) (take 20 W) r;
          r = fold (shs_subRound shs_f2 0x6ED9EBA1) (take 20 (drop 20 W)) r;
          r = fold (shs_subRound shs_f3 0x8F1BBCDC) (take 20 (drop 40 W)) r;
          (A, B, C, D, E) = fold (shs_subRound shs_f4 0xCA62C1D6) (take 20 (drop 60 W)) r
      in [digest ! 0 + A, digest ! 1 + B, digest ! 2 + C, digest ! 3 + D, digest ! 4 + E])"

section \<open>The operations\<close>

text \<open>\<^verbatim>\<open>byteReverse\<close> on one word and on the words of \<open>byteCount\<close> bytes.\<close>

definition shs_reverse :: "u32 \<Rightarrow> u32" where
  "shs_reverse x =
     (let value = (push_bit 16 x OR drop_bit 16 x)
      in drop_bit 8 (value AND 0xFF00FF00) OR push_bit 8 (value AND 0x00FF00FF))"

definition byteReverse :: "u32 list \<Rightarrow> nat \<Rightarrow> u32 list" where
  "byteReverse buffer byteCount =
     map shs_reverse (take (byteCount div 4) buffer) @ drop (byteCount div 4) buffer"

text \<open>The words of the data block written as bytes from an offset on: the machine is little-endian.\<close>

definition shs_put :: "u32 list \<Rightarrow> nat \<Rightarrow> byte list \<Rightarrow> u32 list" where
  "shs_put data off bs = md_Decode (R_memcpy (md_Encode data) off bs)"

definition SHSInit :: "shs_ctx \<Rightarrow> shs_ctx" where
  "SHSInit context = context\<lparr>
     shs_digest := [0x67452301, 0xEFCDAB89, 0x98BADCFE, 0x10325476, 0xC3D2E1F0],
     shs_countLo := 0, shs_countHi := 0\<rparr>"

text \<open>The loop over the whole blocks of the input.\<close>

function shs_blocks :: "u32 list \<Rightarrow> u32 list \<Rightarrow> byte list \<Rightarrow> u32 list \<times> u32 list \<times> byte list" where
  "shs_blocks digest data buffer =
     (if length buffer \<ge> SHS_BLOCKSIZE
      then (let data = byteReverse (shs_put data 0 (take SHS_BLOCKSIZE buffer)) SHS_BLOCKSIZE
            in shs_blocks (SHSTransform digest data) data (drop SHS_BLOCKSIZE buffer))
      else (digest, data, buffer))"
  by pat_completeness auto
termination
  by (relation "measure (\<lambda>(digest, data, buffer). length buffer)") (auto simp: SHS_BLOCKSIZE_def)

declare shs_blocks.simps [simp del]

definition shs_count_add :: "u32 \<Rightarrow> shs_ctx \<Rightarrow> shs_ctx" where
  "shs_count_add count context =
     (let countHi = (if shs_countLo context + push_bit 3 count < shs_countLo context
                     then shs_countHi context + 1 else shs_countHi context)
      in context\<lparr>shs_countLo := shs_countLo context + push_bit 3 count,
                 shs_countHi := countHi + drop_bit 29 count\<rparr>)"

definition shs_tail :: "u32 list \<times> u32 list \<times> byte list \<Rightarrow> shs_ctx \<Rightarrow> shs_ctx" where
  "shs_tail r context = (case r of (digest, data, rest) \<Rightarrow>
     context\<lparr>shs_digest := digest, shs_data := shs_put data 0 rest\<rparr>)"

definition SHSUpdate :: "shs_ctx \<Rightarrow> byte list \<Rightarrow> shs_ctx" where
  "SHSUpdate context buffer =
     (let dataCount = unat (drop_bit 3 (shs_countLo context) AND 0x3F);
          ctx = shs_count_add (of_nat (length buffer)) context;
          digest = shs_digest ctx; data = shs_data ctx
      in if dataCount \<noteq> 0
         then (let room = SHS_BLOCKSIZE - dataCount
               in if length buffer < room
                  then ctx\<lparr>shs_data := shs_put data dataCount buffer\<rparr>
                  else (let data = byteReverse (shs_put data dataCount (take room buffer)) SHS_BLOCKSIZE
                        in shs_tail (shs_blocks (SHSTransform digest data) data (drop room buffer)) ctx))
         else shs_tail (shs_blocks digest data buffer) ctx)"

text \<open>\<^verbatim>\<open>Encode\<close>, big-endian here.\<close>

fun shs_Encode :: "u32 list \<Rightarrow> byte list" where
  "shs_Encode [] = []"
| "shs_Encode (x # input) =
     [ucast (drop_bit 24 x AND 0xff), ucast (drop_bit 16 x AND 0xff), ucast (drop_bit 8 x AND 0xff),
      ucast (x AND 0xff)] @ shs_Encode input"

definition SHSFinal :: "shs_ctx \<Rightarrow> byte list" where
  "SHSFinal context =
     (let count = unat (drop_bit 3 (shs_countLo context) AND 0x3F);
          digest = shs_digest context;
          data = shs_put (shs_data context) count [0x80];
          count = count + 1;
          (digest, data) =
            (if count > 56
             then (let data = byteReverse (shs_put data count (replicate (64 - count) 0)) SHS_BLOCKSIZE
                   in (SHSTransform digest data, shs_put data 0 (replicate 56 0)))
             else (digest, shs_put data count (replicate (56 - count) 0)));
          data = byteReverse data SHS_BLOCKSIZE;
          data = data[14 := shs_countHi context, 15 := shs_countLo context]
      in shs_Encode (SHSTransform digest data))"

section \<open>Words and bytes\<close>

lemma md_Encode_append: "md_Encode (xs @ ys) = md_Encode xs @ md_Encode ys"
  by (induction xs) simp_all

lemma md_Decode_word: "unat (ucast b0 OR push_bit 8 (ucast b1) OR push_bit 16 (ucast b2) OR push_bit 24 (ucast b3) :: u32)
   = le_val [b0, b1, b2, b3]"
proof -
  let ?w = "\<lambda>b :: byte. ucast b :: u32"
  have u: "unat (push_bit k (?w b)) = unat b * 2 ^ k" if "k \<le> 24" for k b
  proof -
    have "unat b * 2 ^ k \<le> 255 * 2 ^ 24" using unat_byte_less [of b] that
      by (intro mult_le_mono power_increasing) (simp_all del: unat_byte_less)
    then show ?thesis by (simp add: unat_push_bit_u32 unat_ucast_byte)
  qed
  note less = unat_byte_less [of b0] unat_byte_less [of b1] unat_byte_less [of b2]
  have 1: "unat (push_bit 8 (?w b1) OR ?w b0) = unat b1 * 2 ^ 8 + unat b0"
    by (subst or_add_low) (use u [of 8 b1] in \<open>simp_all add: unat_ucast_byte\<close>)
  have 2: "unat (push_bit 16 (?w b2) OR (push_bit 8 (?w b1) OR ?w b0)) = unat b2 * 2 ^ 16 + (unat b1 * 2 ^ 8 + unat b0)"
    by (subst or_add_low) (use u [of 16 b2] 1 less in \<open>simp_all del: unat_byte_less\<close>)
  have 3: "unat (push_bit 24 (?w b3) OR (push_bit 16 (?w b2) OR (push_bit 8 (?w b1) OR ?w b0)))
     = unat b3 * 2 ^ 24 + (unat b2 * 2 ^ 16 + (unat b1 * 2 ^ 8 + unat b0))"
    by (subst or_add_low) (use u [of 24 b3] 2 less in \<open>simp_all del: unat_byte_less\<close>)
  have e: "(?w b0 OR push_bit 8 (?w b1) OR push_bit 16 (?w b2) OR push_bit 24 (?w b3))
     = push_bit 24 (?w b3) OR (push_bit 16 (?w b2) OR (push_bit 8 (?w b1) OR ?w b0))"
    by (simp only: or.assoc or.commute or.left_commute)
  show ?thesis unfolding e 3 by simp
qed


lemma md_Decode_one: "length bs = 4 \<Longrightarrow> \<exists>w. md_Decode bs = [w] \<and> unat w = le_val bs"
  by (auto dest!: length_4D simp: md_Decode_word simp del: le_val.simps)

lemma md_Decode_append: "length xs = 4 * n \<Longrightarrow> md_Decode (xs @ ys) = md_Decode xs @ md_Decode ys"
proof (induction n arbitrary: xs)
  case (Suc n)
  then obtain a b c d zs where "xs = a # b # c # d # zs" "length zs = 4 * n"
    by (auto dest!: length_4_plusD)
  then show ?case using Suc.IH by simp
qed simp

lemma md_Decode_Encode [simp]: "md_Decode (md_Encode ws) = ws"
proof (induction ws)
  case (Cons w ws)
  obtain v where v: "md_Decode (md_Encode [w]) = [v]" "unat v = le_val (md_Encode [w])"
    using md_Decode_one [of "md_Encode [w]"] by auto
  then have "unat v = unat w" by (simp add: md_Encode_one le_val_le_bytes del: md_Encode.simps)
  then have "v = w" by (simp add: u32_eq_iff)
  then show ?case using v(1) Cons md_Decode_append [of "md_Encode [w]" 1 "md_Encode ws"]
      md_Encode_append [of "[w]" ws] by (simp del: md_Encode.simps)
qed simp

lemma length_md_Decode: "length bs = 4 * n \<Longrightarrow> length (md_Decode bs) = n"
proof (induction n arbitrary: bs)
  case (Suc n)
  then obtain a b c d zs where "bs = a # b # c # d # zs" "length zs = 4 * n" by (auto dest!: length_4_plusD)
  then show ?case using Suc.IH by simp
qed simp

lemma md_Encode_Decode: "length bs = 4 * n \<Longrightarrow> md_Encode (md_Decode bs) = bs"
proof (induction n arbitrary: bs)
  case (Suc n)
  then obtain a b c d zs where e: "bs = a # b # c # d # zs" "length zs = 4 * n" by (auto dest!: length_4_plusD)
  obtain w where w: "md_Decode [a, b, c, d] = [w]" "unat w = le_val [a, b, c, d]"
    using md_Decode_one [of "[a, b, c, d]"] by auto
  have l4: "length [a, b, c, d] = 4" by simp
  have "md_Encode [w] = [a, b, c, d]"
    using le_bytes_le_val [of "[a, b, c, d]", unfolded l4] by (simp only: md_Encode_one w(2))
  moreover have "md_Decode bs = w # md_Decode zs"
    using md_Decode_append [of "[a, b, c, d]" 1 zs] w(1) e(1) by simp
  ultimately show ?case using Suc.IH [OF e(2)] md_Encode_append [of "[w]" "md_Decode zs"] e(1) by simp
qed simp

lemma md_Encode_shs_put: "length data = 16 \<Longrightarrow> md_Encode (shs_put data off bs) = R_memcpy (md_Encode data) off bs"
  unfolding shs_put_def by (rule md_Encode_Decode [of _ 16]) simp

lemma length_shs_put [simp]: "length data = 16 \<Longrightarrow> length (shs_put data off bs) = 16"
  unfolding shs_put_def by (rule length_md_Decode) simp

text \<open>Turning a word round reverses its four bytes.\<close>

lemma shs_reverse_byte:
  "ucast (drop_bit 24 (shs_reverse x)) = (ucast x :: byte)"
  "ucast (drop_bit 16 (shs_reverse x)) = (ucast (drop_bit 8 x) :: byte)"
  "ucast (drop_bit 8 (shs_reverse x)) = (ucast (drop_bit 16 x) :: byte)"
  "ucast (shs_reverse x) = (ucast (drop_bit 24 x) :: byte)"
proof -
  have n8: "n = 0 \<or> n = 1 \<or> n = 2 \<or> n = 3 \<or> n = 4 \<or> n = 5 \<or> n = 6 \<or> n = 7" if "n < 8" for n :: nat
    using that by linarith
  show "ucast (drop_bit 24 (shs_reverse x)) = (ucast x :: byte)"
    by (rule bit_word_eqI) (auto simp: shs_reverse_def Let_def bit_simps dest!: n8 dest: bit_imp_le_length)
  show "ucast (drop_bit 16 (shs_reverse x)) = (ucast (drop_bit 8 x) :: byte)"
    by (rule bit_word_eqI) (auto simp: shs_reverse_def Let_def bit_simps dest!: n8 dest: bit_imp_le_length)
  show "ucast (drop_bit 8 (shs_reverse x)) = (ucast (drop_bit 16 x) :: byte)"
    by (rule bit_word_eqI) (auto simp: shs_reverse_def Let_def bit_simps dest!: n8 dest: bit_imp_le_length)
  show "ucast (shs_reverse x) = (ucast (drop_bit 24 x) :: byte)"
    by (rule bit_word_eqI) (auto simp: shs_reverse_def Let_def bit_simps dest!: n8 dest: bit_imp_le_length)
qed

lemma ucast_and_ff: "(ucast (x AND 0xff :: u32) :: byte) = ucast x"
proof -
  have m: "0xff = (mask 8 :: u32)" by (simp add: mask_eq_exp_minus_1)
  show ?thesis unfolding m by (rule bit_word_eqI) (auto simp: bit_simps)
qed

lemma md_Encode_reverse: "md_Encode [shs_reverse x] = rev (md_Encode [x])"
  by (simp add: ucast_and_ff shs_reverse_byte)

lemma shs_reverse_reverse: "shs_reverse (shs_reverse x) = x"
proof -
  have "md_Encode [shs_reverse (shs_reverse x)] = md_Encode [x]" by (simp only: md_Encode_reverse rev_rev_ident)
  then show ?thesis using md_Decode_Encode [of "[x]"] md_Decode_Encode [of "[shs_reverse (shs_reverse x)]"] by simp
qed

lemma shs_Encode_rev: "shs_Encode ws = concat (map (\<lambda>w. rev (md_Encode [w])) ws)"
  by (induction ws) simp_all

lemma reverse_count: "map shs_reverse (md_Decode (be_bytes 8 (unat lo + NN_B * unat hi))) = [hi, lo]"
proof -
  have "be_bytes 8 (unat lo + NN_B * unat hi) = rev (md_Encode [lo, hi])" by (simp only: be_bytes_def md_Encode_le)
  also have "\<dots> = rev (md_Encode [hi]) @ rev (md_Encode [lo])" using md_Encode_append [of "[lo]" "[hi]"] by simp
  also have "\<dots> = md_Encode [shs_reverse hi, shs_reverse lo]"
    using md_Encode_append [of "[shs_reverse hi]" "[shs_reverse lo]"] by (simp only: md_Encode_reverse) simp
  finally have "md_Decode (be_bytes 8 (unat lo + NN_B * unat hi)) = [shs_reverse hi, shs_reverse lo]"
    by (simp only: md_Decode_Encode)
  then show ?thesis by (simp add: shs_reverse_reverse)
qed

section \<open>An instance of the interface\<close>

text \<open>What a block of bytes does to the digest words.\<close>

definition shs_absorb :: "u32 list \<Rightarrow> byte list \<Rightarrow> u32 list" where
  "shs_absorb digest block = SHSTransform digest (map shs_reverse (md_Decode block))"

abbreviation shs_start :: "u32 list" where
  "shs_start \<equiv> [0x67452301, 0xEFCDAB89, 0x98BADCFE, 0x10325476, 0xC3D2E1F0]"

definition shs_bits :: "shs_ctx \<Rightarrow> nat" where
  "shs_bits c = unat (shs_countLo c) + NN_B * unat (shs_countHi c)"

definition shs_rep :: "shs_ctx \<Rightarrow> byte list \<Rightarrow> bool" where
  "shs_rep c m \<longleftrightarrow> shs_bits c = 8 * length m mod 2 ^ 64 \<and> length (shs_data c) = 16
     \<and> blk_rep 64 shs_absorb shs_start m (shs_digest c) (md_Encode (shs_data c))"

definition shs_pad :: "byte list \<Rightarrow> byte list" where
  "shs_pad m = (let index = length m mod 64
                in m @ [0x80] @ replicate (if index < 56 then 55 - index else 119 - index) 0
                     @ be_bytes 8 (8 * length m))"

definition shs_hash :: "byte list \<Rightarrow> byte list" where
  "shs_hash m = shs_Encode (fst (blk_loop 64 shs_absorb shs_start (shs_pad m)))"

lemma byteReverse_16: "length data = 16 \<Longrightarrow> byteReverse data SHS_BLOCKSIZE = map shs_reverse data"
  by (simp add: byteReverse_def SHS_BLOCKSIZE_def)

lemma shs_put_block:
  assumes "length data = 16" "off + length bs = 64"
  shows "shs_put data off bs = md_Decode (take off (md_Encode data) @ bs)"
  using assms by (simp add: shs_put_def R_memcpy_eq)

lemma shs_blocks_val:
  "length data = 16 \<Longrightarrow> \<exists>digest' data' rest. shs_blocks digest data bs = (digest', data', rest)
     \<and> length data' = 16 \<and> blk_loop 64 shs_absorb digest bs = (digest', rest)"
proof (induction "length bs" arbitrary: digest data bs rule: less_induct)
  case less
  show ?case
  proof (cases "length bs < 64")
    case True
    then show ?thesis using less.prems
      by (subst shs_blocks.simps) (simp add: SHS_BLOCKSIZE_def md_blk.blk_loop_short)
  next
    case False
    let ?d = "map shs_reverse (md_Decode (take 64 bs))"
    have d: "byteReverse (shs_put data 0 (take 64 bs)) SHS_BLOCKSIZE = ?d" "length ?d = 16"
      using False less.prems by (simp_all add: shs_put_block byteReverse_16 length_md_Decode)
    have "shs_blocks digest data bs = shs_blocks (shs_absorb digest (take 64 bs)) ?d (drop 64 bs)"
      using False d by (subst shs_blocks.simps) (simp add: SHS_BLOCKSIZE_def shs_absorb_def Let_def)
    moreover have "blk_loop 64 shs_absorb digest bs = blk_loop 64 shs_absorb (shs_absorb digest (take 64 bs)) (drop 64 bs)"
      using False by (subst blk_loop.simps) simp
    ultimately show ?thesis using less.hyps [OF _ d(2)] False by simp
  qed
qed

lemma shs_bits_add:
  "n < NN_B \<Longrightarrow> shs_bits (shs_count_add (of_nat n) c) = (shs_bits c + 8 * n) mod 2 ^ 64"
proof -
  let ?p = "push_bit 3 (of_nat n) :: u32" and ?c = "shs_countLo c"
  have "?c + ?p < ?c \<longleftrightarrow> ?c + ?p < ?p"
    using unat_u32_less [of ?c] unat_u32_less [of ?p]
    by (auto simp: word_less_nat_alt unat_u32_add simp del: unat_u32_less)
  then show "n < NN_B \<Longrightarrow> ?thesis" using count_carry [of n _ _ ?c "shs_countHi c"]
    by (simp add: shs_bits_def shs_count_add_def Let_def)
qed

lemma shs_index: "shs_rep c m \<Longrightarrow> unat (drop_bit 3 (shs_countLo c) AND 0x3F) = length m mod 64"
proof -
  assume r: "shs_rep c m"
  let ?c = "\<lparr>md_state = [], md_count0 = shs_countLo c, md_count1 = shs_countHi c, md_buffer = []\<rparr>"
  have "md_index ?c = md_bits ?c div 8 mod 64" by (rule md_index_bits)
  then show ?thesis using r bits_index [of "length m"]
    by (simp add: md_index_def md_bits_def shs_rep_def shs_bits_def)
qed

text \<open>
  The two branches of the update are the buffering of the other digests: an index of zero leaves
  room for a whole block.
\<close>

lemma shs_rep_update:
  assumes r: "shs_rep c m" and n: "length xs < 2 ^ 32"
  shows "shs_rep (SHSUpdate c xs) (m @ xs)"
proof -
  let ?i = "length m mod 64" and ?c = "shs_count_add (of_nat (length xs)) c"
  have i: "unat (drop_bit 3 (shs_countLo c) AND 0x3F) = ?i" by (rule shs_index [OF r])
  have same: "shs_digest ?c = shs_digest c" "shs_data ?c = shs_data c" by (simp_all add: shs_count_add_def Let_def)
  have d: "length (shs_data c) = 16"
    and L: "blk_loop 64 shs_absorb shs_start m = (shs_digest c, take ?i (md_Encode (shs_data c)))"
    using r by (simp_all add: shs_rep_def blk_rep_def)
  have bits: "shs_bits ?c = 8 * length (m @ xs) mod 2 ^ 64"
    using r n shs_bits_add [of "length xs" c] by (simp add: shs_rep_def mod_simps algebra_simps)
  have all: "blk_loop 64 shs_absorb shs_start (m @ xs)
      = blk_loop 64 shs_absorb (shs_digest c) (take ?i (md_Encode (shs_data c)) @ xs)"
    using md_blk.blk_loop_append [of shs_absorb shs_start m xs] by (simp add: L)
  have tail: "shs_rep (shs_tail (shs_blocks dg data ys) ?c) (m @ xs)"
    if as: "blk_loop 64 shs_absorb shs_start (m @ xs) = blk_loop 64 shs_absorb dg ys" "length data = 16" for dg data ys
  proof -
    obtain dg' data' rest where b: "shs_blocks dg data ys = (dg', data', rest)" "length data' = 16"
      "blk_loop 64 shs_absorb dg ys = (dg', rest)" using shs_blocks_val [OF as(2)] by blast
    have lr: "length rest = length (m @ xs) mod 64"
      using md_blk.length_blk_loop [of shs_absorb shs_start "m @ xs"] as(1) b(3) by simp
    then have "length rest \<le> 64" using mod_less_divisor [of 64 "length (m @ xs)"] by simp
    then have "take (length rest) (R_memcpy (md_Encode data') 0 rest) = rest"
      using b(2) by (simp add: R_memcpy_eq)
    then show ?thesis
      using bits b as(1) lr by (simp add: shs_rep_def shs_tail_def shs_bits_def blk_rep_def md_Encode_shs_put)
  qed
  consider (zero) "?i = 0" | (short) "?i \<noteq> 0" "length xs < 64 - ?i" | (fill) "?i \<noteq> 0" "64 - ?i \<le> length xs" by linarith
  then show ?thesis
  proof cases
    case zero
    then have "SHSUpdate c xs = shs_tail (shs_blocks (shs_digest c) (shs_data c) xs) ?c"
      by (simp add: SHSUpdate_def Let_def i same)
    then show ?thesis using tail [of "shs_digest c" xs "shs_data c"] all zero d by simp
  next
    case short
    have e: "SHSUpdate c xs = ?c\<lparr>shs_data := shs_put (shs_data c) ?i xs\<rparr>"
      using short by (simp add: SHSUpdate_def Let_def i same SHS_BLOCKSIZE_def)
    have l: "(length m + length xs) mod 64 = ?i + length xs"
      using short by (metis add.commute less_diff_conv mod_add_left_eq mod_less)
    have "blk_loop 64 shs_absorb shs_start (m @ xs) = (shs_digest c, take ?i (md_Encode (shs_data c)) @ xs)"
      unfolding all by (rule md_blk.blk_loop_short) (use short d in simp)
    then show ?thesis unfolding e
      using bits d short l same by (simp add: shs_rep_def shs_bits_def blk_rep_def md_Encode_shs_put R_memcpy_eq)
  next
    case fill
    let ?b = "take ?i (md_Encode (shs_data c)) @ take (64 - ?i) xs"
    have lb: "length ?b = 64" using fill d by simp
    have rv: "byteReverse (shs_put (shs_data c) ?i (take (64 - ?i) xs)) SHS_BLOCKSIZE = map shs_reverse (md_Decode ?b)"
      using fill d by (simp add: shs_put_block byteReverse_16 length_md_Decode)
    have e: "SHSUpdate c xs = shs_tail (shs_blocks (shs_absorb (shs_digest c) ?b)
        (map shs_reverse (md_Decode ?b)) (drop (64 - ?i) xs)) ?c"
      using fill rv by (simp add: SHSUpdate_def Let_def i same SHS_BLOCKSIZE_def shs_absorb_def)
    have "take ?i (md_Encode (shs_data c)) @ xs = ?b @ drop (64 - ?i) xs" by simp
    then show ?thesis unfolding e
      using tail [of "shs_absorb (shs_digest c) ?b" "drop (64 - ?i) xs" "map shs_reverse (md_Decode ?b)"]
        all md_blk.blk_loop_block [OF lb, of shs_absorb "shs_digest c" "drop (64 - ?i) xs"] lb
      by (simp add: length_md_Decode)
  qed
qed

text \<open>The two count words written after the block was turned round are its last eight bytes.\<close>

lemma shs_last_block:
  assumes "length X = 56" "length Y = 8"
  shows "SHSTransform dg ((map shs_reverse (md_Decode (X @ Y)))[14 := hi, 15 := lo])
     = shs_absorb dg (X @ be_bytes 8 (unat lo + NN_B * unat hi))"
proof -
  have X: "length (md_Decode X) = 14" using assms(1) by (simp add: length_md_Decode)
  obtain y1 y2 where y: "md_Decode Y = [y1, y2]"
    using length_md_Decode [of Y 2] assms(2) length_2D by (metis mult_numeral_left_semiring_numeral num_double numeral_times_numeral)
  have sp: "md_Decode (X @ Z) = md_Decode X @ md_Decode Z" for Z
    using assms(1) by (intro md_Decode_append [of _ 14]) simp
  have "(map shs_reverse (md_Decode (X @ Y)))[14 := hi, 15 := lo] = map shs_reverse (md_Decode X) @ [hi, lo]"
    using X by (simp add: sp y list_update_append)
  also have "\<dots> = map shs_reverse (md_Decode (X @ be_bytes 8 (unat lo + NN_B * unat hi)))"
    by (simp add: sp reverse_count)
  finally show ?thesis by (simp add: shs_absorb_def)
qed

lemma shs_rep_final:
  assumes r: "shs_rep c m"
  shows "SHSFinal c = shs_hash m"
proof -
  let ?i = "length m mod 64" and ?lo = "shs_countLo c" and ?hi = "shs_countHi c" and ?dg = "shs_digest c"
  let ?bits = "be_bytes 8 (unat ?lo + NN_B * unat ?hi)"
  have i: "unat (drop_bit 3 ?lo AND 0x3F) = ?i" "?i < 64" by (rule shs_index [OF r]) simp
  have d: "length (shs_data c) = 16"
    and L: "blk_loop 64 shs_absorb shs_start m = (?dg, take ?i (md_Encode (shs_data c)))"
    using r by (simp_all add: shs_rep_def blk_rep_def)
  define u where "u = take ?i (md_Encode (shs_data c))"
  define w where "w = drop (?i + 1) (md_Encode (shs_data c))"
  have lu: "length u = ?i" and lw: "length w = 63 - ?i" using d i(2) by (simp_all add: u_def w_def)
  have bits: "be_bytes 8 (8 * length m) = ?bits"
    using r le_bytes_mod [of 8 "8 * length m"] by (simp add: shs_rep_def shs_bits_def be_bytes_def)
  have p0: "shs_put (shs_data c) ?i [0x80] = md_Decode (u @ [0x80] @ w)"
    using d i(2) R_memcpy_eq [of ?i "[0x80]" "md_Encode (shs_data c)"]
    by (simp add: shs_put_def u_def w_def del: R_memcpy.simps)
  have put: "shs_put (md_Decode (A @ B)) (length A) C = md_Decode (A @ C @ drop (length C) B)"
    if "length (A @ B) = 64" "length C \<le> length B" for A B C :: "byte list"
    using that md_Encode_Decode [of "A @ B" 16] by (simp add: shs_put_def R_memcpy_eq)
  have all: "blk_loop 64 shs_absorb shs_start (m @ zs) = blk_loop 64 shs_absorb ?dg (u @ zs)" for zs
    using md_blk.blk_loop_append [of shs_absorb shs_start m zs] by (simp add: L u_def)
  have one: "blk_loop 64 shs_absorb dg b = (shs_absorb dg b, [])" if "length b = 64" for dg b
    using md_blk.blk_loop_block [OF that, of shs_absorb dg "[]"] by (simp add: md_blk.blk_loop_short)
  show ?thesis
  proof (cases "?i < 56")
    case True
    let ?X = "u @ [0x80] @ replicate (55 - ?i) 0"
    have X: "length ?X = 56" using True lu by simp
    have p1: "shs_put (md_Decode (u @ [0x80] @ w)) (?i + 1) (replicate (55 - ?i) 0) = md_Decode (?X @ drop (55 - ?i) w)"
      using put [of "u @ [0x80]" w "replicate (55 - ?i) 0"] lu lw True by simp
    have "SHSFinal c = shs_Encode (SHSTransform ?dg ((map shs_reverse (md_Decode (?X @ drop (55 - ?i) w)))[14 := ?hi, 15 := ?lo]))"
      using True p1 X lw by (simp add: SHSFinal_def Let_def i p0 byteReverse_16 length_md_Decode)
    also have "\<dots> = shs_Encode (shs_absorb ?dg (?X @ ?bits))"
      using X lw True by (subst shs_last_block) simp_all
    also have "shs_absorb ?dg (?X @ ?bits) = fst (blk_loop 64 shs_absorb shs_start (shs_pad m))"
      using True X all [of "[0x80] @ replicate (55 - ?i) 0 @ ?bits"] one [of "?X @ ?bits"]
      by (simp add: shs_pad_def bits Let_def)
    finally show ?thesis by (simp add: shs_hash_def)
  next
    case False
    let ?X = "u @ [0x80] @ replicate (63 - ?i) 0" and ?Z = "replicate 56 (0 :: byte)"
    have X: "length ?X = 64" using False lu i(2) by simp
    have p1: "shs_put (md_Decode (u @ [0x80] @ w)) (?i + 1) (replicate (63 - ?i) 0) = md_Decode ?X"
      using put [of "u @ [0x80]" w "replicate (63 - ?i) 0"] lu lw i(2) by simp
    define Y where "Y = drop 56 (md_Encode (map shs_reverse (md_Decode ?X)))"
    have Y: "length Y = 8" using X by (simp add: Y_def length_md_Decode)
    have p2: "shs_put (map shs_reverse (md_Decode ?X)) 0 ?Z = md_Decode (?Z @ Y)"
      using X by (simp add: shs_put_def R_memcpy_eq length_md_Decode Y_def)
    have "SHSFinal c = shs_Encode (SHSTransform (shs_absorb ?dg ?X) ((map shs_reverse (md_Decode (?Z @ Y)))[14 := ?hi, 15 := ?lo]))"
      using False p1 p2 X Y by (simp add: SHSFinal_def Let_def i p0 byteReverse_16 length_md_Decode shs_absorb_def)
    also have "\<dots> = shs_Encode (shs_absorb (shs_absorb ?dg ?X) (?Z @ ?bits))"
      using Y by (subst shs_last_block) simp_all
    also have "shs_absorb (shs_absorb ?dg ?X) (?Z @ ?bits) = fst (blk_loop 64 shs_absorb shs_start (shs_pad m))"
    proof -
      have "replicate (119 - ?i) 0 = replicate (63 - ?i) 0 @ ?Z" using i(2) by (simp flip: replicate_add)
      then have "u @ [0x80] @ replicate (119 - ?i) 0 @ ?bits = ?X @ ?Z @ ?bits" by simp
      then show ?thesis
        using False all [of "[0x80] @ replicate (119 - ?i) 0 @ ?bits"] one [of "?Z @ ?bits"]
          md_blk.blk_loop_block [OF X, of shs_absorb ?dg "?Z @ ?bits"]
        by (simp add: shs_pad_def bits Let_def)
    qed
    finally show ?thesis by (simp add: shs_hash_def)
  qed
qed

lemma length_shs_Encode [simp]: "length (shs_Encode ws) = 4 * length ws"
  by (induction ws rule: shs_Encode.induct) simp_all

lemma length_shs_hash: "length (shs_hash m) = 20"
  using blk_loop_invariant [of "\<lambda>st. length st = 5" shs_start 64 shs_absorb]
  by (simp add: shs_hash_def shs_absorb_def SHSTransform_def Let_def split: prod.split)

definition shs_valid :: "shs_ctx \<Rightarrow> bool" where "shs_valid c \<longleftrightarrow> length (shs_data c) = 16"

interpretation shs: message_digest shs_valid SHSInit SHSUpdate SHSFinal shs_rep shs_hash
proof
  show "shs_rep (SHSInit c) []" if "shs_valid c" for c
    using that by (simp add: shs_rep_def shs_valid_def SHSInit_def shs_bits_def blk_rep_def md_blk.blk_loop_short)
  show "shs_rep (SHSUpdate c xs) (m @ xs)" if "shs_rep c m" "length xs < 2 ^ 31" for c m xs
    using shs_rep_update [OF that(1), of xs] that(2) by simp
  show "SHSFinal c = shs_hash m" if "shs_rep c m" for c m
    using that by (rule shs_rep_final)
qed

text \<open>
  The Secure Hash of a message passed in any pieces is the hash of the message: the blocks of the
  message and its padding (a one bit, zeros and the bit count, big-endian) absorbed in turn. The
  word buffer that is filled as bytes and turned round in place, and the count words written behind the
  turned words, are invisible in the result.
\<close>

theorem SHS_pieces:
  assumes "length (shs_data c) = 16" "\<forall>xs \<in> set chunks. length xs < 2 ^ 31"
  shows "SHSFinal (fold (\<lambda>xs c. SHSUpdate c xs) chunks (SHSInit c)) = shs_hash (concat chunks)"
  using shs.digest_of_chunks [of c chunks] assms by (simp add: shs_valid_def)

theorem SHS_pieces_witness:
  "SHSFinal (fold (\<lambda>xs c. SHSUpdate c xs) [[97], [98, 99]]
      (SHSInit \<lparr>shs_digest = [], shs_countLo = 5, shs_countHi = 7, shs_data = replicate 16 1\<rparr>)) = shs_hash [97, 98, 99]"
  using SHS_pieces [of "\<lparr>shs_digest = [], shs_countLo = 5, shs_countHi = 7, shs_data = replicate 16 1\<rparr>" "[[97], [98, 99]]"]
  by simp

end
