(* ===== verification/R_Encode.thy ===== *)
theory R_Encode
  imports QS_Prelude
begin

text \<open>
  \<^verbatim>\<open>QBase/RSAEuro/r_encode.c\<close>: the printable encoding of keys and signatures, three bytes in four
  characters. The encoder reads three bytes whatever the number left, so that the last characters may
  carry bits of what lies behind the block in memory; those bytes are an argument of the model.
\<close>

section \<open>Tables\<close>

definition RE_ENCODING :: int where "RE_ENCODING = 0x0403"
definition PEM_PAD :: byte where "PEM_PAD = 61"

text \<open>The letters, the digits, plus and slash; and the table back, \<open>128\<close> where there is no value.\<close>

definition bintoasc :: "byte list" where
  "bintoasc =
     [65, 66, 67, 68, 69, 70, 71, 72, 73, 74, 75, 76, 77, 78, 79, 80,
      81, 82, 83, 84, 85, 86, 87, 88, 89, 90, 97, 98, 99, 100, 101, 102,
      103, 104, 105, 106, 107, 108, 109, 110, 111, 112, 113, 114, 115, 116, 117, 118,
      119, 120, 121, 122, 48, 49, 50, 51, 52, 53, 54, 55, 56, 57, 43, 47]"

definition asctobin :: "byte list" where
  "asctobin =
     [128, 128, 128, 128, 128, 128, 128, 128, 128, 128, 128, 128, 128, 128, 128, 128,
      128, 128, 128, 128, 128, 128, 128, 128, 128, 128, 128, 128, 128, 128, 128, 128,
      128, 128, 128, 128, 128, 128, 128, 128, 128, 128, 128, 62, 128, 128, 128, 63,
      52, 53, 54, 55, 56, 57, 58, 59, 60, 61, 128, 128, 128, 128, 128, 128,
      128, 0, 1, 2, 3, 4, 5, 6, 7, 8, 9, 10, 11, 12, 13, 14,
      15, 16, 17, 18, 19, 20, 21, 22, 23, 24, 25, 128, 128, 128, 128, 128,
      128, 26, 27, 28, 29, 30, 31, 32, 33, 34, 35, 36, 37, 38, 39, 40,
      41, 42, 43, 44, 45, 46, 47, 48, 49, 50, 51, 128, 128, 128, 128, 128]"

definition ENC :: "byte \<Rightarrow> byte" where
  "ENC c = bintoasc ! unat (c AND 63)"

section \<open>Encoding\<close>

definition pem_encode :: "byte \<Rightarrow> byte \<Rightarrow> byte \<Rightarrow> nat \<Rightarrow> byte list" where
  "pem_encode p0 p1 p2 count =
     (let c1 = drop_bit 2 p0;
          c2 = (push_bit 4 p0 AND 48) OR (drop_bit 4 p1 AND 15);
          c3 = (push_bit 2 p1 AND 60) OR (drop_bit 6 p2 AND 3);
          c4 = p2 AND 63
      in [ENC c1, ENC c2]
         @ (if count = 1 then [PEM_PAD, PEM_PAD]
            else [ENC c3, if count = 2 then PEM_PAD else ENC c4]))"

text \<open>
  The loop; \<open>mem\<close> is the memory from \<^verbatim>\<open>block[i]\<close> on, the bytes behind the block included.
\<close>

fun pem_encode_loop :: "nat \<Rightarrow> byte list \<Rightarrow> byte list" where
  "pem_encode_loop 0 mem = []"
| "pem_encode_loop (Suc n) mem =
     pem_encode (mem ! 0) (mem ! 1) (mem ! 2) (if Suc n \<ge> 3 then 3 else Suc n)
       @ pem_encode_loop (Suc n - 3) (drop 3 mem)"

definition R_EncodePEMBlock :: "byte list \<Rightarrow> byte list \<Rightarrow> byte list" where
  "R_EncodePEMBlock block behind =
     (if length block < 1 then [] else pem_encode_loop (length block) (block @ behind))"

section \<open>Decoding\<close>

text \<open>The test of one character, and its value.\<close>

definition asc_bad :: "byte \<Rightarrow> bool" where
  "asc_bad b \<longleftrightarrow> b AND 0x80 \<noteq> 0 \<or> (asctobin ! unat b) AND 0x80 \<noteq> 0"

text \<open>
  One turn of the loop on four characters: the error, or the three bytes written and what is added to
  the length. A store cuts the sums to a byte.
\<close>

definition pem_decode_group :: "byte \<Rightarrow> byte \<Rightarrow> byte \<Rightarrow> byte \<Rightarrow> int + byte list \<times> nat" where
  "pem_decode_group b1 b2 b3 b4 =
     (let out = (\<lambda>c3 c4 n. let c1 = asctobin ! unat b1; c2 = asctobin ! unat b2
           in Inr ([push_bit 2 c1 OR drop_bit 4 c2, push_bit 4 c2 OR drop_bit 2 c3, push_bit 6 c3 OR c4], n))
      in if asc_bad b1 then Inl RE_ENCODING
         else if asc_bad b2 then Inl RE_ENCODING
         else if b3 = PEM_PAD then if b4 \<noteq> PEM_PAD then Inl RE_ENCODING else out 0 0 1
         else if asc_bad b3 then Inl RE_ENCODING
         else if b4 = PEM_PAD then out (asctobin ! unat b3) 0 2
         else if asc_bad b4 then Inl RE_ENCODING
         else out (asctobin ! unat b3) (asctobin ! unat b4) 3)"

fun pem_decode_loop :: "byte list \<Rightarrow> byte list \<Rightarrow> nat \<Rightarrow> int + byte list \<times> nat" where
  "pem_decode_loop (b1 # b2 # b3 # b4 # inbuf) outbuf len =
     (case pem_decode_group b1 b2 b3 b4 of
        Inl e \<Rightarrow> Inl e
      | Inr (bs, n) \<Rightarrow> pem_decode_loop inbuf (outbuf @ bs) (len + n))"
| "pem_decode_loop _ outbuf len = Inr (outbuf, len)"

text \<open>The result is the error, or the first \<^verbatim>\<open>*outlength\<close> of the bytes written.\<close>

definition R_DecodePEMBlock :: "byte list \<Rightarrow> int + byte list" where
  "R_DecodePEMBlock inbuf =
     (if length inbuf mod 4 \<noteq> 0 then Inl RE_ENCODING
      else if length inbuf < 1 then Inr []
      else case pem_decode_loop inbuf [] 0 of
             Inl e \<Rightarrow> Inl e
           | Inr (outbuf, len) \<Rightarrow> Inr (take len outbuf))"

section \<open>Round trip\<close>

lemma tables:
  assumes "n < 64"
  shows "asctobin ! unat (bintoasc ! n) = of_nat n" "\<not> asc_bad (bintoasc ! n)" "bintoasc ! n \<noteq> PEM_PAD"
proof -
  have t: "list_all (\<lambda>n. asctobin ! unat (bintoasc ! n) = of_nat n \<and> \<not> asc_bad (bintoasc ! n) \<and> bintoasc ! n \<noteq> PEM_PAD) [0..<64]"
    by code_simp
  then show "asctobin ! unat (bintoasc ! n) = of_nat n" "\<not> asc_bad (bintoasc ! n)" "bintoasc ! n \<noteq> PEM_PAD"
    using assms by (auto simp: list_all_iff)
qed

lemma and63: "c AND 63 = take_bit 6 c" for c :: byte
  by (simp add: take_bit_eq_mask mask_eq_exp_minus_1)

lemma ENC_props: "asctobin ! unat (ENC c) = c AND 63" "\<not> asc_bad (ENC c)" "ENC c \<noteq> PEM_PAD"
proof -
  have "unat (c AND 63) = unat c mod 64" unfolding and63 unsigned_take_bit_eq by (simp add: take_bit_eq_mod)
  then have u: "unat (c AND 63) < 64" by simp
  show "asctobin ! unat (ENC c) = c AND 63" using tables(1) [OF u] by (simp add: ENC_def)
  show "\<not> asc_bad (ENC c)" "ENC c \<noteq> PEM_PAD" using tables(2,3) [OF u] by (simp_all add: ENC_def)
qed

lemma ENC_eq_iff: "ENC c = ENC c' \<longleftrightarrow> c AND 63 = c' AND 63"
  by (metis ENC_def ENC_props(1))

lemma pem_bits:
  fixes p0 p1 p2 :: byte
  shows "push_bit 2 (drop_bit 2 p0 AND 63) OR drop_bit 4 (((push_bit 4 p0 AND 48) OR (drop_bit 4 p1 AND 15)) AND 63) = p0"
    "push_bit 4 (((push_bit 4 p0 AND 48) OR (drop_bit 4 p1 AND 15)) AND 63)
       OR drop_bit 2 (((push_bit 2 p1 AND 60) OR (drop_bit 6 p2 AND 3)) AND 63) = p1"
    "push_bit 6 (((push_bit 2 p1 AND 60) OR (drop_bit 6 p2 AND 3)) AND 63) OR (p2 AND 63 AND 63) = p2"
proof -
  have n8: "n = 0 \<or> n = 1 \<or> n = 2 \<or> n = 3 \<or> n = 4 \<or> n = 5 \<or> n = 6 \<or> n = 7" if "n < 8" for n :: nat
    using that by linarith
  show "push_bit 2 (drop_bit 2 p0 AND 63) OR drop_bit 4 (((push_bit 4 p0 AND 48) OR (drop_bit 4 p1 AND 15)) AND 63) = p0"
    by (rule bit_word_eqI)
      ((auto simp: bit_simps dest!: n8 dest: bit_imp_le_length); (simp add: numeral_2_eq_2 numeral_3_eq_3))
  show "push_bit 4 (((push_bit 4 p0 AND 48) OR (drop_bit 4 p1 AND 15)) AND 63)
       OR drop_bit 2 (((push_bit 2 p1 AND 60) OR (drop_bit 6 p2 AND 3)) AND 63) = p1"
    by (rule bit_word_eqI)
      ((auto simp: bit_simps dest!: n8 dest: bit_imp_le_length); (simp add: numeral_2_eq_2 numeral_3_eq_3))
  show "push_bit 6 (((push_bit 2 p1 AND 60) OR (drop_bit 6 p2 AND 3)) AND 63) OR (p2 AND 63 AND 63) = p2"
    by (rule bit_word_eqI)
      ((auto simp: bit_simps dest!: n8 dest: bit_imp_le_length); (simp add: numeral_2_eq_2 numeral_3_eq_3))
qed

text \<open>The first \<open>count\<close> of the three bytes come back, whatever the others are.\<close>

lemma pem_group:
  assumes "count \<in> {1, 2, 3}"
  shows "\<exists>b1 b2 b3 b4 bs. pem_encode p0 p1 p2 count = [b1, b2, b3, b4] \<and> pem_decode_group b1 b2 b3 b4 = Inr (bs, count)
     \<and> length bs = 3 \<and> take count bs = take count [p0, p1, p2]"
  using assms pem_bits(1) [of p0 p1] pem_bits(2) [of p0 p1 p2] pem_bits(3) [of p1 p2]
  by (auto simp: pem_encode_def pem_decode_group_def Let_def ENC_props)

lemma pem_loop:
  assumes "n + 2 \<le> length mem"
  shows "\<exists>w. pem_decode_loop (pem_encode_loop n mem) acc len = Inr (acc @ w, len + n) \<and> take n w = take n mem
     \<and> length (pem_encode_loop n mem) mod 4 = 0"
  using assms
proof (induction n arbitrary: mem acc len rule: less_induct)
  case (less n)
  show ?case
  proof (cases n)
    case 0
    then show ?thesis by simp
  next
    case (Suc k)
    let ?c = "if n \<ge> 3 then 3 else n"
    have c: "?c \<in> {1, 2, 3}" using Suc by auto
    obtain b1 b2 b3 b4 bs where g: "pem_encode (mem ! 0) (mem ! 1) (mem ! 2) ?c = [b1, b2, b3, b4]"
      "pem_decode_group b1 b2 b3 b4 = Inr (bs, ?c)" "length bs = 3" "take ?c bs = take ?c [mem ! 0, mem ! 1, mem ! 2]"
      using pem_group [OF c] by blast
    have m3: "take 3 mem = [mem ! 0, mem ! 1, mem ! 2]"
    proof -
      have "3 \<le> length mem" using less.prems Suc by simp
      then obtain a b c r where "mem = a # b # c # r" by (auto simp: numeral_3_eq_3 Suc_le_length_iff)
      then show ?thesis by simp
    qed
    have e: "pem_encode_loop n mem = [b1, b2, b3, b4] @ pem_encode_loop (n - 3) (drop 3 mem)"
      using g(1) unfolding Suc by (simp split del: if_split)
    obtain w where w: "pem_decode_loop (pem_encode_loop (n - 3) (drop 3 mem)) (acc @ bs) (len + ?c) = Inr ((acc @ bs) @ w, len + ?c + (n - 3))"
      "take (n - 3) w = take (n - 3) (drop 3 mem)" "length (pem_encode_loop (n - 3) (drop 3 mem)) mod 4 = 0"
    proof (cases "n \<ge> 3")
      case True
      have "n - 3 < n" "n - 3 + 2 \<le> length (drop 3 mem)" using True less.prems Suc by simp_all
      from less.IH [OF this, of "acc @ bs" "len + ?c"] show ?thesis
        by (elim exE conjE) (rule that)
    next
      case False
      then show ?thesis using that [of "[]"] by simp
    qed
    have "?c + (n - 3) = n" by simp
    moreover have "take n (bs @ w) = take n mem"
    proof (cases "n \<ge> 3")
      case True
      then have "bs = take 3 mem" using g(3,4) m3 by simp
      then have "take n (bs @ w) = take 3 mem @ take (n - 3) (drop 3 mem)" using w(2) g(3) True by (simp only: take_append) simp
      also have "\<dots> = take n mem" using True by (metis le_add_diff_inverse take_add)
      finally show ?thesis .
    next
      case False
      then have "take n bs = take n (take 3 mem)" using g(4) unfolding m3 by simp
      then show ?thesis using False g(3) by simp
    qed
    moreover have "length (pem_encode_loop n mem) mod 4 = 0" using e w(3) by simp
    ultimately show ?thesis unfolding e using w(1) g(2) by (auto simp: add.assoc)
  qed
qed

section \<open>The properties\<close>

lemma PEM_decode_encode:
  assumes "2 \<le> length behind"
  shows "R_DecodePEMBlock (R_EncodePEMBlock block behind) = Inr block"
proof (cases "block = []")
  case True
  then show ?thesis by (simp add: R_EncodePEMBlock_def R_DecodePEMBlock_def)
next
  case False
  let ?enc = "pem_encode_loop (length block) (block @ behind)"
  obtain w where w: "pem_decode_loop ?enc [] 0 = Inr (w, length block)" "take (length block) w = block" "length ?enc mod 4 = 0"
    using pem_loop [of "length block" "block @ behind" "[]" 0] assms by auto
  have ne: "?enc \<noteq> []" using False by (cases "length block") (simp_all add: pem_encode_def Let_def)
  show ?thesis using w ne False by (simp add: R_EncodePEMBlock_def R_DecodePEMBlock_def Suc_le_eq)
qed

lemma length_pem_encode_loop: "length (pem_encode_loop n mem) = 4 * ((n + 2) div 3)"
proof (induction n mem rule: pem_encode_loop.induct)
  case (2 n mem)
  have "(Suc n - 3 + 2) div 3 = n div 3" by (cases "2 \<le> n") (simp_all add: not_le)
  moreover have "(Suc n + 2) div 3 = 1 + n div 3" by simp
  moreover have "length (pem_encode p q r k) = 4" for p q r k by (simp add: pem_encode_def Let_def)
  ultimately show ?case using 2 by simp
qed simp

lemma length_R_EncodePEMBlock: "length (R_EncodePEMBlock block behind) = 4 * ((length block + 2) div 3)"
  by (simp add: R_EncodePEMBlock_def length_pem_encode_loop)

text \<open>
  What \<^verbatim>\<open>R_EncodePEMBlock\<close> writes, \<^verbatim>\<open>R_DecodePEMBlock\<close> reads back as the same block, for every
  block and whatever the two bytes behind it are.
\<close>

theorem PEM_roundtrip:
  assumes "2 \<le> length behind"
  shows "R_DecodePEMBlock (R_EncodePEMBlock block behind) = Inr block"
  using assms by (rule PEM_decode_encode)

theorem PEM_roundtrip_witness:
  "R_DecodePEMBlock (R_EncodePEMBlock [1, 2, 3, 250] [99, 98]) = Inr [1, 2, 3, 250]"
  by (rule PEM_roundtrip) simp

text \<open>
  The text of a block whose length is not a multiple of three depends on the byte behind it: the
  encoder reads past the end of the block and four bits of what it finds there are written out.
\<close>

theorem PEM_reads_behind:
  "R_EncodePEMBlock [x] [b, c] = R_EncodePEMBlock [x] [b', c'] \<longleftrightarrow> drop_bit 4 b = drop_bit 4 b'"
proof -
  let ?e = "\<lambda>b. (push_bit 4 x AND 48) OR (drop_bit 4 b AND 15)"
  have n8: "n = 0 \<or> n = 1 \<or> n = 2 \<or> n = 3 \<or> n = 4 \<or> n = 5 \<or> n = 6 \<or> n = 7" if "n < 8" for n :: nat
    using that by linarith
  have low: "(?e b AND 63) AND 15 = drop_bit 4 b" for b
    by (rule bit_word_eqI) (auto simp: bit_simps dest!: n8 dest: bit_imp_le_length)
  have "R_EncodePEMBlock [x] [b, c] = R_EncodePEMBlock [x] [b', c'] \<longleftrightarrow> ENC (?e b) = ENC (?e b')"
    by (simp add: R_EncodePEMBlock_def pem_encode_def Let_def)
  also have "\<dots> \<longleftrightarrow> ?e b AND 63 = ?e b' AND 63"
    by (rule ENC_eq_iff)
  also have "\<dots> \<longleftrightarrow> drop_bit 4 b = drop_bit 4 b'" 
  proof
    assume "?e b AND 63 = ?e b' AND 63"
    then have "(?e b AND 63) AND 15 = (?e b' AND 63) AND 15" by (simp only:)
    then show "drop_bit 4 b = drop_bit 4 b'" by (simp only: low)
  qed (simp only:)
  finally show ?thesis .
qed

end
