(* ===== verification/R_Sign.thy ===== *)
theory R_Sign
  imports MD2 SHS RSA R_Encode
begin

text \<open>
  \<^verbatim>\<open>QBase/RSAEuro/r_enhanc.c\<close>, first part: digests by the number of their algorithm, signatures, and signatures in
  printable form. The union of the digest contexts is a record with a field for every member: an algorithm
  reads only the member its own initialisation wrote.
\<close>

section \<open>Information on the library\<close>

record rsaeuroinfo =
  info_Version :: u16
  info_flags :: u32
  ManufacturerID :: "byte list"
  info_Algorithms :: u32

text \<open>The numbers of the four digests, the four ciphers, RSA and the key agreement, as bits.\<close>

definition IA_FLAGS :: u32 where
  "IA_FLAGS = 0x1 OR 0x2 OR 0x4 OR 0x8 OR 0x10 OR 0x20 OR 0x40 OR 0x80 OR 0x10000 OR 0x20000"

text \<open>The name of the toolkit with the zero that ends it.\<close>

definition RSAEURO_IDENT :: "byte list" where
  "RSAEURO_IDENT = [82, 83, 65, 69, 85, 82, 79, 32, 84, 111, 111, 108, 107, 105, 116, 0]"

definition R_RSAEuroInfo :: rsaeuroinfo where
  "R_RSAEuroInfo = \<lparr>info_Version = push_bit 8 1 OR 4, info_flags = 0,
     ManufacturerID = R_memcpy (replicate 32 0) 0 RSAEURO_IDENT, info_Algorithms = IA_FLAGS\<rparr>"

section \<open>Digests\<close>

definition DA_MD2 :: int where "DA_MD2 = 2"
definition DA_SHS :: int where "DA_SHS = 3"
definition DA_MD4 :: int where "DA_MD4 = 4"
definition DA_MD5 :: int where "DA_MD5 = 5"

lemmas DA_defs = DA_MD2_def DA_SHS_def DA_MD4_def DA_MD5_def

definition RE_DIGEST_ALGORITHM :: int where "RE_DIGEST_ALGORITHM = 0x0402"
definition RE_CONTENT_ENCODING :: int where "RE_CONTENT_ENCODING = 0x0400"
definition RE_PRIVATE_KEY :: int where "RE_PRIVATE_KEY = 0x0409"
definition RE_PUBLIC_KEY :: int where "RE_PUBLIC_KEY = 0x040a"
definition RE_SIGNATURE :: int where "RE_SIGNATURE = 0x040b"
definition RE_SIGNATURE_ENCODING :: int where "RE_SIGNATURE_ENCODING = 0x040c"

record r_digest_ctx =
  digestAlgorithm :: int
  u_md2 :: md2_ctx
  u_md4 :: md_ctx
  u_md5 :: md_ctx
  u_shs :: shs_ctx

definition R_DigestInit :: "r_digest_ctx \<Rightarrow> int \<Rightarrow> int \<times> r_digest_ctx" where
  "R_DigestInit context digesttype =
     (let context = context\<lparr>digestAlgorithm := digesttype\<rparr>
      in if digesttype = DA_SHS then (ID_OK, context\<lparr>u_shs := SHSInit (u_shs context)\<rparr>)
         else if digesttype = DA_MD2 then (ID_OK, context\<lparr>u_md2 := MD2Init (u_md2 context)\<rparr>)
         else if digesttype = DA_MD4 then (ID_OK, context\<lparr>u_md4 := MD4Init (u_md4 context)\<rparr>)
         else if digesttype = DA_MD5 then (ID_OK, context\<lparr>u_md5 := MD5Init (u_md5 context)\<rparr>)
         else (RE_DIGEST_ALGORITHM, context))"

definition R_DigestUpdate :: "r_digest_ctx \<Rightarrow> byte list \<Rightarrow> int \<times> r_digest_ctx" where
  "R_DigestUpdate context partIn =
     (let digesttype = digestAlgorithm context
      in if digesttype = DA_SHS then (ID_OK, context\<lparr>u_shs := SHSUpdate (u_shs context) partIn\<rparr>)
         else if digesttype = DA_MD2 then (ID_OK, context\<lparr>u_md2 := MD2Update (u_md2 context) partIn\<rparr>)
         else if digesttype = DA_MD4 then (ID_OK, context\<lparr>u_md4 := MD4Update (u_md4 context) partIn\<rparr>)
         else if digesttype = DA_MD5 then (ID_OK, context\<lparr>u_md5 := MD5Update (u_md5 context) partIn\<rparr>)
         else (RE_DIGEST_ALGORITHM, context))"

text \<open>The final routines overwrite their contexts with zeros.\<close>

definition md2_cleared :: md2_ctx where
  "md2_cleared = \<lparr>md2_state = replicate 16 0, md2_checksum = replicate 16 0, md2_count = 0, md2_buffer = replicate 16 0\<rparr>"
definition md_cleared :: md_ctx where
  "md_cleared = \<lparr>md_state = replicate 4 0, md_count0 = 0, md_count1 = 0, md_buffer = replicate 64 0\<rparr>"
definition shs_cleared :: shs_ctx where
  "shs_cleared = \<lparr>shs_digest = replicate 5 0, shs_countLo = 0, shs_countHi = 0, shs_data = replicate 16 0\<rparr>"

definition R_DigestFinal :: "r_digest_ctx \<Rightarrow> int \<times> byte list \<times> r_digest_ctx" where
  "R_DigestFinal context =
     (let digesttype = digestAlgorithm context
      in if digesttype = DA_SHS then (ID_OK, SHSFinal (u_shs context), context\<lparr>u_shs := shs_cleared\<rparr>)
         else if digesttype = DA_MD2 then (ID_OK, MD2Final (u_md2 context), context\<lparr>u_md2 := md2_cleared\<rparr>)
         else if digesttype = DA_MD4 then (ID_OK, MD4Final (u_md4 context), context\<lparr>u_md4 := md_cleared\<rparr>)
         else if digesttype = DA_MD5 then (ID_OK, MD5Final (u_md5 context), context\<lparr>u_md5 := md_cleared\<rparr>)
         else (RE_DIGEST_ALGORITHM, [], context))"

text \<open>The digest of one block; \<open>context\<close> is what the local variable holds before.\<close>

definition R_DigestBlock :: "r_digest_ctx \<Rightarrow> byte list \<Rightarrow> int \<Rightarrow> int + byte list" where
  "R_DigestBlock context block digestAlg =
     (case R_DigestInit context digestAlg of (status, context) \<Rightarrow>
      if status \<noteq> 0 then Inl status
      else case R_DigestUpdate context block of (status, context) \<Rightarrow>
      if status \<noteq> 0 then Inl status
      else case R_DigestFinal context of (status, digest, context) \<Rightarrow>
      if status \<noteq> 0 then Inl status else Inr digest)"

section \<open>Signatures\<close>

type_synonym r_signature_ctx = r_digest_ctx

definition DIGEST_INFO_A :: "byte list" where
  "DIGEST_INFO_A = [0x30, 0x20, 0x30, 0x0c, 0x06, 0x08, 0x2a, 0x86, 0x48, 0x86, 0xf7, 0x0d, 0x02]"
definition DIGEST_INFO_B :: "byte list" where "DIGEST_INFO_B = [0x05, 0x00, 0x04, 0x10]"
definition DIGEST_INFO_LEN :: nat where
  "DIGEST_INFO_LEN = length DIGEST_INFO_A + 1 + length DIGEST_INFO_B + 16"
definition MAX_SIGNATURE_LEN :: nat where "MAX_SIGNATURE_LEN = MAX_RSA_MODULUS_LEN"
definition ENCODED_CONTENT_LEN :: "nat \<Rightarrow> nat" where "ENCODED_CONTENT_LEN len = 4 * len div 3 + 3"
definition MAX_PEM_SIGNATURE_LEN :: nat where "MAX_PEM_SIGNATURE_LEN = ENCODED_CONTENT_LEN MAX_SIGNATURE_LEN"

text \<open>For SHS the buffer is left as it was, uninitialised; no caller gets here with it.\<close>

definition R_EncodeDigestInfo :: "int \<Rightarrow> byte list \<Rightarrow> byte list" where
  "R_EncodeDigestInfo digestAlg digest =
     (if digestAlg \<noteq> DA_SHS
      then DIGEST_INFO_A @ [of_int digestAlg] @ DIGEST_INFO_B @ take 16 digest else [])"

definition R_CheckDigestInfo :: "byte list \<Rightarrow> byte list \<Rightarrow> int" where
  "R_CheckDigestInfo originaldigestInfo digestInfo =
     (if originaldigestInfo ! length DIGEST_INFO_A = digestInfo ! length DIGEST_INFO_A then ID_OK else RE_SIGNATURE)"

definition R_SignInit :: "r_signature_ctx \<Rightarrow> int \<Rightarrow> int \<times> r_signature_ctx" where
  "R_SignInit context digesttype =
     (if digesttype = DA_SHS then (RE_DIGEST_ALGORITHM, context) else R_DigestInit context digesttype)"

definition R_SignUpdate :: "r_signature_ctx \<Rightarrow> byte list \<Rightarrow> int \<times> r_signature_ctx" where
  "R_SignUpdate context partIn =
     (if digestAlgorithm context = DA_SHS then (RE_DIGEST_ALGORITHM, context) else R_DigestUpdate context partIn)"

definition R_SignFinal ::
  "r_signature_ctx \<Rightarrow> r_rsa_private_key \<Rightarrow> ((int + byte list) \<times> r_signature_ctx) option" where
  "R_SignFinal context privateKey =
     (if digestAlgorithm context = DA_SHS then Some (Inl RE_DIGEST_ALGORITHM, context)
      else case R_DigestFinal context of (status, digest, context) \<Rightarrow>
           if status \<noteq> 0 then Some (Inl status, context)
           else do { r \<leftarrow> RSAPrivateEncrypt (R_EncodeDigestInfo (digestAlgorithm context) digest) privateKey;
                     Some (case r of
                             Inl _ \<Rightarrow> (Inl RE_PRIVATE_KEY, context)
                           | Inr signature \<Rightarrow> (Inr signature, snd (R_DigestInit context (digestAlgorithm context)))) })"

definition R_VerifyInit :: "r_signature_ctx \<Rightarrow> int \<Rightarrow> int \<times> r_signature_ctx" where
  "R_VerifyInit context digestAlg =
     (if digestAlg = DA_SHS then (RE_DIGEST_ALGORITHM, context) else R_DigestInit context digestAlg)"

definition R_VerifyUpdate :: "r_signature_ctx \<Rightarrow> byte list \<Rightarrow> int \<times> r_signature_ctx" where
  "R_VerifyUpdate context partIn =
     (if digestAlgorithm context = DA_SHS then (RE_DIGEST_ALGORITHM, context) else R_DigestUpdate context partIn)"

definition R_VerifyFinal ::
  "r_signature_ctx \<Rightarrow> byte list \<Rightarrow> r_rsa_public_key \<Rightarrow> (int \<times> r_signature_ctx) option" where
  "R_VerifyFinal context signature publicKey =
     (let status = (if length signature > MAX_SIGNATURE_LEN then RE_LEN else 0);
          status = (if digestAlgorithm context = DA_SHS then RE_DIGEST_ALGORITHM else status)
      in if status \<noteq> 0 then Some (status, context)
         else case R_DigestFinal context of (status, digest, context) \<Rightarrow>
              if status \<noteq> 0 then Some (status, context)
              else let digestInfo = R_EncodeDigestInfo (digestAlgorithm context) digest
                   in do { r \<leftarrow> RSAPublicDecrypt signature publicKey;
                           Some (case r of
                                   Inl _ \<Rightarrow> (RE_PUBLIC_KEY, context)
                                 | Inr originalDigestInfo \<Rightarrow>
                                     if length originalDigestInfo \<noteq> DIGEST_INFO_LEN
                                        \<or> R_CheckDigestInfo originalDigestInfo digestInfo \<noteq> 0
                                        \<or> R_memcmp originalDigestInfo digestInfo \<noteq> 0
                                     then (RE_SIGNATURE, context)
                                     else (0, snd (R_DigestInit context (digestAlgorithm context)))) })"

definition R_SignBlock ::
  "r_signature_ctx \<Rightarrow> byte list \<Rightarrow> int \<Rightarrow> r_rsa_private_key \<Rightarrow> (int + byte list) option" where
  "R_SignBlock context block digestAlg privateKey =
     (case R_SignInit context digestAlg of (status, context) \<Rightarrow>
      if status \<noteq> 0 then Some (Inl status)
      else case R_SignUpdate context block of (status, context) \<Rightarrow>
      if status \<noteq> 0 then Some (Inl status)
      else map_option fst (R_SignFinal context privateKey))"

definition R_VerifyBlockSignature ::
  "r_signature_ctx \<Rightarrow> byte list \<Rightarrow> byte list \<Rightarrow> int \<Rightarrow> r_rsa_public_key \<Rightarrow> int option" where
  "R_VerifyBlockSignature context block signature digestAlg publicKey =
     (case R_VerifyInit context digestAlg of (status, context) \<Rightarrow>
      if status \<noteq> 0 then Some status
      else case R_VerifyUpdate context block of (status, context) \<Rightarrow>
      if status \<noteq> 0 then Some status
      else map_option fst (R_VerifyFinal context signature publicKey))"

text \<open>
  The printable forms. \<open>behindC\<close> and \<open>behindS\<close> are the bytes in memory behind the content and behind the
  signature, which the encoder reads; the encoded content is made only when \<open>recode\<close> is set.
\<close>

definition R_SignPEMBlock ::
  "r_signature_ctx \<Rightarrow> byte list \<Rightarrow> byte list \<Rightarrow> byte list \<Rightarrow> bool \<Rightarrow> int \<Rightarrow> r_rsa_private_key
     \<Rightarrow> (int + byte list option \<times> byte list) option" where
  "R_SignPEMBlock context content behindC behindS recode digestAlg privateKey =
     do { r \<leftarrow> R_SignBlock context content digestAlg privateKey;
          Some (case r of
                  Inl status \<Rightarrow> Inl status
                | Inr signature \<Rightarrow>
                    Inr (if recode then Some (R_EncodePEMBlock content behindC) else None,
                         R_EncodePEMBlock signature behindS)) }"

definition R_VerifyPEMSignature ::
  "r_signature_ctx \<Rightarrow> byte list \<Rightarrow> byte list \<Rightarrow> bool \<Rightarrow> int \<Rightarrow> r_rsa_public_key \<Rightarrow> (int \<times> byte list) option" where
  "R_VerifyPEMSignature context encodedContent encodedSignature recode digestAlg publicKey =
     (if length encodedSignature > MAX_PEM_SIGNATURE_LEN then Some (RE_SIGNATURE_ENCODING, [])
      else case (if recode then R_DecodePEMBlock encodedContent else Inr encodedContent) of
             Inl _ \<Rightarrow> Some (RE_CONTENT_ENCODING, [])
           | Inr content \<Rightarrow>
              (case R_DecodePEMBlock encodedSignature of
                 Inl _ \<Rightarrow> Some (RE_SIGNATURE_ENCODING, content)
               | Inr signature \<Rightarrow>
                   do { status \<leftarrow> R_VerifyBlockSignature context content signature digestAlg publicKey;
                        Some (status, content) }))"

section \<open>The digests behind their numbers\<close>

definition digest_of :: "int \<Rightarrow> byte list \<Rightarrow> byte list" where
  "digest_of alg m =
     (if alg = DA_SHS then shs_hash m else if alg = DA_MD2 then md2_digest m
      else if alg = DA_MD4 then md_digest MD4Transform m else md_digest MD5Transform m)"

definition digest_valid :: "int \<Rightarrow> r_digest_ctx \<Rightarrow> bool" where
  "digest_valid alg c \<longleftrightarrow> alg \<in> {DA_MD2, DA_SHS, DA_MD4, DA_MD5}
     \<and> md2_valid (u_md2 c) \<and> md_valid (u_md4 c) \<and> md_valid (u_md5 c) \<and> shs_valid (u_shs c)"

definition digest_rep :: "int \<Rightarrow> r_digest_ctx \<Rightarrow> byte list \<Rightarrow> bool" where
  "digest_rep alg c m \<longleftrightarrow> digestAlgorithm c = alg
     \<and> (if alg = DA_SHS then shs_rep (u_shs c) m else if alg = DA_MD2 then md2_rep (u_md2 c) m
        else if alg = DA_MD4 then md_rep MD4Transform (u_md4 c) m
        else alg = DA_MD5 \<and> md_rep MD5Transform (u_md5 c) m)"

interpretation rd: message_digest "digest_valid alg" "\<lambda>c. snd (R_DigestInit c alg)" "\<lambda>c xs. snd (R_DigestUpdate c xs)"
  "\<lambda>c. fst (snd (R_DigestFinal c))" "digest_rep alg" "digest_of alg" for alg
proof
  show "digest_rep alg (snd (R_DigestInit c alg)) []" if "digest_valid alg c" for c
    using that by (auto simp: digest_valid_def digest_rep_def R_DigestInit_def DA_defs Let_def
        md2.rep_init md4.rep_init md5.rep_init shs.rep_init)
  show "digest_rep alg (snd (R_DigestUpdate c xs)) (m @ xs)" if "digest_rep alg c m" "length xs < 2 ^ 31" for c m xs
    using that by (auto simp: digest_rep_def R_DigestUpdate_def DA_defs Let_def split: if_splits
        intro: md2.rep_update md4.rep_update md5.rep_update shs.rep_update)
  show "fst (snd (R_DigestFinal c)) = digest_of alg m" if "digest_rep alg c m" for c m
    using that by (auto simp: digest_rep_def digest_of_def R_DigestFinal_def DA_defs Let_def split: if_splits
        intro: md2.rep_final md4.rep_final md5.rep_final shs.rep_final)
qed

lemma R_Digest_status:
  "digest_valid alg c \<Longrightarrow> fst (R_DigestInit c alg) = 0"
  "digest_rep alg c m \<Longrightarrow> fst (R_DigestUpdate c xs) = 0"
  "digest_rep alg c m \<Longrightarrow> fst (R_DigestFinal c) = 0"
  by (auto simp: digest_valid_def digest_rep_def R_DigestInit_def R_DigestUpdate_def R_DigestFinal_def ID_OK_def DA_defs Let_def
      split: if_splits)

text \<open>After the final routine the context can be initialised again.\<close>

lemma R_DigestFinal_restart:
  assumes "digest_rep alg c m" "R_DigestFinal c = (st, dig, c')"
  shows "digestAlgorithm c' = alg" "digest_rep alg (snd (R_DigestInit c' alg)) []"
proof -
  have z: "shs_valid shs_cleared" "md2_valid md2_cleared" "md_valid md_cleared"
    by (simp_all add: shs_valid_def md2_valid_def md_valid_def shs_cleared_def md2_cleared_def md_cleared_def)
  show "digestAlgorithm c' = alg" using assms by (auto simp: digest_rep_def R_DigestFinal_def Let_def split: if_splits)
  show "digest_rep alg (snd (R_DigestInit c' alg)) []"
    using assms z by (auto simp: digest_rep_def R_DigestFinal_def R_DigestInit_def DA_defs Let_def
        md2.rep_init md4.rep_init md5.rep_init shs.rep_init split: if_splits)
qed

lemma length_digest_of: "length (digest_of alg m) = (if alg = DA_SHS then 20 else 16)"
  by (simp add: digest_of_def length_shs_hash length_md2_digest length_md_digest)

text \<open>
  C22. Digests by number: for each of the four algorithms a message passed in any pieces, the whole block
  among them, gives the digest of the algorithm, of sixteen bytes or of twenty for SHS, and every other number is
  refused.
\<close>

theorem R_Digest_any:
  assumes "md2_valid (u_md2 c)" "md_valid (u_md4 c)" "md_valid (u_md5 c)" "shs_valid (u_shs c)"
    "\<forall>xs \<in> set chunks. length xs < 2 ^ 31" "length (concat chunks) < 2 ^ 31"
  shows "if alg \<in> {DA_MD2, DA_SHS, DA_MD4, DA_MD5}
     then fst (snd (R_DigestFinal (fold (\<lambda>xs c. snd (R_DigestUpdate c xs)) chunks (snd (R_DigestInit c alg))))) = digest_of alg (concat chunks)
        \<and> R_DigestBlock c (concat chunks) alg = Inr (digest_of alg (concat chunks))
        \<and> length (digest_of alg (concat chunks)) = (if alg = DA_SHS then 20 else 16)
     else R_DigestBlock c (concat chunks) alg = Inl RE_DIGEST_ALGORITHM"
proof (cases "alg \<in> {DA_MD2, DA_SHS, DA_MD4, DA_MD5}")
  case True
  then have v: "digest_valid alg c" using assms(1-4) by (simp add: digest_valid_def)
  let ?m = "concat chunks"
  obtain st1 c1 where 1: "R_DigestInit c alg = (st1, c1)" by force
  obtain st2 c2 where 2: "R_DigestUpdate c1 ?m = (st2, c2)" by force
  obtain st3 d c3 where 3: "R_DigestFinal c2 = (st3, d, c3)" by (metis prod_cases3)
  have r1: "digest_rep alg c1 []" using rd.rep_init [OF v] 1 by simp
  have r2: "digest_rep alg c2 ?m" using rd.rep_update [OF r1 assms(6)] 2 by simp
  have "d = digest_of alg ?m" using rd.rep_final [OF r2] 3 by simp
  then have "R_DigestBlock c ?m alg = Inr (digest_of alg ?m)"
    using R_Digest_status(1) [OF v] R_Digest_status(2) [OF r1, of ?m] R_Digest_status(3) [OF r2] 1 2 3
    by (simp add: R_DigestBlock_def)
  then show ?thesis using True rd.digest_of_chunks [OF v assms(5)] by (simp add: length_digest_of)
next
  case False
  then show ?thesis by (auto simp: R_DigestBlock_def R_DigestInit_def Let_def RE_DIGEST_ALGORITHM_def)
qed

section \<open>Signing and verifying\<close>

lemma R_Verify_Sign: "R_VerifyInit = R_SignInit" "R_VerifyUpdate = R_SignUpdate"
  by (simp_all add: fun_eq_iff R_VerifyInit_def R_SignInit_def R_VerifyUpdate_def R_SignUpdate_def)

definition sign_valid :: "int \<Rightarrow> r_signature_ctx \<Rightarrow> bool" where
  "sign_valid alg c \<longleftrightarrow> digest_valid alg c \<and> alg \<noteq> DA_SHS"

definition sign_rep :: "int \<Rightarrow> r_signature_ctx \<Rightarrow> byte list \<Rightarrow> bool" where
  "sign_rep alg c m \<longleftrightarrow> digest_rep alg c m \<and> alg \<noteq> DA_SHS"

lemma sign_rep_alg: "sign_rep alg c m \<Longrightarrow> digestAlgorithm c = alg \<and> alg \<noteq> DA_SHS"
  by (simp add: sign_rep_def digest_rep_def)

interpretation sg: message_digest "sign_valid alg" "\<lambda>c. snd (R_SignInit c alg)" "\<lambda>c xs. snd (R_SignUpdate c xs)"
  "\<lambda>c. fst (snd (R_DigestFinal c))" "sign_rep alg" "digest_of alg" for alg
proof
  show "sign_rep alg (snd (R_SignInit c alg)) []" if "sign_valid alg c" for c
    using that rd.rep_init by (simp add: sign_valid_def sign_rep_def R_SignInit_def)
  show "sign_rep alg (snd (R_SignUpdate c xs)) (m @ xs)" if "sign_rep alg c m" "length xs < 2 ^ 31" for c m xs
    using that rd.rep_update sign_rep_alg [OF that(1)] by (simp add: sign_rep_def R_SignUpdate_def)
  show "fst (snd (R_DigestFinal c)) = digest_of alg m" if "sign_rep alg c m" for c m
    using that rd.rep_final by (simp add: sign_rep_def)
qed

lemma R_Sign_status:
  "sign_valid alg c \<Longrightarrow> fst (R_SignInit c alg) = 0" "sign_rep alg c m \<Longrightarrow> fst (R_SignUpdate c xs) = 0"
  using R_Digest_status(1,2) sign_rep_alg by (auto simp: sign_valid_def sign_rep_def R_SignInit_def R_SignUpdate_def)

definition digest_info :: "int \<Rightarrow> byte list \<Rightarrow> byte list" where
  "digest_info alg m = DIGEST_INFO_A @ [of_int alg] @ DIGEST_INFO_B @ digest_of alg m"

lemma DIGEST_INFO_LEN: "DIGEST_INFO_LEN = 34" "length DIGEST_INFO_A = 13" "length DIGEST_INFO_B = 4"
  by (simp_all add: DIGEST_INFO_LEN_def DIGEST_INFO_A_def DIGEST_INFO_B_def)

lemma length_digest_info: "alg \<noteq> DA_SHS \<Longrightarrow> length (digest_info alg m) = 34"
  by (simp add: digest_info_def length_digest_of DIGEST_INFO_LEN)

lemma sign_final:
  assumes "sign_rep alg c m"
  obtains c' where "R_DigestFinal c = (0, digest_of alg m, c')" "digestAlgorithm c' = alg"
    "R_EncodeDigestInfo alg (digest_of alg m) = digest_info alg m" "sign_rep alg (snd (R_DigestInit c' alg)) []"
proof -
  have r: "digest_rep alg c m" "alg \<noteq> DA_SHS" using assms by (simp_all add: sign_rep_def)
  obtain st d c' where f: "R_DigestFinal c = (st, d, c')" by (metis prod_cases3)
  have "st = 0" "d = digest_of alg m" using R_Digest_status(3) [OF r(1)] rd.rep_final [OF r(1)] f by simp_all
  moreover have "R_EncodeDigestInfo alg (digest_of alg m) = digest_info alg m"
    using r(2) by (simp add: R_EncodeDigestInfo_def digest_info_def length_digest_of)
  ultimately show ?thesis using that f R_DigestFinal_restart [OF r(1) f] r(2) by (simp add: sign_rep_def)
qed

lemma R_SignFinal_ok:
  assumes "sign_rep alg c m" "rsa_keys_ok pub prv" "45 \<le> rsa_len prv"
  shows "\<exists>sig c'. R_SignFinal c prv = Some (Inr sig, c') \<and> length sig = rsa_len prv \<and> sign_rep alg c' []
     \<and> RSAPublicDecrypt sig pub = Some (Inr (digest_info alg m))"
proof -
  note a = sign_rep_alg [OF assms(1)]
  obtain c' where f: "R_DigestFinal c = (0, digest_of alg m, c')" "digestAlgorithm c' = alg"
    "R_EncodeDigestInfo alg (digest_of alg m) = digest_info alg m" "sign_rep alg (snd (R_DigestInit c' alg)) []"
    using sign_final [OF assms(1)] by blast
  have "length (digest_info alg m) + 11 \<le> rsa_len prv" using assms(3) a by (simp add: length_digest_info)
  then obtain sig where "RSAPrivateEncrypt (digest_info alg m) prv = Some (Inr sig)" "length sig = rsa_len prv"
    "RSAPublicDecrypt sig pub = Some (Inr (digest_info alg m))"
    using RSAPrivateEncrypt_ok [OF assms(2)] by blast
  then show ?thesis using a f by (auto simp: R_SignFinal_def)
qed

lemma R_VerifyFinal_ok:
  assumes "sign_rep alg c m'" "alg \<noteq> DA_SHS" "length sig \<le> 128" "RSAPublicDecrypt sig pub = Some (Inr (digest_info alg m))"
  shows "\<exists>c'. R_VerifyFinal c sig pub = Some (if digest_of alg m = digest_of alg m' then 0 else RE_SIGNATURE, c')"
proof -
  note a = sign_rep_alg [OF assms(1)]
  obtain c' where f: "R_DigestFinal c = (0, digest_of alg m', c')" "digestAlgorithm c' = alg"
    "R_EncodeDigestInfo alg (digest_of alg m') = digest_info alg m'"
    using sign_final [OF assms(1)] by blast
  have "R_memcmp (digest_info alg m) (digest_info alg m') = 0 \<longleftrightarrow> digest_of alg m = digest_of alg m'"
    using R_memcmp_0 [of "digest_info alg m" "digest_info alg m'"] a by (simp add: length_digest_info) (simp add: digest_info_def)
  moreover have "R_CheckDigestInfo (digest_info alg m) (digest_info alg m') = 0"
    by (simp add: R_CheckDigestInfo_def digest_info_def nth_append ID_OK_def)
  ultimately show ?thesis
    using a f assms(3,4) length_digest_info [OF assms(2), of m]
    by (simp add: R_VerifyFinal_def Let_def MAX_SIGNATURE_LEN_def MAX_RSA_MODULUS_LEN_def DIGEST_INFO_LEN)
qed

text \<open>
  C23. Signing with a pair of keys that fit together and verifying, each in pieces of its own: the signature
  is made, the signing context is ready for another message, and verification answers zero exactly when the
  digests of the two messages are equal, and otherwise that the signature is wrong.
\<close>

theorem R_Sign_Verify:
  assumes "rsa_keys_ok pub prv" "45 \<le> rsa_len prv" "sign_valid alg c" "sign_valid alg d"
    "\<forall>xs \<in> set chunks. length xs < 2 ^ 31" "\<forall>xs \<in> set chunks'. length xs < 2 ^ 31"
  shows "\<exists>sig c' d'.
      R_SignFinal (fold (\<lambda>xs c. snd (R_SignUpdate c xs)) chunks (snd (R_SignInit c alg))) prv = Some (Inr sig, c')
    \<and> sign_rep alg c' []
    \<and> R_VerifyFinal (fold (\<lambda>xs c. snd (R_VerifyUpdate c xs)) chunks' (snd (R_VerifyInit d alg))) sig pub
        = Some (if digest_of alg (concat chunks) = digest_of alg (concat chunks') then 0 else RE_SIGNATURE, d')"
proof -
  let ?c = "fold (\<lambda>xs c. snd (R_SignUpdate c xs)) chunks (snd (R_SignInit c alg))"
  let ?d = "fold (\<lambda>xs c. snd (R_SignUpdate c xs)) chunks' (snd (R_SignInit d alg))"
  have c: "sign_rep alg ?c (concat chunks)" using sg.rep_fold [OF sg.rep_init [OF assms(3)] assms(5)] by simp
  have d: "sign_rep alg ?d (concat chunks')" using sg.rep_fold [OF sg.rep_init [OF assms(4)] assms(6)] by simp
  have l: "rsa_len prv \<le> 128" using rsa_len_bounds(3) assms(1) by (simp add: rsa_keys_ok_def)
  obtain sig c' where s: "R_SignFinal ?c prv = Some (Inr sig, c')" "length sig = rsa_len prv" "sign_rep alg c' []"
    "RSAPublicDecrypt sig pub = Some (Inr (digest_info alg (concat chunks)))"
    using R_SignFinal_ok [OF c assms(1,2)] by blast
  obtain d' where "R_VerifyFinal ?d sig pub = Some (if digest_of alg (concat chunks) = digest_of alg (concat chunks') then 0 else RE_SIGNATURE, d')"
    using R_VerifyFinal_ok [OF d _ _ s(4)] sign_rep_alg [OF d] s(2) l by auto
  then show ?thesis unfolding R_Verify_Sign using s by blast
qed

lemma R_SignBlock_ok:
  assumes "rsa_keys_ok pub prv" "45 \<le> rsa_len prv" "sign_valid alg c" "length m < 2 ^ 31"
  shows "\<exists>sig. R_SignBlock c m alg prv = Some (Inr sig) \<and> length sig = rsa_len prv
     \<and> RSAPublicDecrypt sig pub = Some (Inr (digest_info alg m))"
proof -
  obtain st1 c1 where 1: "R_SignInit c alg = (st1, c1)" by force
  obtain st2 c2 where 2: "R_SignUpdate c1 m = (st2, c2)" by force
  have r1: "sign_rep alg c1 []" using sg.rep_init [OF assms(3)] 1 by simp
  have r2: "sign_rep alg c2 m" using sg.rep_update [OF r1 assms(4)] 2 by simp
  then show ?thesis
    using R_SignFinal_ok [OF r2 assms(1,2)] R_Sign_status(1) [OF assms(3)] R_Sign_status(2) [OF r1, of m] 1 2
    by (auto simp: R_SignBlock_def)
qed

lemma R_VerifyBlockSignature_ok:
  assumes "sign_valid alg d" "length m' < 2 ^ 31" "length sig \<le> 128" "RSAPublicDecrypt sig pub = Some (Inr (digest_info alg m))"
  shows "R_VerifyBlockSignature d m' sig alg pub = Some (if digest_of alg m = digest_of alg m' then 0 else RE_SIGNATURE)"
proof -
  obtain st1 c1 where 1: "R_SignInit d alg = (st1, c1)" by force
  obtain st2 c2 where 2: "R_SignUpdate c1 m' = (st2, c2)" by force
  have r1: "sign_rep alg c1 []" using sg.rep_init [OF assms(1)] 1 by simp
  have r2: "sign_rep alg c2 m'" using sg.rep_update [OF r1 assms(2)] 2 by simp
  then show ?thesis
    using R_VerifyFinal_ok [OF r2 _ assms(3,4)] sign_rep_alg [OF r2] R_Sign_status(1) [OF assms(1)] R_Sign_status(2) [OF r1, of m'] 1 2
    by (auto simp: R_VerifyBlockSignature_def R_Verify_Sign)
qed

text \<open>
  Signatures in printable form: what \<^verbatim>\<open>R_SignPEMBlock\<close> makes of a block, with or without a printable
  form of the block itself, is accepted by \<^verbatim>\<open>R_VerifyPEMSignature\<close>, which gives the block back.
\<close>

theorem R_SignPEM_roundtrip:
  assumes "rsa_keys_ok pub prv" "45 \<le> rsa_len prv" "sign_valid alg c" "sign_valid alg d" "length content < 2 ^ 31"
    "2 \<le> length behindC" "2 \<le> length behindS"
  shows "\<exists>enc encSig. R_SignPEMBlock c content behindC behindS recode alg prv = Some (Inr (enc, encSig))
     \<and> R_VerifyPEMSignature d (case enc of Some e \<Rightarrow> e | None \<Rightarrow> content) encSig recode alg pub = Some (0, content)"
proof -
  obtain sig where s: "R_SignBlock c content alg prv = Some (Inr sig)" "length sig = rsa_len prv"
    "RSAPublicDecrypt sig pub = Some (Inr (digest_info alg content))"
    using R_SignBlock_ok [OF assms(1-3,5)] by blast
  have l: "length sig \<le> 128" using rsa_len_bounds(3) assms(1) s(2) by (simp add: rsa_keys_ok_def)
  then have "\<not> length (R_EncodePEMBlock sig behindS) > MAX_PEM_SIGNATURE_LEN"
    by (simp add: length_R_EncodePEMBlock MAX_PEM_SIGNATURE_LEN_def ENCODED_CONTENT_LEN_def MAX_SIGNATURE_LEN_def MAX_RSA_MODULUS_LEN_def)
  then show ?thesis
    using s R_VerifyBlockSignature_ok [OF assms(4,5) l s(3)] PEM_decode_encode [OF assms(6), of content] PEM_decode_encode [OF assms(7), of sig]
    by (simp add: R_SignPEMBlock_def R_VerifyPEMSignature_def)
qed

section \<open>The hypotheses of the properties hold\<close>

text \<open>
  Contexts of zeros, and a pair of keys that fit together with a modulus of 360 bits. Its factors are
  neighbours and its exponents are one: no secret is kept by it, but every law that the signatures rely on
  holds.
\<close>

definition zero_ctx :: r_digest_ctx where
  "zero_ctx = \<lparr>digestAlgorithm = 0, u_md2 = md2_cleared, u_md4 = md_cleared, u_md5 = md_cleared, u_shs = shs_cleared\<rparr>"

lemma zero_ctx_valid:
  "md2_valid (u_md2 zero_ctx)" "md_valid (u_md4 zero_ctx)" "md_valid (u_md5 zero_ctx)" "shs_valid (u_shs zero_ctx)"
  by (simp_all add: zero_ctx_def shs_valid_def md2_valid_def md_valid_def shs_cleared_def md2_cleared_def md_cleared_def)

lemma zero_ctx_sign: "alg \<in> {DA_MD2, DA_MD4, DA_MD5} \<Longrightarrow> sign_valid alg zero_ctx"
  by (auto simp: sign_valid_def digest_valid_def zero_ctx_valid DA_defs)

definition unit_private :: r_rsa_private_key where
  "unit_private = \<lparr>prv_bits = 360, prv_modulus = be_bytes 128 (2 ^ 180 * (2 ^ 180 - 1)),
     prv_publicExponent = be_bytes 128 1, prv_exponent = be_bytes 128 1,
     prv_prime0 = be_bytes 64 (2 ^ 180), prv_prime1 = be_bytes 64 (2 ^ 180 - 1),
     prv_primeExponent0 = be_bytes 64 1, prv_primeExponent1 = be_bytes 64 1, prv_coefficient = be_bytes 64 (2 ^ 180 - 1)\<rparr>"

definition unit_public :: r_rsa_public_key where
  "unit_public = \<lparr>pub_bits = 360, pub_modulus = be_bytes 128 (2 ^ 180 * (2 ^ 180 - 1)), pub_exponent = be_bytes 128 1\<rparr>"

lemma unit_values:
  "rsa_n unit_private = 2 ^ 180 * (2 ^ 180 - 1)" "rsa_p unit_private = 2 ^ 180" "rsa_q unit_private = 2 ^ 180 - 1"
  "rsa_dP unit_private = 1" "rsa_dQ unit_private = 1" "rsa_qInv unit_private = 2 ^ 180 - 1"
  "rsa_e unit_public = 1" "prv_bits unit_private = 360" "rsa_len unit_private = 45"
  by (simp_all add: rsa_n_def rsa_p_def rsa_q_def rsa_dP_def rsa_dQ_def rsa_qInv_def rsa_e_def rsa_len_def
      unit_private_def unit_public_def be_val_be_bytes)

lemma unit_keys_ok: "rsa_keys_ok unit_public unit_private"
proof -
  have "rsa_key_sizes unit_private" by (simp add: rsa_key_sizes_def unit_private_def rsa_lens)
  then have "rsa_private_ok unit_private" by (simp add: rsa_private_ok_def unit_values)
  then show ?thesis unfolding rsa_keys_ok_def unit_values
    by (simp add: unit_public_def unit_private_def rsa_lens)
qed

lemma R_Digest_any_witness:
  "R_DigestBlock zero_ctx [97, 98, 99] 3 = Inr (shs_hash [97, 98, 99]) \<and> R_DigestBlock zero_ctx [97, 98, 99] 1 = Inl RE_DIGEST_ALGORITHM"
  using R_Digest_any [OF zero_ctx_valid, of "[[97, 98, 99]]" 3] R_Digest_any [OF zero_ctx_valid, of "[[97, 98, 99]]" 1]
  by (simp add: DA_defs digest_of_def)

lemma R_Sign_Verify_witness:
  "\<exists>sig c' d'. R_SignFinal (snd (R_SignUpdate (snd (R_SignUpdate (snd (R_SignInit zero_ctx 5)) [1, 2])) [3])) unit_private = Some (Inr sig, c')
     \<and> R_VerifyFinal (snd (R_VerifyUpdate (snd (R_VerifyInit zero_ctx 5)) [1, 2, 3])) sig unit_public = Some (0, d')"
  using R_Sign_Verify [OF unit_keys_ok _ zero_ctx_sign zero_ctx_sign, of 5 "[[1, 2], [3]]" "[[1, 2, 3]]"]
  by (simp add: unit_values DA_defs) blast

lemma R_SignPEM_roundtrip_witness:
  "\<exists>enc encSig. R_SignPEMBlock zero_ctx [1, 2, 3, 4] [0, 0] [7, 9] True 2 unit_private = Some (Inr (enc, encSig))
     \<and> R_VerifyPEMSignature zero_ctx (case enc of Some e \<Rightarrow> e | None \<Rightarrow> [1, 2, 3, 4]) encSig True 2 unit_public = Some (0, [1, 2, 3, 4])"
  using R_SignPEM_roundtrip [OF unit_keys_ok _ zero_ctx_sign zero_ctx_sign, of 2 "[1, 2, 3, 4]" "[0, 0]" "[7, 9]" True]
  by (simp add: unit_values DA_defs)

end
