(* ===== verification/R_Envelope.thy ===== *)
theory R_Envelope
  imports DES R_Sign
begin

text \<open>
  The second half of \<^verbatim>\<open>QBase/RSAEuro/r_enhanc.c\<close>: digital envelopes. A message is encrypted under a random key
  with one of the block ciphers of \<open>DES\<close>, in parts of any length, and the key under the public key of every
  recipient. The union of the cipher contexts is a record with one field per member, of which the
  algorithm number selects one. Every operation takes the width of \<^verbatim>\<open>unsigned long\<close> that the ciphers depend on.
  \<^verbatim>\<open>bufferLen\<close> is at most 8 in every context that an initialisation has made.
\<close>

section \<open>Contexts\<close>

definition EA_DES_CBC :: int where "EA_DES_CBC = 1"
definition EA_DES_EDE2_CBC :: int where "EA_DES_EDE2_CBC = 2"
definition EA_DES_EDE3_CBC :: int where "EA_DES_EDE3_CBC = 3"
definition EA_DESX_CBC :: int where "EA_DESX_CBC = 4"

lemmas EA_defs = EA_DES_CBC_def EA_DES_EDE2_CBC_def EA_DES_EDE3_CBC_def EA_DESX_CBC_def

definition RE_KEY :: int where "RE_KEY = 0x0404"
definition RE_ENCRYPTION_ALGORITHM :: int where "RE_ENCRYPTION_ALGORITHM = 0x040d"
definition MAX_ENCRYPTED_KEY_LEN :: nat where "MAX_ENCRYPTED_KEY_LEN = MAX_RSA_MODULUS_LEN"

record r_envelope_ctx =
  encryptionAlgorithm :: int
  u_des :: des_cbc_ctx
  u_des3 :: des3_cbc_ctx
  u_desx :: desx_cbc_ctx
  env_buffer :: "byte list"
  env_bufferLen :: nat

definition CipherInit ::
  "r_envelope_ctx \<Rightarrow> int \<Rightarrow> byte list \<Rightarrow> byte list \<Rightarrow> bool \<Rightarrow> int \<times> r_envelope_ctx" where
  "CipherInit context ea key iv encrypt =
     (if ea = EA_DES_CBC then (ID_OK, context\<lparr>u_des := DES_CBCInit key iv encrypt\<rparr>)
      else if ea = EA_DESX_CBC then (ID_OK, context\<lparr>u_desx := DESX_CBCInit key iv encrypt\<rparr>)
      else if ea = EA_DES_EDE2_CBC \<or> ea = EA_DES_EDE3_CBC then (ID_OK, context\<lparr>u_des3 := DES3_CBCInit key iv encrypt\<rparr>)
      else (RE_ENCRYPTION_ALGORITHM, context))"

text \<open>The status of the ciphers is ignored; all callers pass whole blocks.\<close>

definition EncryptBlk :: "'l :: len itself \<Rightarrow> r_envelope_ctx \<Rightarrow> byte list \<Rightarrow> byte list \<times> r_envelope_ctx" where
  "EncryptBlk L context input =
     (let ea = encryptionAlgorithm context
      in if ea = EA_DES_CBC
         then (case DES_CBCUpdate L (u_des context) input of (_, out, c) \<Rightarrow> (out, context\<lparr>u_des := c\<rparr>))
         else if ea = EA_DESX_CBC
         then (case DESX_CBCUpdate L (u_desx context) input of (_, out, c) \<Rightarrow> (out, context\<lparr>u_desx := c\<rparr>))
         else if ea = EA_DES_EDE2_CBC \<or> ea = EA_DES_EDE3_CBC
         then (case DES3_CBCUpdate L (u_des3 context) input of (_, out, c) \<Rightarrow> (out, context\<lparr>u_des3 := c\<rparr>))
         else ([], context))"

definition RestartCipher :: "r_envelope_ctx \<Rightarrow> r_envelope_ctx" where
  "RestartCipher context =
     (let ea = encryptionAlgorithm context
      in if ea = EA_DES_CBC then context\<lparr>u_des := DES_CBCRestart (u_des context)\<rparr>
         else if ea = EA_DESX_CBC then context\<lparr>u_desx := DESX_CBCRestart (u_desx context)\<rparr>
         else if ea = EA_DES_EDE2_CBC \<or> ea = EA_DES_EDE3_CBC then context\<lparr>u_des3 := DES3_CBCRestart (u_des3 context)\<rparr>
         else context)"

section \<open>Sealing\<close>

text \<open>The loop over the recipients; the first failure ends it.\<close>

fun seal_keys ::
  "byte list \<Rightarrow> r_rsa_public_key list \<Rightarrow> r_random_struct \<Rightarrow> ((int + byte list list) \<times> r_random_struct) option" where
  "seal_keys key [] random = Some (Inr [], random)"
| "seal_keys key (publicKey # publicKeys) random =
     do { (r, random) \<leftarrow> RSAPublicEncrypt key publicKey random;
          case r of
            Inl _ \<Rightarrow> Some (Inl RE_PUBLIC_KEY, random)
          | Inr encryptedKey \<Rightarrow>
              do { (r, random) \<leftarrow> seal_keys key publicKeys random;
                   Some (map_sum id (\<lambda>ks. encryptedKey # ks) r, random) } }"

text \<open>The result is the status, or the encrypted keys and the initial vector.\<close>

definition R_SealInit ::
  "r_envelope_ctx \<Rightarrow> r_rsa_public_key list \<Rightarrow> int \<Rightarrow> r_random_struct
     \<Rightarrow> ((int + byte list list \<times> byte list) \<times> r_envelope_ctx \<times> r_random_struct) option" where
  "R_SealInit context publicKeys ea random =
     (let context = context\<lparr>encryptionAlgorithm := ea\<rparr>;
          keyLen = (if ea = EA_DES_CBC then 8 else 24)
      in case R_GenerateBytes keyLen random of (status, key, random) \<Rightarrow>
         if status \<noteq> 0 then Some (Inl status, context, random)
         else case R_GenerateBytes 8 random of (status, iv, random) \<Rightarrow>
         if status \<noteq> 0 then Some (Inl status, context, random)
         else let key = (if ea = EA_DES_EDE2_CBC then R_memcpy key 16 (take 8 key) else key)
              in case CipherInit context ea key iv True of (status, context) \<Rightarrow>
                 if status \<noteq> 0 then Some (Inl status, context, random)
                 else do { (r, random) \<leftarrow> seal_keys key publicKeys random;
                           Some (case r of
                                   Inl status \<Rightarrow> (Inl status, context, random)
                                 | Inr keys \<Rightarrow> (Inr (keys, iv), context\<lparr>env_bufferLen := 0\<rparr>, random)) })"

definition R_SealUpdate ::
  "'l :: len itself \<Rightarrow> r_envelope_ctx \<Rightarrow> byte list \<Rightarrow> byte list \<times> r_envelope_ctx" where
  "R_SealUpdate L context partIn =
     (let temp = 8 - env_bufferLen context
      in if length partIn < temp
         then ([], context\<lparr>env_buffer := R_memcpy (env_buffer context) (env_bufferLen context) partIn,
                           env_bufferLen := env_bufferLen context + length partIn\<rparr>)
         else let context = context\<lparr>env_buffer := R_memcpy (env_buffer context) (env_bufferLen context) (take temp partIn)\<rparr>
              in case EncryptBlk L context (env_buffer context) of (out1, context) \<Rightarrow>
                 let partIn = drop temp partIn;
                     temp = 8 * (length partIn div 8)
                 in case EncryptBlk L context (take temp partIn) of (out2, context) \<Rightarrow>
                    let partIn = drop temp partIn
                    in (out1 @ out2, context\<lparr>env_buffer := R_memcpy (env_buffer context) 0 partIn,
                                             env_bufferLen := length partIn\<rparr>))"

definition R_SealFinal :: "'l :: len itself \<Rightarrow> r_envelope_ctx \<Rightarrow> byte list \<times> r_envelope_ctx" where
  "R_SealFinal L context =
     (let padLen = 8 - env_bufferLen context;
          context = context\<lparr>env_buffer := R_memset (env_buffer context) (env_bufferLen context) (of_nat padLen) padLen\<rparr>
      in case EncryptBlk L context (env_buffer context) of (out, context) \<Rightarrow>
         (out, (RestartCipher context)\<lparr>env_bufferLen := 0\<rparr>))"

section \<open>Opening\<close>

text \<open>The padding strings, by their length.\<close>

definition env_PADDING :: "byte list list" where
  "env_PADDING =
     [[], [1], [2, 2], [3, 3, 3], [4, 4, 4, 4], [5, 5, 5, 5, 5], [6, 6, 6, 6, 6, 6],
      [7, 7, 7, 7, 7, 7, 7], [8, 8, 8, 8, 8, 8, 8, 8]]"

definition R_OpenInit ::
  "r_envelope_ctx \<Rightarrow> int \<Rightarrow> byte list \<Rightarrow> byte list \<Rightarrow> r_rsa_private_key \<Rightarrow> (int \<times> r_envelope_ctx) option" where
  "R_OpenInit context ea encryptedKey iv privateKey =
     (if length encryptedKey > MAX_ENCRYPTED_KEY_LEN then Some (RE_LEN, context)
      else let context = context\<lparr>encryptionAlgorithm := ea\<rparr>
           in do { r \<leftarrow> RSAPrivateDecrypt encryptedKey privateKey;
                   Some (case r of
                     Inl _ \<Rightarrow> (RE_PRIVATE_KEY, context)
                   | Inr key \<Rightarrow>
                       if ea = EA_DES_CBC
                       then if length key \<noteq> 8 then (RE_PRIVATE_KEY, context)
                            else (case CipherInit context ea key iv False of (status, context) \<Rightarrow>
                                  (status, if status = 0 then context\<lparr>env_bufferLen := 0\<rparr> else context))
                       else if length key \<noteq> 24 then (RE_PRIVATE_KEY, context)
                            else (case CipherInit context ea key iv False of (status, context) \<Rightarrow>
                                  (status, if status = 0 then context\<lparr>env_bufferLen := 0\<rparr> else context))) })"

definition R_OpenUpdate ::
  "'l :: len itself \<Rightarrow> r_envelope_ctx \<Rightarrow> byte list \<Rightarrow> byte list \<times> r_envelope_ctx" where
  "R_OpenUpdate L context partIn =
     (let tempLen = 8 - env_bufferLen context
      in if length partIn \<le> tempLen
         then ([], context\<lparr>env_buffer := R_memcpy (env_buffer context) (env_bufferLen context) partIn,
                           env_bufferLen := env_bufferLen context + length partIn\<rparr>)
         else let context = context\<lparr>env_buffer := R_memcpy (env_buffer context) (env_bufferLen context) (take tempLen partIn)\<rparr>
              in case EncryptBlk L context (env_buffer context) of (out1, context) \<Rightarrow>
                 let partIn = drop tempLen partIn;
                     tempLen = 8 * ((length partIn - 1) div 8)
                 in case EncryptBlk L context (take tempLen partIn) of (out2, context) \<Rightarrow>
                    let partIn = drop tempLen partIn
                    in (out1 @ out2, context\<lparr>env_buffer := R_memcpy (env_buffer context) 0 partIn,
                                             env_bufferLen := length partIn\<rparr>))"

definition R_OpenFinal :: "'l :: len itself \<Rightarrow> r_envelope_ctx \<Rightarrow> (int + byte list) \<times> r_envelope_ctx" where
  "R_OpenFinal L context =
     (if env_bufferLen context = 0 then (Inr [], context)
      else if env_bufferLen context \<noteq> 8 then (Inl RE_KEY, context)
      else case EncryptBlk L context (env_buffer context) of (lastPart, context) \<Rightarrow>
           let padLen = unat (lastPart ! 7)
           in if padLen = 0 \<or> padLen > 8 then (Inl RE_KEY, context)
              else if R_memcmp (drop (8 - padLen) lastPart) (env_PADDING ! padLen) \<noteq> 0 then (Inl RE_KEY, context)
              else (Inr (take (8 - padLen) lastPart), (RestartCipher context)\<lparr>env_bufferLen := 0\<rparr>))"

section \<open>The union as one cipher\<close>

definition env_alg :: "int \<Rightarrow> bool" where
  "env_alg ea \<longleftrightarrow> ea \<in> {EA_DES_CBC, EA_DESX_CBC, EA_DES_EDE2_CBC, EA_DES_EDE3_CBC}"

definition env_rel :: "r_envelope_ctx \<Rightarrow> r_envelope_ctx \<Rightarrow> bool" where
  "env_rel c d \<longleftrightarrow> encryptionAlgorithm c = encryptionAlgorithm d \<and> env_alg (encryptionAlgorithm c)
     \<and> (encryptionAlgorithm c = EA_DES_CBC \<longrightarrow> des_rel (u_des c) (u_des d))
     \<and> (encryptionAlgorithm c = EA_DESX_CBC \<longrightarrow> desx_rel (u_desx c) (u_desx d))
     \<and> (encryptionAlgorithm c \<in> {EA_DES_EDE2_CBC, EA_DES_EDE3_CBC} \<longrightarrow> des3_rel (u_des3 c) (u_des3 d))"

text \<open>The loop over the blocks with a context inside another one.\<close>

lemma des_loop_lift:
  assumes "\<And>c b. length b = 8 \<Longrightarrow> big (put c) b = map_prod id put (small c b)"
  shows "des_loop big (put c) input = map_prod id put (des_loop small c input)"
proof (induction "length input" arbitrary: input c rule: less_induct)
  case less
  show ?case
  proof (cases "length input < 8")
    case False
    then have *: "length (drop 8 input) < length input" by simp
    show ?thesis using False less [OF *] assms [of "take 8 input" c]
      by (simp add: des_loop.simps [of big "put c" input] des_loop.simps [of small c input] split: prod.split)
  qed (simp add: des_loop.simps)
qed

lemma des_loop_block: "length b = 8 \<Longrightarrow> des_loop step c b = step c b"
  by (simp add: des_loop.simps [of step c b] des_loop.simps [of step _ "[]"] split: prod.split)

lemma des_loop_invariant:
  assumes "\<And>c b out c'. length b = 8 \<Longrightarrow> step c b = (out, c') \<Longrightarrow> f c' = f c"
  shows "des_loop step c input = (out, c') \<Longrightarrow> f c' = f c"
proof (induction "length input" arbitrary: input c out rule: less_induct)
  case less
  show ?case
  proof (cases "length input < 8")
    case False
    then have *: "length (drop 8 input) < length input" "length (take 8 input) = 8" by simp_all
    obtain o1 c1 o2 where "step c (take 8 input) = (o1, c1)" "des_loop step c1 (drop 8 input) = (o2, c')"
      using False less.prems by (auto simp: des_loop.simps [of step c] split: prod.splits)
    then show ?thesis using less.hyps [OF *(1)] assms [OF *(2)] by metis
  qed (use less.prems in \<open>simp add: des_loop.simps\<close>)
qed

lemma EncryptBlk_loop:
  assumes "length input mod 8 = 0" "env_alg (encryptionAlgorithm c)"
  shows "EncryptBlk L c input = des_loop (EncryptBlk L) c input"
proof -
  have d: "encryptionAlgorithm c = EA_DES_CBC \<Longrightarrow> des_loop (EncryptBlk L) (c\<lparr>u_des := u_des c\<rparr>) input
      = map_prod id (\<lambda>x. c\<lparr>u_des := x\<rparr>) (des_loop (des_cbc_step L) (u_des c) input)"
    by (rule des_loop_lift [where put = "\<lambda>x. c\<lparr>u_des := x\<rparr>"])
      (auto simp: EncryptBlk_def DES_CBCUpdate_def des_loop_block split: prod.split)
  have x: "encryptionAlgorithm c = EA_DESX_CBC \<Longrightarrow> des_loop (EncryptBlk L) (c\<lparr>u_desx := u_desx c\<rparr>) input
      = map_prod id (\<lambda>x. c\<lparr>u_desx := x\<rparr>) (des_loop (desx_cbc_step L) (u_desx c) input)"
    by (rule des_loop_lift [where put = "\<lambda>x. c\<lparr>u_desx := x\<rparr>"])
      (auto simp: EncryptBlk_def DESX_CBCUpdate_def des_loop_block EA_defs split: prod.split)
  have t: "encryptionAlgorithm c \<in> {EA_DES_EDE2_CBC, EA_DES_EDE3_CBC} \<Longrightarrow> des_loop (EncryptBlk L) (c\<lparr>u_des3 := u_des3 c\<rparr>) input
      = map_prod id (\<lambda>x. c\<lparr>u_des3 := x\<rparr>) (des_loop (des3_cbc_step L) (u_des3 c) input)"
    by (rule des_loop_lift [where put = "\<lambda>x. c\<lparr>u_des3 := x\<rparr>"])
      (auto simp: EncryptBlk_def DES3_CBCUpdate_def des_loop_block EA_defs split: prod.split)
  have "c\<lparr>u_des := u_des c\<rparr> = c" "c\<lparr>u_desx := u_desx c\<rparr> = c" "c\<lparr>u_des3 := u_des3 c\<rparr> = c" by simp_all
  with d x t assms show ?thesis
    by (auto simp: env_alg_def EncryptBlk_def DES_CBCUpdate_def DESX_CBCUpdate_def DES3_CBCUpdate_def EA_defs split: prod.split)
qed

interpretation env: chained_cipher "EncryptBlk TYPE(32)" env_rel
proof
  fix c d b out c'
  assume a: "env_rel c d" "length (b :: byte list) = 8" "EncryptBlk TYPE(32) c b = (out, c')"
  consider "encryptionAlgorithm c = EA_DES_CBC" | "encryptionAlgorithm c = EA_DESX_CBC"
    | "encryptionAlgorithm c \<in> {EA_DES_EDE2_CBC, EA_DES_EDE3_CBC}"
    using a(1) by (auto simp: env_rel_def env_alg_def)
  then show "length out = 8 \<and> (\<exists>d'. EncryptBlk TYPE(32) d out = (b, d') \<and> env_rel c' d')"
  proof cases
    case 1
    then obtain e where "des_cbc_step TYPE(32) (u_des c) b = (out, e)" "c' = c\<lparr>u_des := e\<rparr>"
      using a by (auto simp: EncryptBlk_def DES_CBCUpdate_def des_loop_block split: prod.splits)
    with des.step_inverse [of "u_des c" "u_des d" b out e] a 1 show ?thesis
      by (auto simp: EncryptBlk_def DES_CBCUpdate_def des_loop_block env_rel_def EA_defs)
  next
    case 2
    then obtain e where "desx_cbc_step TYPE(32) (u_desx c) b = (out, e)" "c' = c\<lparr>u_desx := e\<rparr>"
      using a by (auto simp: EncryptBlk_def DESX_CBCUpdate_def des_loop_block EA_defs split: prod.splits)
    with desx.step_inverse [of "u_desx c" "u_desx d" b out e] a 2 show ?thesis
      by (auto simp: EncryptBlk_def DESX_CBCUpdate_def des_loop_block env_rel_def EA_defs)
  next
    case 3
    then obtain e where "des3_cbc_step TYPE(32) (u_des3 c) b = (out, e)" "c' = c\<lparr>u_des3 := e\<rparr>"
      using a by (auto simp: EncryptBlk_def DES3_CBCUpdate_def des_loop_block EA_defs split: prod.splits)
    with des3.step_inverse [of "u_des3 c" "u_des3 d" b out e] a 3 show ?thesis
      by (auto simp: EncryptBlk_def DES3_CBCUpdate_def des_loop_block env_rel_def EA_defs)
  qed
qed

lemma env_swap: "c\<lparr>env_bufferLen := n, env_buffer := b\<rparr> = c\<lparr>env_buffer := b, env_bufferLen := n\<rparr>"
  for c :: r_envelope_ctx
  by simp

lemma EncryptBlk_keeps:
  "EncryptBlk L c input = (out, c') \<Longrightarrow>
     encryptionAlgorithm c' = encryptionAlgorithm c \<and> env_buffer c' = env_buffer c \<and> env_bufferLen c' = env_bufferLen c"
  by (auto simp: EncryptBlk_def Let_def split: if_splits prod.splits)

lemma EncryptBlk_buffer:
  "EncryptBlk L (c\<lparr>env_buffer := b, env_bufferLen := n\<rparr>) input =
     map_prod id (\<lambda>c. c\<lparr>env_buffer := b, env_bufferLen := n\<rparr>) (EncryptBlk L c input)"
  by (simp add: EncryptBlk_def Let_def split: prod.split)

lemma EncryptBlk_Nil: "EncryptBlk L c [] = ([], c)"
  by (simp add: EncryptBlk_def Let_def DES_CBCUpdate_def DESX_CBCUpdate_def DES3_CBCUpdate_def des_loop.simps)

lemma EncryptBlk_append:
  assumes "env_alg (encryptionAlgorithm c)" "length xs mod 8 = 0" "length ys mod 8 = 0"
    "EncryptBlk TYPE(32) c xs = (o1, c1)" "EncryptBlk TYPE(32) c1 ys = (o2, c2)"
  shows "EncryptBlk TYPE(32) c (xs @ ys) = (o1 @ o2, c2)"
proof -
  have "length (xs @ ys) mod 8 = 0" using assms(2,3) by (simp add: mod_add_eq [symmetric])
  then show ?thesis using env.loop_append [OF assms(2), of c ys] assms(1,2,4,5) EncryptBlk_keeps [OF assms(4)]
    by (simp add: EncryptBlk_loop [of xs c] EncryptBlk_loop [of ys c1] EncryptBlk_loop [of "xs @ ys"] assms(3))
qed

lemma EncryptBlk_inverse:
  assumes "env_rel c d" "length input mod 8 = 0" "EncryptBlk TYPE(32) c input = (out, c')"
  obtains d' where "length out = length input" "EncryptBlk TYPE(32) d out = (input, d')" "env_rel c' d'"
proof -
  have "env_alg (encryptionAlgorithm c)" "env_alg (encryptionAlgorithm d)" using assms(1) by (auto simp: env_rel_def)
  then show ?thesis using env.loop_inverse [OF assms(1,2), of out c'] assms(2,3) that
    by (auto simp: EncryptBlk_loop)
qed

section \<open>Messages in parts\<close>

text \<open>
  The state between two calls. \<open>fed n\<close> is the number of bytes already given to the cipher after \<open>n\<close> bytes: sealing
  keeps back less than a block, opening a whole block, in case it is the last one. \<open>c\<close> is the context at
  the start, \<open>m\<close> what has been passed, \<open>out\<close> what has been given out.
\<close>

definition seal_fed :: "nat \<Rightarrow> nat" where "seal_fed n = 8 * (n div 8)"
definition open_fed :: "nat \<Rightarrow> nat" where "open_fed n = 8 * ((n - 1) div 8)"

lemma seal_fed_bounds: "seal_fed n \<le> n" "n - seal_fed n < 8" "seal_fed n mod 8 = 0"
  by (simp_all add: seal_fed_def)

lemma open_fed_bounds: "open_fed n \<le> n" "n - open_fed n \<le> 8" "open_fed n mod 8 = 0"
proof -
  have "8 * ((n - 1) div 8) + (n - 1) mod 8 = n - 1" by simp
  moreover have "(n - 1) mod 8 < 8" by simp
  ultimately show "open_fed n \<le> n" "n - open_fed n \<le> 8" unfolding open_fed_def by linarith+
  show "open_fed n mod 8 = 0" by (simp add: open_fed_def)
qed

definition env_rep ::
  "(nat \<Rightarrow> nat) \<Rightarrow> r_envelope_ctx \<Rightarrow> byte list \<Rightarrow> byte list \<Rightarrow> r_envelope_ctx \<Rightarrow> bool" where
  "env_rep fed c m out context \<longleftrightarrow>
     (\<exists>c' buffer. EncryptBlk TYPE(32) c (take (fed (length m)) m) = (out, c') \<and> length buffer = 8
        \<and> context = c'\<lparr>env_buffer := buffer, env_bufferLen := length m - fed (length m)\<rparr>
        \<and> take (length m - fed (length m)) buffer = drop (fed (length m)) m)"

lemma env_repD:
  assumes "env_rep fed c m out context"
  obtains c' buffer where "EncryptBlk TYPE(32) c (take (fed (length m)) m) = (out, c')" "length buffer = 8"
    "context = c'\<lparr>env_buffer := buffer, env_bufferLen := length m - fed (length m)\<rparr>"
    "take (length m - fed (length m)) buffer = drop (fed (length m)) m"
  using assms by (auto simp: env_rep_def)

text \<open>A part that only fills the buffer.\<close>

lemma env_rep_store:
  assumes "env_rep fed c m out context" "fed (length m) \<le> length m" "length m - fed (length m) + length p \<le> 8"
    "fed (length (m @ p)) = fed (length m)"
  shows "env_rep fed c (m @ p) out
    (context\<lparr>env_buffer := R_memcpy (env_buffer context) (env_bufferLen context) p,
             env_bufferLen := env_bufferLen context + length p\<rparr>)"
proof -
  let ?n = "fed (length m)"
  obtain c' buffer where r: "EncryptBlk TYPE(32) c (take ?n m) = (out, c')" "length buffer = 8"
    "context = c'\<lparr>env_buffer := buffer, env_bufferLen := length m - ?n\<rparr>" "take (length m - ?n) buffer = drop ?n m"
    using assms(1) by (rule env_repD)
  let ?b = "R_memcpy buffer (length m - ?n) p"
  have b: "?b = drop ?n m @ p @ drop (length m - ?n + length p) buffer"
    using r(2,4) assms(3) by (simp add: R_memcpy_eq)
  show ?thesis
    unfolding env_rep_def assms(4)
    by (rule exI [of _ c'], rule exI [of _ ?b]) (use r assms(2,3) in \<open>simp add: b\<close>)
qed

text \<open>A part that completes the block in the buffer and continues with \<open>t\<close> bytes of whole blocks.\<close>

lemma env_rep_encrypt:
  assumes "env_alg (encryptionAlgorithm c)" "env_rep fed c m out context" "fed (length m) \<le> length m" "fed (length m) mod 8 = 0"
    "length m - fed (length m) \<le> 8" "temp = 8 - (length m - fed (length m))" "temp \<le> length p"
    "fed (length (m @ p)) = fed (length m) + 8 + t" "t mod 8 = 0" "temp + t \<le> length p" "length p - (temp + t) \<le> 8"
    "context1 = context\<lparr>env_buffer := R_memcpy (env_buffer context) (env_bufferLen context) (take temp p)\<rparr>"
    "EncryptBlk TYPE(32) context1 (env_buffer context1) = (o1, context2)"
    "EncryptBlk TYPE(32) context2 (take t (drop temp p)) = (o2, context3)"
    "rest = drop t (drop temp p)"
  shows "env_rep fed c (m @ p) (out @ o1 @ o2)
    (context3\<lparr>env_buffer := R_memcpy (env_buffer context3) 0 rest, env_bufferLen := length rest\<rparr>)"
proof -
  let ?n = "fed (length m)"
  obtain c' buffer where r: "EncryptBlk TYPE(32) c (take ?n m) = (out, c')" "length buffer = 8"
    "context = c'\<lparr>env_buffer := buffer, env_bufferLen := length m - ?n\<rparr>" "take (length m - ?n) buffer = drop ?n m"
    using assms(2) by (rule env_repD)
  let ?B = "drop ?n m @ take temp p"
  have b: "R_memcpy buffer (length m - ?n) (take temp p) = ?B"
    using r(2,4) assms(5,6,7) by (simp add: R_memcpy_eq)
  have lB: "length ?B = 8" using assms(3,5,6,7) by simp
  have c1: "context1 = c'\<lparr>env_buffer := ?B, env_bufferLen := length m - ?n\<rparr>" using r(3) assms(12) b by simp
  obtain c2 where 2: "EncryptBlk TYPE(32) c' ?B = (o1, c2)" "context2 = c2\<lparr>env_buffer := ?B, env_bufferLen := length m - ?n\<rparr>"
    using assms(13) unfolding c1 EncryptBlk_buffer by (cases "EncryptBlk TYPE(32) c' ?B") auto
  obtain c3 where 3: "EncryptBlk TYPE(32) c2 (take t (drop temp p)) = (o2, c3)"
    "context3 = c3\<lparr>env_buffer := ?B, env_bufferLen := length m - ?n\<rparr>"
    using assms(14) unfolding 2(2) EncryptBlk_buffer by (cases "EncryptBlk TYPE(32) c2 (take t (drop temp p))") auto
  have a: "env_alg (encryptionAlgorithm c')" using EncryptBlk_keeps [OF r(1)] assms(1) by simp
  have "EncryptBlk TYPE(32) c' (?B @ take t (drop temp p)) = (o1 @ o2, c3)"
    by (rule EncryptBlk_append [OF a _ _ 2(1) 3(1)]) (use lB assms(9,10) in simp_all)
  moreover have "length (?B @ take t (drop temp p)) = 8 + t" using lB assms(10) by simp
  ultimately have E: "EncryptBlk TYPE(32) c (take ?n m @ ?B @ take t (drop temp p)) = (out @ o1 @ o2, c3)"
    by (intro EncryptBlk_append [OF assms(1) _ _ r(1)]) (use assms(3,4,9) in \<open>simp_all add: min_absorb2\<close>)
  have f: "fed (length (m @ p)) = length m + temp + t" using assms(3,5,6,8) by simp
  have T: "take ?n m @ ?B @ take t (drop temp p) = take (fed (length (m @ p))) (m @ p)"
    unfolding f by (simp add: take_add [symmetric])
  have R: "R_memcpy ?B 0 rest = rest @ drop (length rest) ?B"
    using lB assms(11,15) by (simp add: R_memcpy_eq)
  define B' where "B' = R_memcpy ?B 0 rest"
  have lB': "length B' = 8" unfolding B'_def length_R_memcpy by (rule lB)
  have lr: "length (m @ p) - (length m + temp + t) = length rest" using assms(10,15) by simp
  have tk: "take (length rest) B' = drop (length m + temp + t) (m @ p)" 
  proof -
    have "take (length rest) B' = rest" unfolding B'_def R by simp
    also have "\<dots> = drop (length m + temp + t) (m @ p)" unfolding assms(15) by (simp add: add.commute)
    finally show ?thesis .
  qed
  show ?thesis
    unfolding env_rep_def f lr
    by (rule exI [of _ c3], rule exI [of _ B']) (use E T [unfolded f] 3(2) lB' tk in \<open>simp add: B'_def\<close>)
qed

lemma div8: "(8 * q + s) div 8 = q + s div (8 :: nat)"
  by simp

lemma seal_fed_cases:
  assumes "temp = 8 - (n - seal_fed n)"
  shows "k < temp \<Longrightarrow> seal_fed (n + k) = seal_fed n"
    and "temp \<le> k \<Longrightarrow> seal_fed (n + k) = seal_fed n + 8 + 8 * ((k - temp) div 8)"
proof -
  obtain q r where n: "n = 8 * q + r" "r < 8" by (metis mod_less_divisor mult_div_mod_eq zero_less_numeral)
  then have t: "temp = 8 - r" "seal_fed n = 8 * q" using assms by (simp_all add: seal_fed_def)
  show "k < temp \<Longrightarrow> seal_fed (n + k) = seal_fed n"
    using t n div8 [of q "r + k"] by (simp add: seal_fed_def add.assoc)
  show "seal_fed (n + k) = seal_fed n + 8 + 8 * ((k - temp) div 8)" if "temp \<le> k"
  proof -
    have e: "n + k = 8 * (q + 1) + (k - temp)" using that t n by simp
    show ?thesis unfolding t(2) unfolding e seal_fed_def div8 by simp
  qed
qed

lemma open_fed_cases:
  assumes "temp = 8 - (n - open_fed n)"
  shows "k \<le> temp \<Longrightarrow> open_fed (n + k) = open_fed n"
    and "temp < k \<Longrightarrow> open_fed (n + k) = open_fed n + 8 + 8 * ((k - temp - 1) div 8)"
proof -
  show "open_fed (n + k) = open_fed n" if k: "k \<le> temp"
  proof (cases n)
    case (Suc n')
    obtain q r where n: "n' = 8 * q + r" "r < 8" by (metis mod_less_divisor mult_div_mod_eq zero_less_numeral)
    then have "temp = 7 - r" using assms Suc by (simp add: open_fed_def)
    then show ?thesis using k n Suc div8 [of q "r + k"] by (simp add: open_fed_def add.assoc)
  qed (use k assms in \<open>simp add: open_fed_def\<close>)
  show "open_fed (n + k) = open_fed n + 8 + 8 * ((k - temp - 1) div 8)" if k: "temp < k"
  proof (cases n)
    case 0
    then have e: "temp = 8" "n + k - 1 = 8 * 1 + (k - temp - 1)" using k assms by (simp_all add: open_fed_def)
    show ?thesis unfolding open_fed_def e(2) div8 by (simp add: 0)
  next
    case (Suc n')
    obtain q r where n: "n' = 8 * q + r" "r < 8" by (metis mod_less_divisor mult_div_mod_eq zero_less_numeral)
    then have t: "temp = 7 - r" "open_fed n = 8 * q" using assms Suc by (simp_all add: open_fed_def)
    have e: "n + k - 1 = 8 * (q + 1) + (k - temp - 1)" using k t n Suc by simp
    show ?thesis unfolding t(2) unfolding open_fed_def e div8 by simp
  qed
qed

lemma R_SealUpdate_rep:
  assumes "env_alg (encryptionAlgorithm c)" "env_rep seal_fed c m out context" "R_SealUpdate TYPE(32) context p = (o1, context')"
  shows "env_rep seal_fed c (m @ p) (out @ o1) context'"
proof -
  let ?n = "seal_fed (length m)"
  define temp where "temp = 8 - (length m - ?n)"
  have bl: "env_bufferLen context = length m - ?n" using assms(2) by (auto simp: env_rep_def)
  note f = seal_fed_bounds [of "length m"] seal_fed_cases [OF temp_def, of "length p"]
  show ?thesis
  proof (cases "length p < temp")
    case True
    then have "o1 = []" "context' = context\<lparr>env_buffer := R_memcpy (env_buffer context) (env_bufferLen context) p,
        env_bufferLen := env_bufferLen context + length p\<rparr>"
      using assms(3) by (auto simp: R_SealUpdate_def temp_def bl Let_def)
    then show ?thesis using env_rep_store [OF assms(2), of p] f True by (simp add: temp_def)
  next
    case False
    define t where "t = 8 * ((length p - temp) div 8)"
    define context1 where "context1 = context\<lparr>env_buffer := R_memcpy (env_buffer context) (env_bufferLen context) (take temp p)\<rparr>"
    obtain x context2 where 2: "EncryptBlk TYPE(32) context1 (env_buffer context1) = (x, context2)" by force
    obtain y context3 where 3: "EncryptBlk TYPE(32) context2 (take t (drop temp p)) = (y, context3)" by force
    have e: "o1 = x @ y" "context' = context3\<lparr>env_buffer := R_memcpy (env_buffer context3) 0 (drop t (drop temp p)),
        env_bufferLen := length (drop t (drop temp p))\<rparr>"
      using assms(3) False 2 3 unfolding R_SealUpdate_def Let_def bl temp_def [symmetric] context1_def t_def
      by (auto simp: bl)
    have "t \<le> length p - temp" "length p - temp - t < 8" "t mod 8 = 0" unfolding t_def by simp_all
    then have "temp + t \<le> length p" "length p - (temp + t) \<le> 8" "t mod 8 = 0" using False by linarith+
    then show ?thesis unfolding e
      by (intro env_rep_encrypt [OF assms(1,2) f(1,3) _ temp_def _ _ _ _ _ context1_def 2 3 refl])
        (use f(2,5) False in \<open>simp_all add: t_def\<close>)
  qed
qed

lemma R_OpenUpdate_rep:
  assumes "env_alg (encryptionAlgorithm c)" "env_rep open_fed c m out context" "R_OpenUpdate TYPE(32) context p = (o1, context')"
  shows "env_rep open_fed c (m @ p) (out @ o1) context'"
proof -
  let ?n = "open_fed (length m)"
  define temp where "temp = 8 - (length m - ?n)"
  have bl: "env_bufferLen context = length m - ?n" using assms(2) by (auto simp: env_rep_def)
  note f = open_fed_bounds [of "length m"] open_fed_cases [OF temp_def, of "length p"]
  show ?thesis
  proof (cases "length p \<le> temp")
    case True
    then have "o1 = []" "context' = context\<lparr>env_buffer := R_memcpy (env_buffer context) (env_bufferLen context) p,
        env_bufferLen := env_bufferLen context + length p\<rparr>"
      using assms(3) by (auto simp: R_OpenUpdate_def temp_def bl Let_def)
    then show ?thesis using env_rep_store [OF assms(2), of p] f True by (simp add: temp_def)
  next
    case False
    define t where "t = 8 * ((length p - temp - 1) div 8)"
    define context1 where "context1 = context\<lparr>env_buffer := R_memcpy (env_buffer context) (env_bufferLen context) (take temp p)\<rparr>"
    obtain x context2 where 2: "EncryptBlk TYPE(32) context1 (env_buffer context1) = (x, context2)" by force
    obtain y context3 where 3: "EncryptBlk TYPE(32) context2 (take t (drop temp p)) = (y, context3)" by force
    have e: "o1 = x @ y" "context' = context3\<lparr>env_buffer := R_memcpy (env_buffer context3) 0 (drop t (drop temp p)),
        env_bufferLen := length (drop t (drop temp p))\<rparr>"
      using assms(3) False 2 3 unfolding R_OpenUpdate_def Let_def bl temp_def [symmetric] context1_def t_def
      by (auto simp: bl)
    have "t \<le> length p - temp - 1" "length p - temp - 1 - t < 8" "t mod 8 = 0" unfolding t_def by simp_all
    then have "temp + t \<le> length p" "length p - (temp + t) \<le> 8" "t mod 8 = 0" using False by linarith+
    then show ?thesis unfolding e
      by (intro env_rep_encrypt [OF assms(1,2) f(1,3) f(2) temp_def _ _ _ _ _ context1_def 2 3 refl])
        (use f(5) False in \<open>simp_all add: t_def\<close>)
  qed
qed

section \<open>The end of a message\<close>

definition pkcs_pad :: "byte list \<Rightarrow> byte list" where
  "pkcs_pad m = m @ replicate (8 - length m mod 8) (of_nat (8 - length m mod 8))"

lemma length_pkcs_pad: "length (pkcs_pad m) = 8 * (length m div 8) + 8"
proof -
  have "length m = 8 * (length m div 8) + length m mod 8" "length m mod 8 < 8" by simp_all
  then show ?thesis unfolding pkcs_pad_def length_append length_replicate by linarith
qed

lemma length_des_loop:
  assumes "\<And>c b. length (fst (step c b)) = 8"
  shows "length (fst (des_loop step c input)) = 8 * (length input div 8)"
proof (induction "length input" arbitrary: input c rule: less_induct)
  case less
  show ?case
  proof (cases "length input < 8")
    case False
    then have *: "length (drop 8 input) < length input" by simp
    obtain o1 c1 o2 c2 where e: "step c (take 8 input) = (o1, c1)" "des_loop step c1 (drop 8 input) = (o2, c2)" by (meson surj_pair)
    have "length input div 8 = length (drop 8 input) div 8 + 1" using False by (simp add: div_if)
    then show ?thesis using False less [OF *, of c1] assms [of c "take 8 input"] e
      by (simp add: des_loop.simps [of step c input])
  qed (simp add: des_loop.simps)
qed

lemma length_EncryptBlk:
  assumes "env_alg (encryptionAlgorithm c)" "length input mod 8 = 0" "EncryptBlk TYPE('l :: len) c input = (out, c')"
  shows "length out = length input"
proof -
  have l: "8 * (length input div 8) = length input" using assms(2) by auto
  have d: "length (fst (des_loop (des_cbc_step TYPE('l)) (u_des c) input)) = length input"
    by (subst length_des_loop) (simp_all add: des_cbc_step_def Let_def l)
  have x: "length (fst (des_loop (desx_cbc_step TYPE('l)) (u_desx c) input)) = length input"
    by (subst length_des_loop) (simp_all add: desx_cbc_step_def Let_def l)
  have t: "length (fst (des_loop (des3_cbc_step TYPE('l)) (u_des3 c) input)) = length input"
    by (subst length_des_loop) (simp_all add: des3_cbc_step_def Let_def l split: prod.split)
  from d x t show ?thesis using assms
    by (auto simp: EncryptBlk_def env_alg_def DES_CBCUpdate_def DESX_CBCUpdate_def DES3_CBCUpdate_def Let_def
        split: if_splits prod.splits)
qed

lemma RestartCipher_buffer:
  "RestartCipher (c\<lparr>env_buffer := b, env_bufferLen := n\<rparr>) = (RestartCipher c)\<lparr>env_buffer := b, env_bufferLen := n\<rparr>"
  by (simp add: RestartCipher_def Let_def)

lemma env_rel_buffer [simp]:
  "env_rel (c\<lparr>env_buffer := b, env_bufferLen := n\<rparr>) d = env_rel c d"
  "env_rel c (d\<lparr>env_buffer := b, env_bufferLen := n\<rparr>) = env_rel c d"
  by (simp_all add: env_rel_def)

lemma env_rel_restart: "env_rel c d \<Longrightarrow> env_rel (RestartCipher c) (RestartCipher d)"
  by (auto simp: env_rel_def RestartCipher_def Let_def EA_defs des_rel_def desx_rel_def des3_rel_def
      DES_CBCRestart_def DESX_CBCRestart_def DES3_CBCRestart_def)

lemma R_SealFinal_rep:
  assumes "env_alg (encryptionAlgorithm c)" "env_rep seal_fed c m out context" "R_SealFinal TYPE(32) context = (o1, context')"
  obtains c' buffer where "EncryptBlk TYPE(32) c (pkcs_pad m) = (out @ o1, c')" "length buffer = 8"
    "context' = (RestartCipher c')\<lparr>env_buffer := buffer, env_bufferLen := 0\<rparr>"
proof -
  let ?n = "seal_fed (length m)"
  obtain c1 buffer where r: "EncryptBlk TYPE(32) c (take ?n m) = (out, c1)" "length buffer = 8"
    "context = c1\<lparr>env_buffer := buffer, env_bufferLen := length m - ?n\<rparr>" "take (length m - ?n) buffer = drop ?n m"
    using assms(2) by (rule env_repD)
  have k: "length m - ?n = length m mod 8" by (simp add: seal_fed_def minus_mult_div_eq_mod)
  let ?k = "8 - length m mod 8"
  let ?B = "drop ?n m @ replicate ?k (of_nat ?k)"
  have lm: "length (drop ?n m) = length m mod 8" using k by simp
  have B: "R_memset buffer (length m - ?n) (of_nat ?k) ?k = ?B"
    using r(2,4) unfolding R_memset_eq k by (simp add: R_memcpy_eq)
  have lB: "length ?B = 8" using lm by (simp del: length_drop)
  have F: "R_SealFinal TYPE(32) context =
      (case EncryptBlk TYPE(32) (c1\<lparr>env_buffer := ?B, env_bufferLen := length m - ?n\<rparr>) ?B of (out, context) \<Rightarrow>
         (out, (RestartCipher context)\<lparr>env_bufferLen := 0\<rparr>))"
    using B unfolding R_SealFinal_def r(3) Let_def k by (simp add: env_swap)
  obtain c' where 2: "EncryptBlk TYPE(32) c1 ?B = (o1, c')" "context' = (RestartCipher c')\<lparr>env_buffer := ?B, env_bufferLen := 0\<rparr>"
    using assms(3) unfolding F EncryptBlk_buffer by (cases "EncryptBlk TYPE(32) c1 ?B") (auto simp: RestartCipher_buffer)
  have "EncryptBlk TYPE(32) c (take ?n m @ ?B) = (out @ o1, c')"
    by (rule EncryptBlk_append [OF assms(1) _ _ r(1) 2(1)]) (use lB seal_fed_bounds [of "length m"] in \<open>simp_all add: min_absorb2\<close>)
  moreover have "take ?n m @ ?B = pkcs_pad m" by (simp add: pkcs_pad_def append_assoc [symmetric] del: append_assoc)
  ultimately show ?thesis using that [OF _ lB 2(2)] by simp
qed

lemma env_PADDING_nth: "k < 9 \<Longrightarrow> env_PADDING ! k = replicate k (of_nat k)"
  by (auto simp: env_PADDING_def less_Suc_eq numeral_eq_Suc)

lemma R_OpenFinal_rep:
  assumes "env_alg (encryptionAlgorithm d)" "env_rep open_fed d s out context"
    and "EncryptBlk TYPE(32) d s = (pkcs_pad m, d')" "length s = length (pkcs_pad m)"
  obtains o1 buffer where "out @ o1 = m" "length buffer = 8"
    "R_OpenFinal TYPE(32) context = (Inr o1, (RestartCipher d')\<lparr>env_buffer := buffer, env_bufferLen := 0\<rparr>)"
proof -
  let ?n = "open_fed (length s)"
  obtain d1 buffer where r: "EncryptBlk TYPE(32) d (take ?n s) = (out, d1)" "length buffer = 8"
    "context = d1\<lparr>env_buffer := buffer, env_bufferLen := length s - ?n\<rparr>" "take (length s - ?n) buffer = drop ?n s"
    using assms(2) by (rule env_repD)
  define q where "q = 8 * (length m div 8)"
  have ls: "length s = q + 8" "q mod 8 = 0" using assms(4) by (simp_all add: length_pkcs_pad q_def)
  have "?n = 8 * ((8 * (length m div 8) + 7) div 8)" unfolding open_fed_def ls(1) q_def by simp
  also have "\<dots> = q" unfolding div8 q_def by simp
  finally have n: "?n = q" .
  have b: "buffer = drop q s" using r(2,4) n ls by simp
  have lo: "length out = q" using length_EncryptBlk [OF assms(1) _ r(1)] n ls by simp
  have a1: "env_alg (encryptionAlgorithm d1)" using EncryptBlk_keeps [OF r(1)] assms(1) by simp
  obtain o2 d2 where 2: "EncryptBlk TYPE(32) d1 buffer = (o2, d2)" by force
  have "EncryptBlk TYPE(32) d (take q s @ buffer) = (out @ o2, d2)"
    by (rule EncryptBlk_append [OF assms(1) _ _ r(1) [unfolded n] 2]) (use r(2) ls in simp_all)
  then have e: "out @ o2 = pkcs_pad m" "d2 = d'" using assms(3) by (simp_all add: b)
  have "length o2 = 8" using length_EncryptBlk [OF a1 _ 2] r(2) by simp
  define k where "k = 8 - length m mod 8"
  have k: "0 < k" "k \<le> 8" "length m = q + (8 - k)" by (simp_all add: k_def q_def)
  have m: "out = take q m" "o2 = drop q m @ replicate k (of_nat k)"
    using e(1) lo k(3) unfolding pkcs_pad_def k_def [symmetric] by (auto simp: append_eq_append_conv_if)
  have u: "unat (of_nat k :: byte) = k" using k(2) by (simp add: unat_of_nat take_bit_nat_eq_self)
  have "\<not> 7 < 8 - k" using k(1) by linarith
  then have l7: "o2 ! 7 = of_nat k" using k unfolding m(2) by (simp add: nth_append)
  have tl: "drop (8 - k) o2 = replicate k (of_nat k)" "take (8 - k) o2 = drop q m" using k unfolding m(2) by simp_all
  have pad: "env_PADDING ! k = replicate k (of_nat k)" using k(2) by (simp add: env_PADDING_nth)
  have "R_OpenFinal TYPE(32) context = (Inr (drop q m), (RestartCipher d')\<lparr>env_buffer := buffer, env_bufferLen := 0\<rparr>)"
    using ls(1) k(1,2) unfolding r(3) R_OpenFinal_def n
    by (simp add: EncryptBlk_buffer 2 l7 u tl pad R_memcmp_0 e(2) RestartCipher_buffer Let_def)
  moreover have "out @ drop q m = m" by (simp add: m(1))
  ultimately show ?thesis using that r(2) by blast
qed

section \<open>Envelopes\<close>

text \<open>A message passed in parts: the outputs one behind the other and the context at the end.\<close>

fun env_parts ::
  "(r_envelope_ctx \<Rightarrow> byte list \<Rightarrow> byte list \<times> r_envelope_ctx) \<Rightarrow> r_envelope_ctx \<Rightarrow> byte list list \<Rightarrow> byte list \<times> r_envelope_ctx" where
  "env_parts upd context [] = ([], context)"
| "env_parts upd context (p # ps) =
     (case upd context p of (o1, context) \<Rightarrow> case env_parts upd context ps of (o2, context) \<Rightarrow> (o1 @ o2, context))"

lemma env_parts_rep:
  assumes "\<And>m out context p o1 context'. env_rep fed c m out context \<Longrightarrow> upd context p = (o1, context') \<Longrightarrow>
    env_rep fed c (m @ p) (out @ o1) context'"
  shows "env_rep fed c m out context \<Longrightarrow> env_parts upd context ps = (o1, context') \<Longrightarrow>
    env_rep fed c (m @ concat ps) (out @ o1) context'"
proof (induction ps arbitrary: m out "context" o1)
  case (Cons p ps)
  obtain x c1 y where "upd context p = (x, c1)" "env_parts upd c1 ps = (y, context')" "o1 = x @ y"
    using Cons.prems(2) by (auto split: prod.splits)
  then show ?case using Cons.IH [OF assms [OF Cons.prems(1)]] by fastforce
qed simp

definition env_ready :: "r_envelope_ctx \<Rightarrow> bool" where
  "env_ready context \<longleftrightarrow> length (env_buffer context) = 8 \<and> env_bufferLen context = 0"

lemma env_rep_start: "env_ready c \<Longrightarrow> fed 0 = 0 \<Longrightarrow> env_rep fed c [] [] c"
  unfolding env_rep_def by (rule exI [of _ c], rule exI [of _ "env_buffer c"]) (simp add: env_ready_def EncryptBlk_Nil)

lemma env_roundtrip:
  assumes "env_rel c d" "env_ready c" "env_ready d"
    and "env_parts (R_SealUpdate TYPE(32)) c ps = (o1, c1)" "R_SealFinal TYPE(32) c1 = (o2, c2)"
    and "env_parts (R_OpenUpdate TYPE(32)) d qs = (p1, d1)" "concat qs = o1 @ o2"
  obtains p2 d2 where "R_OpenFinal TYPE(32) d1 = (Inr p2, d2)" "p1 @ p2 = concat ps" "env_rel c2 d2" "env_ready c2" "env_ready d2"
    "length (o1 @ o2) = 8 * (length (concat ps) div 8) + 8"
proof -
  have a: "env_alg (encryptionAlgorithm c)" "env_alg (encryptionAlgorithm d)" using assms(1) by (auto simp: env_rel_def)
  have "env_rep seal_fed c ([] @ concat ps) ([] @ o1) c1"
    by (rule env_parts_rep [OF _ env_rep_start [OF assms(2)] assms(4)]) (auto simp: seal_fed_def intro: R_SealUpdate_rep [OF a(1)])
  then have s: "env_rep seal_fed c (concat ps) o1 c1" by simp
  obtain c' b where 1: "EncryptBlk TYPE(32) c (pkcs_pad (concat ps)) = (o1 @ o2, c')" "length b = 8"
    "c2 = (RestartCipher c')\<lparr>env_buffer := b, env_bufferLen := 0\<rparr>"
    by (rule R_SealFinal_rep [OF a(1) s assms(5)])
  have "env_rep open_fed d ([] @ concat qs) ([] @ p1) d1"
    by (rule env_parts_rep [OF _ env_rep_start [OF assms(3)] assms(6)]) (auto simp: open_fed_def intro: R_OpenUpdate_rep [OF a(2)])
  then have 2: "env_rep open_fed d (o1 @ o2) p1 d1" using assms(7) by simp
  have l: "length (pkcs_pad (concat ps)) mod 8 = 0" by (simp add: length_pkcs_pad)
  obtain d' where 3: "length (o1 @ o2) = length (pkcs_pad (concat ps))" "EncryptBlk TYPE(32) d (o1 @ o2) = (pkcs_pad (concat ps), d')"
    "env_rel c' d'" using assms(1) l 1(1) by (rule EncryptBlk_inverse)
  obtain p2 b' where 4: "p1 @ p2 = concat ps" "length b' = 8"
    "R_OpenFinal TYPE(32) d1 = (Inr p2, (RestartCipher d')\<lparr>env_buffer := b', env_bufferLen := 0\<rparr>)"
    by (rule R_OpenFinal_rep [OF a(2) 2 3(2,1)])
  show ?thesis
    by (rule that [OF 4(3,1)]) (use 1(2,3) 3(1) 4(2) env_rel_restart [OF 3(3)] in \<open>simp_all add: env_ready_def length_pkcs_pad\<close>)
qed

lemma RSAPublicEncrypt_back:
  assumes ok: "rsa_keys_ok pub prv" and e: "RSAPublicEncrypt input pub random = Some (Inr out, random')" and ne: "input \<noteq> []"
  shows "RSAPrivateDecrypt out prv = Some (Inr input) \<and> length out = rsa_len prv"
proof -
  have L: "(pub_bits pub + 7) div 8 = rsa_len prv" using ok by (simp add: rsa_keys_ok_def rsa_len_def)
  have "length input + 11 \<le> rsa_len prv" "R_GetRandomBytesNeeded random = 0"
    using e unfolding RSAPublicEncrypt_def Let_def L by (auto split: if_splits)
  moreover from this obtain ps where "rsa_random_pad (rsa_len prv - length input - 3) random = Some (ps, random')"
    using e unfolding RSAPublicEncrypt_def Let_def L
    by (cases "rsa_random_pad (rsa_len prv - length input - 3) random") (auto simp: numeral_3_eq_3 split: bind_splits)
  ultimately show ?thesis using RSAPublicEncrypt_ok [OF ok, of input random ps random'] e ne by auto
qed

lemma seal_keys_nth:
  "seal_keys key pks random = Some (Inr ks, random') \<Longrightarrow>
     length ks = length pks \<and> (\<forall>i < length pks. \<exists>r r'. RSAPublicEncrypt key (pks ! i) r = Some (Inr (ks ! i), r'))"
proof (induction pks arbitrary: random ks)
  case (Cons pk pks)
  obtain k r1 r where "RSAPublicEncrypt key pk random = Some (Inr k, r1)" "seal_keys key pks r1 = Some (r, random')"
    "map_sum id (\<lambda>ks. k # ks) r = Inr ks"
    using Cons.prems by (auto split: bind_splits sum.splits)
  moreover from this obtain ks1 where "r = Inr ks1" "ks = k # ks1" by (cases r) auto
  ultimately have "RSAPublicEncrypt key pk random = Some (Inr k, r1)" "seal_keys key pks r1 = Some (Inr ks1, random')" "ks = k # ks1"
    by simp_all
  with Cons.IH show ?case by (fastforce simp: nth_Cons split: nat.splits)
qed simp

lemma CipherInit_rel:
  assumes "CipherInit c ea key iv True = (ID_OK, c')" "CipherInit d ea key iv False = (s, d')"
    "encryptionAlgorithm c = ea" "encryptionAlgorithm d = ea"
  shows "s = ID_OK" "env_rel c' d'"
proof -
  show "s = ID_OK" using assms(1,2) by (auto simp: CipherInit_def ID_OK_def RE_ENCRYPTION_ALGORITHM_def split: if_splits)
  show "env_rel c' d'" using assms des_rel_init desx_rel_init des3_rel_init
    by (auto simp: CipherInit_def env_rel_def env_alg_def ID_OK_def RE_ENCRYPTION_ALGORITHM_def EA_defs split: if_splits)
qed

text \<open>What the two initialisations leave behind.\<close>

lemma length_R_GenerateBytes:
  "rnd_ok r \<Longrightarrow> R_GenerateBytes n r = (0, bs, r') \<Longrightarrow> length bs = n \<and> rnd_ok r'"
  using rnd_loop_props [of r "outputAvailable r" n "[]" bs r']
  by (auto simp: R_GenerateBytes_def rnd_ok_def RE_NEED_RANDOM_def split: if_splits prod.splits)

lemma R_SealInit_ok:
  assumes "R_SealInit c pks ea random = Some (Inr (keys, iv), c', random')" "rnd_ok random"
  obtains key c1 r r' where "CipherInit (c\<lparr>encryptionAlgorithm := ea\<rparr>) ea key iv True = (ID_OK, c1)"
    "seal_keys key pks r = Some (Inr keys, r')" "c' = c1\<lparr>env_bufferLen := 0\<rparr>" "length key = (if ea = EA_DES_CBC then 8 else 24)"
proof -
  obtain s1 k r1 where 1: "R_GenerateBytes (if ea = EA_DES_CBC then 8 else 24) random = (s1, k, r1)" by (metis prod_cases3)
  obtain s2 v r2 where 2: "R_GenerateBytes 8 r1 = (s2, v, r2)" by (metis prod_cases3)
  let ?k = "if ea = EA_DES_EDE2_CBC then R_memcpy k 16 (take 8 k) else k"
  obtain s3 c1 where 3: "CipherInit (c\<lparr>encryptionAlgorithm := ea\<rparr>) ea ?k v True = (s3, c1)" by force
  have s: "s1 = 0" "s2 = 0" "s3 = 0"
    using assms(1) unfolding R_SealInit_def Let_def 1 2 3 prod.case by (auto simp: 2 3 split: if_splits)
  have l: "length k = (if ea = EA_DES_CBC then 8 else 24)" using length_R_GenerateBytes [OF assms(2)] 1 s by blast
  have "v = iv" "c' = c1\<lparr>env_bufferLen := 0\<rparr>" "\<exists>r'. seal_keys ?k pks r2 = Some (Inr keys, r')"
    using assms(1) unfolding R_SealInit_def Let_def 1 2 3 s prod.case by (auto simp: 2 3 s split: bind_splits sum.splits)
  then show ?thesis using that [of ?k c1 r2] 3 s l by (auto simp: ID_OK_def)
qed

text \<open>What the two initialisations leave behind.\<close>

lemma R_SealInit_OpenInit:
  assumes "R_SealInit c pks ea random = Some (Inr (keys, iv), c', random')" "rnd_ok random"
    "i < length pks" "rsa_keys_ok (pks ! i) prv" "length (env_buffer c) = 8" "length (env_buffer d) = 8"
  obtains d' where "R_OpenInit d ea (keys ! i) iv prv = Some (ID_OK, d')" "env_rel c' d'" "env_ready c'" "env_ready d'"
proof -
  obtain key c1 r r' where 1: "CipherInit (c\<lparr>encryptionAlgorithm := ea\<rparr>) ea key iv True = (ID_OK, c1)"
    "seal_keys key pks r = Some (Inr keys, r')" "c' = c1\<lparr>env_bufferLen := 0\<rparr>" "length key = (if ea = EA_DES_CBC then 8 else 24)"
    using assms(1,2) by (rule R_SealInit_ok)
  obtain s d1 where 2: "CipherInit (d\<lparr>encryptionAlgorithm := ea\<rparr>) ea key iv False = (s, d1)" by force
  have 3: "s = ID_OK" "env_rel c1 d1" using CipherInit_rel [OF 1(1) 2] by simp_all
  have "key \<noteq> []" using 1(4) by (auto split: if_splits)
  then have 4: "RSAPrivateDecrypt (keys ! i) prv = Some (Inr key)" "length (keys ! i) = rsa_len prv"
    using seal_keys_nth [OF 1(2)] assms(3) RSAPublicEncrypt_back [OF assms(4)] by blast+
  have "rsa_private_ok prv" using assms(4) by (simp add: rsa_keys_ok_def)
  then have l: "\<not> length (keys ! i) > MAX_ENCRYPTED_KEY_LEN"
    using rsa_len_bounds(3) [of prv] 4(2) by (simp add: MAX_ENCRYPTED_KEY_LEN_def MAX_RSA_MODULUS_LEN_def)
  have b: "env_buffer c1 = env_buffer c" "env_buffer d1 = env_buffer d"
    using 1(1) 2 by (auto simp: CipherInit_def split: if_splits)
  have "R_OpenInit d ea (keys ! i) iv prv = Some (ID_OK, d1\<lparr>env_bufferLen := 0\<rparr>)"
    using l 1(4) 2 3(1) 4(1) by (cases "ea = EA_DES_CBC") (simp_all add: R_OpenInit_def ID_OK_def)
  then show ?thesis using that 3(2) b assms(5,6) 1(3) by (auto simp: env_ready_def env_rel_def)
qed

text \<open>
  C40. Where \<^verbatim>\<open>unsigned long\<close> has four bytes, a digital envelope opens: when a message is sealed for several recipients in parts of any lengths, with any
  of the four ciphers, and the sealed data reaches a recipient in parts of any lengths, opening with the
  private key and the encrypted key of that recipient succeeds and gives back the message. The sealed
  data is the message padded to whole blocks, and both contexts are ready for another message.
\<close>

theorem R_Seal_Open:
  assumes "R_SealInit c pks ea random = Some (Inr (keys, iv), c0, random')" "rnd_ok random"
    and "i < length pks" "rsa_keys_ok (pks ! i) prv" "length (env_buffer c) = 8" "length (env_buffer d) = 8"
    and "env_parts (R_SealUpdate TYPE(32)) c0 ps = (o1, c1)" "R_SealFinal TYPE(32) c1 = (o2, c2)" "concat qs = o1 @ o2"
  shows "\<exists>d0 p1 d1 p2 d2. R_OpenInit d ea (keys ! i) iv prv = Some (ID_OK, d0)
     \<and> env_parts (R_OpenUpdate TYPE(32)) d0 qs = (p1, d1) \<and> R_OpenFinal TYPE(32) d1 = (Inr p2, d2)
     \<and> p1 @ p2 = concat ps \<and> length (o1 @ o2) = 8 * (length (concat ps) div 8) + 8
     \<and> env_rel c2 d2 \<and> env_ready c2 \<and> env_ready d2"
proof -
  obtain d0 where d0: "R_OpenInit d ea (keys ! i) iv prv = Some (ID_OK, d0)" "env_rel c0 d0" "env_ready c0" "env_ready d0"
    using assms(1-6) by (rule R_SealInit_OpenInit)
  obtain p1 d1 where 1: "env_parts (R_OpenUpdate TYPE(32)) d0 qs = (p1, d1)" by force
  obtain p2 d2 where "R_OpenFinal TYPE(32) d1 = (Inr p2, d2)" "p1 @ p2 = concat ps" "env_rel c2 d2" "env_ready c2" "env_ready d2"
    "length (o1 @ o2) = 8 * (length (concat ps) div 8) + 8"
    by (rule env_roundtrip [OF d0(2-4) assms(7,8) 1 assms(9)])
  with d0(1) 1 show ?thesis by blast
qed

section \<open>An example\<close>

text \<open>A key of the smallest length that encrypts eight bytes, with the exponents one.\<close>

definition tiny_private :: r_rsa_private_key where
  "tiny_private = \<lparr>prv_bits = 152, prv_modulus = be_bytes 128 (2 ^ 76 * (2 ^ 76 - 1)),
     prv_publicExponent = be_bytes 128 1, prv_exponent = be_bytes 128 1,
     prv_prime0 = be_bytes 64 (2 ^ 76), prv_prime1 = be_bytes 64 (2 ^ 76 - 1),
     prv_primeExponent0 = be_bytes 64 1, prv_primeExponent1 = be_bytes 64 1, prv_coefficient = be_bytes 64 (2 ^ 76 - 1)\<rparr>"

definition tiny_public :: r_rsa_public_key where
  "tiny_public = \<lparr>pub_bits = 152, pub_modulus = be_bytes 128 (2 ^ 76 * (2 ^ 76 - 1)), pub_exponent = be_bytes 128 1\<rparr>"

lemma tiny_values:
  "rsa_n tiny_private = 2 ^ 76 * (2 ^ 76 - 1)" "rsa_p tiny_private = 2 ^ 76" "rsa_q tiny_private = 2 ^ 76 - 1"
  "rsa_dP tiny_private = 1" "rsa_dQ tiny_private = 1" "rsa_qInv tiny_private = 2 ^ 76 - 1"
  "rsa_e tiny_public = 1" "prv_bits tiny_private = 152" "rsa_len tiny_private = 19"
  by (simp_all add: rsa_n_def rsa_p_def rsa_q_def rsa_dP_def rsa_dQ_def rsa_qInv_def rsa_e_def rsa_len_def
      tiny_private_def tiny_public_def be_val_be_bytes)

lemma tiny_keys_ok: "rsa_keys_ok tiny_public tiny_private"
proof -
  have "rsa_key_sizes tiny_private" by (simp add: rsa_key_sizes_def tiny_private_def rsa_lens)
  then have "rsa_private_ok tiny_private" by (simp add: rsa_private_ok_def tiny_values)
  then show ?thesis unfolding rsa_keys_ok_def tiny_values
    by (simp add: tiny_public_def tiny_private_def rsa_lens)
qed

definition tiny_random :: r_random_struct where
  "tiny_random = \<lparr>bytesNeeded = 0, rnd_state = replicate 16 0, outputAvailable = 16,
     rnd_output = [1, 2, 3, 4, 5, 6, 7, 8, 9, 10, 11, 12, 13, 14, 15, 16]\<rparr>"

lemma tiny_refill_output: "rnd_output (rnd_refill tiny_random)
    = [0x4a, 0xe7, 0x13, 0x36, 0xe4, 0x4b, 0xf9, 0xbf, 0x79, 0xd2, 0x75, 0x2e, 0x23, 0x48, 0x18, 0xa5]"
  unfolding tiny_random_def by code_simp

text \<open>Padding from bytes at hand that are not zero, and with a new block of output when there are none.\<close>

lemma rsa_random_pad_at:
  assumes "bytesNeeded r = 0" "length (rnd_output r) = 16" "0 \<notin> set (rnd_output r)"
  shows "k \<le> n \<Longrightarrow> n \<le> 16 \<Longrightarrow>
    rsa_random_pad k (r\<lparr>outputAvailable := n\<rparr>) = Some (take k (drop (16 - n) (rnd_output r)), r\<lparr>outputAvailable := n - k\<rparr>)"
proof (induction k arbitrary: n)
  case (Suc k)
  have i: "16 - n < 16" "16 - (n - 1) = Suc (16 - n)" using Suc.prems by auto
  have d: "drop (16 - n) (rnd_output r) = rnd_output r ! (16 - n) # drop (16 - (n - 1)) (rnd_output r)"
    using i assms(2) by (simp add: Cons_nth_drop_Suc)
  have nz: "rnd_output r ! (16 - n) \<noteq> 0" using assms(2,3) i by (metis nth_mem)
  have "R_GenerateBytes 1 (r\<lparr>outputAvailable := n\<rparr>) = (ID_OK, [rnd_output r ! (16 - n)], r\<lparr>outputAvailable := n - 1\<rparr>)"
    using Suc.prems assms(1) d by (simp add: R_GenerateBytes_def rnd_loop.simps)
  then have "rsa_random_byte (r\<lparr>outputAvailable := n\<rparr>) = Some (rnd_output r ! (16 - n), r\<lparr>outputAvailable := n - 1\<rparr>)"
    using nz by (subst rsa_random_byte.simps) simp
  then show ?case using Suc.IH [of "n - 1"] Suc.prems d by simp
qed simp

lemma rsa_random_pad_refill:
  assumes "bytesNeeded r = 0"
  shows "rsa_random_pad (Suc k) (r\<lparr>outputAvailable := 0\<rparr>) = rsa_random_pad (Suc k) ((rnd_refill r)\<lparr>outputAvailable := 16\<rparr>)"
proof -
  have "rnd_refill (r\<lparr>outputAvailable := 0\<rparr>) = (rnd_refill r)\<lparr>outputAvailable := 0\<rparr>" "bytesNeeded (rnd_refill r) = 0"
    using assms by (simp_all add: rnd_refill_def)
  then have "R_GenerateBytes 1 (r\<lparr>outputAvailable := 0\<rparr>) = R_GenerateBytes 1 ((rnd_refill r)\<lparr>outputAvailable := 16\<rparr>)"
    using assms by (simp add: R_GenerateBytes_def rnd_loop.simps [of _ 0] rnd_loop_avail_field)
  then have "rsa_random_byte (r\<lparr>outputAvailable := 0\<rparr>) = rsa_random_byte ((rnd_refill r)\<lparr>outputAvailable := 16\<rparr>)"
    by (subst (1 2) rsa_random_byte.simps) simp
  then show ?thesis by simp
qed

lemma tiny_seal_keys:
  "length key = 8 \<Longrightarrow> \<exists>k r'. seal_keys key [tiny_public] (tiny_random\<lparr>outputAvailable := 0\<rparr>) = Some (Inr [k], r')"
proof -
  assume l: "length key = 8"
  let ?r = "rnd_refill tiny_random"
  have n: "bytesNeeded tiny_random = 0" by (simp add: tiny_random_def)
  have "rsa_random_pad 8 (tiny_random\<lparr>outputAvailable := 0\<rparr>) = rsa_random_pad 8 (?r\<lparr>outputAvailable := 16\<rparr>)"
    using rsa_random_pad_refill [OF n, of 7] by (simp add: numeral_eq_Suc)
  also have "\<dots> = Some (take 8 (rnd_output ?r), ?r\<lparr>outputAvailable := 8\<rparr>)"
    by (subst rsa_random_pad_at) (simp_all add: tiny_refill_output, simp add: rnd_refill_def n)
  finally have "rsa_random_pad (rsa_len tiny_private - length key - 3) (tiny_random\<lparr>outputAvailable := 0\<rparr>)
      = Some (take 8 (rnd_output ?r), ?r\<lparr>outputAvailable := 8\<rparr>)" by (simp add: tiny_values l)
  then have "\<exists>out r'. RSAPublicEncrypt key tiny_public (tiny_random\<lparr>outputAvailable := 0\<rparr>) = Some (Inr out, r')"
    using RSAPublicEncrypt_ok [OF tiny_keys_ok, of key "tiny_random\<lparr>outputAvailable := 0\<rparr>"] l
    by (auto simp: tiny_values R_GetRandomBytesNeeded_def n)
  then show ?thesis by auto
qed

definition tiny_env :: r_envelope_ctx where
  "tiny_env = \<lparr>encryptionAlgorithm = 0, u_des = DES_CBCInit (replicate 8 0) (replicate 8 0) True,
     u_des3 = DES3_CBCInit (replicate 24 0) (replicate 8 0) True, u_desx = DESX_CBCInit (replicate 24 0) (replicate 8 0) True,
     env_buffer = replicate 8 0, env_bufferLen = 0\<rparr>"

lemma tiny_seal:
  "\<exists>k iv c r'. R_SealInit tiny_env [tiny_public] EA_DES_CBC tiny_random = Some (Inr ([k], iv), c, r')"
proof -
  have g: "R_GenerateBytes 8 tiny_random = (0, [1, 2, 3, 4, 5, 6, 7, 8], tiny_random\<lparr>outputAvailable := 8\<rparr>)"
    "R_GenerateBytes 8 (tiny_random\<lparr>outputAvailable := 8\<rparr>) = (0, [9, 10, 11, 12, 13, 14, 15, 16], tiny_random\<lparr>outputAvailable := 0\<rparr>)"
    by (simp_all add: R_GenerateBytes_def tiny_random_def rnd_loop.simps ID_OK_def)
  show ?thesis using tiny_seal_keys [of "[1, 2, 3, 4, 5, 6, 7, 8]"]
    by (auto simp: R_SealInit_def g Let_def CipherInit_def EA_defs ID_OK_def simp del: seal_keys.simps)
qed

lemma R_Seal_Open_witness:
  "\<exists>k iv c0 r' o1 c1 o2 c2 d0 p1 d1 p2 d2. R_SealInit tiny_env [tiny_public] EA_DES_CBC tiny_random = Some (Inr ([k], iv), c0, r')
     \<and> env_parts (R_SealUpdate TYPE(32)) c0 [[1, 2], [3]] = (o1, c1) \<and> R_SealFinal TYPE(32) c1 = (o2, c2)
     \<and> R_OpenInit tiny_env EA_DES_CBC k iv tiny_private = Some (ID_OK, d0)
     \<and> env_parts (R_OpenUpdate TYPE(32)) d0 [o1 @ o2] = (p1, d1) \<and> R_OpenFinal TYPE(32) d1 = (Inr p2, d2) \<and> p1 @ p2 = [1, 2, 3]"
proof -
  obtain k iv c0 r' where 1: "R_SealInit tiny_env [tiny_public] EA_DES_CBC tiny_random = Some (Inr ([k], iv), c0, r')"
    using tiny_seal by blast
  obtain o1 c1 o2 c2 where 2: "env_parts (R_SealUpdate TYPE(32)) c0 [[1, 2], [3]] = (o1, c1)" "R_SealFinal TYPE(32) c1 = (o2, c2)"
    by (meson surj_pair)
  have "rnd_ok tiny_random" by (simp add: rnd_ok_def tiny_random_def)
  then have "\<exists>d0 p1 d1 p2 d2. R_OpenInit tiny_env EA_DES_CBC k iv tiny_private = Some (ID_OK, d0)
     \<and> env_parts (R_OpenUpdate TYPE(32)) d0 [o1 @ o2] = (p1, d1) \<and> R_OpenFinal TYPE(32) d1 = (Inr p2, d2) \<and> p1 @ p2 = [1, 2, 3]"
    using R_Seal_Open [OF 1 _ _ _ _ _ 2, of 0 tiny_private tiny_env "[o1 @ o2]"] tiny_keys_ok by (auto simp: tiny_env_def)
  with 1 2 show ?thesis by blast
qed

end
