(* ===== verification/R_PEM.thy ===== *)
theory R_PEM
  imports R_Envelope
begin

text \<open>
  The end of \<^verbatim>\<open>QBase/RSAEuro/r_enhanc.c\<close>: envelopes in printable form, groups of 24 bytes in 32 characters, and signed
  envelopes. Local arrays that the C code leaves uninitialised, the memory behind a block and the local variable \<^verbatim>\<open>status\<close>
  of \<^verbatim>\<open>R_DecryptOpenPEMBlock\<close>, which the code tests without having set it for short inputs, are arguments.
\<close>

section \<open>One envelope\<close>

text \<open>
  The loop over the whole groups of the input; \<open>part\<close> is the local array \<^verbatim>\<open>encryptedPart\<close>.
\<close>

fun pem_seal_loop ::
  "'l :: len itself \<Rightarrow> nat \<Rightarrow> byte list \<Rightarrow> r_envelope_ctx \<Rightarrow> byte list \<Rightarrow> byte list \<times> r_envelope_ctx \<times> byte list" where
  "pem_seal_loop L 0 input context part = ([], context, part)"
| "pem_seal_loop L (Suc n) input context part =
     (case R_SealUpdate L context (take 24 input) of (out, context) \<Rightarrow>
      let part = R_memcpy part 0 out
      in case pem_seal_loop L n (drop 24 input) context part of (rest, context, part') \<Rightarrow>
         (R_EncodePEMBlock part [] @ rest, context, part'))"

definition R_EncryptOpenPEMBlock ::
  "'l :: len itself \<Rightarrow> r_envelope_ctx \<Rightarrow> byte list \<Rightarrow> byte list \<Rightarrow> byte list \<times> r_envelope_ctx" where
  "R_EncryptOpenPEMBlock L context input part =
     (case pem_seal_loop L (length input div 24) input context part of (output, context, part) \<Rightarrow>
      case R_SealUpdate L context (drop (24 * (length input div 24)) input) of (out1, context) \<Rightarrow>
      case R_SealFinal L context of (out2, context) \<Rightarrow>
      let part = R_memcpy (R_memcpy part 0 out1) (length out1) out2;
          lastPartLen = length out1 + length out2
      in (output @ R_EncodePEMBlock (take lastPartLen part) (drop lastPartLen part), context))"

text \<open>
  What \<^verbatim>\<open>R_DecodePEMBlock\<close> stores for a block it accepts: three bytes for every four characters, also those that padding
  characters stand for.
\<close>

definition pem_written :: "byte list \<Rightarrow> byte list" where
  "pem_written inbuf = (case pem_decode_loop inbuf [] 0 of Inl _ \<Rightarrow> [] | Inr (outbuf, len) \<Rightarrow> outbuf)"

text \<open>
  The loop over the groups of 32 characters, with the value of \<^verbatim>\<open>status\<close>. All 24 bytes are passed on, whatever length
  the decoder reports.
\<close>

fun pem_open_loop ::
  "'l :: len itself \<Rightarrow> nat \<Rightarrow> byte list \<Rightarrow> r_envelope_ctx \<Rightarrow> int \<Rightarrow> int \<times> byte list \<times> r_envelope_ctx" where
  "pem_open_loop L 0 input context status = (status, [], context)"
| "pem_open_loop L (Suc n) input context status =
     (case R_DecodePEMBlock (take 32 input) of
        Inl status \<Rightarrow> (status, [], context)
      | Inr _ \<Rightarrow>
          case R_OpenUpdate L context (pem_written (take 32 input)) of (out, context) \<Rightarrow>
          case pem_open_loop L n (drop 32 input) context ID_OK of (status, rest, context) \<Rightarrow>
            (status, out @ rest, context))"

definition R_DecryptOpenPEMBlock ::
  "'l :: len itself \<Rightarrow> r_envelope_ctx \<Rightarrow> int \<Rightarrow> byte list \<Rightarrow> int \<times> byte list \<times> r_envelope_ctx" where
  "R_DecryptOpenPEMBlock L context status input =
     (case pem_open_loop L (length input div 32) input context status of (status, output, context) \<Rightarrow>
      if status \<noteq> 0 then (status, output, context)
      else case R_DecodePEMBlock (drop (32 * (length input div 32)) input) of
             Inl status \<Rightarrow> (status, output, context)
           | Inr encryptedPart \<Rightarrow>
               case R_OpenUpdate L context encryptedPart of (out1, context) \<Rightarrow>
               case R_OpenFinal L context of
                 (Inl status, context) \<Rightarrow> (status, output @ out1, context)
               | (Inr out2, context) \<Rightarrow> (ID_OK, output @ out1 @ out2, context))"

section \<open>Signed envelopes\<close>

definition RE_KEY_ENCODING :: int where "RE_KEY_ENCODING = 0x0405"
definition MAX_PEM_ENCRYPTED_KEY_LEN :: nat where
  "MAX_PEM_ENCRYPTED_KEY_LEN = ENCODED_CONTENT_LEN MAX_ENCRYPTED_KEY_LEN"
definition ENCRYPTED_CONTENT_LEN :: "nat \<Rightarrow> nat" where "ENCRYPTED_CONTENT_LEN len = ENCODED_CONTENT_LEN (len + 8)"
definition MAX_PEM_ENCRYPTED_SIGNATURE_LEN :: nat where
  "MAX_PEM_ENCRYPTED_SIGNATURE_LEN = ENCRYPTED_CONTENT_LEN MAX_SIGNATURE_LEN"

text \<open>What sealing writes: content, key, signature and initial vector.\<close>

record pem_envelope =
  encryptedContent :: "byte list"
  encryptedKey :: "byte list"
  encryptedSignature :: "byte list"
  envelope_iv :: "byte list"

text \<open>\<open>behind\<close> is the memory behind the encrypted key, \<open>part1\<close> and \<open>part2\<close> the arrays of the two envelopes.\<close>

definition R_SealPEMBlock ::
  "'l :: len itself \<Rightarrow> r_signature_ctx \<Rightarrow> r_envelope_ctx \<Rightarrow> byte list \<Rightarrow> byte list \<Rightarrow> byte list \<Rightarrow> byte list \<Rightarrow> int
     \<Rightarrow> r_rsa_public_key \<Rightarrow> r_rsa_private_key \<Rightarrow> r_random_struct \<Rightarrow> ((int + pem_envelope) \<times> r_random_struct) option" where
  "R_SealPEMBlock L sctx context behind part1 part2 content digestAlg publicKey privateKey random =
     do { r \<leftarrow> R_SignBlock sctx content digestAlg privateKey;
          case r of
            Inl status \<Rightarrow> Some (Inl status, random)
          | Inr signature \<Rightarrow>
              do { (r, context, random) \<leftarrow> R_SealInit context [publicKey] EA_DES_CBC random;
                   case r of
                     Inl status \<Rightarrow> Some (Inl status, random)
                   | Inr (keys, iv) \<Rightarrow>
                       (case R_EncryptOpenPEMBlock L context content part1 of (encContent, context) \<Rightarrow>
                        case R_EncryptOpenPEMBlock L context signature part2 of (encSignature, context) \<Rightarrow>
                          Some (Inr \<lparr>encryptedContent = encContent, encryptedKey = R_EncodePEMBlock (keys ! 0) behind,
                                     encryptedSignature = encSignature, envelope_iv = iv\<rparr>, random)) } }"

text \<open>\<open>status1\<close> and \<open>status2\<close> are the uninitialised variables of the two calls of \<^verbatim>\<open>R_DecryptOpenPEMBlock\<close>.\<close>

definition R_OpenPEMBlock ::
  "'l :: len itself \<Rightarrow> r_signature_ctx \<Rightarrow> r_envelope_ctx \<Rightarrow> int \<Rightarrow> int \<Rightarrow> pem_envelope \<Rightarrow> int
     \<Rightarrow> r_rsa_private_key \<Rightarrow> r_rsa_public_key \<Rightarrow> (int + byte list) option" where
  "R_OpenPEMBlock L sctx context status1 status2 e digestAlg privateKey publicKey =
     (if length (encryptedSignature e) > MAX_PEM_ENCRYPTED_SIGNATURE_LEN then Some (Inl RE_SIGNATURE_ENCODING)
      else if length (encryptedKey e) > MAX_PEM_ENCRYPTED_KEY_LEN then Some (Inl RE_KEY_ENCODING)
      else case R_DecodePEMBlock (encryptedKey e) of
             Inl _ \<Rightarrow> Some (Inl RE_KEY_ENCODING)
           | Inr encryptedKeyBlock \<Rightarrow>
               do { (status, context) \<leftarrow> R_OpenInit context EA_DES_CBC encryptedKeyBlock (envelope_iv e) privateKey;
                    if status \<noteq> 0 then Some (Inl status)
                    else case R_DecryptOpenPEMBlock L context status1 (encryptedContent e) of (status, content, context) \<Rightarrow>
                    if status \<noteq> 0
                    then Some (Inl (if status = RE_LEN \<or> status = RE_ENCODING then RE_CONTENT_ENCODING else RE_KEY))
                    else case R_DecryptOpenPEMBlock L context status2 (encryptedSignature e) of (status, signature, context) \<Rightarrow>
                    if status \<noteq> 0
                    then Some (Inl (if status = RE_LEN \<or> status = RE_ENCODING then RE_SIGNATURE_ENCODING else RE_KEY))
                    else do { status \<leftarrow> R_VerifyBlockSignature sctx content signature digestAlg publicKey;
                              Some (if status = 0 then Inr content else Inl status) } })"

section \<open>Groups of characters\<close>

lemma env_parts_append:
  "env_parts upd c (ps @ qs) =
     (case env_parts upd c ps of (o1, c1) \<Rightarrow> case env_parts upd c1 qs of (o2, c2) \<Rightarrow> (o1 @ o2, c2))"
  by (induction ps arbitrary: c) (auto split: prod.splits)

text \<open>The encoder does not look behind a block whose length is a multiple of three.\<close>

lemma pem_encode_loop_behind:
  "length block mod 3 = 0 \<Longrightarrow> pem_encode_loop (length block) (block @ b) = pem_encode_loop (length block) (block @ b')"
proof (induction "length block" arbitrary: block rule: less_induct)
  case less
  show ?case
  proof (cases "length block < 3")
    case False
    then obtain x y z rest where b: "block = x # y # z # rest"
      by (auto simp: not_less numeral_eq_Suc Suc_le_length_iff)
    then show ?thesis using less.hyps [of rest] less.prems by simp
  qed (use less.prems in \<open>auto simp: mod_if split: if_splits\<close>)
qed

lemma length_pem_decode_group: "pem_decode_group b1 b2 b3 b4 = Inr (bs, k) \<Longrightarrow> length bs = 3"
  unfolding pem_decode_group_def Let_def
  by (cases "asc_bad b1"; cases "asc_bad b2"; cases "b3 = PEM_PAD"; cases "b4 = PEM_PAD"; cases "asc_bad b3"; cases "asc_bad b4") auto

lemma length_pem_decode_loop:
  "pem_decode_loop inbuf acc len = Inr (out, n) \<Longrightarrow> length out = length acc + 3 * (length inbuf div 4)"
proof (induction inbuf acc len rule: pem_decode_loop.induct)
  case (1 b1 b2 b3 b4 inbuf acc len)
  obtain bs k where g: "pem_decode_group b1 b2 b3 b4 = Inr (bs, k)" "pem_decode_loop inbuf (acc @ bs) (len + k) = Inr (out, n)"
    using 1(2) by (cases "pem_decode_group b1 b2 b3 b4") auto
  then have "length out = length (acc @ bs) + 3 * (length inbuf div 4)" using 1(1) [of "(bs, k)" bs k] by simp
  then show ?case using length_pem_decode_group [OF g(1)] by (simp add: div_add_self1)
qed auto

lemma PEM_decode_group:
  assumes "length block mod 3 = 0"
  shows "R_DecodePEMBlock (R_EncodePEMBlock block b) = Inr block" "pem_written (R_EncodePEMBlock block b) = block"
proof -
  have e: "R_EncodePEMBlock block b = R_EncodePEMBlock block [0, 0]"
    using pem_encode_loop_behind [OF assms] by (simp add: R_EncodePEMBlock_def)
  show "R_DecodePEMBlock (R_EncodePEMBlock block b) = Inr block" unfolding e by (rule PEM_decode_encode) simp
  show "pem_written (R_EncodePEMBlock block b) = block"
  proof (cases "block = []")
    case False
    then obtain w where w: "pem_decode_loop (pem_encode_loop (length block) (block @ [0, 0])) [] 0 = Inr (w, length block)"
      "take (length block) w = block" using pem_loop [of "length block" "block @ [0, 0]" "[]" 0] by auto
    have "length w = 3 * ((length block + 2) div 3)"
      using length_pem_decode_loop [OF w(1)] by (simp add: length_pem_encode_loop)
    also have "\<dots> = length block" using assms by presburger
    finally have "w = block" using w(2) by simp
    then show ?thesis unfolding e using w(1) False by (simp add: pem_written_def R_EncodePEMBlock_def Suc_le_eq)
  qed (simp add: pem_written_def R_EncodePEMBlock_def)
qed

section \<open>Round trip of one envelope\<close>

lemma R_SealUpdate_24:
  assumes "env_alg (encryptionAlgorithm c)" "env_ready c" "R_SealUpdate TYPE(32) c p = (out, c')" "length p = 24"
  shows "length out = 24" "env_ready c'" "env_alg (encryptionAlgorithm c')"
proof -
  have "env_rep seal_fed c ([] @ p) ([] @ out) c'"
    using assms(1) env_rep_start [OF assms(2)] assms(3) by (rule R_SealUpdate_rep) (simp add: seal_fed_def)
  then obtain c1 b where r: "EncryptBlk TYPE(32) c p = (out, c1)" "length b = 8" "c' = c1\<lparr>env_buffer := b, env_bufferLen := 0\<rparr>"
    using assms(4) by (auto elim!: env_repD simp: seal_fed_def)
  show "length out = 24" using length_EncryptBlk [OF assms(1) _ r(1)] assms(4) by simp
  show "env_ready c'" "env_alg (encryptionAlgorithm c')" using r EncryptBlk_keeps [OF r(1)] assms(1) by (simp_all add: env_ready_def)
qed

lemma pem_seal_loop_groups:
  assumes "env_alg (encryptionAlgorithm c)" "env_ready c" "length part = 24" "24 * n \<le> length input"
  shows "\<exists>ps outs c' part'. pem_seal_loop TYPE(32) n input c part = (concat (map (\<lambda>g. R_EncodePEMBlock g []) outs), c', part')
     \<and> concat ps = take (24 * n) input \<and> length outs = n \<and> (\<forall>g \<in> set outs. length g = 24)
     \<and> env_parts (R_SealUpdate TYPE(32)) c ps = (concat outs, c') \<and> env_ready c' \<and> env_alg (encryptionAlgorithm c') \<and> length part' = 24"
  using assms
proof (induction n arbitrary: c part input)
  case 0
  then show ?case by (intro exI [of _ "[]"]) auto
next
  case (Suc n)
  obtain out c1 where 1: "R_SealUpdate TYPE(32) c (take 24 input) = (out, c1)" by force
  note u = R_SealUpdate_24 [OF Suc.prems(1,2) 1]
  have l: "length (take 24 input) = 24" "24 * n \<le> length (drop 24 input)" using Suc.prems(4) by simp_all
  have p: "R_memcpy part 0 out = out" using Suc.prems(3) u(1) [OF l(1)] by (simp add: R_memcpy_eq)
  obtain ps outs c' part' where 2: "pem_seal_loop TYPE(32) n (drop 24 input) c1 out = (concat (map (\<lambda>g. R_EncodePEMBlock g []) outs), c', part')"
     "concat ps = take (24 * n) (drop 24 input)" "length outs = n" "\<forall>g \<in> set outs. length g = 24"
     "env_parts (R_SealUpdate TYPE(32)) c1 ps = (concat outs, c')" "env_ready c'" "env_alg (encryptionAlgorithm c')" "length part' = 24"
    using Suc.IH [OF u(3,2) [OF l(1)] u(1) [OF l(1)] l(2)] by blast
  have "take 24 input @ take (24 * n) (drop 24 input) = take (24 * Suc n) input" by (simp add: take_add)
  then show ?case using 1 2 p u(1) [OF l(1)]
    by (intro exI [of _ "take 24 input # ps"] exI [of _ "out # outs"] exI [of _ c'] exI [of _ part']) simp
qed

lemma pem_open_loop_groups:
  assumes "\<forall>g \<in> set gs. length g = 24" "env_parts (R_OpenUpdate L) d gs = (p1, d1)"
  shows "pem_open_loop L (length gs) (concat (map (\<lambda>g. R_EncodePEMBlock g []) gs) @ rest) d status
    = (if gs = [] then status else ID_OK, p1, d1)"
  using assms
proof (induction gs arbitrary: d p1 status)
  case (Cons g gs)
  have g: "length g mod 3 = 0" "length (R_EncodePEMBlock g []) = 32" using Cons.prems(1) by (simp_all add: length_R_EncodePEMBlock)
  obtain x d2 y where "R_OpenUpdate L d g = (x, d2)" "env_parts (R_OpenUpdate L) d2 gs = (y, d1)" "p1 = x @ y"
    using Cons.prems(2) by (auto split: prod.splits)
  then show ?case using Cons.IH [of d2 y ID_OK] Cons.prems(1) g PEM_decode_group [OF g(1), of "[]"] by simp
qed simp

text \<open>The shape of what is written: whole groups and a rest of at most 16 bytes.\<close>

lemma R_EncryptOpenPEMBlock_groups:
  assumes "env_alg (encryptionAlgorithm c)" "env_ready c" "length part = 24"
    "R_EncryptOpenPEMBlock TYPE(32) c input part = (chars, c2)"
  obtains ps o1 c1 o2 gs rest behind where "concat ps = input" "env_parts (R_SealUpdate TYPE(32)) c ps = (o1, c1)"
    "R_SealFinal TYPE(32) c1 = (o2, c2)" "concat gs @ rest = o1 @ o2" "\<forall>g \<in> set gs. length g = 24" "length rest \<le> 16"
    "chars = concat (map (\<lambda>g. R_EncodePEMBlock g []) gs) @ R_EncodePEMBlock rest behind" "2 \<le> length behind"
proof -
  let ?n = "length input div 24"
  have n: "24 * ?n \<le> length input" by simp
  obtain ps outs c0 part' where 1: "pem_seal_loop TYPE(32) ?n input c part = (concat (map (\<lambda>g. R_EncodePEMBlock g []) outs), c0, part')"
     "concat ps = take (24 * ?n) input" "length outs = ?n" "\<forall>g \<in> set outs. length g = 24"
     "env_parts (R_SealUpdate TYPE(32)) c ps = (concat outs, c0)" "env_ready c0" "env_alg (encryptionAlgorithm c0)" "length part' = 24"
    using pem_seal_loop_groups [OF assms(1-3) n] by blast
  let ?m = "drop (24 * ?n) input"
  obtain x c1 where 2: "R_SealUpdate TYPE(32) c0 ?m = (x, c1)" by force
  obtain y where 3: "R_SealFinal TYPE(32) c1 = (y, c2)" "chars = concat (map (\<lambda>g. R_EncodePEMBlock g []) outs)
      @ R_EncodePEMBlock (take (length x + length y) (R_memcpy (R_memcpy part' 0 x) (length x) y))
          (drop (length x + length y) (R_memcpy (R_memcpy part' 0 x) (length x) y))"
    using assms(4) unfolding R_EncryptOpenPEMBlock_def 1(1) prod.case 2 by (auto simp: Let_def split: prod.splits)
  have s: "env_rep seal_fed c0 ([] @ ?m) ([] @ x) c1"
    using 1(7) env_rep_start [OF 1(6)] 2 by (rule R_SealUpdate_rep) (simp add: seal_fed_def)
  obtain c' where E: "EncryptBlk TYPE(32) c0 (pkcs_pad ?m) = (x @ y, c')"
    using R_SealFinal_rep [OF 1(7) s 3(1)] by (metis append_Nil)
  have "length (x @ y) = 8 * (length ?m div 8) + 8" using length_EncryptBlk [OF 1(7) _ E] by (simp add: length_pkcs_pad)
  moreover have "length ?m < 24" by (simp add: minus_mult_div_eq_mod)
  moreover have "length ?m div 8 < 3" using calculation(2) by (simp only: less_mult_imp_div_less)
  moreover have "k < 3 \<Longrightarrow> 8 * k + 8 = 24 \<or> 8 * k + 8 \<le> 16" for k :: nat by arith
  ultimately have xy: "length (x @ y) = 24 \<or> length (x @ y) \<le> 16" by metis
  have B: "R_memcpy (R_memcpy part' 0 x) (length x) y = (x @ y) @ drop (length (x @ y)) part'"
    using xy 1(8) by (auto simp: R_memcpy_eq add.commute)
  have chars: "chars = concat (map (\<lambda>g. R_EncodePEMBlock g []) outs) @ R_EncodePEMBlock (x @ y) (drop (length (x @ y)) part')"
    using 3(2) unfolding B by simp
  have parts: "concat (ps @ [?m]) = input" "env_parts (R_SealUpdate TYPE(32)) c (ps @ [?m]) = (concat outs @ x, c1)"
    using 1(2,5) 2 by (simp_all add: env_parts_append)
  show ?thesis
  proof (cases "length (x @ y) = 24")
    case True
    show ?thesis
      by (rule that [OF parts 3(1), of "outs @ [x @ y]" "[]" "[0, 0]"])
        (use True 1(4,8) chars in \<open>auto simp: R_EncodePEMBlock_def [of "[]"]\<close>)
  next
    case False
    show ?thesis
      by (rule that [OF parts 3(1), of outs "x @ y" "drop (length (x @ y)) part'"]) (use False xy 1(4,8) chars in auto)
  qed
qed

lemma R_DecryptOpenPEMBlock_back:
  assumes "env_rel c d" "env_ready c" "env_ready d" "length part = 24"
    and "R_EncryptOpenPEMBlock TYPE(32) c input part = (chars, c2)" "status = 0 \<or> 16 \<le> length input"
  obtains d2 where "R_DecryptOpenPEMBlock TYPE(32) d status chars = (ID_OK, input, d2)" "env_rel c2 d2" "env_ready c2" "env_ready d2"
    "length chars \<le> ENCRYPTED_CONTENT_LEN (length input)" "length input < 16 \<Longrightarrow> length chars < 32"
proof -
  have a: "env_alg (encryptionAlgorithm c)" using assms(1) by (auto simp: env_rel_def)
  obtain ps o1 c1 o2 gs rest behind where 1: "concat ps = input" "env_parts (R_SealUpdate TYPE(32)) c ps = (o1, c1)"
    "R_SealFinal TYPE(32) c1 = (o2, c2)" "concat gs @ rest = o1 @ o2" "\<forall>g \<in> set gs. length g = 24" "length rest \<le> 16"
    "chars = concat (map (\<lambda>g. R_EncodePEMBlock g []) gs) @ R_EncodePEMBlock rest behind" "2 \<le> length behind"
    by (rule R_EncryptOpenPEMBlock_groups [OF a assms(2,4,5)])
  obtain p1 d1 where 2: "env_parts (R_OpenUpdate TYPE(32)) d gs = (p1, d1)" by force
  obtain q1 e1 where 3: "R_OpenUpdate TYPE(32) d1 rest = (q1, e1)" by force
  have p: "env_parts (R_OpenUpdate TYPE(32)) d (gs @ [rest]) = (p1 @ q1, e1)" using 2 3 by (simp add: env_parts_append)
  obtain p2 d2 where 4: "R_OpenFinal TYPE(32) e1 = (Inr p2, d2)" "(p1 @ q1) @ p2 = concat ps" "env_rel c2 d2" "env_ready c2" "env_ready d2"
    "length (o1 @ o2) = 8 * (length (concat ps) div 8) + 8"
    by (rule env_roundtrip [OF assms(1-3) 1(2,3) p]) (use 1(4) in simp_all)
  let ?G = "concat (map (\<lambda>g. R_EncodePEMBlock g []) gs)" and ?R = "R_EncodePEMBlock rest behind"
  have lg: "length (concat gs) = 24 * length gs" "length ?G = 32 * length gs"
    using 1(5) by (induction gs) (auto simp: length_R_EncodePEMBlock)
  have lR: "length ?R < 32" using 1(6) by (simp add: length_R_EncodePEMBlock)
  have n: "length chars div 32 = length gs" "drop (32 * length gs) chars = ?R"
    using lR lg(2) unfolding 1(7) by simp_all
  have T: "24 * length gs + length rest = 8 * (length input div 8) + 8" using arg_cong [OF 1(4), of length] lg(1) 1(1) 4(6) by simp
  have st: "gs = [] \<Longrightarrow> status = 0"
  proof -
    assume "gs = []"
    then have "8 * (length input div 8) + 8 \<le> 16" using 1(6) T by simp
    then have "length input div 8 < 2" by linarith
    then have "length input < 16" by linarith
    then show "status = 0" using assms(6) by simp
  qed
  have "R_DecryptOpenPEMBlock TYPE(32) d status chars = (ID_OK, input, d2)"
    using pem_open_loop_groups [OF 1(5) 2, of ?R status] st 3 4(1,2) PEM_decode_encode [OF 1(8), of rest] 1(1)
    unfolding R_DecryptOpenPEMBlock_def n by (simp add: 1(7) ID_OK_def)
  moreover have "length chars \<le> ENCRYPTED_CONTENT_LEN (length input)"
  proof -
    have "24 * length gs + length rest \<le> length input + 8" using T by simp
    then have "4 * (24 * length gs + length rest) div 3 \<le> 4 * (length input + 8) div 3" by (intro div_le_mono mult_le_mono2)
    moreover have "length chars = 32 * length gs + 4 * ((length rest + 2) div 3)" unfolding 1(7) using lg(2) by (simp add: length_R_EncodePEMBlock)
    moreover have "4 * (24 * length gs + length rest) div 3 = 32 * length gs + 4 * length rest div 3"
      by (simp add: distrib_left div_mult_self4)
    moreover have "4 * ((length rest + 2) div 3) \<le> 4 * length rest div 3 + 3" by presburger
    ultimately show ?thesis unfolding ENCRYPTED_CONTENT_LEN_def ENCODED_CONTENT_LEN_def by linarith
  qed
  moreover have "length chars < 32" if "length input < 16"
  proof -
    have "length input div 8 < 2" using that by (simp only: less_mult_imp_div_less)
    then have "24 * length gs < 24" using T by linarith
    then show ?thesis using lR unfolding 1(7) by simp
  qed
  ultimately show ?thesis using that 4(3-5) by blast
qed

lemma R_DecryptOpenPEMBlock_short:
  "length chars < 32 \<Longrightarrow> status \<noteq> 0 \<Longrightarrow> R_DecryptOpenPEMBlock L d status chars = (status, [], d)"
  by (simp add: R_DecryptOpenPEMBlock_def)

section \<open>The property\<close>

text \<open>
  C24. Where \<^verbatim>\<open>unsigned long\<close> has four bytes: what \<^verbatim>\<open>R_SealPEMBlock\<close> makes of a content, \<^verbatim>\<open>R_OpenPEMBlock\<close> opens, with the signature accepted and the content
  given back, when the content has at least 16 bytes. For a shorter one the result is decided by an
  uninitialised variable: the content is recovered when it happens to be zero, and an error is reported otherwise.
\<close>

theorem R_SealPEM_roundtrip:
  assumes "R_SealPEMBlock TYPE(32) s c behind part1 part2 content alg pubR prvS random = Some (Inr e, random')"
    and "rnd_ok random" "rsa_keys_ok pubR prvR" "rsa_keys_ok pubS prvS" "45 \<le> rsa_len prvS"
    and "sign_valid alg s" "sign_valid alg t" "length content < 2 ^ 31" "length (env_buffer c) = 8" "length (env_buffer d) = 8"
    and "length part1 = 24" "length part2 = 24" "2 \<le> length behind"
  shows "R_OpenPEMBlock TYPE(32) t d status1 status2 e alg prvR pubS =
     Some (if status1 = 0 \<or> 16 \<le> length content then Inr content
           else Inl (if status1 = RE_LEN \<or> status1 = RE_ENCODING then RE_CONTENT_ENCODING else RE_KEY))"
proof -
  obtain sig where sig: "R_SignBlock s content alg prvS = Some (Inr sig)" "length sig = rsa_len prvS"
    "RSAPublicDecrypt sig pubS = Some (Inr (digest_info alg content))"
    using R_SignBlock_ok [OF assms(4,5,6,8)] by blast
  obtain keys iv c0 r0 where 1: "R_SealInit c [pubR] EA_DES_CBC random = Some (Inr (keys, iv), c0, r0)"
    using assms(1) sig(1) by (auto simp: R_SealPEMBlock_def split: bind_splits sum.splits)
  obtain enc1 c1 where 2: "R_EncryptOpenPEMBlock TYPE(32) c0 content part1 = (enc1, c1)" by force
  obtain enc2 c2 where 3: "R_EncryptOpenPEMBlock TYPE(32) c1 sig part2 = (enc2, c2)" by force
  have e: "e = \<lparr>encryptedContent = enc1, encryptedKey = R_EncodePEMBlock (keys ! 0) behind, encryptedSignature = enc2, envelope_iv = iv\<rparr>"
    using assms(1) sig(1) 1 2 3 by (simp add: R_SealPEMBlock_def)
  obtain d0 where 4: "R_OpenInit d EA_DES_CBC (keys ! 0) iv prvR = Some (ID_OK, d0)" "env_rel c0 d0" "env_ready c0" "env_ready d0"
    by (rule R_SealInit_OpenInit [OF 1 assms(2), of 0 prvR d]) (use assms in simp_all)
  have k: "length (keys ! 0) \<le> 128"
    using 4(1) by (auto simp: R_OpenInit_def MAX_ENCRYPTED_KEY_LEN_def MAX_RSA_MODULUS_LEN_def ID_OK_def RE_LEN_def split: if_splits)
  have sl: "length sig \<le> 128" using rsa_len_bounds(3) [of prvS] assms(4) sig(2) by (simp add: rsa_keys_ok_def)
  define st where "st = (if status1 = 0 \<or> 16 \<le> length content then status1 else 0)"
  obtain d1 where 5: "R_DecryptOpenPEMBlock TYPE(32) d0 st enc1 = (ID_OK, content, d1)" "env_rel c1 d1" "env_ready c1" "env_ready d1"
    "length content < 16 \<Longrightarrow> length enc1 < 32"
    by (rule R_DecryptOpenPEMBlock_back [OF 4(2-4) assms(11) 2, of st]) (simp_all add: st_def)
  obtain d2 where 6: "R_DecryptOpenPEMBlock TYPE(32) d1 status2 enc2 = (ID_OK, sig, d2)" "length enc2 \<le> ENCRYPTED_CONTENT_LEN (length sig)"
    by (rule R_DecryptOpenPEMBlock_back [OF 5(2-4) assms(12) 3, of status2]) (use assms(5) sig(2) in simp_all)
  have "ENCRYPTED_CONTENT_LEN (length sig) \<le> 184"
    using sl div_le_mono [of "4 * (length sig + 8)" "4 * 136" 3] by (simp add: ENCRYPTED_CONTENT_LEN_def ENCODED_CONTENT_LEN_def)
  then have l: "\<not> length enc2 > MAX_PEM_ENCRYPTED_SIGNATURE_LEN" using 6(2)
    by (simp add: MAX_PEM_ENCRYPTED_SIGNATURE_LEN_def ENCRYPTED_CONTENT_LEN_def ENCODED_CONTENT_LEN_def MAX_SIGNATURE_LEN_def MAX_RSA_MODULUS_LEN_def)
  have "(length (keys ! 0) + 2) div 3 \<le> 43" using k div_le_mono [of "length (keys ! 0) + 2" 130 3] by simp
  then have lk: "\<not> length (R_EncodePEMBlock (keys ! 0) behind) > MAX_PEM_ENCRYPTED_KEY_LEN"
    by (simp add: length_R_EncodePEMBlock MAX_PEM_ENCRYPTED_KEY_LEN_def ENCODED_CONTENT_LEN_def MAX_ENCRYPTED_KEY_LEN_def MAX_RSA_MODULUS_LEN_def)
  have v: "R_VerifyBlockSignature t content sig alg pubS = Some 0" using R_VerifyBlockSignature_ok [OF assms(7,8) sl sig(3)] by simp
  note o = R_OpenPEMBlock_def e l lk PEM_decode_encode [OF assms(13)] 4(1) 6(1) v ID_OK_def
  show ?thesis
  proof (cases "status1 = 0 \<or> 16 \<le> length content")
    case True
    then show ?thesis using 5(1) by (simp add: o st_def)
  next
    case False
    then have "R_DecryptOpenPEMBlock TYPE(32) d0 status1 enc1 = (status1, [], d0)"
      using R_DecryptOpenPEMBlock_short [OF 5(5), of status1] by simp
    then show ?thesis using False by (simp add: o split del: if_split)
  qed
qed

text \<open>The sender signs with the key of 360 bits and the recipient has the small one; the content is short.\<close>

lemma R_SealPEM_roundtrip_witness:
  "\<exists>e r'. R_SealPEMBlock TYPE(32) zero_ctx tiny_env [0, 0] (replicate 24 0) (replicate 24 0) [1, 2, 3] DA_MD5 tiny_public unit_private tiny_random
       = Some (Inr e, r')
     \<and> R_OpenPEMBlock TYPE(32) zero_ctx tiny_env 0 7 e DA_MD5 tiny_private unit_public = Some (Inr [1, 2, 3])
     \<and> R_OpenPEMBlock TYPE(32) zero_ctx tiny_env 7 7 e DA_MD5 tiny_private unit_public = Some (Inl RE_KEY)"
proof -
  obtain sig where sig: "R_SignBlock zero_ctx [1, 2, 3] DA_MD5 unit_private = Some (Inr sig)"
    using R_SignBlock_ok [OF unit_keys_ok _ zero_ctx_sign, of DA_MD5 "[1, 2, 3]"] by (auto simp: unit_values)
  obtain k iv c r' where seal: "R_SealInit tiny_env [tiny_public] EA_DES_CBC tiny_random = Some (Inr ([k], iv), c, r')"
    using tiny_seal by blast
  have "\<exists>e. R_SealPEMBlock TYPE(32) zero_ctx tiny_env [0, 0] (replicate 24 0) (replicate 24 0) [1, 2, 3] DA_MD5 tiny_public unit_private tiny_random
       = Some (Inr e, r')"
    using sig seal by (auto simp: R_SealPEMBlock_def split: prod.split)
  then obtain e where e: "R_SealPEMBlock TYPE(32) zero_ctx tiny_env [0, 0] (replicate 24 0) (replicate 24 0) [1, 2, 3] DA_MD5 tiny_public unit_private tiny_random
       = Some (Inr e, r')" by blast
  have "rnd_ok tiny_random" by (simp add: rnd_ok_def tiny_random_def)
  note r = R_SealPEM_roundtrip [OF e this tiny_keys_ok unit_keys_ok _ zero_ctx_sign zero_ctx_sign, of tiny_env]
  show ?thesis using e r [of 0 7] r [of 7 7] by (auto simp: unit_values tiny_env_def RE_LEN_def RE_ENCODING_def)
qed


end
