(* ===== verification/Event_Buffer.thy ===== *)
theory Event_Buffer
  imports QS_Prelude
begin

text \<open>
  \<^verbatim>\<open>QBase/EventBuffer.cpp\<close>: \<^verbatim>\<open>CEventBuffer\<close>, the wrapper every session keeps around libevent's
  buffers. libevent itself is not part of the repository: its functions are the fields of the
  record \<open>evbuffer_api\<close>, an argument of the definitions here, and \<open>evbuffer_laws\<close> collects
  what \<^verbatim>\<open>event2/buffer.h\<close> documents of them.
\<close>

section \<open>The functions of libevent\<close>

text \<open>
  \<open>evbuffer_pullup\<close> returns the bytes a pointer to the contiguous memory gives access to
  (rearranging the memory chunks is invisible in the contents); \<open>evbuffer_poke\<close> is the
  buffer after the program has written through that pointer.
\<close>

record ('bev, 'b) evbuffer_api =
  evbuffer_get_length :: "'b \<Rightarrow> nat"
  evbuffer_pullup :: "'b \<Rightarrow> int \<Rightarrow> byte list option"
  evbuffer_poke :: "'b \<Rightarrow> byte list \<Rightarrow> 'b"
  evbuffer_drain :: "'b \<Rightarrow> nat \<Rightarrow> int \<times> 'b"
  evbuffer_add :: "'b \<Rightarrow> byte list \<Rightarrow> int \<times> 'b"
  evbuffer_add_buffer :: "'b \<Rightarrow> 'b \<Rightarrow> int \<times> 'b \<times> 'b"
  evbuffer_search :: "'b \<Rightarrow> byte list \<Rightarrow> int"
  bufferevent_get_input :: "'bev \<Rightarrow> 'b option"
  bufferevent_get_output :: "'bev \<Rightarrow> 'b option"
  bufferevent_getfd :: "'bev \<Rightarrow> int"

text \<open>The first position where a string occurs, or -1.\<close>

fun find_bytes :: "byte list \<Rightarrow> byte list \<Rightarrow> nat \<Rightarrow> int" where
  "find_bytes pat [] i = (if pat = [] then int i else -1)"
| "find_bytes pat (b # bs) i =
     (if take (length pat) (b # bs) = pat then int i else find_bytes pat bs (Suc i))"

definition evbuffer_laws :: "('bev, 'b) evbuffer_api \<Rightarrow> ('b \<Rightarrow> byte list) \<Rightarrow> bool" where
  "evbuffer_laws api content \<longleftrightarrow>
     (\<forall>b. evbuffer_get_length api b = length (content b)) \<and>
     (\<forall>b n. 0 < n \<and> n \<le> length (content b) \<longrightarrow>
        evbuffer_pullup api b (int n) = Some (take n (content b))) \<and>
     (\<forall>b n. length (content b) < n \<longrightarrow> evbuffer_pullup api b (int n) = None) \<and>
     (\<forall>b xs. length xs \<le> length (content b) \<longrightarrow>
        content (evbuffer_poke api b xs) = xs @ drop (length xs) (content b)) \<and>
     (\<forall>b n. fst (evbuffer_drain api b n) = 0 \<and>
        content (snd (evbuffer_drain api b n)) = drop n (content b)) \<and>
     (\<forall>b xs. fst (evbuffer_add api b xs) = 0 \<and>
        content (snd (evbuffer_add api b xs)) = content b @ xs) \<and>
     (\<forall>b pat. evbuffer_search api b pat = find_bytes pat (content b) 0)"

lemma evbuffer_lawsD:
  assumes "evbuffer_laws api content"
  shows "evbuffer_get_length api b = length (content b)"
    and "0 < n \<Longrightarrow> n \<le> length (content b) \<Longrightarrow>
           evbuffer_pullup api b (int n) = Some (take n (content b))"
    and "length (content b) < n \<Longrightarrow> evbuffer_pullup api b (int n) = None"
    and "length xs \<le> length (content b) \<Longrightarrow>
           content (evbuffer_poke api b xs) = xs @ drop (length xs) (content b)"
    and "fst (evbuffer_drain api b n) = 0"
    and "content (snd (evbuffer_drain api b n)) = drop n (content b)"
    and "fst (evbuffer_add api b xs) = 0"
    and "content (snd (evbuffer_add api b xs)) = content b @ xs"
    and "evbuffer_search api b pat = find_bytes pat (content b) 0"
  using assms by (auto simp: evbuffer_laws_def)

section \<open>CEventBuffer\<close>

record ('bev, 'b) event_buffer =
  m_pBev :: "'bev option"
  m_pReadBuffer :: "'b option"
  m_pWriteBuffer :: "'b option"
  m_FD :: int

definition Q_RTN_OK :: int where "Q_RTN_OK = 0"
definition Q_RTN_FAILE :: int where "Q_RTN_FAILE = -1"
definition Q_INVALID_SOCK :: int where "Q_INVALID_SOCK = -1"
definition Q_ERROR_NULLPOINTER :: int where "Q_ERROR_NULLPOINTER = 0x10002"
definition Q_ERROR_INVALIDSOCK :: int where "Q_ERROR_INVALIDSOCK = 0x10003"

definition CEventBuffer_init :: "('bev, 'b) event_buffer" where
  "CEventBuffer_init = \<lparr>m_pBev = None, m_pReadBuffer = None, m_pWriteBuffer = None,
     m_FD = Q_INVALID_SOCK\<rparr>"

definition setBuffer ::
  "('bev, 'b) evbuffer_api \<Rightarrow> 'bev option \<Rightarrow> ('bev, 'b) event_buffer \<Rightarrow> int \<times> ('bev, 'b) event_buffer"
where
  "setBuffer api pBev eb =
     (case pBev of
        None \<Rightarrow> (Q_ERROR_NULLPOINTER,
                 eb\<lparr>m_pBev := None, m_pReadBuffer := None, m_pWriteBuffer := None,
                    m_FD := Q_INVALID_SOCK\<rparr>)
      | Some bev \<Rightarrow>
          let eb1 = eb\<lparr>m_pBev := Some bev\<rparr>;
              eb2 = eb1\<lparr>m_pReadBuffer := bufferevent_get_input api bev\<rparr>
          in if m_pReadBuffer eb2 = None then (Q_ERROR_NULLPOINTER, eb2)
             else
               let eb3 = eb2\<lparr>m_pWriteBuffer := bufferevent_get_output api bev\<rparr>
               in if m_pWriteBuffer eb3 = None then (Q_ERROR_NULLPOINTER, eb3)
                  else
                    let eb4 = eb3\<lparr>m_FD := bufferevent_getfd api bev\<rparr>
                    in if m_FD eb4 = Q_INVALID_SOCK then (Q_ERROR_INVALIDSOCK, eb4)
                       else (Q_RTN_OK, eb4))"

definition getFD :: "('bev, 'b) event_buffer \<Rightarrow> int" where
  "getFD eb = m_FD eb"

definition getTotalLens :: "('bev, 'b) evbuffer_api \<Rightarrow> ('bev, 'b) event_buffer \<Rightarrow> nat" where
  "getTotalLens api eb =
     (case m_pReadBuffer eb of None \<Rightarrow> 0 | Some b \<Rightarrow> evbuffer_get_length api b)"

definition readBuffer ::
  "nat \<Rightarrow> ('bev, 'b) evbuffer_api \<Rightarrow> nat \<Rightarrow> ('bev, 'b) event_buffer \<Rightarrow> byte list option" where
  "readBuffer sz api iLens eb =
     (case m_pReadBuffer eb of None \<Rightarrow> None | Some b \<Rightarrow> evbuffer_pullup api b (ssize_of sz iLens))"

text \<open>A write through the pointer \<open>readBuffer\<close> returned.\<close>

definition pokeBuffer ::
  "('bev, 'b) evbuffer_api \<Rightarrow> byte list \<Rightarrow> ('bev, 'b) event_buffer \<Rightarrow> ('bev, 'b) event_buffer" where
  "pokeBuffer api xs eb =
     eb\<lparr>m_pReadBuffer := map_option (\<lambda>b. evbuffer_poke api b xs) (m_pReadBuffer eb)\<rparr>"

definition delBuffer ::
  "('bev, 'b) evbuffer_api \<Rightarrow> nat \<Rightarrow> ('bev, 'b) event_buffer \<Rightarrow> int \<times> ('bev, 'b) event_buffer" where
  "delBuffer api iLens eb =
     (case m_pReadBuffer eb of
        None \<Rightarrow> (Q_RTN_OK, eb)
      | Some b \<Rightarrow> let (r, b') = evbuffer_drain api b iLens in (r, eb\<lparr>m_pReadBuffer := Some b'\<rparr>))"

definition writeBuffer ::
  "('bev, 'b) evbuffer_api \<Rightarrow> byte list option \<Rightarrow> ('bev, 'b) event_buffer \<Rightarrow> int \<times> ('bev, 'b) event_buffer"
where
  "writeBuffer api pszBuffer eb =
     (case (pszBuffer, m_pWriteBuffer eb) of
        (Some xs, Some b) \<Rightarrow>
          let (r, b') = evbuffer_add api b xs in (r, eb\<lparr>m_pWriteBuffer := Some b'\<rparr>)
      | _ \<Rightarrow> (Q_ERROR_NULLPOINTER, eb))"

definition moveBufferData ::
  "('bev, 'b) evbuffer_api \<Rightarrow> ('bev, 'b) event_buffer \<Rightarrow> int \<times> ('bev, 'b) event_buffer" where
  "moveBufferData api eb =
     (case (m_pWriteBuffer eb, m_pReadBuffer eb) of
        (Some w, Some r) \<Rightarrow>
          let (rc, w', r') = evbuffer_add_buffer api w r
          in (rc, eb\<lparr>m_pWriteBuffer := Some w', m_pReadBuffer := Some r'\<rparr>)
      | _ \<Rightarrow> (Q_ERROR_NULLPOINTER, eb))"

definition Search ::
  "('bev, 'b) evbuffer_api \<Rightarrow> byte list \<Rightarrow> ('bev, 'b) event_buffer \<Rightarrow> cfault + int" where
  "Search api pszWhat eb =
     (case m_pReadBuffer eb of
        None \<Rightarrow> Inl NullDeref | Some b \<Rightarrow> Inr (evbuffer_search api b pszWhat))"

section \<open>The contents of the two directions\<close>

definition rd :: "('b \<Rightarrow> byte list) \<Rightarrow> ('bev, 'b) event_buffer \<Rightarrow> byte list" where
  "rd content eb = (case m_pReadBuffer eb of None \<Rightarrow> [] | Some b \<Rightarrow> content b)"

definition wr :: "('b \<Rightarrow> byte list) \<Rightarrow> ('bev, 'b) event_buffer \<Rightarrow> byte list" where
  "wr content eb = (case m_pWriteBuffer eb of None \<Rightarrow> [] | Some b \<Rightarrow> content b)"

lemma ssize_of_small: "2 * n < size_mod sz \<Longrightarrow> ssize_of sz n = int n"
  by (simp add: ssize_of_def)

named_theorems evb \<open>what the operations of \<open>CEventBuffer\<close> do to the contents\<close>

lemma getTotalLens_rd [evb]:
  "evbuffer_laws api content \<Longrightarrow> getTotalLens api eb = length (rd content eb)"
  by (simp add: getTotalLens_def rd_def evbuffer_lawsD(1) split: option.split)

lemma readBuffer_Some:
  assumes "evbuffer_laws api content" and "0 < n" and "n \<le> length (rd content eb)"
    and "2 * n < size_mod sz"
  shows "readBuffer sz api n eb = Some (take n (rd content eb))"
  using assms
  by (auto simp: readBuffer_def rd_def ssize_of_small evbuffer_lawsD(2) split: option.splits)

lemma readBuffer_None:
  assumes "evbuffer_laws api content" and "length (rd content eb) < n" and "2 * n < size_mod sz"
  shows "readBuffer sz api n eb = None"
  using assms
  by (auto simp: readBuffer_def rd_def ssize_of_small evbuffer_lawsD(3) split: option.splits)

lemma delBuffer_rd [evb]:
  "evbuffer_laws api content \<Longrightarrow> rd content (snd (delBuffer api n eb)) = drop n (rd content eb)"
  by (simp add: delBuffer_def rd_def evbuffer_lawsD(6) split: option.split prod.split)
    (metis evbuffer_lawsD(6) snd_conv)

lemma delBuffer_frame [simp]:
  "m_pBev (snd (delBuffer api n eb)) = m_pBev eb"
  "m_FD (snd (delBuffer api n eb)) = m_FD eb"
  "m_pWriteBuffer (snd (delBuffer api n eb)) = m_pWriteBuffer eb"
  by (auto simp: delBuffer_def split: option.split prod.split)

lemma delBuffer_wr [evb]: "wr content (snd (delBuffer api n eb)) = wr content eb"
  by (simp add: wr_def)

lemma writeBuffer_wr:
  assumes "evbuffer_laws api content" and "m_pWriteBuffer eb \<noteq> None"
  shows "fst (writeBuffer api (Some xs) eb) = Q_RTN_OK"
    and "wr content (snd (writeBuffer api (Some xs) eb)) = wr content eb @ xs"
    and "m_pWriteBuffer (snd (writeBuffer api (Some xs) eb)) \<noteq> None"
proof -
  obtain b where b: "m_pWriteBuffer eb = Some b" using assms(2) by auto
  obtain r b' where rb: "evbuffer_add api b xs = (r, b')" by force
  with evbuffer_lawsD(7,8) [OF assms(1), of b xs] have "r = 0" "content b' = content b @ xs"
    by simp_all
  with b rb show "fst (writeBuffer api (Some xs) eb) = Q_RTN_OK"
    and "wr content (snd (writeBuffer api (Some xs) eb)) = wr content eb @ xs"
    and "m_pWriteBuffer (snd (writeBuffer api (Some xs) eb)) \<noteq> None"
    by (simp_all add: writeBuffer_def wr_def Q_RTN_OK_def)
qed

lemma writeBuffer_rd [simp]:
  "m_pReadBuffer (snd (writeBuffer api xs eb)) = m_pReadBuffer eb"
  "m_FD (snd (writeBuffer api xs eb)) = m_FD eb"
  "m_pBev (snd (writeBuffer api xs eb)) = m_pBev eb"
  by (auto simp: writeBuffer_def split: option.split prod.split)

lemma pokeBuffer_rd [evb]:
  assumes "evbuffer_laws api content" and "length xs \<le> length (rd content eb)"
  shows "rd content (pokeBuffer api xs eb) = xs @ drop (length xs) (rd content eb)"
  using assms by (auto simp: pokeBuffer_def rd_def evbuffer_lawsD(4) split: option.splits)

text \<open>A buffer that is only its contents satisfies the laws: they are consistent.\<close>

definition list_evbuffer :: "(unit, byte list) evbuffer_api" where
  "list_evbuffer = \<lparr>evbuffer_get_length = length,
     evbuffer_pullup = (\<lambda>b n. if n < 0 then Some b else if nat n \<le> length b \<and> n \<noteq> 0
                              then Some (take (nat n) b) else None),
     evbuffer_poke = (\<lambda>b xs. xs @ drop (length xs) b),
     evbuffer_drain = (\<lambda>b n. (0, drop n b)),
     evbuffer_add = (\<lambda>b xs. (0, b @ xs)),
     evbuffer_add_buffer = (\<lambda>w r. (0, w @ r, [])),
     evbuffer_search = (\<lambda>b pat. find_bytes pat b 0),
     bufferevent_get_input = (\<lambda>_. Some []),
     bufferevent_get_output = (\<lambda>_. Some []),
     bufferevent_getfd = (\<lambda>_. 7)\<rparr>"

lemma list_evbuffer_laws: "evbuffer_laws list_evbuffer id"
  by (simp add: evbuffer_laws_def list_evbuffer_def)

end
