(* ===== verification/Tcp_Parser.thy ===== *)
theory Tcp_Parser
  imports Event_Buffer
begin

text \<open>
  \<^verbatim>\<open>QBase/TcpParser.cpp\<close>: the length-prefixed framing of the TCP protocol. A frame is one byte
  (the length up to 125, or the marks 126 and 127), for 126 a 16-bit and for 127 a 32-bit length
  in network byte order, and the payload. \<open>sz\<close> is \<^verbatim>\<open>sizeof(size_t)\<close>; the marks matter because the
  code copies and reads the 127 length as a \<^verbatim>\<open>size_t\<close>.
\<close>

section \<open>The parser object\<close>

record tcp_parser =
  tcp_iParsedLens :: nat
  tcp_iBufLens :: nat
  tcp_iHeadLens :: nat
  tcp_iTotalLens :: nat
  tcp_iNeedReadLens :: nat
  tcp_acHead :: "byte list"

definition TCP_HRAD_MAXLENS :: nat where "TCP_HRAD_MAXLENS = 5"
definition TCPBUFLENS_125 :: nat where "TCPBUFLENS_125 = 125"
definition TCPBUFLENS_126 :: nat where "TCPBUFLENS_126 = 126"
definition TCPBUFLENS_127 :: nat where "TCPBUFLENS_127 = 127"

lemmas tcp_consts = TCP_HRAD_MAXLENS_def TCPBUFLENS_125_def TCPBUFLENS_126_def TCPBUFLENS_127_def

definition CTcpParser_init :: tcp_parser where
  "CTcpParser_init = \<lparr>tcp_iParsedLens = 0, tcp_iBufLens = 0, tcp_iHeadLens = 0,
     tcp_iTotalLens = 0, tcp_iNeedReadLens = 0, tcp_acHead = replicate TCP_HRAD_MAXLENS 0\<rparr>"

text \<open>
  \<^verbatim>\<open>parseHead\<close>, with 3 for \<^verbatim>\<open>sizeof(cFlag) + sizeof(unsigned short)\<close> and 5 for
  \<^verbatim>\<open>sizeof(cFlag) + sizeof(unsigned int)\<close>. \<^verbatim>\<open>char\<close> is signed, so the comparison with 125 is a signed one and the cast to
  \<^verbatim>\<open>size_t\<close> extends the sign.
\<close>

definition tcp_parseHead ::
  "nat \<Rightarrow> ('bev, 'b) evbuffer_api \<Rightarrow> ('bev, 'b) event_buffer \<Rightarrow> tcp_parser
     \<Rightarrow> cfault + bool \<times> tcp_parser"
where
  "tcp_parseHead sz api pBuffer p0 =
     (let p = p0\<lparr>tcp_iNeedReadLens := 1\<rparr>
      in case readBuffer sz api 1 pBuffer of
           None \<Rightarrow> Inr (False, p)
         | Some [] \<Rightarrow> Inl OutOfBounds
         | Some (cFlag # _) \<Rightarrow>
             if sint cFlag \<le> int TCPBUFLENS_125 then
               Inr (True, p\<lparr>tcp_iHeadLens := 1, tcp_iBufLens := size_of_char sz cFlag\<rparr>)
             else if sint cFlag = int TCPBUFLENS_126 then
               (let p1 = p\<lparr>tcp_iNeedReadLens := 3\<rparr>
                in if tcp_iTotalLens p1 < tcp_iNeedReadLens p1 then Inr (False, p1)
                   else case readBuffer sz api (tcp_iNeedReadLens p1) pBuffer of
                          None \<Rightarrow> Inr (False, p1)
                        | Some pHead \<Rightarrow>
                            (case load_le 2 1 pHead of
                               Inl e \<Rightarrow> Inl e
                             | Inr v \<Rightarrow>
                                 Inr (True, p1\<lparr>tcp_iBufLens := ntohs v, tcp_iHeadLens := 3\<rparr>)))
             else if sint cFlag = int TCPBUFLENS_127 then
               (let p1 = p\<lparr>tcp_iNeedReadLens := 5\<rparr>
                in if tcp_iTotalLens p1 < tcp_iNeedReadLens p1 then Inr (False, p1)
                   else case readBuffer sz api (tcp_iNeedReadLens p1) pBuffer of
                          None \<Rightarrow> Inr (False, p1)
                        | Some pHead \<Rightarrow>
                            (case load_le sz 1 pHead of
                               Inl e \<Rightarrow> Inl e
                             | Inr v \<Rightarrow>
                                 Inr (True, p1\<lparr>tcp_iBufLens := ntohl (v mod 2 ^ 32),
                                                tcp_iHeadLens := 1 + sz\<rparr>)))
             else Inr (False, p))"

text \<open>\<^verbatim>\<open>parsePack\<close>: the payload the returned pointer gives access to, or \<^verbatim>\<open>NULL\<close>.\<close>

definition tcp_parsePack ::
  "nat \<Rightarrow> ('bev, 'b) evbuffer_api \<Rightarrow> ('bev, 'b) event_buffer \<Rightarrow> tcp_parser
     \<Rightarrow> cfault + byte list option \<times> tcp_parser"
where
  "tcp_parsePack sz api pBuffer p0 =
     (let p = p0\<lparr>tcp_iBufLens := 0, tcp_iParsedLens := 0, tcp_iTotalLens := getTotalLens api pBuffer\<rparr>
      in if tcp_iTotalLens p = 0 then Inr (None, p)
         else case tcp_parseHead sz api pBuffer p of
                Inl e \<Rightarrow> Inl e
              | Inr (False, p1) \<Rightarrow> Inr (None, p1)
              | Inr (True, p1) \<Rightarrow>
                  (let p2 = p1\<lparr>tcp_iNeedReadLens :=
                                 (tcp_iHeadLens p1 + tcp_iBufLens p1) mod size_mod sz\<rparr>
                   in if tcp_iNeedReadLens p2 > tcp_iTotalLens p2 then Inr (None, p2)
                      else if tcp_iBufLens p2 = 0
                      then Inr (Some [], p2\<lparr>tcp_iParsedLens := tcp_iHeadLens p2\<rparr>)
                      else case readBuffer sz api (tcp_iNeedReadLens p2) pBuffer of
                             None \<Rightarrow> Inr (None, p2)
                           | Some pMsg \<Rightarrow>
                               Inr (Some (drop (tcp_iHeadLens p2) pMsg),
                                    p2\<lparr>tcp_iParsedLens :=
                                       (tcp_iHeadLens p2 + tcp_iBufLens p2) mod size_mod sz\<rparr>)))"

text \<open>
  \<^verbatim>\<open>createHead\<close>: the first \<open>iHeadLens\<close> bytes of \<^verbatim>\<open>m_acHead\<close> are the header. The copies go to
  offset 1 of an array of five bytes.
\<close>

definition tcp_createHead ::
  "nat \<Rightarrow> nat \<Rightarrow> tcp_parser \<Rightarrow> cfault + byte list \<times> tcp_parser" where
  "tcp_createHead sz iLens p =
     (if iLens \<le> TCPBUFLENS_125 then
        (let h = (tcp_acHead p)[0 := of_nat iLens]
         in Inr (take 1 h, p\<lparr>tcp_acHead := h\<rparr>))
      else if iLens > TCPBUFLENS_125 \<and> iLens \<le> 0xFFFF then
        (let h = (tcp_acHead p)[0 := of_nat TCPBUFLENS_126]
         in case store_bytes (le_bytes 2 (ntohs (iLens mod 2 ^ 16))) 1 h of
              Inl e \<Rightarrow> Inl e
            | Inr h' \<Rightarrow> Inr (take (1 + 2) h', p\<lparr>tcp_acHead := h'\<rparr>))
      else
        (let h = (tcp_acHead p)[0 := of_nat TCPBUFLENS_127]
         in case store_bytes (le_bytes sz (ntohl (iLens mod 2 ^ 32))) 1 h of
              Inl e \<Rightarrow> Inl e
            | Inr h' \<Rightarrow> Inr (take (1 + sz) h', p\<lparr>tcp_acHead := h'\<rparr>)))"

section \<open>The frame format\<close>

text \<open>What a sender puts on the wire, and what \<^verbatim>\<open>parsePack\<close> makes of the bytes it finds.\<close>

definition tcp_frame_head :: "nat \<Rightarrow> byte list" where
  "tcp_frame_head n =
     (if n \<le> 125 then [of_nat n]
      else if n \<le> 0xFFFF then 126 # be_bytes 2 n else 127 # be_bytes 4 n)"

definition tcp_frame :: "byte list \<Rightarrow> byte list" where
  "tcp_frame msg = tcp_frame_head (length msg) @ msg"

text \<open>The longest message the 32-bit length field and \<open>sz\<close>-byte sizes can carry.\<close>

definition tcp_msg_ok :: "nat \<Rightarrow> byte list \<Rightarrow> bool" where
  "tcp_msg_ok sz msg \<longleftrightarrow> (sz = 4 \<or> sz = 8) \<and> 2 * (length msg + 5) < size_mod sz \<and>
     (length msg \<le> 0xFFFF \<or> sz = 4)"

text \<open>
  The abstract view of \<^verbatim>\<open>parsePack\<close>: the payload of the first frame of the bytes received so far
  and the number of bytes the frame takes, or nothing while it is incomplete.
\<close>

definition tcp_next_body :: "nat \<Rightarrow> nat \<Rightarrow> byte list \<Rightarrow> (byte list \<times> nat) option" where
  "tcp_next_body h n bs =
     (if h + n \<le> length bs then Some (take n (drop h bs), h + n) else None)"

definition tcp_next :: "byte list \<Rightarrow> (byte list \<times> nat) option" where
  "tcp_next bs =
     (if bs = [] then None
      else let f = unat (hd bs) in
        if f \<le> 125 then tcp_next_body 1 f bs
        else if f = 126 then
          (if 3 \<le> length bs then tcp_next_body 3 (be_val (take 2 (drop 1 bs))) bs else None)
        else if f = 127 then
          (if 5 \<le> length bs then tcp_next_body 5 (be_val (take 4 (drop 1 bs))) bs else None)
        else None)"

section \<open>Headers\<close>

lemma le_bytes_ntohs: "le_bytes 2 (ntohs v) = be_bytes 2 v"
  by (simp add: ntohs_def byte_simps)

lemma le_bytes_ntohl: "le_bytes 4 (ntohl v) = be_bytes 4 v"
  by (simp add: ntohl_def byte_simps)

lemma be_bytes_mod: "be_bytes n (v mod 256 ^ n) = be_bytes n v"
  by (simp add: be_bytes_def byte_simps)

lemma tcp_createHead_spec_aux:
  assumes "length (tcp_acHead p) = TCP_HRAD_MAXLENS" and "n < 2 ^ 32" and "sz = 4 \<or> sz = 8"
  shows "tcp_createHead sz n p =
    (if n \<le> 0xFFFF \<or> sz = 4
     then Inr (tcp_frame_head n, p\<lparr>tcp_acHead := tcp_frame_head n @
                                    drop (length (tcp_frame_head n)) (tcp_acHead p)\<rparr>)
     else Inl OutOfBounds)"
proof -
  obtain a b c d e where h: "tcp_acHead p = [a, b, c, d, e]"
    using length_5D assms(1) unfolding tcp_consts by blast
  have small: "be_bytes 2 (n mod 65536) = be_bytes 2 n"
    using be_bytes_mod [of 2 n] by simp
  consider "n \<le> 125" | "125 < n" "n \<le> 0xFFFF" | "0xFFFF < n" by linarith
  then show ?thesis
  proof cases
    case 1
    then show ?thesis by (simp add: tcp_createHead_def tcp_frame_head_def tcp_consts h)
  next
    case 2
    obtain x y where xy: "be_bytes 2 n = [x, y]" using length_2D length_be_bytes by blast
    from 2 show ?thesis
      by (simp add: tcp_createHead_def tcp_frame_head_def tcp_consts h store_bytes_def
          le_bytes_ntohs small xy)
  next
    case 3
    show ?thesis
    proof (cases "sz = 4")
      case True
      obtain w x y z where wz: "be_bytes 4 n = [w, x, y, z]" using length_4D length_be_bytes by blast
      from True 3 assms(2) show ?thesis
        by (simp add: tcp_createHead_def tcp_frame_head_def tcp_consts h store_bytes_def
            le_bytes_ntohl wz)
    next
      case False
      with 3 assms(3) show ?thesis
        by (simp add: tcp_createHead_def tcp_consts h store_bytes_def)
    qed
  qed
qed

text \<open>
  \<^verbatim>\<open>createHead\<close> on every branch: up to 65535 bytes, and on a 32-bit build up to the limit of the
  length field, the header it returns is the header of the frame format; on a 64-bit build every
  longer message makes it copy eight bytes to offset 1 of the five-byte array.
\<close>

theorem tcp_createHead_spec:
  assumes "length (tcp_acHead p) = TCP_HRAD_MAXLENS" and "n < 2 ^ 32" and "sz = 4 \<or> sz = 8"
  shows "tcp_createHead sz n p =
    (if n \<le> 0xFFFF \<or> sz = 4
     then Inr (tcp_frame_head n, p\<lparr>tcp_acHead := tcp_frame_head n @
                                    drop (length (tcp_frame_head n)) (tcp_acHead p)\<rparr>)
     else Inl OutOfBounds)"
  by (rule tcp_createHead_spec_aux [OF assms])

theorem tcp_createHead_spec_witness:
  "tcp_createHead 4 70000 CTcpParser_init =
     Inr (tcp_frame_head 70000, CTcpParser_init\<lparr>tcp_acHead := tcp_frame_head 70000\<rparr>)
   \<and> tcp_createHead 8 70000 CTcpParser_init = Inl OutOfBounds"
  using tcp_createHead_spec [of CTcpParser_init 70000 4]
    tcp_createHead_spec [of CTcpParser_init 70000 8]
  by (simp add: CTcpParser_init_def tcp_consts tcp_frame_head_def)

section \<open>Parsing\<close>

text \<open>
  A 64-bit build reads the length of a 127 frame as an eight-byte \<^verbatim>\<open>size_t\<close> although only five
  bytes were made contiguous.
\<close>

definition tcp_overread :: "nat \<Rightarrow> byte list \<Rightarrow> bool" where
  "tcp_overread sz bs \<longleftrightarrow> sz = 8 \<and> 5 \<le> length bs \<and> unat (hd bs) = 127"

lemma take_drop_head: "h \<le> n \<Longrightarrow> n \<le> length bs \<Longrightarrow> drop h (take n bs) = take (n - h) (drop h bs)"
  by (simp add: drop_take)

definition tcp_parses ::
  "nat \<Rightarrow> ('bev, 'b) evbuffer_api \<Rightarrow> ('bev, 'b) event_buffer \<Rightarrow> tcp_parser
     \<Rightarrow> (byte list \<times> nat) option \<Rightarrow> bool"
where
  "tcp_parses sz api eb p r \<longleftrightarrow>
     (\<exists>p'. tcp_parsePack sz api eb p = Inr (map_option fst r, p') \<and>
        (\<forall>m k. r = Some (m, k) \<longrightarrow> tcp_iParsedLens p' = k \<and> tcp_iBufLens p' = length m))"

lemma tcp_parsePack_body:
  assumes laws: "evbuffer_laws api content" and bs: "bs = rd content eb" "bs \<noteq> []"
    and big: "2 * length bs < size_mod sz"
    and head: "tcp_parseHead sz api eb
        (p0\<lparr>tcp_iBufLens := 0, tcp_iParsedLens := 0, tcp_iTotalLens := length bs\<rparr>) = Inr (True, p1)"
    and p1: "tcp_iHeadLens p1 = h" "tcp_iBufLens p1 = n" "tcp_iTotalLens p1 = length bs"
    and hn: "0 < h" "h + n < size_mod sz"
  shows "tcp_parses sz api eb p0 (tcp_next_body h n bs)"
proof -
  have tot: "getTotalLens api eb = length bs" using laws bs by (simp add: evb)
  have rb: "h + n \<le> length bs \<Longrightarrow> readBuffer sz api (h + n) eb = Some (take (h + n) bs)"
    using readBuffer_Some [OF laws, of "h + n" eb sz] hn big bs by simp
  show ?thesis
    using bs(2) head p1 hn rb
    by (auto simp: tcp_parses_def tcp_parsePack_def tot Let_def tcp_next_body_def take_drop_head)
qed

lemma tcp_parsePack_incomplete:
  assumes laws: "evbuffer_laws api content" and bs: "bs = rd content eb" "bs \<noteq> []"
    and head: "tcp_parseHead sz api eb
        (p0\<lparr>tcp_iBufLens := 0, tcp_iParsedLens := 0, tcp_iTotalLens := length bs\<rparr>) = Inr (False, p1)"
  shows "tcp_parses sz api eb p0 None"
  using assms by (simp add: tcp_parses_def tcp_parsePack_def evb Let_def)

text \<open>The header of each kind of frame, over the bytes received.\<close>

lemma sint_cmp_simps:
  "sint (f :: byte) \<le> 125 \<longleftrightarrow> unat f \<le> 125 \<or> 128 \<le> unat f"
  "sint (f :: byte) = 126 \<longleftrightarrow> unat f = 126"
  "sint (f :: byte) = 127 \<longleftrightarrow> unat f = 127"
  using unat_byte_less [of f] by (auto simp: sint_byte simp del: of_nat_unat unat_byte_less)

lemma read_first:
  assumes "evbuffer_laws api content" and "bs = rd content eb" and "bs \<noteq> []"
    and "2 * length bs < size_mod sz"
  shows "readBuffer sz api 1 eb = Some [hd bs]"
proof -
  have "1 \<le> length (rd content eb)" using assms(2,3) by (simp add: Suc_le_eq)
  then have "readBuffer sz api 1 eb = Some (take 1 bs)"
    using readBuffer_Some [OF assms(1), of 1 eb sz] assms(2,4) by simp
  then show ?thesis using assms(3) by (cases bs) auto
qed

lemma ntohs_load: "3 \<le> length bs \<Longrightarrow> load_le 2 1 (take 3 bs) = Inr (le_val (take 2 (drop 1 bs)))"
  by (simp add: take_drop_head)

lemma ntohl_load: "5 \<le> length bs \<Longrightarrow> load_le 4 1 (take 5 bs) = Inr (le_val (take 4 (drop 1 bs)))"
  by (simp add: take_drop_head)

lemma ntohs_be: "length xs = 2 \<Longrightarrow> ntohs (le_val xs) = be_val xs"
  by (simp add: ntohs_def byte_simps)

lemma ntohl_be: "length xs = 4 \<Longrightarrow> ntohl (le_val xs mod 2 ^ 32) = be_val xs"
  using le_val_less [of xs] by (simp add: ntohl_def byte_simps)

lemma tcp_parseHead_short:
  assumes "evbuffer_laws api content" and "bs = rd content eb" and "bs \<noteq> []"
    and "2 * length bs < size_mod sz" and "0 < sz" and "unat (hd bs) \<le> 125 \<or> 128 \<le> unat (hd bs)"
  shows "tcp_parseHead sz api eb p =
     Inr (True, p\<lparr>tcp_iNeedReadLens := 1, tcp_iHeadLens := 1, tcp_iBufLens := size_of_char sz (hd bs)\<rparr>)"
  using read_first [OF assms(1-4)] assms(6)
  by (simp add: tcp_parseHead_def Let_def sint_cmp_simps tcp_consts)

lemma tcp_parseHead_126:
  assumes "evbuffer_laws api content" and "bs = rd content eb" and "bs \<noteq> []"
    and "2 * length bs < size_mod sz" and "0 < sz" and "unat (hd bs) = 126"
    and "tcp_iTotalLens p = length bs"
  shows "tcp_parseHead sz api eb p =
     (if 3 \<le> length bs
      then Inr (True, p\<lparr>tcp_iNeedReadLens := 3, tcp_iBufLens := be_val (take 2 (drop 1 bs)),
                       tcp_iHeadLens := 3\<rparr>)
      else Inr (False, p\<lparr>tcp_iNeedReadLens := 3\<rparr>))"
proof -
  have r1: "readBuffer sz api 1 eb = Some [hd bs]" by (rule read_first [OF assms(1-4)])
  have r3: "3 \<le> length bs \<Longrightarrow> readBuffer sz api 3 eb = Some (take 3 bs)"
    using readBuffer_Some [OF assms(1), of 3 eb sz] assms(2,4) by simp
  have l3: "3 \<le> length bs \<Longrightarrow> ntohs (le_val (take 2 (drop 1 bs))) = be_val (take 2 (drop 1 bs))"
    by (simp add: ntohs_be)
  show ?thesis
    using r1 r3 l3 ntohs_load [of bs] assms(6,7)
    by (simp add: tcp_parseHead_def Let_def sint_cmp_simps tcp_consts del: load_le_Inr)
qed

lemma tcp_parseHead_127:
  assumes "evbuffer_laws api content" and "bs = rd content eb" and "bs \<noteq> []"
    and "2 * length bs < size_mod sz" and "sz = 4 \<or> sz = 8" and "unat (hd bs) = 127"
    and "tcp_iTotalLens p = length bs"
  shows "tcp_parseHead sz api eb p =
     (if length bs < 5 then Inr (False, p\<lparr>tcp_iNeedReadLens := 5\<rparr>)
      else if sz = 8 then Inl OutOfBounds
      else Inr (True, p\<lparr>tcp_iNeedReadLens := 5, tcp_iBufLens := be_val (take 4 (drop 1 bs)),
                       tcp_iHeadLens := 5\<rparr>))"
proof -
  have r1: "readBuffer sz api 1 eb = Some [hd bs]" by (rule read_first [OF assms(1-4)])
  have r5: "5 \<le> length bs \<Longrightarrow> readBuffer sz api 5 eb = Some (take 5 bs)"
    using readBuffer_Some [OF assms(1), of 5 eb sz] assms(2,4) by simp
  have l5: "5 \<le> length bs \<Longrightarrow>
      ntohl (le_val (take 4 (drop 1 bs)) mod 2 ^ 32) = be_val (take 4 (drop 1 bs))"
    by (intro ntohl_be) simp
  show ?thesis
  proof (cases "sz = 8")
    case True
    with r1 r5 assms(6,7) show ?thesis
      by (simp add: tcp_parseHead_def Let_def sint_cmp_simps tcp_consts load_le_def)
  next
    case False
    with assms(5) have "sz = 4" by simp
    with r1 r5 l5 ntohl_load [of bs] assms(6,7) show ?thesis
      by (simp add: tcp_parseHead_def Let_def sint_cmp_simps tcp_consts del: load_le_Inr)
  qed
qed

text \<open>Headers whose announced length makes the sum of header and payload overflow \<^verbatim>\<open>size_t\<close>.\<close>

definition tcp_wraps :: "byte list \<Rightarrow> bool" where
  "tcp_wraps bs \<longleftrightarrow> bs \<noteq> [] \<and> (unat (hd bs) = 255 \<or>
     unat (hd bs) = 127 \<and> 5 \<le> length bs \<and> 2 ^ 32 - 5 \<le> be_val (take 4 (drop 1 bs)))"

lemma size_mod_4_8: "sz = 4 \<or> sz = 8 \<Longrightarrow> 2 ^ 32 \<le> size_mod sz"
  by (auto simp: size_mod_def)

lemma be_val_take_less: "be_val (take k (drop 1 bs)) < 256 ^ k"
  by (rule order_less_le_trans [OF be_val_less power_increasing]) auto

lemma tcp_parsePack_refines_aux:
  assumes laws: "evbuffer_laws api content" and bs: "bs = rd content eb"
    and big: "2 * length bs < size_mod sz" and sz: "sz = 4 \<or> sz = 8" and nowrap: "\<not> tcp_wraps bs"
  shows "if tcp_overread sz bs then tcp_parsePack sz api eb p = Inl OutOfBounds
         else tcp_parses sz api eb p (tcp_next bs)"
proof (cases "bs = []")
  case True
  with laws bs show ?thesis
    by (auto simp: tcp_parses_def tcp_parsePack_def tcp_next_def tcp_overread_def evb Let_def)
next
  case ne: False
  let ?p = "p\<lparr>tcp_iBufLens := 0, tcp_iParsedLens := 0, tcp_iTotalLens := length bs\<rparr>"
  let ?f = "unat (hd bs)"
  have pos: "0 < sz" using sz by auto
  note m = size_mod_4_8 [OF sz]
  note short = tcp_parseHead_short [OF laws bs ne big pos, of ?p]
  note body = tcp_parsePack_body [OF laws bs ne big, of p]
  consider "?f \<le> 125" | "?f = 126" | "?f = 127" | "128 \<le> ?f" by linarith
  then show ?thesis
  proof cases
    case 1
    have "tcp_parses sz api eb p (tcp_next_body 1 ?f bs)"
      by (rule body [OF short]) (use 1 m pos in \<open>simp_all add: size_of_char_nonneg\<close>)
    with 1 ne show ?thesis by (simp add: tcp_next_def tcp_overread_def)
  next
    case 2
    note h = tcp_parseHead_126 [OF laws bs ne big pos 2, of ?p]
    show ?thesis
    proof (cases "3 \<le> length bs")
      case True
      let ?n = "be_val (take 2 (drop 1 bs))"
      have "tcp_parseHead sz api eb ?p =
          Inr (True, ?p\<lparr>tcp_iNeedReadLens := 3, tcp_iBufLens := ?n, tcp_iHeadLens := 3\<rparr>)"
        using h True by simp
      from body [OF this, of 3 ?n] have "tcp_parses sz api eb p (tcp_next_body 3 ?n bs)"
        using m be_val_take_less [of 2 bs] by simp
      with True 2 ne show ?thesis by (simp add: tcp_next_def tcp_overread_def)
    next
      case False
      with h have "tcp_parseHead sz api eb ?p = Inr (False, ?p\<lparr>tcp_iNeedReadLens := 3\<rparr>)" by simp
      from tcp_parsePack_incomplete [OF laws bs ne this] 2 False ne show ?thesis
        by (simp add: tcp_next_def tcp_overread_def)
    qed
  next
    case 3
    note h = tcp_parseHead_127 [OF laws bs ne big sz 3, of ?p]
    consider "length bs < 5" | "5 \<le> length bs" "sz = 8" | "5 \<le> length bs" "sz = 4"
      using sz by linarith
    then show ?thesis
    proof cases
      case 1
      with h have "tcp_parseHead sz api eb ?p = Inr (False, ?p\<lparr>tcp_iNeedReadLens := 5\<rparr>)" by simp
      from tcp_parsePack_incomplete [OF laws bs ne this] 1 3 ne show ?thesis
        by (simp add: tcp_next_def tcp_overread_def)
    next
      case 2
      with h laws bs ne 3 show ?thesis
        by (simp add: tcp_parsePack_def evb Let_def tcp_overread_def)
    next
      case 4: 3
      let ?n = "be_val (take 4 (drop 1 bs))"
      have "tcp_parseHead sz api eb ?p =
          Inr (True, ?p\<lparr>tcp_iNeedReadLens := 5, tcp_iBufLens := ?n, tcp_iHeadLens := 5\<rparr>)"
        using h 4 by simp
      from body [OF this, of 5 ?n] have "tcp_parses sz api eb p (tcp_next_body 5 ?n bs)"
        using nowrap ne 3 4 m by (auto simp: tcp_wraps_def)
      with 3 4 ne show ?thesis by (simp add: tcp_next_def tcp_overread_def)
    qed
  next
    case 4
    let ?n = "size_mod sz + ?f - 256"
    have f: "?f < 255" using nowrap ne unat_byte_less [of "hd bs"]
      by (auto simp: tcp_wraps_def simp del: unat_byte_less)
    have "tcp_parses sz api eb p (tcp_next_body 1 ?n bs)"
      by (rule body [OF short]) (use 4 f m pos in \<open>simp_all add: size_of_char_neg\<close>)
    moreover have "tcp_next_body 1 ?n bs = None" using 4 big m by (simp add: tcp_next_body_def)
    ultimately show ?thesis using 4 ne by (simp add: tcp_next_def tcp_overread_def)
  qed
qed

lemma tcp_parsePack_overread:
  assumes "evbuffer_laws api content" "bs = rd content eb" "2 * length bs < size_mod sz" "tcp_overread sz bs"
  shows "tcp_parsePack sz api eb p = Inl OutOfBounds"
proof -
  have o: "sz = 8" "5 \<le> length bs" "unat (hd bs) = 127" "bs \<noteq> []" using assms(4) by (auto simp: tcp_overread_def)
  have "tcp_parseHead sz api eb (p\<lparr>tcp_iBufLens := 0, tcp_iParsedLens := 0, tcp_iTotalLens := length bs\<rparr>) = Inl OutOfBounds"
    using tcp_parseHead_127 [OF assms(1,2) o(4) assms(3) _ o(3)] o(1,2) by simp
  then show ?thesis using assms(1,2) o(4) by (simp add: tcp_parsePack_def evb Let_def)
qed

text \<open>When the sum wraps around, it is at most four and passes as the length of a complete frame.\<close>

lemma tcp_parsePack_wraps:
  assumes laws: "evbuffer_laws api content" and bs: "bs = rd content eb"
    and big: "2 * length bs < size_mod sz" and sz: "sz = 4 \<or> sz = 8" and wrap: "tcp_wraps bs" and over: "\<not> tcp_overread sz bs"
  shows "\<exists>p'. tcp_parsePack sz api eb p = Inr (map_option (drop (tcp_iHeadLens p')) (readBuffer sz api (tcp_iNeedReadLens p') eb), p')
     \<and> tcp_iNeedReadLens p' < 5 \<and> length bs < tcp_iBufLens p'"
proof -
  have ne: "bs \<noteq> []" using wrap by (simp add: tcp_wraps_def)
  have pos: "0 < sz" using sz by auto
  note m = size_mod_4_8 [OF sz]
  have tot: "getTotalLens api eb = length bs" using laws bs by (simp add: evb)
  let ?p = "p\<lparr>tcp_iBufLens := 0, tcp_iParsedLens := 0, tcp_iTotalLens := length bs\<rparr>"
  have wraps: ?thesis
    if "tcp_parseHead sz api eb ?p = Inr (True, p1)" "tcp_iHeadLens p1 = h" "tcp_iBufLens p1 = n" "tcp_iTotalLens p1 = length bs"
      "(h + n) mod size_mod sz < 5" "(h + n) mod size_mod sz \<le> length bs" "length bs < n" for p1 h n
  proof -
    let ?p2 = "p1\<lparr>tcp_iNeedReadLens := (h + n) mod size_mod sz\<rparr>"
    let ?p3 = "?p2\<lparr>tcp_iParsedLens := (h + n) mod size_mod sz\<rparr>"
    have "tcp_parsePack sz api eb p = (case readBuffer sz api ((h + n) mod size_mod sz) eb of None \<Rightarrow> Inr (None, ?p2) | Some pMsg \<Rightarrow> Inr (Some (drop h pMsg), ?p3))"
      using that ne tot by (auto simp: tcp_parsePack_def Let_def split: option.split)
    then show ?thesis using that(2,3,5,7)
      by (cases "readBuffer sz api ((h + n) mod size_mod sz) eb") (auto intro: exI [of _ ?p2] exI [of _ ?p3])
  qed
  consider "unat (hd bs) = 255" | "unat (hd bs) = 127" "5 \<le> length bs" "2 ^ 32 - 5 \<le> be_val (take 4 (drop 1 bs))" "sz = 4"
    using wrap over sz by (auto simp: tcp_wraps_def tcp_overread_def)
  then show ?thesis
  proof cases
    case 1
    let ?n = "size_mod sz + unat (hd bs) - 256"
    have "(1 + ?n) mod size_mod sz = 0" "length bs < ?n" using 1 m big by simp_all
    then show ?thesis
      using wraps [OF tcp_parseHead_short [OF laws bs ne big pos, of ?p], of 1 ?n] 1 size_of_char_neg [of "hd bs" sz] pos by simp
  next
    case 2
    let ?n = "be_val (take 4 (drop 1 bs))"
    have n: "?n < 2 ^ 32" using be_val_take_less [of 4 bs] by simp
    have "(5 + ?n) mod 2 ^ 32 = 5 + ?n - 2 ^ 32" using 2(3) n by (subst le_mod_geq) simp_all
    moreover have "5 + ?n - 2 ^ 32 < 5" using n by linarith
    ultimately have "(5 + ?n) mod size_mod 4 < 5" by (simp add: size_mod_def)
    moreover have "length bs < ?n" using 2(3,4) big by (simp add: size_mod_def)
    ultimately show ?thesis
      using wraps [of "?p\<lparr>tcp_iNeedReadLens := 5, tcp_iBufLens := ?n, tcp_iHeadLens := 5\<rparr>" 5 ?n]
        tcp_parseHead_127 [OF laws bs ne big sz 2(1), of ?p] 2(2,4) by simp
  qed
qed

text \<open>
  C11. \<^verbatim>\<open>parsePack\<close> on every content of the buffer. It finds exactly the first complete frame: its result, the payload length and the number of
  bytes parsed are those of the frame format (\<^verbatim>\<open>NULL\<close> while the frame is incomplete), except in two cases that are told apart. A 64-bit build reads outside
  the bytes it asked for as soon as a 127 header has arrived; and where header and announced length wrap around \<^verbatim>\<open>size_t\<close>, which the byte 255 does on
  every build, the sum, at most four, passes as the length of a complete frame, a payload longer than everything received is announced, and
  the pointer is what pulling up so many bytes gives.
\<close>

theorem tcp_parsePack_refines:
  assumes laws: "evbuffer_laws api content" and bs: "bs = rd content eb"
    and big: "2 * length bs < size_mod sz" and sz: "sz = 4 \<or> sz = 8"
  shows "if tcp_overread sz bs then tcp_parsePack sz api eb p = Inl OutOfBounds
         else if tcp_wraps bs
         then \<exists>p'. tcp_parsePack sz api eb p = Inr (map_option (drop (tcp_iHeadLens p')) (readBuffer sz api (tcp_iNeedReadLens p') eb), p')
            \<and> tcp_iNeedReadLens p' < 5 \<and> length bs < tcp_iBufLens p'
         else tcp_parses sz api eb p (tcp_next bs)"
proof (cases "tcp_overread sz bs")
  case True
  then show ?thesis using tcp_parsePack_overread [OF laws bs big] by simp
next
  case False
  then show ?thesis using tcp_parsePack_refines_aux [OF assms, of p] tcp_parsePack_wraps [OF assms _ False, of p] by simp
qed

theorem tcp_parsePack_refines_witness:
  "tcp_parses 8 list_evbuffer
     (CEventBuffer_init\<lparr>m_pReadBuffer := Some [2, 10, 20, 30]\<rparr>) CTcpParser_init
     (Some ([10, 20], 3))
   \<and> (\<exists>r p'. tcp_parsePack 8 list_evbuffer (CEventBuffer_init\<lparr>m_pReadBuffer := Some [255]\<rparr>) CTcpParser_init = Inr (r, p') \<and> 1 < tcp_iBufLens p')"
proof -
  let ?eb = "\<lambda>bs. CEventBuffer_init\<lparr>m_pReadBuffer := Some bs\<rparr> :: (unit, byte list) event_buffer"
  have bs: "bs = rd id (?eb bs)" for bs by (simp add: rd_def CEventBuffer_init_def)
  have nx: "tcp_next [2, 10, 20, 30] = Some ([10, 20], 3)"
    by (simp add: tcp_next_def tcp_next_body_def)
  show ?thesis
    using tcp_parsePack_refines [OF list_evbuffer_laws bs, of "[2, 10, 20, 30]" 8 CTcpParser_init]
      tcp_parsePack_refines [OF list_evbuffer_laws bs, of "[255]" 8 CTcpParser_init]
    by (auto simp: size_mod_def tcp_wraps_def tcp_overread_def nx)
qed

section \<open>Frames\<close>

lemma length_tcp_frame_head:
  "length (tcp_frame_head n) = (if n \<le> 125 then 1 else if n \<le> 0xFFFF then 3 else 5)"
  by (simp add: tcp_frame_head_def)

lemma tcp_next_frame:
  assumes "length m < 2 ^ 32"
  shows "tcp_next (tcp_frame m @ rest) = Some (m, length (tcp_frame m))"
proof -
  consider "length m \<le> 125" | "125 < length m" "length m \<le> 0xFFFF" | "0xFFFF < length m"
    by linarith
  then show ?thesis
  proof cases
    case 1
    then show ?thesis
      by (simp add: tcp_frame_def tcp_frame_head_def tcp_next_def tcp_next_body_def unat_of_nat)
  next
    case 2
    then show ?thesis
      by (simp add: tcp_frame_def tcp_frame_head_def tcp_next_def tcp_next_body_def byte_simps)
  next
    case 3
    with assms show ?thesis
      by (simp add: tcp_frame_def tcp_frame_head_def tcp_next_def tcp_next_body_def byte_simps)
  qed
qed

lemma tcp_frame_nowrap: "length m + 5 < 2 ^ 32 \<Longrightarrow> \<not> tcp_wraps (tcp_frame m @ rest)"
  by (auto simp: tcp_frame_def tcp_frame_head_def tcp_wraps_def unat_of_nat byte_simps)

text \<open>
  What \<^verbatim>\<open>createHead\<close> and the payload put on the wire, \<^verbatim>\<open>parsePack\<close> takes off it again: whatever
  follows the frame, the payload comes back whole and the bytes parsed are exactly the frame.
\<close>

theorem tcp_roundtrip:
  assumes laws: "evbuffer_laws api content" and ok: "tcp_msg_ok sz m"
    and head: "length (tcp_acHead q) = TCP_HRAD_MAXLENS"
    and sent: "tcp_createHead sz (length m) q = Inr (h, q')"
    and bs: "rd content eb = h @ m @ rest" and big: "2 * length (rd content eb) < size_mod sz"
  shows "tcp_parses sz api eb p (Some (m, length (h @ m)))"
proof -
  have sz: "sz = 4 \<or> sz = 8" and lim: "length m + 5 < 2 ^ 32" and short: "length m \<le> 0xFFFF \<or> sz = 4"
    using ok by (auto simp: tcp_msg_ok_def size_mod_def)
  have h: "h = tcp_frame_head (length m)"
    using tcp_createHead_spec_aux [OF head _ sz, of "length m"] sent lim short by simp
  then have fr: "h @ m = tcp_frame m" by (simp add: tcp_frame_def)
  have no: "\<not> tcp_overread sz (rd content eb)"
    using bs h short unfolding tcp_overread_def
    by (auto simp: tcp_frame_head_def unat_of_nat split: if_splits)
  from fr bs have e: "rd content eb = tcp_frame m @ rest" by simp
  show ?thesis
    using tcp_parsePack_refines_aux [OF laws refl big sz, of p] tcp_frame_nowrap [OF lim, of rest] no e
      tcp_next_frame [of m rest] lim fr by simp
qed

text \<open>
  C15. The overflow is reachable from the network: on a 32-bit build a
  header that announces at least \<open>2 ^ 32 - 4\<close> bytes passes the completeness check, and
  \<^verbatim>\<open>parsePack\<close> hands out a pointer with a payload length larger than everything received.
\<close>

theorem tcp_length_overflow:
  assumes laws: "evbuffer_laws api content" and bs: "bs = rd content eb" "5 \<le> length bs"
    and big: "2 * length bs < size_mod 4" and head: "unat (hd bs) = 127"
    and n: "n = be_val (take 4 (drop 1 bs))" "2 ^ 32 - 4 \<le> n"
  shows "\<exists>p'. tcp_parsePack 4 api eb p = Inr (Some [], p') \<and> tcp_iBufLens p' = n \<and> length bs < n"
proof -
  have ne: "bs \<noteq> []" using bs(2) by auto
  have tot: "getTotalLens api eb = length bs" using laws bs by (simp add: evb)
  have n32: "n < 2 ^ 32" using n(1) be_val_take_less [of 4 bs] by simp
  let ?k = "n + 5 - 2 ^ 32"
  have k: "(5 + n) mod size_mod 4 = ?k" "0 < ?k" "?k < 5"
    using n(2) n32 by (simp_all add: size_mod_def mod_if)
  have rb: "readBuffer 4 api ?k eb = Some (take ?k bs)"
    using readBuffer_Some [OF laws, of ?k eb 4] k bs big by simp
  have "length bs < n" using n(2) big by (simp add: size_mod_def)
  with tcp_parseHead_127 [OF laws bs(1) ne big _ head,
      of "p\<lparr>tcp_iBufLens := 0, tcp_iParsedLens := 0, tcp_iTotalLens := length bs\<rparr>"]
    ne bs k rb n(1) show ?thesis
    by (auto simp: tcp_parsePack_def Let_def tot)
qed

theorem tcp_length_overflow_witness:
  "\<exists>p'. tcp_parsePack 4 list_evbuffer
      (CEventBuffer_init\<lparr>m_pReadBuffer := Some [127, 255, 255, 255, 255]\<rparr>) CTcpParser_init
      = Inr (Some [], p') \<and> tcp_iBufLens p' = 0xFFFFFFFF"
proof -
  let ?bs = "[127, 255, 255, 255, 255] :: byte list"
  let ?eb = "CEventBuffer_init\<lparr>m_pReadBuffer := Some ?bs\<rparr> :: (unit, byte list) event_buffer"
  have bs: "?bs = rd id ?eb" by (simp add: rd_def CEventBuffer_init_def)
  have be: "be_val (take 4 (drop 1 ?bs)) = 0xFFFFFFFF" by (simp add: be_val_def)
  show ?thesis
    using tcp_length_overflow [OF list_evbuffer_laws bs _ _ _ refl, of CTcpParser_init] be
    by (auto simp: size_mod_def)
qed

theorem tcp_roundtrip_witness:
  "tcp_parses 4 list_evbuffer
     (CEventBuffer_init\<lparr>m_pReadBuffer := Some [3, 7, 8, 9, 1]\<rparr>) CTcpParser_init
     (Some ([7, 8, 9], length [3, 7, 8, 9 :: byte]))"
proof -
  let ?eb = "CEventBuffer_init\<lparr>m_pReadBuffer := Some [3, 7, 8, 9, 1 :: byte]\<rparr> ::
    (unit, byte list) event_buffer"
  have "tcp_createHead 4 (length [7, 8, 9 :: byte]) CTcpParser_init =
      Inr ([3], CTcpParser_init\<lparr>tcp_acHead := [3, 0, 0, 0, 0]\<rparr>)"
    by (simp add: tcp_createHead_def CTcpParser_init_def tcp_consts eval_nat_numeral)
  then show ?thesis
    using tcp_roundtrip [OF list_evbuffer_laws, of 4 "[7, 8, 9]" CTcpParser_init "[3]" _ ?eb "[1]"
        CTcpParser_init]
    by (simp add: tcp_msg_ok_def size_mod_def CTcpParser_init_def tcp_consts rd_def
        CEventBuffer_init_def)
qed

end
