(* ===== verification/CSHA1.thy ===== *)
theory CSHA1
  imports SHS "HOL-Library.Monad_Syntax"
begin

text \<open>
  \<^verbatim>\<open>QBase/SHA1.cpp\<close>: \<^verbatim>\<open>CSHA1\<close>, the digest of the WebSocket handshake. Its block function keeps sixteen words of the message schedule in a
  ring that is overwritten as the rounds go on, and lets five variables change roles instead of moving them. It is shown to
  be the Secure Hash Algorithm as the standard writes it down. \<^verbatim>\<open>m_workspace\<close>, which is filled before each use, is local here.
\<close>

section \<open>The block function\<close>

definition ROL32 :: "u32 \<Rightarrow> nat \<Rightarrow> u32" where
  "ROL32 p_val32 p_nBits = (push_bit p_nBits p_val32 OR drop_bit (32 - p_nBits) p_val32)"

definition SHABLK0 :: "nat \<Rightarrow> u32 list \<Rightarrow> u32 list" where
  "SHABLK0 i l = l[i := (ROL32 (l ! i) 24 AND 0xFF00FF00) OR (ROL32 (l ! i) 8 AND 0x00FF00FF)]"

definition SHABLK :: "nat \<Rightarrow> u32 list \<Rightarrow> u32 list" where
  "SHABLK i l = l[i mod 16 := ROL32 (l ! ((i + 13) mod 16) XOR l ! ((i + 8) mod 16) XOR l ! ((i + 2) mod 16) XOR l ! (i mod 16)) 1]"

text \<open>
  The macros \<^verbatim>\<open>S_R0\<close> to \<^verbatim>\<open>S_R4\<close> differ in the function, the constant and the use of the ring. Call number \<open>i\<close> names the variables
  \<^verbatim>\<open>a\<close> to \<^verbatim>\<open>e\<close>, here \<open>r ! 0\<close> to \<open>r ! 4\<close>, moved on by \<open>i\<close> places.
\<close>

definition sha_step ::
  "(u32 \<Rightarrow> u32 \<Rightarrow> u32 \<Rightarrow> u32) \<Rightarrow> u32 \<Rightarrow> (nat \<Rightarrow> u32 list \<Rightarrow> u32 list) \<Rightarrow> nat \<Rightarrow> u32 list \<times> u32 list \<Rightarrow> u32 list \<times> u32 list" where
  "sha_step f k blk i s =
     (case s of (r, l) \<Rightarrow>
      let v = (80 - i) mod 5; w = (81 - i) mod 5; x = (82 - i) mod 5; y = (83 - i) mod 5; z = (84 - i) mod 5;
          l = blk i l;
          r = r[z := r ! z + (f (r ! w) (r ! x) (r ! y) + l ! (i mod 16) + k + ROL32 (r ! v) 5)]
      in (r[w := ROL32 (r ! w) 30], l))"

definition sha_f1 :: "u32 \<Rightarrow> u32 \<Rightarrow> u32 \<Rightarrow> u32" where "sha_f1 w x y = ((w AND (x XOR y)) XOR y)"
definition sha_f2 :: "u32 \<Rightarrow> u32 \<Rightarrow> u32 \<Rightarrow> u32" where "sha_f2 w x y = (w XOR x XOR y)"
definition sha_f3 :: "u32 \<Rightarrow> u32 \<Rightarrow> u32 \<Rightarrow> u32" where "sha_f3 w x y = (((w OR x) AND y) OR (w AND x))"

definition sha1_Transform :: "u32 list \<Rightarrow> byte list \<Rightarrow> u32 list" where
  "sha1_Transform pState pBuffer =
     (let s = (take 5 pState, md_Decode pBuffer);
          s = fold (sha_step sha_f1 0x5A827999 SHABLK0) [0..<16] s;
          s = fold (sha_step sha_f1 0x5A827999 SHABLK) [16..<20] s;
          s = fold (sha_step sha_f2 0x6ED9EBA1 SHABLK) [20..<40] s;
          s = fold (sha_step sha_f3 0x8F1BBCDC SHABLK) [40..<60] s;
          s = fold (sha_step sha_f2 0xCA62C1D6 SHABLK) [60..<80] s
      in map2 (+) pState (fst s))"

section \<open>The operations\<close>

record csha1 =
  sha_state :: "u32 list"
  sha_count0 :: u32
  sha_count1 :: u32
  sha_buffer :: "byte list"
  sha_digest :: "byte list"

definition sha1_Reset :: "csha1 \<Rightarrow> csha1" where
  "sha1_Reset c = c\<lparr>sha_state := [0x67452301, 0xEFCDAB89, 0x98BADCFE, 0x10325476, 0xC3D2E1F0], sha_count0 := 0, sha_count1 := 0\<rparr>"

text \<open>The constructor; \<open>mem\<close> is the memory of the object, which it leaves as it is but for what \<^verbatim>\<open>Reset\<close> sets.\<close>

definition CSHA1_init :: "csha1 \<Rightarrow> csha1" where "CSHA1_init mem = sha1_Reset mem"

definition zero_sha1 :: csha1 where
  "zero_sha1 = \<lparr>sha_state = replicate 5 0, sha_count0 = 0, sha_count1 = 0, sha_buffer = replicate 64 0, sha_digest = replicate 20 0\<rparr>"

text \<open>\<^verbatim>\<open>Update\<close>; the tests \<^verbatim>\<open>(j + uLen) > 63\<close> and \<^verbatim>\<open>(i + 63) < uLen\<close> are those of the other digests.\<close>

definition sha1_Update :: "csha1 \<Rightarrow> byte list \<Rightarrow> csha1" where
  "sha1_Update c pbData =
     (let j = unat (drop_bit 3 (sha_count0 c) AND 0x3F);
          uLen = of_nat (length pbData) :: u32;
          count0 = sha_count0 c + push_bit 3 uLen;
          count1 = (if count0 < push_bit 3 uLen then sha_count1 c + 1 else sha_count1 c) + drop_bit 29 uLen
      in case blk_update 64 sha1_Transform (sha_state c) (sha_buffer c) j pbData of
           (state, buffer) \<Rightarrow> c\<lparr>sha_count0 := count0, sha_count1 := count1, sha_state := state, sha_buffer := buffer\<rparr>)"

definition sha_final_count :: "csha1 \<Rightarrow> byte list" where
  "sha_final_count c =
     map (\<lambda>i. ucast (drop_bit ((3 - i mod 4) * 8) (if 4 \<le> i then sha_count0 c else sha_count1 c) AND 0xFF)) [0..<8]"

partial_function (option) sha1_pad :: "csha1 \<Rightarrow> csha1 option" where
  "sha1_pad c = (if sha_count0 c AND 504 \<noteq> 448 then sha1_pad (sha1_Update c [0]) else Some c)"

definition sha_store_digest :: "u32 list \<Rightarrow> byte list" where
  "sha_store_digest state = map (\<lambda>i. ucast (drop_bit ((3 - i mod 4) * 8) (state ! (i div 4)) AND 0xFF)) [0..<20]"

text \<open>\<^verbatim>\<open>Final\<close>, which wipes what it used: the last \<^verbatim>\<open>Transform\<close> works on zeros.\<close>

definition sha1_Final :: "csha1 \<Rightarrow> csha1 option" where
  "sha1_Final c =
     (let pbFinalCount = sha_final_count c
      in do { c \<leftarrow> sha1_pad (sha1_Update c [0x80]);
              let c = sha1_Update c pbFinalCount;
              let c = c\<lparr>sha_digest := sha_store_digest (sha_state c)\<rparr>;
              Some (c\<lparr>sha_buffer := replicate 64 0, sha_state := sha1_Transform (replicate 5 0) (replicate 64 0),
                      sha_count0 := 0, sha_count1 := 0\<rparr>) })"

definition sha1_GetHash :: "csha1 \<Rightarrow> byte list" where "sha1_GetHash c = sha_digest c"

section \<open>The standard\<close>

text \<open>The message schedule, and the rounds on five words.\<close>

definition sha_schedule :: "nat \<Rightarrow> u32 list \<Rightarrow> u32 list" where
  "sha_schedule t W = W @ [ROL32 (W ! (t - 3) XOR W ! (t - 8) XOR W ! (t - 14) XOR W ! (t - 16)) 1]"

definition sha_words :: "byte list \<Rightarrow> u32 list" where
  "sha_words block = fold sha_schedule [16..<80] (map (\<lambda>i. of_nat (be_val (take 4 (drop (4 * i) block)))) [0..<16])"

definition sha_fun :: "nat \<Rightarrow> u32 \<Rightarrow> u32 \<Rightarrow> u32 \<Rightarrow> u32" where
  "sha_fun t x y z =
     (if t < 20 then (x AND y) XOR (NOT x AND z)
      else if 40 \<le> t \<and> t < 60 then (x AND y) XOR (x AND z) XOR (y AND z) else x XOR y XOR z)"

definition sha_const :: "nat \<Rightarrow> u32" where
  "sha_const t = (if t < 20 then 0x5A827999 else if t < 40 then 0x6ED9EBA1 else if t < 60 then 0x8F1BBCDC else 0xCA62C1D6)"

fun sha_round :: "u32 list \<Rightarrow> nat \<Rightarrow> u32 \<times> u32 \<times> u32 \<times> u32 \<times> u32 \<Rightarrow> u32 \<times> u32 \<times> u32 \<times> u32 \<times> u32" where
  "sha_round W t (a, b, c, d, e) = (ROL32 a 5 + sha_fun t b c d + e + sha_const t + W ! t, a, ROL32 b 30, c, d)"

definition sha_compress :: "u32 list \<Rightarrow> byte list \<Rightarrow> u32 list" where
  "sha_compress H block =
     (case fold (sha_round (sha_words block)) [0..<80] (H ! 0, H ! 1, H ! 2, H ! 3, H ! 4) of
        (a, b, c, d, e) \<Rightarrow> [H ! 0 + a, H ! 1 + b, H ! 2 + c, H ! 3 + d, H ! 4 + e])"

section \<open>The block function is the standard's\<close>

lemma sha_funs:
  "t < 20 \<Longrightarrow> sha_f1 = sha_fun t" "20 \<le> t \<Longrightarrow> t < 40 \<Longrightarrow> sha_f2 = sha_fun t"
  "40 \<le> t \<Longrightarrow> t < 60 \<Longrightarrow> sha_f3 = sha_fun t" "60 \<le> t \<Longrightarrow> sha_f2 = sha_fun t"
  by (intro ext bit_word_eqI; auto simp: sha_f1_def sha_f2_def sha_f3_def sha_fun_def bit_simps)+

lemma swap_reverse: "(ROL32 x 24 AND 0xFF00FF00) OR (ROL32 x 8 AND 0x00FF00FF) = shs_reverse x"
proof -
  let ?y = "(ROL32 x 24 AND 0xFF00FF00) OR (ROL32 x 8 AND 0x00FF00FF)"
  have n8: "n = 0 \<or> n = 1 \<or> n = 2 \<or> n = 3 \<or> n = 4 \<or> n = 5 \<or> n = 6 \<or> n = 7" if "n < 8" for n :: nat using that by linarith
  have "ucast (drop_bit 24 ?y) = (ucast x :: byte)"
    by (rule bit_word_eqI) (auto simp: ROL32_def bit_simps dest!: n8 dest: bit_imp_le_length)
  moreover have "ucast (drop_bit 16 ?y) = (ucast (drop_bit 8 x) :: byte)"
    by (rule bit_word_eqI) (auto simp: ROL32_def bit_simps dest!: n8 dest: bit_imp_le_length)
  moreover have "ucast (drop_bit 8 ?y) = (ucast (drop_bit 16 x) :: byte)"
    by (rule bit_word_eqI) (auto simp: ROL32_def bit_simps dest!: n8 dest: bit_imp_le_length)
  moreover have "ucast ?y = (ucast (drop_bit 24 x) :: byte)"
    by (rule bit_word_eqI) (auto simp: ROL32_def bit_simps dest!: n8 dest: bit_imp_le_length)
  ultimately have "md_Encode [?y] = md_Encode [shs_reverse x]" by (simp add: ucast_and_ff shs_reverse_byte)
  then have "md_Decode (md_Encode [?y]) = md_Decode (md_Encode [shs_reverse x])" by (rule arg_cong)
  then show ?thesis by (simp only: md_Decode_Encode list.inject)
qed

lemma md_Decode_nth: "length bs = 4 * n \<Longrightarrow> i < n \<Longrightarrow> md_Encode [md_Decode bs ! i] = take 4 (drop (4 * i) bs)"
proof (induction n arbitrary: bs i)
  case (Suc n)
  then obtain a b c d zs where e: "bs = [a, b, c, d] @ zs" "length zs = 4 * n" by (auto dest!: length_4_plusD)
  have d: "md_Decode bs = md_Decode [a, b, c, d] @ md_Decode zs" unfolding e(1) by (rule md_Decode_append [of _ 1]) simp
  have l: "length (md_Decode [a, b, c, d]) = 1" by simp
  show ?case
  proof (cases i)
    case 0
    have "md_Encode (md_Decode [a, b, c, d]) = [a, b, c, d]" by (rule md_Encode_Decode [of _ 1]) simp
    moreover have "[md_Decode bs ! 0] = md_Decode [a, b, c, d]" unfolding d by simp
    ultimately show ?thesis using 0 e(1) by (simp only:) simp
  next
    case (Suc j)
    then have "md_Decode bs ! i = md_Decode zs ! j" unfolding d using l by simp
    moreover have "drop (4 * i) bs = drop (4 * j) zs" using Suc e(1) by (simp add: eval_nat_numeral)
    ultimately show ?thesis using Suc.IH [OF e(2), of j] Suc \<open>i < Suc n\<close> by (simp only:)
  qed
qed simp

lemma reverse_word: "length bs = 4 * n \<Longrightarrow> i < n \<Longrightarrow> shs_reverse (md_Decode bs ! i) = of_nat (be_val (take 4 (drop (4 * i) bs)))"
proof -
  assume a: "length bs = 4 * n" "i < n"
  let ?w = "shs_reverse (md_Decode bs ! i)"
  have "le_bytes 4 (unat ?w) = rev (take 4 (drop (4 * i) bs))"
    using md_Decode_nth [OF a] md_Encode_reverse [of "md_Decode bs ! i"] by (simp only: md_Encode_one)
  then have "le_val (le_bytes 4 (unat ?w)) = be_val (take 4 (drop (4 * i) bs))" by (simp add: be_val_def)
  then have "unat ?w = be_val (take 4 (drop (4 * i) bs))" by (simp add: le_val_le_bytes)
  then have "of_nat (unat ?w) = (of_nat (be_val (take 4 (drop (4 * i) bs))) :: u32)" by (rule arg_cong)
  then show ?thesis by simp
qed

text \<open>The schedule.\<close>

lemma upt_16: "[16..<16 + Suc t] = [16..<16 + t] @ [16 + t]"
  by (subst add_Suc_right) (rule upt_Suc_append, simp)

lemma schedule_prefix: "length W = 16 \<Longrightarrow> t \<le> 64 \<Longrightarrow> length (fold sha_schedule [16..<16 + t] W) = 16 + t"
proof (induction t)
  case (Suc t)
  then show ?case using upt_16 [of t] by (simp add: sha_schedule_def del: upt_Suc upt_rec_numeral add_Suc_right)
qed simp

lemma schedule_nth:
  assumes "length W = 16" "t \<le> 64"
  shows "(\<forall>j < 16. fold sha_schedule [16..<16 + t] W ! j = W ! j)
    \<and> (\<forall>j. 16 \<le> j \<and> j < 16 + t \<longrightarrow> (let V = fold sha_schedule [16..<16 + t] W
          in V ! j = ROL32 (V ! (j - 3) XOR V ! (j - 8) XOR V ! (j - 14) XOR V ! (j - 16)) 1))"
  using assms(2)
proof (induction t)
  case (Suc t)
  let ?V = "fold sha_schedule [16..<16 + t] W"
  have l: "length ?V = 16 + t" using schedule_prefix [OF assms(1)] Suc.prems by simp
  let ?y = "ROL32 (?V ! (16 + t - 3) XOR ?V ! (16 + t - 8) XOR ?V ! (16 + t - 14) XOR ?V ! t) 1"
  have e: "fold sha_schedule [16..<16 + Suc t] W = ?V @ [?y]"
    unfolding upt_16 by (simp add: sha_schedule_def)
  have a: "(?V @ [y]) ! j = ?V ! j" if "j < 16 + t" for j y using that l by (simp add: nth_append)
  have b: "(?V @ [y]) ! (16 + t) = y" for y using l by (metis nth_append_length)
  show ?case unfolding e Let_def
  proof (intro conjI allI impI)
    fix j assume j: "16 \<le> j \<and> j < 16 + Suc t"
    have "j - 3 < 16 + t" "j - 8 < 16 + t" "j - 14 < 16 + t" "j - 16 < 16 + t" using j by linarith+
    moreover have "j = 16 + t \<or> j < 16 + t" using j by linarith
    ultimately show "(?V @ [?y]) ! j = ROL32 ((?V @ [?y]) ! (j - 3) XOR (?V @ [?y]) ! (j - 8) XOR (?V @ [?y]) ! (j - 14) XOR (?V @ [?y]) ! (j - 16)) 1"
      using a b Suc j by (auto simp: Let_def)
  qed (use a Suc in simp)
qed auto

lemma sha_words_nth:
  assumes "length block = 64"
  shows "j < 16 \<Longrightarrow> sha_words block ! j = shs_reverse (md_Decode block ! j)"
    "16 \<le> j \<Longrightarrow> j < 80 \<Longrightarrow> sha_words block ! j =
       ROL32 (sha_words block ! (j - 3) XOR sha_words block ! (j - 8) XOR sha_words block ! (j - 14) XOR sha_words block ! (j - 16)) 1"
proof -
  let ?W = "map (\<lambda>i. of_nat (be_val (take 4 (drop (4 * i) block)))) [0..<16] :: u32 list"
  have e: "sha_words block = fold sha_schedule [16..<16 + 64] ?W" by (simp add: sha_words_def)
  have "length ?W = 16" by simp
  note n = schedule_nth [OF this order_refl]
  show "j < 16 \<Longrightarrow> sha_words block ! j = shs_reverse (md_Decode block ! j)"
    unfolding e using n reverse_word [of block 16 j] assms by simp
  show "16 \<le> j \<Longrightarrow> j < 80 \<Longrightarrow> sha_words block ! j =
       ROL32 (sha_words block ! (j - 3) XOR sha_words block ! (j - 8) XOR sha_words block ! (j - 14) XOR sha_words block ! (j - 16)) 1"
    unfolding e using n by (simp add: Let_def)
qed

text \<open>The ring before call \<open>t\<close>: the words since \<open>t - 16\<close>, and those of the block that have not been turned round yet.\<close>

definition ring :: "byte list \<Rightarrow> nat \<Rightarrow> u32 list \<Rightarrow> bool" where
  "ring block t l \<longleftrightarrow> length l = 16 \<and> (\<forall>j < t. t \<le> j + 16 \<longrightarrow> l ! (j mod 16) = sha_words block ! j)
     \<and> (\<forall>j < 16. t \<le> j \<longrightarrow> l ! j = md_Decode block ! j)"

lemma ring_SHABLK0:
  assumes "length block = 64" "ring block t l" "t < 16"
  shows "ring block (Suc t) (SHABLK0 t l) \<and> SHABLK0 t l ! (t mod 16) = sha_words block ! t"
proof -
  have "l ! t = md_Decode block ! t" "length l = 16" using assms(2,3) by (simp_all add: ring_def)
  then have e: "SHABLK0 t l = l[t := sha_words block ! t]"
    using sha_words_nth(1) [OF assms(1,3)] by (simp add: SHABLK0_def swap_reverse)
  have "l[t := sha_words block ! t] ! (j mod 16) = sha_words block ! j" if "j < Suc t" for j
    using that assms(2,3) by (cases "j = t") (simp_all add: ring_def)
  then show ?thesis unfolding e using assms(2,3) by (auto simp: ring_def)
qed

lemma ring_SHABLK:
  assumes "length block = 64" "ring block t l" "16 \<le> t" "t < 80"
  shows "ring block (Suc t) (SHABLK t l) \<and> SHABLK t l ! (t mod 16) = sha_words block ! t"
proof -
  have l: "length l = 16" "\<And>j. j < t \<Longrightarrow> t \<le> j + 16 \<Longrightarrow> l ! (j mod 16) = sha_words block ! j"
    using assms(2) by (simp_all add: ring_def)
  have m: "(t + 13) mod 16 = (t - 3) mod 16" "(t + 8) mod 16 = (t - 8) mod 16" "(t + 2) mod 16 = (t - 14) mod 16"
      "t mod 16 = (t - 16) mod 16"
  proof -
    have "t + 13 = (t - 3) + 16" "t + 8 = (t - 8) + 16" "t + 2 = (t - 14) + 16" "t = (t - 16) + 16" using assms(3) by linarith+
    then show "(t + 13) mod 16 = (t - 3) mod 16" "(t + 8) mod 16 = (t - 8) mod 16" "(t + 2) mod 16 = (t - 14) mod 16"
      "t mod 16 = (t - 16) mod 16" by (metis mod_add_self2)+
  qed
  have r: "l ! ((t + 13) mod 16) = sha_words block ! (t - 3)" "l ! ((t + 8) mod 16) = sha_words block ! (t - 8)"
      "l ! ((t + 2) mod 16) = sha_words block ! (t - 14)" "l ! (t mod 16) = sha_words block ! (t - 16)"
    unfolding m using l(2) assms(3) by simp_all
  have e: "SHABLK t l = l[t mod 16 := sha_words block ! t]"
    unfolding SHABLK_def r sha_words_nth(2) [OF assms(1,3,4), symmetric] ..
  have "l[t mod 16 := sha_words block ! t] ! (j mod 16) = sha_words block ! j" if j: "j < Suc t" "Suc t \<le> j + 16" for j
  proof (cases "j = t")
    case False
    have "j mod 16 \<noteq> t mod 16"
    proof
      assume "j mod 16 = t mod 16"
      then have "16 dvd t - j" using j by (metis mod_eq_dvd_iff_nat less_Suc_eq_le)
      then show False using j False by (auto dest: dvd_imp_le)
    qed
    then show ?thesis using l(2) [of j] j False by simp
  qed (use l in simp)
  then show ?thesis unfolding e using l(1) assms(3) by (auto simp: ring_def)
qed

text \<open>The variables before call \<open>t\<close>.\<close>

definition regs :: "nat \<Rightarrow> u32 list \<Rightarrow> u32 \<times> u32 \<times> u32 \<times> u32 \<times> u32 \<Rightarrow> bool" where
  "regs t r s \<longleftrightarrow> length r = 5
     \<and> s = (r ! ((80 - t) mod 5), r ! ((81 - t) mod 5), r ! ((82 - t) mod 5), r ! ((83 - t) mod 5), r ! ((84 - t) mod 5))"

lemma regs_places:
  assumes "t < 80"
  obtains k where "(80 - t) mod 5 = k" "k < 5" "(81 - t) mod 5 = Suc k mod 5" "(82 - t) mod 5 = (k + 2) mod 5" "(83 - t) mod 5 = (k + 3) mod 5"
    "(84 - t) mod 5 = (k + 4) mod 5" "(79 - t) mod 5 = (k + 4) mod 5"
proof -
  let ?k = "(80 - t) mod 5"
  have s: "(80 + j - t) mod 5 = (?k + j) mod 5" for j
  proof -
    have "80 + j - t = (80 - t) + j" using assms by linarith
    then show ?thesis by (simp only: mod_add_left_eq)
  qed
  have "(79 - t) mod 5 = (79 - t + 5) mod 5" by (rule mod_add_self2 [symmetric])
  also have "79 - t + 5 = 84 - t" using assms by simp
  finally have "(79 - t) mod 5 = (?k + 4) mod 5" using s [of 4] by simp
  moreover have "80 + 1 = (81 :: nat)" "80 + 2 = (82 :: nat)" "80 + 3 = (83 :: nat)" "80 + 4 = (84 :: nat)" by simp_all
  ultimately show thesis using s [of 1] s [of 2] s [of 3] s [of 4] by (intro that [of ?k]) (simp_all only: Suc_eq_plus1 refl, simp)
qed

lemma regs_step:
  assumes "regs t r s" "t < 80" "ring block (Suc t) l'" "blk t l = l'" "l' ! (t mod 16) = sha_words block ! t" "f = sha_fun t" "k = sha_const t"
  shows "\<exists>r'. sha_step f k blk t (r, l) = (r', l') \<and> regs (Suc t) r' (sha_round (sha_words block) t s)"
proof -
  obtain j where j: "(80 - t) mod 5 = j" "j < 5" "(81 - t) mod 5 = Suc j mod 5" "(82 - t) mod 5 = (j + 2) mod 5"
      "(83 - t) mod 5 = (j + 3) mod 5" "(84 - t) mod 5 = (j + 4) mod 5" "(79 - t) mod 5 = (j + 4) mod 5"
    by (rule regs_places [OF assms(2)])
  have t: "80 - Suc t = 79 - t" "81 - Suc t = 80 - t" "82 - Suc t = 81 - t" "83 - Suc t = 82 - t" "84 - Suc t = 83 - t" by simp_all
  obtain a b c d e where r: "r = [a, b, c, d, e]" using assms(1) length_5D unfolding regs_def by blast
  have s: "s = (r ! j, r ! (Suc j mod 5), r ! ((j + 2) mod 5), r ! ((j + 3) mod 5), r ! ((j + 4) mod 5))"
    using assms(1) by (simp add: regs_def j)
  consider "j = 0" | "j = 1" | "j = 2" | "j = 3" | "j = 4" using j(2) by linarith
  then show ?thesis
    unfolding sha_step_def prod.case Let_def assms(4) assms(5) j regs_def t s assms(6,7)
    by cases (simp_all add: r add_ac)
qed

lemma sha_fold:
  assumes "i \<le> n" "n \<le> 80" "\<And>t. i \<le> t \<Longrightarrow> t < n \<Longrightarrow> f = sha_fun t \<and> k = sha_const t"
    and blk: "\<And>t l. i \<le> t \<Longrightarrow> t < n \<Longrightarrow> ring block t l \<Longrightarrow> ring block (Suc t) (blk t l) \<and> blk t l ! (t mod 16) = sha_words block ! t"
    and "regs i r s" "ring block i l"
  shows "\<exists>r' l'. fold (sha_step f k blk) [i..<n] (r, l) = (r', l')
     \<and> regs n r' (fold (sha_round (sha_words block)) [i..<n] s) \<and> ring block n l'"
  using assms
proof (induction n)
  case (Suc n)
  show ?case
  proof (cases "i = Suc n")
    case False
    then have n: "i \<le> n" "n \<le> 80" "n < 80" using Suc.prems(1,2) by simp_all
    obtain r1 l1 where ih: "fold (sha_step f k blk) [i..<n] (r, l) = (r1, l1)"
        "regs n r1 (fold (sha_round (sha_words block)) [i..<n] s)" "ring block n l1"
      using Suc.IH [OF n(1,2) _ _ Suc.prems(5,6)] Suc.prems(3,4) by (metis less_SucI)
    have b: "ring block (Suc n) (blk n l1)" "blk n l1 ! (n mod 16) = sha_words block ! n"
      using Suc.prems(4) [OF n(1) _ ih(3)] by simp_all
    have f: "f = sha_fun n" "k = sha_const n" using Suc.prems(3) [OF n(1)] by simp_all
    show ?thesis using regs_step [where blk = blk and l = l1, OF ih(2) n(3) b(1) refl b(2) f] ih(1) n(1) b(1) by auto
  qed (use Suc.prems in auto)
qed auto

lemma sha1_Transform_compress:
  assumes "length H = 5" "length block = 64"
  shows "sha1_Transform H block = sha_compress H block"
proof -
  let ?W = "sha_words block"
  let ?s = "(H ! 0, H ! 1, H ! 2, H ! 3, H ! 4)"
  have r0: "regs 0 H ?s" using assms(1) by (simp add: regs_def)
  have l0: "ring block 0 (md_Decode block)" using length_md_Decode [of block 16] assms(2) by (simp add: ring_def)
  note b0 = ring_SHABLK0 [OF assms(2)] and b1 = ring_SHABLK [OF assms(2)]
  obtain r1 l1 where 1: "fold (sha_step sha_f1 0x5A827999 SHABLK0) [0..<16] (H, md_Decode block) = (r1, l1)"
      "regs 16 r1 (fold (sha_round ?W) [0..<16] ?s)" "ring block 16 l1"
    using sha_fold [where i = 0 and n = 16 and f = sha_f1 and k = "0x5A827999" and block = block and blk = SHABLK0, OF _ _ _ _ r0 l0] b0 sha_funs(1) by (auto simp: sha_const_def)
  obtain r2 l2 where 2: "fold (sha_step sha_f1 0x5A827999 SHABLK) [16..<20] (r1, l1) = (r2, l2)"
      "regs 20 r2 (fold (sha_round ?W) [16..<20] (fold (sha_round ?W) [0..<16] ?s))" "ring block 20 l2"
    using sha_fold [where i = 16 and n = 20 and f = sha_f1 and k = "0x5A827999" and block = block and blk = SHABLK, OF _ _ _ _ 1(2,3)] b1 sha_funs(1) by (auto simp: sha_const_def)
  obtain r3 l3 where 3: "fold (sha_step sha_f2 0x6ED9EBA1 SHABLK) [20..<40] (r2, l2) = (r3, l3)"
      "regs 40 r3 (fold (sha_round ?W) [20..<40] (fold (sha_round ?W) [16..<20] (fold (sha_round ?W) [0..<16] ?s)))" "ring block 40 l3"
    using sha_fold [where i = 20 and n = 40 and f = sha_f2 and k = "0x6ED9EBA1" and block = block and blk = SHABLK, OF _ _ _ _ 2(2,3)] b1 sha_funs(2) by (auto simp: sha_const_def)
  obtain r4 l4 where 4: "fold (sha_step sha_f3 0x8F1BBCDC SHABLK) [40..<60] (r3, l3) = (r4, l4)"
      "regs 60 r4 (fold (sha_round ?W) [40..<60] (fold (sha_round ?W) [20..<40] (fold (sha_round ?W) [16..<20] (fold (sha_round ?W) [0..<16] ?s))))"
      "ring block 60 l4"
    using sha_fold [where i = 40 and n = 60 and f = sha_f3 and k = "0x8F1BBCDC" and block = block and blk = SHABLK, OF _ _ _ _ 3(2,3)] b1 sha_funs(3) by (auto simp: sha_const_def)
  obtain r5 l5 where 5: "fold (sha_step sha_f2 0xCA62C1D6 SHABLK) [60..<80] (r4, l4) = (r5, l5)"
      "regs 80 r5 (fold (sha_round ?W) [60..<80] (fold (sha_round ?W) [40..<60] (fold (sha_round ?W) [20..<40] (fold (sha_round ?W) [16..<20]
         (fold (sha_round ?W) [0..<16] ?s)))))"
    using sha_fold [where i = 60 and n = 80 and f = sha_f2 and k = "0xCA62C1D6" and block = block and blk = SHABLK, OF _ _ _ _ 4(2,3)] b1 sha_funs(4) by (auto simp: sha_const_def)
  have u: "[0..<80] = [0..<16] @ [16..<20] @ [20..<40] @ [40..<60] @ [60..<80 :: nat]"
    using upt_add_eq_append [of 0 16 64] upt_add_eq_append [of 16 20 60] upt_add_eq_append [of 20 40 40] upt_add_eq_append [of 40 60 20]
    by (simp del: upt_rec_numeral)
  obtain a b c d e where H: "H = [a, b, c, d, e]" using length_5D [OF assms(1)] by blast
  obtain a' b' c' d' e' where r: "r5 = [a', b', c', d', e']" using 5(2) length_5D unfolding regs_def by blast
  have "fold (sha_round ?W) [0..<80] ?s = (a', b', c', d', e')"
    unfolding u fold_append comp_apply using 5(2) by (simp add: regs_def r del: upt_rec_numeral)
  then show ?thesis unfolding sha1_Transform_def sha_compress_def Let_def using 1(1) 2(1) 3(1) 4(1) 5(1) H r assms(1)
    by (simp del: upt_rec_numeral)
qed

section \<open>An instance of the interface\<close>

abbreviation sha_start :: "u32 list" where
  "sha_start \<equiv> [0x67452301, 0xEFCDAB89, 0x98BADCFE, 0x10325476, 0xC3D2E1F0]"

definition sha1_hash :: "byte list \<Rightarrow> byte list" where
  "sha1_hash m = shs_Encode (fst (blk_loop 64 sha_compress sha_start (shs_pad m)))"

definition sha_bits :: "csha1 \<Rightarrow> nat" where "sha_bits c = unat (sha_count0 c) + NN_B * unat (sha_count1 c)"

definition sha_rep :: "csha1 \<Rightarrow> byte list \<Rightarrow> bool" where
  "sha_rep c m \<longleftrightarrow> sha_bits c = 8 * length m mod 2 ^ 64 \<and> blk_rep 64 sha1_Transform sha_start m (sha_state c) (sha_buffer c)"

lemma sha_index: "sha_rep c m \<Longrightarrow> unat (drop_bit 3 (sha_count0 c) AND 0x3F) = length m mod 64"
  using md_index_bits [of "\<lparr>md_state = [], md_count0 = sha_count0 c, md_count1 = sha_count1 c, md_buffer = []\<rparr>"] bits_index [of "length m"]
  by (simp add: md_index_def md_bits_def sha_rep_def sha_bits_def)

lemma sha_rep_update:
  assumes "sha_rep c m" "length xs < 2 ^ 32"
  shows "sha_rep (sha1_Update c xs) (m @ xs)"
proof -
  obtain st b where u: "blk_update 64 sha1_Transform (sha_state c) (sha_buffer c) (length m mod 64) xs = (st, b)" by force
  have "sha_bits (sha1_Update c xs) = (sha_bits c + 8 * length xs) mod 2 ^ 64"
    using count_carry [of "length xs" _ _ "sha_count0 c" "sha_count1 c"] assms(2) u sha_index [OF assms(1)]
    by (simp add: sha_bits_def sha1_Update_def Let_def)
  also have "\<dots> = 8 * length (m @ xs) mod 2 ^ 64" using assms(1) by (simp add: sha_rep_def mod_simps algebra_simps)
  finally have "sha_bits (sha1_Update c xs) = 8 * length (m @ xs) mod 2 ^ 64" .
  moreover have "blk_rep 64 sha1_Transform sha_start (m @ xs) st b"
    by (rule md_blk.blk_rep_update [OF _ u]) (use assms in \<open>simp add: sha_rep_def\<close>)
  ultimately show ?thesis using sha_index [OF assms(1)] u by (simp add: sha_rep_def sha1_Update_def Let_def)
qed

lemma and_504: "(x :: u32) AND 504 = 448 \<longleftrightarrow> unat (drop_bit 3 x AND 0x3F) = 56"
proof -
  have m: "504 = (push_bit 3 (mask 6) :: u32)" "0x3F = (mask 6 :: u32)" by (simp_all add: mask_eq_exp_minus_1 push_bit_eq_mult)
  have e: "x AND 504 = push_bit 3 (drop_bit 3 x AND 0x3F)" unfolding m by (rule bit_word_eqI) (auto simp: bit_simps)
  have "unat (drop_bit 3 x AND 0x3F) < 64" unfolding m(2) by (simp add: unat_take_bit_u32 flip: take_bit_eq_mask)
  then have "unat (x AND 504) = 8 * unat (drop_bit 3 x AND 0x3F)" unfolding e unat_push_bit_u32 by simp
  then show ?thesis by (simp add: u32_eq_iff)
qed

lemma zeros_mod: "n < 64 \<Longrightarrow> (120 - n) mod 64 = (if n \<le> 56 then 56 - n else 120 - n)" for n :: nat
proof -
  assume n: "n < 64"
  show ?thesis
  proof (cases "n \<le> 56")
    case True
    then have "120 - n = (56 - n) + 64" by simp
    then have "(120 - n) mod 64 = (56 - n) mod 64" by (simp only: mod_add_self2)
    then show ?thesis using True by simp
  qed (use n in simp)
qed

lemma sha1_pad_val:
  assumes "sha_rep c m" "k = (120 - length m mod 64) mod 64"
  shows "\<exists>c'. sha1_pad c = Some c' \<and> sha_rep c' (m @ replicate k 0)"
  using assms
proof (induction k arbitrary: c m)
  case 0
  have "length m mod 64 = 56" using 0(2) zeros_mod [of "length m mod 64"] mod_less_divisor [of 64 "length m"]
    by (simp split: if_splits)
  then have "sha_count0 c AND 504 = 448" using sha_index [OF 0(1)] by (simp add: and_504)
  then show ?case using 0(1) by (subst sha1_pad.simps) simp
next
  case (Suc k)
  have i: "length m mod 64 < 64" by simp
  then have "length m mod 64 \<noteq> 56" using Suc.prems(2) by auto
  then have "sha_count0 c AND 504 \<noteq> 448" using sha_index [OF Suc.prems(1)] by (simp add: and_504)
  then have e: "sha1_pad c = sha1_pad (sha1_Update c [0])" by (subst sha1_pad.simps) simp
  have k: "k = (120 - length (m @ [0]) mod 64) mod 64" 
  proof -
    let ?n = "length m mod 64"
    define n where "n = ?n"
    have "length (m @ [0 :: byte]) mod 64 = (if Suc n = 64 then 0 else Suc n)" by (simp add: mod_Suc n_def)
    moreover have "Suc k = (if n \<le> 56 then 56 - n else 120 - n)" "n < 64" "n \<noteq> 56"
      using Suc.prems(2) zeros_mod [OF i] i \<open>?n \<noteq> 56\<close> unfolding n_def by simp_all
    ultimately show ?thesis using zeros_mod [of "Suc n"] by (cases "n = 63") (auto split: if_splits)
  qed
  have "sha_rep (sha1_Update c [0]) (m @ [0])" by (rule sha_rep_update [OF Suc.prems(1)]) simp
  from Suc.IH [OF this k] show ?case unfolding e by (simp add: replicate_app_Cons_same)
qed

lemma sha_final_count_val: "sha_final_count c = be_bytes 8 (sha_bits c)"
proof -
  have "be_bytes 8 (sha_bits c) = rev (md_Encode [sha_count0 c, sha_count1 c])" by (simp only: be_bytes_def md_Encode_le sha_bits_def)
  also have "\<dots> = sha_final_count c" by (simp add: sha_final_count_def upt_rec)
  finally show ?thesis by simp
qed

lemma sha_store_digest_val: "length st = 5 \<Longrightarrow> sha_store_digest st = shs_Encode st"
  by (auto dest!: length_5D simp: sha_store_digest_def upt_rec)

lemma sha_blocks: "length H = 5 \<Longrightarrow> blk_loop 64 sha1_Transform H m = blk_loop 64 sha_compress H m"
proof (induction "length m" arbitrary: H m rule: less_induct)
  case less
  show ?case
  proof (cases "length m < 64")
    case False
    have "length (sha_compress H (take 64 m)) = 5" by (simp add: sha_compress_def split: prod.split)
    then show ?thesis using less False sha1_Transform_compress [of H "take 64 m"]
      by (simp add: blk_loop.simps [of 64 _ H m])
  qed (simp add: md_blk.blk_loop_short)
qed

lemma sha_pad_eq:
  "m @ [0x80] @ replicate ((120 - length (m @ [0x80]) mod 64) mod 64) 0 @ be_bytes 8 (8 * length m) = shs_pad m"
proof -
  have "length m mod 64 < 64" by simp
  then have "(120 - length (m @ [0x80 :: byte]) mod 64) mod 64 = (if length m mod 64 < 56 then 55 - length m mod 64 else 119 - length m mod 64)"
    using zeros_mod [of "Suc (length m mod 64)"] by (auto simp: mod_Suc split: if_splits)
  then show ?thesis by (simp add: shs_pad_def Let_def)
qed

lemma length_sha_state: "sha_rep c m \<Longrightarrow> length (sha_state c) = 5"
  using blk_loop_invariant [of "\<lambda>st. length st = 5" sha_start 64 sha_compress m] sha_blocks [of sha_start m]
  by (auto simp: sha_rep_def blk_rep_def sha_compress_def split: prod.splits)

lemma sha_rep_final:
  assumes "sha_rep c m"
  shows "\<exists>c'. sha1_Final c = Some c' \<and> sha1_GetHash c' = sha1_hash m"
proof -
  have "sha_rep (sha1_Update c [0x80]) (m @ [0x80])" by (rule sha_rep_update [OF assms]) simp
  then obtain c1 where c1: "sha1_pad (sha1_Update c [0x80]) = Some c1"
      "sha_rep c1 ((m @ [0x80]) @ replicate ((120 - length (m @ [0x80]) mod 64) mod 64) 0)"
    using sha1_pad_val by blast
  let ?c = "sha1_Update c1 (sha_final_count c)"
  have b: "sha_final_count c = be_bytes 8 (8 * length m)"
    using assms le_bytes_mod [of 8 "8 * length m"] by (simp add: sha_final_count_val sha_rep_def be_bytes_def)
  have "sha_rep ?c (((m @ [0x80]) @ replicate ((120 - length (m @ [0x80]) mod 64) mod 64) 0) @ be_bytes 8 (8 * length m))"
    unfolding b by (rule sha_rep_update [OF c1(2)]) simp
  then have r: "sha_rep ?c (shs_pad m)" using sha_pad_eq [of m] by simp
  have "sha_state ?c = fst (blk_loop 64 sha_compress sha_start (shs_pad m))"
    using r sha_blocks [of sha_start "shs_pad m"] by (simp add: sha_rep_def blk_rep_def)
  then show ?thesis using c1(1) sha_store_digest_val [OF length_sha_state [OF r]]
    by (simp add: sha1_Final_def sha1_GetHash_def sha1_hash_def Let_def)
qed

text \<open>\<^verbatim>\<open>Final\<close> and \<^verbatim>\<open>GetHash\<close> together are the last operation of the interface.\<close>

definition sha1_result :: "csha1 \<Rightarrow> byte list" where
  "sha1_result c = (case sha1_Final c of None \<Rightarrow> [] | Some c \<Rightarrow> sha1_GetHash c)"

interpretation sha1: message_digest "\<lambda>c. length (sha_buffer c) = 64" sha1_Reset sha1_Update sha1_result sha_rep sha1_hash
proof
  show "sha_rep (sha1_Reset c) []" if "length (sha_buffer c) = 64" for c
    using that by (simp add: sha_rep_def sha1_Reset_def sha_bits_def blk_rep_def md_blk.blk_loop_short)
  show "sha_rep (sha1_Update c xs) (m @ xs)" if "sha_rep c m" "length xs < 2 ^ 31" for c m xs
    using sha_rep_update [OF that(1), of xs] that(2) by simp
  show "sha1_result c = sha1_hash m" if "sha_rep c m" for c m
    using sha_rep_final [OF that] by (auto simp: sha1_result_def)
qed

text \<open>
  C26. \<^verbatim>\<open>CSHA1\<close> computes the Secure Hash Algorithm of the standard: for a message passed in any pieces \<^verbatim>\<open>Final\<close> returns, and the hash is that of the
  padded message under the eighty rounds on a schedule of eighty words, although the code keeps sixteen words in a ring and
  moves no variable.
\<close>

theorem CSHA1_correct:
  assumes "length (sha_buffer c) = 64" "\<forall>xs \<in> set chunks. length xs < 2 ^ 31"
  shows "\<exists>c'. sha1_Final (fold (\<lambda>xs c. sha1_Update c xs) chunks (sha1_Reset c)) = Some c' \<and> sha1_GetHash c' = sha1_hash (concat chunks)"
  using sha_rep_final sha1.rep_fold [OF sha1.rep_init [OF assms(1)] assms(2)] by fastforce

section \<open>The first example of the standard\<close>

text \<open>The hash of \<open>abc\<close>, sixteen words of the schedule and twenty rounds at a time.\<close>

lemma sha_block_words:
  "length block = 64 \<Longrightarrow> map (\<lambda>i. of_nat (be_val (take 4 (drop (4 * i) block)))) [0..<16] = map shs_reverse (md_Decode block)"
  by (rule nth_equalityI) (simp_all add: length_md_Decode reverse_word)

lemma sha_upto_80: "[16..<80] = [16..<32] @ [32..<48] @ [48..<64] @ [64..<80 :: nat]"
  using upt_add_eq_append [of 16 32 48] upt_add_eq_append [of 32 48 32] upt_add_eq_append [of 48 64 16] by (simp del: upt_rec_numeral)
lemma sha_rounds_80: "[0..<80] = [0..<20] @ [20..<40] @ [40..<60] @ [60..<80 :: nat]"
  using upt_add_eq_append [of 0 20 60] upt_add_eq_append [of 20 40 40] upt_add_eq_append [of 40 60 20] by (simp del: upt_rec_numeral)
lemma abc_w16:
  "fold sha_schedule [16..<32]
    [0x61626380, 0, 0, 0, 0, 0, 0, 0,
     0, 0, 0, 0, 0, 0, 0, 24]
   = [0x61626380, 0, 0, 0, 0, 0, 0, 0,
     0, 0, 0, 0, 0, 0, 0, 24,
     0xc2c4c700, 0, 0x00000030, 0x85898e01, 0, 0x00000060, 0x0b131c03, 0x00000030,
     0x85898ec1, 0x16263806, 0, 0x00000180, 0x2c4c700c, 0x000000f0, 0x93afb507, 0x5898e048]"
  by code_simp

lemma abc_w32:
  "fold sha_schedule [32..<48]
    [0x61626380, 0, 0, 0, 0, 0, 0, 0,
     0, 0, 0, 0, 0, 0, 0, 24,
     0xc2c4c700, 0, 0x00000030, 0x85898e01, 0, 0x00000060, 0x0b131c03, 0x00000030,
     0x85898ec1, 0x16263806, 0, 0x00000180, 0x2c4c700c, 0x000000f0, 0x93afb507, 0x5898e048]
   = [0x61626380, 0, 0, 0, 0, 0, 0, 0,
     0, 0, 0, 0, 0, 0, 0, 24,
     0xc2c4c700, 0, 0x00000030, 0x85898e01, 0, 0x00000060, 0x0b131c03, 0x00000030,
     0x85898ec1, 0x16263806, 0, 0x00000180, 0x2c4c700c, 0x000000f0, 0x93afb507, 0x5898e048,
     0x8e9a9202, 0x00000600, 0xb131c0f0, 0x16263bc6, 0x4ebed41e, 0x626380a1, 0x16263806, 0x000018c0,
     0xd2e138c4, 0x00000f00, 0x3afb5079, 0x898e04e5, 0xe2ba3c2b, 0x000060c0, 0x053a37cd, 0x74458547]"
  by code_simp

lemma abc_w48:
  "fold sha_schedule [48..<64]
    [0x61626380, 0, 0, 0, 0, 0, 0, 0,
     0, 0, 0, 0, 0, 0, 0, 24,
     0xc2c4c700, 0, 0x00000030, 0x85898e01, 0, 0x00000060, 0x0b131c03, 0x00000030,
     0x85898ec1, 0x16263806, 0, 0x00000180, 0x2c4c700c, 0x000000f0, 0x93afb507, 0x5898e048,
     0x8e9a9202, 0x00000600, 0xb131c0f0, 0x16263bc6, 0x4ebed41e, 0x626380a1, 0x16263806, 0x000018c0,
     0xd2e138c4, 0x00000f00, 0x3afb5079, 0x898e04e5, 0xe2ba3c2b, 0x000060c0, 0x053a37cd, 0x74458547]
   = [0x61626380, 0, 0, 0, 0, 0, 0, 0,
     0, 0, 0, 0, 0, 0, 0, 24,
     0xc2c4c700, 0, 0x00000030, 0x85898e01, 0, 0x00000060, 0x0b131c03, 0x00000030,
     0x85898ec1, 0x16263806, 0, 0x00000180, 0x2c4c700c, 0x000000f0, 0x93afb507, 0x5898e048,
     0x8e9a9202, 0x00000600, 0xb131c0f0, 0x16263bc6, 0x4ebed41e, 0x626380a1, 0x16263806, 0x000018c0,
     0xd2e138c4, 0x00000f00, 0x3afb5079, 0x898e04e5, 0xe2ba3c2b, 0x000060c0, 0x053a37cd, 0x74458547,
     0xda9415ed, 0x26380a16, 0x626383a1, 0x4ebf54de, 0x3835b44b, 0x0000f600, 0x1e84c7a3, 0x98e04d98,
     0x651d16a0, 0x62658ca1, 0x458544d6, 0x44584cb7, 0x7ba06619, 0x6380aea2, 0x0ae55269, 0x627b49a1]"
  by code_simp

lemma abc_w64:
  "fold sha_schedule [64..<80]
    [0x61626380, 0, 0, 0, 0, 0, 0, 0,
     0, 0, 0, 0, 0, 0, 0, 24,
     0xc2c4c700, 0, 0x00000030, 0x85898e01, 0, 0x00000060, 0x0b131c03, 0x00000030,
     0x85898ec1, 0x16263806, 0, 0x00000180, 0x2c4c700c, 0x000000f0, 0x93afb507, 0x5898e048,
     0x8e9a9202, 0x00000600, 0xb131c0f0, 0x16263bc6, 0x4ebed41e, 0x626380a1, 0x16263806, 0x000018c0,
     0xd2e138c4, 0x00000f00, 0x3afb5079, 0x898e04e5, 0xe2ba3c2b, 0x000060c0, 0x053a37cd, 0x74458547,
     0xda9415ed, 0x26380a16, 0x626383a1, 0x4ebf54de, 0x3835b44b, 0x0000f600, 0x1e84c7a3, 0x98e04d98,
     0x651d16a0, 0x62658ca1, 0x458544d6, 0x44584cb7, 0x7ba06619, 0x6380aea2, 0x0ae55269, 0x627b49a1]
   = [0x61626380, 0, 0, 0, 0, 0, 0, 0,
     0, 0, 0, 0, 0, 0, 0, 24,
     0xc2c4c700, 0, 0x00000030, 0x85898e01, 0, 0x00000060, 0x0b131c03, 0x00000030,
     0x85898ec1, 0x16263806, 0, 0x00000180, 0x2c4c700c, 0x000000f0, 0x93afb507, 0x5898e048,
     0x8e9a9202, 0x00000600, 0xb131c0f0, 0x16263bc6, 0x4ebed41e, 0x626380a1, 0x16263806, 0x000018c0,
     0xd2e138c4, 0x00000f00, 0x3afb5079, 0x898e04e5, 0xe2ba3c2b, 0x000060c0, 0x053a37cd, 0x74458547,
     0xda9415ed, 0x26380a16, 0x626383a1, 0x4ebf54de, 0x3835b44b, 0x0000f600, 0x1e84c7a3, 0x98e04d98,
     0x651d16a0, 0x62658ca1, 0x458544d6, 0x44584cb7, 0x7ba06619, 0x6380aea2, 0x0ae55269, 0x627b49a1,
     0x7cd45c9d, 0x000f0000, 0xfb50753a, 0xec6765e8, 0xba3c2be2, 0x0060c000, 0x3a37cd05, 0x458546f4,
     0xb8599dd6, 0x380a1a26, 0x01e02203, 0xe7cc3456, 0xe6e60b69, 0x00f60a00, 0x5795ef4f, 0x822e0879]"
  by code_simp

abbreviation abc_W :: "u32 list" where
  "abc_W \<equiv> [0x61626380, 0, 0, 0, 0, 0, 0, 0,
     0, 0, 0, 0, 0, 0, 0, 24,
     0xc2c4c700, 0, 0x00000030, 0x85898e01, 0, 0x00000060, 0x0b131c03, 0x00000030,
     0x85898ec1, 0x16263806, 0, 0x00000180, 0x2c4c700c, 0x000000f0, 0x93afb507, 0x5898e048,
     0x8e9a9202, 0x00000600, 0xb131c0f0, 0x16263bc6, 0x4ebed41e, 0x626380a1, 0x16263806, 0x000018c0,
     0xd2e138c4, 0x00000f00, 0x3afb5079, 0x898e04e5, 0xe2ba3c2b, 0x000060c0, 0x053a37cd, 0x74458547,
     0xda9415ed, 0x26380a16, 0x626383a1, 0x4ebf54de, 0x3835b44b, 0x0000f600, 0x1e84c7a3, 0x98e04d98,
     0x651d16a0, 0x62658ca1, 0x458544d6, 0x44584cb7, 0x7ba06619, 0x6380aea2, 0x0ae55269, 0x627b49a1,
     0x7cd45c9d, 0x000f0000, 0xfb50753a, 0xec6765e8, 0xba3c2be2, 0x0060c000, 0x3a37cd05, 0x458546f4,
     0xb8599dd6, 0x380a1a26, 0x01e02203, 0xe7cc3456, 0xe6e60b69, 0x00f60a00, 0x5795ef4f, 0x822e0879]"

lemma abc_r0:
  "fold (sha_round abc_W) [0..<20] (0x67452301, 0xefcdab89, 0x98badcfe, 0x10325476, 0xc3d2e1f0)
   = (0xfd9e1d7d, 0xdc64901d, 0x20aa99ca, 0xd3a49608, 0xc82f758b)"
  by code_simp

lemma abc_r1:
  "fold (sha_round abc_W) [20..<40] (0xfd9e1d7d, 0xdc64901d, 0x20aa99ca, 0xd3a49608, 0xc82f758b)
   = (0x32de1cba, 0x4c986405, 0xf718e5cf, 0x03d447f6, 0xf72eec32)"
  by code_simp

lemma abc_r2:
  "fold (sha_round abc_W) [40..<60] (0x32de1cba, 0x4c986405, 0xf718e5cf, 0x03d447f6, 0xf72eec32)
   = (0x3f52de5a, 0x09d785fd, 0x3498bfd4, 0xf211824f, 0xd79915ab)"
  by code_simp

lemma abc_r3:
  "fold (sha_round abc_W) [60..<80] (0x3f52de5a, 0x09d785fd, 0x3498bfd4, 0xf211824f, 0xd79915ab)
   = (0x42541b35, 0x5738d5e1, 0x21834873, 0x681e6df6, 0xd8fdf6ad)"
  by code_simp

definition abc_block :: "byte list" where "abc_block = [97, 98, 99, 0x80] @ replicate 59 0 @ [24]"

lemma abc_length: "length abc_block = 64" by (simp add: abc_block_def)

lemma abc_words: "sha_words abc_block = abc_W"
proof -
  have "map shs_reverse (md_Decode abc_block) = [0x61626380, 0, 0, 0, 0, 0, 0, 0, 0, 0, 0, 0, 0, 0, 0, 24]" by code_simp
  then show ?thesis
    unfolding sha_words_def sha_block_words [OF abc_length]
    by (simp only: sha_upto_80 fold_append comp_apply abc_w16 abc_w32 abc_w48 abc_w64)
qed

lemma abc_compress: "sha_compress sha_start abc_block = [0xa9993e36, 0x4706816a, 0xba3e2571, 0x7850c26c, 0x9cd0d89d]"
  by (simp add: sha_compress_def abc_words sha_rounds_80 abc_r0 abc_r1 abc_r2 abc_r3 del: upt_rec_numeral fold_simps)

lemma sha1_abc:
  "sha1_hash [97, 98, 99] = [0xa9, 0x99, 0x3e, 0x36, 0x47, 0x06, 0x81, 0x6a, 0xba, 0x3e, 0x25, 0x71, 0x78, 0x50, 0xc2, 0x6c, 0x9c, 0xd0, 0xd8, 0x9d]"
proof -
  have p: "shs_pad [97, 98, 99] = abc_block" by code_simp
  have "blk_loop 64 sha_compress sha_start (shs_pad [97, 98, 99]) = (sha_compress sha_start abc_block, [])"
    unfolding p by (subst blk_loop.simps) (simp add: md_blk.blk_loop_short abc_length)
  then have "sha1_hash [97, 98, 99] = shs_Encode [0xa9993e36, 0x4706816a, 0xba3e2571, 0x7850c26c, 0x9cd0d89d]"
    unfolding sha1_hash_def by (simp only: fst_conv abc_compress)
  also have "\<dots> = [0xa9, 0x99, 0x3e, 0x36, 0x47, 0x06, 0x81, 0x6a, 0xba, 0x3e, 0x25, 0x71, 0x78, 0x50, 0xc2, 0x6c, 0x9c, 0xd0, 0xd8, 0x9d]"
    by code_simp
  finally show ?thesis .
qed

theorem CSHA1_correct_witness:
  "\<exists>c'. sha1_Final (fold (\<lambda>xs c. sha1_Update c xs) [[97], [98, 99]]
      (sha1_Reset \<lparr>sha_state = [], sha_count0 = 5, sha_count1 = 7, sha_buffer = replicate 64 1, sha_digest = []\<rparr>)) = Some c'
    \<and> sha1_GetHash c' = [0xa9, 0x99, 0x3e, 0x36, 0x47, 0x06, 0x81, 0x6a, 0xba, 0x3e, 0x25, 0x71, 0x78, 0x50, 0xc2, 0x6c, 0x9c, 0xd0, 0xd8, 0x9d]"
  using CSHA1_correct [of "\<lparr>sha_state = [], sha_count0 = 5, sha_count1 = 7, sha_buffer = replicate 64 1, sha_digest = []\<rparr>" "[[97], [98, 99]]"] sha1_abc
  by simp

end
