(* ===== verification/WebSock_Parser.thy ===== *)
theory WebSock_Parser
  imports Event_Buffer CSHA1
begin

text \<open>
  \<^verbatim>\<open>QBase/WebSockParser.cpp\<close>: frames of the WebSocket protocol. The server receives masked frames and unmasks them in
  place, in the memory of the read buffer, and sends frames without a mask. Sizes of type \<^verbatim>\<open>size_t\<close> have
  \<open>sz\<close> bytes; the length field of a frame has up to eight.
\<close>

section \<open>Data\<close>

definition FRAME_HEAD_BASE_LEN :: nat where "FRAME_HEAD_BASE_LEN = 6"
definition FRAME_HEAD_EXT16_LEN :: nat where "FRAME_HEAD_EXT16_LEN = 8"
definition FRAME_HEAD_EXT64_LEN :: nat where "FRAME_HEAD_EXT64_LEN = 14"
definition PAYLOADLENS_125 :: nat where "PAYLOADLENS_125 = 125"
definition PAYLOADLENS_126 :: nat where "PAYLOADLENS_126 = 126"
definition PAYLOADLENS_127 :: nat where "PAYLOADLENS_127 = 127"

lemmas ws_consts = FRAME_HEAD_BASE_LEN_def FRAME_HEAD_EXT16_LEN_def FRAME_HEAD_EXT64_LEN_def
  PAYLOADLENS_125_def PAYLOADLENS_126_def PAYLOADLENS_127_def

text \<open>The operation code is any number of four bits, with or without a name in \<^verbatim>\<open>WebSockOpCode\<close>.\<close>

record websock_fram =
  cFin :: byte
  cRsv1 :: byte
  cRsv2 :: byte
  cRsv3 :: byte
  emOpCode :: byte
  cMask :: byte
  ucPayloadLen :: byte
  uiDataLens :: nat
  acMaskKey :: "byte list"

text \<open>\<^verbatim>\<open>m_pMsg\<close> is the bytes of the message it points to; \<open>mem\<close> is the memory \<^verbatim>\<open>m_objSHA1\<close> is made in. The string \<^verbatim>\<open>m_strVal\<close>,
  the position \<^verbatim>\<open>m_stPos\<close> and \<^verbatim>\<open>m_acShaKey\<close> are set before each use and are local to \<^verbatim>\<open>shakeHands\<close>.\<close>

record websock_parser =
  ws_bClose :: bool
  ws_iParsedLens :: nat
  ws_iHeadLens :: nat
  ws_iTotalLens :: nat
  ws_iNeedReadLens :: nat
  ws_pMsg :: "byte list option"
  ws_acWebSockHead :: "byte list"
  ws_stFram :: websock_fram
  ws_objSHA1 :: csha1

definition WebSockFram_init :: websock_fram where
  "WebSockFram_init = \<lparr>cFin = 0, cRsv1 = 0, cRsv2 = 0, cRsv3 = 0, emOpCode = 0, cMask = 0,
     ucPayloadLen = 0, uiDataLens = 0, acMaskKey = replicate 4 0\<rparr>"

definition CWebSockParser_init :: "csha1 \<Rightarrow> websock_parser" where
  "CWebSockParser_init mem = \<lparr>ws_bClose = False, ws_iParsedLens = 0, ws_iHeadLens = 0, ws_iTotalLens = 0,
     ws_iNeedReadLens = 0, ws_pMsg = None, ws_acWebSockHead = replicate 14 0, ws_stFram = WebSockFram_init, ws_objSHA1 = CSHA1_init mem\<rparr>"

definition ws_getMsg :: "websock_parser \<Rightarrow> byte list" where
  "ws_getMsg p = (case ws_pMsg p of None \<Rightarrow> [] | Some m \<Rightarrow> m)"

section \<open>Receiving\<close>

text \<open>\<^verbatim>\<open>ntohl64\<close> of \<^verbatim>\<open>OSFunc.cpp\<close> on the little-endian host.\<close>

definition ntohl64 :: "nat \<Rightarrow> nat" where
  "ntohl64 host =
     (let ulLow = host mod 2 ^ 32; ulHigh = host div 2 ^ 32 mod 2 ^ 32
      in push_bit 32 (ntohl ulLow) OR ntohl ulHigh)"

text \<open>The fields of the first two bytes.\<close>

definition ws_head_frame :: "websock_fram \<Rightarrow> byte list \<Rightarrow> websock_fram" where
  "ws_head_frame f pHead = f\<lparr>cFin := drop_bit 7 (pHead ! 0 AND 0x80), cRsv1 := drop_bit 6 (pHead ! 0 AND 0x40),
     cRsv2 := drop_bit 5 (pHead ! 0 AND 0x20), cRsv3 := drop_bit 4 (pHead ! 0 AND 0x10),
     emOpCode := pHead ! 0 AND 0xF, cMask := drop_bit 7 (pHead ! 1 AND 0x80), ucPayloadLen := pHead ! 1 AND 0x7F\<rparr>"

definition ws_parseHead ::
  "nat \<Rightarrow> ('bev, 'b) evbuffer_api \<Rightarrow> ('bev, 'b) event_buffer \<Rightarrow> websock_parser \<Rightarrow> cfault + bool \<times> websock_parser" where
  "ws_parseHead sz api pBuffer p0 =
     (let p = p0\<lparr>ws_iHeadLens := 0, ws_iNeedReadLens := FRAME_HEAD_BASE_LEN\<rparr>
      in case readBuffer sz api (ws_iNeedReadLens p) pBuffer of
           None \<Rightarrow> Inr (False, p)
         | Some pHead \<Rightarrow>
            (let f = ws_head_frame (ws_stFram p) pHead;
                 p = p\<lparr>ws_stFram := f\<rparr>;
                 len = unat (ucPayloadLen f)
             in if cMask f \<noteq> 1 \<or> cRsv1 f \<noteq> 0 \<or> cRsv2 f \<noteq> 0 \<or> cRsv3 f \<noteq> 0 then Inr (False, p\<lparr>ws_bClose := True\<rparr>)
                else if len \<le> PAYLOADLENS_125
                then Inr (True, p\<lparr>ws_iHeadLens := FRAME_HEAD_BASE_LEN,
                                  ws_stFram := f\<lparr>acMaskKey := [pHead ! 2, pHead ! 3, pHead ! 4, pHead ! 5], uiDataLens := len\<rparr>\<rparr>)
                else if len = PAYLOADLENS_126
                then if ws_iTotalLens p < FRAME_HEAD_EXT16_LEN then Inr (False, p)
                     else let p = p\<lparr>ws_iHeadLens := FRAME_HEAD_EXT16_LEN, ws_iNeedReadLens := FRAME_HEAD_EXT16_LEN\<rparr>
                          in case readBuffer sz api (ws_iNeedReadLens p) pBuffer of
                               None \<Rightarrow> Inr (False, p)
                             | Some pHead \<Rightarrow>
                                (case load_le 2 2 pHead of
                                   Inl e \<Rightarrow> Inl e
                                 | Inr v \<Rightarrow> Inr (True, p\<lparr>ws_stFram := f\<lparr>acMaskKey := [pHead ! 4, pHead ! 5, pHead ! 6, pHead ! 7],
                                                                       uiDataLens := ntohs v\<rparr>\<rparr>))
                else if len = PAYLOADLENS_127
                then if ws_iTotalLens p < FRAME_HEAD_EXT64_LEN then Inr (False, p)
                     else let p = p\<lparr>ws_iHeadLens := FRAME_HEAD_EXT64_LEN, ws_iNeedReadLens := FRAME_HEAD_EXT64_LEN\<rparr>
                          in case readBuffer sz api (ws_iNeedReadLens p) pBuffer of
                               None \<Rightarrow> Inr (False, p)
                             | Some pHead \<Rightarrow>
                                (case load_le 8 2 pHead of
                                   Inl e \<Rightarrow> Inl e
                                 | Inr v \<Rightarrow> Inr (True, p\<lparr>ws_stFram := f\<lparr>acMaskKey := [pHead ! 10, pHead ! 11, pHead ! 12, pHead ! 13],
                                                                       uiDataLens := ntohl64 v mod size_mod sz\<rparr>\<rparr>))
                else Inr (False, p\<lparr>ws_bClose := True\<rparr>)))"

text \<open>
  The loop that unmasks \<open>n\<close> bytes from offset \<open>h\<close> on; it does not look at the number of bytes that were pulled up.
\<close>

definition ws_unmask :: "byte list \<Rightarrow> nat \<Rightarrow> nat \<Rightarrow> byte list \<Rightarrow> cfault + byte list" where
  "ws_unmask key h n pMsg =
     (if h + n \<le> length pMsg
      then Inr (take h pMsg @ map (\<lambda>i. pMsg ! (h + i) XOR key ! (i mod 4)) [0..<n] @ drop (h + n) pMsg)
      else Inl OutOfBounds)"

definition ws_parsePack ::
  "nat \<Rightarrow> ('bev, 'b) evbuffer_api \<Rightarrow> ('bev, 'b) event_buffer \<Rightarrow> websock_parser
     \<Rightarrow> cfault + bool \<times> ('bev, 'b) event_buffer \<times> websock_parser" where
  "ws_parsePack sz api pBuffer p0 =
     (let p = p0\<lparr>ws_iParsedLens := 0, ws_bClose := False, ws_iTotalLens := getTotalLens api pBuffer\<rparr>
      in if FRAME_HEAD_BASE_LEN > ws_iTotalLens p then Inr (False, pBuffer, p)
         else case ws_parseHead sz api pBuffer p of
                Inl e \<Rightarrow> Inl e
              | Inr (False, p) \<Rightarrow> Inr (False, pBuffer, p)
              | Inr (True, p) \<Rightarrow>
                 (let h = ws_iHeadLens p; n = uiDataLens (ws_stFram p);
                      p = p\<lparr>ws_iNeedReadLens := (h + n) mod size_mod sz\<rparr>
                  in if ws_iTotalLens p < ws_iNeedReadLens p then Inr (False, pBuffer, p)
                     else let p = p\<lparr>ws_pMsg := None\<rparr>
                          in if n > 0
                             then case readBuffer sz api (ws_iNeedReadLens p) pBuffer of
                                    None \<Rightarrow> Inr (False, pBuffer, p)
                                  | Some pMsg \<Rightarrow>
                                     (case ws_unmask (acMaskKey (ws_stFram p)) h n pMsg of
                                        Inl e \<Rightarrow> Inl e
                                      | Inr pMsg \<Rightarrow>
                                          Inr (True, pokeBuffer api pMsg pBuffer,
                                               p\<lparr>ws_pMsg := Some (drop h pMsg), ws_iParsedLens := (h + n) mod size_mod sz\<rparr>))
                             else Inr (True, pBuffer, p\<lparr>ws_iParsedLens := (h + n) mod size_mod sz\<rparr>)))"

section \<open>Sending\<close>

definition ws_createHead :: "nat \<Rightarrow> bool \<Rightarrow> byte \<Rightarrow> nat \<Rightarrow> websock_parser \<Rightarrow> byte list \<times> websock_parser" where
  "ws_createHead sz bFin emCode iDataLens p =
     (let h = replicate 14 0;
          h = h[0 := emCode OR 0x80];
          h = (if \<not> bFin then h[0 := h ! 0 AND 0x7f] else h)
      in if iDataLens \<le> PAYLOADLENS_125
         then (let h = h[1 := of_nat iDataLens]
               in (take (FRAME_HEAD_BASE_LEN - 4) h, p\<lparr>ws_acWebSockHead := h\<rparr>))
         else if iDataLens > PAYLOADLENS_125 \<and> iDataLens \<le> 0xFFFF
         then (let h = h[1 := of_nat PAYLOADLENS_126];
                   h = take 2 h @ le_bytes 2 (ntohs (iDataLens mod 2 ^ 16)) @ drop 4 h
               in (take (FRAME_HEAD_EXT16_LEN - 4) h, p\<lparr>ws_acWebSockHead := h\<rparr>))
         else (let h = h[1 := of_nat PAYLOADLENS_127];
                   h = take 2 h @ le_bytes 8 (ntohl64 iDataLens) @ drop 10 h
               in (take (FRAME_HEAD_EXT64_LEN - 4) h, p\<lparr>ws_acWebSockHead := h\<rparr>)))"

section \<open>The frame format\<close>

text \<open>Masking, and the head of a frame that both sides write; the client adds the mask bit and the key.\<close>

definition ws_mask :: "byte list \<Rightarrow> byte list \<Rightarrow> byte list" where
  "ws_mask key m = map (\<lambda>i. m ! i XOR key ! (i mod 4)) [0..<length m]"

definition ws_len_field :: "byte \<Rightarrow> nat \<Rightarrow> byte list" where
  "ws_len_field maskbit n =
     (if n \<le> 125 then [maskbit OR of_nat n]
      else if n \<le> 0xFFFF then (maskbit OR 126) # be_bytes 2 n else (maskbit OR 127) # be_bytes 8 n)"

definition ws_first :: "bool \<Rightarrow> byte \<Rightarrow> byte" where
  "ws_first fin opcode = (if fin then 0x80 OR opcode else opcode)"

definition ws_server_head :: "bool \<Rightarrow> byte \<Rightarrow> nat \<Rightarrow> byte list" where
  "ws_server_head fin opcode n = ws_first fin opcode # ws_len_field 0 n"

definition ws_client_frame :: "bool \<Rightarrow> byte \<Rightarrow> byte list \<Rightarrow> byte list \<Rightarrow> byte list" where
  "ws_client_frame fin opcode key m = ws_first fin opcode # ws_len_field 0x80 (length m) @ key @ ws_mask key m"

text \<open>What a receiver makes of the bytes it has: nothing yet, a frame it does not accept, or the first frame.\<close>

datatype ws_view = Incomplete | Refused | Frame (ws_fin: bool) (ws_code: byte) (ws_msg: "byte list") (ws_used: nat)

definition ws_body :: "nat \<Rightarrow> nat \<Rightarrow> byte list \<Rightarrow> ws_view" where
  "ws_body h n bs =
     (if h + n \<le> length bs
      then Frame (bit (hd bs) 7) (hd bs AND 0xF) (ws_mask (take 4 (drop (h - 4) bs)) (take n (drop h bs))) (h + n)
      else Incomplete)"

definition ws_next :: "byte list \<Rightarrow> ws_view" where
  "ws_next bs =
     (if length bs < 6 then Incomplete
      else if bs ! 0 AND 0x70 \<noteq> 0 \<or> \<not> bit (bs ! 1) 7 then Refused
      else let l = unat (bs ! 1 AND 0x7F)
           in if l \<le> 125 then ws_body 6 l bs
              else if l = 126 then if length bs < 8 then Incomplete else ws_body 8 (be_val (take 2 (drop 2 bs))) bs
              else if length bs < 14 then Incomplete else ws_body 14 (be_val (take 8 (drop 2 bs))) bs)"

section \<open>Numbers and bits\<close>

lemma be_val_append: "be_val (xs @ ys) = be_val xs * 256 ^ length ys + be_val ys"
  by (simp add: be_val_def le_val_append)

lemma nat_or_disjoint: "b < 2 ^ k \<Longrightarrow> push_bit k a OR b = a * 2 ^ k + (b :: nat)"
proof -
  assume b: "b < 2 ^ k"
  have "push_bit k a AND b = 0"
  proof (rule bit_eqI)
    fix n
    have "n \<ge> k \<Longrightarrow> \<not> bit b n" using b by (metis bit_take_bit_iff not_le take_bit_nat_eq_self)
    then show "bit (push_bit k a AND b) n \<longleftrightarrow> bit (0 :: nat) n" by (auto simp: bit_simps)
  qed
  then show ?thesis by (simp add: disjunctive_add_eq_or [symmetric] push_bit_eq_mult)
qed

lemma ntohl64_le_val:
  assumes "length xs = 8"
  shows "ntohl64 (le_val xs) = be_val xs"
proof -
  let ?a = "take 4 xs" and ?b = "drop 4 xs"
  have ab: "xs = ?a @ ?b" "length ?a = 4" "length ?b = 4" using assms by simp_all
  have v: "le_val xs = le_val ?a + 2 ^ 32 * le_val ?b" using ab le_val_append [of ?a ?b] by simp
  have l: "le_val ?a < 2 ^ 32" "le_val ?b < 2 ^ 32" using le_val_less [of ?a] le_val_less [of ?b] ab(2,3) by simp_all
  have p: "le_val xs mod 2 ^ 32 = le_val ?a" "le_val xs div 2 ^ 32 mod 2 ^ 32 = le_val ?b" using l unfolding v by simp_all
  have n: "ntohl (le_val ?a) = be_val ?a" "ntohl (le_val ?b) = be_val ?b" using ab(2,3) by (simp_all add: ntohl_def byte_simps)
  have "be_val ?b < 2 ^ 32" using be_val_less [of ?b] ab(3) by simp
  then have "ntohl64 (le_val xs) = be_val ?a * 2 ^ 32 + be_val ?b"
    unfolding ntohl64_def Let_def p n by (rule nat_or_disjoint)
  also have "\<dots> = be_val xs" using be_val_append [of ?a ?b] ab by simp
  finally show ?thesis .
qed

lemma le_bytes_ntohl64:
  assumes "v < 2 ^ 64"
  shows "le_bytes 8 (ntohl64 v) = be_bytes 8 v"
proof -
  have "ntohl64 v = be_val (le_bytes 8 v)"
    using ntohl64_le_val [of "le_bytes 8 v"] assms by (simp add: le_val_le_bytes)
  then show ?thesis using le_bytes_le_val [of "rev (le_bytes 8 v)"] by (simp add: be_val_def be_bytes_def)
qed

lemma flag_bit: "n < 8 \<Longrightarrow> drop_bit n (x AND push_bit n 1) = (of_bool (bit x n) :: byte)"
  by (rule bit_word_eqI) (auto simp: bit_simps)

lemma ws_flags:
  "drop_bit 7 (x AND 0x80) = (of_bool (bit x 7) :: byte)" "drop_bit 6 (x AND 0x40) = (of_bool (bit x 6) :: byte)"
  "drop_bit 5 (x AND 0x20) = (of_bool (bit x 5) :: byte)" "drop_bit 4 (x AND 0x10) = (of_bool (bit x 4) :: byte)"
  using flag_bit [of 7 x] flag_bit [of 6 x] flag_bit [of 5 x] flag_bit [of 4 x] by (simp_all add: push_bit_eq_mult)

lemma ws_rsv: "x AND 0x70 = 0 \<longleftrightarrow> \<not> bit x 6 \<and> \<not> bit x 5 \<and> \<not> bit (x :: byte) 4"
proof -
  have c: "bit (0x70 :: byte) n \<longleftrightarrow> n \<in> {4, 5, 6}" for n
  proof (cases "n < 8")
    case True
    then have "n = 0 \<or> n = 1 \<or> n = 2 \<or> n = 3 \<or> n = 4 \<or> n = 5 \<or> n = 6 \<or> n = 7" by arith
    then show ?thesis by auto
  qed (auto dest: bit_imp_le_length)
  then have b: "bit (x AND 0x70) n \<longleftrightarrow> bit x n \<and> n \<in> {4, 5, 6}" for n by (simp add: bit_and_iff)
  show ?thesis
  proof
    assume "x AND 0x70 = 0"
    then show "\<not> bit x 6 \<and> \<not> bit x 5 \<and> \<not> bit x 4" using b [of 6] b [of 5] b [of 4] by simp
  next
    assume "\<not> bit x 6 \<and> \<not> bit x 5 \<and> \<not> bit x 4"
    then show "x AND 0x70 = 0" by (intro bit_word_eqI) (auto simp: b)
  qed
qed

section \<open>What the parser sees\<close>

definition ws_refused :: "byte list \<Rightarrow> bool" where
  "ws_refused bs \<longleftrightarrow> bs ! 0 AND 0x70 \<noteq> 0 \<or> \<not> bit (bs ! 1) 7"

text \<open>The length of the head and of the message that a head of the given bytes announces.\<close>

definition ws_lens :: "byte list \<Rightarrow> nat \<times> nat" where
  "ws_lens bs =
     (let l = unat (bs ! 1 AND 0x7F)
      in if l \<le> 125 then (6, l) else if l = 126 then (8, be_val (take 2 (drop 2 bs))) else (14, be_val (take 8 (drop 2 bs))))"

lemma ws_next_lens:
  "ws_next bs = (if length bs < 6 then Incomplete else if ws_refused bs then Refused
     else case ws_lens bs of (h, n) \<Rightarrow> if length bs < h then Incomplete else ws_body h n bs)"
  by (simp add: ws_next_def ws_lens_def ws_refused_def Let_def)

lemma read_head:
  assumes "evbuffer_laws api content" "bs = rd content eb" "k \<le> length bs" "0 < k" "2 * length bs < size_mod sz"
  shows "readBuffer sz api k eb = Some (take k bs)"
  using readBuffer_Some [OF assms(1), of k eb sz] assms by simp

lemma four_bytes: "j + 4 \<le> length bs \<Longrightarrow> [bs ! j, bs ! (j + 1), bs ! (j + 2), bs ! (j + 3)] = take 4 (drop j bs)"
  by (simp add: list_eq_iff_nth_eq less_Suc_eq numeral_eq_Suc)

lemma unat_low7: "unat (x AND 0x7F :: byte) < 128"
proof -
  have "x AND 0x7F = take_bit 7 x" by (simp add: take_bit_eq_mask mask_eq_exp_minus_1)
  then show ?thesis by (simp add: unsigned_take_bit_eq take_bit_nat_less_exp [of 7, simplified])
qed

text \<open>All branches of \<^verbatim>\<open>parseHead\<close>.\<close>

lemma ws_head_frame_sel:
  "cFin (ws_head_frame f bs) = of_bool (bit (bs ! 0) 7)" "cRsv1 (ws_head_frame f bs) = of_bool (bit (bs ! 0) 6)"
  "cRsv2 (ws_head_frame f bs) = of_bool (bit (bs ! 0) 5)" "cRsv3 (ws_head_frame f bs) = of_bool (bit (bs ! 0) 4)"
  "cMask (ws_head_frame f bs) = of_bool (bit (bs ! 1) 7)" "emOpCode (ws_head_frame f bs) = bs ! 0 AND 0xF"
  "ucPayloadLen (ws_head_frame f bs) = bs ! 1 AND 0x7F"
  by (auto simp: ws_head_frame_def and_one_eq bit_iff_odd_drop_bit odd_iff_mod_2_eq_one)

lemma ws_head_frame_refused:
  "cMask (ws_head_frame f bs) \<noteq> 1 \<or> cRsv1 (ws_head_frame f bs) \<noteq> 0 \<or> cRsv2 (ws_head_frame f bs) \<noteq> 0
     \<or> cRsv3 (ws_head_frame f bs) \<noteq> 0 \<longleftrightarrow> ws_refused bs"
  by (auto simp: ws_head_frame_sel ws_refused_def ws_rsv)

lemma ws_head_frame_take: "2 \<le> k \<Longrightarrow> ws_head_frame f (take k bs) = ws_head_frame f bs"
  by (simp add: ws_head_frame_def)

lemma ws_parseHead_val:
  assumes "evbuffer_laws api content" "bs = rd content eb" "6 \<le> length bs" "2 * length bs < size_mod sz" "sz = 4 \<or> sz = 8"
    "ws_iTotalLens p = length bs" "ws_lens bs = (h, n)"
  defines "f \<equiv> ws_head_frame (ws_stFram p) bs"
  shows "ws_parseHead sz api eb p =
    (if ws_refused bs then Inr (False, p\<lparr>ws_iHeadLens := 0, ws_iNeedReadLens := 6, ws_stFram := f, ws_bClose := True\<rparr>)
     else if length bs < h then Inr (False, p\<lparr>ws_iHeadLens := 0, ws_iNeedReadLens := 6, ws_stFram := f\<rparr>)
     else Inr (True, p\<lparr>ws_iHeadLens := h, ws_iNeedReadLens := h,
            ws_stFram := f\<lparr>acMaskKey := take 4 (drop (h - 4) bs), uiDataLens := n mod size_mod sz\<rparr>\<rparr>))"
proof -
  let ?l = "unat (bs ! 1 AND 0x7F)"
  have r6: "readBuffer sz api 6 eb = Some (take 6 bs)" using assms(1-4) by (intro read_head) simp_all
  have m: "2 ^ 32 \<le> size_mod sz" using assms(5) by (auto simp: size_mod_def)
  have ok: "\<not> ws_refused bs \<Longrightarrow> cMask f = 1 \<and> cRsv1 f = 0 \<and> cRsv2 f = 0 \<and> cRsv3 f = 0"
    using ws_head_frame_refused [of "ws_stFram p" bs] unfolding f_def by blast
  have l: "ucPayloadLen f = bs ! 1 AND 0x7F" "ws_head_frame (ws_stFram p) (take 6 bs) = f"
    by (simp_all add: f_def ws_head_frame_sel ws_head_frame_take)
  note d = ws_parseHead_def Let_def ws_consts r6 l
  consider "ws_refused bs" | "\<not> ws_refused bs" "?l \<le> 125" | "\<not> ws_refused bs" "?l = 126" | "\<not> ws_refused bs" "?l = 127"
    using unat_low7 [of "bs ! 1"] by linarith
  then show ?thesis
  proof cases
    case 1
    then have "cMask f \<noteq> 1 \<or> cRsv1 f \<noteq> 0 \<or> cRsv2 f \<noteq> 0 \<or> cRsv3 f \<noteq> 0"
      using ws_head_frame_refused [of "ws_stFram p" bs] unfolding f_def by blast
    then show ?thesis using 1 by (elim disjE) (simp_all add: d)
  next
    case 2
    then have "h = 6" "n = ?l" using assms(7) by (simp_all add: ws_lens_def)
    moreover have "[bs ! 2, bs ! 3, bs ! 4, bs ! 5] = take 4 (drop 2 bs)" using four_bytes [of 2 bs] assms(3) by simp
    ultimately show ?thesis using 2 ok assms(3) m by (simp add: d)
  next
    case 3
    then have hn: "h = 8" "n = be_val (take 2 (drop 2 bs))" using assms(7) by (simp_all add: ws_lens_def)
    show ?thesis
    proof (cases "length bs < 8")
      case True
      then show ?thesis using 3 ok hn assms(6) by (simp add: d)
    next
      case False
      have r8: "readBuffer sz api 8 eb = Some (take 8 bs)" using assms(1,2,4) False by (intro read_head) simp_all
      have k: "[bs ! 4, bs ! 5, bs ! 6, bs ! 7] = take 4 (drop 4 bs)" using four_bytes [of 4 bs] False by simp
      have v: "load_le 2 2 (take 8 bs) = Inr (le_val (take 2 (drop 2 bs)))" using False by (simp add: drop_take)
      have nn: "ntohs (le_val (take 2 (drop 2 bs))) = n" using False by (simp add: ntohs_def byte_simps hn)
      have "n < 2 ^ 16" using be_val_less [of "take 2 (drop 2 bs)"] False unfolding hn by simp
      then show ?thesis using 3 ok hn(1) assms(6) False m k v nn by (simp add: d r8 del: load_le_Inr)
    qed
  next
    case 4
    then have hn: "h = 14" "n = be_val (take 8 (drop 2 bs))" using assms(7) by (simp_all add: ws_lens_def)
    show ?thesis
    proof (cases "length bs < 14")
      case True
      then show ?thesis using 4 ok hn assms(6) by (simp add: d)
    next
      case False
      have r: "readBuffer sz api 14 eb = Some (take 14 bs)" using assms(1,2,4) False by (intro read_head) simp_all
      have k: "[bs ! 10, bs ! 11, bs ! 12, bs ! 13] = take 4 (drop 10 bs)" using four_bytes [of 10 bs] False by simp
      have v: "load_le 8 2 (take 14 bs) = Inr (le_val (take 8 (drop 2 bs)))" using False by (simp add: drop_take)
      have nn: "ntohl64 (le_val (take 8 (drop 2 bs))) = n" using False by (simp add: ntohl64_le_val hn)
      show ?thesis using 4 ok hn(1) assms(6) False k v nn by (simp add: d r del: load_le_Inr)
    qed
  qed
qed

text \<open>The result of \<^verbatim>\<open>parsePack\<close> for each view of the bytes received.\<close>

definition ws_parses ::
  "nat \<Rightarrow> ('bev, 'b) evbuffer_api \<Rightarrow> ('b \<Rightarrow> byte list) \<Rightarrow> ('bev, 'b) event_buffer \<Rightarrow> websock_parser \<Rightarrow> ws_view \<Rightarrow> bool" where
  "ws_parses sz api content eb p v \<longleftrightarrow>
     (\<exists>r eb' p'. ws_parsePack sz api eb p = Inr (r, eb', p') \<and>
        (case v of
           Incomplete \<Rightarrow> \<not> r \<and> eb' = eb \<and> \<not> ws_bClose p' \<and> ws_iParsedLens p' = 0
         | Refused \<Rightarrow> \<not> r \<and> eb' = eb \<and> ws_bClose p' \<and> ws_iParsedLens p' = 0
         | Frame fin code m k \<Rightarrow> r \<and> \<not> ws_bClose p' \<and> ws_iParsedLens p' = k \<and> ws_getMsg p' = m
             \<and> uiDataLens (ws_stFram p') = length m \<and> (cFin (ws_stFram p') = 1) = fin \<and> emOpCode (ws_stFram p') = code
             \<and> rd content eb' = take (k - length m) (rd content eb) @ m @ drop k (rd content eb)))"

text \<open>Frames whose announced length makes the sum with the head overflow \<^verbatim>\<open>size_t\<close>, or does not fit into it at all.\<close>

definition ws_wraps :: "nat \<Rightarrow> byte list \<Rightarrow> bool" where
  "ws_wraps sz bs \<longleftrightarrow> 14 \<le> length bs \<and> unat (bs ! 1 AND 0x7F) = 127 \<and> size_mod sz - 14 \<le> be_val (take 8 (drop 2 bs))"

lemma length_ws_mask [simp]: "length (ws_mask key m) = length m" by (simp add: ws_mask_def)

lemma ws_unmask_eq:
  assumes "h + n \<le> length bs"
  shows "ws_unmask key h n (take (h + n) bs) = Inr (take h bs @ ws_mask key (take n (drop h bs)))"
proof -
  have "map (\<lambda>i. take (h + n) bs ! (h + i) XOR key ! (i mod 4)) [0..<n] = ws_mask key (take n (drop h bs))"
    using assms by (simp add: ws_mask_def min_absorb2 cong: map_cong)
  then show ?thesis using assms by (simp add: ws_unmask_def)
qed

lemma ws_parsePack_lens:
  assumes "evbuffer_laws api content" "bs = rd content eb" "2 * length bs < size_mod sz" "sz = 4 \<or> sz = 8"
    "6 \<le> length bs" "\<not> ws_refused bs" "ws_lens bs = (h, n)" "h \<le> length bs \<Longrightarrow> h + n < size_mod sz"
  shows "ws_parses sz api content eb p (if length bs < h then Incomplete else ws_body h n bs)"
proof -
  let ?p = "p\<lparr>ws_iParsedLens := 0, ws_bClose := False, ws_iTotalLens := length bs\<rparr>"
  have tot: "getTotalLens api eb = length bs" using assms(1,2) by (simp add: evb)
  have h: "4 \<le> h" using assms(7) by (auto simp: ws_lens_def Let_def split: if_splits)
  note head = ws_parseHead_val [OF assms(1,2,5,3,4) _ assms(7), of ?p]
  note d = ws_parses_def ws_parsePack_def ws_consts tot Let_def assms(6)
  consider "length bs < h" | "h \<le> length bs" "length bs < h + n" | "h + n \<le> length bs" "n = 0" | "h + n \<le> length bs" "0 < n"
    by linarith
  then show ?thesis
  proof cases
    case 1
    then show ?thesis using head assms(5) by (auto simp: d)
  next
    case 2
    then show ?thesis using head assms(5,8) by (auto simp: d ws_body_def)
  next
    case 3
    have "hd bs = bs ! 0" using assms(5) by (cases bs) auto
    then show ?thesis using 3 head assms(5,8)
      by (auto simp: d ws_body_def ws_getMsg_def ws_head_frame_sel ws_mask_def assms(2) [symmetric])
  next
    case 4
    let ?key = "take 4 (drop (h - 4) bs)" and ?m = "take n (drop h bs)"
    have r: "readBuffer sz api (h + n) eb = Some (take (h + n) bs)" using 4 assms(1-3) by (intro read_head) simp_all
    have l: "length (take h bs @ ws_mask ?key ?m) = h + n" using 4 by simp
    have "rd content (pokeBuffer api (take h bs @ ws_mask ?key ?m) eb) = take h bs @ ws_mask ?key ?m @ drop (h + n) bs"
      using pokeBuffer_rd [OF assms(1), of "take h bs @ ws_mask ?key ?m" eb] l 4 assms(2) by simp
    moreover have "hd bs = bs ! 0" using assms(5) by (cases bs) auto
    ultimately show ?thesis using 4 head assms(5,8) ws_unmask_eq [OF 4(1), of ?key] r
      by (auto simp: d ws_body_def ws_getMsg_def ws_head_frame_sel assms(2) [symmetric])
  qed
qed

lemma ws_parsePack_view:
  assumes "evbuffer_laws api content" "bs = rd content eb" "2 * length bs < size_mod sz" "sz = 4 \<or> sz = 8" "\<not> ws_wraps sz bs"
  shows "ws_parses sz api content eb p (ws_next bs)"
proof -
  obtain h n where l: "ws_lens bs = (h, n)" by force
  have tot: "getTotalLens api eb = length bs" using assms(1,2) by (simp add: evb)
  show ?thesis
  proof (cases "length bs < 6")
    case True
    then show ?thesis by (auto simp: ws_next_lens ws_parses_def ws_parsePack_def ws_consts tot Let_def)
  next
    case 6: False
    show ?thesis
    proof (cases "ws_refused bs")
      case True
      then show ?thesis using 6 ws_parseHead_val [OF assms(1,2) _ assms(3,4) _ l, of "p\<lparr>ws_iParsedLens := 0, ws_bClose := False, ws_iTotalLens := length bs\<rparr>"]
        by (auto simp: ws_next_lens ws_parses_def ws_parsePack_def ws_consts tot Let_def)
    next
      case False
      have "h \<le> length bs \<Longrightarrow> h + n < size_mod sz"
        using l assms(4,5) be_val_less [of "take 2 (drop 2 bs)"] unat_low7 [of "bs ! 1"] power_increasing [of "min 2 (length bs - 2)" 2 "256 :: nat"]
        by (auto simp: ws_lens_def ws_wraps_def size_mod_def Let_def split: if_splits)
      then show ?thesis using ws_parsePack_lens [OF assms(1-4) _ False l, of p] 6 False by (simp add: ws_next_lens l)
    qed
  qed
qed

text \<open>
  C8. \<^verbatim>\<open>parsePack\<close> implements the frame format: for every content of the read buffer whose head does not announce a length
  beyond \<^verbatim>\<open>size_t\<close> it waits for more bytes, asks for the connection to be closed, or delivers the
  first frame with its flag, operation code and unmasked message and the number of bytes to be deleted,
  exactly as \<open>ws_next\<close> says; only the bytes of the message are changed in the buffer.
\<close>

theorem ws_parsePack_refines:
  assumes "evbuffer_laws api content" "bs = rd content eb" "2 * length bs < size_mod sz" "sz = 4 \<or> sz = 8" "\<not> ws_wraps sz bs"
  shows "ws_parses sz api content eb p (ws_next bs)"
  using assms by (rule ws_parsePack_view)

section \<open>Frames sent and received\<close>

lemma ws_mask_mask: "length key = 4 \<Longrightarrow> ws_mask key (ws_mask key m) = m"
  unfolding ws_mask_def by (rule nth_equalityI) (simp_all add: xor.assoc)

lemma low_mask: "x AND 0xF = take_bit 4 (x :: byte)" "x AND 0x7F = take_bit 7 (x :: byte)"
  by (simp_all add: take_bit_eq_mask mask_eq_exp_minus_1)

lemma small_byte: "unat (x :: byte) < 2 ^ k \<Longrightarrow> take_bit k x = x"
  by (simp add: word_unat_eq_iff unsigned_take_bit_eq take_bit_nat_eq_self)

lemma ws_first_bits:
  assumes "unat opcode < 16"
  shows "bit (ws_first fin opcode) 7 = fin" "ws_first fin opcode AND 0x70 = 0" "ws_first fin opcode AND 0xF = opcode"
proof -
  have t: "take_bit 4 opcode = opcode" using assms by (intro small_byte) simp
  then have b: "\<not> bit opcode 4" "\<not> bit opcode 5" "\<not> bit opcode 6" "\<not> bit opcode 7"
    using bit_take_bit_iff [of 4 opcode 4] bit_take_bit_iff [of 4 opcode 5] bit_take_bit_iff [of 4 opcode 6] bit_take_bit_iff [of 4 opcode 7]
    by simp_all
  then show "bit (ws_first fin opcode) 7 = fin" "ws_first fin opcode AND 0x70 = 0"
    by (simp_all add: ws_first_def ws_rsv bit_or_iff)
  show "ws_first fin opcode AND 0xF = opcode" using t by (simp add: low_mask ws_first_def)
qed

lemma ws_len_bits:
  assumes "n \<le> 125"
  shows "bit (0x80 OR of_nat n :: byte) 7" "unat ((0x80 OR of_nat n) AND 0x7F :: byte) = n"
proof -
  show "bit (0x80 OR of_nat n :: byte) 7" by (simp add: bit_or_iff)
  have u: "unat (of_nat n :: byte) = n" using assms by (simp add: unat_of_nat take_bit_nat_eq_self)
  then have "take_bit 7 (of_nat n :: byte) = of_nat n" using assms by (intro small_byte) simp
  then show "unat ((0x80 OR of_nat n) AND 0x7F :: byte) = n" using u by (simp add: low_mask)
qed

lemma ws_client_frame_lens:
  assumes "unat opcode < 16" "length key = 4" "length m < 2 ^ 64" and bs_def: "bs = ws_client_frame fin opcode key m @ rest"
    and h_def: "h = (if length m \<le> 125 then 6 else if length m \<le> 0xFFFF then 8 else 14)"
  shows "\<not> ws_refused bs" "ws_lens bs = (h, length m)" "take h bs = ws_first fin opcode # ws_len_field 0x80 (length m) @ key"
    "drop h bs = ws_mask key m @ rest"
proof -
  note d = bs_def h_def ws_client_frame_def ws_len_field_def ws_refused_def ws_lens_def byte_simps
  have "\<not> ws_refused bs \<and> ws_lens bs = (h, length m)"
  proof (cases "length m \<le> 125")
    case True
    then show ?thesis using ws_first_bits [OF assms(1), of fin] ws_len_bits [of "length m"] by (simp add: d)
  next
    case False
    then show ?thesis using ws_first_bits [OF assms(1), of fin] assms(3) by (simp add: d)
  qed
  then show "\<not> ws_refused bs" "ws_lens bs = (h, length m)" by simp_all
  show "take h bs = ws_first fin opcode # ws_len_field 0x80 (length m) @ key" "drop h bs = ws_mask key m @ rest"
    using assms(2) by (auto simp: bs_def h_def ws_client_frame_def ws_len_field_def)
qed

lemma ws_next_client_frame:
  assumes "unat opcode < 16" "length key = 4" "length m < 2 ^ 64"
  shows "ws_next (ws_client_frame fin opcode key m @ rest) = Frame fin opcode m (length (ws_client_frame fin opcode key m))"
proof -
  define h :: nat where "h = (if length m \<le> 125 then 6 else if length m \<le> 0xFFFF then 8 else 14)"
  let ?bs = "ws_client_frame fin opcode key m @ rest"
  note l = ws_client_frame_lens [OF assms refl h_def, of fin rest]
  have lf: "length (ws_client_frame fin opcode key m) = h + length m"
    using assms(2) by (simp add: ws_client_frame_def ws_len_field_def h_def)
  have k: "take 4 (drop (h - 4) ?bs) = key"
  proof -
    have "4 \<le> h \<Longrightarrow> take 4 (drop (h - 4) xs) = drop (h - 4) (take h xs)" for xs :: "byte list" by (simp add: drop_take)
    moreover have "4 \<le> h" by (simp add: h_def)
    ultimately have "take 4 (drop (h - 4) ?bs) = drop (h - 4) (take h ?bs)" by blast
    also have "\<dots> = key" unfolding l(3) using assms(2) by (auto simp: ws_len_field_def h_def)
    finally show ?thesis .
  qed
  have b: "h + length m \<le> length ?bs" "hd ?bs = ws_first fin opcode" using lf by (simp_all add: ws_client_frame_def)
  have "6 \<le> length ?bs" "h \<le> length ?bs" using b(1) by (simp_all add: h_def split: if_splits)
  then have "ws_next ?bs = ws_body h (length m) ?bs" using l(1,2) by (simp add: ws_next_lens)
  also have "\<dots> = Frame fin opcode m (h + length m)"
    using b l(4) ws_first_bits [OF assms(1), of fin] assms(2) unfolding ws_body_def k by (simp add: ws_mask_mask)
  finally show ?thesis unfolding lf .
qed

text \<open>
  A frame that a client makes, with any flag, operation code, mask key and message, is delivered: \<^verbatim>\<open>parsePack\<close> returns
  the message, and the bytes to delete are the frame, whatever follows it.
\<close>

theorem ws_client_roundtrip:
  assumes "evbuffer_laws api content" "rd content eb = ws_client_frame fin opcode key m @ rest"
    and "unat opcode < 16" "length key = 4" "2 * length (rd content eb) < size_mod sz" "sz = 4 \<or> sz = 8" "length m < size_mod sz - 14"
  shows "ws_parses sz api content eb p (Frame fin opcode m (length (ws_client_frame fin opcode key m)))"
proof -
  define h :: nat where "h = (if length m \<le> 125 then 6 else if length m \<le> 0xFFFF then 8 else 14)"
  have m: "length m < 2 ^ 64" using assms(6,7) by (auto simp: size_mod_def)
  note l = ws_client_frame_lens [OF assms(3,4) m assms(2) h_def]
  have "\<not> ws_wraps sz (rd content eb)"
    using l(2) assms(7) by (auto simp: ws_wraps_def ws_lens_def)
  then show ?thesis
    using ws_parsePack_view [OF assms(1) refl assms(5,6)] ws_next_client_frame [OF assms(3,4) m, of fin rest] assms(2) by simp
qed

text \<open>
  The overflow that the refinement excludes can be provoked from the network: a masked frame with an
  eight-byte length such that the head and the length together are between 1 and 13 modulo the range of \<^verbatim>\<open>size_t\<close> passes the
  test for completeness, and the loop that removes the mask writes outside the bytes received.
\<close>

theorem ws_length_overflow:
  assumes "evbuffer_laws api content" "bs = rd content eb" "14 \<le> length bs" "2 * length bs < size_mod sz" "sz = 4 \<or> sz = 8"
    and "\<not> ws_refused bs" "unat (bs ! 1 AND 0x7F) = 127"
    and "n = be_val (take 8 (drop 2 bs)) mod size_mod sz" "size_mod sz - 14 < n"
  shows "ws_parsePack sz api eb p = Inl OutOfBounds"
proof -
  have m: "2 ^ 32 \<le> size_mod sz" using assms(5) by (auto simp: size_mod_def)
  have n: "n < size_mod sz" unfolding assms(8) by (rule mod_less_divisor) (use m in simp)
  let ?k = "14 + n - size_mod sz"
  have k: "(14 + n) mod size_mod sz = ?k" "0 < ?k" "?k < 14" using assms(9) n m by (simp_all add: mod_if)
  have tot: "getTotalLens api eb = length bs" using assms(1,2) by (simp add: evb)
  have r: "readBuffer sz api ?k eb = Some (take ?k bs)" using k(2,3) assms(1-4) by (intro read_head) simp_all
  have l: "ws_lens bs = (14, be_val (take 8 (drop 2 bs)))" using assms(7) by (simp add: ws_lens_def)
  have "6 \<le> length bs" using assms(3) by simp
  note h = ws_parseHead_val [OF assms(1,2) this assms(4,5) _ l, of "p\<lparr>ws_iParsedLens := 0, ws_bClose := False, ws_iTotalLens := length bs\<rparr>"]
  have u: "ws_unmask key 14 n (take ?k bs) = Inl OutOfBounds" for key using k(2,3) by (simp add: ws_unmask_def)
  have "0 < n" using assms(9) m by linarith
  then show ?thesis using h assms(3,6) k r u
    by (simp add: ws_parsePack_def ws_consts tot Let_def assms(8) [symmetric])
qed

text \<open>
  \<^verbatim>\<open>createHead\<close> writes the head of an unmasked frame of the format, in its shortest form, for every operation code and length.
\<close>

theorem ws_createHead_spec:
  assumes "unat opcode < 16" "n < 2 ^ 64"
  shows "\<exists>p'. ws_createHead sz fin opcode n p = (ws_server_head fin opcode n, p') \<and> length (ws_acWebSockHead p') = 14"
proof -
  have o: "(opcode OR 0x80) AND 0x7F = opcode"
    using small_byte [of opcode 7] assms(1) by (simp add: low_mask)
  have z: "replicate 14 0 = [0, 0, 0, 0, 0, 0, 0, 0, 0, 0, 0, 0, 0, 0 :: byte]" by (simp add: numeral_eq_Suc)
  have s: "le_bytes 2 (ntohs n) = be_bytes 2 n" "le_bytes 2 (ntohs (n mod 65536)) = be_bytes 2 n" "le_bytes 8 (ntohl64 n) = be_bytes 8 n"
    using le_bytes_ntohl64 [OF assms(2)] be_bytes_def le_bytes_mod [of 2 n] by (simp_all add: ntohs_def byte_simps be_bytes_def)
  have "length (be_bytes 8 n) = 8" "length (be_bytes 2 n) = 2" by simp_all
  then show ?thesis using o
    by (auto simp: ws_createHead_def ws_server_head_def ws_len_field_def ws_first_def ws_consts z s Let_def or.commute)
qed

section \<open>The hypotheses hold\<close>

lemma ws_parsePack_refines_witness:
  "ws_parses 8 list_evbuffer id (CEventBuffer_init\<lparr>m_pReadBuffer := Some [0x81, 0x82, 1, 2, 3, 4, 0x49, 0x6B, 7]\<rparr>) (CWebSockParser_init zero_sha1)
     (Frame True 1 [0x48, 0x69] 8)"
proof -
  let ?bs = "[0x81, 0x82, 1, 2, 3, 4, 0x49, 0x6B, 7] :: byte list"
  let ?eb = "CEventBuffer_init\<lparr>m_pReadBuffer := Some ?bs\<rparr> :: (unit, byte list) event_buffer"
  have bs: "?bs = rd id ?eb" by (simp add: rd_def CEventBuffer_init_def)
  have nx: "ws_next ?bs = Frame True 1 [0x48, 0x69] 8"
    by (simp add: ws_next_def ws_body_def ws_mask_def upt_rec)
  show ?thesis using ws_parsePack_refines [OF list_evbuffer_laws bs, of 8 "CWebSockParser_init zero_sha1"]
    by (simp add: size_mod_def ws_wraps_def nx)
qed

lemma ws_client_roundtrip_witness:
  "ws_parses 8 list_evbuffer id (CEventBuffer_init\<lparr>m_pReadBuffer := Some [0x81, 0x82, 1, 2, 3, 4, 0x49, 0x6B, 7]\<rparr>) (CWebSockParser_init zero_sha1)
     (Frame True 1 [0x48, 0x69] (length [0x81, 0x82, 1, 2, 3, 4, 0x49, 0x6B :: byte]))"
proof -
  let ?bs = "[0x81, 0x82, 1, 2, 3, 4, 0x49, 0x6B, 7] :: byte list"
  let ?eb = "CEventBuffer_init\<lparr>m_pReadBuffer := Some ?bs\<rparr> :: (unit, byte list) event_buffer"
  have f: "ws_client_frame True 1 [1, 2, 3, 4] [0x48, 0x69] = [0x81, 0x82, 1, 2, 3, 4, 0x49, 0x6B]"
    by (simp add: ws_client_frame_def ws_first_def ws_len_field_def ws_mask_def upt_rec)
  then have bs: "rd id ?eb = ws_client_frame True 1 [1, 2, 3, 4] [0x48, 0x69] @ [7]"
    by (simp add: rd_def CEventBuffer_init_def)
  show ?thesis using ws_client_roundtrip [OF list_evbuffer_laws bs, of 8 "CWebSockParser_init zero_sha1"] f
    by (simp add: size_mod_def rd_def CEventBuffer_init_def)
qed

lemma ws_length_overflow_witness:
  "ws_parsePack 8 list_evbuffer
     (CEventBuffer_init\<lparr>m_pReadBuffer := Some [0x82, 0xFF, 0xFF, 0xFF, 0xFF, 0xFF, 0xFF, 0xFF, 0xFF, 0xFF, 1, 2, 3, 4]\<rparr>) (CWebSockParser_init zero_sha1)
     = Inl OutOfBounds"
proof -
  let ?bs = "[0x82, 0xFF, 0xFF, 0xFF, 0xFF, 0xFF, 0xFF, 0xFF, 0xFF, 0xFF, 1, 2, 3, 4] :: byte list"
  let ?eb = "CEventBuffer_init\<lparr>m_pReadBuffer := Some ?bs\<rparr> :: (unit, byte list) event_buffer"
  have bs: "?bs = rd id ?eb" by (simp add: rd_def CEventBuffer_init_def)
  have n: "2 ^ 64 - 1 = be_val (take 8 (drop 2 ?bs)) mod size_mod 8" by (simp add: be_val_def size_mod_def)
  show ?thesis using ws_length_overflow [OF list_evbuffer_laws bs _ _ _ _ _ n, of "CWebSockParser_init zero_sha1"]
    by (simp add: size_mod_def ws_refused_def)
qed

lemma ws_createHead_spec_witness:
  "\<exists>p'. ws_createHead 8 True 2 300 (CWebSockParser_init zero_sha1) = ([0x82, 126, 1, 44], p')"
proof -
  have "ws_server_head True 2 300 = [0x82, 126, 1, 44]"
    by (simp add: ws_server_head_def ws_first_def ws_len_field_def be_bytes_def numeral_2_eq_2)
  then show ?thesis using ws_createHead_spec [of 2 300 8 True "CWebSockParser_init zero_sha1"] by auto
qed

end
