(* ===== verification/Buffer_Mgr.thy ===== *)
theory Buffer_Mgr
  imports QS_Prelude
begin

text \<open>
  \<^verbatim>\<open>QBase/BufferMgr.cpp\<close>: \<^verbatim>\<open>CBuffer\<close>, a block of memory that grows. The allocator is an argument: it gives a block
  of the size asked for, with any contents, or nothing. Sizes of type \<^verbatim>\<open>size_t\<close> have \<open>sz\<close> bytes.
\<close>

section \<open>Operations\<close>

text \<open>What an operation of the C++ part can end with besides its result: a fault, or the exception for lack of memory.\<close>

datatype qerror = Fault cfault | AllocMemory

type_synonym allocator = "nat \<Rightarrow> byte list option"

record cbuffer =
  m_pBuffer :: "byte list option"
  m_iOffset :: nat
  m_iTotalSize :: nat

definition buf_New :: "allocator \<Rightarrow> nat \<Rightarrow> cbuffer \<Rightarrow> byte list option \<times> cbuffer" where
  "buf_New alloc iLens b =
     (if m_pBuffer b = None \<or> iLens > m_iTotalSize b
      then case alloc iLens of
             None \<Rightarrow> (None, b\<lparr>m_pBuffer := None, m_iTotalSize := 0\<rparr>)
           | Some block \<Rightarrow> (Some block, b\<lparr>m_pBuffer := Some block, m_iTotalSize := iLens\<rparr>)
      else (m_pBuffer b, b))"

definition CBuffer_init :: "allocator \<Rightarrow> cbuffer" where
  "CBuffer_init alloc = snd (buf_New alloc (5 * 1024) \<lparr>m_pBuffer = None, m_iOffset = 0, m_iTotalSize = 0\<rparr>)"

definition CBuffer_size :: "allocator \<Rightarrow> nat \<Rightarrow> cbuffer" where
  "CBuffer_size alloc iInitSize =
     (let n = (if 0 = iInitSize then 1 else iInitSize)
      in snd (buf_New alloc n \<lparr>m_pBuffer = None, m_iOffset = 0, m_iTotalSize = n\<rparr>))"

definition buf_reNew :: "allocator \<Rightarrow> nat \<Rightarrow> cbuffer \<Rightarrow> byte list option \<times> cbuffer" where
  "buf_reNew alloc iLens b =
     (case m_pBuffer b of
        None \<Rightarrow> buf_New alloc iLens b
      | Some block \<Rightarrow>
          if iLens \<le> m_iTotalSize b then (Some block, b)
          else case alloc iLens of
                 None \<Rightarrow> (None, b\<lparr>m_pBuffer := None, m_iTotalSize := 0\<rparr>)
               | Some pTmp \<Rightarrow>
                   let pTmp = take (m_iTotalSize b) block @ drop (m_iTotalSize b) pTmp
                   in (Some pTmp, b\<lparr>m_pBuffer := Some pTmp, m_iTotalSize := iLens\<rparr>))"

text \<open>\<^verbatim>\<open>pushBuff\<close>: no pointer stands for that many zeros.\<close>

definition pushBuff :: "nat \<Rightarrow> allocator \<Rightarrow> byte list option \<Rightarrow> nat \<Rightarrow> cbuffer \<Rightarrow> qerror + cbuffer" where
  "pushBuff sz alloc pBuff iLens b =
     (let iNewSize = (m_iOffset b + iLens) mod size_mod sz
      in case buf_reNew alloc iNewSize b of
           (None, b) \<Rightarrow> Inl AllocMemory
         | (Some block, b) \<Rightarrow>
             (case store_bytes (case pBuff of None \<Rightarrow> replicate iLens 0 | Some xs \<Rightarrow> take iLens xs) (m_iOffset b) block of
                Inl e \<Rightarrow> Inl (Fault e)
              | Inr block \<Rightarrow> Inr (b\<lparr>m_pBuffer := Some block, m_iOffset := (m_iOffset b + iLens) mod size_mod sz\<rparr>)))"

definition reSet :: "cbuffer \<Rightarrow> cbuffer" where "reSet b = b\<lparr>m_iOffset := 0\<rparr>"

definition buf_getLens :: "cbuffer \<Rightarrow> nat" where "buf_getLens b = m_iOffset b"

definition buf_getTotalLens :: "cbuffer \<Rightarrow> nat" where "buf_getTotalLens b = m_iTotalSize b"

section \<open>A growing sequence of bytes\<close>

text \<open>The bytes that \<^verbatim>\<open>getBuffer\<close> and \<^verbatim>\<open>getLens\<close> give access to.\<close>

definition buf_bytes :: "cbuffer \<Rightarrow> byte list" where
  "buf_bytes b = (case m_pBuffer b of None \<Rightarrow> [] | Some block \<Rightarrow> take (m_iOffset b) block)"

definition buf_inv :: "cbuffer \<Rightarrow> bool" where
  "buf_inv b \<longleftrightarrow> (case m_pBuffer b of None \<Rightarrow> m_iOffset b = 0 \<and> m_iTotalSize b = 0
     | Some block \<Rightarrow> length block = m_iTotalSize b \<and> m_iOffset b \<le> m_iTotalSize b)"

definition alloc_ok :: "allocator \<Rightarrow> bool" where
  "alloc_ok alloc \<longleftrightarrow> (\<forall>n. \<exists>block. alloc n = Some block \<and> length block = n)"

text \<open>
  The contract of a sequence of bytes that its client empties and appends to.
\<close>

locale byte_sink =
  fixes inv :: "'s \<Rightarrow> bool" and bytes :: "'s \<Rightarrow> byte list" and fits :: "nat \<Rightarrow> bool"
    and clear :: "'s \<Rightarrow> 's" and push :: "byte list \<Rightarrow> 's \<Rightarrow> 'e + 's"
  assumes clear_inv: "inv s \<Longrightarrow> inv (clear s)" and clear_bytes: "inv s \<Longrightarrow> bytes (clear s) = []"
    and push_ok: "inv s \<Longrightarrow> fits (length (bytes s) + length xs) \<Longrightarrow> \<exists>s'. push xs s = Inr s' \<and> inv s' \<and> bytes s' = bytes s @ xs"
begin

lemma replace: "inv s \<Longrightarrow> fits (length xs) \<Longrightarrow> \<exists>s'. push xs (clear s) = Inr s' \<and> inv s' \<and> bytes s' = xs"
  using push_ok [OF clear_inv, of s xs] clear_bytes [of s] by simp

fun push_all :: "byte list list \<Rightarrow> 's \<Rightarrow> 'e + 's" where
  "push_all [] s = Inr s"
| "push_all (xs # xss) s = (case push xs s of Inl e \<Rightarrow> Inl e | Inr s \<Rightarrow> push_all xss s)"

lemma push_all_ok:
  assumes "inv s" "\<And>n. n \<le> length (bytes s) + length (concat xss) \<Longrightarrow> fits n"
  shows "\<exists>s'. push_all xss s = Inr s' \<and> inv s' \<and> bytes s' = bytes s @ concat xss"
  using assms
proof (induction xss arbitrary: s)
  case (Cons xs xss)
  then obtain s1 where "push xs s = Inr s1" "inv s1" "bytes s1 = bytes s @ xs" using push_ok [of s xs] by auto
  then show ?case using Cons.IH [of s1] Cons.prems(2) by auto
qed simp

end

lemma pushBuff_ok:
  assumes "alloc_ok alloc" "buf_inv b" "length (buf_bytes b) + length xs < size_mod sz"
  shows "\<exists>b'. pushBuff sz alloc (Some xs) (length xs) b = Inr b' \<and> buf_inv b' \<and> buf_bytes b' = buf_bytes b @ xs"
proof -
  let ?n = "m_iOffset b + length xs"
  obtain blk where a: "alloc ?n = Some blk" "length blk = ?n" using assms(1) by (auto simp: alloc_ok_def)
  show ?thesis
  proof (cases "m_pBuffer b")
    case None
    then have "m_iOffset b = 0" using assms(2) by (simp add: buf_inv_def)
    then show ?thesis using None assms(3) a
      by (auto simp: pushBuff_def buf_reNew_def buf_New_def store_bytes_def buf_inv_def buf_bytes_def Let_def)
  next
    case (Some block)
    then have i: "length block = m_iTotalSize b" "m_iOffset b \<le> m_iTotalSize b" using assms(2) by (simp_all add: buf_inv_def)
    then have n: "?n mod size_mod sz = ?n" using assms(3) Some by (simp add: buf_bytes_def)
    show ?thesis
    proof (cases "?n \<le> m_iTotalSize b")
      case True
      then show ?thesis using Some i n
        by (auto simp: pushBuff_def buf_reNew_def store_bytes_def buf_inv_def buf_bytes_def Let_def)
    next
      case False
      then show ?thesis using Some i n a
        by (auto simp: pushBuff_def buf_reNew_def store_bytes_def buf_inv_def buf_bytes_def Let_def)
    qed
  qed
qed

interpretation buf: byte_sink "\<lambda>b. alloc_ok alloc \<and> buf_inv b" buf_bytes "\<lambda>n. n < size_mod sz" reSet
    "\<lambda>xs. pushBuff sz alloc (Some xs) (length xs)" for sz alloc
proof
  show "alloc_ok alloc \<and> buf_inv (reSet s)" if "alloc_ok alloc \<and> buf_inv s" for s
    using that by (auto simp: buf_inv_def reSet_def split: option.splits)
  show "buf_bytes (reSet s) = []" for s by (simp add: buf_bytes_def reSet_def split: option.split)
  show "\<exists>s'. pushBuff sz alloc (Some xs) (length xs) s = Inr s' \<and> (alloc_ok alloc \<and> buf_inv s') \<and> buf_bytes s' = buf_bytes s @ xs"
    if "alloc_ok alloc \<and> buf_inv s" "length (buf_bytes s) + length xs < size_mod sz" for s xs
    using pushBuff_ok [of alloc s xs sz] that by auto
qed

end
