(* ===== verification/Comm_Encrypt.thy ===== *)
theory Comm_Encrypt
  imports Buffer_Mgr
begin

text \<open>
  \<^verbatim>\<open>QBase/CommEncrypt.cpp\<close>: the chain of transformations that every message passes on its way to and from the network.
  The transformations themselves, AES and RSA of the keys in use and the compression of zlib, are the
  fields of the record \<open>codec_ops\<close>, an argument; \<open>None\<close> is the null pointer. \<open>Comm_Codecs\<close> puts in those of the repository.
\<close>

section \<open>Operations\<close>

datatype encrypt_type = AES | RSA | ZLib

record codec_ops =
  aes_Encode :: "byte list \<Rightarrow> byte list option"
  aes_Decode :: "byte list \<Rightarrow> byte list option"
  privateKeyEncrypt :: "byte list \<Rightarrow> byte list option"
  publicKeyEncrypt :: "byte list \<Rightarrow> byte list option"
  publicKeyDecrypt :: "byte list \<Rightarrow> byte list option"
  zlibCompress :: "byte list \<Rightarrow> byte list option"
  zlibDecompression :: "byte list \<Rightarrow> byte list option"

record comm_encrypt =
  ce_objBuffer :: cbuffer
  m_vcClinetType :: "encrypt_type list"
  m_vcSVLinkType :: "encrypt_type list"

definition addType :: "encrypt_type \<Rightarrow> bool \<Rightarrow> comm_encrypt \<Rightarrow> comm_encrypt" where
  "addType emType bSVLink ce =
     (if bSVLink then ce\<lparr>m_vcSVLinkType := m_vcSVLinkType ce @ [emType]\<rparr>
      else ce\<lparr>m_vcClinetType := m_vcClinetType ce @ [emType]\<rparr>)"

text \<open>The case distinctions of the two loops.\<close>

fun encode_stage :: "codec_ops \<Rightarrow> bool \<Rightarrow> encrypt_type \<Rightarrow> byte list \<Rightarrow> byte list option" where
  "encode_stage ops bSVLink AES msg = aes_Encode ops msg"
| "encode_stage ops bSVLink RSA msg = (if bSVLink then privateKeyEncrypt ops msg else publicKeyEncrypt ops msg)"
| "encode_stage ops bSVLink ZLib msg = zlibCompress ops msg"

fun decode_stage :: "codec_ops \<Rightarrow> encrypt_type \<Rightarrow> byte list \<Rightarrow> byte list option" where
  "decode_stage ops AES msg = aes_Decode ops msg"
| "decode_stage ops RSA msg = publicKeyDecrypt ops msg"
| "decode_stage ops ZLib msg = zlibDecompression ops msg"

text \<open>
  The loop over the types: the first stage reads the message, the others the buffer, and each one replaces the contents of the
  buffer. The flag is false when a stage gave no result.
\<close>

fun comm_loop ::
  "nat \<Rightarrow> allocator \<Rightarrow> (encrypt_type \<Rightarrow> byte list \<Rightarrow> byte list option) \<Rightarrow> encrypt_type list \<Rightarrow> byte list \<Rightarrow> cbuffer
     \<Rightarrow> qerror + bool \<times> cbuffer" where
  "comm_loop sz alloc stage [] input b = Inr (True, b)"
| "comm_loop sz alloc stage (t # ts) input b =
     (case stage t input of
        None \<Rightarrow> Inr (False, b)
      | Some out \<Rightarrow>
          (case pushBuff sz alloc (Some out) (length out) (reSet b) of
             Inl e \<Rightarrow> Inl e
           | Inr b \<Rightarrow> comm_loop sz alloc stage ts (buf_bytes b) b))"

text \<open>
  Both directions; the message is \<open>None\<close> for a null pointer. Only the list for clients is tested for being empty.
\<close>

definition comm_code ::
  "nat \<Rightarrow> allocator \<Rightarrow> (encrypt_type \<Rightarrow> byte list \<Rightarrow> byte list option) \<Rightarrow> encrypt_type list \<Rightarrow> byte list option \<Rightarrow> comm_encrypt
     \<Rightarrow> qerror + byte list option \<times> comm_encrypt" where
  "comm_code sz alloc stage types pszMsg ce =
     (if m_vcClinetType ce = [] then Inr (pszMsg, ce)
      else case pszMsg of
             None \<Rightarrow> Inr (None, ce)
           | Some msg \<Rightarrow>
               if length msg = 0 then Inr (pszMsg, ce)
               else (case comm_loop sz alloc stage types msg (ce_objBuffer ce) of
                       Inl e \<Rightarrow> Inl e
                     | Inr (ok, b) \<Rightarrow> Inr (if ok then Some (buf_bytes b) else None, ce\<lparr>ce_objBuffer := b\<rparr>)))"

definition comm_Encode ::
  "nat \<Rightarrow> allocator \<Rightarrow> codec_ops \<Rightarrow> byte list option \<Rightarrow> bool \<Rightarrow> comm_encrypt \<Rightarrow> qerror + byte list option \<times> comm_encrypt" where
  "comm_Encode sz alloc ops pszMsg bSVLink ce =
     comm_code sz alloc (encode_stage ops bSVLink) (if bSVLink then m_vcSVLinkType ce else m_vcClinetType ce) pszMsg ce"

definition comm_Decode ::
  "nat \<Rightarrow> allocator \<Rightarrow> codec_ops \<Rightarrow> byte list option \<Rightarrow> bool \<Rightarrow> comm_encrypt \<Rightarrow> qerror + byte list option \<times> comm_encrypt" where
  "comm_Decode sz alloc ops pszMsg bSVLink ce =
     comm_code sz alloc (decode_stage ops) (rev (if bSVLink then m_vcSVLinkType ce else m_vcClinetType ce)) pszMsg ce"

section \<open>The chain as a function\<close>

fun chain :: "(encrypt_type \<Rightarrow> byte list \<Rightarrow> byte list option) \<Rightarrow> encrypt_type list \<Rightarrow> byte list \<Rightarrow> byte list option" where
  "chain stage [] msg = Some msg"
| "chain stage (t # ts) msg = Option.bind (stage t msg) (chain stage ts)"

lemma chain_append: "chain stage (ts @ us) msg = Option.bind (chain stage ts msg) (chain stage us)"
  by (induction ts arbitrary: msg) (auto split: bind_splits)

text \<open>The results of the stages fit into memory.\<close>

definition stage_fits :: "nat \<Rightarrow> (encrypt_type \<Rightarrow> byte list \<Rightarrow> byte list option) \<Rightarrow> bool" where
  "stage_fits sz stage \<longleftrightarrow> (\<forall>t x y. stage t x = Some y \<longrightarrow> length y < size_mod sz)"

definition ce_inv :: "comm_encrypt \<Rightarrow> bool" where "ce_inv ce \<longleftrightarrow> buf_inv (ce_objBuffer ce)"

lemma comm_loop_chain:
  assumes "alloc_ok alloc" "stage_fits sz stage" "buf_inv b" "ts \<noteq> []"
  shows "\<exists>ok b'. comm_loop sz alloc stage ts msg b = Inr (ok, b') \<and> buf_inv b'
     \<and> chain stage ts msg = (if ok then Some (buf_bytes b') else None)"
  using assms(3,4)
proof (induction ts arbitrary: msg b)
  case (Cons t ts)
  show ?case
  proof (cases "stage t msg")
    case None
    then show ?thesis using Cons.prems(1) by auto
  next
    case (Some out)
    then have "length out < size_mod sz" using assms(2) by (auto simp: stage_fits_def)
    then obtain b1 where b1: "pushBuff sz alloc (Some out) (length out) (reSet b) = Inr b1" "buf_inv b1" "buf_bytes b1 = out"
      using buf.replace [of alloc b out sz] assms(1) Cons.prems(1) by auto
    show ?thesis
    proof (cases "ts = []")
      case True
      then show ?thesis using Some b1 by auto
    next
      case False
      then show ?thesis using Cons.IH [OF b1(2) False, of out] Some b1 by auto
    qed
  qed
qed simp

lemma comm_code_chain:
  assumes "alloc_ok alloc" "stage_fits sz stage" "ce_inv ce" "types \<noteq> []" "m_vcClinetType ce \<noteq> []" "msg \<noteq> []"
  shows "\<exists>ce'. comm_code sz alloc stage types (Some msg) ce = Inr (chain stage types msg, ce') \<and> ce_inv ce'
     \<and> m_vcClinetType ce' = m_vcClinetType ce \<and> m_vcSVLinkType ce' = m_vcSVLinkType ce"
  using comm_loop_chain [OF assms(1,2) _ assms(4), of "ce_objBuffer ce" msg] assms(3,5,6)
  by (auto simp: comm_code_def ce_inv_def)

text \<open>When the pieces fit together: each stage can be undone, and none makes a message empty.\<close>

definition codec_laws :: "codec_ops \<Rightarrow> bool" where
  "codec_laws ops \<longleftrightarrow>
     (\<forall>x y. aes_Encode ops x = Some y \<longrightarrow> aes_Decode ops y = Some x \<and> (x \<noteq> [] \<longrightarrow> y \<noteq> []))
   \<and> (\<forall>x y. privateKeyEncrypt ops x = Some y \<longrightarrow> publicKeyDecrypt ops y = Some x \<and> (x \<noteq> [] \<longrightarrow> y \<noteq> []))
   \<and> (\<forall>x y. zlibCompress ops x = Some y \<longrightarrow> zlibDecompression ops y = Some x \<and> (x \<noteq> [] \<longrightarrow> y \<noteq> []))"

lemma stage_inverse:
  assumes "codec_laws ops" "RSA \<noteq> t \<or> bSVLink" "encode_stage ops bSVLink t x = Some y"
  shows "decode_stage ops t y = Some x" "x \<noteq> [] \<Longrightarrow> y \<noteq> []"
  using assms by (cases t; auto simp: codec_laws_def split: if_splits)+

lemma chain_inverse:
  assumes "codec_laws ops" "RSA \<notin> set ts \<or> bSVLink"
  shows "chain (encode_stage ops bSVLink) ts x = Some y \<Longrightarrow>
    chain (decode_stage ops) (rev ts) y = Some x \<and> (x \<noteq> [] \<longrightarrow> y \<noteq> [])"
  using assms(2)
proof (induction ts arbitrary: x)
  case (Cons t ts)
  obtain z where z: "encode_stage ops bSVLink t x = Some z" "chain (encode_stage ops bSVLink) ts z = Some y"
    using Cons.prems(1) by (auto split: bind_splits)
  have "chain (decode_stage ops) (rev ts) y = Some z \<and> (z \<noteq> [] \<longrightarrow> y \<noteq> [])" using Cons.IH [OF z(2)] Cons.prems(2) by auto
  moreover have "decode_stage ops t z = Some x" "x \<noteq> [] \<Longrightarrow> z \<noteq> []"
    using stage_inverse [OF assms(1) _ z(1)] Cons.prems(2) by auto
  ultimately show ?case by (auto simp: chain_append)
qed simp

section \<open>The properties\<close>

definition comm_types :: "bool \<Rightarrow> comm_encrypt \<Rightarrow> encrypt_type list" where
  "comm_types bSVLink ce = (if bSVLink then m_vcSVLinkType ce else m_vcClinetType ce)"

lemma comm_Decode_Encode:
  assumes "alloc_ok alloc" "codec_laws ops" "stage_fits sz (encode_stage ops bSVLink)" "stage_fits sz (decode_stage ops)"
    and "ce_inv ce" "ce_inv ce2" "comm_types bSVLink ce2 = comm_types bSVLink ce" "comm_types bSVLink ce \<noteq> []"
    and "m_vcClinetType ce \<noteq> []" "m_vcClinetType ce2 \<noteq> []" "RSA \<notin> set (comm_types bSVLink ce) \<or> bSVLink" "msg \<noteq> []"
    and "comm_Encode sz alloc ops (Some msg) bSVLink ce = Inr (Some c, ce')"
  shows "\<exists>ce2'. comm_Decode sz alloc ops (Some c) bSVLink ce2 = Inr (Some msg, ce2') \<and> ce_inv ce2' \<and> ce_inv ce'"
proof -
  have e: "chain (encode_stage ops bSVLink) (comm_types bSVLink ce) msg = Some c" "ce_inv ce'"
    using comm_code_chain [OF assms(1,3,5,8,9,12)] assms(13) by (auto simp: comm_Encode_def comm_types_def)
  have d: "chain (decode_stage ops) (rev (comm_types bSVLink ce)) c = Some msg" "c \<noteq> []"
    using chain_inverse [OF assms(2,11) e(1)] assms(12) by auto
  have "rev (comm_types bSVLink ce) \<noteq> []" using assms(8) by simp
  from comm_code_chain [OF assms(1,4,6) this assms(10) d(2)] d(1) e(2) assms(7)
  show ?thesis by (auto simp: comm_Decode_def comm_types_def)
qed

text \<open>
  A configuration with transformations for clients and none for links between servers leaks messages: encoding and
  decoding a message of such a link return what the buffer holds from the message processed before, of whatever session.
\<close>

theorem comm_stale:
  assumes "m_vcClinetType ce \<noteq> []" "m_vcSVLinkType ce = []" "msg \<noteq> []"
  shows "comm_Encode sz alloc ops (Some msg) True ce = Inr (Some (buf_bytes (ce_objBuffer ce)), ce)
    \<and> comm_Decode sz alloc ops (Some msg) True ce = Inr (Some (buf_bytes (ce_objBuffer ce)), ce)"
  using assms by (simp add: comm_Encode_def comm_Decode_def comm_code_def)

section \<open>The hypotheses hold\<close>

text \<open>A cipher that adds one to every byte, a second one that turns messages around, and compression that compresses nothing.\<close>

definition up_to_1000 :: "(byte list \<Rightarrow> byte list) \<Rightarrow> byte list \<Rightarrow> byte list option" where
  "up_to_1000 f m = (if length m < 1000 then Some (f m) else None)"

definition shift_ops :: codec_ops where
  "shift_ops = \<lparr>aes_Encode = up_to_1000 (map (\<lambda>x. x + 1)), aes_Decode = up_to_1000 (map (\<lambda>x. x - 1)),
     privateKeyEncrypt = up_to_1000 rev, publicKeyEncrypt = up_to_1000 (map NOT),
     publicKeyDecrypt = up_to_1000 rev, zlibCompress = up_to_1000 id, zlibDecompression = up_to_1000 id\<rparr>"

lemma shift_ops_laws: "codec_laws shift_ops"
  by (auto simp: codec_laws_def shift_ops_def up_to_1000_def comp_def split: if_splits)

lemma shift_ops_fits: "stage_fits 8 (encode_stage shift_ops s)" "stage_fits 8 (decode_stage shift_ops)"
proof -
  have "length y < 1000" if "encode_stage shift_ops s t x = Some y" for t x y
    using that by (cases t; auto simp: shift_ops_def up_to_1000_def split: if_splits)
  moreover have "length y < 1000" if "decode_stage shift_ops t x = Some y" for t x y
    using that by (cases t; auto simp: shift_ops_def up_to_1000_def split: if_splits)
  ultimately show "stage_fits 8 (encode_stage shift_ops s)" "stage_fits 8 (decode_stage shift_ops)"
    by (fastforce simp: stage_fits_def size_mod_def)+
qed

definition zero_alloc :: allocator where "zero_alloc n = Some (replicate n 0)"

lemma zero_alloc_ok: "alloc_ok zero_alloc" by (simp add: alloc_ok_def zero_alloc_def)

definition example_ce :: comm_encrypt where
  "example_ce = \<lparr>ce_objBuffer = \<lparr>m_pBuffer = Some [9, 9, 9], m_iOffset = 2, m_iTotalSize = 3\<rparr>,
     m_vcClinetType = [AES], m_vcSVLinkType = [ZLib, AES, RSA]\<rparr>"

lemma comm_stale_witness:
  "comm_Encode 8 zero_alloc shift_ops (Some [1, 2]) True (example_ce\<lparr>m_vcSVLinkType := []\<rparr>)
     = Inr (Some [9, 9], example_ce\<lparr>m_vcSVLinkType := []\<rparr>)"
  using comm_stale [of "example_ce\<lparr>m_vcSVLinkType := []\<rparr>" "[1, 2]" 8 zero_alloc shift_ops]
  by (simp add: example_ce_def buf_bytes_def)

end
