(* ===== verification/Object_Pool.thy ===== *)
theory Object_Pool
  imports QS_Prelude
begin

text \<open>
  \<^verbatim>\<open>QBase/ObjectPool.h\<close>: \<^verbatim>\<open>CObjPool\<close>, which keeps freed objects for later use. Objects live in a heap; a pointer is a
  number, 0 is the null pointer, and \<^verbatim>\<open>new\<close> takes the next number that was never used.
\<close>

section \<open>Objects and pointers\<close>

type_synonym ptr = nat

record 'a heap =
  hp_obj :: "ptr \<Rightarrow> 'a"
  hp_next :: ptr

definition heap_new :: "'a \<Rightarrow> 'a heap \<Rightarrow> ptr \<times> 'a heap" where
  "heap_new x h = (hp_next h, h\<lparr>hp_obj := (hp_obj h)(hp_next h := x), hp_next := hp_next h + 1\<rparr>)"

definition heap_put :: "ptr \<Rightarrow> 'a \<Rightarrow> 'a heap \<Rightarrow> 'a heap" where
  "heap_put p x h = h\<lparr>hp_obj := (hp_obj h)(p := x)\<rparr>"

lemma heap_put_simps [simp]:
  "hp_next (heap_put p x h) = hp_next h" "hp_obj (heap_put p x h) q = (if q = p then x else hp_obj h q)"
  by (simp_all add: heap_put_def)

section \<open>The pool\<close>

record obj_pool =
  pool_uiCount :: u32
  m_lstUsed :: "ptr list"
  m_quFree :: "ptr list"

text \<open>\<open>obj\<close> is what the constructor of the objects makes.\<close>

fun pool_Init :: "'a \<Rightarrow> nat \<Rightarrow> 'a heap \<Rightarrow> obj_pool \<Rightarrow> 'a heap \<times> obj_pool" where
  "pool_Init obj 0 h pool = (h, pool)"
| "pool_Init obj (Suc n) h pool =
     (case heap_new obj h of (p, h) \<Rightarrow> pool_Init obj n h (pool\<lparr>m_quFree := m_quFree pool @ [p]\<rparr>))"

definition CObjPool_init :: "'a \<Rightarrow> nat \<Rightarrow> 'a heap \<Rightarrow> 'a heap \<times> obj_pool" where
  "CObjPool_init obj uiInitNum h = pool_Init obj uiInitNum h \<lparr>pool_uiCount = 0, m_lstUsed = [], m_quFree = []\<rparr>"

definition pool_Malloc :: "'a \<Rightarrow> 'a heap \<Rightarrow> obj_pool \<Rightarrow> ptr \<times> 'a heap \<times> obj_pool" where
  "pool_Malloc obj h pool =
     (case (case m_quFree pool of
              [] \<Rightarrow> (case heap_new obj h of (p, h) \<Rightarrow> (p, h, pool))
            | p # quFree \<Rightarrow> (p, h, pool\<lparr>m_quFree := quFree\<rparr>)) of
        (p, h, pool) \<Rightarrow> (p, h, pool\<lparr>m_lstUsed := m_lstUsed pool @ [p], pool_uiCount := pool_uiCount pool + 1\<rparr>))"

definition pool_Free :: "ptr \<Rightarrow> obj_pool \<Rightarrow> obj_pool" where
  "pool_Free pObj pool =
     (if pObj = 0 then pool
      else if pObj \<in> set (m_lstUsed pool)
      then pool\<lparr>m_lstUsed := remove1 pObj (m_lstUsed pool), m_quFree := m_quFree pool @ [pObj],
                pool_uiCount := pool_uiCount pool - 1\<rparr>
      else pool)"

definition pool_Clear :: "obj_pool \<Rightarrow> obj_pool" where
  "pool_Clear pool = pool\<lparr>m_lstUsed := [], m_quFree := []\<rparr>"

definition getUsedSize :: "obj_pool \<Rightarrow> nat" where "getUsedSize pool = length (m_lstUsed pool)"

definition getFreeSize :: "obj_pool \<Rightarrow> nat" where "getFreeSize pool = length (m_quFree pool)"

section \<open>No object is given out twice\<close>

definition pool_inv :: "'a heap \<times> obj_pool \<Rightarrow> bool" where
  "pool_inv s \<longleftrightarrow> (case s of (h, pool) \<Rightarrow>
     distinct (m_lstUsed pool @ m_quFree pool) \<and> 0 \<notin> set (m_lstUsed pool @ m_quFree pool) \<and> 0 < hp_next h
     \<and> (\<forall>p \<in> set (m_lstUsed pool @ m_quFree pool). p < hp_next h) \<and> pool_uiCount pool = of_nat (length (m_lstUsed pool)))"

text \<open>
  The contract of a pool that its clients use: what \<open>malloc\<close> gives out was not in use, and what is in use changes by exactly
  that object.
\<close>

locale object_pool =
  fixes inv :: "'s \<Rightarrow> bool" and used :: "'s \<Rightarrow> ptr set" and malloc :: "'s \<Rightarrow> ptr \<times> 's" and free :: "ptr \<Rightarrow> 's \<Rightarrow> 's"
  assumes malloc_ok: "inv s \<Longrightarrow> malloc s = (p, s') \<Longrightarrow> inv s' \<and> p \<noteq> 0 \<and> p \<notin> used s \<and> used s' = insert p (used s)"
    and free_ok: "inv s \<Longrightarrow> inv (free p s) \<and> used (free p s) = used s - {p}"
begin

lemma malloc_free: "inv s \<Longrightarrow> malloc s = (p, s') \<Longrightarrow> inv (free p s') \<and> used (free p s') = used s"
  using malloc_ok [of s p s'] free_ok [of s' p] by auto

lemma two_mallocs_differ:
  "inv s \<Longrightarrow> malloc s = (p, s1) \<Longrightarrow> malloc s1 = (q, s2) \<Longrightarrow> p \<noteq> q"
  using malloc_ok [of s p s1] malloc_ok [of s1 q s2] by auto

end

lemma pool_Malloc_cases:
  assumes "pool_inv (h, pool)" "pool_Malloc obj h pool = (p, h', pool')"
  shows "pool_inv (h', pool')" "p \<noteq> 0" "p \<notin> set (m_lstUsed pool)" "m_lstUsed pool' = m_lstUsed pool @ [p]"
    "hp_obj h' = (if m_quFree pool = [] then (hp_obj h)(p := obj) else hp_obj h)" "set (m_quFree pool') \<subseteq> set (m_quFree pool)"
    "m_quFree pool \<noteq> [] \<Longrightarrow> p \<in> set (m_quFree pool)"
    "p \<notin> set (m_quFree pool')" "m_quFree pool = [] \<Longrightarrow> p = hp_next h"
  using assms
  by (auto simp: pool_inv_def pool_Malloc_def heap_new_def less_Suc_eq split: list.splits)

lemma pool_Free_cases:
  assumes "pool_inv (h, pool)"
  shows "pool_inv (h, pool_Free p pool)" "set (m_lstUsed (pool_Free p pool)) = set (m_lstUsed pool) - {p}"
    "set (m_quFree (pool_Free p pool)) = set (m_quFree pool) \<union> (if p \<in> set (m_lstUsed pool) then {p} else {})"
proof -
  have d: "distinct (m_lstUsed pool)" "0 \<notin> set (m_lstUsed pool)" "pool_uiCount pool = of_nat (length (m_lstUsed pool))"
    using assms by (simp_all add: pool_inv_def)
  have c: "p \<in> set (m_lstUsed pool) \<Longrightarrow> (of_nat (length (m_lstUsed pool)) :: u32) - 1 = of_nat (length (remove1 p (m_lstUsed pool)))"
  proof -
    assume p: "p \<in> set (m_lstUsed pool)"
    then obtain n where "length (m_lstUsed pool) = Suc n" by (cases "m_lstUsed pool") auto
    then show ?thesis using p by (simp add: length_remove1)
  qed
  show "set (m_lstUsed (pool_Free p pool)) = set (m_lstUsed pool) - {p}" using d by (auto simp: pool_Free_def)
  show "set (m_quFree (pool_Free p pool)) = set (m_quFree pool) \<union> (if p \<in> set (m_lstUsed pool) then {p} else {})"
    using d by (auto simp: pool_Free_def)
  show "pool_inv (h, pool_Free p pool)"
    using assms c d by (auto simp: pool_inv_def pool_Free_def distinct_remove1)
qed

interpretation pool: object_pool pool_inv "\<lambda>s. set (m_lstUsed (snd s))" "\<lambda>(h, pool). pool_Malloc obj h pool"
    "\<lambda>p (h, pool). (h, pool_Free p pool)" for obj
proof
  fix s s' :: "'a heap \<times> obj_pool" and p
  assume "pool_inv s" "(\<lambda>(h, pool). pool_Malloc obj h pool) s = (p, s')"
  then show "pool_inv s' \<and> p \<noteq> 0 \<and> p \<notin> set (m_lstUsed (snd s)) \<and> set (m_lstUsed (snd s')) = insert p (set (m_lstUsed (snd s)))"
    using pool_Malloc_cases [of "fst s" "snd s" obj p "fst s'" "snd s'"] by (cases s; cases s') auto
next
  fix s :: "'a heap \<times> obj_pool" and p
  assume "pool_inv s"
  then show "pool_inv ((\<lambda>(h, pool). (h, pool_Free p pool)) s) \<and>
      set (m_lstUsed (snd ((\<lambda>(h, pool). (h, pool_Free p pool)) s))) = set (m_lstUsed (snd s)) - {p}"
    using pool_Free_cases [of "fst s" "snd s" p] by (cases s) auto
qed

lemma pool_Init_inv:
  assumes "pool_inv (h, pool)" "pool_Init obj n h pool = (h', pool')"
  shows "pool_inv (h', pool') \<and> m_lstUsed pool' = m_lstUsed pool \<and> length (m_quFree pool') = length (m_quFree pool) + n
     \<and> (\<forall>p \<in> set (m_quFree pool'). p \<in> set (m_quFree pool) \<and> hp_obj h' p = hp_obj h p \<or> hp_obj h' p = obj)"
  using assms
proof (induction n arbitrary: h pool)
  case (Suc n)
  let ?h = "h\<lparr>hp_obj := (hp_obj h)(hp_next h := obj), hp_next := hp_next h + 1\<rparr>"
    and ?pool = "pool\<lparr>m_quFree := m_quFree pool @ [hp_next h]\<rparr>"
  have i: "pool_inv (?h, ?pool)" using Suc.prems(1) by (auto simp: pool_inv_def intro: less_SucI)
  have e: "pool_Init obj n ?h ?pool = (h', pool')" using Suc.prems(2) by (simp add: heap_new_def)
  have f: "p \<in> set (m_quFree pool) \<Longrightarrow> p \<noteq> hp_next h" for p using Suc.prems(1) by (auto simp: pool_inv_def)
  show ?case using Suc.IH [OF i e] f by auto
qed auto

lemma CObjPool_init_inv:
  assumes "0 < hp_next h" "CObjPool_init obj n h = (h', pool)"
  shows "pool_inv (h', pool) \<and> m_lstUsed pool = [] \<and> length (m_quFree pool) = n \<and> (\<forall>p \<in> set (m_quFree pool). hp_obj h' p = obj)"
  using pool_Init_inv [of h "\<lparr>pool_uiCount = 0, m_lstUsed = [], m_quFree = []\<rparr>" obj n h' pool] assms
  by (auto simp: CObjPool_init_def pool_inv_def)

lemma CObjPool_init_free:
  assumes "CObjPool_init obj n h = (h', pool)"
  shows "m_quFree pool = [hp_next h ..< hp_next h + n]"
proof -
  have "m_quFree (snd (pool_Init obj n h pool)) = m_quFree pool @ [hp_next h ..< hp_next h + n]" for h pool
    by (induction n arbitrary: h pool) (simp_all add: heap_new_def upt_conv_Cons)
  from this [of h "\<lparr>pool_uiCount = 0, m_lstUsed = [], m_quFree = []\<rparr>"] show ?thesis using assms by (simp add: CObjPool_init_def)
qed

end
