(* ===== verification/Link_Other.thy ===== *)
theory Link_Other
  imports Event_Buffer
begin

text \<open>
  \<^verbatim>\<open>QBase/LinkOther.cpp\<close>: the links to other servers, which a monitor thread opens again when they are closed. Every operation
  holds the mutex, so that the operations are steps of their own. Connecting is an argument: the socket, or
  \<^verbatim>\<open>Q_INVALID_SOCK\<close>.
\<close>

section \<open>Operations\<close>

definition SESSSTATUS_CLOSED :: int where "SESSSTATUS_CLOSED = -1"
definition SESSSTATUS_CONNECT :: int where "SESSSTATUS_CONNECT = 0"
definition SESSSTATUS_LINKED :: int where "SESSSTATUS_LINKED = 1"

lemmas sess_status = SESSSTATUS_CLOSED_def SESSSTATUS_CONNECT_def SESSSTATUS_LINKED_def

record link_info =
  li_emStatus :: int
  li_usPort :: u16
  li_sock :: int
  li_strIp :: string
  li_strName :: string

type_synonym link_other = "link_info list"

definition checkHaveHost :: "string \<Rightarrow> link_other \<Rightarrow> bool" where
  "checkHaveHost pszName ls \<longleftrightarrow> list_ex (\<lambda>l. pszName = li_strName l) ls"

definition addHost :: "string \<Rightarrow> u16 \<Rightarrow> string \<Rightarrow> link_other \<Rightarrow> bool \<times> link_other" where
  "addHost pszIp usPort pszName ls =
     (if checkHaveHost pszName ls then (False, ls)
      else (True, ls @ [\<lparr>li_emStatus = SESSSTATUS_CLOSED, li_usPort = usPort, li_sock = Q_INVALID_SOCK,
                         li_strIp = pszIp, li_strName = pszName\<rparr>]))"

text \<open>
  One round of the monitor. \<open>conn\<close> gives for a link the socket of \<^verbatim>\<open>initSock\<close> in this round and whether the message to the worker
  thread could be sent; \<open>running\<close> is the state of that thread.
\<close>

definition Link :: "bool \<Rightarrow> (link_info \<Rightarrow> int \<times> bool) \<Rightarrow> link_other \<Rightarrow> link_other" where
  "Link running conn ls =
     (if \<not> running then ls
      else map (\<lambda>l. if SESSSTATUS_CLOSED \<noteq> li_emStatus l then l
                    else case conn l of (sok, sent) \<Rightarrow>
                         if Q_INVALID_SOCK = sok \<or> \<not> sent then l
                         else l\<lparr>li_emStatus := SESSSTATUS_CONNECT, li_sock := sok\<rparr>) ls)"

fun setSockStatus :: "int \<Rightarrow> int \<Rightarrow> link_other \<Rightarrow> link_other" where
  "setSockStatus sock emStatus [] = []"
| "setSockStatus sock emStatus (l # ls) =
     (if Q_INVALID_SOCK = sock then l # ls
      else if li_sock l = sock then l\<lparr>li_emStatus := emStatus\<rparr> # ls
      else l # setSockStatus sock emStatus ls)"

fun getSockByName :: "string \<Rightarrow> link_other \<Rightarrow> int" where
  "getSockByName pszName [] = Q_INVALID_SOCK"
| "getSockByName pszName (l # ls) = (if li_strName l = pszName then li_sock l else getSockByName pszName ls)"

section \<open>Names\<close>

abbreviation link_names :: "link_other \<Rightarrow> string list" where "link_names \<equiv> map li_strName"

lemma link_names_simps [simp]:
  "link_names (setSockStatus sock st ls) = link_names ls" "link_names (Link running conn ls) = link_names ls"
  by (induction ls) (auto simp: Link_def split: prod.splits)

lemma addHost_names:
  "link_names (snd (addHost ip port name ls)) = (if name \<in> set (link_names ls) then link_names ls else link_names ls @ [name])"
  by (auto simp: addHost_def checkHaveHost_def list_ex_iff)

inductive link_reach :: "link_other \<Rightarrow> bool" where
  link_none: "link_reach []"
| link_add: "link_reach ls \<Longrightarrow> link_reach (snd (addHost ip port name ls))"
| link_round: "link_reach ls \<Longrightarrow> link_reach (Link running conn ls)"
| link_status: "link_reach ls \<Longrightarrow> link_reach (setSockStatus sock st ls)"

lemma link_reach_distinct: "link_reach ls \<Longrightarrow> distinct (link_names ls)"
  by (induction rule: link_reach.induct) (simp_all add: addHost_names)

section \<open>Sockets\<close>

lemma setSockStatus_first:
  "sock \<noteq> Q_INVALID_SOCK \<Longrightarrow> \<forall>l \<in> set xs. li_sock l \<noteq> sock \<Longrightarrow>
     li_sock l = sock \<Longrightarrow> setSockStatus sock st (xs @ l # ys) = xs @ l\<lparr>li_emStatus := st\<rparr> # ys"
  by (induction xs) auto

definition link_named :: "string \<Rightarrow> link_other \<Rightarrow> link_info option" where
  "link_named name ls = find (\<lambda>l. li_strName l = name) ls"

lemma link_named_skip [simp]:
  "name \<notin> set (link_names us) \<Longrightarrow> link_named name (us @ vs) = link_named name vs"
  "link_named name (l # ls) = (if li_strName l = name then Some l else link_named name ls)"
  by (induction us) (auto simp: link_named_def)

lemma getSockByName_named: "getSockByName name ls = (case link_named name ls of None \<Rightarrow> Q_INVALID_SOCK | Some l \<Rightarrow> li_sock l)"
  by (induction ls) (auto simp: link_named_def)

text \<open>One round of the monitor, link by link.\<close>

definition link_one :: "bool \<Rightarrow> (link_info \<Rightarrow> int \<times> bool) \<Rightarrow> link_info \<Rightarrow> link_info" where
  "link_one running conn l =
     (if \<not> running \<or> SESSSTATUS_CLOSED \<noteq> li_emStatus l \<or> Q_INVALID_SOCK = fst (conn l) \<or> \<not> snd (conn l) then l
      else l\<lparr>li_emStatus := SESSSTATUS_CONNECT, li_sock := fst (conn l)\<rparr>)"

lemma Link_one: "Link running conn ls = map (link_one running conn) ls"
  by (cases running) (auto simp: Link_def link_one_def split: prod.splits intro: map_idI [symmetric])

lemma link_one_name [simp]: "li_strName (link_one running conn l) = li_strName l"
  by (simp add: link_one_def)

lemma link_one_names [simp]: "link_names (map (link_one running conn) ls) = link_names ls"
  by simp

text \<open>
  C25. Closing a link leaves its socket number in it, and the system gives that number to the next connection. Let link \<open>a\<close> be linked and lose its connection; let
  the monitor then fail to open \<open>a\<close> again but open the closed link \<open>b\<close> behind it, on the socket with the number that was given back. Then
  the report that this socket is linked goes to \<open>a\<close>, whose other end is not connected, and \<open>b\<close> stays in the state of connecting; the next round of the monitor changes
  neither; and when the connection of \<open>b\<close> is lost, it is again \<open>a\<close> that is marked as closed, so that the monitor, which looks only at closed links, does not open \<open>b\<close> in its next round.
\<close>

theorem link_stale_socket:
  fixes sock xs a ys b zs conn
  defines "ls1 \<equiv> setSockStatus sock SESSSTATUS_CLOSED (xs @ a # ys @ b # zs)"
  defines "ls3 \<equiv> setSockStatus sock SESSSTATUS_LINKED (Link True conn ls1)"
  defines "b' \<equiv> b\<lparr>li_emStatus := SESSSTATUS_CONNECT, li_sock := sock\<rparr>"
  assumes "distinct (link_names (xs @ a # ys @ b # zs))" "sock \<noteq> Q_INVALID_SOCK" "\<forall>l \<in> set xs. li_sock l \<noteq> sock \<and> fst (conn l) \<noteq> sock"
    and "li_sock a = sock" "li_emStatus a = SESSSTATUS_LINKED" "li_emStatus b = SESSSTATUS_CLOSED"
    and "fst (conn (a\<lparr>li_emStatus := SESSSTATUS_CLOSED\<rparr>)) = Q_INVALID_SOCK" "conn b = (sock, True)"
  shows "getSockByName (li_strName a) ls1 = sock
    \<and> (\<forall>running conn'. link_named (li_strName a) (Link running conn' ls3) = Some (a\<lparr>li_emStatus := SESSSTATUS_LINKED\<rparr>)
         \<and> link_named (li_strName b) (Link running conn' ls3) = Some b')
    \<and> (\<forall>running conn'. link_named (li_strName b) (Link running conn' (setSockStatus sock SESSSTATUS_CLOSED ls3)) = Some b')"
proof -
  let ?f = "link_one True conn"
  have ls1: "ls1 = xs @ a\<lparr>li_emStatus := SESSSTATUS_CLOSED\<rparr> # ys @ b # zs"
    unfolding ls1_def using assms(5-7) by (intro setSockStatus_first) auto
  have fs: "?f (a\<lparr>li_emStatus := SESSSTATUS_CLOSED\<rparr>) = a\<lparr>li_emStatus := SESSSTATUS_CLOSED\<rparr>" "?f b = b'"
    using assms(5,9-) by (auto simp: link_one_def b'_def)
  have x: "\<forall>l \<in> set (map ?f xs). li_sock l \<noteq> sock" using assms(6) by (auto simp: link_one_def)
  have ls3: "ls3 = map ?f xs @ a\<lparr>li_emStatus := SESSSTATUS_LINKED\<rparr> # map ?f ys @ b' # map ?f zs"
    using setSockStatus_first [OF assms(5) x, of "a\<lparr>li_emStatus := SESSSTATUS_CLOSED\<rparr>"] assms(7) by (simp add: ls3_def Link_one ls1 fs)
  have ls4: "setSockStatus sock SESSSTATUS_CLOSED ls3 = map ?f xs @ a\<lparr>li_emStatus := SESSSTATUS_CLOSED\<rparr> # map ?f ys @ b' # map ?f zs"
    unfolding ls3 using setSockStatus_first [OF assms(5) x, of "a\<lparr>li_emStatus := SESSSTATUS_LINKED\<rparr>"] assms(7) by simp
  have keep: "link_one running conn' (a\<lparr>li_emStatus := SESSSTATUS_LINKED\<rparr>) = a\<lparr>li_emStatus := SESSSTATUS_LINKED\<rparr>" "link_one running conn' b' = b'" for running conn'
    by (simp_all add: link_one_def b'_def sess_status)
  have n: "li_strName a \<notin> set (link_names xs)" "li_strName b \<notin> set (link_names xs)" "li_strName b \<notin> set (link_names ys)" "li_strName a \<noteq> li_strName b"
    "li_strName b' = li_strName b"
    using assms(4) by (auto simp: b'_def)
  show ?thesis unfolding ls4 using n assms(7) by (simp add: ls1 ls3 Link_one keep getSockByName_named)
qed

text \<open>Two links, the first linked on the socket 7, by the operations themselves.\<close>

definition two_links :: link_other where
  "two_links =
     (let ls = snd (addHost ''10.0.0.2'' 80 ''b'' (snd (addHost ''10.0.0.1'' 80 ''a'' [])))
      in setSockStatus 7 SESSSTATUS_LINKED (Link True (\<lambda>l. if li_strName l = ''a'' then (7, True) else (-1, False)) ls))"

lemma two_links_eq:
  "two_links = [\<lparr>li_emStatus = SESSSTATUS_LINKED, li_usPort = 80, li_sock = 7, li_strIp = ''10.0.0.1'', li_strName = ''a''\<rparr>,
     \<lparr>li_emStatus = SESSSTATUS_CLOSED, li_usPort = 80, li_sock = -1, li_strIp = ''10.0.0.2'', li_strName = ''b''\<rparr>]"
  by (simp add: two_links_def Link_def addHost_def checkHaveHost_def sess_status Q_INVALID_SOCK_def)

lemma link_stale_socket_witness:
  "link_reach two_links \<and> getSockByName ''a'' (setSockStatus 7 SESSSTATUS_CLOSED two_links) = 7
   \<and> map_option li_emStatus (link_named ''b'' (Link True (\<lambda>l. (9, True)) (setSockStatus 7 SESSSTATUS_CLOSED (setSockStatus 7 SESSSTATUS_LINKED
        (Link True (\<lambda>l. if li_strName l = ''b'' then (7, True) else (-1, False)) (setSockStatus 7 SESSSTATUS_CLOSED two_links)))))) = Some SESSSTATUS_CONNECT"
proof -
  have "link_reach two_links" unfolding two_links_def Let_def by (intro link_round link_status link_add link_none)
  moreover have "two_links = [] @ two_links ! 0 # [] @ two_links ! 1 # []" by (simp add: two_links_eq)
  ultimately show ?thesis
    using link_stale_socket [of "[]" "two_links ! 0" "[]" "two_links ! 1" "[]" 7 "\<lambda>l. if li_strName l = ''b'' then (7, True) else (-1, False)"]
    by (simp add: two_links_eq Q_INVALID_SOCK_def)
qed

end
