(* ===== verification/Session_Mgr.thy ===== *)
theory Session_Mgr
  imports Object_Pool Link_Other "HOL-Library.AList"
begin

text \<open>
  \<^verbatim>\<open>QBase/Session.cpp\<close> and \<^verbatim>\<open>QBase/SessionManager.cpp\<close>: the sessions of the worker thread. Session objects come from an object pool and
  are found by the number of their socket. The calls of \<^verbatim>\<open>bufferevent_free\<close> are recorded in the order they
  are made. The callback for closed sockets, which runs a script, is an argument.
\<close>

section \<open>Sessions\<close>

definition Q_INVALID_ID :: int where "Q_INVALID_ID = -1"
definition STYPE_TCP :: int where "STYPE_TCP = 0"
definition STYPE_TCPCLIENT :: int where "STYPE_TCPCLIENT = 1"
definition STYPE_WEBSOCK :: int where "STYPE_WEBSOCK = 2"
definition STYPE_DEBUG :: int where "STYPE_DEBUG = 3"

lemmas sess_types = STYPE_TCP_def STYPE_TCPCLIENT_def STYPE_WEBSOCK_def STYPE_DEBUG_def

record ('bev, 'b) csession =
  m_emSessionType :: int
  m_emStatus :: int
  m_iSessionID :: int
  m_uiPing :: u32
  m_strID :: string
  m_strAccount :: string
  m_strIDCard :: string
  m_objBuffer :: "('bev, 'b) event_buffer"

text \<open>The constructor and \<^verbatim>\<open>Clear\<close> call \<^verbatim>\<open>setBuffer(NULL)\<close>, which looks at nothing of libevent.\<close>

definition CSession_init :: "('bev, 'b) csession" where
  "CSession_init = \<lparr>m_emSessionType = STYPE_TCP, m_emStatus = SESSSTATUS_CLOSED, m_iSessionID = Q_INVALID_ID, m_uiPing = 0,
     m_strID = '''', m_strAccount = '''', m_strIDCard = '''', m_objBuffer = CEventBuffer_init\<rparr>"

definition session_Clear :: "('bev, 'b) evbuffer_api \<Rightarrow> ('bev, 'b) csession \<Rightarrow> ('bev, 'b) csession" where
  "session_Clear api s = s\<lparr>m_emSessionType := STYPE_TCP, m_iSessionID := Q_INVALID_ID, m_emStatus := SESSSTATUS_CLOSED, m_uiPing := 0,
     m_strID := '''', m_strAccount := '''', m_strIDCard := '''', m_objBuffer := snd (setBuffer api None (m_objBuffer s))\<rparr>"

section \<open>The manager\<close>

record ('bev, 'b) session_manager =
  sm_uiTimer :: u32
  sm_uiCount :: u32
  sm_pCurrent :: ptr
  sm_umapSession :: "(int \<times> ptr) list"
  sm_objSessionPool :: obj_pool
  sm_heap :: "('bev, 'b) csession heap"
  sm_link :: link_other
  sm_freed :: "'bev option list"

definition Q_INITSESSIONSIZE :: nat where "Q_INITSESSIONSIZE = 1024"

definition CSessionManager_init :: "('bev, 'b) csession heap \<Rightarrow> ('bev, 'b) session_manager" where
  "CSessionManager_init h =
     (case CObjPool_init CSession_init Q_INITSESSIONSIZE h of (h, pool) \<Rightarrow>
        \<lparr>sm_uiTimer = 0, sm_uiCount = 0, sm_pCurrent = 0, sm_umapSession = [], sm_objSessionPool = pool, sm_heap = h,
         sm_link = [], sm_freed = []\<rparr>)"

abbreviation sess :: "('bev, 'b) session_manager \<Rightarrow> ptr \<Rightarrow> ('bev, 'b) csession" where
  "sess m p \<equiv> hp_obj (sm_heap m) p"

definition sess_put :: "ptr \<Rightarrow> ('bev, 'b) csession \<Rightarrow> ('bev, 'b) session_manager \<Rightarrow> ('bev, 'b) session_manager" where
  "sess_put p s m = m\<lparr>sm_heap := heap_put p s (sm_heap m)\<rparr>"

definition setTimer :: "u32 \<Rightarrow> ('bev, 'b) session_manager \<Rightarrow> ('bev, 'b) session_manager" where
  "setTimer uiMS m = m\<lparr>sm_uiTimer := uiMS\<rparr>"

definition addCount :: "('bev, 'b) session_manager \<Rightarrow> ('bev, 'b) session_manager" where
  "addCount m = m\<lparr>sm_uiCount := sm_uiCount m + 1\<rparr>"

definition setCurSession :: "ptr \<Rightarrow> ('bev, 'b) session_manager \<Rightarrow> ('bev, 'b) session_manager" where
  "setCurSession p m = m\<lparr>sm_pCurrent := p\<rparr>"

text \<open>Giving a session back: it is cleared, returned to the pool and taken out of the map.\<close>

definition sess_release ::
  "('bev, 'b) evbuffer_api \<Rightarrow> int \<Rightarrow> ptr \<Rightarrow> ('bev, 'b) session_manager \<Rightarrow> ('bev, 'b) session_manager" where
  "sess_release api fd p m =
     (let m = sess_put p (session_Clear api (sess m p)) m
      in m\<lparr>sm_objSessionPool := pool_Free p (sm_objSessionPool m), sm_umapSession := AList.delete fd (sm_umapSession m)\<rparr>)"

definition dellSession ::
  "('bev, 'b) evbuffer_api \<Rightarrow> 'bev \<Rightarrow> ('bev, 'b) session_manager \<Rightarrow> ('bev, 'b) session_manager" where
  "dellSession api bev m =
     (let fd = bufferevent_getfd api bev
      in case map_of (sm_umapSession m) fd of
           None \<Rightarrow> m
         | Some p \<Rightarrow> if p = 0 then m\<lparr>sm_umapSession := AList.delete fd (sm_umapSession m)\<rparr> else sess_release api fd p m)"

definition addSession ::
  "('bev, 'b) evbuffer_api \<Rightarrow> 'bev option \<Rightarrow> ('bev, 'b) session_manager \<Rightarrow> int \<times> ('bev, 'b) session_manager" where
  "addSession api bev m =
     (case pool_Malloc CSession_init (sm_heap m) (sm_objSessionPool m) of (p, h, pool) \<Rightarrow>
      let m = m\<lparr>sm_heap := h, sm_objSessionPool := pool\<rparr>
      in case setBuffer api bev (m_objBuffer (sess m p)) of (iRtn, buffer) \<Rightarrow>
         let m = sess_put p ((sess m p)\<lparr>m_objBuffer := buffer\<rparr>) m
         in if iRtn \<noteq> Q_RTN_OK
            then (iRtn, (sess_put p (session_Clear api (sess m p)) m)\<lparr>sm_objSessionPool := pool_Free p pool\<rparr>)
            else let fd = getFD buffer;
                     m = sess_put p ((sess m p)\<lparr>m_iSessionID := fd, m_uiPing := sm_uiCount m\<rparr>) m
                 in (Q_RTN_OK, m\<lparr>sm_umapSession := AList.update fd p (sm_umapSession m)\<rparr>))"

definition getSessionByID :: "int \<Rightarrow> ('bev, 'b) session_manager \<Rightarrow> ptr" where
  "getSessionByID iID m =
     (if Q_INVALID_SOCK = iID then 0 else case map_of (sm_umapSession m) iID of None \<Rightarrow> 0 | Some p \<Rightarrow> p)"

definition getSession :: "('bev, 'b) evbuffer_api \<Rightarrow> 'bev \<Rightarrow> ('bev, 'b) session_manager \<Rightarrow> ptr" where
  "getSession api bev m =
     (let fd = bufferevent_getfd api bev
      in if Q_INVALID_SOCK = fd then 0 else case map_of (sm_umapSession m) fd of None \<Rightarrow> 0 | Some p \<Rightarrow> p)"

definition getSessionSize :: "('bev, 'b) session_manager \<Rightarrow> u32" where
  "getSessionSize m = of_nat (length (sm_umapSession m))"

text \<open>
  \<^verbatim>\<open>closeLinkByID\<close>; \<open>onSockClose\<close> is the callback of the interface, if one is set. First everybody is told and the
  buffer event is freed, then the session is given back.
\<close>

definition sess_unlink ::
  "(ptr \<Rightarrow> ('bev, 'b) session_manager \<Rightarrow> ('bev, 'b) session_manager) option
     \<Rightarrow> int \<Rightarrow> ptr \<Rightarrow> ('bev, 'b) session_manager \<Rightarrow> ('bev, 'b) session_manager" where
  "sess_unlink onSockClose iID p m =
     (let m = (case onSockClose of None \<Rightarrow> m | Some f \<Rightarrow> f p m);
          m = (if m_emSessionType (sess m p) = STYPE_TCPCLIENT
               then m\<lparr>sm_link := setSockStatus iID SESSSTATUS_CLOSED (sm_link m)\<rparr> else m)
      in m\<lparr>sm_freed := sm_freed m @ [m_pBev (m_objBuffer (sess m p))]\<rparr>)"

definition closeLinkByID ::
  "('bev, 'b) evbuffer_api \<Rightarrow> (ptr \<Rightarrow> ('bev, 'b) session_manager \<Rightarrow> ('bev, 'b) session_manager) option
     \<Rightarrow> int \<Rightarrow> ('bev, 'b) session_manager \<Rightarrow> ('bev, 'b) session_manager" where
  "closeLinkByID api onSockClose iID m =
     (if Q_INVALID_SOCK = iID then m
      else case map_of (sm_umapSession m) iID of
             None \<Rightarrow> m
           | Some p \<Rightarrow> sess_release api iID p (sess_unlink onSockClose iID p m))"

definition closeCurLink ::
  "('bev, 'b) evbuffer_api \<Rightarrow> (ptr \<Rightarrow> ('bev, 'b) session_manager \<Rightarrow> ('bev, 'b) session_manager) option
     \<Rightarrow> ('bev, 'b) session_manager \<Rightarrow> ('bev, 'b) session_manager" where
  "closeCurLink api onSockClose m =
     (if sm_pCurrent m = 0 then m else closeLinkByID api onSockClose (m_iSessionID (sess m (sm_pCurrent m))) m)"

text \<open>\<^verbatim>\<open>freeAllSession\<close>, at the end of the worker thread: the sessions are not cleared.\<close>

definition freeAllSession :: "('bev, 'b) session_manager \<Rightarrow> ('bev, 'b) session_manager" where
  "freeAllSession m =
     (fold (\<lambda>(fd, p) m. m\<lparr>sm_freed := sm_freed m @ [m_pBev (m_objBuffer (sess m p))],
                          sm_objSessionPool := pool_Free p (sm_objSessionPool m)\<rparr>) (sm_umapSession m) m)
     \<lparr>sm_umapSession := []\<rparr>"

section \<open>The invariant\<close>

text \<open>What a session in the map satisfies.\<close>

definition sess_bound :: "('bev, 'b) evbuffer_api \<Rightarrow> int \<Rightarrow> ('bev, 'b) csession \<Rightarrow> bool" where
  "sess_bound api fd s \<longleftrightarrow> fd \<noteq> Q_INVALID_SOCK \<and> m_iSessionID s = fd \<and> m_FD (m_objBuffer s) = fd
     \<and> (\<exists>bev. m_pBev (m_objBuffer s) = Some bev \<and> bufferevent_getfd api bev = fd)"

definition sess_inv :: "('bev, 'b) evbuffer_api \<Rightarrow> ('bev, 'b) session_manager \<Rightarrow> bool" where
  "sess_inv api m \<longleftrightarrow> distinct (map fst (sm_umapSession m)) \<and> pool_inv (sm_heap m, sm_objSessionPool m)
     \<and> set (m_lstUsed (sm_objSessionPool m)) = snd ` set (sm_umapSession m)
     \<and> (\<forall>(fd, p) \<in> set (sm_umapSession m). sess_bound api fd (sess m p))
     \<and> (\<forall>p \<in> set (m_quFree (sm_objSessionPool m)). sess m p = CSession_init)"

text \<open>
  What a script or an accessor may do to the sessions: change everything except which sessions there are, the objects in the
  pool and the buffers and numbers they are known by.
\<close>

definition same_shape :: "('bev, 'b) session_manager \<Rightarrow> ('bev, 'b) session_manager \<Rightarrow> bool" where
  "same_shape m m' \<longleftrightarrow> sm_umapSession m' = sm_umapSession m \<and> sm_objSessionPool m' = sm_objSessionPool m
     \<and> hp_next (sm_heap m') = hp_next (sm_heap m)
     \<and> (\<forall>p. m_iSessionID (sess m' p) = m_iSessionID (sess m p) \<and> m_FD (m_objBuffer (sess m' p)) = m_FD (m_objBuffer (sess m p))
          \<and> m_pBev (m_objBuffer (sess m' p)) = m_pBev (m_objBuffer (sess m p)))
     \<and> (\<forall>p \<in> set (m_quFree (sm_objSessionPool m)). sess m' p = sess m p)"

definition quiet :: "(ptr \<Rightarrow> ('bev, 'b) session_manager \<Rightarrow> ('bev, 'b) session_manager) option \<Rightarrow> bool" where
  "quiet cb \<longleftrightarrow> (\<forall>f p m. cb = Some f \<longrightarrow> same_shape m (f p m))"

inductive sess_step :: "('bev, 'b) evbuffer_api \<Rightarrow> ('bev, 'b) session_manager \<Rightarrow> ('bev, 'b) session_manager \<Rightarrow> bool" for api where
  step_add: "case bev of None \<Rightarrow> True | Some e \<Rightarrow> bufferevent_getfd api e \<notin> fst ` set (sm_umapSession m) \<Longrightarrow>
     sess_step api m (snd (addSession api bev m))"
| step_del: "sess_step api m (dellSession api bev m)"
| step_close: "quiet cb \<Longrightarrow> sess_step api m (closeLinkByID api cb iID m)"
| step_user: "same_shape m m' \<Longrightarrow> sess_step api m m'"

inductive sess_reach :: "('bev, 'b) evbuffer_api \<Rightarrow> ('bev, 'b) session_manager \<Rightarrow> bool" for api where
  reach_init: "0 < hp_next h \<Longrightarrow> sess_reach api (CSessionManager_init h)"
| reach_step: "sess_reach api m \<Longrightarrow> sess_step api m m' \<Longrightarrow> sess_reach api m'"

lemma session_Clear_init [simp]: "session_Clear api s = CSession_init"
  by (simp add: session_Clear_def CSession_init_def setBuffer_def CEventBuffer_init_def)

section \<open>Every operation keeps the invariant\<close>

lemma setBuffer_ok:
  "setBuffer api bev eb = (Q_RTN_OK, eb') \<Longrightarrow>
     \<exists>e. bev = Some e \<and> m_pBev eb' = Some e \<and> m_FD eb' = bufferevent_getfd api e \<and> m_FD eb' \<noteq> Q_INVALID_SOCK"
  by (auto simp: setBuffer_def Let_def Q_RTN_OK_def Q_ERROR_NULLPOINTER_def Q_ERROR_INVALIDSOCK_def split: option.splits if_splits)

lemma sess_invD:
  assumes "sess_inv api m"
  shows "distinct (map fst (sm_umapSession m))" "pool_inv (sm_heap m, sm_objSessionPool m)"
    "set (m_lstUsed (sm_objSessionPool m)) = snd ` set (sm_umapSession m)"
    "(fd, p) \<in> set (sm_umapSession m) \<Longrightarrow> sess_bound api fd (sess m p)"
    "p \<in> set (m_quFree (sm_objSessionPool m)) \<Longrightarrow> sess m p = CSession_init"
  using assms by (auto simp: sess_inv_def)

text \<open>No two sockets share a session object.\<close>

lemma sess_inv_inj:
  "sess_inv api m \<Longrightarrow> (fd, p) \<in> set (sm_umapSession m) \<Longrightarrow> (fd', p) \<in> set (sm_umapSession m) \<Longrightarrow> fd = fd'"
  using sess_invD(4) [of api m fd p] sess_invD(4) [of api m fd' p] by (auto simp: sess_bound_def)

lemma pool_inv_heap: "pool_inv (h, pool) \<Longrightarrow> hp_next h' = hp_next h \<Longrightarrow> pool_inv (h', pool)"
  by (simp add: pool_inv_def)

lemma sess_release_inv:
  assumes i: "sess_inv api m" and p: "map_of (sm_umapSession m) fd = Some p"
  shows "sess_inv api (sess_release api fd p m)"
proof -
  note d = sess_invD [OF i]
  have mem: "(fd, p) \<in> set (sm_umapSession m)" using p by (rule map_of_SomeD)
  let ?m = "sess_release api fd p m"
  have f: "sm_umapSession ?m = AList.delete fd (sm_umapSession m)" "sm_objSessionPool ?m = pool_Free p (sm_objSessionPool m)"
    "sm_heap ?m = heap_put p CSession_init (sm_heap m)" by (simp_all add: sess_release_def sess_put_def)
  have set: "set (AList.delete fd (sm_umapSession m)) = {x \<in> set (sm_umapSession m). fst x \<noteq> fd}"
    by (auto simp: AList.delete_eq)
  have used: "p \<in> set (m_lstUsed (sm_objSessionPool m))" using mem d(3) by force
  note pf = pool_Free_cases [OF d(2), of p]
  have other: "q \<noteq> p" if "(fd', q) \<in> set (sm_umapSession m)" "fd' \<noteq> fd" for fd' q
    using sess_inv_inj [OF i mem] that by blast
  have u: "snd ` {x \<in> set (sm_umapSession m). fst x \<noteq> fd} = snd ` set (sm_umapSession m) - {p}"
  proof -
    have "fd' = fd \<Longrightarrow> q = p" if "(fd', q) \<in> set (sm_umapSession m)" for fd' q
      using that mem d(1) by (metis map_of_is_SomeI option.inject)
    then show ?thesis using other by force
  qed
  show ?thesis unfolding sess_inv_def f
  proof (intro conjI)
    show "distinct (map fst (AList.delete fd (sm_umapSession m)))" using d(1) by (rule distinct_delete)
    show "pool_inv (heap_put p CSession_init (sm_heap m), pool_Free p (sm_objSessionPool m))"
      using pf(1) by (rule pool_inv_heap) simp
    show "set (m_lstUsed (pool_Free p (sm_objSessionPool m))) = snd ` set (AList.delete fd (sm_umapSession m))"
      unfolding pf(2) set u d(3) by simp
    show "\<forall>(fd', q) \<in> set (AList.delete fd (sm_umapSession m)). sess_bound api fd' (hp_obj (heap_put p CSession_init (sm_heap m)) q)"
      unfolding set using other d(4) by auto
    show "\<forall>q \<in> set (m_quFree (pool_Free p (sm_objSessionPool m))). hp_obj (heap_put p CSession_init (sm_heap m)) q = CSession_init"
      unfolding pf(3) using d(5) by auto
  qed
qed

lemma same_shape_inv: "sess_inv api m \<Longrightarrow> same_shape m m' \<Longrightarrow> sess_inv api m'"
  by (auto simp: sess_inv_def same_shape_def sess_bound_def pool_inv_def)

lemma dellSession_inv: "sess_inv api m \<Longrightarrow> sess_inv api (dellSession api bev m)"
proof -
  assume i: "sess_inv api m"
  show ?thesis
  proof (cases "map_of (sm_umapSession m) (bufferevent_getfd api bev)")
    case (Some p)
    then have "p \<in> set (m_lstUsed (sm_objSessionPool m))" using sess_invD(3) [OF i] map_of_SomeD [OF Some] by force
    then have "p \<noteq> 0" using sess_invD(2) [OF i] by (auto simp: pool_inv_def)
    then show ?thesis using Some sess_release_inv [OF i Some] by (simp add: dellSession_def)
  qed (use i in \<open>simp add: dellSession_def\<close>)
qed

lemma sess_unlink_shape:
  assumes "quiet cb"
  shows "same_shape m (sess_unlink cb iID p m)"
proof -
  have "same_shape m (case cb of None \<Rightarrow> m | Some f \<Rightarrow> f p m)"
    using assms by (auto simp: quiet_def same_shape_def split: option.split)
  then show ?thesis by (simp add: sess_unlink_def same_shape_def Let_def)
qed

lemma closeLinkByID_inv:
  assumes i: "sess_inv api m" and cb: "quiet cb"
  shows "sess_inv api (closeLinkByID api cb iID m)"
proof (cases "Q_INVALID_SOCK = iID \<or> map_of (sm_umapSession m) iID = None")
  case False
  then obtain p where p: "map_of (sm_umapSession m) iID = Some p" by auto
  note s = sess_unlink_shape [OF cb, of m iID p]
  then have "map_of (sm_umapSession (sess_unlink cb iID p m)) iID = Some p" using p by (simp add: same_shape_def)
  then show ?thesis using sess_release_inv [OF same_shape_inv [OF i s]] False p by (simp add: closeLinkByID_def)
qed (use i in \<open>auto simp: closeLinkByID_def\<close>)

lemma update_fresh: "k \<notin> fst ` set al \<Longrightarrow> AList.update k v al = al @ [(k, v)]"
  by (induction al) auto

lemma addSession_inv:
  assumes i: "sess_inv api m" and new: "\<And>e. bev = Some e \<Longrightarrow> bufferevent_getfd api e \<notin> fst ` set (sm_umapSession m)"
  shows "sess_inv api (snd (addSession api bev m))"
proof -
  note d = sess_invD [OF i]
  obtain p h pool where a: "pool_Malloc CSession_init (sm_heap m) (sm_objSessionPool m) = (p, h, pool)" by (metis prod_cases3)
  note c = pool_Malloc_cases [OF d(2) a]
  have h: "hp_obj h q = sess m q" if "q \<noteq> p" for q using c(5) that by simp
  have hp: "hp_obj h p = CSession_init" using c(5,7) d(5) by auto
  have used: "q \<noteq> p" if "(fd, q) \<in> set (sm_umapSession m)" for fd q using that d(3) c(3) by force
  have free: "hp_obj h q = CSession_init" if "q \<in> set (m_quFree pool)" for q using that c(6,8) d(5) h by (metis subsetD)
  obtain r eb where b: "setBuffer api bev (m_objBuffer (hp_obj h p)) = (r, eb)" by force
  show ?thesis
  proof (cases "r = Q_RTN_OK")
    case True
    then obtain e where e: "bev = Some e" "m_pBev eb = Some e" "m_FD eb = bufferevent_getfd api e" "m_FD eb \<noteq> Q_INVALID_SOCK"
      using setBuffer_ok [of api bev "m_objBuffer (hp_obj h p)" eb] b by auto
    let ?s = "(hp_obj h p)\<lparr>m_objBuffer := eb, m_iSessionID := m_FD eb, m_uiPing := sm_uiCount m\<rparr>"
    have fresh: "m_FD eb \<notin> fst ` set (sm_umapSession m)" using new e by simp
    have f: "snd (addSession api bev m) = m\<lparr>sm_heap := heap_put p ?s h, sm_objSessionPool := pool,
        sm_umapSession := sm_umapSession m @ [(m_FD eb, p)]\<rparr>"
      using True update_fresh [OF fresh, of p] by (simp add: addSession_def a b getFD_def sess_put_def heap_put_def Let_def)
    have "pool_inv (heap_put p ?s h, pool)" using c(1) by (rule pool_inv_heap) simp
    moreover have "sess_bound api fd (hp_obj (heap_put p ?s h) q)" if "(fd, q) \<in> set (sm_umapSession m @ [(m_FD eb, p)])" for fd q
    proof (cases "(fd, q) \<in> set (sm_umapSession m)")
      case True
      then show ?thesis using d(4) [OF True] used [OF True] h by simp
    qed (use that e in \<open>simp add: sess_bound_def\<close>)
    moreover have "hp_obj (heap_put p ?s h) q = CSession_init" if "q \<in> set (m_quFree pool)" for q using free c(8) that by auto
    moreover have "set (m_lstUsed pool) = snd ` set (sm_umapSession m @ [(m_FD eb, p)])" unfolding c(4) using d(3) by simp
    moreover have "distinct (map fst (sm_umapSession m @ [(m_FD eb, p)]))" using d(1) fresh by simp
    ultimately show ?thesis unfolding f sess_inv_def by (simp del: heap_put_simps append.simps set_append map_append) blast
  next
    case False
    have f: "sm_umapSession (snd (addSession api bev m)) = sm_umapSession m"
        "sm_objSessionPool (snd (addSession api bev m)) = pool_Free p pool"
        "sm_heap (snd (addSession api bev m)) = heap_put p CSession_init h"
      using False by (simp_all add: addSession_def a b sess_put_def heap_put_def Let_def)
    note pf = pool_Free_cases [OF c(1), of p]
    have "pool_inv (heap_put p CSession_init h, pool_Free p pool)" using pf(1) by (rule pool_inv_heap) simp
    moreover have "set (m_lstUsed (pool_Free p pool)) = snd ` set (sm_umapSession m)" unfolding pf(2) c(4) using d(3) c(3) by auto
    moreover have "\<forall>(fd, q) \<in> set (sm_umapSession m). sess_bound api fd (hp_obj (heap_put p CSession_init h) q)"
      using d(4) used h by fastforce
    moreover have "\<forall>q \<in> set (m_quFree (pool_Free p pool)). hp_obj (heap_put p CSession_init h) q = CSession_init"
      unfolding pf(3) using free by auto
    ultimately show ?thesis unfolding sess_inv_def f using d(1) by blast
  qed
qed

lemma CSessionManager_init_inv: "0 < hp_next h \<Longrightarrow> sess_inv api (CSessionManager_init h)"
proof -
  assume h: "0 < hp_next h"
  obtain h' pool where e: "CObjPool_init CSession_init Q_INITSESSIONSIZE h = (h', pool)" by force
  show ?thesis using CObjPool_init_inv [OF h e] by (simp add: sess_inv_def CSessionManager_init_def e)
qed

inductive_cases sess_stepE: "sess_step api m m'"

lemma sess_step_inv: "sess_step api m m' \<Longrightarrow> sess_inv api m \<Longrightarrow> sess_inv api m'"
proof (induction rule: sess_step.induct)
  case (step_add bev m)
  then show ?case by (intro addSession_inv) (auto split: option.splits)
qed (rule dellSession_inv closeLinkByID_inv same_shape_inv; assumption)+

text \<open>The operations without a step of their own are steps too.\<close>

lemma sess_step_others:
  "sess_step api m (setTimer t m)" "sess_step api m (addCount m)" "sess_step api m (setCurSession p m)"
  by (rule step_user, simp add: same_shape_def setTimer_def addCount_def setCurSession_def)+

lemma closeCurLink_step: "quiet cb \<Longrightarrow> sess_step api m (closeCurLink api cb m)"
  by (auto simp: closeCurLink_def same_shape_def intro: step_close step_user)

text \<open>
  C4. In every state that the operations reach, whatever the order of sessions added, removed and closed: every socket number leads to a
  session that is in use, knows that number and holds the buffer event of that socket; no two numbers share a session; the objects in use are
  exactly the sessions of the map; and the free objects are as the constructor leaves them, so that nothing of an old session reaches a new
  one. A new socket has a number that no open session has.
\<close>

theorem sess_reach_inv:
  assumes "sess_reach api m"
  shows "distinct (map fst (sm_umapSession m)) \<and> distinct (map snd (sm_umapSession m))
     \<and> set (m_lstUsed (sm_objSessionPool m)) = snd ` set (sm_umapSession m)
     \<and> getUsedSize (sm_objSessionPool m) = length (sm_umapSession m)
     \<and> (\<forall>(fd, p) \<in> set (sm_umapSession m). p \<noteq> 0 \<and> getSessionByID fd m = p \<and> sess_bound api fd (sess m p))
     \<and> (\<forall>p \<in> set (m_quFree (sm_objSessionPool m)). sess m p = CSession_init)"
proof -
  have i: "sess_inv api m"
    using assms by (induction rule: sess_reach.induct) (auto intro: CSessionManager_init_inv sess_step_inv)
  note d = sess_invD [OF i]
  have dist: "distinct (map snd (sm_umapSession m))"
    using d(1) sess_inv_inj [OF i] by (auto simp: distinct_map inj_on_def)
  have p: "p \<noteq> 0 \<and> getSessionByID fd m = p \<and> sess_bound api fd (sess m p)" if "(fd, p) \<in> set (sm_umapSession m)" for fd p
  proof -
    have "p \<in> set (m_lstUsed (sm_objSessionPool m))" using d(3) that by force
    then have "p \<noteq> 0" using d(2) by (auto simp: pool_inv_def)
    moreover have "map_of (sm_umapSession m) fd = Some p" using d(1) that by simp
    ultimately show ?thesis using d(4) [OF that] by (simp add: getSessionByID_def sess_bound_def)
  qed
  have "distinct (m_lstUsed (sm_objSessionPool m))" using d(2) by (simp add: pool_inv_def)
  then have "getUsedSize (sm_objSessionPool m) = length (sm_umapSession m)"
    using d(3) dist by (metis distinct_card getUsedSize_def length_map list.set_map)
  then show ?thesis using d(1,3,5) dist p by blast
qed

section \<open>Closing a link\<close>

text \<open>
  C6. Closing the link of an open session with a script that keeps the sessions as they are: its socket number leads to
  nothing any more, its buffer event, and only that, is freed, the object is cleared and free again, every other
  number leads to the same session as before; and closing it once more, which may happen when the script
  closed it already, does nothing, so that no buffer event is freed twice.
\<close>

theorem closeLinkByID_spec:
  assumes "sess_reach api m" "quiet (Some f)" "map_of (sm_umapSession m) iID = Some p"
  shows "let m' = closeLinkByID api (Some f) iID m in
      getSessionByID iID m' = 0 \<and> sess m' p = CSession_init \<and> p \<in> set (m_quFree (sm_objSessionPool m'))
    \<and> (\<exists>bev. sm_freed m' = sm_freed (f p m) @ [Some bev] \<and> bufferevent_getfd api bev = iID)
    \<and> (\<forall>fd. fd \<noteq> iID \<longrightarrow> getSessionByID fd m' = getSessionByID fd m)
    \<and> (\<forall>q. q \<noteq> p \<longrightarrow> sess m' q = sess (f p m) q)
    \<and> closeLinkByID api (Some f) iID m' = m'"
proof -
  have i: "sess_inv api m"
    using assms(1) by (induction rule: sess_reach.induct) (auto intro: CSessionManager_init_inv sess_step_inv)
  note d = sess_invD [OF i] and mem = map_of_SomeD [OF assms(3)]
  have sh: "same_shape m (f p m)" using assms(2) by (simp add: quiet_def)
  note b = d(4) [OF mem]
  have iID: "iID \<noteq> Q_INVALID_SOCK" using b by (simp add: sess_bound_def)
  have u: "p \<in> set (m_lstUsed (sm_objSessionPool m))" using d(3) mem by force
  have e: "closeLinkByID api (Some f) iID m = sess_release api iID p (sess_unlink (Some f) iID p m)"
    using iID assms(3) by (simp add: closeLinkByID_def)
  note s = sess_unlink_shape [OF assms(2), of m iID p]
  have "p \<in> set (m_quFree (pool_Free p (sm_objSessionPool m)))" using pool_Free_cases(3) [OF d(2), of p] u by simp
  moreover obtain bev where "m_pBev (m_objBuffer (sess m p)) = Some bev" "bufferevent_getfd api bev = iID"
    using b by (auto simp: sess_bound_def)
  ultimately show ?thesis unfolding e Let_def using s sh iID
    by (auto simp: sess_release_def sess_put_def same_shape_def getSessionByID_def closeLinkByID_def sess_unlink_def Let_def
        AList.delete_conv' split: if_splits option.splits)
qed

text \<open>A socket with the number 7 is accepted.\<close>

definition fd_evbuffer :: "(int, byte list) evbuffer_api" where
  "fd_evbuffer = \<lparr>evbuffer_get_length = length, evbuffer_pullup = evbuffer_pullup list_evbuffer,
     evbuffer_poke = evbuffer_poke list_evbuffer, evbuffer_drain = evbuffer_drain list_evbuffer,
     evbuffer_add = evbuffer_add list_evbuffer, evbuffer_add_buffer = evbuffer_add_buffer list_evbuffer,
     evbuffer_search = evbuffer_search list_evbuffer,
     bufferevent_get_input = (\<lambda>_. Some []), bufferevent_get_output = (\<lambda>_. Some []), bufferevent_getfd = (\<lambda>fd. fd)\<rparr>"

definition manager7 :: "(int, byte list) session_manager" where
  "manager7 = snd (addSession fd_evbuffer (Some 7) (CSessionManager_init \<lparr>hp_obj = \<lambda>_. CSession_init, hp_next = 1\<rparr>))"

lemma manager7_facts: "sess_reach fd_evbuffer manager7" "sm_umapSession manager7 = [(7, 1)]" "sm_freed manager7 = []"
proof -
  let ?h = "\<lparr>hp_obj = \<lambda>_. CSession_init :: (int, byte list) csession, hp_next = 1\<rparr>"
  obtain h' pool where e: "CObjPool_init CSession_init Q_INITSESSIONSIZE ?h = (h', pool)" by force
  have f: "m_quFree pool = 1 # [Suc 1 ..< 1025]"
  proof -
    have "m_quFree pool = [1 ..< 1025]"
      using CObjPool_init_free [OF e] by (simp add: Q_INITSESSIONSIZE_def del: upt_rec_numeral)
    also have "\<dots> = 1 # [Suc 1 ..< 1025]" by (rule upt_conv_Cons) simp
    finally show ?thesis .
  qed
  have "hp_obj h' 1 = CSession_init" using CObjPool_init_inv [OF _ e] unfolding f by simp
  then show "sm_umapSession manager7 = [(7, 1)]" "sm_freed manager7 = []"
    by (simp_all add: manager7_def addSession_def CSessionManager_init_def e [simplified] pool_Malloc_def f setBuffer_def
        fd_evbuffer_def Q_INVALID_SOCK_def getFD_def sess_put_def Let_def)
  have m: "sm_umapSession (CSessionManager_init ?h) = []" by (simp add: CSessionManager_init_def e [simplified])
  show "sess_reach fd_evbuffer manager7" unfolding manager7_def
    by (rule reach_step [OF reach_init [of ?h] step_add]) (simp_all add: m [simplified])
qed

lemma sess_reach_inv_witness:
  "sess_bound fd_evbuffer 7 (sess manager7 1) \<and> getSessionByID 7 manager7 = 1 \<and> getUsedSize (sm_objSessionPool manager7) = 1"
  using sess_reach_inv [OF manager7_facts(1)] by (simp add: manager7_facts)

lemma quiet_id: "quiet (Some (\<lambda>p m. m))"
  by (simp add: quiet_def same_shape_def)

lemma closeLinkByID_spec_witness:
  "let m' = closeLinkByID fd_evbuffer (Some (\<lambda>p m. m)) 7 manager7
   in getSessionByID 7 m' = 0 \<and> sm_freed m' = [Some 7] \<and> closeLinkByID fd_evbuffer (Some (\<lambda>p m. m)) 7 m' = m'"
  using closeLinkByID_spec [OF manager7_facts(1) quiet_id, of 7 1] by (simp add: manager7_facts Let_def fd_evbuffer_def)

end
