(* ===== verification/Work_Thread.thy ===== *)
theory Work_Thread
  imports Tcp_Parser WebSock_Parser Comm_Encrypt Session_Mgr
begin

text \<open>
  \<^verbatim>\<open>QBase/WorkThreadEvent.cpp\<close> and the sending half of \<^verbatim>\<open>QBase/SessionManager.cpp\<close>: how the worker thread gets messages out of the
  buffers of the sessions and into them. The scripts behind \<^verbatim>\<open>CEventInterface\<close> are arguments. Calls of the interface with
  a message and of \<^verbatim>\<open>evutil_closesocket\<close> are recorded in the order they are made.
\<close>

section \<open>State\<close>

record ('bev, 'b) worker =
  wk_mgr :: "('bev, 'b) session_manager"
  wk_objTcpParser :: tcp_parser
  wk_objWebSockParser :: websock_parser
  wk_mapWebSockPack :: "(int \<times> byte list) list"
  sm_objTcpParser :: tcp_parser
  sm_objWebSockParser :: websock_parser
  wk_comm :: comm_encrypt
  wk_calls :: "byte list list"
  wk_closed :: "int list"

text \<open>The messages of the interface; \<open>onSockClose\<close> sees the session manager only.\<close>

record ('bev, 'b) event_interface =
  onSockRead :: "byte list \<Rightarrow> ('bev, 'b) worker \<Rightarrow> ('bev, 'b) worker"
  onDebug :: "byte list \<Rightarrow> ('bev, 'b) worker \<Rightarrow> ('bev, 'b) worker"
  onConnected :: "ptr \<Rightarrow> ('bev, 'b) worker \<Rightarrow> ('bev, 'b) worker"
  onLinkedOther :: "ptr \<Rightarrow> ('bev, 'b) worker \<Rightarrow> ('bev, 'b) worker"
  onSockClose :: "ptr \<Rightarrow> ('bev, 'b) session_manager \<Rightarrow> ('bev, 'b) session_manager"

abbreviation wsess :: "('bev, 'b) worker \<Rightarrow> ptr \<Rightarrow> ('bev, 'b) csession" where
  "wsess w p \<equiv> sess (wk_mgr w) p"

abbreviation wbuf :: "('bev, 'b) worker \<Rightarrow> ptr \<Rightarrow> ('bev, 'b) event_buffer" where
  "wbuf w p \<equiv> m_objBuffer (wsess w p)"

definition wput :: "ptr \<Rightarrow> ('bev, 'b) csession \<Rightarrow> ('bev, 'b) worker \<Rightarrow> ('bev, 'b) worker" where
  "wput p s w = w\<lparr>wk_mgr := sess_put p s (wk_mgr w)\<rparr>"

definition wput_buf :: "ptr \<Rightarrow> ('bev, 'b) event_buffer \<Rightarrow> ('bev, 'b) worker \<Rightarrow> ('bev, 'b) worker" where
  "wput_buf p eb w = wput p ((wsess w p)\<lparr>m_objBuffer := eb\<rparr>) w"

lemma wput_simps [simp]:
  "wsess (wput p s w) q = (if q = p then s else wsess w q)" "wk_objTcpParser (wput p s w) = wk_objTcpParser w"
  "wk_objWebSockParser (wput p s w) = wk_objWebSockParser w" "wk_mapWebSockPack (wput p s w) = wk_mapWebSockPack w"
  "sm_objTcpParser (wput p s w) = sm_objTcpParser w" "sm_objWebSockParser (wput p s w) = sm_objWebSockParser w"
  "wk_comm (wput p s w) = wk_comm w" "wk_calls (wput p s w) = wk_calls w" "wk_closed (wput p s w) = wk_closed w"
  by (simp_all add: wput_def sess_put_def)

section \<open>Sending\<close>

definition WSOCK_CONTINUATION :: byte where "WSOCK_CONTINUATION = 0x00"
definition WSOCK_BINARYFRAME :: byte where "WSOCK_BINARYFRAME = 0x02"
definition WSOCK_CLOSE :: byte where "WSOCK_CLOSE = 0x08"
definition WSOCK_PING :: byte where "WSOCK_PING = 0x09"
definition WSOCK_PONG :: byte where "WSOCK_PONG = 0x0A"

text \<open>
  The length that goes with a pointer; a null pointer comes with the length \<open>uiLens\<close> of the caller.
\<close>

definition msg_lens :: "byte list option \<Rightarrow> nat \<Rightarrow> nat" where
  "msg_lens pszMsg uiLens = (case pszMsg of None \<Rightarrow> uiLens | Some m \<Rightarrow> length m)"

definition send_payload ::
  "('bev, 'b) evbuffer_api \<Rightarrow> ptr \<Rightarrow> byte list \<Rightarrow> byte list option \<Rightarrow> ('bev, 'b) worker \<Rightarrow> bool \<times> ('bev, 'b) worker" where
  "send_payload api p pszHead pszMsg w =
     (case writeBuffer api (Some pszHead) (wbuf w p) of (r, eb) \<Rightarrow>
      let w = wput_buf p eb w
      in if Q_RTN_OK \<noteq> r then (False, w)
         else if pszMsg \<noteq> None \<and> pszMsg \<noteq> Some []
         then (case writeBuffer api pszMsg (wbuf w p) of (r, eb) \<Rightarrow> (Q_RTN_OK = r, wput_buf p eb w))
         else (True, w))"

definition sendTcp ::
  "nat \<Rightarrow> allocator \<Rightarrow> codec_ops \<Rightarrow> ('bev, 'b) evbuffer_api \<Rightarrow> ptr \<Rightarrow> byte list option \<Rightarrow> nat \<Rightarrow> ('bev, 'b) worker
     \<Rightarrow> qerror + bool \<times> ('bev, 'b) worker" where
  "sendTcp sz alloc ops api p pszData uiLens w =
     (case comm_Encode sz alloc ops pszData (STYPE_TCPCLIENT = m_emSessionType (wsess w p)) (wk_comm w) of
        Inl e \<Rightarrow> Inl e
      | Inr (pszMsg, ce) \<Rightarrow>
          let w = w\<lparr>wk_comm := ce\<rparr>
          in if pszData \<noteq> None \<and> pszMsg = None then Inr (False, w)
             else case tcp_createHead sz (msg_lens pszMsg uiLens) (sm_objTcpParser w) of
                    Inl e \<Rightarrow> Inl (Fault e)
                  | Inr (pszHead, tp) \<Rightarrow> Inr (send_payload api p pszHead pszMsg (w\<lparr>sm_objTcpParser := tp\<rparr>)))"

definition sendWebSock ::
  "nat \<Rightarrow> allocator \<Rightarrow> codec_ops \<Rightarrow> ('bev, 'b) evbuffer_api \<Rightarrow> ptr \<Rightarrow> byte list option \<Rightarrow> nat \<Rightarrow> ('bev, 'b) worker
     \<Rightarrow> qerror + bool \<times> ('bev, 'b) worker" where
  "sendWebSock sz alloc ops api p pszData uiLens w =
     (case comm_Encode sz alloc ops pszData False (wk_comm w) of
        Inl e \<Rightarrow> Inl e
      | Inr (pszMsg, ce) \<Rightarrow>
          let w = w\<lparr>wk_comm := ce\<rparr>
          in if pszData \<noteq> None \<and> pszMsg = None then Inr (False, w)
             else case ws_createHead sz True WSOCK_BINARYFRAME (msg_lens pszMsg uiLens) (sm_objWebSockParser w) of
                    (pszHead, wp) \<Rightarrow> Inr (send_payload api p pszHead pszMsg (w\<lparr>sm_objWebSockParser := wp\<rparr>)))"

text \<open>Both entry points choose by the type of the session.\<close>

definition send_by_type ::
  "nat \<Rightarrow> allocator \<Rightarrow> codec_ops \<Rightarrow> ('bev, 'b) evbuffer_api \<Rightarrow> ptr \<Rightarrow> byte list option \<Rightarrow> nat \<Rightarrow> ('bev, 'b) worker
     \<Rightarrow> qerror + bool \<times> ('bev, 'b) worker" where
  "send_by_type sz alloc ops api p pszData uiLens w =
     (let t = m_emSessionType (wsess w p)
      in if t = STYPE_DEBUG \<or> t = STYPE_TCPCLIENT \<or> t = STYPE_TCP then sendTcp sz alloc ops api p pszData uiLens w
         else if t = STYPE_WEBSOCK then sendWebSock sz alloc ops api p pszData uiLens w
         else Inr (False, w))"

definition sendToCur ::
  "nat \<Rightarrow> allocator \<Rightarrow> codec_ops \<Rightarrow> ('bev, 'b) evbuffer_api \<Rightarrow> byte list option \<Rightarrow> nat \<Rightarrow> ('bev, 'b) worker
     \<Rightarrow> qerror + bool \<times> ('bev, 'b) worker" where
  "sendToCur sz alloc ops api pszData uiLens w =
     (let p = sm_pCurrent (wk_mgr w) in if p = 0 then Inr (False, w) else send_by_type sz alloc ops api p pszData uiLens w)"

definition sendToByID ::
  "nat \<Rightarrow> allocator \<Rightarrow> codec_ops \<Rightarrow> ('bev, 'b) evbuffer_api \<Rightarrow> int \<Rightarrow> byte list option \<Rightarrow> nat \<Rightarrow> ('bev, 'b) worker
     \<Rightarrow> qerror + bool \<times> ('bev, 'b) worker" where
  "sendToByID sz alloc ops api iID pszData uiLens w =
     (if Q_INVALID_SOCK = iID then Inr (False, w)
      else case map_of (sm_umapSession (wk_mgr w)) iID of
             None \<Rightarrow> Inr (False, w)
           | Some p \<Rightarrow> if p = 0 then Inr (False, w) else send_by_type sz alloc ops api p pszData uiLens w)"

section \<open>Receiving\<close>

definition give_msg ::
  "('bev, 'b) event_interface \<Rightarrow> ptr \<Rightarrow> byte list \<Rightarrow> ('bev, 'b) worker \<Rightarrow> ('bev, 'b) worker" where
  "give_msg iface p msg w =
     (let w = w\<lparr>wk_calls := wk_calls w @ [msg]\<rparr>
      in if STYPE_DEBUG = m_emSessionType (wsess w p) then onDebug iface msg w else onSockRead iface msg w)"

text \<open>
  The loop of \<^verbatim>\<open>dispTcp\<close>. The bytes behind the pointer that \<^verbatim>\<open>parsePack\<close> returns may be fewer than the length it
  reports; whoever reads them then leaves the buffer.
\<close>

partial_function (option) dispTcp_loop ::
  "nat \<Rightarrow> allocator \<Rightarrow> codec_ops \<Rightarrow> ('bev, 'b) evbuffer_api \<Rightarrow> ('bev, 'b) event_interface \<Rightarrow> bool \<Rightarrow> ptr \<Rightarrow> ('bev, 'b) worker
     \<Rightarrow> (qerror + ('bev, 'b) worker) option" where
  "dispTcp_loop sz alloc ops api iface bSVLink p w =
     (case tcp_parsePack sz api (wbuf w p) (wk_objTcpParser w) of
        Inl e \<Rightarrow> Some (Inl (Fault e))
      | Inr (pszBuf, tp) \<Rightarrow>
          let w = w\<lparr>wk_objTcpParser := tp\<rparr>
          in case pszBuf of
               None \<Rightarrow> Some (Inr w)
             | Some buf \<Rightarrow>
                 if length buf < tcp_iBufLens tp then Some (Inl (Fault OutOfBounds))
                 else case comm_Decode sz alloc ops (Some (take (tcp_iBufLens tp) buf)) bSVLink (wk_comm w) of
                        Inl e \<Rightarrow> Some (Inl e)
                      | Inr (pszMsg, ce) \<Rightarrow>
                          let w = w\<lparr>wk_comm := ce\<rparr>
                          in case pszMsg of
                               None \<Rightarrow> Some (Inr w)
                             | Some msg \<Rightarrow>
                                 let w = give_msg iface p msg w
                                 in if SESSSTATUS_CLOSED \<noteq> m_emStatus (wsess w p)
                                    then dispTcp_loop sz alloc ops api iface bSVLink p
                                           (wput_buf p (snd (delBuffer api (tcp_iParsedLens (wk_objTcpParser w)) (wbuf w p))) w)
                                    else Some (Inr w))"

definition dispTcp ::
  "nat \<Rightarrow> allocator \<Rightarrow> codec_ops \<Rightarrow> ('bev, 'b) evbuffer_api \<Rightarrow> ('bev, 'b) event_interface \<Rightarrow> ptr \<Rightarrow> ('bev, 'b) worker
     \<Rightarrow> (qerror + ('bev, 'b) worker) option" where
  "dispTcp sz alloc ops api iface p w =
     dispTcp_loop sz alloc ops api iface (STYPE_TCPCLIENT = m_emSessionType (wsess w p)) p w"

section \<open>What the loop does to a stream\<close>

text \<open>The messages of the complete frames and what is left, up to the first message that cannot be decoded.\<close>

lemma tcp_next_pos: "tcp_next bs = Some (m, k) \<Longrightarrow> 0 < k \<and> k \<le> length bs"
  by (auto simp: tcp_next_def tcp_next_body_def Let_def split: if_splits)

function tcp_stream :: "(byte list \<Rightarrow> byte list option) \<Rightarrow> byte list \<Rightarrow> byte list list \<times> byte list" where
  "tcp_stream dec bs =
     (case tcp_next bs of
        None \<Rightarrow> ([], bs)
      | Some (m, k) \<Rightarrow>
          (case dec m of
             None \<Rightarrow> ([], bs)
           | Some x \<Rightarrow> (case tcp_stream dec (drop k bs) of (xs, r) \<Rightarrow> (x # xs, r))))"
  by pat_completeness auto
termination
  by (relation "measure (\<lambda>(dec, bs). length bs)") (auto dest: tcp_next_pos)

declare tcp_stream.simps [simp del]

text \<open>No frame on the way has a head that the code misreads.\<close>

function tcp_clean :: "nat \<Rightarrow> byte list \<Rightarrow> bool" where
  "tcp_clean sz bs \<longleftrightarrow> \<not> tcp_overread sz bs \<and> \<not> tcp_wraps bs
     \<and> (case tcp_next bs of None \<Rightarrow> True | Some (m, k) \<Rightarrow> tcp_clean sz (drop k bs))"
  by pat_completeness auto
termination
  by (relation "measure (\<lambda>(sz, bs). length bs)") (auto dest: tcp_next_pos)

declare tcp_clean.simps [simp del]

text \<open>Decoding and encoding as functions of the configuration.\<close>

definition comm_fun ::
  "(encrypt_type \<Rightarrow> byte list \<Rightarrow> byte list option) \<Rightarrow> encrypt_type list \<Rightarrow> encrypt_type list \<Rightarrow> byte list \<Rightarrow> byte list option" where
  "comm_fun stage types client m = (if client = [] \<or> m = [] then Some m else chain stage types m)"

abbreviation comm_dec :: "codec_ops \<Rightarrow> bool \<Rightarrow> encrypt_type list \<Rightarrow> encrypt_type list \<Rightarrow> byte list \<Rightarrow> byte list option" where
  "comm_dec ops bSVLink client server \<equiv> comm_fun (decode_stage ops) (rev (if bSVLink then server else client)) client"

definition comm_ready :: "bool \<Rightarrow> comm_encrypt \<Rightarrow> bool" where
  "comm_ready bSVLink ce \<longleftrightarrow> ce_inv ce \<and> (m_vcClinetType ce = [] \<or> comm_types bSVLink ce \<noteq> [])"

lemma comm_code_fun:
  assumes "alloc_ok alloc" "stage_fits sz stage" "comm_ready bSVLink ce" "m_vcClinetType ce = [] \<or> types \<noteq> []"
  shows "\<exists>ce'. comm_code sz alloc stage types (Some m) ce = Inr (comm_fun stage types (m_vcClinetType ce) m, ce') \<and> comm_ready bSVLink ce'
     \<and> m_vcClinetType ce' = m_vcClinetType ce \<and> m_vcSVLinkType ce' = m_vcSVLinkType ce"
proof (cases "m_vcClinetType ce = [] \<or> m = []")
  case True
  then show ?thesis using assms(3) by (auto simp: comm_code_def comm_fun_def)
next
  case False
  then have "types \<noteq> []" "ce_inv ce" "m_vcClinetType ce \<noteq> []" "m \<noteq> []" using assms(3,4) by (auto simp: comm_ready_def)
  from comm_code_chain [OF assms(1,2) this(2,1,3,4)] False
  show ?thesis using assms(3) by (auto simp: comm_fun_def comm_types_def comm_ready_def)
qed

lemma comm_Decode_dec:
  assumes "alloc_ok alloc" "stage_fits sz (decode_stage ops)" "comm_ready bSVLink ce"
  shows "\<exists>ce'. comm_Decode sz alloc ops (Some m) bSVLink ce
       = Inr (comm_dec ops bSVLink (m_vcClinetType ce) (m_vcSVLinkType ce) m, ce') \<and> comm_ready bSVLink ce'
     \<and> m_vcClinetType ce' = m_vcClinetType ce \<and> m_vcSVLinkType ce' = m_vcSVLinkType ce"
  unfolding comm_Decode_def
  by (rule comm_code_fun [OF assms]) (use assms(3) in \<open>auto simp: comm_ready_def comm_types_def\<close>)

text \<open>
  What the scripts behind the interface have to leave alone while they process a message of session \<open>p\<close>: what is unread of that session, its
  type, the parser, the configuration of the transformations and the record of the calls. They must not close the session.
\<close>

definition polite :: "('b \<Rightarrow> byte list) \<Rightarrow> ptr \<Rightarrow> ('bev, 'b) event_interface \<Rightarrow> bool" where
  "polite content p iface \<longleftrightarrow>
     (\<forall>f \<in> {onSockRead iface, onDebug iface}. \<forall>msg w.
        rd content (wbuf (f msg w) p) = rd content (wbuf w p)
      \<and> (m_pReadBuffer (wbuf (f msg w) p) = None \<longleftrightarrow> m_pReadBuffer (wbuf w p) = None) \<and> m_emSessionType (wsess (f msg w) p) = m_emSessionType (wsess w p)
      \<and> m_emStatus (wsess (f msg w) p) = m_emStatus (wsess w p) \<and> wk_objTcpParser (f msg w) = wk_objTcpParser w
      \<and> m_vcClinetType (wk_comm (f msg w)) = m_vcClinetType (wk_comm w) \<and> m_vcSVLinkType (wk_comm (f msg w)) = m_vcSVLinkType (wk_comm w)
      \<and> (ce_inv (wk_comm w) \<longrightarrow> ce_inv (wk_comm (f msg w))) \<and> wk_calls (f msg w) = wk_calls w)"

lemma politeD:
  assumes "polite content p iface"
  shows "rd content (wbuf (give_msg iface p msg w) p) = rd content (wbuf w p)"
    "m_emSessionType (wsess (give_msg iface p msg w) p) = m_emSessionType (wsess w p)"
    "m_emStatus (wsess (give_msg iface p msg w) p) = m_emStatus (wsess w p)" "wk_objTcpParser (give_msg iface p msg w) = wk_objTcpParser w"
    "m_vcClinetType (wk_comm (give_msg iface p msg w)) = m_vcClinetType (wk_comm w)"
    "m_vcSVLinkType (wk_comm (give_msg iface p msg w)) = m_vcSVLinkType (wk_comm w)"
    "comm_ready bSVLink (wk_comm w) \<Longrightarrow> comm_ready bSVLink (wk_comm (give_msg iface p msg w))"
    "wk_calls (give_msg iface p msg w) = wk_calls w @ [msg]"
    "m_pReadBuffer (wbuf (give_msg iface p msg w) p) = None \<longleftrightarrow> m_pReadBuffer (wbuf w p) = None"
  using assms by (auto simp: polite_def comm_ready_def comm_types_def give_msg_def Let_def)

lemma delBuffer_present [simp]: "m_pReadBuffer (snd (delBuffer api n eb)) = None \<longleftrightarrow> m_pReadBuffer eb = None"
  by (auto simp: delBuffer_def split: option.split prod.split)

text \<open>One round of the loop that delivers a message.\<close>

lemma dispTcp_loop_deliver:
  assumes "tcp_parsePack sz api (wbuf w p) (wk_objTcpParser w) = Inr (Some m, tp)" "tcp_iBufLens tp = length m"
    and "comm_Decode sz alloc ops (Some m) bSVLink (wk_comm w) = Inr (Some x, ce)"
    and "w1 = give_msg iface p x (w\<lparr>wk_objTcpParser := tp, wk_comm := ce\<rparr>)" "m_emStatus (wsess w1 p) \<noteq> SESSSTATUS_CLOSED"
  shows "dispTcp_loop sz alloc ops api iface bSVLink p w = dispTcp_loop sz alloc ops api iface bSVLink p
     (wput_buf p (snd (delBuffer api (tcp_iParsedLens (wk_objTcpParser w1)) (wbuf w1 p))) w1)"
  using assms by (subst dispTcp_loop.simps) (simp add: Let_def)

lemma dispTcp_loop_stream:
  assumes laws: "evbuffer_laws api content" and al: "alloc_ok alloc" and fits: "stage_fits sz (decode_stage ops)"
    and pol: "polite content p iface" and sz: "sz = 4 \<or> sz = 8"
    and "rd content (wbuf w p) = bs" "2 * length bs < size_mod sz" "tcp_clean sz bs" "comm_ready bSVLink (wk_comm w)"
    and "m_emStatus (wsess w p) \<noteq> SESSSTATUS_CLOSED"
  shows "\<exists>w'. dispTcp_loop sz alloc ops api iface bSVLink p w = Some (Inr w')
     \<and> (wk_calls w', rd content (wbuf w' p))
        = (case tcp_stream (comm_dec ops bSVLink (m_vcClinetType (wk_comm w)) (m_vcSVLinkType (wk_comm w))) bs of
             (xs, r) \<Rightarrow> (wk_calls w @ xs, r))
     \<and> comm_ready bSVLink (wk_comm w') \<and> m_vcClinetType (wk_comm w') = m_vcClinetType (wk_comm w)
     \<and> m_vcSVLinkType (wk_comm w') = m_vcSVLinkType (wk_comm w)
     \<and> m_emStatus (wsess w' p) = m_emStatus (wsess w p) \<and> m_emSessionType (wsess w' p) = m_emSessionType (wsess w p)
     \<and> (m_pReadBuffer (wbuf w' p) = None \<longleftrightarrow> m_pReadBuffer (wbuf w p) = None)"
  using assms(6-)
proof (induction "length bs" arbitrary: bs w rule: less_induct)
  case less
  note prems = less.prems
  let ?dec = "comm_dec ops bSVLink (m_vcClinetType (wk_comm w)) (m_vcSVLinkType (wk_comm w))"
  have c: "\<not> tcp_overread sz bs" "\<not> tcp_wraps bs" using prems(3) by (subst (asm) tcp_clean.simps, simp)+
  obtain tp where tp: "tcp_parsePack sz api (wbuf w p) (wk_objTcpParser w) = Inr (map_option fst (tcp_next bs), tp)"
      "\<And>m k. tcp_next bs = Some (m, k) \<Longrightarrow> tcp_iParsedLens tp = k \<and> tcp_iBufLens tp = length m"
    using tcp_parsePack_refines_aux [OF laws prems(1) [symmetric] prems(2) sz c(2), of "wk_objTcpParser w"] c(1) by (auto simp: tcp_parses_def)
  show ?case
  proof (cases "tcp_next bs")
    case None
    then show ?thesis using tp(1) prems by (subst dispTcp_loop.simps) (simp add: tcp_stream.simps [of _ bs] Let_def)
  next
    case (Some mk)
    then obtain m k where mk: "tcp_next bs = Some (m, k)" by (cases mk) auto
    note k = tcp_next_pos [OF mk] and lens = tp(2) [OF mk]
    obtain ce where ce: "comm_Decode sz alloc ops (Some m) bSVLink (wk_comm w) = Inr (?dec m, ce)" "comm_ready bSVLink ce"
        "m_vcClinetType ce = m_vcClinetType (wk_comm w)" "m_vcSVLinkType ce = m_vcSVLinkType (wk_comm w)"
      using comm_Decode_dec [OF al fits prems(4)] by blast
    show ?thesis
    proof (cases "?dec m")
      case None
      then show ?thesis using tp(1) mk lens ce prems
        by (subst dispTcp_loop.simps) (simp add: tcp_stream.simps [of _ bs] Let_def)
    next
      case (Some x)
      let ?w0 = "w\<lparr>wk_objTcpParser := tp, wk_comm := ce\<rparr>"
      let ?w1 = "give_msg iface p x ?w0"
      note pf = politeD [OF pol, where msg = x and w = ?w0]
      let ?w = "wput_buf p (snd (delBuffer api (tcp_iParsedLens (wk_objTcpParser ?w1)) (wbuf ?w1 p))) ?w1"
      have e: "dispTcp_loop sz alloc ops api iface bSVLink p w = dispTcp_loop sz alloc ops api iface bSVLink p ?w"
        by (rule dispTcp_loop_deliver [OF _ _ _ refl]) (use tp(1) mk lens ce(1) Some prems(5) pf(3) in simp_all)
      have n: "rd content (wbuf ?w p) = drop k bs" "m_emStatus (wsess ?w p) \<noteq> SESSSTATUS_CLOSED"
        using pf(1,3,4) lens delBuffer_rd [OF laws] prems(1,5) by (simp_all add: wput_buf_def)
      have i: "length (drop k bs) < length bs" "2 * length (drop k bs) < size_mod sz" using k prems(2) by auto
      have cl: "tcp_clean sz (drop k bs)" using prems(3) mk by (subst (asm) tcp_clean.simps) simp
      have r: "comm_ready bSVLink (wk_comm ?w)" using pf(7) ce(2) by (simp add: wput_buf_def)
      note ih = less.hyps [OF i(1) n(1) i(2) cl r n(2)]
      have st: "m_emStatus (wsess ?w p) = m_emStatus (wsess w p)" "m_emSessionType (wsess ?w p) = m_emSessionType (wsess w p)"
          "wk_calls ?w = wk_calls w @ [x]" "m_vcClinetType (wk_comm ?w) = m_vcClinetType (wk_comm w)"
          "m_vcSVLinkType (wk_comm ?w) = m_vcSVLinkType (wk_comm w)" "m_pReadBuffer (wbuf ?w p) = None \<longleftrightarrow> m_pReadBuffer (wbuf w p) = None"
        using pf(2,3,5,6,8,9) ce(3,4) by (simp_all add: wput_buf_def)
      have s: "tcp_stream ?dec bs = (case tcp_stream ?dec (drop k bs) of (xs, r) \<Rightarrow> (x # xs, r))"
        using mk Some by (simp add: tcp_stream.simps [of _ bs])
      show ?thesis using ih unfolding e st s by (auto split: prod.splits)
    qed
  qed
qed

section \<open>Bytes arrive in pieces\<close>

lemma tcp_next_append: "tcp_next bs = Some (m, k) \<Longrightarrow> tcp_next (bs @ cs) = Some (m, k)"
proof -
  assume n: "tcp_next bs = Some (m, k)"
  have b: "tcp_next_body h n bs = Some (m, k) \<Longrightarrow> tcp_next_body h n (bs @ cs) = Some (m, k)" for h n
    by (auto simp: tcp_next_body_def split: if_splits)
  have "bs \<noteq> []" using n by (auto simp: tcp_next_def)
  moreover have "j \<le> length bs \<Longrightarrow> take (j - 1) (drop 1 (bs @ cs)) = take (j - 1) (drop 1 bs)" for j by (cases bs) auto
  from this [of 3] this [of 5] have "3 \<le> length bs \<Longrightarrow> take 2 (drop 1 (bs @ cs)) = take 2 (drop 1 bs)"
    "5 \<le> length bs \<Longrightarrow> take 4 (drop 1 (bs @ cs)) = take 4 (drop 1 bs)" by simp_all
  ultimately show ?thesis using n b unfolding tcp_next_def Let_def by (auto split: if_splits)
qed

lemma tcp_stream_append:
  "tcp_stream dec (bs @ cs) =
     (case tcp_stream dec bs of (xs, r) \<Rightarrow> case tcp_stream dec (r @ cs) of (ys, r') \<Rightarrow> (xs @ ys, r'))"
proof (induction dec bs rule: tcp_stream.induct)
  case (1 dec bs)
  show ?case
  proof (cases "tcp_next bs")
    case (Some mk)
    then obtain m k where mk: "tcp_next bs = Some (m, k)" by (cases mk) auto
    note k = tcp_next_pos [OF mk]
    show ?thesis
    proof (cases "dec m")
      case None
      then show ?thesis using mk tcp_next_append [OF mk, of cs] by (simp add: tcp_stream.simps [of dec bs] split: prod.split)
    next
      case (Some x)
      then show ?thesis using 1 mk tcp_next_append [OF mk, of cs] k
        by (simp add: tcp_stream.simps [of dec bs] tcp_stream.simps [of dec "bs @ cs"] split: prod.splits)
    qed
  qed (simp add: tcp_stream.simps [of dec bs] split: prod.split)
qed

lemma tcp_clean_prefix: "tcp_clean sz (bs @ cs) \<Longrightarrow> tcp_clean sz bs"
proof (induction sz bs rule: tcp_clean.induct)
  case (1 sz bs)
  have "tcp_overread sz bs \<Longrightarrow> tcp_overread sz (bs @ cs)" "tcp_wraps bs \<Longrightarrow> tcp_wraps (bs @ cs)"
    by (cases bs; auto simp: tcp_overread_def tcp_wraps_def)+
  moreover have "tcp_clean sz (drop k bs)" if "tcp_next bs = Some (m, k)" for m k
    using 1 that tcp_next_append [OF that, of cs] tcp_next_pos [OF that] by (simp add: tcp_clean.simps [of sz "bs @ cs"])
  ultimately show ?case using 1(2) by (auto simp: tcp_clean.simps [of sz bs] tcp_clean.simps [of sz "bs @ cs"] split: option.split)
qed

lemma tcp_clean_rest: "tcp_clean sz (bs @ cs) \<Longrightarrow> tcp_clean sz (snd (tcp_stream dec bs) @ cs)"
proof (induction dec bs rule: tcp_stream.induct)
  case (1 dec bs)
  have "tcp_clean sz (drop k bs @ cs)" if "tcp_next bs = Some (m, k)" for m k
    using 1(2) tcp_next_append [OF that, of cs] tcp_next_pos [OF that] by (simp add: tcp_clean.simps [of sz "bs @ cs"])
  then show ?case using 1 by (auto simp: tcp_stream.simps [of dec bs] split: option.splits prod.splits)
qed

text \<open>
  libevent appends what arrives to the read buffer and calls the worker.
\<close>

definition arrive :: "('bev, 'b) evbuffer_api \<Rightarrow> ptr \<Rightarrow> byte list \<Rightarrow> ('bev, 'b) worker \<Rightarrow> ('bev, 'b) worker" where
  "arrive api p xs w =
     wput_buf p ((wbuf w p)\<lparr>m_pReadBuffer := map_option (\<lambda>b. snd (evbuffer_add api b xs)) (m_pReadBuffer (wbuf w p))\<rparr>) w"

fun feed ::
  "nat \<Rightarrow> allocator \<Rightarrow> codec_ops \<Rightarrow> ('bev, 'b) evbuffer_api \<Rightarrow> ('bev, 'b) event_interface \<Rightarrow> ptr \<Rightarrow> byte list list \<Rightarrow> ('bev, 'b) worker
     \<Rightarrow> (qerror + ('bev, 'b) worker) option" where
  "feed sz alloc ops api iface p [] w = Some (Inr w)"
| "feed sz alloc ops api iface p (c # cs) w =
     (case dispTcp sz alloc ops api iface p (arrive api p c w) of
        None \<Rightarrow> None | Some (Inl e) \<Rightarrow> Some (Inl e) | Some (Inr w) \<Rightarrow> feed sz alloc ops api iface p cs w)"

text \<open>A session that receives.\<close>

definition receiving :: "('b \<Rightarrow> byte list) \<Rightarrow> ptr \<Rightarrow> ('bev, 'b) worker \<Rightarrow> bool" where
  "receiving content p w \<longleftrightarrow> m_emStatus (wsess w p) \<noteq> SESSSTATUS_CLOSED \<and> m_pReadBuffer (wbuf w p) \<noteq> None
     \<and> comm_ready (STYPE_TCPCLIENT = m_emSessionType (wsess w p)) (wk_comm w)"

definition wdec :: "codec_ops \<Rightarrow> ptr \<Rightarrow> ('bev, 'b) worker \<Rightarrow> byte list \<Rightarrow> byte list option" where
  "wdec ops p w = comm_dec ops (STYPE_TCPCLIENT = m_emSessionType (wsess w p)) (m_vcClinetType (wk_comm w)) (m_vcSVLinkType (wk_comm w))"

lemma tcp_stream_rest: "tcp_stream dec bs = (xs, r) \<Longrightarrow> tcp_stream dec r = ([], r) \<and> length r \<le> length bs"
proof (induction dec bs arbitrary: xs r rule: tcp_stream.induct)
  case (1 dec bs)
  show ?case
  proof (cases "\<exists>m k x. tcp_next bs = Some (m, k) \<and> dec m = Some x")
    case True
    then obtain m k x where m: "tcp_next bs = Some (m, k)" "dec m = Some x" by blast
    obtain ys r' where s: "tcp_stream dec (drop k bs) = (ys, r')" by force
    then have "r = r'" using 1(2) m by (simp add: tcp_stream.simps [of dec bs])
    then show ?thesis using 1(1) [OF m(1) refl m(2) s] by auto
  next
    case False
    then have "tcp_stream dec bs = ([], bs)" by (auto simp: tcp_stream.simps [of dec bs] split: option.split)
    then show ?thesis using 1(2) by simp
  qed
qed

lemma arrive_rd:
  assumes "evbuffer_laws api content" "m_pReadBuffer (wbuf w p) \<noteq> None"
  shows "rd content (wbuf (arrive api p xs w) p) = rd content (wbuf w p) @ xs"
  using assms by (auto simp: arrive_def wput_buf_def rd_def evbuffer_lawsD(8))

lemma arrive_simps [simp]:
  "wk_calls (arrive api p xs w) = wk_calls w" "wk_comm (arrive api p xs w) = wk_comm w"
  "receiving content p (arrive api p xs w) = receiving content p w" "wdec ops p (arrive api p xs w) = wdec ops p w"
  by (simp_all add: arrive_def wput_buf_def receiving_def wdec_def)

lemma dispTcp_stream:
  assumes "evbuffer_laws api content" "alloc_ok alloc" "stage_fits sz (decode_stage ops)" "polite content p iface" "sz = 4 \<or> sz = 8"
    and "receiving content p w" "2 * length (rd content (wbuf w p)) < size_mod sz" "tcp_clean sz (rd content (wbuf w p))"
    and "tcp_stream (wdec ops p w) (rd content (wbuf w p)) = (xs, r)"
  shows "\<exists>w'. dispTcp sz alloc ops api iface p w = Some (Inr w') \<and> wk_calls w' = wk_calls w @ xs \<and> rd content (wbuf w' p) = r
     \<and> receiving content p w' \<and> wdec ops p w' = wdec ops p w"
proof -
  have r: "comm_ready (STYPE_TCPCLIENT = m_emSessionType (wsess w p)) (wk_comm w)" "m_emStatus (wsess w p) \<noteq> SESSSTATUS_CLOSED"
      "m_pReadBuffer (wbuf w p) \<noteq> None" using assms(6) by (simp_all add: receiving_def)
  let ?b = "STYPE_TCPCLIENT = m_emSessionType (wsess w p)"
  obtain w' where "dispTcp_loop sz alloc ops api iface ?b p w = Some (Inr w')"
      "wk_calls w' = wk_calls w @ xs" "rd content (wbuf w' p) = r" "comm_ready ?b (wk_comm w')"
      "m_vcClinetType (wk_comm w') = m_vcClinetType (wk_comm w)" "m_vcSVLinkType (wk_comm w') = m_vcSVLinkType (wk_comm w)"
      "m_emStatus (wsess w' p) = m_emStatus (wsess w p)" "m_emSessionType (wsess w' p) = m_emSessionType (wsess w p)"
      "m_pReadBuffer (wbuf w' p) \<noteq> None"
    using dispTcp_loop_stream [OF assms(1-5) refl assms(7,8) r(1,2)] assms(9) r(3) unfolding wdec_def by auto
  then show ?thesis using r unfolding dispTcp_def receiving_def wdec_def by (intro exI [of _ w']) simp
qed

lemma feed_stream:
  assumes env: "evbuffer_laws api content" "alloc_ok alloc" "stage_fits sz (decode_stage ops)" "polite content p iface" "sz = 4 \<or> sz = 8"
    and "receiving content p w" "2 * length (rd content (wbuf w p) @ concat cs) < size_mod sz"
    and "tcp_clean sz (rd content (wbuf w p) @ concat cs)"
    and "tcp_stream (wdec ops p w) (rd content (wbuf w p)) = ([], rd content (wbuf w p))"
    and "tcp_stream (wdec ops p w) (rd content (wbuf w p) @ concat cs) = (xs, r)"
  shows "\<exists>w'. feed sz alloc ops api iface p cs w = Some (Inr w') \<and> wk_calls w' = wk_calls w @ xs \<and> rd content (wbuf w' p) = r
     \<and> receiving content p w'"
  using assms(6-)
proof (induction cs arbitrary: w xs)
  case (Cons c cs)
  note prems = Cons.prems
  let ?w = "arrive api p c w" and ?bs = "rd content (wbuf w p)"
  have bs: "rd content (wbuf ?w p) = ?bs @ c" using arrive_rd [OF env(1)] prems(1) by (simp add: receiving_def)
  obtain ys r1 where s: "tcp_stream (wdec ops p w) (?bs @ c) = (ys, r1)" by force
  have cl: "tcp_clean sz (?bs @ c)" using tcp_clean_prefix [of sz "?bs @ c" "concat cs"] prems(3) by simp
  have "\<exists>w1. dispTcp sz alloc ops api iface p ?w = Some (Inr w1) \<and> wk_calls w1 = wk_calls ?w @ ys
     \<and> rd content (wbuf w1 p) = r1 \<and> receiving content p w1 \<and> wdec ops p w1 = wdec ops p ?w"
    by (rule dispTcp_stream [OF env]) (use prems(1,2) bs cl s in simp_all)
  then obtain w1 where w1: "dispTcp sz alloc ops api iface p ?w = Some (Inr w1)" "wk_calls w1 = wk_calls w @ ys"
      "rd content (wbuf w1 p) = r1" "receiving content p w1" "wdec ops p w1 = wdec ops p w" by auto
  note rest = tcp_stream_rest [OF s]
  obtain zs r2 where s2: "tcp_stream (wdec ops p w) (r1 @ concat cs) = (zs, r2)" by force
  have x: "xs = ys @ zs" "r = r2"
    using tcp_stream_append [of "wdec ops p w" "?bs @ c" "concat cs"] s s2 prems(5) by simp_all
  have "\<exists>w'. feed sz alloc ops api iface p cs w1 = Some (Inr w') \<and> wk_calls w' = wk_calls w1 @ zs \<and> rd content (wbuf w' p) = r
     \<and> receiving content p w'"
    by (rule Cons.IH) (use w1 rest s2 x prems(2) tcp_clean_rest [of sz "?bs @ c" "concat cs" "wdec ops p w"] prems(3) s in auto)
  then show ?case using w1(1,2) x by simp
qed simp

section \<open>Frames sent\<close>

lemma tcp_overread_frame:
  assumes "tcp_msg_ok sz m"
  shows "\<not> tcp_overread sz (tcp_frame m @ rest)"
  using assms by (auto simp: tcp_msg_ok_def tcp_overread_def tcp_frame_def tcp_frame_head_def unat_of_nat split: if_splits)

lemma tcp_msg_ok_lens: "tcp_msg_ok sz m \<Longrightarrow> length m + 5 < 2 ^ 32 \<and> (sz = 4 \<or> sz = 8)"
  by (auto simp: tcp_msg_ok_def size_mod_def)

lemma tcp_clean_frames: "\<forall>m \<in> set ms. tcp_msg_ok sz m \<Longrightarrow> tcp_clean sz (concat (map tcp_frame ms))"
proof (induction ms)
  case Nil
  show ?case by (subst tcp_clean.simps) (simp add: tcp_overread_def tcp_wraps_def tcp_next_def)
next
  case (Cons m ms)
  then have "length m < 2 ^ 32" "length m + 5 < 2 ^ 32" using tcp_msg_ok_lens [of sz m] by auto
  then show ?case using Cons tcp_next_frame [of m "concat (map tcp_frame ms)"] tcp_frame_nowrap [of m "concat (map tcp_frame ms)"]
      tcp_overread_frame [of sz m "concat (map tcp_frame ms)"]
    by (subst tcp_clean.simps) simp
qed

lemma tcp_stream_frames:
  "\<forall>m \<in> set ms. length m < 2 ^ 32 \<Longrightarrow> map dec ms = map Some xs \<Longrightarrow> tcp_stream dec (concat (map tcp_frame ms)) = (xs, [])"
proof (induction ms arbitrary: xs)
  case Nil
  then show ?case by (subst tcp_stream.simps) (simp add: tcp_next_def)
next
  case (Cons m ms)
  then obtain x ys where xs: "xs = x # ys" "dec m = Some x" "map dec ms = map Some ys" by (cases xs) auto
  then show ?case using Cons tcp_next_frame [of m "concat (map tcp_frame ms)"] by (subst tcp_stream.simps) simp
qed

definition sending :: "('bev, 'b) worker \<Rightarrow> ptr \<Rightarrow> bool" where
  "sending w p \<longleftrightarrow> m_pWriteBuffer (wbuf w p) \<noteq> None \<and> length (tcp_acHead (sm_objTcpParser w)) = TCP_HRAD_MAXLENS
     \<and> comm_ready (STYPE_TCPCLIENT = m_emSessionType (wsess w p)) (wk_comm w)"

definition wenc :: "codec_ops \<Rightarrow> ptr \<Rightarrow> ('bev, 'b) worker \<Rightarrow> byte list \<Rightarrow> byte list option" where
  "wenc ops p w = (let b = (STYPE_TCPCLIENT = m_emSessionType (wsess w p))
     in comm_fun (encode_stage ops b) (comm_types b (wk_comm w)) (m_vcClinetType (wk_comm w)))"

lemma send_payload_wr:
  assumes "evbuffer_laws api content" "m_pWriteBuffer (wbuf w p) \<noteq> None"
  shows "\<exists>w'. send_payload api p h (Some c) w = (True, w') \<and> wr content (wbuf w' p) = wr content (wbuf w p) @ h @ c
     \<and> m_pWriteBuffer (wbuf w' p) \<noteq> None \<and> wk_comm w' = wk_comm w \<and> sm_objTcpParser w' = sm_objTcpParser w
     \<and> m_emSessionType (wsess w' p) = m_emSessionType (wsess w p)"
proof -
  obtain eb where e: "writeBuffer api (Some h) (wbuf w p) = (Q_RTN_OK, eb)" "wr content eb = wr content (wbuf w p) @ h"
      "m_pWriteBuffer eb \<noteq> None"
    using writeBuffer_wr [OF assms, of h] by (metis prod.collapse)
  obtain eb2 where e2: "writeBuffer api (Some c) eb = (Q_RTN_OK, eb2)" "wr content eb2 = wr content eb @ c" "m_pWriteBuffer eb2 \<noteq> None"
    using writeBuffer_wr [OF assms(1) e(3), of c] by (metis prod.collapse)
  show ?thesis using e e2 by (cases "c = []") (auto simp: send_payload_def wput_buf_def Let_def)
qed

lemma sendTcp_frame:
  assumes "evbuffer_laws api content" "alloc_ok alloc" "stage_fits sz (encode_stage ops (STYPE_TCPCLIENT = m_emSessionType (wsess w p)))"
    and "sending w p" "wenc ops p w m = Some c" "tcp_msg_ok sz c"
  shows "\<exists>w'. sendTcp sz alloc ops api p (Some m) (length m) w = Inr (True, w')
     \<and> wr content (wbuf w' p) = wr content (wbuf w p) @ tcp_frame c \<and> sending w' p \<and> wenc ops p w' = wenc ops p w
     \<and> m_emSessionType (wsess w' p) = m_emSessionType (wsess w p)"
proof -
  let ?b = "STYPE_TCPCLIENT = m_emSessionType (wsess w p)"
  have s: "m_pWriteBuffer (wbuf w p) \<noteq> None" "length (tcp_acHead (sm_objTcpParser w)) = TCP_HRAD_MAXLENS" "comm_ready ?b (wk_comm w)"
    using assms(4) by (simp_all add: sending_def)
  obtain ce where ce: "comm_Encode sz alloc ops (Some m) ?b (wk_comm w) = Inr (Some c, ce)" "comm_ready ?b ce"
      "m_vcClinetType ce = m_vcClinetType (wk_comm w)" "m_vcSVLinkType ce = m_vcSVLinkType (wk_comm w)"
    using comm_code_fun [OF assms(2,3) s(3), of "comm_types ?b (wk_comm w)" m] s(3) assms(5)
    by (auto simp: comm_Encode_def wenc_def comm_types_def comm_ready_def Let_def split: if_splits)
  have l: "length c < 2 ^ 32" "sz = 4 \<or> sz = 8" "length c \<le> 0xFFFF \<or> sz = 4"
    using tcp_msg_ok_lens [OF assms(6)] assms(6) by (auto simp: tcp_msg_ok_def)
  obtain tp where tp: "tcp_createHead sz (length c) (sm_objTcpParser w) = Inr (tcp_frame_head (length c), tp)"
      "length (tcp_acHead tp) = TCP_HRAD_MAXLENS"
    using tcp_createHead_spec_aux [OF s(2) l(1,2)] l(3) s(2) length_tcp_frame_head [of "length c"]
    by (auto simp: tcp_consts)
  let ?w = "w\<lparr>wk_comm := ce, sm_objTcpParser := tp\<rparr>"
  obtain w' where "send_payload api p (tcp_frame_head (length c)) (Some c) ?w = (True, w')"
      "wr content (wbuf w' p) = wr content (wbuf w p) @ tcp_frame c" "m_pWriteBuffer (wbuf w' p) \<noteq> None" "wk_comm w' = ce"
      "sm_objTcpParser w' = tp" "m_emSessionType (wsess w' p) = m_emSessionType (wsess w p)"
    using send_payload_wr [OF assms(1), of ?w p "tcp_frame_head (length c)" c] s(1) by (auto simp: tcp_frame_def)
  then show ?thesis using ce tp
    by (intro exI [of _ w']) (simp add: sendTcp_def msg_lens_def sending_def wenc_def comm_types_def Let_def)
qed

fun send_all ::
  "nat \<Rightarrow> allocator \<Rightarrow> codec_ops \<Rightarrow> ('bev, 'b) evbuffer_api \<Rightarrow> ptr \<Rightarrow> byte list list \<Rightarrow> ('bev, 'b) worker
     \<Rightarrow> qerror + bool \<times> ('bev, 'b) worker" where
  "send_all sz alloc ops api p [] w = Inr (True, w)"
| "send_all sz alloc ops api p (m # ms) w =
     (case sendTcp sz alloc ops api p (Some m) (length m) w of
        Inl e \<Rightarrow> Inl e | Inr (False, w) \<Rightarrow> Inr (False, w) | Inr (True, w) \<Rightarrow> send_all sz alloc ops api p ms w)"

lemma send_all_frames:
  assumes "evbuffer_laws api content" "alloc_ok alloc" "stage_fits sz (encode_stage ops (STYPE_TCPCLIENT = m_emSessionType (wsess w p)))"
    and "sending w p" "map (wenc ops p w) ms = map Some cs" "\<forall>c \<in> set cs. tcp_msg_ok sz c"
  shows "\<exists>w'. send_all sz alloc ops api p ms w = Inr (True, w')
     \<and> wr content (wbuf w' p) = wr content (wbuf w p) @ concat (map tcp_frame cs)"
  using assms(3-)
proof (induction ms arbitrary: cs w)
  case (Cons m ms)
  then obtain c cs' where c: "cs = c # cs'" "wenc ops p w m = Some c" "map (wenc ops p w) ms = map Some cs'" by (cases cs) auto
  obtain w' where w': "sendTcp sz alloc ops api p (Some m) (length m) w = Inr (True, w')"
      "wr content (wbuf w' p) = wr content (wbuf w p) @ tcp_frame c" "sending w' p" "wenc ops p w' = wenc ops p w"
      "m_emSessionType (wsess w' p) = m_emSessionType (wsess w p)"
    using sendTcp_frame [OF assms(1,2) Cons.prems(1,2) c(2)] Cons.prems(4) c(1) by auto
  then show ?case using Cons.IH [of w' cs'] Cons.prems(1,4) c by simp
qed simp

text \<open>Both ends use the same chain of transformations.\<close>

definition same_chain :: "('bev, 'b) worker \<Rightarrow> ptr \<Rightarrow> ('bev2, 'b2) worker \<Rightarrow> ptr \<Rightarrow> bool" where
  "same_chain w p w2 q \<longleftrightarrow>
     (let b = (STYPE_TCPCLIENT = m_emSessionType (wsess w p)); b2 = (STYPE_TCPCLIENT = m_emSessionType (wsess w2 q))
      in comm_types b (wk_comm w) = comm_types b2 (wk_comm w2)
       \<and> (m_vcClinetType (wk_comm w) = [] \<longleftrightarrow> m_vcClinetType (wk_comm w2) = []) \<and> (RSA \<notin> set (comm_types b (wk_comm w)) \<or> b))"

lemma wdec_wenc:
  assumes "codec_laws ops" "same_chain w p w2 q" "wenc ops p w m = Some c"
  shows "wdec ops q w2 c = Some m"
proof -
  let ?b = "STYPE_TCPCLIENT = m_emSessionType (wsess w p)"
  have s: "comm_types ?b (wk_comm w) = comm_types (STYPE_TCPCLIENT = m_emSessionType (wsess w2 q)) (wk_comm w2)"
      "m_vcClinetType (wk_comm w) = [] \<longleftrightarrow> m_vcClinetType (wk_comm w2) = []" "RSA \<notin> set (comm_types ?b (wk_comm w)) \<or> ?b"
    using assms(2) by (simp_all add: same_chain_def Let_def)
  show ?thesis
  proof (cases "m_vcClinetType (wk_comm w) = [] \<or> m = []")
    case True
    then show ?thesis using assms(3) s(2) by (auto simp: wenc_def wdec_def comm_fun_def Let_def)
  next
    case False
    then have e: "chain (encode_stage ops ?b) (comm_types ?b (wk_comm w)) m = Some c"
      using assms(3) by (simp add: wenc_def comm_fun_def Let_def)
    have "chain (decode_stage ops) (rev (comm_types ?b (wk_comm w))) c = Some m" "c \<noteq> []"
      using chain_inverse [OF assms(1) s(3) e] False by auto
    then show ?thesis using False s(1,2) by (simp add: wdec_def comm_fun_def comm_types_def)
  qed
qed

end
