(* ===== verification/SHA_Example.thy ===== *)
theory SHA_Example
  imports CSHA1
begin

text \<open>
  The hash of the example of RFC 6455, the key \<^verbatim>\<open>dGhlIHNhbXBsZSBub25jZQ==\<close> followed by the fixed string of the protocol: two blocks,
  sixteen words of the schedule and twenty rounds at a time.
\<close>

abbreviation rfc0_block :: "byte list" where
  "rfc0_block \<equiv> [100, 71, 104, 108, 73, 72, 78, 104, 98, 88, 66, 115, 90, 83, 66, 117, 98, 50, 53, 106, 90, 81, 61, 61, 50, 53, 56, 69, 65, 70, 65, 53, 45, 69, 57, 49, 52, 45, 52, 55, 68, 65, 45, 57, 53, 67, 65, 45, 67, 53, 65, 66, 48, 68, 67, 56, 53, 66, 49, 49, 128, 0, 0, 0]"

lemma rfc0_w16:
  "fold sha_schedule [16..<32]
    [0x6447686c, 0x49484e68, 0x62584273, 0x5a534275, 0x6232356a, 0x5a513d3d, 0x32353845, 0x41464135,
     0x2d453931, 0x342d3437, 0x44412d39, 0x3543412d, 0x43354142, 0x30444338, 0x35423131, 0x80000000]
   = [0x6447686c, 0x49484e68, 0x62584273, 0x5a534275, 0x6232356a, 0x5a513d3d, 0x32353845, 0x41464135,
     0x2d453931, 0x342d3437, 0x44412d39, 0x3543412d, 0x43354142, 0x30444338, 0x35423131, 0x80000000,
     0x363ca02c, 0x24e81236, 0x8856b441, 0x06fb3c92, 0x6fb4bcb6, 0x460b16e3, 0x599219ae, 0x35bf9369,
     0x3267458e, 0xf828fd04, 0x753a96a7, 0x6336f612, 0xc3d66383, 0x06eb86f9, 0x73b4fd42, 0xa503c5b8]"
  by code_simp

lemma rfc0_w32:
  "fold sha_schedule [32..<48]
    [0x6447686c, 0x49484e68, 0x62584273, 0x5a534275, 0x6232356a, 0x5a513d3d, 0x32353845, 0x41464135,
     0x2d453931, 0x342d3437, 0x44412d39, 0x3543412d, 0x43354142, 0x30444338, 0x35423131, 0x80000000,
     0x363ca02c, 0x24e81236, 0x8856b441, 0x06fb3c92, 0x6fb4bcb6, 0x460b16e3, 0x599219ae, 0x35bf9369,
     0x3267458e, 0xf828fd04, 0x753a96a7, 0x6336f612, 0xc3d66383, 0x06eb86f9, 0x73b4fd42, 0xa503c5b8]
   = [0x6447686c, 0x49484e68, 0x62584273, 0x5a534275, 0x6232356a, 0x5a513d3d, 0x32353845, 0x41464135,
     0x2d453931, 0x342d3437, 0x44412d39, 0x3543412d, 0x43354142, 0x30444338, 0x35423131, 0x80000000,
     0x363ca02c, 0x24e81236, 0x8856b441, 0x06fb3c92, 0x6fb4bcb6, 0x460b16e3, 0x599219ae, 0x35bf9369,
     0x3267458e, 0xf828fd04, 0x753a96a7, 0x6336f612, 0xc3d66383, 0x06eb86f9, 0x73b4fd42, 0xa503c5b8,
     0x15cdae35, 0x531e5dc5, 0x6fb6b7d0, 0x6c16e4ac, 0x4ddd36bd, 0x35d36946, 0xe8ae8b9c, 0x4a933ad0,
     0xce8628b4, 0x415dba9e, 0x2792f049, 0x8e9b79e7, 0x79c425c5, 0x6353b49d, 0x00994218, 0x8a950ed1]"
  by code_simp

lemma rfc0_w48:
  "fold sha_schedule [48..<64]
    [0x6447686c, 0x49484e68, 0x62584273, 0x5a534275, 0x6232356a, 0x5a513d3d, 0x32353845, 0x41464135,
     0x2d453931, 0x342d3437, 0x44412d39, 0x3543412d, 0x43354142, 0x30444338, 0x35423131, 0x80000000,
     0x363ca02c, 0x24e81236, 0x8856b441, 0x06fb3c92, 0x6fb4bcb6, 0x460b16e3, 0x599219ae, 0x35bf9369,
     0x3267458e, 0xf828fd04, 0x753a96a7, 0x6336f612, 0xc3d66383, 0x06eb86f9, 0x73b4fd42, 0xa503c5b8,
     0x15cdae35, 0x531e5dc5, 0x6fb6b7d0, 0x6c16e4ac, 0x4ddd36bd, 0x35d36946, 0xe8ae8b9c, 0x4a933ad0,
     0xce8628b4, 0x415dba9e, 0x2792f049, 0x8e9b79e7, 0x79c425c5, 0x6353b49d, 0x00994218, 0x8a950ed1]
   = [0x6447686c, 0x49484e68, 0x62584273, 0x5a534275, 0x6232356a, 0x5a513d3d, 0x32353845, 0x41464135,
     0x2d453931, 0x342d3437, 0x44412d39, 0x3543412d, 0x43354142, 0x30444338, 0x35423131, 0x80000000,
     0x363ca02c, 0x24e81236, 0x8856b441, 0x06fb3c92, 0x6fb4bcb6, 0x460b16e3, 0x599219ae, 0x35bf9369,
     0x3267458e, 0xf828fd04, 0x753a96a7, 0x6336f612, 0xc3d66383, 0x06eb86f9, 0x73b4fd42, 0xa503c5b8,
     0x15cdae35, 0x531e5dc5, 0x6fb6b7d0, 0x6c16e4ac, 0x4ddd36bd, 0x35d36946, 0xe8ae8b9c, 0x4a933ad0,
     0xce8628b4, 0x415dba9e, 0x2792f049, 0x8e9b79e7, 0x79c425c5, 0x6353b49d, 0x00994218, 0x8a950ed1,
     0xaf5d0b99, 0xfd9883de, 0x1ed8ffeb, 0xf007ff28, 0x425e3674, 0x059631c0, 0xad6c3c31, 0x860b71d7,
     0x87bfc548, 0x3e64f92d, 0x8d0ab761, 0x34e1ee35, 0x0acf5108, 0xc2b479da, 0x6c93370a, 0xf7935ba1]"
  by code_simp

lemma rfc0_w64:
  "fold sha_schedule [64..<80]
    [0x6447686c, 0x49484e68, 0x62584273, 0x5a534275, 0x6232356a, 0x5a513d3d, 0x32353845, 0x41464135,
     0x2d453931, 0x342d3437, 0x44412d39, 0x3543412d, 0x43354142, 0x30444338, 0x35423131, 0x80000000,
     0x363ca02c, 0x24e81236, 0x8856b441, 0x06fb3c92, 0x6fb4bcb6, 0x460b16e3, 0x599219ae, 0x35bf9369,
     0x3267458e, 0xf828fd04, 0x753a96a7, 0x6336f612, 0xc3d66383, 0x06eb86f9, 0x73b4fd42, 0xa503c5b8,
     0x15cdae35, 0x531e5dc5, 0x6fb6b7d0, 0x6c16e4ac, 0x4ddd36bd, 0x35d36946, 0xe8ae8b9c, 0x4a933ad0,
     0xce8628b4, 0x415dba9e, 0x2792f049, 0x8e9b79e7, 0x79c425c5, 0x6353b49d, 0x00994218, 0x8a950ed1,
     0xaf5d0b99, 0xfd9883de, 0x1ed8ffeb, 0xf007ff28, 0x425e3674, 0x059631c0, 0xad6c3c31, 0x860b71d7,
     0x87bfc548, 0x3e64f92d, 0x8d0ab761, 0x34e1ee35, 0x0acf5108, 0xc2b479da, 0x6c93370a, 0xf7935ba1]
   = [0x6447686c, 0x49484e68, 0x62584273, 0x5a534275, 0x6232356a, 0x5a513d3d, 0x32353845, 0x41464135,
     0x2d453931, 0x342d3437, 0x44412d39, 0x3543412d, 0x43354142, 0x30444338, 0x35423131, 0x80000000,
     0x363ca02c, 0x24e81236, 0x8856b441, 0x06fb3c92, 0x6fb4bcb6, 0x460b16e3, 0x599219ae, 0x35bf9369,
     0x3267458e, 0xf828fd04, 0x753a96a7, 0x6336f612, 0xc3d66383, 0x06eb86f9, 0x73b4fd42, 0xa503c5b8,
     0x15cdae35, 0x531e5dc5, 0x6fb6b7d0, 0x6c16e4ac, 0x4ddd36bd, 0x35d36946, 0xe8ae8b9c, 0x4a933ad0,
     0xce8628b4, 0x415dba9e, 0x2792f049, 0x8e9b79e7, 0x79c425c5, 0x6353b49d, 0x00994218, 0x8a950ed1,
     0xaf5d0b99, 0xfd9883de, 0x1ed8ffeb, 0xf007ff28, 0x425e3674, 0x059631c0, 0xad6c3c31, 0x860b71d7,
     0x87bfc548, 0x3e64f92d, 0x8d0ab761, 0x34e1ee35, 0x0acf5108, 0xc2b479da, 0x6c93370a, 0xf7935ba1,
     0xe91c91c1, 0xbed165a2, 0x4c3e4abe, 0x50d96238, 0xb6587dde, 0x1a2ee6e6, 0x2d335896, 0xf3495d0b,
     0xf30e0a1d, 0x32ce5459, 0x7165e3b8, 0xab05ff94, 0xc5949f0b, 0xbcd84e4a, 0x07720392, 0xff3ff806]"
  by code_simp

abbreviation rfc0_W :: "u32 list" where
  "rfc0_W \<equiv> [0x6447686c, 0x49484e68, 0x62584273, 0x5a534275, 0x6232356a, 0x5a513d3d, 0x32353845, 0x41464135,
     0x2d453931, 0x342d3437, 0x44412d39, 0x3543412d, 0x43354142, 0x30444338, 0x35423131, 0x80000000,
     0x363ca02c, 0x24e81236, 0x8856b441, 0x06fb3c92, 0x6fb4bcb6, 0x460b16e3, 0x599219ae, 0x35bf9369,
     0x3267458e, 0xf828fd04, 0x753a96a7, 0x6336f612, 0xc3d66383, 0x06eb86f9, 0x73b4fd42, 0xa503c5b8,
     0x15cdae35, 0x531e5dc5, 0x6fb6b7d0, 0x6c16e4ac, 0x4ddd36bd, 0x35d36946, 0xe8ae8b9c, 0x4a933ad0,
     0xce8628b4, 0x415dba9e, 0x2792f049, 0x8e9b79e7, 0x79c425c5, 0x6353b49d, 0x00994218, 0x8a950ed1,
     0xaf5d0b99, 0xfd9883de, 0x1ed8ffeb, 0xf007ff28, 0x425e3674, 0x059631c0, 0xad6c3c31, 0x860b71d7,
     0x87bfc548, 0x3e64f92d, 0x8d0ab761, 0x34e1ee35, 0x0acf5108, 0xc2b479da, 0x6c93370a, 0xf7935ba1,
     0xe91c91c1, 0xbed165a2, 0x4c3e4abe, 0x50d96238, 0xb6587dde, 0x1a2ee6e6, 0x2d335896, 0xf3495d0b,
     0xf30e0a1d, 0x32ce5459, 0x7165e3b8, 0xab05ff94, 0xc5949f0b, 0xbcd84e4a, 0x07720392, 0xff3ff806]"

lemma rfc0_r0:
  "fold (sha_round rfc0_W) [0..<20] (0x67452301, 0xefcdab89, 0x98badcfe, 0x10325476, 0xc3d2e1f0)
   = (0x091ab97c, 0x8dc510b6, 0xdfaeca5a, 0x75f6bd5d, 0x2801311a)"
  by code_simp

lemma rfc0_r1:
  "fold (sha_round rfc0_W) [20..<40] (0x091ab97c, 0x8dc510b6, 0xdfaeca5a, 0x75f6bd5d, 0x2801311a)
   = (0x2ba2c83e, 0xd0869081, 0x1a1d8209, 0xd3334889, 0x2779e4f2)"
  by code_simp

lemma rfc0_r2:
  "fold (sha_round rfc0_W) [40..<60] (0x2ba2c83e, 0xd0869081, 0x1a1d8209, 0xd3334889, 0x2779e4f2)
   = (0x4872d85a, 0xd284f163, 0x83091f0b, 0x1bbdbfbd, 0x9f8490bc)"
  by code_simp

lemma rfc0_r3:
  "fold (sha_round rfc0_W) [60..<80] (0x4872d85a, 0xd284f163, 0x83091f0b, 0x1bbdbfbd, 0x9f8490bc)
   = (0xf48a5426, 0x835995e1, 0x25c11efb, 0x4a45c402, 0x9a73c2f2)"
  by code_simp

lemma rfc0_length: "length rfc0_block = 64" by simp

lemma rfc0_words: "sha_words rfc0_block = rfc0_W"
proof -
  have "map shs_reverse (md_Decode rfc0_block) = [0x6447686c, 0x49484e68, 0x62584273, 0x5a534275, 0x6232356a, 0x5a513d3d, 0x32353845, 0x41464135,
     0x2d453931, 0x342d3437, 0x44412d39, 0x3543412d, 0x43354142, 0x30444338, 0x35423131, 0x80000000]" by code_simp
  then show ?thesis
    unfolding sha_words_def sha_block_words [OF rfc0_length]
    by (simp only: sha_upto_80 fold_append comp_apply rfc0_w16 rfc0_w32 rfc0_w48 rfc0_w64)
qed

lemma rfc0_compress: "sha_compress [0x67452301, 0xefcdab89, 0x98badcfe, 0x10325476, 0xc3d2e1f0] rfc0_block = [0x5bcf7727, 0x7327416a, 0xbe7bfbf9, 0x5a781878, 0x5e46a4e2]"
  by (simp add: sha_compress_def rfc0_words sha_rounds_80 rfc0_r0 rfc0_r1 rfc0_r2 rfc0_r3 del: upt_rec_numeral fold_simps)

abbreviation rfc1_block :: "byte list" where
  "rfc1_block \<equiv> [0, 0, 0, 0, 0, 0, 0, 0, 0, 0, 0, 0, 0, 0, 0, 0, 0, 0, 0, 0, 0, 0, 0, 0, 0, 0, 0, 0, 0, 0, 0, 0, 0, 0, 0, 0, 0, 0, 0, 0, 0, 0, 0, 0, 0, 0, 0, 0, 0, 0, 0, 0, 0, 0, 0, 0, 0, 0, 0, 0, 0, 0, 1, 224]"

lemma rfc1_w16:
  "fold sha_schedule [16..<32]
    [0, 0, 0, 0, 0, 0, 0, 0,
     0, 0, 0, 0, 0, 0, 0, 0x000001e0]
   = [0, 0, 0, 0, 0, 0, 0, 0,
     0, 0, 0, 0, 0, 0, 0, 0x000001e0,
     0, 0, 0x000003c0, 0, 0, 0x00000780, 0, 0x000003c0,
     0x00000f00, 0, 0, 0x00001e00, 0, 0x00000cc0, 0x00003c00, 0x00000440]"
  by code_simp

lemma rfc1_w32:
  "fold sha_schedule [32..<48]
    [0, 0, 0, 0, 0, 0, 0, 0,
     0, 0, 0, 0, 0, 0, 0, 0x000001e0,
     0, 0, 0x000003c0, 0, 0, 0x00000780, 0, 0x000003c0,
     0x00000f00, 0, 0, 0x00001e00, 0, 0x00000cc0, 0x00003c00, 0x00000440]
   = [0, 0, 0, 0, 0, 0, 0, 0,
     0, 0, 0, 0, 0, 0, 0, 0x000001e0,
     0, 0, 0x000003c0, 0, 0, 0x00000780, 0, 0x000003c0,
     0x00000f00, 0, 0, 0x00001e00, 0, 0x00000cc0, 0x00003c00, 0x00000440,
     0, 0x00007800, 0x00000f00, 0x00003300, 0x0000f000, 0x00000f00, 0, 0x0001ef00,
     0, 0x0000cc00, 0x0003c000, 0x00004380, 0, 0x00078f00, 0x0000ff00, 0x00032680]"
  by code_simp

lemma rfc1_w48:
  "fold sha_schedule [48..<64]
    [0, 0, 0, 0, 0, 0, 0, 0,
     0, 0, 0, 0, 0, 0, 0, 0x000001e0,
     0, 0, 0x000003c0, 0, 0, 0x00000780, 0, 0x000003c0,
     0x00000f00, 0, 0, 0x00001e00, 0, 0x00000cc0, 0x00003c00, 0x00000440,
     0, 0x00007800, 0x00000f00, 0x00003300, 0x0000f000, 0x00000f00, 0, 0x0001ef00,
     0, 0x0000cc00, 0x0003c000, 0x00004380, 0, 0x00078f00, 0x0000ff00, 0x00032680]
   = [0, 0, 0, 0, 0, 0, 0, 0,
     0, 0, 0, 0, 0, 0, 0, 0x000001e0,
     0, 0, 0x000003c0, 0, 0, 0x00000780, 0, 0x000003c0,
     0x00000f00, 0, 0, 0x00001e00, 0, 0x00000cc0, 0x00003c00, 0x00000440,
     0, 0x00007800, 0x00000f00, 0x00003300, 0x0000f000, 0x00000f00, 0, 0x0001ef00,
     0, 0x0000cc00, 0x0003c000, 0x00004380, 0, 0x00078f00, 0x0000ff00, 0x00032680,
     0x000f0000, 0x0000f000, 0x00003300, 0x001eff00, 0, 0x000cb800, 0x003c0000, 0x00040b00,
     0x0000f000, 0x0078ff00, 0x000ff000, 0x00338700, 0x00f00000, 0x000fc300, 0x0000f000, 0x01efbb00]"
  by code_simp

lemma rfc1_w64:
  "fold sha_schedule [64..<80]
    [0, 0, 0, 0, 0, 0, 0, 0,
     0, 0, 0, 0, 0, 0, 0, 0x000001e0,
     0, 0, 0x000003c0, 0, 0, 0x00000780, 0, 0x000003c0,
     0x00000f00, 0, 0, 0x00001e00, 0, 0x00000cc0, 0x00003c00, 0x00000440,
     0, 0x00007800, 0x00000f00, 0x00003300, 0x0000f000, 0x00000f00, 0, 0x0001ef00,
     0, 0x0000cc00, 0x0003c000, 0x00004380, 0, 0x00078f00, 0x0000ff00, 0x00032680,
     0x000f0000, 0x0000f000, 0x00003300, 0x001eff00, 0, 0x000cb800, 0x003c0000, 0x00040b00,
     0x0000f000, 0x0078ff00, 0x000ff000, 0x00338700, 0x00f00000, 0x000fc300, 0x0000f000, 0x01efbb00]
   = [0, 0, 0, 0, 0, 0, 0, 0,
     0, 0, 0, 0, 0, 0, 0, 0x000001e0,
     0, 0, 0x000003c0, 0, 0, 0x00000780, 0, 0x000003c0,
     0x00000f00, 0, 0, 0x00001e00, 0, 0x00000cc0, 0x00003c00, 0x00000440,
     0, 0x00007800, 0x00000f00, 0x00003300, 0x0000f000, 0x00000f00, 0, 0x0001ef00,
     0, 0x0000cc00, 0x0003c000, 0x00004380, 0, 0x00078f00, 0x0000ff00, 0x00032680,
     0x000f0000, 0x0000f000, 0x00003300, 0x001eff00, 0, 0x000cb800, 0x003c0000, 0x00040b00,
     0x0000f000, 0x0078ff00, 0x000ff000, 0x00338700, 0x00f00000, 0x000fc300, 0x0000f000, 0x01efbb00,
     0, 0x00cc0000, 0x03c0f000, 0x00438000, 0, 0x078f0000, 0x00ff0000, 0x03269e00,
     0x0f000000, 0x00f0f000, 0x00333c00, 0x1eff8800, 0, 0x0cb88800, 0x3c00f000, 0x040a4a00]"
  by code_simp

abbreviation rfc1_W :: "u32 list" where
  "rfc1_W \<equiv> [0, 0, 0, 0, 0, 0, 0, 0,
     0, 0, 0, 0, 0, 0, 0, 0x000001e0,
     0, 0, 0x000003c0, 0, 0, 0x00000780, 0, 0x000003c0,
     0x00000f00, 0, 0, 0x00001e00, 0, 0x00000cc0, 0x00003c00, 0x00000440,
     0, 0x00007800, 0x00000f00, 0x00003300, 0x0000f000, 0x00000f00, 0, 0x0001ef00,
     0, 0x0000cc00, 0x0003c000, 0x00004380, 0, 0x00078f00, 0x0000ff00, 0x00032680,
     0x000f0000, 0x0000f000, 0x00003300, 0x001eff00, 0, 0x000cb800, 0x003c0000, 0x00040b00,
     0x0000f000, 0x0078ff00, 0x000ff000, 0x00338700, 0x00f00000, 0x000fc300, 0x0000f000, 0x01efbb00,
     0, 0x00cc0000, 0x03c0f000, 0x00438000, 0, 0x078f0000, 0x00ff0000, 0x03269e00,
     0x0f000000, 0x00f0f000, 0x00333c00, 0x1eff8800, 0, 0x0cb88800, 0x3c00f000, 0x040a4a00]"

lemma rfc1_r0:
  "fold (sha_round rfc1_W) [0..<20] (0x5bcf7727, 0x7327416a, 0xbe7bfbf9, 0x5a781878, 0x5e46a4e2)
   = (0x2a008b51, 0x2f193a09, 0x9c8663c1, 0x8eb5d103, 0x261b7c9a)"
  by code_simp

lemma rfc1_r1:
  "fold (sha_round rfc1_W) [20..<40] (0x2a008b51, 0x2f193a09, 0x9c8663c1, 0x8eb5d103, 0x261b7c9a)
   = (0x6f698f1a, 0xc6ff0cd3, 0xde5ab7bc, 0x5f6f3cbb, 0x1da48a85)"
  by code_simp

lemma rfc1_r2:
  "fold (sha_round rfc1_W) [40..<60] (0x6f698f1a, 0xc6ff0cd3, 0xde5ab7bc, 0x5f6f3cbb, 0x1da48a85)
   = (0x56119f19, 0x085eb2fe, 0x484a25c5, 0xc140cfe8, 0x686da050)"
  by code_simp

lemma rfc1_r3:
  "fold (sha_round rfc1_W) [60..<80] (0x56119f19, 0x085eb2fe, 0x484a25c5, 0xc140cfe8, 0x686da050)
   = (0x57aad805, 0x4d3b0dac, 0xd27a4a0d, 0x74c040cd, 0x54782008)"
  by code_simp

lemma rfc1_length: "length rfc1_block = 64" by simp

lemma rfc1_words: "sha_words rfc1_block = rfc1_W"
proof -
  have "map shs_reverse (md_Decode rfc1_block) = [0, 0, 0, 0, 0, 0, 0, 0,
     0, 0, 0, 0, 0, 0, 0, 0x000001e0]" by code_simp
  then show ?thesis
    unfolding sha_words_def sha_block_words [OF rfc1_length]
    by (simp only: sha_upto_80 fold_append comp_apply rfc1_w16 rfc1_w32 rfc1_w48 rfc1_w64)
qed

lemma rfc1_compress: "sha_compress [0x5bcf7727, 0x7327416a, 0xbe7bfbf9, 0x5a781878, 0x5e46a4e2] rfc1_block = [0xb37a4f2c, 0xc0624f16, 0x90f64606, 0xcf385945, 0xb2bec4ea]"
  by (simp add: sha_compress_def rfc1_words sha_rounds_80 rfc1_r0 rfc1_r1 rfc1_r2 rfc1_r3 del: upt_rec_numeral fold_simps)

definition rfc_message :: "byte list" where
  "rfc_message =
    [100, 71, 104, 108, 73, 72, 78, 104, 98, 88, 66, 115, 90, 83, 66, 117, 98, 50, 53, 106, 90, 81, 61, 61,
     50, 53, 56, 69, 65, 70, 65, 53, 45, 69, 57, 49, 52, 45, 52, 55, 68, 65, 45, 57, 53, 67, 65, 45, 67, 53, 65, 66, 48, 68, 67, 56, 53, 66, 49, 49]"

lemma sha1_rfc:
  "sha1_hash rfc_message = [179, 122, 79, 44, 192, 98, 79, 22, 144, 246, 70, 6, 207, 56, 89, 69, 178, 190, 196, 234]"
proof -
  have p: "shs_pad rfc_message = rfc0_block @ rfc1_block" by code_simp
  have s: "blk_loop 64 sha_compress s (b @ r) = blk_loop 64 sha_compress (sha_compress s b) r" if "length b = 64" for s b r
    using that by (subst blk_loop.simps) simp
  have e: "blk_loop 64 sha_compress s b = (sha_compress s b, [])" if "length b = 64" for s b
    using s [OF that, of s "[]"] by (simp add: md_blk.blk_loop_short)
  have "fst (blk_loop 64 sha_compress sha_start (shs_pad rfc_message)) = sha_compress (sha_compress sha_start rfc0_block) rfc1_block"
    unfolding p s [OF rfc0_length] e [OF rfc1_length] by simp
  also have "\<dots> = [0xb37a4f2c, 0xc0624f16, 0x90f64606, 0xcf385945, 0xb2bec4ea]"
    unfolding rfc0_compress by (rule rfc1_compress)
  finally have "sha1_hash rfc_message = shs_Encode [0xb37a4f2c, 0xc0624f16, 0x90f64606, 0xcf385945, 0xb2bec4ea]" unfolding sha1_hash_def by (rule arg_cong)
  also have "\<dots> = [179, 122, 79, 44, 192, 98, 79, 22, 144, 246, 70, 6, 207, 56, 89, 69, 178, 190, 196, 234]"
    by code_simp
  finally show ?thesis .
qed

end
