(* ===== verification/Base64.thy ===== *)
theory Base64
  imports R_Encode
begin

text \<open>
  \<^verbatim>\<open>QBase/Base64.cpp\<close>: \<^verbatim>\<open>CBase64\<close>. The arrays \<^verbatim>\<open>char_array_3\<close> and \<^verbatim>\<open>char_array_4\<close> are lists of the bytes filled so far, so that the
  index \<^verbatim>\<open>i\<close> is their length. Characters are bytes.
\<close>

section \<open>Encoding\<close>

definition base64_chars :: "byte list" where
  "base64_chars = map of_char ''ABCDEFGHIJKLMNOPQRSTUVWXYZabcdefghijklmnopqrstuvwxyz0123456789+/''"

definition b64_split :: "byte list \<Rightarrow> byte list" where
  "b64_split a =
     [drop_bit 2 (a ! 0 AND 0xfc), push_bit 4 (a ! 0 AND 0x03) + drop_bit 4 (a ! 1 AND 0xf0),
      push_bit 2 (a ! 1 AND 0x0f) + drop_bit 6 (a ! 2 AND 0xc0), a ! 2 AND 0x3f]"

fun b64_encode_loop :: "byte list \<Rightarrow> byte list \<Rightarrow> byte list \<Rightarrow> byte list \<times> byte list" where
  "b64_encode_loop [] char_array_3 ret = (char_array_3, ret)"
| "b64_encode_loop (x # pszData) char_array_3 ret =
     (let char_array_3 = char_array_3 @ [x]
      in if length char_array_3 = 3
         then b64_encode_loop pszData [] (ret @ map (\<lambda>c. base64_chars ! unat c) (b64_split char_array_3))
         else b64_encode_loop pszData char_array_3 ret)"

definition base64_Encode :: "byte list \<Rightarrow> byte list" where
  "base64_Encode pszData =
     (case b64_encode_loop pszData [] [] of (char_array_3, ret) \<Rightarrow>
      let i = length char_array_3
      in if i = 0 then ret
         else ret @ map (\<lambda>c. base64_chars ! unat c) (take (i + 1) (b64_split (char_array_3 @ replicate (3 - i) 0))) @ replicate (3 - i) 61)"

section \<open>Decoding\<close>

text \<open>\<^verbatim>\<open>find\<close>, cut to a byte: \<^verbatim>\<open>npos\<close> becomes 255.\<close>

fun find_char :: "byte \<Rightarrow> byte list \<Rightarrow> byte \<Rightarrow> byte" where
  "find_char c [] i = 255"
| "find_char c (x # xs) i = (if x = c then i else find_char c xs (i + 1))"

definition is_base64 :: "byte \<Rightarrow> bool" where
  "is_base64 c \<longleftrightarrow> (48 \<le> c \<and> c \<le> 57) \<or> (65 \<le> c \<and> c \<le> 90) \<or> (97 \<le> c \<and> c \<le> 122) \<or> c = 43 \<or> c = 47"

definition b64_join :: "byte list \<Rightarrow> byte list" where
  "b64_join c =
     (let a = map (\<lambda>x. find_char x base64_chars 0) c
      in [push_bit 2 (a ! 0) + drop_bit 4 (a ! 1 AND 0x30), push_bit 4 (a ! 1 AND 0xf) + drop_bit 2 (a ! 2 AND 0x3c),
          push_bit 6 (a ! 2 AND 0x3) + a ! 3])"

fun b64_decode_loop :: "byte list \<Rightarrow> byte list \<Rightarrow> byte list \<Rightarrow> byte list \<times> byte list" where
  "b64_decode_loop [] char_array_4 ret = (char_array_4, ret)"
| "b64_decode_loop (x # strEncoded) char_array_4 ret =
     (if x \<noteq> 61 \<and> is_base64 x
      then (let char_array_4 = char_array_4 @ [x]
            in if length char_array_4 = 4 then b64_decode_loop strEncoded [] (ret @ b64_join char_array_4)
               else b64_decode_loop strEncoded char_array_4 ret)
      else (char_array_4, ret))"

definition base64_Decode :: "byte list \<Rightarrow> byte list" where
  "base64_Decode strEncoded =
     (case b64_decode_loop strEncoded [] [] of (char_array_4, ret) \<Rightarrow>
      let i = length char_array_4
      in if i = 0 then ret else ret @ take (i - 1) (b64_join (char_array_4 @ replicate (4 - i) 0)))"

section \<open>Bits\<close>

lemma base64_chars_table: "base64_chars = bintoasc"
  by (simp add: base64_chars_def bintoasc_def)

lemma byte_bits: "n < 8 \<Longrightarrow> n = 0 \<or> n = 1 \<or> n = 2 \<or> n = 3 \<or> n = 4 \<or> n = 5 \<or> n = 6 \<or> n = 7" for n :: nat
  by linarith

lemma b64_sums:
  fixes x y z :: byte
  shows "push_bit 4 (x AND 0x03) + drop_bit 4 (y AND 0xf0) = (push_bit 4 x AND 48) OR (drop_bit 4 y AND 15)"
    "push_bit 2 (y AND 0x0f) + drop_bit 6 (z AND 0xc0) = (push_bit 2 y AND 60) OR (drop_bit 6 z AND 3)"
    "drop_bit 2 (x AND 0xfc) = drop_bit 2 x"
proof -
  have d: "push_bit 4 (x AND 0x03) AND drop_bit 4 (y AND 0xf0) = 0" "push_bit 2 (y AND 0x0f) AND drop_bit 6 (z AND 0xc0) = 0"
    by (rule bit_word_eqI; auto simp: bit_simps dest!: byte_bits dest: bit_imp_le_length)+
  show "push_bit 4 (x AND 0x03) + drop_bit 4 (y AND 0xf0) = (push_bit 4 x AND 48) OR (drop_bit 4 y AND 15)"
    unfolding disjunctive_add_eq_or [OF d(1)]
    by (rule bit_word_eqI) (auto simp: bit_simps dest!: byte_bits dest: bit_imp_le_length)
  show "push_bit 2 (y AND 0x0f) + drop_bit 6 (z AND 0xc0) = (push_bit 2 y AND 60) OR (drop_bit 6 z AND 3)"
    unfolding disjunctive_add_eq_or [OF d(2)]
    by (rule bit_word_eqI) (auto simp: bit_simps dest!: byte_bits dest: bit_imp_le_length)
  show "drop_bit 2 (x AND 0xfc) = drop_bit 2 x"
    by (rule bit_word_eqI) (auto simp: bit_simps dest!: byte_bits dest: bit_imp_le_length)
qed

lemma b64_joins:
  fixes a b c d :: byte
  assumes "a AND 63 = a" "b AND 63 = b" "c AND 63 = c" "d AND 63 = d"
  shows "push_bit 2 a + drop_bit 4 (b AND 0x30) = push_bit 2 a OR drop_bit 4 b"
    "push_bit 4 (b AND 0xf) + drop_bit 2 (c AND 0x3c) = push_bit 4 b OR drop_bit 2 c"
    "push_bit 6 (c AND 0x3) + d = push_bit 6 c OR d"
proof -
  have h: "\<And>n. bit b n \<Longrightarrow> n < 6" "\<And>n. bit c n \<Longrightarrow> n < 6" "\<And>n. bit d n \<Longrightarrow> n < 6"
    using assms(2-4) unfolding and63 by (metis bit_take_bit_iff)+
  have d: "push_bit 2 a AND drop_bit 4 (b AND 0x30) = 0" "push_bit 4 (b AND 0xf) AND drop_bit 2 (c AND 0x3c) = 0"
      "push_bit 6 (c AND 0x3) AND d = 0"
    by (rule bit_word_eqI; auto simp: bit_simps dest!: byte_bits dest: bit_imp_le_length h)+
  show "push_bit 2 a + drop_bit 4 (b AND 0x30) = push_bit 2 a OR drop_bit 4 b"
    unfolding disjunctive_add_eq_or [OF d(1)]
    by (rule bit_word_eqI) (auto simp: bit_simps dest!: byte_bits dest: bit_imp_le_length h)
  show "push_bit 4 (b AND 0xf) + drop_bit 2 (c AND 0x3c) = push_bit 4 b OR drop_bit 2 c"
    unfolding disjunctive_add_eq_or [OF d(2)]
    by (rule bit_word_eqI) (auto simp: bit_simps dest!: byte_bits dest: bit_imp_le_length h)
  show "push_bit 6 (c AND 0x3) + d = push_bit 6 c OR d"
    unfolding disjunctive_add_eq_or [OF d(3)]
    by (rule bit_word_eqI) (auto simp: bit_simps dest!: byte_bits dest: bit_imp_le_length h)
qed

section \<open>Encoding as in the other library\<close>

lemma ENC_small: "c AND 63 = c \<Longrightarrow> base64_chars ! unat c = ENC c"
  by (simp add: ENC_def base64_chars_table)

lemma b64_small:
  fixes x y z :: byte
  shows "drop_bit 2 x AND 63 = drop_bit 2 x" "((push_bit 4 x AND 48) OR (drop_bit 4 y AND 15)) AND 63 = (push_bit 4 x AND 48) OR (drop_bit 4 y AND 15)"
    "((push_bit 2 y AND 60) OR (drop_bit 6 z AND 3)) AND 63 = (push_bit 2 y AND 60) OR (drop_bit 6 z AND 3)" "(z AND 63) AND 63 = z AND 63"
  by (rule bit_word_eqI; auto simp: bit_simps dest!: byte_bits dest: bit_imp_le_length)+

lemma b64_group:
  "map (\<lambda>c. base64_chars ! unat c) (b64_split [p0, p1, p2])
     = [ENC (drop_bit 2 p0), ENC ((push_bit 4 p0 AND 48) OR (drop_bit 4 p1 AND 15)), ENC ((push_bit 2 p1 AND 60) OR (drop_bit 6 p2 AND 3)), ENC (p2 AND 63)]"
proof -
  have n: "[p0, p1, p2] ! 0 = p0" "[p0, p1, p2] ! 1 = p1" "[p0, p1, p2] ! 2 = p2" by simp_all
  show ?thesis unfolding b64_split_def n b64_sums by (simp add: ENC_small b64_small)
qed

lemma b64_groups:
  "map (\<lambda>c. base64_chars ! unat c) (b64_split [p0, p1, p2]) = pem_encode p0 p1 p2 3"
  "map (\<lambda>c. base64_chars ! unat c) (take 3 (b64_split [p0, p1, p2])) @ [61] = pem_encode p0 p1 p2 2"
  "map (\<lambda>c. base64_chars ! unat c) (take 2 (b64_split [p0, p1, p2])) @ [61, 61] = pem_encode p0 p1 p2 1"
  by (simp_all add: take_map [symmetric] b64_group pem_encode_def PEM_PAD_def del: take_map)

definition b64_finish :: "byte list \<times> byte list \<Rightarrow> byte list" where
  "b64_finish s =
     (case s of (char_array_3, ret) \<Rightarrow>
      let i = length char_array_3
      in if i = 0 then ret
         else ret @ map (\<lambda>c. base64_chars ! unat c) (take (i + 1) (b64_split (char_array_3 @ replicate (3 - i) 0))) @ replicate (3 - i) 61)"

lemma b64_encode_loop_val: "b64_finish (b64_encode_loop xs [] ret) = ret @ pem_encode_loop (length xs) (xs @ [0, 0])"
proof (induction "length xs" arbitrary: xs ret rule: less_induct)
  case less
  consider "xs = []" | a where "xs = [a]" | a b where "xs = [a, b]" | a b c ys where "xs = a # b # c # ys"
    by (metis list.exhaust)
  then show ?case
  proof cases
    case 4
    then show ?thesis using less [of ys "ret @ pem_encode a b c 3"] b64_groups(1) [of a b c]
      by (simp add: numeral_3_eq_3)
  next
    case 3
    then show ?thesis using b64_groups(2) [of a b 0] by (simp add: b64_finish_def numeral_2_eq_2 numeral_3_eq_3)
  next
    case 2
    then show ?thesis using b64_groups(3) [of a 0 0] by (simp add: b64_finish_def numeral_2_eq_2 numeral_3_eq_3)
  qed (simp add: b64_finish_def)
qed

lemma base64_Encode_PEM: "base64_Encode xs = R_EncodePEMBlock xs [0, 0]"
  using b64_encode_loop_val [of xs "[]"] by (cases xs) (simp_all add: base64_Encode_def b64_finish_def R_EncodePEMBlock_def)

section \<open>Decoding\<close>

lemma b64_tables:
  assumes "n < 64"
  shows "find_char (bintoasc ! n) bintoasc 0 = of_nat n" "is_base64 (bintoasc ! n)" "bintoasc ! n \<noteq> 61"
proof -
  have "list_all (\<lambda>n. find_char (bintoasc ! n) bintoasc 0 = of_nat n \<and> is_base64 (bintoasc ! n) \<and> bintoasc ! n \<noteq> 61) [0..<64]" by code_simp
  then show "find_char (bintoasc ! n) bintoasc 0 = of_nat n" "is_base64 (bintoasc ! n)" "bintoasc ! n \<noteq> 61"
    using assms by (auto simp: list_all_iff)
qed

lemma ENC_find: "find_char (ENC c) base64_chars 0 = c AND 63" "is_base64 (ENC c)" "ENC c \<noteq> 61"
proof -
  have "unat (c AND 63) = unat c mod 64" unfolding and63 unsigned_take_bit_eq by (simp add: take_bit_eq_mod)
  then have u: "unat (c AND 63) < 64" by simp
  show "find_char (ENC c) base64_chars 0 = c AND 63" "is_base64 (ENC c)" "ENC c \<noteq> 61"
    using b64_tables [OF u] by (simp_all add: ENC_def base64_chars_table)
qed

lemma b64_join_ENC:
  assumes "a AND 63 = a" "b AND 63 = b" "c AND 63 = c" "d AND 63 = d"
  shows "b64_join [ENC a, ENC b, ENC c, ENC d] = [push_bit 2 a OR drop_bit 4 b, push_bit 4 b OR drop_bit 2 c, push_bit 6 c OR d]"
    "take 2 (b64_join [ENC a, ENC b, ENC c, x]) = [push_bit 2 a OR drop_bit 4 b, push_bit 4 b OR drop_bit 2 c]"
    "take 1 (b64_join [ENC a, ENC b, y, x]) = [push_bit 2 a OR drop_bit 4 b]"
  by (simp_all add: b64_join_def ENC_find assms b64_joins [OF assms, simplified])

lemma b64_join_group:
  fixes p0 p1 p2 :: byte
  defines "a \<equiv> drop_bit 2 p0" and "b \<equiv> (push_bit 4 p0 AND 48) OR (drop_bit 4 p1 AND 15)" and "c \<equiv> (push_bit 2 p1 AND 60) OR (drop_bit 6 p2 AND 3)"
    and "d \<equiv> p2 AND 63"
  shows "b64_join [ENC a, ENC b, ENC c, ENC d] = [p0, p1, p2]" "take 2 (b64_join [ENC a, ENC b, ENC c, x]) = [p0, p1]"
    "take 1 (b64_join [ENC a, ENC b, y, x]) = [p0]"
proof -
  have small: "a AND 63 = a" "b AND 63 = b" "c AND 63 = c" "d AND 63 = d" unfolding a_def b_def c_def d_def by (rule b64_small)+
  have p: "push_bit 2 a OR drop_bit 4 b = p0" "push_bit 4 b OR drop_bit 2 c = p1" "push_bit 6 c OR d = p2"
    using pem_bits(1) [of p0 p1] pem_bits(2) [of p0 p1 p2] pem_bits(3) [of p1 p2] unfolding b64_small and.assoc [symmetric]
    unfolding a_def b_def c_def d_def b64_small by simp_all
  show "b64_join [ENC a, ENC b, ENC c, ENC d] = [p0, p1, p2]" "take 2 (b64_join [ENC a, ENC b, ENC c, x]) = [p0, p1]"
    "take 1 (b64_join [ENC a, ENC b, y, x]) = [p0]"
    unfolding b64_join_ENC [OF small] p by (rule refl)+
qed

lemma b64_decode_step:
  "b64_decode_loop (ENC a # ENC b # ENC c # ENC d # rest) [] ret = b64_decode_loop rest [] (ret @ b64_join [ENC a, ENC b, ENC c, ENC d])"
  "b64_decode_loop [ENC a, ENC b, ENC c, 61] [] ret = ([ENC a, ENC b, ENC c], ret)"
  "b64_decode_loop [ENC a, ENC b, 61, 61] [] ret = ([ENC a, ENC b], ret)"
  by (simp_all add: ENC_find)

definition b64_take :: "byte list \<times> byte list \<Rightarrow> byte list" where
  "b64_take s =
     (case s of (char_array_4, ret) \<Rightarrow>
      let i = length char_array_4 in if i = 0 then ret else ret @ take (i - 1) (b64_join (char_array_4 @ replicate (4 - i) 0)))"

lemma b64_decode_val: "b64_take (b64_decode_loop (pem_encode_loop (length xs) (xs @ [0, 0])) [] ret) = ret @ xs"
proof (induction "length xs" arbitrary: xs ret rule: less_induct)
  case less
  consider "xs = []" | a where "xs = [a]" | a b where "xs = [a, b]" | a b c ys where "xs = a # b # c # ys"
    by (metis list.exhaust)
  then show ?case
  proof cases
    case 4
    then show ?thesis using less [of ys "ret @ [a, b, c]"] b64_join_group(1) [of a b c] b64_groups(1) [of a b c, symmetric]
      by (simp add: numeral_3_eq_3 b64_group b64_decode_step(1) del: b64_decode_loop.simps)
  next
    case 3
    then show ?thesis using b64_join_group(2) [where ?p0.0 = a and ?p1.0 = b and ?p2.0 = 0 and x = 0]
      by (simp add: numeral_2_eq_2 numeral_3_eq_3 pem_encode_def PEM_PAD_def b64_take_def ENC_find)
  next
    case 2
    then show ?thesis using b64_join_group(3) [where ?p0.0 = a and ?p1.0 = 0 and y = 0 and x = 0]
      by (simp add: numeral_2_eq_2 numeral_3_eq_3 pem_encode_def PEM_PAD_def b64_take_def ENC_find)
  qed (simp add: b64_take_def)
qed

lemma base64_Decode_Encode: "base64_Decode (base64_Encode xs) = xs"
  using b64_decode_val [of xs "[]"] unfolding base64_Encode_PEM
  by (cases xs) (simp_all add: base64_Decode_def b64_take_def R_EncodePEMBlock_def)

text \<open>
  C27. Every string of bytes survives \<^verbatim>\<open>CBase64\<close>, and its encoding is, character by character, that of the encoder of \<^verbatim>\<open>RSAEuro\<close> on a
  block followed by zeros.
\<close>

theorem base64_roundtrip:
  "base64_Decode (base64_Encode xs) = xs \<and> base64_Encode xs = R_EncodePEMBlock xs [0, 0]"
  using base64_Decode_Encode base64_Encode_PEM by blast

end
