(* ===== verification/QString.thy ===== *)
theory QString
  imports QS_Prelude "HOL-Library.Sublist"
begin

text \<open>
  \<^verbatim>\<open>QBase/QString.cpp\<close>: string routines. A \<^verbatim>\<open>std::string\<close> is a list of bytes; of the routines that exist for \<^verbatim>\<open>char *\<close> too, with the same
  body, the ones for \<^verbatim>\<open>std::string\<close> are here.
\<close>

section \<open>Case\<close>

definition toupper :: "byte \<Rightarrow> byte" where "toupper c = (if 97 \<le> c \<and> c \<le> 122 then c - 32 else c)"
definition tolower :: "byte \<Rightarrow> byte" where "tolower c = (if 65 \<le> c \<and> c \<le> 90 then c + 32 else c)"

definition Q_Convert2Upper :: "byte list \<Rightarrow> byte list" where "Q_Convert2Upper strWord = map toupper strWord"
definition Q_Convert2Lower :: "byte list \<Rightarrow> byte list" where "Q_Convert2Lower strWord = map tolower strWord"

text \<open>\<^verbatim>\<open>Q_Strcasecmp\<close> is \<^verbatim>\<open>strcasecmp\<close>, here only whether it returns 0. A C string ends at the first zero byte.\<close>

definition c_str :: "byte list \<Rightarrow> byte list" where "c_str s = takeWhile (\<lambda>c. c \<noteq> 0) s"

definition same_nocase :: "byte list \<Rightarrow> byte list \<Rightarrow> bool" where
  "same_nocase s t \<longleftrightarrow> map tolower (c_str s) = map tolower (c_str t)"

section \<open>Reversing and rotating in place\<close>

text \<open>The loop exchanges two characters by adding and subtracting them.\<close>

definition swap_sum :: "byte list \<Rightarrow> nat \<Rightarrow> nat \<Rightarrow> byte list" where
  "swap_sum s i j =
     (let s = s[i := s ! i + s ! j]; s = s[j := s ! i - s ! j] in s[i := s ! i - s ! j])"

function reverse_loop :: "byte list \<Rightarrow> nat \<Rightarrow> nat \<Rightarrow> byte list" where
  "reverse_loop s iBgTmp iEndTmp = (if iBgTmp < iEndTmp then reverse_loop (swap_sum s iBgTmp iEndTmp) (iBgTmp + 1) (iEndTmp - 1) else s)"
  by pat_completeness auto
termination by (relation "measure (\<lambda>(s, i, j). j - i)") auto

declare reverse_loop.simps [simp del]

definition Q_ReverseStr :: "byte list \<Rightarrow> nat \<Rightarrow> nat \<Rightarrow> byte list" where
  "Q_ReverseStr strWord iBg iEnd =
     (if 1 \<ge> length strWord then strWord
      else let iLens = length strWord;
               iBgTmp = (if iBg \<ge> iLens then iLens - 1 else iBg);
               iEndTmp = (if iEnd \<ge> iLens then iLens - 1 else iEnd)
           in if iBgTmp \<ge> iEndTmp then strWord else reverse_loop strWord iBgTmp iEndTmp)"

definition Q_MoveN2Before :: "byte list \<Rightarrow> nat \<Rightarrow> byte list" where
  "Q_MoveN2Before strWord n =
     (let iLens = length strWord
      in if n \<ge> iLens \<or> 0 = n \<or> 0 = iLens then strWord
         else Q_ReverseStr (Q_ReverseStr (Q_ReverseStr strWord 0 (iLens - n - 1)) (iLens - n) (iLens - 1)) 0 (iLens - 1))"

section \<open>Trimming\<close>

definition Q_TrimAll :: "byte list \<Rightarrow> byte list" where
  "Q_TrimAll strSource = filter (\<lambda>c. \<not> (32 = c \<or> 10 = c \<or> 13 = c \<or> 9 = c)) strSource"

fun Q_TrimLeft :: "byte list \<Rightarrow> byte list" where
  "Q_TrimLeft [] = []"
| "Q_TrimLeft (c # s) = (if 32 = c \<or> 10 = c \<or> 13 = c then Q_TrimLeft s else c # s)"

text \<open>\<open>trim_count\<close> is \<^verbatim>\<open>iFlag\<close> after the loop over the string from its end.\<close>

fun trim_count :: "byte list \<Rightarrow> nat" where
  "trim_count [] = 0"
| "trim_count (c # s) = (if 32 \<noteq> c \<and> 10 \<noteq> c \<and> 13 \<noteq> c then 0 else trim_count s + 1)"

definition Q_TrimRight :: "byte list \<Rightarrow> byte list" where
  "Q_TrimRight strSource =
     (let iFlag = trim_count (rev strSource); iSize = length strSource
      in if strSource = [] then strSource else if iFlag = 0 then strSource
         else if iSize = iFlag then [] else take (iSize - iFlag) strSource)"

definition Q_Trim :: "byte list \<Rightarrow> byte list" where "Q_Trim strSource = Q_TrimLeft (Q_TrimRight strSource)"

section \<open>Searching, splitting and replacing\<close>

text \<open>\<^verbatim>\<open>find\<close>: the first position where a string occurs; \<open>None\<close> is \<^verbatim>\<open>npos\<close>.\<close>

fun str_find :: "byte list \<Rightarrow> byte list \<Rightarrow> nat option" where
  "str_find pat [] = (if pat = [] then Some 0 else None)"
| "str_find pat (c # s) = (if prefix pat (c # s) then Some 0 else map_option Suc (str_find pat s))"

lemma str_find_Some:
  "str_find pat s = Some i \<Longrightarrow> i + length pat \<le> length s \<and> s = take i s @ pat @ drop (i + length pat) s"
proof (induction pat s arbitrary: i rule: str_find.induct)
  case (2 pat c s)
  show ?case
  proof (cases "prefix pat (c # s)")
    case True
    then show ?thesis using 2(2) prefix_length_le [OF True] by (auto simp: prefix_def)
  next
    case False
    then show ?thesis using 2 by auto
  qed
qed (auto split: if_splits)

text \<open>The loop of \<^verbatim>\<open>Q_Split\<close>, for a separator \<open>f # flag\<close> that is not empty.\<close>

function split_loop :: "byte \<Rightarrow> byte list \<Rightarrow> byte list \<Rightarrow> byte list list" where
  "split_loop f flag strTmp =
     (case str_find (f # flag) strTmp of
        None \<Rightarrow> [strTmp]
      | Some loc \<Rightarrow> take loc strTmp # split_loop f flag (drop (loc + length (f # flag)) strTmp))"
  by pat_completeness auto
termination by (relation "measure (\<lambda>(f, flag, s). length s)") (auto dest: str_find_Some)

declare split_loop.simps [simp del]

definition Q_Split :: "byte list \<Rightarrow> byte list \<Rightarrow> byte list list" where
  "Q_Split strSource pszFlag =
     (case pszFlag of [] \<Rightarrow> [] | f # flag \<Rightarrow> if strSource = [] then [] else split_loop f flag strSource)"

definition Q_GetFrontOfFlag :: "byte list \<Rightarrow> byte list \<Rightarrow> byte list" where
  "Q_GetFrontOfFlag strSource pszFlag = takeWhile (\<lambda>c. c \<notin> set pszFlag) strSource"

text \<open>The loop of \<^verbatim>\<open>Q_Replace\<close> from position \<open>pos\<close> on; with an empty flag it need not end.\<close>

partial_function (option) replace_loop :: "byte list \<Rightarrow> byte list \<Rightarrow> nat \<Rightarrow> byte list \<Rightarrow> byte list option" where
  "replace_loop pszFlag pszReFlag pos strSource =
     (case (if pos \<le> length strSource then str_find pszFlag (drop pos strSource) else None) of
        None \<Rightarrow> Some strSource
      | Some i \<Rightarrow> replace_loop pszFlag pszReFlag (pos + i + length pszReFlag)
                    (take (pos + i) strSource @ pszReFlag @ drop (pos + i + length pszFlag) strSource))"

definition Q_Replace :: "byte list \<Rightarrow> byte list \<Rightarrow> byte list \<Rightarrow> byte list option" where
  "Q_Replace strSource pszFlag pszReFlag = replace_loop pszFlag pszReFlag 0 strSource"

partial_function (option) Q_Replace_Depth :: "byte list \<Rightarrow> byte list \<Rightarrow> byte list \<Rightarrow> byte list option" where
  "Q_Replace_Depth pszFlag pszReFlag strSource =
     (case str_find pszFlag strSource of
        None \<Rightarrow> Some strSource
      | Some pos \<Rightarrow> Q_Replace_Depth pszFlag pszReFlag (take pos strSource @ pszReFlag @ drop (pos + length pszFlag) strSource))"

section \<open>Rotation\<close>

lemma swap_sum_eq: "i \<noteq> j \<Longrightarrow> i < length s \<Longrightarrow> j < length s \<Longrightarrow> swap_sum s i j = s[i := s ! j, j := s ! i]"
  by (simp add: swap_sum_def Let_def list_update_swap)

lemma reverse_loop_nth:
  assumes "j < length s" "k < length s"
  shows "length (reverse_loop s i j) = length s \<and> reverse_loop s i j ! k = (if i \<le> k \<and> k \<le> j then s ! (i + j - k) else s ! k)"
  using assms
proof (induction s i j rule: reverse_loop.induct)
  case (1 s i j)
  show ?case
  proof (cases "i < j")
    case True
    let ?s = "s[i := s ! j, j := s ! i]"
    have sw: "swap_sum s i j = ?s" using True 1(2) by (simp add: swap_sum_eq)
    have ih: "length (reverse_loop ?s (i + 1) (j - 1)) = length s"
        "reverse_loop ?s (i + 1) (j - 1) ! k = (if i + 1 \<le> k \<and> k \<le> j - 1 then ?s ! (i + 1 + (j - 1) - k) else ?s ! k)"
      using 1(1) [OF True] 1(2,3) True unfolding sw by simp_all
    have e: "reverse_loop s i j = reverse_loop ?s (i + 1) (j - 1)" using True sw by (subst reverse_loop.simps) simp
    consider "k < i" | "k = i" | "i < k" "k < j" | "k = j" | "j < k" by linarith
    then show ?thesis unfolding e using ih True 1(2,3) by cases (auto simp: nth_list_update)
  next
    case False
    then show ?thesis using 1(2,3) by (subst (1 2) reverse_loop.simps) (auto dest: le_antisym)
  qed
qed

lemma Q_ReverseStr_nth:
  assumes "iBg \<le> iEnd" "iEnd < length s" "k < length s"
  shows "length (Q_ReverseStr s iBg iEnd) = length s \<and> Q_ReverseStr s iBg iEnd ! k = (if iBg \<le> k \<and> k \<le> iEnd then s ! (iBg + iEnd - k) else s ! k)"
  using reverse_loop_nth [of iEnd s k iBg] assms by (auto simp: Q_ReverseStr_def Let_def dest: le_antisym)

lemma Q_ReverseStr_length [simp]: "iBg \<le> iEnd \<Longrightarrow> iEnd < length s \<Longrightarrow> length (Q_ReverseStr s iBg iEnd) = length s"
  using Q_ReverseStr_nth [of iBg iEnd s iEnd] by simp

lemma Q_MoveN2Before_eq: "Q_MoveN2Before s n = (if n < length s then drop (length s - n) s @ take (length s - n) s else s)"
proof (cases "0 < n \<and> n < length s")
  case True
  let ?l = "length s"
  let ?a = "Q_ReverseStr s 0 (?l - n - 1)"
  let ?b = "Q_ReverseStr ?a (?l - n) (?l - 1)"
  have la: "length ?a = ?l" using True by (intro Q_ReverseStr_length) auto
  have lb: "length ?b = ?l" using Q_ReverseStr_length [of "?l - n" "?l - 1" ?a] True unfolding la by linarith
  have e: "Q_MoveN2Before s n = Q_ReverseStr ?b 0 (?l - 1)" using True by (auto simp: Q_MoveN2Before_def Let_def)
  have a: "?a ! k = (if k < ?l - n then s ! (?l - n - 1 - k) else s ! k)" if "k < ?l" for k
    using Q_ReverseStr_nth [of 0 "?l - n - 1" s k] True that by auto
  have b: "?b ! k = (if k < ?l - n then s ! (?l - n - 1 - k) else s ! (?l - n + (?l - 1) - k))" if "k < ?l" for k
    using Q_ReverseStr_nth [of "?l - n" "?l - 1" ?a k] True that la a [of k] a [of "?l - n + (?l - 1) - k"] by auto
  have "Q_ReverseStr ?b 0 (?l - 1) ! k = (drop (?l - n) s @ take (?l - n) s) ! k" if "k < ?l" for k
  proof -
    have "Q_ReverseStr ?b 0 (?l - 1) ! k = ?b ! (?l - 1 - k)"
      using Q_ReverseStr_nth [of 0 "?l - 1" ?b k] True that lb by auto
    also have "\<dots> = (if k < n then s ! (?l - n + k) else s ! (k - n))"
      using b [of "?l - 1 - k"] True that by (auto intro!: arg_cong [of _ _ "(!) s"])
    finally show ?thesis using True that by (auto simp: nth_append)
  qed
  then show ?thesis unfolding e using True lb Q_ReverseStr_length [of 0 "?l - 1" ?b] by (auto intro!: nth_equalityI)
qed (auto simp: Q_MoveN2Before_def Let_def)

section \<open>Splitting\<close>

fun join :: "byte list \<Rightarrow> byte list list \<Rightarrow> byte list" where
  "join flag [] = []"
| "join flag [x] = x"
| "join flag (x # xs) = x @ flag @ join flag xs"

lemma str_find_None: "str_find pat s = None \<longleftrightarrow> \<not> sublist pat s"
  by (induction pat s rule: str_find.induct) (auto simp: sublist_Cons_right)

lemma str_find_first: "str_find pat s = Some i \<Longrightarrow> pat \<noteq> [] \<Longrightarrow> j < i \<Longrightarrow> \<not> prefix pat (drop j s)"
proof (induction pat s arbitrary: i j rule: str_find.induct)
  case (2 pat c s)
  then show ?case by (cases j) (auto split: if_splits)
qed auto

lemma take_no_flag:
  assumes "str_find pat s = Some i" "pat \<noteq> []"
  shows "\<not> sublist pat (take i s)"
proof
  assume "sublist pat (take i s)"
  then obtain ps ss where e: "take i s = ps @ pat @ ss" by (auto simp: sublist_def)
  then have j: "length ps < i" using assms(2) by (metis length_append length_take add_less_cancel_left length_greater_0_conv less_add_same_cancel1 min_less_iff_conj trans_less_add1)
  have "drop (length ps) s = pat @ ss @ drop i s" using e append_take_drop_id [of i s] by (metis append.assoc append_eq_conv_conj)
  then have "prefix pat (drop (length ps) s)" by simp
  then show False using str_find_first [OF assms j] by simp
qed

lemma split_loop_join:
  "join (f # flag) (split_loop f flag s) = s \<and> split_loop f flag s \<noteq> [] \<and> (\<forall>x \<in> set (split_loop f flag s). \<not> sublist (f # flag) x)"
proof (induction f flag s rule: split_loop.induct)
  case (1 f flag s)
  show ?case
  proof (cases "str_find (f # flag) s")
    case None
    then have "split_loop f flag s = [s]" by (subst split_loop.simps) simp
    then show ?thesis using None by (simp add: str_find_None)
  next
    case (Some i)
    let ?r = "split_loop f flag (drop (i + length (f # flag)) s)"
    have e: "split_loop f flag s = take i s # ?r" using Some by (subst split_loop.simps) simp
    note ih = 1 [OF Some]
    have "join (f # flag) (take i s # ?r) = take i s @ (f # flag) @ join (f # flag) ?r" using ih by (cases ?r) simp_all
    also have "\<dots> = s" using ih str_find_Some [OF Some] by simp
    finally show ?thesis unfolding e using ih take_no_flag [OF Some] by simp
  qed
qed

text \<open>
  \<^verbatim>\<open>Q_Split\<close> cuts a string at every occurrence of the separator, taken from the left: put together with the separator in between, the pieces are
  the string again, and no piece holds the separator.
\<close>

theorem Q_Split_join:
  assumes "pszFlag \<noteq> []" "strSource \<noteq> []"
  shows "join pszFlag (Q_Split strSource pszFlag) = strSource \<and> (\<forall>x \<in> set (Q_Split strSource pszFlag). \<not> sublist pszFlag x)"
  using assms split_loop_join [of "hd pszFlag" "tl pszFlag" strSource] by (cases pszFlag) (simp_all add: Q_Split_def)

theorem Q_Split_join_witness: "join [58, 32] (Q_Split [72, 58, 32, 58, 58, 32] [58, 32]) = [72, 58, 32, 58, 58, 32]"
  using Q_Split_join [of "[58, 32]" "[72, 58, 32, 58, 58, 32]"] by simp

section \<open>Trimming\<close>

definition blank :: "byte \<Rightarrow> bool" where "blank c \<longleftrightarrow> c = 32 \<or> c = 10 \<or> c = 13"

lemma Q_TrimLeft_eq: "Q_TrimLeft s = dropWhile blank s"
  by (induction s) (auto simp: blank_def)

lemma trim_count_eq: "trim_count s = length (takeWhile blank s)"
  by (induction s) (auto simp: blank_def)

lemma Q_TrimRight_eq: "Q_TrimRight s = rev (dropWhile blank (rev s))"
proof -
  have "rev (dropWhile blank (rev s)) = take (length s - length (takeWhile blank (rev s))) s"
    by (simp add: dropWhile_eq_drop rev_drop)
  then show ?thesis by (simp add: Q_TrimRight_def trim_count_eq Let_def)
qed

text \<open>The trimmed string is the source without blanks at either end.\<close>

lemma Q_Trim_spec:
  obtains l r where "s = l @ Q_Trim s @ r" "\<forall>c \<in> set l \<union> set r. blank c" 
    "Q_Trim s \<noteq> [] \<Longrightarrow> \<not> blank (hd (Q_Trim s)) \<and> \<not> blank (last (Q_Trim s))"
proof -
  define m where "m = rev (dropWhile blank (rev s))"
  define t where "t = dropWhile blank m"
  have t: "Q_Trim s = t" by (simp add: Q_Trim_def Q_TrimLeft_eq Q_TrimRight_eq m_def t_def)
  have s: "s = m @ rev (takeWhile blank (rev s))"
    unfolding m_def by (metis rev_append rev_rev_ident takeWhile_dropWhile_id)
  have m: "m = takeWhile blank m @ t" by (simp add: t_def)
  have "\<not> blank (hd t) \<and> \<not> blank (last t)" if "t \<noteq> []"
  proof -
    have "m \<noteq> []" using that m by (auto simp: t_def)
    then have "\<not> blank (last m)" unfolding m_def by (simp add: last_rev hd_dropWhile)
    moreover have "last m = last t" using m that by (metis last_appendR)
    ultimately show ?thesis using that hd_dropWhile [of blank m] by (simp add: t_def)
  qed
  moreover have "\<forall>c \<in> set (takeWhile blank m) \<union> set (rev (takeWhile blank (rev s))). blank c"
    by (auto dest: set_takeWhileD)
  moreover have "s = takeWhile blank m @ t @ rev (takeWhile blank (rev s))" using s m by (metis append.assoc)
  ultimately show thesis using that [of "takeWhile blank m" "rev (takeWhile blank (rev s))"] unfolding t by simp
qed

section \<open>Replacing\<close>

text \<open>
  \<^verbatim>\<open>Q_Replace_Depth\<close> starts again from the beginning after each replacement: with a replacement that holds the flag the loop does not end, and with
  one that is shorter than the flag it ends with a string that has no flag left.
\<close>

lemma sublist_around: "sublist pat r \<Longrightarrow> sublist pat (a @ r @ b)"
  by (auto simp: sublist_def) (metis append.assoc)

lemma Q_Replace_Depth_result:
  "Q_Replace_Depth pszFlag pszReFlag strSource = Some y \<Longrightarrow> sublist pszFlag pszReFlag \<Longrightarrow> \<not> sublist pszFlag strSource"
proof (rule Q_Replace_Depth.raw_induct [where P = "\<lambda>flag re s y. sublist flag re \<longrightarrow> \<not> sublist flag s", rule_format], goal_cases)
  case (1 f flag re s y)
  then show ?case
    using sublist_around [of flag re] by (auto split: option.splits simp: str_find_None) blast
qed

lemma Q_Replace_Depth_diverges:
  assumes "sublist pszFlag pszReFlag" "sublist pszFlag strSource"
  shows "Q_Replace_Depth pszFlag pszReFlag strSource = None"
  using Q_Replace_Depth_result assms by (cases "Q_Replace_Depth pszFlag pszReFlag strSource") auto

lemma Q_Replace_Depth_ends:
  assumes "length pszReFlag < length pszFlag"
  shows "\<exists>t. Q_Replace_Depth pszFlag pszReFlag strSource = Some t \<and> \<not> sublist pszFlag t"
proof (induction "length strSource" arbitrary: strSource rule: less_induct)
  case less
  show ?case
  proof (cases "str_find pszFlag strSource")
    case None
    then have "Q_Replace_Depth pszFlag pszReFlag strSource = Some strSource" by (subst Q_Replace_Depth.simps) simp
    then show ?thesis using None by (simp add: str_find_None)
  next
    case (Some pos)
    let ?s = "take pos strSource @ pszReFlag @ drop (pos + length pszFlag) strSource"
    have "length ?s < length strSource" using str_find_Some [OF Some] assms by auto
    from less [OF this] show ?thesis using Some by (subst Q_Replace_Depth.simps) simp
  qed
qed

end
