(* ===== verification/WebSock_Shake.thy ===== *)
theory WebSock_Shake
  imports WebSock_Parser SHA_Example Base64 QString
begin

text \<open>
  The opening handshake of \<^verbatim>\<open>QBase/WebSockParser.cpp\<close>: the request is cut into lines, its header fields are looked at, and the
  answer holds the digest of the client's key. It puts together the string routines, \<^verbatim>\<open>CSHA1\<close> and \<^verbatim>\<open>CBase64\<close>.
\<close>

section \<open>The code\<close>

definition lit :: "string \<Rightarrow> byte list" where "lit s = map of_char s"

definition WebSock_ShakeHands_EndFlag :: "byte list" where "WebSock_ShakeHands_EndFlag = [13, 10, 13, 10]"
definition ShakeHands_SplitFlag :: "byte list" where "ShakeHands_SplitFlag = [13, 10]"

definition hs_Upgrade :: "byte list" where "hs_Upgrade = lit ''Upgrade''"
definition hs_Connection :: "byte list" where "hs_Connection = lit ''Connection''"
definition hs_Key :: "byte list" where "hs_Key = lit ''Sec-WebSocket-Key''"
definition hs_Version :: "byte list" where "hs_Version = lit ''Sec-WebSocket-Version''"
definition hs_websocket :: "byte list" where "hs_websocket = lit ''websocket''"
definition hs_13 :: "byte list" where "hs_13 = lit ''13''"

lemmas hs_names = hs_Upgrade_def hs_Connection_def hs_Key_def hs_Version_def hs_websocket_def hs_13_def

record shake =
  bUpgrade :: bool
  bConnection :: bool
  bKey :: bool
  bVersion :: bool
  strRtn :: "byte list"

text \<open>The loop over the lines behind the first; \<open>None\<close> is the early return of an empty string.\<close>

fun shake_loop :: "byte list list \<Rightarrow> shake \<Rightarrow> shake option" where
  "shake_loop [] s = Some s"
| "shake_loop (line # lstShakeHands) s =
     (if line = [] then shake_loop lstShakeHands s
      else case Q_Split line [58] of
             [key, val] \<Rightarrow>
               (let strKey = Q_Trim key; strVal = Q_Trim val
                in if same_nocase strKey hs_Upgrade
                   then (if \<not> same_nocase strVal hs_websocket then None else shake_loop lstShakeHands (s\<lparr>bUpgrade := True\<rparr>))
                   else if same_nocase strKey hs_Connection
                   then (if \<not> same_nocase strVal hs_Upgrade then None else shake_loop lstShakeHands (s\<lparr>bConnection := True\<rparr>))
                   else if same_nocase strKey hs_Key
                   then shake_loop lstShakeHands (s\<lparr>bKey := True, strRtn := strVal\<rparr>)
                   else if same_nocase strKey hs_Version
                   then (if \<not> same_nocase strVal hs_13 then None else shake_loop lstShakeHands (s\<lparr>bVersion := True\<rparr>))
                   else shake_loop lstShakeHands s)
           | _ \<Rightarrow> shake_loop lstShakeHands s)"

definition parseShakeHands :: "byte list list \<Rightarrow> byte list" where
  "parseShakeHands lstShakeHands =
     (case lstShakeHands of
        [] \<Rightarrow> []
      | first # rest \<Rightarrow>
          if str_find (lit ''GET'') first = None then []
          else if str_find (lit ''HTTP/1.1'') first = None \<and> str_find (lit ''HTTP/1.0'') first = None then []
          else case shake_loop rest \<lparr>bUpgrade = False, bConnection = False, bKey = False, bVersion = False, strRtn = []\<rparr> of
                 None \<Rightarrow> []
               | Some s \<Rightarrow> if \<not> bUpgrade s \<or> \<not> bConnection s \<or> \<not> bKey s \<or> \<not> bVersion s then [] else strRtn s)"

definition shake_guid :: "byte list" where "shake_guid = lit ''258EAFA5-E914-47DA-95CA-C5AB0DC85B11''"

text \<open>The length goes to \<^verbatim>\<open>Update\<close> as an \<^verbatim>\<open>unsigned int\<close>; \<^verbatim>\<open>GetHash\<close> fails for a null pointer only.\<close>

definition createChallengeKey :: "byte list \<Rightarrow> csha1 \<Rightarrow> (byte list \<times> csha1) option" where
  "createChallengeKey strKey c =
     (let strKey = strKey @ shake_guid
      in case sha1_Final (sha1_Update (sha1_Reset c) (take (length strKey mod 2 ^ 32) strKey)) of
           None \<Rightarrow> None
         | Some c \<Rightarrow> Some (base64_Encode (sha1_GetHash c), c))"

definition createHandshakeResponse :: "byte list \<Rightarrow> byte list" where
  "createHandshakeResponse strKey =
     lit ''HTTP/1.1 101 Switching Protocols'' @ [13, 10] @ lit ''Upgrade: websocket'' @ [13, 10] @ lit ''Connection: Upgrade'' @ [13, 10]
     @ lit ''Server: QServer version:'' @ lit ''1-0-5'' @ [13, 10] @ lit ''Sec-WebSocket-Accept: '' @ strKey @ [13, 10]
     @ lit ''Sec-WebSocket-Origin: null'' @ [13, 10] @ [13, 10]"

text \<open>
  \<^verbatim>\<open>std::string(pShakeHands)\<close> reads up to the first zero byte, wherever that is; \<open>behind\<close> is the memory behind the bytes that were
  pulled up. \<open>None\<close> is a digest that does not return.
\<close>

definition c_string :: "byte list \<Rightarrow> cfault + byte list" where
  "c_string mem = (if 0 \<in> set mem then Inr (takeWhile (\<lambda>c. c \<noteq> 0) mem) else Inl OutOfBounds)"

definition shakeHands ::
  "nat \<Rightarrow> ('bev, 'b) evbuffer_api \<Rightarrow> byte list \<Rightarrow> ('bev, 'b) event_buffer \<Rightarrow> websock_parser
     \<Rightarrow> (cfault + byte list option \<times> websock_parser) option" where
  "shakeHands sz api behind pBuffer p0 =
     (let p = p0\<lparr>ws_bClose := False, ws_iParsedLens := 0\<rparr>
      in case Search api WebSock_ShakeHands_EndFlag pBuffer of
           Inl e \<Rightarrow> Some (Inl e)
         | Inr pos \<Rightarrow>
             if pos = -1 then Some (Inr (None, p))
             else let n = (nat pos + length WebSock_ShakeHands_EndFlag) mod size_mod sz; p = p\<lparr>ws_iNeedReadLens := n\<rparr>
                  in case readBuffer sz api n pBuffer of
                       None \<Rightarrow> Some (Inr (None, p))
                     | Some pShakeHands \<Rightarrow>
                         (case c_string (pShakeHands @ behind) of
                            Inl e \<Rightarrow> Some (Inl e)
                          | Inr text \<Rightarrow>
                              (let strVal = parseShakeHands (Q_Split text ShakeHands_SplitFlag)
                               in if strVal = [] then Some (Inr (None, p\<lparr>ws_bClose := True\<rparr>))
                                  else case createChallengeKey strVal (ws_objSHA1 p) of
                                         None \<Rightarrow> None
                                       | Some (strVal, c) \<Rightarrow>
                                           let p = p\<lparr>ws_objSHA1 := c\<rparr>
                                           in if strVal = [] then Some (Inr (None, p\<lparr>ws_bClose := True\<rparr>))
                                              else Some (Inr (Some (createHandshakeResponse strVal), p\<lparr>ws_iParsedLens := n\<rparr>)))))"

section \<open>What a request asks for\<close>

text \<open>The header fields are the lines with one colon; the key of an acceptable request is that of its last key field.\<close>

definition field :: "byte list \<Rightarrow> (byte list \<times> byte list) option" where
  "field line = (case Q_Split line [58] of [k, v] \<Rightarrow> Some (Q_Trim k, Q_Trim v) | _ \<Rightarrow> None)"

definition field_values :: "byte list \<Rightarrow> byte list list \<Rightarrow> byte list list" where
  "field_values name lines = map snd (filter (\<lambda>(k, v). same_nocase k name) (List.map_filter field lines))"

definition all_are :: "byte list \<Rightarrow> byte list list \<Rightarrow> bool" where
  "all_are x vs \<longleftrightarrow> vs \<noteq> [] \<and> (\<forall>v \<in> set vs. same_nocase v x)"

definition request_line :: "byte list \<Rightarrow> bool" where
  "request_line line \<longleftrightarrow> sublist (lit ''GET'') line \<and> (sublist (lit ''HTTP/1.1'') line \<or> sublist (lit ''HTTP/1.0'') line)"

definition request_key :: "byte list list \<Rightarrow> byte list option" where
  "request_key lines =
     (case lines of
        [] \<Rightarrow> None
      | first # rest \<Rightarrow>
          if request_line first \<and> all_are hs_websocket (field_values hs_Upgrade rest) \<and> all_are hs_Upgrade (field_values hs_Connection rest)
             \<and> all_are hs_13 (field_values hs_Version rest) \<and> field_values hs_Key rest \<noteq> []
          then Some (last (field_values hs_Key rest)) else None)"

definition accept_value :: "byte list \<Rightarrow> byte list" where
  "accept_value key = base64_Encode (sha1_hash (key @ shake_guid))"

lemma lit_names:
  "same_nocase k hs_Upgrade \<Longrightarrow> \<not> same_nocase k hs_Connection \<and> \<not> same_nocase k hs_Key \<and> \<not> same_nocase k hs_Version"
  "same_nocase k hs_Connection \<Longrightarrow> \<not> same_nocase k hs_Key \<and> \<not> same_nocase k hs_Version"
  "same_nocase k hs_Key \<Longrightarrow> \<not> same_nocase k hs_Version"
  by (auto simp: same_nocase_def hs_names lit_def c_str_def tolower_def)

lemma Q_Split_empty [simp]: "Q_Split [] flag = []"
  by (simp add: Q_Split_def split: list.split)

lemma field_values_simps:
  "field_values n [] = []"
  "field_values n (line # ls) = (case field line of None \<Rightarrow> [] | Some (k, v) \<Rightarrow> if same_nocase k n then [v] else []) @ field_values n ls"
  by (auto simp: field_values_def List.map_filter_simps split: option.split)

lemma shake_loop_field:
  "shake_loop (line # ls) s =
     (case field line of
        None \<Rightarrow> shake_loop ls s
      | Some (k, v) \<Rightarrow>
          if same_nocase k hs_Upgrade then if same_nocase v hs_websocket then shake_loop ls (s\<lparr>bUpgrade := True\<rparr>) else None
          else if same_nocase k hs_Connection then if same_nocase v hs_Upgrade then shake_loop ls (s\<lparr>bConnection := True\<rparr>) else None
          else if same_nocase k hs_Key then shake_loop ls (s\<lparr>bKey := True, strRtn := v\<rparr>)
          else if same_nocase k hs_Version then if same_nocase v hs_13 then shake_loop ls (s\<lparr>bVersion := True\<rparr>) else None
          else shake_loop ls s)"
  by (simp add: field_def Let_def split: list.split)

definition none_else :: "byte list \<Rightarrow> byte list list \<Rightarrow> bool" where
  "none_else x vs \<longleftrightarrow> (\<forall>v \<in> set vs. same_nocase v x)"

lemma shake_loop_values:
  "shake_loop ls s =
     (if none_else hs_websocket (field_values hs_Upgrade ls) \<and> none_else hs_Upgrade (field_values hs_Connection ls) \<and> none_else hs_13 (field_values hs_Version ls)
      then Some \<lparr>bUpgrade = (bUpgrade s \<or> field_values hs_Upgrade ls \<noteq> []), bConnection = (bConnection s \<or> field_values hs_Connection ls \<noteq> []),
                 bKey = (bKey s \<or> field_values hs_Key ls \<noteq> []), bVersion = (bVersion s \<or> field_values hs_Version ls \<noteq> []),
                 strRtn = last (strRtn s # field_values hs_Key ls)\<rparr>
      else None)"
proof (induction ls arbitrary: s)
  case Nil
  then show ?case by (simp add: field_values_simps none_else_def)
next
  case (Cons line ls)
  show ?case
  proof (cases "field line")
    case None
    then show ?thesis using Cons by (simp add: shake_loop_field field_values_simps del: shake_loop.simps)
  next
    case (Some kv)
    obtain k v where kv: "field line = Some (k, v)" using Some by (cases kv) auto
    consider "same_nocase k hs_Upgrade" | "same_nocase k hs_Connection" | "same_nocase k hs_Key"
      | "same_nocase k hs_Version"
      | "\<not> same_nocase k hs_Upgrade" "\<not> same_nocase k hs_Connection" "\<not> same_nocase k hs_Key"
        "\<not> same_nocase k hs_Version" by blast
    then show ?thesis
    proof cases
      case 1
      then show ?thesis using lit_names(1) [OF 1] by (simp add: shake_loop_field field_values_simps kv Cons.IH none_else_def del: shake_loop.simps)
    next
      case 2
      then have "\<not> same_nocase k hs_Upgrade" using lit_names(1) by blast
      then show ?thesis using lit_names(2) [OF 2] 2 by (simp add: shake_loop_field field_values_simps kv Cons.IH none_else_def del: shake_loop.simps)
    next
      case 3
      then have "\<not> same_nocase k hs_Upgrade" "\<not> same_nocase k hs_Connection" using lit_names(1,2) by blast+
      then show ?thesis using lit_names(3) [OF 3] 3 by (simp add: shake_loop_field field_values_simps kv Cons.IH none_else_def del: shake_loop.simps)
    next
      case 4
      then have "\<not> same_nocase k hs_Upgrade" "\<not> same_nocase k hs_Connection" "\<not> same_nocase k hs_Key" using lit_names by blast+
      then show ?thesis using 4 by (simp add: shake_loop_field field_values_simps kv Cons.IH none_else_def del: shake_loop.simps)
    next
      case 5
      then show ?thesis by (simp add: shake_loop_field field_values_simps kv Cons.IH none_else_def del: shake_loop.simps)
    qed
  qed
qed

lemma parseShakeHands_key: "parseShakeHands lines = (case request_key lines of None \<Rightarrow> [] | Some k \<Rightarrow> k)"
proof (cases lines)
  case (Cons first rest)
  have f: "str_find pat first = None \<longleftrightarrow> \<not> sublist pat first" for pat by (rule str_find_None)
  show ?thesis unfolding Cons parseShakeHands_def request_key_def
    by (simp add: f request_line_def shake_loop_values all_are_def none_else_def)
qed (simp add: parseShakeHands_def request_key_def)

section \<open>The answer\<close>

lemma createChallengeKey_accept:
  assumes "length (sha_buffer c) = 64" "length strKey + 36 < 2 ^ 31"
  shows "\<exists>c'. createChallengeKey strKey c = Some (accept_value strKey, c')"
proof -
  have g: "length shake_guid = 36" by (simp add: shake_guid_def lit_def)
  let ?k = "strKey @ shake_guid"
  have l: "length ?k < 2 ^ 31" "length ?k mod 2 ^ 32 = length ?k" using assms(2) g by simp_all
  obtain c' where "sha1_Final (sha1_Update (sha1_Reset c) ?k) = Some c'" "sha1_GetHash c' = sha1_hash ?k"
    using sha_rep_final [OF sha1.rep_update [OF sha1.rep_init [OF assms(1)] l(1)]] by auto
  then show ?thesis unfolding createChallengeKey_def Let_def l(2) by (simp add: accept_value_def)
qed

lemma accept_value_not_empty: "accept_value key \<noteq> []"
proof
  let ?H = "fst (blk_loop 64 sha_compress sha_start (shs_pad (key @ shake_guid)))"
  have l: "length ?H = 5"
    by (rule blk_loop_invariant) (simp_all add: sha_compress_def split: prod.split)
  then have h: "sha1_hash (key @ shake_guid) \<noteq> []"
    unfolding sha1_hash_def by (cases ?H) auto
  assume "accept_value key = []"
  then have "sha1_hash (key @ shake_guid) = base64_Decode []"
    unfolding accept_value_def by (metis base64_Decode_Encode)
  then show False using h by (simp add: base64_Decode_def)
qed

lemma find_bytes_find: "find_bytes pat bs i = (case str_find pat bs of None \<Rightarrow> -1 | Some n \<Rightarrow> int (i + n))"
proof (induction pat bs i rule: find_bytes.induct)
  case (2 pat b bs i)
  have "prefix pat (b # bs) \<longleftrightarrow> take (length pat) (b # bs) = pat" by (metis append_eq_conv_conj prefix_def take_is_prefix)
  then show ?case using 2 by (auto split: option.split)
qed auto

lemma piece_length: "x \<in> set (split_loop f flag s) \<Longrightarrow> length x \<le> length s"
proof (induction f flag s rule: split_loop.induct)
  case (1 f flag s)
  show ?case
  proof (cases "str_find (f # flag) s")
    case None
    then have "split_loop f flag s = [s]" by (subst split_loop.simps) simp
    then show ?thesis using 1(2) by simp
  next
    case (Some i)
    then have "split_loop f flag s = take i s # split_loop f flag (drop (i + length (f # flag)) s)" by (subst split_loop.simps) simp
    then show ?thesis using 1(1) [OF Some] 1(2) by force
  qed
qed

lemma Q_Split_length: "x \<in> set (Q_Split s flag) \<Longrightarrow> length x \<le> length s"
  by (auto simp: Q_Split_def dest: piece_length split: list.splits if_splits)

lemma Q_Trim_length: "length (Q_Trim s) \<le> length s"
  by (metis Q_Trim_spec add_leD1 add_leD2 length_append order_refl)

lemma field_length: "field line = Some (k, v) \<Longrightarrow> length v \<le> length line"
proof -
  assume "field line = Some (k, v)"
  then obtain x y where xy: "Q_Split line [58] = [x, y]" "v = Q_Trim y" by (auto simp: field_def split: list.splits)
  show ?thesis using Q_Trim_length [of y] Q_Split_length [of y line "[58]"] xy by simp
qed

lemma field_values_length: "v \<in> set (field_values n lines) \<Longrightarrow> \<exists>line \<in> set lines. length v \<le> length line"
proof (induction lines)
  case (Cons line lines)
  show ?case
  proof (cases "v \<in> set (field_values n lines)")
    case True
    then show ?thesis using Cons.IH by auto
  next
    case False
    then obtain k where "field line = Some (k, v)"
      using Cons.prems by (cases "field line") (auto simp: field_values_simps split: if_splits)
    then show ?thesis using field_length by auto
  qed
qed (simp add: field_values_simps)

lemma request_key_length: "request_key (Q_Split req flag) = Some key \<Longrightarrow> length key \<le> length req"
proof (cases "Q_Split req flag")
  case (Cons first rest)
  assume "request_key (Q_Split req flag) = Some key"
  then have "key \<in> set (field_values hs_Key rest)" unfolding Cons request_key_def by (auto split: if_splits)
  then obtain line where "line \<in> set rest" "length key \<le> length line" using field_values_length by blast
  then show ?thesis using Q_Split_length [of line req flag] Cons by simp
qed (simp add: request_key_def)

lemma shakeHands_found:
  assumes "evbuffer_laws api content" "m_pReadBuffer eb = Some b" "str_find WebSock_ShakeHands_EndFlag (content b) = Some n"
    and "2 * length (content b) < size_mod sz"
  shows "Search api WebSock_ShakeHands_EndFlag eb = Inr (int n)" "(n + length WebSock_ShakeHands_EndFlag) mod size_mod sz = n + 4"
    "readBuffer sz api (n + 4) eb = Some (take (n + 4) (content b))"
proof -
  have f: "n + 4 \<le> length (content b)" using str_find_Some [OF assms(3)] by (simp add: WebSock_ShakeHands_EndFlag_def)
  show "Search api WebSock_ShakeHands_EndFlag eb = Inr (int n)"
    using assms(1-3) by (simp add: Search_def evbuffer_lawsD(9) find_bytes_find)
  show "(n + length WebSock_ShakeHands_EndFlag) mod size_mod sz = n + 4"
    using f assms(4) by (simp add: WebSock_ShakeHands_EndFlag_def)
  show "readBuffer sz api (n + 4) eb = Some (take (n + 4) (content b))"
    using f assms(1,2,4) evbuffer_lawsD(2) [OF assms(1), of "n + 4" b] by (simp add: readBuffer_def ssize_of_small)
qed

lemma shakeHands_no_zero:
  assumes "evbuffer_laws api content" "m_pReadBuffer eb = Some b" "str_find WebSock_ShakeHands_EndFlag (content b) = Some n"
    and "2 * length (content b) < size_mod sz" "0 \<notin> set (take (n + 4) (content b) @ behind)"
  shows "shakeHands sz api behind eb p = Some (Inl OutOfBounds)"
  using shakeHands_found [OF assms(1-4)] assms(5) by (simp add: shakeHands_def c_string_def Let_def)

lemma c_text: "0 \<notin> set xs \<Longrightarrow> takeWhile (\<lambda>c. c \<noteq> 0) (xs @ 0 # ys) = (xs :: byte list)"
  by (induction xs) auto

lemma shakeHands_text:
  assumes "evbuffer_laws api content" "m_pReadBuffer eb = Some b" "str_find WebSock_ShakeHands_EndFlag (content b) = Some n"
    and "2 * length (content b) < size_mod sz" "0 \<in> set (take (n + 4) (content b) @ behind)"
    and "examined = takeWhile (\<lambda>c. c \<noteq> 0) (take (n + 4) (content b) @ behind)"
    and "length examined + 36 < 2 ^ 31" "length (sha_buffer (ws_objSHA1 p)) = 64"
  shows "\<exists>p'. case request_key (Q_Split examined ShakeHands_SplitFlag) of
      Some (c # key) \<Rightarrow> shakeHands sz api behind eb p = Some (Inr (Some (createHandshakeResponse (accept_value (c # key))), p'))
        \<and> ws_iParsedLens p' = n + 4 \<and> \<not> ws_bClose p'
    | _ \<Rightarrow> shakeHands sz api behind eb p = Some (Inr (None, p')) \<and> ws_bClose p'"
proof -
  have c: "c_string (take (n + 4) (content b) @ behind) = Inr examined"
    using assms(5,6) unfolding c_string_def by (simp only: if_True)
  have p: "parseShakeHands (Q_Split examined ShakeHands_SplitFlag) = (case request_key (Q_Split examined ShakeHands_SplitFlag) of None \<Rightarrow> [] | Some k \<Rightarrow> k)"
    by (rule parseShakeHands_key)
  note e = shakeHands_def shakeHands_found [OF assms(1-4)] c p Let_def
  show ?thesis
  proof (cases "request_key (Q_Split examined ShakeHands_SplitFlag)")
    case (Some key)
    have "length key + 36 < 2 ^ 31" using request_key_length [OF Some] assms(7) by simp
    then obtain sc where "createChallengeKey key (ws_objSHA1 p) = Some (accept_value key, sc)"
      using createChallengeKey_accept [OF assms(8)] by blast
    then show ?thesis using accept_value_not_empty [of key] by (cases key) (simp_all add: e Some)
  qed (simp add: e)
qed

lemma shakeHands_incomplete:
  assumes "evbuffer_laws api content" "m_pReadBuffer eb = Some b" "str_find WebSock_ShakeHands_EndFlag (content b) = None"
  shows "\<exists>p'. shakeHands sz api behind eb p = Some (Inr (None, p')) \<and> ws_iParsedLens p' = 0 \<and> \<not> ws_bClose p'"
  using assms by (simp add: shakeHands_def Search_def evbuffer_lawsD(9) find_bytes_find Let_def)

text \<open>
  C7. The answer to a handshake, for everything that may have been received and may lie behind it in memory. Until the blank line has arrived nothing happens.
  Then the text that is examined is not just the request: it is the request and whatever the memory behind it holds, up to the first zero byte. If
  that text asks for an upgrade to version 13 with a key, the answer carries the \<^verbatim>\<open>Sec-WebSocket-Accept\<close> value of RFC 6455 for the key and the
  request is consumed; if not, the connection is to be closed. Without a zero byte the read leaves the memory. When a zero byte follows the request directly and
  none is in it, the text is the request.
\<close>

theorem shakeHands_reply:
  assumes "evbuffer_laws api content" "m_pReadBuffer eb = Some b" "2 * length (content b) < size_mod sz"
    and "examined = (\<lambda>n. takeWhile (\<lambda>c. c \<noteq> 0) (take (n + 4) (content b) @ behind))"
    and "length (content b @ behind) + 36 < 2 ^ 31" "length (sha_buffer (ws_objSHA1 p)) = 64"
  shows "case str_find WebSock_ShakeHands_EndFlag (content b) of
      None \<Rightarrow> \<exists>p'. shakeHands sz api behind eb p = Some (Inr (None, p')) \<and> ws_iParsedLens p' = 0 \<and> \<not> ws_bClose p'
    | Some n \<Rightarrow>
        (if 0 \<notin> set (take (n + 4) (content b) @ behind) then shakeHands sz api behind eb p = Some (Inl OutOfBounds)
         else (\<exists>p'. case request_key (Q_Split (examined n) ShakeHands_SplitFlag) of
              Some (c # key) \<Rightarrow> shakeHands sz api behind eb p = Some (Inr (Some (createHandshakeResponse (accept_value (c # key))), p'))
                \<and> ws_iParsedLens p' = n + 4 \<and> \<not> ws_bClose p'
            | _ \<Rightarrow> shakeHands sz api behind eb p = Some (Inr (None, p')) \<and> ws_bClose p'))
        \<and> (behind = 0 # rest \<and> 0 \<notin> set (take (n + 4) (content b)) \<longrightarrow> examined n = take (n + 4) (content b))"
proof (cases "str_find WebSock_ShakeHands_EndFlag (content b)")
  case None
  then show ?thesis using shakeHands_incomplete [OF assms(1,2) None] by simp
next
  case (Some n)
  have e: "examined n = takeWhile (\<lambda>c. c \<noteq> 0) (take (n + 4) (content b) @ behind)" using assms(4) by (rule fun_cong)
  have "length (examined n) \<le> length (take (n + 4) (content b) @ behind)" unfolding e by (rule length_takeWhile_le)
  then have l: "length (examined n) + 36 < 2 ^ 31" using assms(5) by simp
  have "examined n = take (n + 4) (content b)" if "behind = 0 # rest \<and> 0 \<notin> set (take (n + 4) (content b))" using that c_text [of "take (n + 4) (content b)" rest] e by metis
  then show ?thesis
    using shakeHands_no_zero [OF assms(1,2) Some assms(3), of behind p] shakeHands_text [OF assms(1,2) Some assms(3) _ e l assms(6)]
    unfolding Some option.case by meson
qed

section \<open>The example of RFC 6455\<close>

definition rfc_request :: "byte list" where
  "rfc_request =
     lit ''GET /chat HTTP/1.1'' @ [13, 10] @ lit ''Host: server.example.com'' @ [13, 10] @ lit ''Upgrade: websocket'' @ [13, 10]
     @ lit ''Connection: Upgrade'' @ [13, 10] @ lit ''Sec-WebSocket-Key: dGhlIHNhbXBsZSBub25jZQ=='' @ [13, 10]
     @ lit ''Origin: http://example.com'' @ [13, 10] @ lit ''Sec-WebSocket-Version: 13'' @ [13, 10] @ [13, 10]"

lemma rfc_request_length: "length rfc_request = 189" by (simp add: rfc_request_def lit_def)

lemma rfc_request_end: "str_find WebSock_ShakeHands_EndFlag rfc_request = Some 185" by code_simp

lemma rfc_request_zero: "0 \<notin> set rfc_request" by code_simp

lemma rfc_request_key: "request_key (Q_Split rfc_request ShakeHands_SplitFlag) = Some (lit ''dGhlIHNhbXBsZSBub25jZQ=='')" by code_simp

lemma rfc_accept: "accept_value (lit ''dGhlIHNhbXBsZSBub25jZQ=='') = lit ''s3pPLMBiTxaQ9kYGzzhZRbK+xOo=''"
proof -
  have "lit ''dGhlIHNhbXBsZSBub25jZQ=='' @ shake_guid = rfc_message" by code_simp
  moreover have "base64_Encode (sha1_hash rfc_message) = lit ''s3pPLMBiTxaQ9kYGzzhZRbK+xOo=''" unfolding sha1_rfc by code_simp
  ultimately show ?thesis by (simp only: accept_value_def)
qed

abbreviation fresh_parser :: websock_parser where
  "fresh_parser \<equiv> CWebSockParser_init zero_sha1"

abbreviation holding :: "byte list \<Rightarrow> (unit, byte list) event_buffer" where
  "holding bs \<equiv> CEventBuffer_init\<lparr>m_pReadBuffer := Some bs\<rparr>"

theorem shakeHands_reply_witness:
  "\<exists>p'. shakeHands 8 list_evbuffer [0] (holding rfc_request) (CWebSockParser_init zero_sha1)
      = Some (Inr (Some (createHandshakeResponse (lit ''s3pPLMBiTxaQ9kYGzzhZRbK+xOo='')), p')) \<and> ws_iParsedLens p' = 189"
proof -
  have k: "lit ''dGhlIHNhbXBsZSBub25jZQ=='' = 100 # lit ''GhlIHNhbXBsZSBub25jZQ==''" by code_simp
  have b: "length (sha_buffer (ws_objSHA1 (CWebSockParser_init zero_sha1))) = 64"
    by (simp add: CWebSockParser_init_def CSHA1_init_def sha1_Reset_def zero_sha1_def)
  have t: "take (185 + 4) rfc_request = rfc_request" using rfc_request_length by simp
  show ?thesis
    using shakeHands_reply [OF list_evbuffer_laws, of "holding rfc_request" rfc_request 8 _ "[0]" "CWebSockParser_init zero_sha1" "[]"]
      rfc_request_end c_text [OF rfc_request_zero, of "[]"] rfc_request_key rfc_request_length rfc_accept b t
    unfolding k by (auto simp add: size_mod_def simp del: takeWhile_append)
qed

section \<open>The memory behind a request\<close>

definition keyless :: "byte list" where
  "keyless =
     lit ''GET / HTTP/1.1'' @ [13, 10] @ lit ''Upgrade: websocket'' @ [13, 10] @ lit ''Connection: Upgrade'' @ [13, 10]
     @ lit ''Sec-WebSocket-Version: 13'' @ [13, 10] @ [13, 10]"

lemma keyless_facts:
  "length keyless = 86" "str_find WebSock_ShakeHands_EndFlag keyless = Some 82" "0 \<notin> set keyless"
  "request_key (Q_Split keyless ShakeHands_SplitFlag) = None"
  "request_key (Q_Split (keyless @ lit ''Sec-WebSocket-Key:x'') ShakeHands_SplitFlag) = Some [120]"
  by code_simp+

text \<open>
  The request is not all that is parsed. For the same bytes in the read buffer, a request without a key, the connection is refused
  when a zero byte happens to follow in memory, accepted when a key field does, and when no zero byte follows the read leaves the
  buffer.
\<close>

theorem shakeHands_reads_behind:
  "(\<exists>p'. shakeHands 8 list_evbuffer [0] (holding keyless) fresh_parser = Some (Inr (None, p')) \<and> ws_bClose p')
    \<and> (\<exists>p'. shakeHands 8 list_evbuffer (lit ''Sec-WebSocket-Key:x'' @ [0]) (holding keyless) fresh_parser
          = Some (Inr (Some (createHandshakeResponse (accept_value [120])), p')))
    \<and> shakeHands 8 list_evbuffer (lit ''Sec-WebSocket-Key:x'') (holding keyless) fresh_parser = Some (Inl OutOfBounds)"
proof (intro conjI)
  have b: "length (sha_buffer (ws_objSHA1 fresh_parser)) = 64"
    by (simp add: CWebSockParser_init_def CSHA1_init_def sha1_Reset_def zero_sha1_def)
  have t: "take (82 + 4) keyless = keyless" using keyless_facts(1) by simp
  have z: "0 \<notin> set (lit ''Sec-WebSocket-Key:x'')" "takeWhile (\<lambda>c. c \<noteq> 0) (lit ''Sec-WebSocket-Key:x'' @ [0]) = lit ''Sec-WebSocket-Key:x''" "length (lit ''Sec-WebSocket-Key:x'') = 19"
    by code_simp+
  show "\<exists>p'. shakeHands 8 list_evbuffer [0] (holding keyless) fresh_parser = Some (Inr (None, p')) \<and> ws_bClose p'"
    using shakeHands_text [OF list_evbuffer_laws, of "holding keyless" keyless 82 8 "[0]" keyless fresh_parser] keyless_facts c_text [OF keyless_facts(3), of "[]"] b t
    by (simp add: size_mod_def del: takeWhile_append)
  show "\<exists>p'. shakeHands 8 list_evbuffer (lit ''Sec-WebSocket-Key:x'' @ [0]) (holding keyless) fresh_parser
          = Some (Inr (Some (createHandshakeResponse (accept_value [120])), p'))"
    using shakeHands_text [OF list_evbuffer_laws, of "holding keyless" keyless 82 8 "lit ''Sec-WebSocket-Key:x'' @ [0]"
        "keyless @ lit ''Sec-WebSocket-Key:x''" fresh_parser] keyless_facts
      c_text [of "keyless @ lit ''Sec-WebSocket-Key:x''" "[]"] b t z
    by (auto simp: size_mod_def simp del: takeWhile_append)
  show "shakeHands 8 list_evbuffer (lit ''Sec-WebSocket-Key:x'') (holding keyless) fresh_parser = Some (Inl OutOfBounds)"
    using shakeHands_no_zero [OF list_evbuffer_laws, of "holding keyless" keyless 82 8 "lit ''Sec-WebSocket-Key:x''" fresh_parser] keyless_facts t z
    by (simp add: size_mod_def)
qed

end
