(* ===== verification/Work_WebSock.thy ===== *)
theory Work_WebSock
  imports Work_Thread WebSock_Shake
begin

text \<open>
  \<^verbatim>\<open>QBase/WorkThreadEvent.cpp\<close>, the WebSocket half: the handshake, control frames, and messages in one frame or in several. The parts
  of a message that is not complete are kept per socket in \<^verbatim>\<open>m_mapWebSockPack\<close>.
\<close>

section \<open>Continuations\<close>

definition addContinuation :: "int \<Rightarrow> byte list \<Rightarrow> ('bev, 'b) worker \<Rightarrow> ('bev, 'b) worker" where
  "addContinuation sock pszData w =
     (case map_of (wk_mapWebSockPack w) sock of
        None \<Rightarrow> w\<lparr>wk_mapWebSockPack := AList.update sock pszData (wk_mapWebSockPack w)\<rparr>
      | Some strBuf \<Rightarrow> w\<lparr>wk_mapWebSockPack := AList.update sock (strBuf @ pszData) (wk_mapWebSockPack w)\<rparr>)"

definition getContinuation :: "int \<Rightarrow> ('bev, 'b) worker \<Rightarrow> byte list option" where
  "getContinuation sock w = map_of (wk_mapWebSockPack w) sock"

definition delContinuation :: "int \<Rightarrow> ('bev, 'b) worker \<Rightarrow> ('bev, 'b) worker" where
  "delContinuation sock w = w\<lparr>wk_mapWebSockPack := AList.delete sock (wk_mapWebSockPack w)\<rparr>"

text \<open>\<^verbatim>\<open>pStrBuf->clear()\<close> through the pointer into the map.\<close>

definition clearContinuation :: "int \<Rightarrow> ('bev, 'b) worker \<Rightarrow> ('bev, 'b) worker" where
  "clearContinuation sock w =
     (if getContinuation sock w = None then w else w\<lparr>wk_mapWebSockPack := AList.update sock [] (wk_mapWebSockPack w)\<rparr>)"

section \<open>The handler\<close>

definition ws_hangup :: "('bev, 'b) evbuffer_api \<Rightarrow> ('bev, 'b) event_interface \<Rightarrow> ptr \<Rightarrow> ('bev, 'b) worker \<Rightarrow> ('bev, 'b) worker" where
  "ws_hangup api iface p w =
     (let w = delContinuation (getFD (wbuf w p)) w
      in w\<lparr>wk_mgr := closeLinkByID api (Some (onSockClose iface)) (m_iSessionID (wsess w p)) (wk_mgr w)\<rparr>)"

definition ws_del :: "('bev, 'b) evbuffer_api \<Rightarrow> ptr \<Rightarrow> ('bev, 'b) worker \<Rightarrow> ('bev, 'b) worker" where
  "ws_del api p w = wput_buf p (snd (delBuffer api (ws_iParsedLens (wk_objWebSockParser w)) (wbuf w p))) w"

definition ws_set_ping :: "ptr \<Rightarrow> ('bev, 'b) worker \<Rightarrow> ('bev, 'b) worker" where
  "ws_set_ping p w = wput p ((wsess w p)\<lparr>m_uiPing := sm_uiCount (wk_mgr w)\<rparr>) w"

definition ws_ping :: "nat \<Rightarrow> ('bev, 'b) evbuffer_api \<Rightarrow> ptr \<Rightarrow> ('bev, 'b) worker \<Rightarrow> ('bev, 'b) worker" where
  "ws_ping sz api p w =
     (case ws_createHead sz True WSOCK_PONG 0 (wk_objWebSockParser w) of (pPingHead, wp) \<Rightarrow>
      let w = w\<lparr>wk_objWebSockParser := wp\<rparr>
      in ws_set_ping p (wput_buf p (snd (writeBuffer api (Some pPingHead) (wbuf w p))) w))"

text \<open>
  Decoding of the message of a frame; \<open>None\<close> is the early return of the handler when a message could not be decoded. A frame
  without a payload has the null pointer as its message.
\<close>

definition ws_decode ::
  "nat \<Rightarrow> allocator \<Rightarrow> codec_ops \<Rightarrow> ('bev, 'b) worker \<Rightarrow> qerror + byte list option \<times> ('bev, 'b) worker" where
  "ws_decode sz alloc ops w =
     (let wp = wk_objWebSockParser w; n = uiDataLens (ws_stFram wp)
      in case ws_pMsg wp of
           None \<Rightarrow> (case comm_Decode sz alloc ops None False (wk_comm w) of
                     Inl e \<Rightarrow> Inl e
                   | Inr (pszMsg, ce) \<Rightarrow> Inr (Some [], w\<lparr>wk_comm := ce\<rparr>))
         | Some m \<Rightarrow>
             if length m < n then Inl (Fault OutOfBounds)
             else (case comm_Decode sz alloc ops (Some (take n m)) False (wk_comm w) of
                     Inl e \<Rightarrow> Inl e
                   | Inr (pszMsg, ce) \<Rightarrow> Inr (pszMsg, w\<lparr>wk_comm := ce\<rparr>)))"

definition ws_give :: "('bev, 'b) event_interface \<Rightarrow> byte list \<Rightarrow> ('bev, 'b) worker \<Rightarrow> ('bev, 'b) worker" where
  "ws_give iface msg w = onSockRead iface msg (w\<lparr>wk_calls := wk_calls w @ [msg]\<rparr>)"

partial_function (option) dispWebSock_loop ::
  "nat \<Rightarrow> allocator \<Rightarrow> codec_ops \<Rightarrow> ('bev, 'b) evbuffer_api \<Rightarrow> ('bev, 'b) event_interface \<Rightarrow> ptr \<Rightarrow> ('bev, 'b) worker
     \<Rightarrow> (qerror + ('bev, 'b) worker) option" where
  "dispWebSock_loop sz alloc ops api iface p w =
     (case ws_parsePack sz api (wbuf w p) (wk_objWebSockParser w) of
        Inl e \<Rightarrow> Some (Inl (Fault e))
      | Inr (bOk, eb, wp) \<Rightarrow>
          let w = wput_buf p eb (w\<lparr>wk_objWebSockParser := wp\<rparr>); pHead = ws_stFram wp
          in if ws_bClose wp then Some (Inr (ws_hangup api iface p w))
             else if \<not> bOk then Some (Inr w)
             else if emOpCode pHead = WSOCK_CLOSE then Some (Inr (ws_hangup api iface p w))
             else if emOpCode pHead = WSOCK_PING then dispWebSock_loop sz alloc ops api iface p (ws_del api p (ws_ping sz api p w))
             else if emOpCode pHead = WSOCK_PONG then dispWebSock_loop sz alloc ops api iface p (ws_del api p (ws_set_ping p w))
             else let sock = getFD (wbuf w p)
                  in if WSOCK_CONTINUATION \<noteq> emOpCode pHead \<and> 1 = cFin pHead
                     then (case ws_decode sz alloc ops w of
                             Inl e \<Rightarrow> Some (Inl e)
                           | Inr (pszMsg, w) \<Rightarrow>
                              (case pszMsg of
                                 None \<Rightarrow> Some (Inr w)
                               | Some msg \<Rightarrow>
                                   let w = ws_give iface msg w
                                   in if SESSSTATUS_CLOSED = m_emStatus (wsess w p) then Some (Inr (delContinuation sock w))
                                      else dispWebSock_loop sz alloc ops api iface p (ws_del api p w)))
                     else if 1 = cFin pHead \<and> WSOCK_CONTINUATION = emOpCode pHead
                     then (case getContinuation sock w of
                             None \<Rightarrow> dispWebSock_loop sz alloc ops api iface p (ws_del api p w)
                           | Some strBuf \<Rightarrow>
                              (case ws_decode sz alloc ops w of
                                 Inl e \<Rightarrow> Some (Inl e)
                               | Inr (pszMsg, w) \<Rightarrow>
                                  (case pszMsg of
                                     None \<Rightarrow> Some (Inr w)
                                   | Some msg \<Rightarrow>
                                       let w = ws_give iface (strBuf @ msg) (addContinuation sock msg w)
                                       in if SESSSTATUS_CLOSED = m_emStatus (wsess w p) then Some (Inr (delContinuation sock w))
                                          else dispWebSock_loop sz alloc ops api iface p (clearContinuation sock (ws_del api p w)))))
                     else (case ws_decode sz alloc ops w of
                             Inl e \<Rightarrow> Some (Inl e)
                           | Inr (pszMsg, w) \<Rightarrow>
                              (case pszMsg of
                                 None \<Rightarrow> Some (Inr w)
                               | Some msg \<Rightarrow> dispWebSock_loop sz alloc ops api iface p (ws_del api p (addContinuation sock msg w)))))"

text \<open>\<open>behind\<close> is the memory behind the request, as in \<^const>\<open>shakeHands\<close>.\<close>

definition dispWebSock ::
  "nat \<Rightarrow> allocator \<Rightarrow> codec_ops \<Rightarrow> ('bev, 'b) evbuffer_api \<Rightarrow> ('bev, 'b) event_interface \<Rightarrow> byte list \<Rightarrow> ptr \<Rightarrow> ('bev, 'b) worker
     \<Rightarrow> (qerror + ('bev, 'b) worker) option" where
  "dispWebSock sz alloc ops api iface behind p w =
     (if SESSSTATUS_CONNECT = m_emStatus (wsess w p)
      then (case shakeHands sz api behind (wbuf w p) (wk_objWebSockParser w) of
              None \<Rightarrow> None
            | Some (Inl e) \<Rightarrow> Some (Inl (Fault e))
            | Some (Inr (pStrShakeHandsRtn, wp)) \<Rightarrow>
                let w = w\<lparr>wk_objWebSockParser := wp\<rparr>
                in if ws_bClose wp
                   then Some (Inr (w\<lparr>wk_mgr := closeLinkByID api (Some (onSockClose iface)) (m_iSessionID (wsess w p)) (wk_mgr w)\<rparr>))
                   else (case pStrShakeHandsRtn of
                           None \<Rightarrow> Some (Inr w)
                         | Some reply \<Rightarrow>
                             let w = wput_buf p (snd (writeBuffer api (Some reply) (wbuf w p))) w;
                                 w = wput p ((wsess w p)\<lparr>m_emStatus := SESSSTATUS_LINKED\<rparr>) w
                             in Some (Inr (ws_del api p w))))
      else dispWebSock_loop sz alloc ops api iface p w)"

section \<open>What a client's frames mean\<close>

lemma ws_next_used: "ws_next bs = Frame fin code m k \<Longrightarrow> 0 < k \<and> k \<le> length bs \<and> length m \<le> k"
  by (auto simp: ws_next_def ws_body_def Let_def split: if_splits)

text \<open>
  The messages of the frames that are complete, the parts of a message collected so far, what is left in the buffer, and whether the
  connection has to be closed. The frame in front of what is left is unmasked already when its message could not be decoded.
\<close>

function ws_stream ::
  "(byte list \<Rightarrow> byte list option) \<Rightarrow> byte list option \<Rightarrow> byte list \<Rightarrow> byte list list \<times> byte list option \<times> byte list \<times> bool" where
  "ws_stream dec frag bs =
     (case ws_next bs of
        Incomplete \<Rightarrow> ([], frag, bs, False)
      | Refused \<Rightarrow> ([], frag, bs, True)
      | Frame fin code m k \<Rightarrow>
          if code = WSOCK_CLOSE then ([], frag, bs, True)
          else if code = WSOCK_PING \<or> code = WSOCK_PONG \<or> (code = WSOCK_CONTINUATION \<and> fin \<and> frag = None) then ws_stream dec frag (drop k bs)
          else (case dec m of
                  None \<Rightarrow> ([], frag, take (k - length m) bs @ m @ drop k bs, False)
                | Some x \<Rightarrow>
                    if \<not> fin then ws_stream dec (Some (case frag of None \<Rightarrow> x | Some f \<Rightarrow> f @ x)) (drop k bs)
                    else if code \<noteq> WSOCK_CONTINUATION then apfst (Cons x) (ws_stream dec frag (drop k bs))
                    else apfst (Cons (the frag @ x)) (ws_stream dec (Some []) (drop k bs))))"
  by pat_completeness auto
termination by (relation "measure (\<lambda>(dec, frag, bs). length bs)") (auto dest: ws_next_used)

declare ws_stream.simps [simp del]

text \<open>No head on the way announces a length beyond \<^verbatim>\<open>size_t\<close>.\<close>

function ws_clean :: "nat \<Rightarrow> byte list \<Rightarrow> bool" where
  "ws_clean sz bs \<longleftrightarrow> \<not> ws_wraps sz bs \<and> (case ws_next bs of Frame fin code m k \<Rightarrow> ws_clean sz (drop k bs) | _ \<Rightarrow> True)"
  by pat_completeness auto
termination by (relation "measure (\<lambda>(sz, bs). length bs)") (auto dest: ws_next_used)

declare ws_clean.simps [simp del]

section \<open>The handler refines the stream\<close>

text \<open>A session that is served: \<open>fd\<close> is its socket and the number it is known by.\<close>

definition ws_ready :: "ptr \<Rightarrow> int \<Rightarrow> ('bev, 'b) worker \<Rightarrow> bool" where
  "ws_ready p fd w \<longleftrightarrow> m_pReadBuffer (wbuf w p) \<noteq> None \<and> m_FD (wbuf w p) = fd \<and> m_iSessionID (wsess w p) = fd \<and> fd \<noteq> Q_INVALID_SOCK
     \<and> map_of (sm_umapSession (wk_mgr w)) fd = Some p \<and> m_emStatus (wsess w p) \<noteq> SESSSTATUS_CLOSED
     \<and> m_emStatus (wsess w p) \<noteq> SESSSTATUS_CONNECT \<and> comm_ready False (wk_comm w)"

definition ws_at :: "('b \<Rightarrow> byte list) \<Rightarrow> ptr \<Rightarrow> int \<Rightarrow> byte list \<Rightarrow> byte list option \<Rightarrow> ('bev, 'b) worker \<Rightarrow> bool" where
  "ws_at content p fd bs frag w \<longleftrightarrow> ws_ready p fd w \<and> rd content (wbuf w p) = bs \<and> getContinuation fd w = frag"

definition ws_closed :: "ptr \<Rightarrow> int \<Rightarrow> ('bev, 'b) worker \<Rightarrow> bool" where
  "ws_closed p fd w \<longleftrightarrow> map_of (sm_umapSession (wk_mgr w)) fd = None \<and> getContinuation fd w = None \<and> wsess w p = CSession_init"

text \<open>What the operations on the way leave alone.\<close>

definition ws_same :: "('bev, 'b) worker \<Rightarrow> ('bev, 'b) worker \<Rightarrow> bool" where
  "ws_same w w' \<longleftrightarrow> wk_calls w' = wk_calls w \<and> m_vcClinetType (wk_comm w') = m_vcClinetType (wk_comm w)
     \<and> m_vcSVLinkType (wk_comm w') = m_vcSVLinkType (wk_comm w)"

text \<open>
  Scripts that process a message of the session may do what they like except read its buffer, close it, or touch the parser, the collected
  parts, the configuration of the transformations and the record of the calls; \<^verbatim>\<open>onSockClose\<close> may not close sessions itself.
\<close>

definition ws_polite :: "('b \<Rightarrow> byte list) \<Rightarrow> ptr \<Rightarrow> int \<Rightarrow> ('bev, 'b) event_interface \<Rightarrow> bool" where
  "ws_polite content p fd iface \<longleftrightarrow> quiet (Some (onSockClose iface)) \<and>
     (\<forall>msg w. (ws_ready p fd w \<longrightarrow> ws_ready p fd (onSockRead iface msg w))
        \<and> rd content (wbuf (onSockRead iface msg w) p) = rd content (wbuf w p)
        \<and> wk_objWebSockParser (onSockRead iface msg w) = wk_objWebSockParser w
        \<and> wk_mapWebSockPack (onSockRead iface msg w) = wk_mapWebSockPack w \<and> ws_same w (onSockRead iface msg w))"

lemma wput_buf_ready: "(m_pReadBuffer eb = None \<longleftrightarrow> m_pReadBuffer (wbuf w p) = None) \<Longrightarrow> m_FD eb = m_FD (wbuf w p) \<Longrightarrow>
    ws_ready p fd (wput_buf p eb w) = ws_ready p fd w"
  by (simp add: ws_ready_def wput_buf_def wput_def sess_put_def heap_put_def)

lemma wput_buf_sel [simp]:
  "wk_calls (wput_buf p eb w) = wk_calls w" "wk_comm (wput_buf p eb w) = wk_comm w" "wk_objWebSockParser (wput_buf p eb w) = wk_objWebSockParser w"
  "getContinuation fd (wput_buf p eb w) = getContinuation fd w" "wbuf (wput_buf p eb w) p = eb"
  by (simp_all add: wput_buf_def getContinuation_def)

lemma ws_del_at:
  assumes "evbuffer_laws api content" "ws_at content p fd bs frag w" "ws_iParsedLens (wk_objWebSockParser w) = k"
  shows "ws_at content p fd (drop k bs) frag (ws_del api p w) \<and> ws_same w (ws_del api p w)"
  using assms delBuffer_rd [OF assms(1), of k "wbuf w p"] by (simp add: ws_at_def ws_del_def wput_buf_ready ws_same_def)

lemma ws_set_ping_at:
  "ws_at content p fd bs frag (ws_set_ping p w) = ws_at content p fd bs frag w"
  "wk_objWebSockParser (ws_set_ping p w) = wk_objWebSockParser w" "ws_same w (ws_set_ping p w)"
  by (simp_all add: ws_at_def ws_ready_def ws_set_ping_def getContinuation_def ws_same_def wput_def sess_put_def heap_put_def)

lemma writeBuffer_frame: "m_pReadBuffer (snd (writeBuffer api x eb)) = m_pReadBuffer eb" "m_FD (snd (writeBuffer api x eb)) = m_FD eb"
  by (simp_all add: writeBuffer_def split: option.split prod.split)

lemma ws_createHead_lens: "ws_iParsedLens (snd (ws_createHead sz fin code n p)) = ws_iParsedLens p"
  by (simp add: ws_createHead_def Let_def)

lemma ws_ping_at:
  "ws_at content p fd bs frag w \<Longrightarrow> ws_at content p fd bs frag (ws_ping sz api p w)"
  "ws_iParsedLens (wk_objWebSockParser (ws_ping sz api p w)) = ws_iParsedLens (wk_objWebSockParser w)" "ws_same w (ws_ping sz api p w)"
proof -
  obtain h wp where c: "ws_createHead sz True WSOCK_PONG 0 (wk_objWebSockParser w) = (h, wp)" by force
  let ?w = "w\<lparr>wk_objWebSockParser := wp\<rparr>"
  let ?eb = "snd (writeBuffer api (Some h) (wbuf w p))"
  have e: "ws_ping sz api p w = ws_set_ping p (wput_buf p ?eb ?w)" by (simp add: ws_ping_def c Let_def)
  have r: "rd content ?eb = rd content (wbuf w p)" by (simp add: rd_def writeBuffer_frame)
  have y: "ws_ready p fd ?w = ws_ready p fd w" "getContinuation fd ?w = getContinuation fd w"
    by (simp_all add: ws_ready_def getContinuation_def)
  show "ws_at content p fd bs frag w \<Longrightarrow> ws_at content p fd bs frag (ws_ping sz api p w)"
    unfolding e ws_set_ping_at by (simp add: ws_at_def r wput_buf_ready writeBuffer_frame y)
  show "ws_iParsedLens (wk_objWebSockParser (ws_ping sz api p w)) = ws_iParsedLens (wk_objWebSockParser w)"
    using ws_createHead_lens [of sz True WSOCK_PONG 0 "wk_objWebSockParser w"] by (simp add: e c ws_set_ping_at(2))
  show "ws_same w (ws_ping sz api p w)" by (simp add: e ws_same_def ws_set_ping_def)
qed

lemma continuation_at:
  assumes "ws_at content p fd bs frag w"
  shows "ws_at content p fd bs (Some (case frag of None \<Rightarrow> x | Some f \<Rightarrow> f @ x)) (addContinuation fd x w)"
    "frag \<noteq> None \<Longrightarrow> ws_at content p fd bs (Some []) (clearContinuation fd w)"
  using assms by (auto simp: ws_at_def ws_ready_def getContinuation_def addContinuation_def clearContinuation_def update_conv'
      split: option.splits)

lemma continuation_same:
  "ws_same w (addContinuation fd x w)" "ws_same w (clearContinuation fd w)"
  "wk_objWebSockParser (addContinuation fd x w) = wk_objWebSockParser w"
  by (simp_all add: ws_same_def addContinuation_def clearContinuation_def split: option.split)

lemma ws_hangup_closed:
  assumes "ws_ready p fd w" "quiet (Some (onSockClose iface))"
  shows "ws_closed p fd (ws_hangup api iface p w)" "ws_same w (ws_hangup api iface p w)"
proof -
  let ?m = "sess_unlink (Some (onSockClose iface)) fd p (wk_mgr w)"
  have u: "sm_umapSession ?m = sm_umapSession (wk_mgr w)"
    using assms(2) by (auto simp: sess_unlink_def Let_def quiet_def same_shape_def)
  have e: "closeLinkByID api (Some (onSockClose iface)) fd (wk_mgr w) = sess_release api fd p ?m"
    using assms(1) by (simp add: closeLinkByID_def ws_ready_def)
  show "ws_closed p fd (ws_hangup api iface p w)"
    using assms(1) e u by (simp add: ws_closed_def ws_hangup_def delContinuation_def getContinuation_def ws_ready_def getFD_def Let_def
        sess_release_def sess_put_def heap_put_def delete_conv')
  show "ws_same w (ws_hangup api iface p w)" by (simp add: ws_same_def ws_hangup_def delContinuation_def Let_def)
qed

lemma ws_decode_val:
  assumes "alloc_ok alloc" "stage_fits sz (decode_stage ops)" "comm_ready False (wk_comm w)"
    and "ws_getMsg (wk_objWebSockParser w) = m" "uiDataLens (ws_stFram (wk_objWebSockParser w)) = length m"
  shows "\<exists>ce. ws_decode sz alloc ops w = Inr (comm_dec ops False (m_vcClinetType (wk_comm w)) (m_vcSVLinkType (wk_comm w)) m, w\<lparr>wk_comm := ce\<rparr>)
     \<and> comm_ready False ce \<and> m_vcClinetType ce = m_vcClinetType (wk_comm w) \<and> m_vcSVLinkType ce = m_vcSVLinkType (wk_comm w)"
proof (cases "ws_pMsg (wk_objWebSockParser w)")
  case None
  then have "m = []" using assms(4) by (simp add: ws_getMsg_def)
  then show ?thesis using None assms(3) by (intro exI [of _ "wk_comm w"]) (simp add: ws_decode_def comm_Decode_def comm_code_def comm_fun_def)
next
  case (Some x)
  then have "x = m" using assms(4) by (simp add: ws_getMsg_def)
  then show ?thesis using comm_Decode_dec [OF assms(1-3), of m] Some assms(5) by (auto simp: ws_decode_def)
qed

lemma ws_give_at:
  assumes "ws_polite content p fd iface" "ws_at content p fd bs frag w"
  shows "ws_at content p fd bs frag (ws_give iface msg w)" "wk_objWebSockParser (ws_give iface msg w) = wk_objWebSockParser w"
    "wk_calls (ws_give iface msg w) = wk_calls w @ [msg]" "m_vcClinetType (wk_comm (ws_give iface msg w)) = m_vcClinetType (wk_comm w)"
    "m_vcSVLinkType (wk_comm (ws_give iface msg w)) = m_vcSVLinkType (wk_comm w)"
proof -
  let ?w = "w\<lparr>wk_calls := wk_calls w @ [msg]\<rparr>"
  have "ws_ready p fd ?w = ws_ready p fd w" by (simp add: ws_ready_def)
  then show "ws_at content p fd bs frag (ws_give iface msg w)"
    using assms by (simp add: ws_at_def ws_polite_def ws_give_def getContinuation_def)
qed (use assms(1) in \<open>simp_all add: ws_polite_def ws_give_def ws_same_def\<close>)

text \<open>The result of the handler: \<open>t\<close> is what \<^const>\<open>ws_stream\<close> says of the bytes in the buffer.\<close>

definition ws_does ::
  "('b \<Rightarrow> byte list) \<Rightarrow> ptr \<Rightarrow> int \<Rightarrow> ('bev, 'b) worker \<Rightarrow> (qerror + ('bev, 'b) worker) option
     \<Rightarrow> byte list list \<times> byte list option \<times> byte list \<times> bool \<Rightarrow> bool" where
  "ws_does content p fd w res t \<longleftrightarrow>
     (case t of (xs, frag, r, hang) \<Rightarrow>
        \<exists>w'. res = Some (Inr w') \<and> wk_calls w' = wk_calls w @ xs \<and> (if hang then ws_closed p fd w' else ws_at content p fd r frag w')
           \<and> m_vcClinetType (wk_comm w') = m_vcClinetType (wk_comm w) \<and> m_vcSVLinkType (wk_comm w') = m_vcSVLinkType (wk_comm w))"

lemma ws_does_same: "ws_does content p fd w1 res t \<Longrightarrow> ws_same w w1 \<Longrightarrow> ws_does content p fd w res t"
  by (auto simp: ws_does_def ws_same_def split: prod.splits)

lemma ws_does_msg:
  "ws_does content p fd w1 res t \<Longrightarrow> wk_calls w1 = wk_calls w @ [x] \<Longrightarrow> m_vcClinetType (wk_comm w1) = m_vcClinetType (wk_comm w) \<Longrightarrow>
   m_vcSVLinkType (wk_comm w1) = m_vcSVLinkType (wk_comm w) \<Longrightarrow> ws_does content p fd w res (apfst (Cons x) t)"
  by (cases t) (auto simp: ws_does_def)

lemma ws_same_trans: "ws_same w w1 \<Longrightarrow> ws_same w1 w2 \<Longrightarrow> ws_same w w2"
  by (simp add: ws_same_def)

lemma ws_parsed_at:
  assumes "ws_at content p fd bs frag w" "rd content eb = u" "(m_pReadBuffer eb = None) = (m_pReadBuffer (wbuf w p) = None)" "m_FD eb = m_FD (wbuf w p)"
  shows "ws_at content p fd u frag (wput_buf p eb (w\<lparr>wk_objWebSockParser := wp\<rparr>))" "ws_same w (wput_buf p eb (w\<lparr>wk_objWebSockParser := wp\<rparr>))"
proof -
  have y: "ws_ready p fd (w\<lparr>wk_objWebSockParser := wp\<rparr>) = ws_ready p fd w" "getContinuation fd (w\<lparr>wk_objWebSockParser := wp\<rparr>) = getContinuation fd w"
    by (simp_all add: ws_ready_def getContinuation_def)
  show "ws_at content p fd u frag (wput_buf p eb (w\<lparr>wk_objWebSockParser := wp\<rparr>))"
    using assms by (simp add: ws_at_def wput_buf_ready y)
  show "ws_same w (wput_buf p eb (w\<lparr>wk_objWebSockParser := wp\<rparr>))" by (simp add: ws_same_def)
qed

lemma ws_parsePack_frame:
  "ws_parsePack sz api eb p = Inr (r, eb', p') \<Longrightarrow> (m_pReadBuffer eb' = None \<longleftrightarrow> m_pReadBuffer eb = None) \<and> m_FD eb' = m_FD eb"
  by (auto simp: ws_parsePack_def pokeBuffer_def Let_def split: if_splits sum.splits prod.splits option.splits bool.splits)

text \<open>Decoding in a session that is served.\<close>

lemma ws_decode_at:
  assumes "alloc_ok alloc" "stage_fits sz (decode_stage ops)" "ws_at content p fd bs frag w"
    and "ws_getMsg (wk_objWebSockParser w) = m" "uiDataLens (ws_stFram (wk_objWebSockParser w)) = length m"
  obtains w1 where "ws_decode sz alloc ops w = Inr (comm_dec ops False (m_vcClinetType (wk_comm w)) (m_vcSVLinkType (wk_comm w)) m, w1)"
    "ws_at content p fd bs frag w1" "ws_same w w1" "wk_objWebSockParser w1 = wk_objWebSockParser w" "wk_calls w1 = wk_calls w"
proof -
  have r: "comm_ready False (wk_comm w)" using assms(3) by (simp add: ws_at_def ws_ready_def)
  obtain ce where ce: "ws_decode sz alloc ops w = Inr (comm_dec ops False (m_vcClinetType (wk_comm w)) (m_vcSVLinkType (wk_comm w)) m, w\<lparr>wk_comm := ce\<rparr>)"
      "comm_ready False ce" "m_vcClinetType ce = m_vcClinetType (wk_comm w)" "m_vcSVLinkType ce = m_vcSVLinkType (wk_comm w)"
    using ws_decode_val [OF assms(1,2) r assms(4,5)] by blast
  have "ws_at content p fd bs frag (w\<lparr>wk_comm := ce\<rparr>)"
    using assms(3) ce(2) by (simp add: ws_at_def ws_ready_def getContinuation_def)
  then show thesis using that ce by (simp add: ws_same_def)
qed

abbreviation wsdec :: "codec_ops \<Rightarrow> ('bev, 'b) worker \<Rightarrow> byte list \<Rightarrow> byte list option" where
  "wsdec ops w \<equiv> comm_dec ops False (m_vcClinetType (wk_comm w)) (m_vcSVLinkType (wk_comm w))"

text \<open>
  What follows the decoding of a data frame; \<open>f\<close> is the loop, which does what it should on the bytes \<open>r\<close> behind the frame.
\<close>

lemma ws_decode_then:
  assumes "alloc_ok alloc" "stage_fits sz (decode_stage ops)" "ws_at content p fd u frag w"
    and "ws_getMsg (wk_objWebSockParser w) = m" "uiDataLens (ws_stFram (wk_objWebSockParser w)) = length m"
    and "\<And>x w1. ws_at content p fd u frag w1 \<Longrightarrow> ws_same w w1 \<Longrightarrow> wk_objWebSockParser w1 = wk_objWebSockParser w \<Longrightarrow> ws_does content p fd w1 (g x w1) (t x)"
  shows "ws_does content p fd w
      (case ws_decode sz alloc ops w of
         Inl e \<Rightarrow> Some (Inl e)
       | Inr (pszMsg, w) \<Rightarrow> (case pszMsg of None \<Rightarrow> Some (Inr w) | Some msg \<Rightarrow> g msg w))
      (case wsdec ops w m of None \<Rightarrow> ([], frag, u, False) | Some x \<Rightarrow> t x)"
proof -
  obtain w1 where w1: "ws_decode sz alloc ops w = Inr (wsdec ops w m, w1)" "ws_at content p fd u frag w1" "ws_same w w1"
      "wk_objWebSockParser w1 = wk_objWebSockParser w" by (rule ws_decode_at [OF assms(1-5)])
  show ?thesis
    using w1 ws_does_same [OF assms(6) [OF w1(2-4)] w1(3)] by (cases "wsdec ops w m") (auto simp: ws_does_def ws_same_def)
qed

definition ws_cont ::
  "('b \<Rightarrow> byte list) \<Rightarrow> ptr \<Rightarrow> int \<Rightarrow> codec_ops \<Rightarrow> encrypt_type list \<Rightarrow> encrypt_type list \<Rightarrow> byte list
     \<Rightarrow> (('bev, 'b) worker \<Rightarrow> (qerror + ('bev, 'b) worker) option) \<Rightarrow> bool" where
  "ws_cont content p fd ops client server r f \<longleftrightarrow>
     (\<forall>w frag. ws_at content p fd r frag w \<longrightarrow> m_vcClinetType (wk_comm w) = client \<longrightarrow> m_vcSVLinkType (wk_comm w) = server \<longrightarrow>
        ws_does content p fd w (f w) (ws_stream (comm_dec ops False client server) frag r))"

lemma ws_contD:
  assumes "ws_cont content p fd ops (m_vcClinetType (wk_comm w)) (m_vcSVLinkType (wk_comm w)) r f" "ws_at content p fd r frag w1"
    and "m_vcClinetType (wk_comm w1) = m_vcClinetType (wk_comm w)" "m_vcSVLinkType (wk_comm w1) = m_vcSVLinkType (wk_comm w)"
  shows "ws_does content p fd w1 (f w1) (ws_stream (wsdec ops w) frag r)"
  using assms by (simp add: ws_cont_def)

lemma ws_at_open: "ws_at content p fd bs frag w \<Longrightarrow> SESSSTATUS_CLOSED \<noteq> m_emStatus (wsess w p)"
  by (auto simp: ws_at_def ws_ready_def)

lemma ws_single_frame:
  assumes "evbuffer_laws api content" "ws_polite content p fd iface" "ws_at content p fd u frag w" "ws_iParsedLens (wk_objWebSockParser w) = k"
    and f: "ws_cont content p fd ops (m_vcClinetType (wk_comm w)) (m_vcSVLinkType (wk_comm w)) (drop k u) f"
  shows "ws_does content p fd w
      (let w = ws_give iface x w
       in if SESSSTATUS_CLOSED = m_emStatus (wsess w p) then Some (Inr (delContinuation sock w)) else f (ws_del api p w))
      (apfst (Cons x) (ws_stream (wsdec ops w) frag (drop k u)))"
proof -
  let ?g = "ws_give iface x w"
  note g = ws_give_at [OF assms(2,3), of x]
  have d: "ws_at content p fd (drop k u) frag (ws_del api p ?g)" "ws_same ?g (ws_del api p ?g)"
    using ws_del_at [OF assms(1) g(1), of k] g(2) assms(4) by simp_all
  have "ws_does content p fd w (f (ws_del api p ?g)) (apfst (Cons x) (ws_stream (wsdec ops w) frag (drop k u)))"
    by (rule ws_does_msg [OF ws_contD [OF f d(1)]]) (use d(2) g(3-5) in \<open>simp_all add: ws_same_def\<close>)
  then show ?thesis using ws_at_open [OF g(1)] by simp
qed

lemma ws_last_frame:
  assumes "evbuffer_laws api content" "ws_polite content p fd iface" "ws_at content p fd u (Some strBuf) w" "ws_iParsedLens (wk_objWebSockParser w) = k"
    and f: "ws_cont content p fd ops (m_vcClinetType (wk_comm w)) (m_vcSVLinkType (wk_comm w)) (drop k u) f"
  shows "ws_does content p fd w
      (let w = ws_give iface (strBuf @ x) (addContinuation fd x w)
       in if SESSSTATUS_CLOSED = m_emStatus (wsess w p) then Some (Inr (delContinuation sock w))
          else f (clearContinuation fd (ws_del api p w)))
      (apfst (Cons (strBuf @ x)) (ws_stream (wsdec ops w) (Some []) (drop k u)))"
proof -
  let ?a = "addContinuation fd x w" and ?g = "ws_give iface (strBuf @ x) (addContinuation fd x w)"
  have a: "ws_at content p fd u (Some (strBuf @ x)) ?a" using continuation_at(1) [OF assms(3), of x] by simp
  note g = ws_give_at [OF assms(2) a, of "strBuf @ x"]
  have d: "ws_at content p fd (drop k u) (Some (strBuf @ x)) (ws_del api p ?g)" "ws_same ?g (ws_del api p ?g)"
    using ws_del_at [OF assms(1) g(1), of k] g(2) assms(4) by (simp_all add: continuation_same)
  have c: "ws_at content p fd (drop k u) (Some []) (clearContinuation fd (ws_del api p ?g))" using continuation_at(2) [OF d(1)] by simp
  have "ws_does content p fd w (f (clearContinuation fd (ws_del api p ?g))) (apfst (Cons (strBuf @ x)) (ws_stream (wsdec ops w) (Some []) (drop k u)))"
    by (rule ws_does_msg [OF ws_contD [OF f c]])
      (use d(2) g(3-5) continuation_same(1) [of w fd x] continuation_same(2) [of "ws_del api p ?g" fd] in \<open>simp_all add: ws_same_def\<close>)
  then show ?thesis using ws_at_open [OF g(1)] by simp
qed

lemma ws_part_frame:
  assumes "evbuffer_laws api content" "ws_at content p fd u frag w" "ws_iParsedLens (wk_objWebSockParser w) = k"
    and f: "ws_cont content p fd ops (m_vcClinetType (wk_comm w)) (m_vcSVLinkType (wk_comm w)) (drop k u) f"
  shows "ws_does content p fd w (f (ws_del api p (addContinuation fd x w)))
      (ws_stream (wsdec ops w) (Some (case frag of None \<Rightarrow> x | Some f \<Rightarrow> f @ x)) (drop k u))"
proof -
  let ?a = "addContinuation fd x w"
  have d: "ws_at content p fd (drop k u) (Some (case frag of None \<Rightarrow> x | Some f \<Rightarrow> f @ x)) (ws_del api p ?a)" "ws_same ?a (ws_del api p ?a)"
    using ws_del_at [OF assms(1) continuation_at(1) [OF assms(2)], of x k] assms(3) by (simp_all add: continuation_same)
  have "ws_same w (ws_del api p ?a)" using d(2) continuation_same(1) ws_same_trans by blast
  then show ?thesis by (intro ws_does_same [OF ws_contD [OF f d(1)]]) (simp_all add: ws_same_def)
qed

text \<open>A data frame from the decoding on: a message in one frame, the last frame of a message and any other.\<close>

lemma ws_single_data:
  assumes env: "evbuffer_laws api content" "alloc_ok alloc" "stage_fits sz (decode_stage ops)" "ws_polite content p fd iface"
    and at: "ws_at content p fd u frag w" "ws_getMsg (wk_objWebSockParser w) = m" "uiDataLens (ws_stFram (wk_objWebSockParser w)) = length m"
      "ws_iParsedLens (wk_objWebSockParser w) = k"
    and f: "ws_cont content p fd ops (m_vcClinetType (wk_comm w)) (m_vcSVLinkType (wk_comm w)) (drop k u) f"
  shows "ws_does content p fd w
      (case ws_decode sz alloc ops w of
         Inl e \<Rightarrow> Some (Inl e)
       | Inr (pszMsg, w) \<Rightarrow>
          (case pszMsg of
             None \<Rightarrow> Some (Inr w)
           | Some msg \<Rightarrow>
               let w = ws_give iface msg w
               in if SESSSTATUS_CLOSED = m_emStatus (wsess w p) then Some (Inr (delContinuation sock w)) else f (ws_del api p w)))
      (case wsdec ops w m of None \<Rightarrow> ([], frag, u, False) | Some x \<Rightarrow> apfst (Cons x) (ws_stream (wsdec ops w) frag (drop k u)))"
proof (rule ws_decode_then [OF env(2,3) at(1-3)], goal_cases)
  case (1 x w1)
  then show ?case using ws_single_frame [OF env(1,4) 1(1), of k ops f x sock] at(4) f by (simp add: ws_same_def)
qed

lemma ws_last_data:
  assumes env: "evbuffer_laws api content" "alloc_ok alloc" "stage_fits sz (decode_stage ops)" "ws_polite content p fd iface"
    and at: "ws_at content p fd u (Some strBuf) w" "ws_getMsg (wk_objWebSockParser w) = m" "uiDataLens (ws_stFram (wk_objWebSockParser w)) = length m"
      "ws_iParsedLens (wk_objWebSockParser w) = k"
    and f: "ws_cont content p fd ops (m_vcClinetType (wk_comm w)) (m_vcSVLinkType (wk_comm w)) (drop k u) f"
  shows "ws_does content p fd w
      (case ws_decode sz alloc ops w of
         Inl e \<Rightarrow> Some (Inl e)
       | Inr (pszMsg, w) \<Rightarrow>
          (case pszMsg of
             None \<Rightarrow> Some (Inr w)
           | Some msg \<Rightarrow>
               let w = ws_give iface (strBuf @ msg) (addContinuation fd msg w)
               in if SESSSTATUS_CLOSED = m_emStatus (wsess w p) then Some (Inr (delContinuation sock w))
                  else f (clearContinuation fd (ws_del api p w))))
      (case wsdec ops w m of
         None \<Rightarrow> ([], Some strBuf, u, False) | Some x \<Rightarrow> apfst (Cons (strBuf @ x)) (ws_stream (wsdec ops w) (Some []) (drop k u)))"
proof (rule ws_decode_then [OF env(2,3) at(1-3)], goal_cases)
  case (1 x w1)
  then show ?case using ws_last_frame [OF env(1,4) 1(1), of k ops f x sock] at(4) f by (simp add: ws_same_def)
qed

lemma ws_part_data:
  assumes env: "evbuffer_laws api content" "alloc_ok alloc" "stage_fits sz (decode_stage ops)" "ws_polite content p fd iface"
    and at: "ws_at content p fd u frag w" "ws_getMsg (wk_objWebSockParser w) = m" "uiDataLens (ws_stFram (wk_objWebSockParser w)) = length m"
      "ws_iParsedLens (wk_objWebSockParser w) = k"
    and f: "ws_cont content p fd ops (m_vcClinetType (wk_comm w)) (m_vcSVLinkType (wk_comm w)) (drop k u) f"
  shows "ws_does content p fd w
      (case ws_decode sz alloc ops w of
         Inl e \<Rightarrow> Some (Inl e)
       | Inr (pszMsg, w) \<Rightarrow> (case pszMsg of None \<Rightarrow> Some (Inr w) | Some msg \<Rightarrow> f (ws_del api p (addContinuation fd msg w))))
      (case wsdec ops w m of
         None \<Rightarrow> ([], frag, u, False)
       | Some x \<Rightarrow> ws_stream (wsdec ops w) (Some (case frag of None \<Rightarrow> x | Some f \<Rightarrow> f @ x)) (drop k u))"
proof (rule ws_decode_then [OF env(2,3) at(1-3)], goal_cases)
  case (1 x w1)
  then show ?case using ws_part_frame [OF env(1) 1(1), of k ops f x] at(4) f by (simp add: ws_same_def)
qed

lemma ws_skip_frame:
  assumes "evbuffer_laws api content" "ws_at content p fd u frag w1" "ws_iParsedLens (wk_objWebSockParser w1) = k" "ws_same w w1"
    and f: "ws_cont content p fd ops (m_vcClinetType (wk_comm w)) (m_vcSVLinkType (wk_comm w)) (drop k u) f"
  shows "ws_does content p fd w (f (ws_del api p w1)) (ws_stream (wsdec ops w) frag (drop k u))"
proof -
  have d: "ws_at content p fd (drop k u) frag (ws_del api p w1)" "ws_same w (ws_del api p w1)"
    using ws_del_at [OF assms(1-3)] assms(4) ws_same_trans by blast+
  show ?thesis by (rule ws_does_same [OF ws_contD [OF f d(1)] d(2)]) (use d(2) in \<open>simp_all add: ws_same_def\<close>)
qed

lemma ws_drop_used: "ws_next bs = Frame fin code m k \<Longrightarrow> drop k (take (k - length m) bs @ m @ drop k bs) = drop k bs"
proof -
  assume "ws_next bs = Frame fin code m k"
  note u = ws_next_used [OF this]
  have "length (take (k - length m) bs @ m) = k" using u by auto
  then show ?thesis by (metis append.assoc append_eq_conv_conj)
qed

text \<open>One round of the loop for a complete frame.\<close>

lemma ws_frame_round:
  assumes laws: "evbuffer_laws api content" and al: "alloc_ok alloc" and fits: "stage_fits sz (decode_stage ops)" and pol: "ws_polite content p fd iface"
    and pp: "ws_parsePack sz api (wbuf w p) (wk_objWebSockParser w) = Inr (True, eb, wp)" "\<not> ws_bClose wp" "ws_iParsedLens wp = k" "ws_getMsg wp = m"
      "uiDataLens (ws_stFram wp) = length m" "(cFin (ws_stFram wp) = 1) = fin" "emOpCode (ws_stFram wp) = code"
    and nx: "ws_next bs = Frame fin code m k" "u = take (k - length m) bs @ m @ drop k bs"
    and w1: "w1 = wput_buf p eb (w\<lparr>wk_objWebSockParser := wp\<rparr>)" and at: "ws_at content p fd u frag w1"
    and hang: "\<And>x y. ws_does content p fd w1 (Some (Inr (ws_hangup api iface p w1))) ([], x, y, True)"
    and f: "ws_cont content p fd ops (m_vcClinetType (wk_comm w1)) (m_vcSVLinkType (wk_comm w1)) (drop k u) (dispWebSock_loop sz alloc ops api iface p)"
  shows "ws_does content p fd w1 (dispWebSock_loop sz alloc ops api iface p w) (ws_stream (wsdec ops w1) frag bs)"
proof -
  let ?f = "dispWebSock_loop sz alloc ops api iface p"
  have du: "drop k u = drop k bs" using ws_drop_used [OF nx(1)] by (simp add: nx(2))
  have fd: "getFD (wbuf w1 p) = fd" "getContinuation fd w1 = frag" using at by (simp_all add: getFD_def ws_at_def ws_ready_def)
  have wp: "wk_objWebSockParser w1 = wp" by (simp add: w1)
  have m: "ws_getMsg (wk_objWebSockParser w1) = m" "uiDataLens (ws_stFram (wk_objWebSockParser w1)) = length m"
      "ws_iParsedLens (wk_objWebSockParser w1) = k" by (simp_all add: wp pp(3-5))
  note e = dispWebSock_loop.simps [of sz alloc ops api iface p w] pp(1) w1 [symmetric] pp(2,7) fd Let_def
  note st = ws_stream.simps [of _ frag bs] nx(1)
  have c: "WSOCK_PING \<noteq> WSOCK_CLOSE" "WSOCK_PONG \<noteq> WSOCK_CLOSE" "WSOCK_PONG \<noteq> WSOCK_PING"
    by (simp_all add: WSOCK_CLOSE_def WSOCK_PING_def WSOCK_PONG_def)
  consider "code = WSOCK_CLOSE" | "code = WSOCK_PING" | "code = WSOCK_PONG"
    | "code \<noteq> WSOCK_CLOSE" "code \<noteq> WSOCK_PING" "code \<noteq> WSOCK_PONG" by blast
  then show ?thesis
  proof cases
    case 1
    then show ?thesis using hang by (simp add: e st)
  next
    case 2
    have "ws_does content p fd w1 (?f (ws_del api p (ws_ping sz api p w1))) (ws_stream (wsdec ops w1) frag (drop k u))"
      by (rule ws_skip_frame [OF laws ws_ping_at(1) [OF at] _ ws_ping_at(3) f]) (simp add: ws_ping_at(2) m(3))
    then show ?thesis using 2 c by (simp add: e st du)
  next
    case 3
    have "ws_does content p fd w1 (?f (ws_del api p (ws_set_ping p w1))) (ws_stream (wsdec ops w1) frag (drop k u))"
      by (rule ws_skip_frame [OF laws _ _ ws_set_ping_at(3) f]) (simp_all add: ws_set_ping_at(1,2) m(3) at)
    then show ?thesis using 3 c by (simp add: e st du)
  next
    case 4
    consider "code \<noteq> WSOCK_CONTINUATION" "fin" | "code = WSOCK_CONTINUATION" "fin" "frag = None"
      | g where "code = WSOCK_CONTINUATION" "fin" "frag = Some g" | "\<not> fin" by (cases frag) auto
    then show ?thesis
    proof cases
      case 1
      have s: "ws_stream (wsdec ops w1) frag bs = (case wsdec ops w1 m of
          None \<Rightarrow> ([], frag, u, False) | Some x \<Rightarrow> apfst (Cons x) (ws_stream (wsdec ops w1) frag (drop k u)))"
        unfolding st du using 1 4 by (simp add: nx(2) split: option.split)
      have "1 = cFin (ws_stFram wp)" "WSOCK_CONTINUATION \<noteq> code" using 1 pp(6) by auto
      then show ?thesis using 4 ws_single_data [OF laws al fits pol at m f, of fd] unfolding s by (simp add: e)
    next
      case 2
      have "ws_does content p fd w1 (?f (ws_del api p w1)) (ws_stream (wsdec ops w1) frag (drop k u))"
        by (rule ws_skip_frame [OF laws at m(3) _ f]) (simp add: ws_same_def)
      moreover have "ws_stream (wsdec ops w1) frag bs = ws_stream (wsdec ops w1) frag (drop k u)"
        unfolding st du using 2 4 by simp
      moreover have "1 = cFin (ws_stFram wp)" using 2(2) pp(6) by auto
      ultimately show ?thesis using 2(1,3) 4 by (simp add: e)
    next
      case 3
      have s: "ws_stream (wsdec ops w1) frag bs = (case wsdec ops w1 m of
          None \<Rightarrow> ([], Some g, u, False) | Some x \<Rightarrow> apfst (Cons (g @ x)) (ws_stream (wsdec ops w1) (Some []) (drop k u)))"
        unfolding st du using 3 4 by (simp add: nx(2) split: option.split)
      have "1 = cFin (ws_stFram wp)" using 3(2) pp(6) by auto
      then show ?thesis using 3(1,3) 4 ws_last_data [OF laws al fits pol at [unfolded 3(3)] m f, of fd] unfolding s by (simp add: e)
    next
      case 5: 4
      have s: "ws_stream (wsdec ops w1) frag bs = (case wsdec ops w1 m of
          None \<Rightarrow> ([], frag, u, False) | Some x \<Rightarrow> ws_stream (wsdec ops w1) (Some (case frag of None \<Rightarrow> x | Some f \<Rightarrow> f @ x)) (drop k u))"
        unfolding st du using 5 4 by (simp add: nx(2) split: option.split)
      have "1 \<noteq> cFin (ws_stFram wp)" using 5 pp(6) by auto
      then show ?thesis using 4 ws_part_data [OF laws al fits pol at m f] unfolding s by (simp add: e)
    qed
  qed
qed

lemma dispWebSock_loop_stream:
  assumes laws: "evbuffer_laws api content" and al: "alloc_ok alloc" and fits: "stage_fits sz (decode_stage ops)"
    and pol: "ws_polite content p fd iface" and sz: "sz = 4 \<or> sz = 8"
    and "ws_at content p fd bs frag w" "2 * length bs < size_mod sz" "ws_clean sz bs"
  shows "ws_does content p fd w (dispWebSock_loop sz alloc ops api iface p w) (ws_stream (wsdec ops w) frag bs)"
  using assms(6-)
proof (induction "length bs" arbitrary: bs w frag rule: less_induct)
  case less
  note at = less.prems(1)
  have bs: "bs = rd content (wbuf w p)" using at by (simp add: ws_at_def)
  have "\<not> ws_wraps sz bs" using less.prems(3) by (simp add: ws_clean.simps [of sz bs])
  note v = ws_parsePack_view [OF laws bs less.prems(2) sz this, of "wk_objWebSockParser w", unfolded ws_parses_def bs [symmetric]]
  then obtain r eb wp where pp: "ws_parsePack sz api (wbuf w p) (wk_objWebSockParser w) = Inr (r, eb, wp)" by blast
  note fr = ws_parsePack_frame [OF pp]
  define w1 where "w1 = wput_buf p eb (w\<lparr>wk_objWebSockParser := wp\<rparr>)"
  have sm: "ws_same w w1" by (simp add: ws_same_def w1_def)
  have at1: "ws_at content p fd (rd content eb) frag w1" unfolding w1_def by (rule ws_parsed_at [OF at]) (use fr in simp_all)
  have hang: "ws_does content p fd w1 (Some (Inr (ws_hangup api iface p w1))) ([], x, y, True)" for x y
    using ws_hangup_closed [of p fd w1 iface api] at1 pol by (auto simp: ws_does_def ws_at_def ws_polite_def ws_same_def)
  have "ws_does content p fd w1 (dispWebSock_loop sz alloc ops api iface p w) (ws_stream (wsdec ops w) frag bs)"
  proof (cases "ws_next bs")
    case Incomplete
    then have r: "\<not> r" "eb = wbuf w p" "\<not> ws_bClose wp" using v pp by auto
    have "dispWebSock_loop sz alloc ops api iface p w = Some (Inr w1)"
      using pp r(1,3) by (subst dispWebSock_loop.simps) (simp add: w1_def Let_def)
    moreover have "ws_at content p fd bs frag w1" using at1 r(2) bs by simp
    ultimately show ?thesis using Incomplete by (simp add: ws_stream.simps [of _ _ bs] ws_does_def)
  next
    case Refused
    then have "ws_bClose wp" using v pp by auto
    then show ?thesis using pp Refused hang
      by (subst dispWebSock_loop.simps) (simp add: w1_def [symmetric] ws_stream.simps [of _ _ bs] Let_def)
  next
    case (Frame fin code m k)
    note k = ws_next_used [OF Frame]
    let ?u = "take (k - length m) bs @ m @ drop k bs"
    have r: "r" "\<not> ws_bClose wp" "ws_iParsedLens wp = k" "ws_getMsg wp = m" "uiDataLens (ws_stFram wp) = length m" "(cFin (ws_stFram wp) = 1) = fin"
        "emOpCode (ws_stFram wp) = code" "rd content eb = ?u" using v pp Frame by auto
    have du: "drop k ?u = drop k bs" by (rule ws_drop_used [OF Frame])
    have ih: "ws_cont content p fd ops (m_vcClinetType (wk_comm w1)) (m_vcSVLinkType (wk_comm w1)) (drop k ?u) (dispWebSock_loop sz alloc ops api iface p)"
      unfolding ws_cont_def du
    proof (intro allI impI, goal_cases)
      case a: (1 w2 frag2)
      have "length (drop k bs) < length bs" "2 * length (drop k bs) < size_mod sz" "ws_clean sz (drop k bs)"
        using k less.prems(2,3) Frame by (auto simp: ws_clean.simps [of sz bs])
      from less.hyps [OF this(1) a(1) this(2,3)] show ?case unfolding a(2,3) .
    qed
    have "wsdec ops w1 = wsdec ops w" by (simp add: w1_def)
    then show ?thesis
      using ws_frame_round [OF laws al fits pol _ r(2-7) Frame refl w1_def at1 [unfolded r(8)] hang ih] pp r(1) by simp
  qed
  then show ?case by (rule ws_does_same [OF _ sm])
qed


section \<open>Messages of a client\<close>

text \<open>A message in one frame or in several, each with its masking key.\<close>

fun ws_parts :: "byte \<Rightarrow> (byte list \<times> byte list) list \<Rightarrow> byte list" where
  "ws_parts code [] = []"
| "ws_parts code [(key, m)] = ws_client_frame True code key m"
| "ws_parts code ((key, m) # ps) = ws_client_frame False code key m @ ws_parts WSOCK_CONTINUATION ps"

definition data_code :: "byte \<Rightarrow> bool" where
  "data_code code \<longleftrightarrow> unat code < 16 \<and> code \<noteq> WSOCK_CONTINUATION \<and> code \<noteq> WSOCK_CLOSE \<and> code \<noteq> WSOCK_PING \<and> code \<noteq> WSOCK_PONG"

definition part_ok :: "nat \<Rightarrow> byte list \<times> byte list \<Rightarrow> bool" where
  "part_ok sz km \<longleftrightarrow> length (fst km) = 4 \<and> length (snd km) < size_mod sz - 14 \<and> size_mod sz \<le> 2 ^ 64"

lemma cont_codes: "unat WSOCK_CONTINUATION < 16" "WSOCK_CONTINUATION \<noteq> WSOCK_CLOSE" "WSOCK_CONTINUATION \<noteq> WSOCK_PING" "WSOCK_CONTINUATION \<noteq> WSOCK_PONG"
  by (simp_all add: WSOCK_CONTINUATION_def WSOCK_CLOSE_def WSOCK_PING_def WSOCK_PONG_def)

lemma part_okD:
  assumes "part_ok sz (key, m)"
  shows "length key = 4" "length m < 2 ^ 64" "length m < size_mod sz - 14"
  using assms by (simp_all add: part_ok_def) linarith

lemma ws_wraps_frame:
  assumes "part_ok sz (key, m)" "unat code < 16"
  shows "\<not> ws_wraps sz (ws_client_frame fin code key m @ rest)"
  using ws_client_frame_lens(2) [OF assms(2) part_okD(1,2) [OF assms(1)] refl refl, of fin rest] part_okD(3) [OF assms(1)]
  by (auto simp: ws_wraps_def ws_lens_def)

lemma ws_stream_frame:
  assumes "part_ok sz (key, m)" "dec m = Some x" "unat code < 16" "code \<noteq> WSOCK_CLOSE" "code \<noteq> WSOCK_PING" "code \<noteq> WSOCK_PONG"
  shows "code \<noteq> WSOCK_CONTINUATION \<Longrightarrow> ws_stream dec frag (ws_client_frame True code key m @ rest) = apfst (Cons x) (ws_stream dec frag rest)"
    "code = WSOCK_CONTINUATION \<Longrightarrow> ws_stream dec (Some f) (ws_client_frame True code key m @ rest) = apfst (Cons (f @ x)) (ws_stream dec (Some []) rest)"
    "ws_stream dec frag (ws_client_frame False code key m @ rest) = ws_stream dec (Some (case frag of None \<Rightarrow> x | Some f \<Rightarrow> f @ x)) rest"
proof -
  note nx = ws_next_client_frame [OF assms(3) part_okD(1,2) [OF assms(1)]]
  show "code \<noteq> WSOCK_CONTINUATION \<Longrightarrow> ws_stream dec frag (ws_client_frame True code key m @ rest) = apfst (Cons x) (ws_stream dec frag rest)"
    using assms(2-) by (subst ws_stream.simps) (simp add: nx)
  show "code = WSOCK_CONTINUATION \<Longrightarrow> ws_stream dec (Some f) (ws_client_frame True code key m @ rest) = apfst (Cons (f @ x)) (ws_stream dec (Some []) rest)"
    using assms(2-) nx [of True rest] by (subst ws_stream.simps) simp
  show "ws_stream dec frag (ws_client_frame False code key m @ rest) = ws_stream dec (Some (case frag of None \<Rightarrow> x | Some f \<Rightarrow> f @ x)) rest"
    using assms(2-) by (subst ws_stream.simps) (simp add: nx)
qed

lemma ws_stream_tail:
  assumes "ps \<noteq> []" "\<forall>km \<in> set ps. part_ok sz km" "map (dec \<circ> snd) ps = map Some xs"
  shows "ws_stream dec (Some f) (ws_parts WSOCK_CONTINUATION ps @ rest) = apfst (Cons (f @ concat xs)) (ws_stream dec (Some []) rest)"
  using assms
proof (induction WSOCK_CONTINUATION ps arbitrary: f xs rule: ws_parts.induct)
  case (2 key m)
  then obtain x where "xs = [x]" "dec m = Some x" by (auto simp: map_eq_Cons_conv)
  then show ?case using ws_stream_frame(2) [where dec = dec and m = m and x = x and key = key and sz = sz, OF _ _ cont_codes refl] 2 by simp
next
  case (3 key m q ps)
  then obtain x ys where xs: "xs = x # ys" "dec m = Some x" "map (dec \<circ> snd) (q # ps) = map Some ys" by (auto simp: Cons_eq_map_conv)
  then show ?case using ws_stream_frame(3) [where dec = dec and m = m and x = x and key = key and sz = sz and frag = "Some f", OF _ xs(2) cont_codes] 3(1) [of ys "f @ x"] 3(3) by simp
qed simp

lemma ws_stream_message:
  assumes "data_code code" "ps \<noteq> []" "\<forall>km \<in> set ps. part_ok sz km" "map (dec \<circ> snd) ps = map Some xs" "frag = None \<or> frag = Some []"
  shows "\<exists>frag'. (frag' = None \<or> frag' = Some []) \<and> ws_stream dec frag (ws_parts code ps @ rest) = apfst (Cons (concat xs)) (ws_stream dec frag' rest)"
proof -
  note c = assms(1) [unfolded data_code_def]
  obtain key m qs where ps: "ps = (key, m) # qs" using assms(2) by (cases ps) auto
  obtain x ys where xs: "xs = x # ys" "dec m = Some x" "map (dec \<circ> snd) qs = map Some ys" using assms(4) ps by (auto simp: Cons_eq_map_conv)
  have ok: "part_ok sz (key, m)" "\<forall>km \<in> set qs. part_ok sz km" using assms(3) ps by simp_all
  show ?thesis
  proof (cases qs)
    case Nil
    then show ?thesis using ws_stream_frame(1) [where dec = dec and m = m and x = x and code = code, OF ok(1) xs(2)] c assms(5) ps xs by auto
  next
    case (Cons q rs)
    have "ws_stream dec frag (ws_parts code ps @ rest) = ws_stream dec (Some x) (ws_parts WSOCK_CONTINUATION qs @ rest)"
      using ws_stream_frame(3) [where dec = dec and m = m and x = x and code = code, OF ok(1) xs(2)] c assms(5) ps Cons by (cases q) auto
    then show ?thesis using ws_stream_tail [OF _ ok(2) xs(3)] Cons xs(1) by auto
  qed
qed

lemma ws_clean_frame:
  assumes "part_ok sz (key, m)" "unat code < 16" "ws_clean sz rest"
  shows "ws_clean sz (ws_client_frame fin code key m @ rest)"
  using ws_wraps_frame [OF assms(1,2)] ws_next_client_frame [OF assms(2) part_okD(1,2) [OF assms(1)]] assms(3)
  by (subst ws_clean.simps) simp

lemma ws_clean_parts:
  "unat code < 16 \<Longrightarrow> \<forall>km \<in> set ps. part_ok sz km \<Longrightarrow> ws_clean sz rest \<Longrightarrow> ws_clean sz (ws_parts code ps @ rest)"
  by (induction code ps rule: ws_parts.induct) (simp_all add: ws_clean_frame cont_codes)

definition client_ok :: "nat \<Rightarrow> (byte list \<Rightarrow> byte list option) \<Rightarrow> byte \<times> (byte list \<times> byte list) list \<Rightarrow> byte list \<Rightarrow> bool" where
  "client_ok sz dec cp msg \<longleftrightarrow> data_code (fst cp) \<and> snd cp \<noteq> [] \<and> (\<forall>km \<in> set (snd cp). part_ok sz km)
     \<and> (\<exists>xs. map (dec \<circ> snd) (snd cp) = map Some xs \<and> concat xs = msg)"

abbreviation client_stream :: "(byte \<times> (byte list \<times> byte list) list) list \<Rightarrow> byte list" where
  "client_stream cps \<equiv> concat (map (\<lambda>cp. ws_parts (fst cp) (snd cp)) cps)"

lemma ws_stream_nil: "ws_stream dec frag [] = ([], frag, [], False)" "ws_clean sz []"
  by (simp_all add: ws_stream.simps [of _ _ "[]"] ws_clean.simps [of _ "[]"] ws_next_def ws_wraps_def)

lemma ws_stream_messages:
  assumes "list_all2 (client_ok sz dec) cps msgs" "frag = None \<or> frag = Some []"
  shows "ws_clean sz (client_stream cps)" "\<exists>frag'. ws_stream dec frag (client_stream cps) = (msgs, frag', [], False)"
proof -
  have "ws_clean sz (client_stream cps) \<and> (\<exists>frag'. ws_stream dec frag (client_stream cps) = (msgs, frag', [], False))"
    using assms
  proof (induction arbitrary: frag rule: list_all2_induct)
    case (Cons cp cps msg msgs)
    obtain xs where c: "data_code (fst cp)" "snd cp \<noteq> []" "\<forall>km \<in> set (snd cp). part_ok sz km" "map (dec \<circ> snd) (snd cp) = map Some xs" "concat xs = msg"
      using Cons(1) by (auto simp: client_ok_def)
    obtain f where f: "f = None \<or> f = Some []"
        "ws_stream dec frag (client_stream (cp # cps)) = apfst (Cons msg) (ws_stream dec f (client_stream cps))"
      using ws_stream_message [OF c(1-4) Cons.prems, of "client_stream cps"] c(5) by auto
    show ?case using f Cons.IH [OF f(1)] ws_clean_parts [of "fst cp" "snd cp" sz "client_stream cps"] c by (auto simp: data_code_def)
  qed (simp add: ws_stream_nil)
  then show "ws_clean sz (client_stream cps)" "\<exists>frag'. ws_stream dec frag (client_stream cps) = (msgs, frag', [], False)" by blast+
qed

text \<open>
  C5. What a client sends arrives: for messages cut into any number of masked frames, with the parts encoded one by one, the handler passes on
  the messages in order, each exactly once and whole, and leaves nothing in the buffer.
\<close>

theorem ws_delivery:
  assumes "evbuffer_laws api content" "alloc_ok alloc" "stage_fits sz (decode_stage ops)" "ws_polite content p fd iface" "sz = 4 \<or> sz = 8"
    and "ws_at content p fd (client_stream cps) None w" "2 * length (client_stream cps) < size_mod sz"
    and "list_all2 (client_ok sz (wsdec ops w)) cps msgs"
  shows "\<exists>w'. dispWebSock sz alloc ops api iface behind p w = Some (Inr w') \<and> wk_calls w' = wk_calls w @ msgs \<and> rd content (wbuf w' p) = []"
proof -
  obtain frag' where "ws_stream (wsdec ops w) None (client_stream cps) = (msgs, frag', [], False)"
    using ws_stream_messages(2) [OF assms(8)] by blast
  then show ?thesis
    using dispWebSock_loop_stream [OF assms(1-7) ws_stream_messages(1) [OF assms(8)]] assms(6)
    by (auto simp: ws_does_def ws_at_def ws_ready_def dispWebSock_def)
qed

section \<open>The hypotheses hold\<close>

text \<open>A session on socket 7 with scripts that do nothing and messages as they are: \<open>Hi!\<close> in two frames with a ping in between.\<close>

definition ws_worker :: "byte list \<Rightarrow> (int, byte list) worker" where
  "ws_worker bs = \<lparr>wk_mgr = \<lparr>sm_uiTimer = 0, sm_uiCount = 0, sm_pCurrent = 0, sm_umapSession = [(7, 1)],
       sm_objSessionPool = \<lparr>pool_uiCount = 1, m_lstUsed = [1], m_quFree = []\<rparr>,
       sm_heap = \<lparr>hp_obj = \<lambda>_. CSession_init\<lparr>m_emSessionType := STYPE_WEBSOCK, m_emStatus := SESSSTATUS_LINKED, m_iSessionID := 7,
           m_objBuffer := \<lparr>m_pBev = Some 7, m_pReadBuffer = Some bs, m_pWriteBuffer = Some [], m_FD = 7\<rparr>\<rparr>, hp_next = 2\<rparr>,
       sm_link = [], sm_freed = []\<rparr>,
     wk_objTcpParser = CTcpParser_init, wk_objWebSockParser = CWebSockParser_init zero_sha1, wk_mapWebSockPack = [],
     sm_objTcpParser = CTcpParser_init, sm_objWebSockParser = CWebSockParser_init zero_sha1,
     wk_comm = \<lparr>ce_objBuffer = \<lparr>m_pBuffer = None, m_iOffset = 0, m_iTotalSize = 0\<rparr>, m_vcClinetType = [], m_vcSVLinkType = []\<rparr>,
     wk_calls = [], wk_closed = []\<rparr>"

definition mute :: "(int, byte list) event_interface" where
  "mute = \<lparr>onSockRead = \<lambda>_ w. w, onDebug = \<lambda>_ w. w, onConnected = \<lambda>_ w. w, onLinkedOther = \<lambda>_ w. w, onSockClose = \<lambda>_ m. m\<rparr>"

lemma fd_evbuffer_ok: "evbuffer_laws fd_evbuffer id"
  using list_evbuffer_laws by (simp add: evbuffer_laws_def fd_evbuffer_def list_evbuffer_def)

lemma mute_polite: "ws_polite content p fd mute"
  by (simp add: ws_polite_def mute_def ws_same_def quiet_def same_shape_def)

lemma ws_worker_at: "ws_at id 1 7 bs None (ws_worker bs)"
  by (simp add: ws_at_def ws_ready_def ws_worker_def rd_def getContinuation_def Q_INVALID_SOCK_def sess_status comm_ready_def ce_inv_def buf_inv_def)

lemma ws_worker_dec: "wsdec ops (ws_worker bs) = Some"
  by (rule ext) (simp add: ws_worker_def comm_fun_def)





abbreviation two_messages :: "(byte \<times> (byte list \<times> byte list) list) list" where
  "two_messages \<equiv> [(1, [([1, 2, 3, 4], [72, 105]), ([5, 6, 7, 8], [33])]), (2, [([9, 9, 9, 9], [7])])]"

lemma ws_delivery_witness:
  "\<exists>w'. dispWebSock 8 zero_alloc shift_ops fd_evbuffer mute [] 1 (ws_worker (client_stream two_messages)) = Some (Inr w')
     \<and> wk_calls w' = [[72, 105, 33], [7]] \<and> rd id (wbuf w' 1) = []"
proof -
  have c: "data_code 1" "data_code 2"
    by (simp_all add: data_code_def WSOCK_CONTINUATION_def WSOCK_CLOSE_def WSOCK_PING_def WSOCK_PONG_def)
  have ok: "list_all2 (client_ok 8 Some) two_messages [[72, 105, 33], [7]]"
    by (simp add: client_ok_def c part_ok_def size_mod_def Cons_eq_map_conv)
  have "length (client_stream two_messages) = 22" by code_simp
  then have l: "2 * length (client_stream two_messages) < size_mod 8" by (simp only: size_mod_def) simp
  have w: "wk_calls (ws_worker bs) = []" for bs by (simp add: ws_worker_def)
  note d = ws_delivery [OF fd_evbuffer_ok zero_alloc_ok shift_ops_fits(2) mute_polite _ ws_worker_at l, unfolded ws_worker_dec, OF _ ok, of "[]"]
  from d show ?thesis unfolding w append_Nil by blast
qed

end
