(* ===== verification/Work_Callbacks.thy ===== *)
theory Work_Callbacks
  imports Work_WebSock
begin

text \<open>
  The callbacks of the worker thread (\<^verbatim>\<open>QBase/WorkThreadEvent.cpp\<close>): new sockets that the main thread and the monitor of the links hand over, ticks
  of the timer, bytes that arrive on a session and the end of a connection. Sockets come as \<^verbatim>\<open>TriggerSock\<close> structures of two
  \<^verbatim>\<open>int\<close>s through a pair of sockets (\<^verbatim>\<open>Q_GetEventValue\<close>, \<^verbatim>\<open>QBase/SockPairEvent.h\<close>).
\<close>

section \<open>Reading what the other threads send\<close>

definition Q_GetEventValue ::
  "nat \<Rightarrow> ('bev, 'b) evbuffer_api \<Rightarrow> nat \<Rightarrow> ('bev, 'b) event_buffer \<Rightarrow> cfault + byte list option \<times> ('bev, 'b) event_buffer" where
  "Q_GetEventValue sz api iSize pBuffer =
     (if iSize > getTotalLens api pBuffer then Inr (None, pBuffer)
      else case readBuffer sz api iSize pBuffer of
             None \<Rightarrow> Inl NullDeref
           | Some pTmp \<Rightarrow> if length pTmp < iSize then Inl OutOfBounds
                          else Inr (Some (take iSize pTmp), snd (delBuffer api iSize pBuffer)))"

record trigger_sock =
  ts_emType :: int
  ts_iSock :: int

definition le_int :: "byte list \<Rightarrow> int" where "le_int bs = sint (word_of_nat (le_val bs) :: u32)"

definition trigger_of :: "byte list \<Rightarrow> trigger_sock" where
  "trigger_of bs = \<lparr>ts_emType = le_int (take 4 bs), ts_iSock = le_int (take 4 (drop 4 bs))\<rparr>"

section \<open>New sockets\<close>

text \<open>What of libevent makes and enables a buffer event; \<^verbatim>\<open>bufferevent_free\<close> is recorded in \<open>sm_freed\<close>.\<close>

record 'bev sock_api =
  bufferevent_socket_new :: "int \<Rightarrow> 'bev option"
  bufferevent_enable :: "'bev \<Rightarrow> int"

definition bev_free :: "'bev \<Rightarrow> ('bev, 'b) worker \<Rightarrow> ('bev, 'b) worker" where
  "bev_free bev w = w\<lparr>wk_mgr := (wk_mgr w)\<lparr>sm_freed := sm_freed (wk_mgr w) @ [Some bev]\<rparr>\<rparr>"

definition close_sock :: "int \<Rightarrow> ('bev, 'b) worker \<Rightarrow> ('bev, 'b) worker" where
  "close_sock sock w = w\<lparr>wk_closed := wk_closed w @ [sock]\<rparr>"

definition link_closed :: "int \<Rightarrow> ('bev, 'b) worker \<Rightarrow> ('bev, 'b) worker" where
  "link_closed sock w = w\<lparr>wk_mgr := (wk_mgr w)\<lparr>sm_link := setSockStatus sock SESSSTATUS_CLOSED (sm_link (wk_mgr w))\<rparr>\<rparr>"

text \<open>The body of the loop of \<^verbatim>\<open>onMainRead\<close>.\<close>

definition accept_sock ::
  "'bev sock_api \<Rightarrow> ('bev, 'b) evbuffer_api \<Rightarrow> ('bev, 'b) event_interface \<Rightarrow> trigger_sock \<Rightarrow> ('bev, 'b) worker \<Rightarrow> cfault + ('bev, 'b) worker" where
  "accept_sock sk api iface t w =
     (case bufferevent_socket_new sk (ts_iSock t) of
        None \<Rightarrow> Inr (close_sock (ts_iSock t) w)
      | Some pBev \<Rightarrow>
          (case addSession api (Some pBev) (wk_mgr w) of (iRtn, m) \<Rightarrow>
           let w = w\<lparr>wk_mgr := m\<rparr>
           in if Q_RTN_OK \<noteq> iRtn then Inr (bev_free pBev (close_sock (ts_iSock t) w))
              else if Q_RTN_OK \<noteq> bufferevent_enable sk pBev
              then (let w = close_sock (ts_iSock t) w in Inr (bev_free pBev (w\<lparr>wk_mgr := dellSession api pBev (wk_mgr w)\<rparr>)))
              else let p = getSession api pBev (wk_mgr w)
                   in if p = 0 then Inl NullDeref
                      else let w = wput p ((wsess w p)\<lparr>m_emSessionType := ts_emType t, m_emStatus := SESSSTATUS_LINKED\<rparr>) w;
                               w = (if STYPE_WEBSOCK = ts_emType t then wput p ((wsess w p)\<lparr>m_emStatus := SESSSTATUS_CONNECT\<rparr>) w else w)
                           in Inr (if STYPE_DEBUG \<noteq> m_emSessionType (wsess w p) then onConnected iface p w else w)))"

text \<open>The body of the loop of \<^verbatim>\<open>onAssistRead\<close>.\<close>

definition assist_sock ::
  "'bev sock_api \<Rightarrow> ('bev, 'b) evbuffer_api \<Rightarrow> ('bev, 'b) event_interface \<Rightarrow> trigger_sock \<Rightarrow> ('bev, 'b) worker \<Rightarrow> cfault + ('bev, 'b) worker" where
  "assist_sock sk api iface t w =
     (case bufferevent_socket_new sk (ts_iSock t) of
        None \<Rightarrow> Inr (link_closed (ts_iSock t) w)
      | Some pBev \<Rightarrow>
          (case addSession api (Some pBev) (wk_mgr w) of (iRtn, m) \<Rightarrow>
           let w = w\<lparr>wk_mgr := m\<rparr>
           in if Q_RTN_OK \<noteq> iRtn then Inr (bev_free pBev (link_closed (ts_iSock t) w))
              else if Q_RTN_OK \<noteq> bufferevent_enable sk pBev
              then (let w = link_closed (ts_iSock t) w in Inr (bev_free pBev (w\<lparr>wk_mgr := dellSession api pBev (wk_mgr w)\<rparr>)))
              else let p = getSession api pBev (wk_mgr w)
                   in if p = 0 then Inl NullDeref
                      else let w = wput p ((wsess w p)\<lparr>m_emSessionType := ts_emType t, m_emStatus := SESSSTATUS_LINKED\<rparr>) w;
                               w = w\<lparr>wk_mgr := (wk_mgr w)\<lparr>sm_link := setSockStatus (ts_iSock t) SESSSTATUS_LINKED (sm_link (wk_mgr w))\<rparr>\<rparr>
                           in Inr (onLinkedOther iface p w)))"

text \<open>
  The loops: \<open>body\<close> is one of the two, the buffer that of the pair of sockets.
\<close>

partial_function (option) sock_loop ::
  "nat \<Rightarrow> ('bev, 'b) evbuffer_api \<Rightarrow> (trigger_sock \<Rightarrow> ('bev, 'b) worker \<Rightarrow> cfault + ('bev, 'b) worker)
     \<Rightarrow> ('bev, 'b) event_buffer \<Rightarrow> ('bev, 'b) worker \<Rightarrow> (cfault + ('bev, 'b) event_buffer \<times> ('bev, 'b) worker) option" where
  "sock_loop sz api body pBuffer w =
     (case Q_GetEventValue sz api 8 pBuffer of
        Inl e \<Rightarrow> Some (Inl e)
      | Inr (v, pBuffer) \<Rightarrow>
         (case v of
            None \<Rightarrow> Some (Inr (pBuffer, w))
          | Some bs \<Rightarrow> (case body (trigger_of bs) w of Inl e \<Rightarrow> Some (Inl e) | Inr w \<Rightarrow> sock_loop sz api body pBuffer w)))"

definition onMainRead where
  "onMainRead sz sk api iface pBuffer w = sock_loop sz api (accept_sock sk api iface) pBuffer w"

definition onAssistRead where
  "onAssistRead sz sk api iface pBuffer w = sock_loop sz api (assist_sock sk api iface) pBuffer w"

section \<open>The timer\<close>

partial_function (option) onTimerRead ::
  "nat \<Rightarrow> ('bev, 'b) evbuffer_api \<Rightarrow> (('bev, 'b) worker \<Rightarrow> ('bev, 'b) worker) \<Rightarrow> ('bev, 'b) event_buffer \<Rightarrow> ('bev, 'b) worker
     \<Rightarrow> (cfault + ('bev, 'b) event_buffer \<times> ('bev, 'b) worker) option" where
  "onTimerRead sz api onTimerEvent pBuffer w =
     (case Q_GetEventValue sz api 1 pBuffer of
        Inl e \<Rightarrow> Some (Inl e)
      | Inr (v, pBuffer) \<Rightarrow>
         (case v of
            None \<Rightarrow> Some (Inr (pBuffer, w))
          | Some bs \<Rightarrow> onTimerRead sz api onTimerEvent pBuffer
                          (if 1 = hd bs then onTimerEvent (w\<lparr>wk_mgr := addCount (wk_mgr w)\<rparr>) else w)))"

section \<open>Sessions\<close>

definition set_cur :: "ptr \<Rightarrow> ('bev, 'b) worker \<Rightarrow> ('bev, 'b) worker" where
  "set_cur p w = w\<lparr>wk_mgr := setCurSession p (wk_mgr w)\<rparr>"



section \<open>Every callback is a sequence of session operations\<close>

text \<open>
  A buffer event is an object with an identity: libevent makes a new one that was not freed before. The operations on sessions,
  with the buffer events freed on the way: one is freed either by closing its link or while no session has the number of its socket.
\<close>

inductive mgr_step :: "('bev, 'b) evbuffer_api \<Rightarrow> ('bev, 'b) session_manager \<Rightarrow> ('bev, 'b) session_manager \<Rightarrow> bool" for api where
  mgr_add: "bufferevent_getfd api bev \<notin> fst ` set (sm_umapSession m) \<Longrightarrow> Some bev \<notin> set (sm_freed m) \<Longrightarrow>
     mgr_step api m (snd (addSession api (Some bev) m))"
| mgr_del: "mgr_step api m (dellSession api bev m)"
| mgr_free: "bufferevent_getfd api bev \<notin> fst ` set (sm_umapSession m) \<Longrightarrow> Some bev \<notin> set (sm_freed m) \<Longrightarrow>
     mgr_step api m (m\<lparr>sm_freed := sm_freed m @ [Some bev]\<rparr>)"
| mgr_close: "quiet (Some f) \<Longrightarrow> (\<And>p m. sm_freed (f p m) = sm_freed m) \<Longrightarrow> mgr_step api m (closeLinkByID api (Some f) iID m)"
| mgr_user: "same_shape m m' \<Longrightarrow> sm_freed m' = sm_freed m \<Longrightarrow> mgr_step api m m'"

abbreviation steps :: "('bev, 'b) evbuffer_api \<Rightarrow> ('bev, 'b) session_manager \<Rightarrow> ('bev, 'b) session_manager \<Rightarrow> bool" where
  "steps api \<equiv> (mgr_step api)\<^sup>*\<^sup>*"


text \<open>What the scripts may do to the sessions: anything the manager offers.\<close>

definition tame :: "('bev, 'b) evbuffer_api \<Rightarrow> ('bev, 'b) event_interface \<Rightarrow> bool" where
  "tame api iface \<longleftrightarrow> quiet (Some (onSockClose iface)) \<and> (\<forall>p m. sm_freed (onSockClose iface p m) = sm_freed m) \<and>
     (\<forall>msg w. steps api (wk_mgr w) (wk_mgr (onSockRead iface msg w)) \<and> steps api (wk_mgr w) (wk_mgr (onDebug iface msg w))) \<and>
     (\<forall>p w. steps api (wk_mgr w) (wk_mgr (onConnected iface p w)) \<and> steps api (wk_mgr w) (wk_mgr (onLinkedOther iface p w)))"

lemma mgr_sess_step: "mgr_step api m m' \<Longrightarrow> sess_step api m m'"
proof (induction rule: mgr_step.induct)
  case (mgr_add bev m)
  then show ?case using step_add [where bev = "Some bev"] by simp
next
  case (mgr_free bev m)
  show ?case by (rule step_user) (simp add: same_shape_def)
qed (rule step_del step_close step_user; assumption)+

lemma steps_inv: "steps api m m' \<Longrightarrow> sess_inv api m \<Longrightarrow> sess_inv api m'"
  by (induction rule: rtranclp_induct) (auto intro: sess_step_inv mgr_sess_step)

lemma steps_user: "same_shape m m' \<Longrightarrow> sm_freed m' = sm_freed m \<Longrightarrow> steps api m m'"
  by (intro r_into_rtranclp mgr_user)

text \<open>What the operations do to the map and to the list of freed buffer events.\<close>

lemma release_facts:
  "sm_freed (sess_release api fd p m) = sm_freed m" "sm_umapSession (sess_release api fd p m) = AList.delete fd (sm_umapSession m)"
  "sess (sess_release api fd p m) = (sess m)(p := CSession_init)"
  by (simp_all add: sess_release_def sess_put_def heap_put_def Let_def fun_eq_iff)

lemma dellSession_facts:
  "sm_freed (dellSession api bev m) = sm_freed m" "bufferevent_getfd api bev \<notin> fst ` set (sm_umapSession (dellSession api bev m))"
  by (auto simp: dellSession_def Let_def release_facts map_of_eq_None_iff AList.delete_eq split: option.split)

lemma addSession_facts:
  assumes "addSession api (Some bev) m = (r, m')"
  shows "sm_freed m' = sm_freed m" "r \<noteq> Q_RTN_OK \<Longrightarrow> sm_umapSession m' = sm_umapSession m"
  using assms by (auto simp: addSession_def Let_def sess_put_def split: prod.splits if_splits)








text \<open>An object that is not in the pool of free ones, and how to see that.\<close>

definition live :: "('bev, 'b) session_manager \<Rightarrow> ptr \<Rightarrow> bool" where
  "live m p \<longleftrightarrow> p \<notin> set (m_quFree (sm_objSessionPool m))"


lemma live_member: "sess_inv api m \<Longrightarrow> (fd, p) \<in> set (sm_umapSession m) \<Longrightarrow> live m p \<and> p \<noteq> 0"
  using sess_invD(2,3) [of api m] by (force simp: live_def pool_inv_def)


lemma wput_steps:
  assumes "live (wk_mgr w) p" "m_iSessionID s = m_iSessionID (wsess w p)" "m_FD (m_objBuffer s) = m_FD (wbuf w p)"
    "m_pBev (m_objBuffer s) = m_pBev (wbuf w p)"
  shows "steps api (wk_mgr w) (wk_mgr (wput p s w))"
  by (rule steps_user) (use assms in \<open>auto simp: same_shape_def wput_def sess_put_def heap_put_def live_def\<close>)

lemma live_wput [simp]: "live (wk_mgr (wput q s w)) p = live (wk_mgr w) p"
  by (simp add: live_def wput_def sess_put_def)

definition same_bev :: "('bev, 'b) event_buffer \<Rightarrow> ('bev, 'b) event_buffer \<Rightarrow> bool" where
  "same_bev eb eb' \<longleftrightarrow> m_FD eb' = m_FD eb \<and> m_pBev eb' = m_pBev eb"

lemma same_bev_simps [simp]:
  "same_bev eb eb" "same_bev eb (snd (delBuffer api n eb))" "same_bev eb (snd (writeBuffer api x eb))" "same_bev eb (pokeBuffer api xs eb)"
  by (auto simp: same_bev_def delBuffer_def writeBuffer_def pokeBuffer_def split: option.split prod.split)


lemma live_wput_buf [simp]: "live (wk_mgr (wput_buf q eb w)) p = live (wk_mgr w) p"
  by (simp add: wput_buf_def)

lemma free_steps:
  assumes "bufferevent_getfd api bev \<notin> fst ` set (sm_umapSession (wk_mgr w))" "Some bev \<notin> set (sm_freed (wk_mgr w))"
  shows "steps api (wk_mgr w) (wk_mgr (bev_free bev w))"
  using mgr_free [OF assms] by (simp add: bev_free_def r_into_rtranclp)

lemma side_steps:
  "steps api (wk_mgr w) (wk_mgr (close_sock sock w))"
  "steps api (wk_mgr w) (wk_mgr (link_closed sock w))" "steps api (wk_mgr w) (wk_mgr (set_cur p w))" "steps api (wk_mgr w) (wk_mgr (delContinuation fd w))"
  by (rule steps_user; simp add: same_shape_def close_sock_def link_closed_def set_cur_def setCurSession_def delContinuation_def)+

lemma dell_steps: "steps api (wk_mgr w) (wk_mgr (w\<lparr>wk_mgr := dellSession api bev (wk_mgr w)\<rparr>))"
  by (simp add: r_into_rtranclp mgr_del)

lemma dell_free_steps:
  assumes "Some bev \<notin> set (sm_freed (wk_mgr w))"
  shows "steps api (wk_mgr w) (wk_mgr (bev_free bev (w\<lparr>wk_mgr := dellSession api bev (wk_mgr w)\<rparr>)))"
  by (rule rtranclp_trans [OF dell_steps free_steps]) (use assms in \<open>simp_all add: dellSession_facts\<close>)

text \<open>A new socket: no open session has its number, and its buffer event is a new one.\<close>

definition fresh_sock :: "'bev sock_api \<Rightarrow> ('bev, 'b) evbuffer_api \<Rightarrow> int \<Rightarrow> ('bev, 'b) session_manager \<Rightarrow> bool" where
  "fresh_sock sk api sock m \<longleftrightarrow>
     (\<forall>bev. bufferevent_socket_new sk sock = Some bev \<longrightarrow>
        bufferevent_getfd api bev \<notin> fst ` set (sm_umapSession m) \<and> Some bev \<notin> set (sm_freed m))"

lemma addSession_added:
  assumes "addSession api (Some bev) m = (Q_RTN_OK, m')"
  shows "bufferevent_getfd api bev \<noteq> Q_INVALID_SOCK" "\<exists>p. map_of (sm_umapSession m') (bufferevent_getfd api bev) = Some p"
proof -
  obtain p h pool where a: "pool_Malloc CSession_init (sm_heap m) (sm_objSessionPool m) = (p, h, pool)" by (metis prod_cases3)
  obtain r eb where b: "setBuffer api (Some bev) (m_objBuffer (hp_obj h p)) = (r, eb)" by force
  have r: "r = Q_RTN_OK" using assms by (auto simp: addSession_def a b Let_def split: if_splits)
  note e = setBuffer_ok [OF b [unfolded r]]
  then show "bufferevent_getfd api bev \<noteq> Q_INVALID_SOCK" by auto
  show "\<exists>p. map_of (sm_umapSession m') (bufferevent_getfd api bev) = Some p"
    using assms e r by (auto simp: addSession_def a b Let_def getFD_def sess_put_def update_conv')
qed

lemma add_steps:
  assumes "fresh_sock sk api sock m" "bufferevent_socket_new sk sock = Some bev" "addSession api (Some bev) m = (r, m')"
  shows "steps api m m'"
  using mgr_add [of api bev m] assms by (auto simp: fresh_sock_def)

text \<open>What both loops do when the new session fails: the buffer event is freed after its session, if there is one, was taken out.\<close>

lemma refused_steps:
  assumes f: "fresh_sock sk api sock m" "bufferevent_socket_new sk sock = Some bev" and a: "addSession api (Some bev) m = (r, m')"
    and w: "steps api m' (wk_mgr w)" "sm_umapSession (wk_mgr w) = sm_umapSession m'" "sm_freed (wk_mgr w) = sm_freed m'"
  shows "r \<noteq> Q_RTN_OK \<Longrightarrow> steps api m (wk_mgr (bev_free bev w))"
    "steps api m (wk_mgr (bev_free bev (w\<lparr>wk_mgr := dellSession api bev (wk_mgr w)\<rparr>)))"
proof -
  note s = rtranclp_trans [OF add_steps [OF f a] w(1)] and af = addSession_facts [OF a]
  have n: "bufferevent_getfd api bev \<notin> fst ` set (sm_umapSession m)" "Some bev \<notin> set (sm_freed m)" using f by (auto simp: fresh_sock_def)
  show "steps api m (wk_mgr (bev_free bev w))" if "r \<noteq> Q_RTN_OK"
    by (rule rtranclp_trans [OF s free_steps]) (use n w af that in simp_all)
  show "steps api m (wk_mgr (bev_free bev (w\<lparr>wk_mgr := dellSession api bev (wk_mgr w)\<rparr>)))"
    by (rule rtranclp_trans [OF s dell_free_steps]) (use n w af in simp)
qed

lemma added_session:
  assumes "sess_inv api m" "fresh_sock sk api sock m" "bufferevent_socket_new sk sock = Some bev" "addSession api (Some bev) m = (Q_RTN_OK, m')"
  shows "getSession api bev m' \<noteq> 0" "live m' (getSession api bev m')"
proof -
  obtain p where p: "bufferevent_getfd api bev \<noteq> Q_INVALID_SOCK" "map_of (sm_umapSession m') (bufferevent_getfd api bev) = Some p"
    using addSession_added [OF assms(4)] by blast
  have i: "sess_inv api m'" by (rule steps_inv [OF add_steps [OF assms(2-4)] assms(1)])
  have "getSession api bev m' = p" using p by (auto simp: getSession_def)
  then show "getSession api bev m' \<noteq> 0" "live m' (getSession api bev m')" using live_member [OF i map_of_SomeD [OF p(2)]] by simp_all
qed

text \<open>The part that both loops share: from the new session on.\<close>

lemma accept_sock_steps:
  assumes i: "sess_inv api (wk_mgr w)" and t: "tame api iface" and f: "fresh_sock sk api (ts_iSock t) (wk_mgr w)"
  shows "\<exists>w'. accept_sock sk api iface t w = Inr w' \<and> steps api (wk_mgr w) (wk_mgr w')"
proof (cases "bufferevent_socket_new sk (ts_iSock t)")
  case None
  then show ?thesis using side_steps(1) by (auto simp: accept_sock_def)
next
  case (Some bev)
  obtain r m where a: "addSession api (Some bev) (wk_mgr w) = (r, m)" by force
  let ?w = "w\<lparr>wk_mgr := m\<rparr>"
  have s: "steps api (wk_mgr w) (wk_mgr ?w)" using add_steps [OF f Some a] by simp
  show ?thesis
  proof (cases "r = Q_RTN_OK \<and> bufferevent_enable sk bev = Q_RTN_OK")
    case False
    have "steps api m (wk_mgr (close_sock (ts_iSock t) ?w))" using side_steps(1) [of api ?w] by simp
    note refused_steps [OF f Some a this]
    then show ?thesis using Some a False by (auto simp: accept_sock_def Let_def close_sock_def)
  next
    case True
    let ?p = "getSession api bev m"
    have p: "?p \<noteq> 0" "live (wk_mgr ?w) ?p" using added_session [OF i f Some] a True by auto
    define w1 where "w1 = wput ?p ((wsess ?w ?p)\<lparr>m_emSessionType := ts_emType t, m_emStatus := SESSSTATUS_LINKED\<rparr>) ?w"
    define w2 where "w2 = (if STYPE_WEBSOCK = ts_emType t then wput ?p ((wsess w1 ?p)\<lparr>m_emStatus := SESSSTATUS_CONNECT\<rparr>) w1 else w1)"
    have s1: "steps api (wk_mgr ?w) (wk_mgr w1)" unfolding w1_def by (rule wput_steps) (use p in simp_all)
    have l: "live (wk_mgr w1) ?p" using p(2) by (simp add: w1_def)
    have s2: "steps api (wk_mgr w1) (wk_mgr w2)"
      using wput_steps [OF l, of "(wsess w1 ?p)\<lparr>m_emStatus := SESSSTATUS_CONNECT\<rparr>"] by (simp add: w2_def)
    have s3: "steps api (wk_mgr w2) (wk_mgr (onConnected iface ?p w2))" using t by (simp add: tame_def)
    note rtranclp_trans [OF rtranclp_trans [OF s s1] s2] rtranclp_trans [OF rtranclp_trans [OF rtranclp_trans [OF s s1] s2] s3]
    moreover have "accept_sock sk api iface t w = Inr (if STYPE_DEBUG \<noteq> m_emSessionType (wsess w2 ?p) then onConnected iface ?p w2 else w2)"
      using Some a True p by (simp add: accept_sock_def Let_def w1_def w2_def)
    ultimately show ?thesis by simp
  qed
qed























section \<open>All states of the worker thread\<close>












text \<open>
  The event buffer of the examples: every socket gets its buffer event, which is enabled or, with \<open>no_enable\<close>, not.
\<close>

definition all_socks :: "int sock_api" where
  "all_socks = \<lparr>bufferevent_socket_new = \<lambda>s. Some s, bufferevent_enable = \<lambda>_. Q_RTN_OK\<rparr>"

definition no_enable :: "int sock_api" where
  "no_enable = \<lparr>bufferevent_socket_new = \<lambda>s. Some s, bufferevent_enable = \<lambda>_. Q_RTN_FAILE\<rparr>"

definition new_worker :: "(int, byte list) worker" where
  "new_worker = (ws_worker [])\<lparr>wk_mgr := CSessionManager_init \<lparr>hp_obj = \<lambda>_. CSession_init, hp_next = 1\<rparr>\<rparr>"

lemma mute_tame: "tame api mute"
  by (simp add: tame_def mute_def quiet_def same_shape_def)

lemma new_worker_fresh:
  "fresh_sock all_socks fd_evbuffer s (wk_mgr new_worker)" "fresh_sock no_enable fd_evbuffer s (wk_mgr new_worker)"
  by (simp_all add: fresh_sock_def new_worker_def CSessionManager_init_def split: prod.split)


section \<open>Sockets that are handed over\<close>

text \<open>The structures in the bytes that have arrived, and the body of the loop for one after the other.\<close>

fun trigger_list :: "nat \<Rightarrow> byte list \<Rightarrow> trigger_sock list" where
  "trigger_list 0 bs = []"
| "trigger_list (Suc n) bs = trigger_of (take 8 bs) # trigger_list n (drop 8 bs)"

fun run_all :: "('t \<Rightarrow> 'w \<Rightarrow> 'e + 'w) \<Rightarrow> 't list \<Rightarrow> 'w \<Rightarrow> 'e + 'w" where
  "run_all body [] w = Inr w"
| "run_all body (t # ts) w = (case body t w of Inl e \<Rightarrow> Inl e | Inr w \<Rightarrow> run_all body ts w)"

lemma Q_GetEventValue_rd:
  assumes "evbuffer_laws api content" "2 * length (rd content eb) < size_mod sz" "n \<le> length (rd content eb)" "0 < n"
  shows "Q_GetEventValue sz api n eb = Inr (Some (take n (rd content eb)), snd (delBuffer api n eb))"
proof -
  have "readBuffer sz api n eb = Some (take n (rd content eb))" using assms by (intro readBuffer_Some) auto
  then show ?thesis using assms(1,3) by (simp add: Q_GetEventValue_def evb)
qed

lemma sock_loop_all:
  assumes laws: "evbuffer_laws api content" and "2 * length (rd content eb) < size_mod sz" "length (rd content eb) div 8 = n"
  shows "case run_all body (trigger_list n (rd content eb)) w of
      Inl e \<Rightarrow> sock_loop sz api body eb w = Some (Inl e)
    | Inr w' \<Rightarrow> \<exists>eb'. sock_loop sz api body eb w = Some (Inr (eb', w')) \<and> rd content eb' = drop (8 * n) (rd content eb)"
  using assms(2-)
proof (induction n arbitrary: eb w)
  case 0
  then have "length (rd content eb) < 8" by simp
  then have "Q_GetEventValue sz api 8 eb = Inr (None, eb)" using laws by (simp add: Q_GetEventValue_def evb)
  then show ?case by (subst sock_loop.simps) auto
next
  case (Suc n)
  let ?eb = "snd (delBuffer api 8 eb)"
  have l: "8 \<le> length (rd content eb)" using Suc.prems(2) by (metis div_less nat.simps(3) not_le_imp_less)
  have v: "Q_GetEventValue sz api 8 eb = Inr (Some (take 8 (rd content eb)), ?eb)" by (rule Q_GetEventValue_rd [OF laws Suc.prems(1) l]) simp
  have r: "rd content ?eb = drop 8 (rd content eb)" by (rule delBuffer_rd [OF laws])
  have d: "2 * length (rd content ?eb) < size_mod sz" "length (rd content ?eb) div 8 = n" using r l Suc.prems by (auto simp: le_div_geq)
  show ?case
  proof (cases "body (trigger_of (take 8 (rd content eb))) w")
    case (Inl e)
    then show ?thesis using v by (subst sock_loop.simps) simp
  next
    case (Inr w1)
    have "sock_loop sz api body eb w = sock_loop sz api body ?eb w1" using v Inr by (subst sock_loop.simps) simp
    then show ?thesis using Suc.IH [OF d, of w1] r Inr by (auto simp: add.commute split: sum.splits)
  qed
qed

text \<open>
  \<^verbatim>\<open>onMainRead\<close> returns and takes over every socket whose structure has arrived completely, in the order they were sent, whether or not some of
  them fail; the bytes of a structure that is cut are left for the next call.
\<close>

theorem onMainRead_all:
  assumes "evbuffer_laws api content" "2 * length (rd content eb) < size_mod sz"
  shows "case run_all (accept_sock sk api iface) (trigger_list (length (rd content eb) div 8) (rd content eb)) w of
      Inl e \<Rightarrow> onMainRead sz sk api iface eb w = Some (Inl e)
    | Inr w' \<Rightarrow> \<exists>eb'. onMainRead sz sk api iface eb w = Some (Inr (eb', w'))
        \<and> rd content eb' = drop (8 * (length (rd content eb) div 8)) (rd content eb)"
  unfolding onMainRead_def by (rule sock_loop_all [OF assms refl])

lemma onMainRead_all_witness:
  "\<exists>eb' w'. onMainRead 8 all_socks fd_evbuffer mute (CEventBuffer_init\<lparr>m_pReadBuffer := Some [2, 0, 0, 0, 7, 0, 0, 0, 1]\<rparr>) new_worker = Some (Inr (eb', w'))
     \<and> rd id eb' = [1]"
proof -
  let ?eb = "CEventBuffer_init\<lparr>m_pReadBuffer := Some [2, 0, 0, 0, 7, 0, 0, 0, 1]\<rparr> :: (int, byte list) event_buffer"
  have r: "rd id ?eb = [2, 0, 0, 0, 7, 0, 0, 0, 1]" by (simp add: rd_def CEventBuffer_init_def)
  have "le_int [2, 0, 0, 0] = 2" "le_int [7, 0, 0, 0] = 7" by code_simp+
  then have t: "trigger_list 1 (rd id ?eb) = [\<lparr>ts_emType = 2, ts_iSock = 7\<rparr>]" unfolding r by (simp add: trigger_of_def)
  note f = new_worker_fresh(1) [of 7]
  have "sess_inv fd_evbuffer (wk_mgr new_worker)" by (simp add: new_worker_def CSessionManager_init_inv)
  then obtain w' where "accept_sock all_socks fd_evbuffer mute \<lparr>ts_emType = 2, ts_iSock = 7\<rparr> new_worker = Inr w'"
    using accept_sock_steps [OF _ mute_tame, of fd_evbuffer new_worker all_socks "\<lparr>ts_emType = 2, ts_iSock = 7\<rparr>"] f by auto
  then show ?thesis
    using onMainRead_all [OF fd_evbuffer_ok, of ?eb 8 all_socks mute new_worker] t by (auto simp: r size_mod_def)
qed

end
