(* ===== verification/Q_Filter.thy ===== *)
theory Q_Filter
  imports QS_Prelude "HOL-Library.AList" "HOL-Library.Sublist"
begin

text \<open>
  \<^verbatim>\<open>QBase/QFilter.cpp\<close>: words to be masked, kept as a tree with a map from characters to subtrees in each node. Memory is
  never short here. The text is shorter than \<^verbatim>\<open>2\<^sup>3\<^sup>1\<close> bytes, so that \<^verbatim>\<open>iBegain\<close> is an integer.
\<close>

section \<open>The code\<close>

datatype filter_map = FilterMap (mapFilterMap: "(byte \<times> filter_map) list")

abbreviation next_node :: "filter_map \<Rightarrow> byte \<Rightarrow> filter_map option" where
  "next_node n c \<equiv> map_of (mapFilterMap n) c"

text \<open>The loop that adds a word below a node.\<close>

primrec add_word :: "byte list \<Rightarrow> filter_map \<Rightarrow> filter_map" where
  "add_word [] n = n"
| "add_word (c # cs) n = FilterMap (AList.update c (add_word cs (case next_node n c of None \<Rightarrow> FilterMap [] | Some m \<Rightarrow> m)) (mapFilterMap n))"

type_synonym cfilter = "filter_map option"

definition addFilterWord :: "byte list \<Rightarrow> cfilter \<Rightarrow> bool \<times> cfilter" where
  "addFilterWord pszWord f =
     (if pszWord = [] then (False, f)
      else (True, Some (add_word pszWord (case f of None \<Rightarrow> FilterMap [] | Some r \<Rightarrow> r))))"

definition filter_Clear :: "cfilter \<Rightarrow> cfilter" where "filter_Clear f = None"

primrec check_loop :: "filter_map \<Rightarrow> byte list \<Rightarrow> filter_map \<Rightarrow> bool" where
  "check_loop root [] pSearchMap = False"
| "check_loop root (c # cs) pSearchMap =
     (case next_node pSearchMap c of
        Some n \<Rightarrow> if mapFilterMap n = [] then True else check_loop root cs n
      | None \<Rightarrow>
          (case next_node root c of
             Some n \<Rightarrow> if mapFilterMap n = [] then True else check_loop root cs n
           | None \<Rightarrow> check_loop root cs root))"

definition checkHave :: "byte list \<Rightarrow> cfilter \<Rightarrow> bool" where
  "checkHave pszWord f = (case f of None \<Rightarrow> False | Some root \<Rightarrow> if pszWord = [] then False else check_loop root pszWord root)"

definition fill :: "byte list \<Rightarrow> nat \<Rightarrow> byte \<Rightarrow> nat \<Rightarrow> byte list" where
  "fill pWord off v n = take off pWord @ replicate n v @ drop (off + n) pWord"

lemma length_fill [simp]: "i < length pWord \<Longrightarrow> length (fill pWord off v (Suc i - off)) = length pWord"
  "i < length pWord \<Longrightarrow> length (fill pWord i v (Suc 0)) = length pWord"
  by (auto simp: fill_def min_def)

function modify_loop :: "filter_map \<Rightarrow> byte \<Rightarrow> nat \<Rightarrow> int \<Rightarrow> filter_map \<Rightarrow> byte list \<Rightarrow> byte list" where
  "modify_loop root cReplace i iBegain pSearchMap pWord =
     (if i < length pWord
      then (case next_node pSearchMap (pWord ! i) of
              Some n \<Rightarrow>
                (let iBegain = (if iBegain = -1 then int i else iBegain)
                 in if mapFilterMap n = []
                    then modify_loop root cReplace (i + 1) (-1) root (fill pWord (nat iBegain) cReplace (i + 1 - nat iBegain))
                    else modify_loop root cReplace (i + 1) iBegain n pWord)
            | None \<Rightarrow>
                (case next_node root (pWord ! i) of
                   Some n \<Rightarrow>
                     if mapFilterMap n = [] then modify_loop root cReplace (i + 1) (-1) root (fill pWord i cReplace (i + 1 - i))
                     else modify_loop root cReplace (i + 1) (int i) n pWord
                 | None \<Rightarrow> modify_loop root cReplace (i + 1) (-1) root pWord))
      else pWord)"
  by pat_completeness auto
termination
  by (relation "measure (\<lambda>(r, v, i, b, n, w). length w - i)") auto

declare modify_loop.simps [simp del]

definition checkAndModify :: "byte \<Rightarrow> byte list \<Rightarrow> cfilter \<Rightarrow> byte list" where
  "checkAndModify cReplace pWord f =
     (case f of None \<Rightarrow> pWord | Some root \<Rightarrow> if pWord = [] then pWord else modify_loop root cReplace 0 (-1) root pWord)"

definition Q_Filter_text :: "byte list \<Rightarrow> cfilter \<Rightarrow> byte list" where
  "Q_Filter_text pWord f = checkAndModify 42 pWord f"

section \<open>Words in the tree\<close>

fun walk :: "byte list \<Rightarrow> filter_map \<Rightarrow> filter_map option" where
  "walk [] n = Some n"
| "walk (c # cs) n = Option.bind (next_node n c) (walk cs)"

text \<open>The words that are recognised: paths to nodes without children.\<close>

definition leaf_word :: "filter_map \<Rightarrow> byte list \<Rightarrow> bool" where
  "leaf_word root w \<longleftrightarrow> w \<noteq> [] \<and> walk w root = Some (FilterMap [])"

definition tree_of :: "byte list list \<Rightarrow> filter_map" where
  "tree_of ws = fold add_word ws (FilterMap [])"

lemma walk_append: "walk (xs @ ys) n = Option.bind (walk xs n) (walk ys)"
  by (induction xs arbitrary: n) (auto split: bind_splits)

lemma empty_node [simp]: "mapFilterMap n = [] \<longleftrightarrow> n = FilterMap []"
  by (cases n) simp

lemma walk_add_word: "walk v (add_word w n) \<noteq> None \<longleftrightarrow> walk v n \<noteq> None \<or> prefix v w"
proof (induction w arbitrary: v n)
  case (Cons c w)
  show ?case
  proof (cases v)
    case (Cons d u)
    show ?thesis
    proof (cases "d = c")
      case True
      then show ?thesis using Cons Cons.IH [of u] by (cases "next_node n c"; cases u) (auto simp: update_conv')
    qed (simp add: Cons update_conv')
  qed simp
qed (auto simp: prefix_def)

lemma walk_tree_of: "walk v (tree_of ws) \<noteq> None \<longleftrightarrow> v = [] \<or> (\<exists>w \<in> set ws. prefix v w)"
proof -
  have "walk v (fold add_word ws n) \<noteq> None \<longleftrightarrow> walk v n \<noteq> None \<or> (\<exists>w \<in> set ws. prefix v w)" for n
  proof (induction ws arbitrary: n)
    case (Cons a ws)
    show ?case using Cons [of "add_word a n"] walk_add_word [of v a n] by auto
  qed simp
  then show ?thesis by (cases v) (auto simp: tree_of_def)
qed

lemma child_walk: "next_node n c = Some m \<Longrightarrow> walk [c] n = Some m" by simp

lemma not_leaf: "n \<noteq> FilterMap [] \<Longrightarrow> \<exists>c m. next_node n c = Some m"
  by (cases n; cases "mapFilterMap n") auto

text \<open>The recognised words are those that are not the beginning of another word.\<close>

lemma leaf_word_tree_of:
  "leaf_word (tree_of ws) w \<longleftrightarrow> w \<noteq> [] \<and> w \<in> set ws \<and> (\<forall>v \<in> set ws. \<not> strict_prefix w v)"
proof
  assume l: "leaf_word (tree_of ws) w"
  then have w: "w \<noteq> []" "walk w (tree_of ws) = Some (FilterMap [])" by (auto simp: leaf_word_def)
  then obtain v where v: "v \<in> set ws" "prefix w v" using walk_tree_of [of w ws] by auto
  have no: "\<not> strict_prefix w v" if "v \<in> set ws" for v
  proof
    assume "strict_prefix w v"
    then obtain c u where "v = w @ c # u" by (auto elim: strict_prefixE')
    then have "prefix (w @ [c]) v" by (simp add: prefix_def)
    then have "walk (w @ [c]) (tree_of ws) \<noteq> None" using walk_tree_of [of "w @ [c]" ws] that by blast
    then show False using w(2) by (simp add: walk_append)
  qed
  then have "w = v" using v by (auto simp: strict_prefix_def)
  then show "w \<noteq> [] \<and> w \<in> set ws \<and> (\<forall>v \<in> set ws. \<not> strict_prefix w v)" using v w no by blast
next
  assume a: "w \<noteq> [] \<and> w \<in> set ws \<and> (\<forall>v \<in> set ws. \<not> strict_prefix w v)"
  then obtain n where n: "walk w (tree_of ws) = Some n" using walk_tree_of [of w ws] by auto
  have "n = FilterMap []"
  proof (rule ccontr)
    assume "n \<noteq> FilterMap []"
    then obtain c m where "next_node n c = Some m" using not_leaf by blast
    then have "walk (w @ [c]) (tree_of ws) \<noteq> None" using n by (simp add: walk_append)
    then obtain v where "v \<in> set ws" "prefix (w @ [c]) v" using walk_tree_of [of "w @ [c]" ws] by auto
    then show False using a by (auto simp: prefix_def strict_prefix_def)
  qed
  then show "leaf_word (tree_of ws) w" using a n by (simp add: leaf_word_def)
qed

section \<open>Searching\<close>

text \<open>\<open>seen\<close> is the part of a word that leads to the current node.\<close>

lemma sublist_behind: "sublist w ys \<Longrightarrow> sublist w (xs @ ys)"
  by (auto simp: sublist_def) (metis append.assoc)

lemma check_loop_sound:
  assumes "check_loop root cs n" "walk seen root = Some n"
  shows "\<exists>w. leaf_word root w \<and> sublist w (seen @ cs)"
  using assms
proof (induction cs arbitrary: n seen)
  case (Cons c cs)
  have leaf: "\<exists>w. leaf_word root w \<and> sublist w (pre @ s @ c # cs)" if "walk (s @ [c]) root = Some (FilterMap [])" for s pre
    using that by (intro exI [of _ "s @ [c]"]) (auto simp: leaf_word_def sublist_def)
  consider m where "next_node n c = Some m" | m where "next_node n c = None" "next_node root c = Some m" | "next_node n c = None" "next_node root c = None"
    by (cases "next_node n c"; cases "next_node root c") auto
  then show ?case
  proof cases
    case 1
    then have w: "walk (seen @ [c]) root = Some m" using Cons.prems(2) by (simp add: walk_append)
    then show ?thesis using leaf [of seen "[]"] Cons.IH [of m "seen @ [c]"] Cons.prems(1) 1 by (cases "m = FilterMap []") auto
  next
    case 2
    have "\<exists>w. leaf_word root w \<and> sublist w ([c] @ cs)"
    proof (cases "m = FilterMap []")
      case True
      then show ?thesis using leaf [of "[]" "[]"] 2 by simp
    next
      case False
      then show ?thesis using Cons.IH [of m "[c]"] Cons.prems(1) 2 by simp
    qed
    then show ?thesis using sublist_behind by fastforce
  next
    case 3
    then have "\<exists>w. leaf_word root w \<and> sublist w ([] @ cs)" using Cons.IH [of root "[]"] Cons.prems(1) by simp
    then show ?thesis using sublist_behind [of _ cs "seen @ [c]"] by auto
  qed
qed simp

lemma check_loop_finds:
  assumes "w \<noteq> []" "walk w n = Some (FilterMap [])"
  shows "check_loop root (w @ rest) n"
  using assms
proof (induction w arbitrary: n)
  case (Cons c w)
  then obtain m where m: "next_node n c = Some m" "walk w m = Some (FilterMap [])" by (auto split: bind_splits)
  then show ?case using Cons.IH [of m] by (cases "w = []") auto
qed simp

lemma check_loop_skip: "\<forall>c \<in> set pre. next_node root c = None \<Longrightarrow> check_loop root (pre @ cs) root = check_loop root cs root"
  by (induction pre) auto

section \<open>Masking\<close>

text \<open>The loop on the rest of the text, with the part of a word that leads to the current node.\<close>

primrec mask_words :: "filter_map \<Rightarrow> byte \<Rightarrow> byte list \<Rightarrow> byte list \<Rightarrow> filter_map \<Rightarrow> byte list" where
  "mask_words root v [] seg n = seg"
| "mask_words root v (c # cs) seg n =
     (case next_node n c of
        Some m \<Rightarrow> if m = FilterMap [] then replicate (length seg + 1) v @ mask_words root v cs [] root else mask_words root v cs (seg @ [c]) m
      | None \<Rightarrow> seg @ (case next_node root c of
          Some m \<Rightarrow> if m = FilterMap [] then v # mask_words root v cs [] root else mask_words root v cs [c] m
        | None \<Rightarrow> c # mask_words root v cs [] root))"

lemma fill_segment: "fill (pre @ seg @ c # cs) (length pre) v (Suc (length pre + length seg) - length pre) = pre @ replicate (Suc (length seg)) v @ cs"
  by (simp add: fill_def Suc_diff_le)

lemma modify_loop_mask:
  assumes "seg = [] \<Longrightarrow> n = root"
  shows "modify_loop root v (length pre + length seg) (if seg = [] then -1 else int (length pre)) n (pre @ seg @ cs) = pre @ mask_words root v cs seg n"
  using assms
proof (induction cs arbitrary: pre seg n)
  case Nil
  then show ?case by (subst modify_loop.simps) simp
next
  case (Cons c cs)
  let ?i = "length pre + length seg"
  have nth: "(pre @ seg @ c # cs) ! ?i = c" by (simp add: nth_append)
  note e = modify_loop.simps [of root v ?i _ n "pre @ seg @ c # cs"] nth
  have stop: "modify_loop root v (?i + 1) (-1) root (pre @ replicate (Suc (length seg)) v @ cs)
      = pre @ replicate (Suc (length seg)) v @ mask_words root v cs [] root"
    using Cons.IH [of "[]" root "pre @ replicate (Suc (length seg)) v"] by (simp add: add.assoc)
  have one: "modify_loop root v (?i + 1) (-1) root (pre @ seg @ x # cs) = pre @ seg @ x # mask_words root v cs [] root" for x
    using Cons.IH [of "[]" root "pre @ seg @ [x]"] by (simp add: add.assoc)
  show ?case
  proof (cases "next_node n c")
    case (Some m)
    show ?thesis
    proof (cases "m = FilterMap []")
      case True
      then show ?thesis using Some stop fill_segment [of pre seg c cs v] by (auto simp: e Let_def)
    next
      case False
      have "modify_loop root v (?i + 1) (int (length pre)) m (pre @ seg @ c # cs) = pre @ mask_words root v cs (seg @ [c]) m"
        using Cons.IH [of "seg @ [c]" m pre] by (simp add: add.assoc)
      then show ?thesis using Some False by (auto simp: e Let_def)
    qed
  next
    case None
    show ?thesis
    proof (cases "next_node root c")
      case N: None
      then show ?thesis using None one [of c] by (simp add: e)
    next
      case (Some m)
      have "modify_loop root v (?i + 1) (int ?i) m (pre @ seg @ c # cs) = pre @ seg @ mask_words root v cs [c] m"
        using Cons.IH [of "[c]" m "pre @ seg"] by (simp add: add.assoc)
      then show ?thesis using None Some one [of v] fill_segment [of "pre @ seg" "[]" c cs v] by (auto simp: e)
    qed
  qed
qed

text \<open>\<open>ys\<close> is \<open>xs\<close> with some occurrences of words replaced.\<close>

inductive masked :: "filter_map \<Rightarrow> byte \<Rightarrow> byte list \<Rightarrow> byte list \<Rightarrow> bool" for root v where
  masked_Nil: "masked root v [] []"
| masked_keep: "masked root v xs ys \<Longrightarrow> masked root v (c # xs) (c # ys)"
| masked_word: "leaf_word root w \<Longrightarrow> masked root v xs ys \<Longrightarrow> masked root v (w @ xs) (replicate (length w) v @ ys)"

lemma masked_plain: "masked root v xs ys \<Longrightarrow> masked root v (p @ xs) (p @ ys)"
  by (induction p) (auto intro: masked_keep)

lemma mask_words_masked: "walk seg root = Some n \<Longrightarrow> masked root v (seg @ cs) (mask_words root v cs seg n)"
proof (induction cs arbitrary: seg n)
  case Nil
  then show ?case using masked_plain [OF masked_Nil, of root v seg] by simp
next
  case (Cons c cs)
  have nil: "masked root v cs (mask_words root v cs [] root)" using Cons.IH [of "[]" root] by simp
  have word: "masked root v (s @ c # cs) (replicate (length s + 1) v @ mask_words root v cs [] root)" if "walk (s @ [c]) root = Some (FilterMap [])" for s
    using masked_word [where w = "s @ [c]", OF _ nil] that by (simp add: leaf_word_def)
  show ?case
  proof (cases "next_node n c")
    case (Some m)
    then have "walk (seg @ [c]) root = Some m" using Cons.prems by (simp add: walk_append)
    then show ?thesis using Some word [of seg] Cons.IH [of "seg @ [c]" m] by auto
  next
    case None
    show ?thesis
    proof (cases "next_node root c")
      case N: None
      then show ?thesis using None masked_plain [OF masked_keep [OF nil], of seg c] by simp
    next
      case (Some m)
      then have "walk [c] root = Some m" by simp
      then show ?thesis
        using None Some word [of "[]"] Cons.IH [of "[c]" m] by (auto intro!: masked_plain)
    qed
  qed
qed

lemma mask_words_first:
  "w \<noteq> [] \<Longrightarrow> walk w n = Some (FilterMap []) \<Longrightarrow> mask_words root v (w @ rest) seg n = replicate (length seg + length w) v @ mask_words root v rest [] root"
proof (induction w arbitrary: n seg)
  case (Cons c w)
  then obtain m where m: "next_node n c = Some m" "walk w m = Some (FilterMap [])" by (auto split: bind_splits)
  then show ?case using Cons.IH [of m "seg @ [c]"] by (cases w) auto
qed simp

lemma mask_words_skip: "\<forall>c \<in> set pre. next_node root c = None \<Longrightarrow> mask_words root v (pre @ cs) [] root = pre @ mask_words root v cs [] root"
  by (induction pre) auto

section \<open>The filter\<close>

definition filter_of :: "byte list list \<Rightarrow> cfilter" where
  "filter_of ws = fold (\<lambda>w f. snd (addFilterWord w f)) ws None"

lemma filter_of_tree: "[] \<notin> set ws \<Longrightarrow> ws \<noteq> [] \<Longrightarrow> filter_of ws = Some (tree_of ws)"
proof -
  have "fold (\<lambda>w f. snd (addFilterWord w f)) ws (Some n) = Some (fold add_word ws n)" if "[] \<notin> set ws" for n ws
    using that by (induction ws arbitrary: n) (auto simp: addFilterWord_def)
  then show "[] \<notin> set ws \<Longrightarrow> ws \<noteq> [] \<Longrightarrow> filter_of ws = Some (tree_of ws)"
    by (cases ws) (auto simp: filter_of_def tree_of_def addFilterWord_def)
qed

lemma Q_Filter_text_tree: "Q_Filter_text msg (Some root) = mask_words root 42 msg [] root"
  using modify_loop_mask [of "[]" root root 42 "[]" msg] by (simp add: Q_Filter_text_def checkAndModify_def)

text \<open>
  C28. The filter never masks too much: the msg it returns is the msg with occurrences of filter words replaced by stars and nothing else
  changed, and a msg in which it finds something holds a filter word.
\<close>

theorem filter_sound:
  assumes "[] \<notin> set ws" "ws \<noteq> []"
  shows "masked (tree_of ws) 42 msg (Q_Filter_text msg (filter_of ws)) \<and> (checkHave msg (filter_of ws) \<longrightarrow> (\<exists>w \<in> set ws. sublist w msg))"
proof
  note f = filter_of_tree [OF assms]
  show "masked (tree_of ws) 42 msg (Q_Filter_text msg (filter_of ws))"
    using mask_words_masked [of "[]" "tree_of ws" "tree_of ws" 42 msg] by (simp add: f Q_Filter_text_tree)
  show "checkHave msg (filter_of ws) \<longrightarrow> (\<exists>w \<in> set ws. sublist w msg)"
    using check_loop_sound [of "tree_of ws" msg "tree_of ws" "[]"] by (auto simp: f checkHave_def leaf_word_tree_of)
qed

theorem filter_sound_witness:
  "masked (tree_of [[98, 97, 100]]) 42 [97, 98, 97, 100, 98] (Q_Filter_text [97, 98, 97, 100, 98] (filter_of [[98, 97, 100]]))
   \<and> checkHave [97, 98, 97, 100, 98] (filter_of [[98, 97, 100]])"
  using filter_sound [of "[[98, 97, 100]]" "[97, 98, 97, 100, 98]"]
  by (simp add: checkHave_def filter_of_def addFilterWord_def)

text \<open>
  What the filter finds for certain: a word that is not the beginning of another filter word, when no character before it begins a filter
  word. It is masked, and the msg behind it is filtered as a msg of its own.
\<close>

theorem filter_finds:
  assumes "[] \<notin> set ws" "w \<in> set ws" "\<forall>v \<in> set ws. \<not> strict_prefix w v" "\<forall>c \<in> set pre. \<forall>v \<in> set ws. hd v \<noteq> c"
  shows "checkHave (pre @ w @ rest) (filter_of ws)
    \<and> Q_Filter_text (pre @ w @ rest) (filter_of ws) = pre @ replicate (length w) 42 @ Q_Filter_text rest (filter_of ws)"
proof -
  have f: "filter_of ws = Some (tree_of ws)" using assms(1,2) by (intro filter_of_tree) auto
  have w: "w \<noteq> []" "walk w (tree_of ws) = Some (FilterMap [])"
    using assms(1-3) leaf_word_tree_of [of ws w] by (auto simp: leaf_word_def)
  have p: "\<forall>c \<in> set pre. next_node (tree_of ws) c = None"
  proof
    fix c
    assume "c \<in> set pre"
    then have "\<not> prefix [c] v" if "v \<in> set ws" for v using assms(1,4) that by (cases v) auto
    then show "next_node (tree_of ws) c = None" using walk_tree_of [of "[c]" ws] by (cases "next_node (tree_of ws) c") auto
  qed
  have "checkHave (pre @ w @ rest) (filter_of ws)"
    using check_loop_skip [OF p] check_loop_finds [OF w] w(1) by (simp add: f checkHave_def)
  moreover have "mask_words (tree_of ws) 42 (pre @ w @ rest) [] (tree_of ws) = pre @ replicate (length w) 42 @ mask_words (tree_of ws) 42 rest [] (tree_of ws)"
    using mask_words_skip [OF p] mask_words_first [OF w, of "tree_of ws" 42 rest "[]"] by simp
  ultimately show ?thesis by (simp add: f Q_Filter_text_tree)
qed

theorem filter_finds_witness:
  "checkHave ([120] @ [97, 98] @ [97]) (filter_of [[97], [97, 98]])
   \<and> Q_Filter_text ([120] @ [97, 98] @ [97]) (filter_of [[97], [97, 98]]) = [120, 42, 42, 97]"
  using filter_finds [of "[[97], [97, 98]]" "[97, 98]" "[120]" "[97]"]
  by (simp add: strict_prefix_def Q_Filter_text_def checkAndModify_def filter_of_def addFilterWord_def modify_loop.simps)

text \<open>
  What it misses: with the words \<^verbatim>\<open>a\<close> and \<^verbatim>\<open>ab\<close> the text \<^verbatim>\<open>a\<close> passes, because the longer word takes away the mark of the shorter one; and with
  the word \<^verbatim>\<open>aab\<close> the text \<^verbatim>\<open>aaab\<close> passes, because after a failed attempt the search goes on behind it.
\<close>

theorem filter_misses:
  "\<not> checkHave [97] (filter_of [[97], [97, 98]]) \<and> Q_Filter_text [97] (filter_of [[97], [97, 98]]) = [97]
   \<and> \<not> checkHave [97, 97, 97, 98] (filter_of [[97, 97, 98]]) \<and> Q_Filter_text [97, 97, 97, 98] (filter_of [[97, 97, 98]]) = [97, 97, 97, 98]"
  by code_simp

end
