(* ===== verification/Snowflake_ID.thy ===== *)
theory Snowflake_ID
  imports QS_Prelude
begin

text \<open>
  \<^verbatim>\<open>QBase/SnowflakeID.cpp\<close>: numbers of 64 bits made of the time in milliseconds, the number of the machine and a counter. The clock is an
  argument: the seconds and microseconds that \<^verbatim>\<open>evutil_gettimeofday\<close> gives. The members that hold the time, the number and its text are written before they are read in every call, so that they are no state.
\<close>

section \<open>The code\<close>

record snowflake =
  sf_iMachineID :: u32
  sf_iIndex :: u32

definition CSnowflakeID_init :: snowflake where "CSnowflakeID_init = \<lparr>sf_iMachineID = 0, sf_iIndex = 0\<rparr>"

definition getTime :: "nat \<times> nat \<Rightarrow> u64" where
  "getTime tv = (case tv of (tv_sec, tv_usec) \<Rightarrow> of_nat tv_usec div 1000 + of_nat tv_sec * 1000)"

definition setMachineID :: "u32 \<Rightarrow> snowflake \<Rightarrow> snowflake" where
  "setMachineID iMachineID s = s\<lparr>sf_iMachineID := iMachineID\<rparr>"

text \<open>The parts that are not 64 bits wide are \<^verbatim>\<open>int\<close>s, extended with their sign.\<close>

definition sf_Generate :: "nat \<times> nat \<Rightarrow> snowflake \<Rightarrow> u64 \<times> snowflake" where
  "sf_Generate tv s =
     (let m_uID64 = push_bit 22 (getTime tv);
          m_uID64 = m_uID64 OR scast (push_bit 12 (sf_iMachineID s AND 0x3FF));
          m_uID64 = m_uID64 OR scast (sf_iIndex s AND 0xFFF);
          iIndex = sf_iIndex s + 1
      in (m_uID64, s\<lparr>sf_iIndex := if iIndex = 0x1000 then 0 else iIndex\<rparr>))"

text \<open>What the stream writes for an unsigned number, and the number as text.\<close>

fun dec_digits :: "nat \<Rightarrow> byte list" where
  "dec_digits n = (if n < 10 then [of_nat (48 + n)] else dec_digits (n div 10) @ [of_nat (48 + n mod 10)])"

declare dec_digits.simps [simp del]

definition getSnowflakeID :: "nat \<times> nat \<Rightarrow> snowflake \<Rightarrow> byte list \<times> snowflake" where
  "getSnowflakeID tv s = (case sf_Generate tv s of (v, s) \<Rightarrow> (dec_digits (unat v), s))"

section \<open>The fields of a number\<close>

text \<open>The time has 42 bits, the machine ten and the counter twelve.\<close>

definition sf_time :: "u64 \<Rightarrow> u64" where "sf_time v = drop_bit 22 v"
definition sf_machine :: "u64 \<Rightarrow> u64" where "sf_machine v = take_bit 10 (drop_bit 12 v)"
definition sf_index :: "u64 \<Rightarrow> u64" where "sf_index v = take_bit 12 v"

lemma masks: "x AND 0x3FF = take_bit 10 x" "x AND 0xFFF = take_bit 12 (x :: u32)"
  by (simp_all add: take_bit_eq_mask mask_eq_exp_minus_1)

lemma bit_scast_small:
  "bit (scast (push_bit 12 (take_bit 10 x)) :: u64) n \<longleftrightarrow> 12 \<le> n \<and> n < 22 \<and> bit (x :: u32) (n - 12)"
  "bit (scast (take_bit 12 x) :: u64) n \<longleftrightarrow> n < 12 \<and> bit (x :: u32) n"
  by (auto simp: bit_simps dest: bit_imp_le_length)

lemma Generate_fields:
  "sf_time (fst (sf_Generate tv s)) = take_bit 42 (getTime tv)"
  "sf_machine (fst (sf_Generate tv s)) = ucast (take_bit 10 (sf_iMachineID s))"
  "sf_index (fst (sf_Generate tv s)) = ucast (take_bit 12 (sf_iIndex s))"
  unfolding sf_Generate_def Let_def fst_conv sf_time_def sf_machine_def sf_index_def masks
  by (rule bit_word_eqI; auto simp: bit_simps bit_scast_small)+

text \<open>The text of a number determines it.\<close>

definition dec_val :: "byte list \<Rightarrow> nat" where "dec_val ds = foldl (\<lambda>n c. 10 * n + (unat c - 48)) 0 ds"

lemma dec_val_digits: "dec_val (dec_digits n) = n"
proof (induction n rule: dec_digits.induct)
  case (1 n)
  have d: "unat (of_nat (48 + k) :: byte) - 48 = k" if "k < 10" for k
    using that by (simp add: unsigned_of_nat take_bit_nat_eq_self del: of_nat_add)
  show ?case
  proof (cases "n < 10")
    case True
    then show ?thesis using d [of n] by (subst dec_digits.simps) (simp add: dec_val_def del: of_nat_add)
  next
    case False
    then show ?thesis using 1 d [of "n mod 10"] by (subst dec_digits.simps) (simp add: dec_val_def del: of_nat_add)
  qed
qed

lemma getSnowflakeID_value: "dec_val (fst (getSnowflakeID tv s)) = unat (fst (sf_Generate tv s))" "snd (getSnowflakeID tv s) = snd (sf_Generate tv s)"
  by (simp_all add: getSnowflakeID_def dec_val_digits split: prod.split)

section \<open>Sequences of calls\<close>

fun sf_run :: "(nat \<times> nat) list \<Rightarrow> snowflake \<Rightarrow> u64 list" where
  "sf_run [] s = []"
| "sf_run (tv # tvs) s = (case sf_Generate tv s of (v, s) \<Rightarrow> v # sf_run tvs s)"

text \<open>The millisecond of a reading of the clock, and the counter as it is from the constructor on.\<close>

definition ms_of :: "nat \<times> nat \<Rightarrow> nat" where "ms_of tv = snd tv div 1000 + fst tv * 1000"

definition counting :: "nat \<Rightarrow> snowflake \<Rightarrow> bool" where "counting i s \<longleftrightarrow> i < 4096 \<and> sf_iIndex s = of_nat i"

lemma counting_Generate: "counting i s \<Longrightarrow> counting ((i + 1) mod 4096) (snd (sf_Generate tv s))"
proof -
  assume c: "counting i s"
  have "(of_nat i + 1 = (0x1000 :: u32)) \<longleftrightarrow> i + 1 = 4096"
  proof -
    have "(of_nat i + 1 = (0x1000 :: u32)) \<longleftrightarrow> (of_nat (i + 1) :: u32) = of_nat 4096" by (simp add: add.commute)
    also have "\<dots> \<longleftrightarrow> i + 1 = 4096" using c by (simp only: word_of_nat_eq_iff) (simp add: take_bit_nat_eq_self counting_def)
    finally show ?thesis .
  qed
  then show ?thesis using c by (auto simp: counting_def sf_Generate_def Let_def mod_if add.commute)
qed

lemma machine_Generate [simp]: "sf_iMachineID (snd (sf_Generate tv s)) = sf_iMachineID s"
  by (simp add: sf_Generate_def Let_def)

lemma sf_run_nth:
  assumes "counting i s" "k < length tvs"
  shows "sf_time (sf_run tvs s ! k) = take_bit 42 (getTime (tvs ! k)) \<and> sf_machine (sf_run tvs s ! k) = ucast (take_bit 10 (sf_iMachineID s))
     \<and> sf_index (sf_run tvs s ! k) = of_nat ((i + k) mod 4096)"
  using assms
proof (induction tvs arbitrary: i s k)
  case (Cons tv tvs)
  obtain v s' where g: "sf_Generate tv s = (v, s')" by force
  note f = Generate_fields [of tv s, unfolded g fst_conv]
  have c: "counting ((i + 1) mod 4096) s'" using counting_Generate [OF Cons.prems(1), of tv] g by simp
  have m: "sf_iMachineID s' = sf_iMachineID s" using machine_Generate [of tv s] g by simp
  show ?case
  proof (cases k)
    case 0
    have "ucast (take_bit 12 (sf_iIndex s)) = (of_nat i :: u64)"
      using Cons.prems(1) by (auto simp: counting_def unsigned_take_bit_eq unsigned_of_nat take_bit_nat_eq_self take_bit_of_nat)
    then show ?thesis using f 0 g Cons.prems(1) by (simp add: counting_def)
  next
    case (Suc j)
    then show ?thesis using Cons.IH [OF c, of j] Cons.prems(2) g m by (simp add: mod_simps)
  qed
qed simp

lemma length_sf_run [simp]: "length (sf_run tvs s) = length tvs"
  by (induction tvs arbitrary: s) (auto split: prod.split)

lemma getTime_ms:
  assumes "ms_of tv < 2 ^ 42" "snd tv < 2 ^ 64"
  shows "unat (take_bit 42 (getTime tv)) = ms_of tv"
proof -
  have "(of_nat (snd tv) :: u64) div 1000 = of_nat (snd tv div 1000)"
    using assms(2) by (simp add: word_unat_eq_iff unat_div unsigned_of_nat take_bit_nat_eq_self less_imp_diff_less order.strict_trans1 [OF div_le_dividend])
  then have "getTime tv = of_nat (ms_of tv)" by (cases tv) (simp add: getTime_def ms_of_def)
  then show ?thesis using assms(1) by (simp add: unsigned_take_bit_eq unsigned_of_nat take_bit_nat_eq_self)
qed

lemma same_ms_count:
  assumes "sorted xs" "i \<le> j" "j < length xs" "xs ! i = xs ! j"
  shows "j - i < count_list xs (xs ! i)"
proof -
  have all: "xs ! k = xs ! i" if "i \<le> k" "k \<le> j" for k
    using sorted_nth_mono [OF assms(1), of i k] sorted_nth_mono [OF assms(1), of k j] that assms(3,4) by simp
  have "count_list xs (xs ! i) = length (filter ((=) (xs ! i)) xs)" by (simp add: count_list_eq_length_filter)
  also have "\<dots> = card {k. k < length xs \<and> xs ! i = xs ! k}" by (rule length_filter_conv_card)
  finally have c: "count_list xs (xs ! i) = card {k. k < length xs \<and> xs ! i = xs ! k}" .
  have "{i..j} \<subseteq> {k. k < length xs \<and> xs ! i = xs ! k}"
  proof
    fix k
    assume "k \<in> {i..j}"
    then show "k \<in> {k. k < length xs \<and> xs ! i = xs ! k}" using all [of k] assms(3) by simp
  qed
  then have "card {i..j} \<le> count_list xs (xs ! i)" unfolding c by (intro card_mono) simp_all
  then show ?thesis using assms(2) by simp
qed

text \<open>
  C29. The numbers are unique as long as no millisecond sees more than 4096 calls: with a clock that does not go backwards the calls on one object
  give pairwise different numbers, and objects whose machine numbers differ in the ten bits that are used never give the
  same one.
\<close>

theorem snowflake_unique:
  assumes "counting i s" "sorted (map ms_of tvs)" "\<forall>tv \<in> set tvs. ms_of tv < 2 ^ 42 \<and> snd tv < 10 ^ 6"
    and "\<forall>m. count_list (map ms_of tvs) m \<le> 4096"
  shows "distinct (sf_run tvs s)
    \<and> (\<forall>j s' tvs'. counting j s' \<longrightarrow> take_bit 10 (sf_iMachineID s') \<noteq> take_bit 10 (sf_iMachineID s) \<longrightarrow> set (sf_run tvs s) \<inter> set (sf_run tvs' s') = {})"
proof (intro conjI allI impI)
  have no: "sf_run tvs s ! k \<noteq> sf_run tvs s ! l" if kl: "k < l" "l < length tvs" for k l
  proof
    assume e: "sf_run tvs s ! k = sf_run tvs s ! l"
    have f: "sf_time (sf_run tvs s ! x) = take_bit 42 (getTime (tvs ! x))" "sf_index (sf_run tvs s ! x) = of_nat ((i + x) mod 4096)" if "x < length tvs" for x
      using sf_run_nth [OF assms(1) that] by simp_all
    have t: "ms_of (tvs ! k) = ms_of (tvs ! l)"
    proof -
      have "unat (take_bit 42 (getTime (tvs ! x))) = ms_of (tvs ! x)" if "x < length tvs" for x
        using getTime_ms [of "tvs ! x"] assms(3) nth_mem [OF that] by fastforce
      then show ?thesis using e f(1) [of k] f(1) [of l] kl by (metis less_trans)
    qed
    have "(of_nat ((i + k) mod 4096) :: u64) = of_nat ((i + l) mod 4096)" using e f(2) [of k] f(2) [of l] kl by simp
    then have "unat (of_nat ((i + k) mod 4096) :: u64) = unat (of_nat ((i + l) mod 4096) :: u64)" by simp
    then have m: "(i + k) mod 4096 = (i + l) mod 4096" by (simp add: unsigned_of_nat take_bit_nat_eq_self less_trans [OF mod_less_divisor])
    then have "4096 dvd (i + l) - (i + k)" using kl by (intro mod_eq_dvd_iff_nat [THEN iffD1]) auto
    then have d: "4096 \<le> l - k" using kl by (intro dvd_imp_le) simp_all
    have "l - k < count_list (map ms_of tvs) (map ms_of tvs ! k)"
      by (rule same_ms_count [OF assms(2)]) (use kl t in simp_all)
    then show False using d assms(4) by (meson leD le_trans)
  qed
  then show "distinct (sf_run tvs s)" unfolding distinct_conv_nth by (metis length_sf_run nat_neq_iff)
next
  fix j s' tvs'
  assume c: "counting j s'" and ne: "take_bit 10 (sf_iMachineID s') \<noteq> take_bit 10 (sf_iMachineID s)"
  have m: "sf_machine v = ucast (take_bit 10 (sf_iMachineID r))" if "v \<in> set (sf_run us r)" "counting k r" for v us r k
    using that sf_run_nth [OF that(2)] by (auto simp: in_set_conv_nth)
  have "(ucast (ucast (take_bit 10 x) :: u64) :: u32) = take_bit 10 x" for x :: u32 by (rule bit_word_eqI) (simp add: bit_simps)
  then have "(ucast (take_bit 10 (sf_iMachineID s')) :: u64) \<noteq> ucast (take_bit 10 (sf_iMachineID s))"
    using ne by metis
  then show "set (sf_run tvs s) \<inter> set (sf_run tvs' s') = {}" using m [OF _ assms(1)] m [OF _ c] by fastforce
qed

theorem snowflake_unique_witness:
  "distinct (sf_run [(1, 5000), (1, 5100), (1, 6000)] CSnowflakeID_init)"
  using snowflake_unique [of 0 CSnowflakeID_init "[(1, 5000), (1, 5100), (1, 6000)]"]
  by (simp add: counting_def CSnowflakeID_init_def ms_of_def)

end
