(* ===== verification/Thread_Pool.thy ===== *)
theory Thread_Pool
  imports QS_Prelude "HOL-Library.Multiset"
begin

text \<open>
  \<^verbatim>\<open>QBase/ThreadPool.cpp\<close>: threads that take tasks from three queues. Every access to the queues holds \<^verbatim>\<open>objQueueMutex\<close> and the two counters
  are atomic, so that a state changes by one such access at a time, of any thread. Waiting on a condition ends at any time, by a signal or after
  a second, so that signals only make things faster and are left out. Tasks are pointers, numbers here, and \<open>del\<close> is what \<^verbatim>\<open>m_bDel\<close> of the task objects holds.
  The threads of \<^verbatim>\<open>Init\<close> are assumed to start; when one does not, the constructor throws and there is no pool.
\<close>

section \<open>State\<close>

datatype TaskLevel = TASKLV_HIGHT | TASKLV_NORMAL | TASKLV_LOW

record thread_pool =
  uiThreadNum :: nat
  lStop :: bool
  lIndex :: int
  quHigh :: "nat list"
  quNormal :: "nat list"
  quLow :: "nat list"

definition tpool_Init :: "nat \<Rightarrow> thread_pool" where
  "tpool_Init n = \<lparr>uiThreadNum = (if n = 0 then 1 else n), lStop = False, lIndex = 0, quHigh = [], quNormal = [], quLow = []\<rparr>"

definition pool_push :: "TaskLevel \<Rightarrow> nat \<Rightarrow> thread_pool \<Rightarrow> thread_pool" where
  "pool_push taskLV pTask p =
     (case taskLV of
        TASKLV_HIGHT \<Rightarrow> p\<lparr>quHigh := quHigh p @ [pTask]\<rparr>
      | TASKLV_NORMAL \<Rightarrow> p\<lparr>quNormal := quNormal p @ [pTask]\<rparr>
      | TASKLV_LOW \<Rightarrow> p\<lparr>quLow := quLow p @ [pTask]\<rparr>)"

definition getTaskNumber :: "thread_pool \<Rightarrow> nat" where
  "getTaskNumber p = length (quHigh p) + length (quNormal p) + length (quLow p)"

definition getPoolSize :: "thread_pool \<Rightarrow> nat" where "getPoolSize p = uiThreadNum p"

text \<open>
  Where a thread is in \<^verbatim>\<open>Run\<close>: before it has counted itself, at the test of the outer loop, at the condition, about to look into one of the queues,
  in the \<^verbatim>\<open>Run\<close> of a task, about to count itself out, about to signal that it has done so, and at the end.
\<close>

datatype pc = NotStarted | LoopTest | CondWait | FetchHigh | FetchNormal | FetchLow | Running nat | Leaving | Signalling | Exited

text \<open>One access of a thread; \<open>fin\<close> are the tasks whose \<^verbatim>\<open>Run\<close> has returned, each with whether it was deleted then.\<close>

fun thread_step :: "(nat \<Rightarrow> bool) \<Rightarrow> pc \<Rightarrow> thread_pool \<times> (nat \<times> bool) list \<Rightarrow> pc \<times> thread_pool \<times> (nat \<times> bool) list" where
  "thread_step del NotStarted (p, fin) = (LoopTest, p\<lparr>lIndex := lIndex p + 1\<rparr>, fin)"
| "thread_step del LoopTest (p, fin) = (if \<not> lStop p then CondWait else Leaving, p, fin)"
| "thread_step del CondWait (p, fin) = (FetchHigh, p, fin)"
| "thread_step del FetchHigh (p, fin) = (case quHigh p of [] \<Rightarrow> (FetchNormal, p, fin) | t # q \<Rightarrow> (Running t, p\<lparr>quHigh := q\<rparr>, fin))"
| "thread_step del FetchNormal (p, fin) = (case quNormal p of [] \<Rightarrow> (FetchLow, p, fin) | t # q \<Rightarrow> (Running t, p\<lparr>quNormal := q\<rparr>, fin))"
| "thread_step del FetchLow (p, fin) = (case quLow p of [] \<Rightarrow> (LoopTest, p, fin) | t # q \<Rightarrow> (Running t, p\<lparr>quLow := q\<rparr>, fin))"
| "thread_step del (Running t) (p, fin) = (FetchHigh, p, fin @ [(t, del t)])"
| "thread_step del Leaving (p, fin) = (Signalling, p\<lparr>lIndex := lIndex p - 1\<rparr>, fin)"
| "thread_step del Signalling (p, fin) = (Exited, p, fin)"
| "thread_step del Exited (p, fin) = (Exited, p, fin)"

text \<open>Where the owner of the pool is: using it, waiting in \<^verbatim>\<open>Destroy\<close> for the queues, waiting for the threads, and behind \<^verbatim>\<open>Q_SafeDelete\<close>.\<close>

datatype owner = Serving | Draining | Stopping | Gone

definition owner_step :: "owner \<Rightarrow> thread_pool \<Rightarrow> owner \<times> thread_pool" where
  "owner_step o' p =
     (case o' of
        Serving \<Rightarrow> (Draining, p)
      | Draining \<Rightarrow> if getTaskNumber p \<noteq> 0 then (Draining, p) else (Stopping, p\<lparr>lStop := True\<rparr>)
      | Stopping \<Rightarrow> if lIndex p > 0 then (Stopping, p) else (Gone, p)
      | Gone \<Rightarrow> (Gone, p))"

record pool_system =
  ps_pool :: thread_pool
  ps_threads :: "pc list"
  ps_owner :: owner
  ps_del :: "nat \<Rightarrow> bool"
  ps_appended :: "nat list"
  ps_finished :: "(nat \<times> bool) list"

definition pool_Append :: "nat option \<Rightarrow> TaskLevel \<Rightarrow> bool \<Rightarrow> pool_system \<Rightarrow> pool_system" where
  "pool_Append pTask taskLV bDel s =
     (case pTask of
        None \<Rightarrow> s
      | Some t \<Rightarrow> s\<lparr>ps_del := (ps_del s)(t := bDel), ps_pool := pool_push taskLV t (ps_pool s), ps_appended := ps_appended s @ [t]\<rparr>)"

text \<open>
  \<^verbatim>\<open>Append\<close> is called by the owner before it destroys the pool and by tasks that run. Nobody touches the pool once it is gone.
\<close>

inductive pool_step :: "pool_system \<Rightarrow> pool_system \<Rightarrow> bool" where
  step_append: "ps_owner s = Serving \<Longrightarrow>
     pool_step s (pool_Append pTask lv bDel s)"
| step_append_task: "ps_owner s \<noteq> Gone \<Longrightarrow> Running r \<in> set (ps_threads s) \<Longrightarrow>
     pool_step s (pool_Append pTask lv bDel s)"
| step_thread: "ps_owner s \<noteq> Gone \<Longrightarrow> i < length (ps_threads s) \<Longrightarrow>
     thread_step (ps_del s) (ps_threads s ! i) (ps_pool s, ps_finished s) = (c, p, fin) \<Longrightarrow>
     pool_step s (s\<lparr>ps_pool := p, ps_threads := (ps_threads s)[i := c], ps_finished := fin\<rparr>)"
| step_owner: "owner_step (ps_owner s) (ps_pool s) = (o', p) \<Longrightarrow> pool_step s (s\<lparr>ps_owner := o', ps_pool := p\<rparr>)"

definition pool_start :: "nat \<Rightarrow> pool_system" where
  "pool_start n = \<lparr>ps_pool = tpool_Init n, ps_threads = replicate (getPoolSize (tpool_Init n)) NotStarted,
     ps_owner = Serving, ps_del = \<lambda>_. True, ps_appended = [], ps_finished = []\<rparr>"

inductive pool_reach :: "nat \<Rightarrow> pool_system \<Rightarrow> bool" for n where
  reach_start: "pool_reach n (pool_start n)"
| reach_step: "pool_reach n s \<Longrightarrow> pool_step s s' \<Longrightarrow> pool_reach n s'"

inductive_cases pool_stepE: "pool_step s s'"

section \<open>Invariant\<close>

fun active :: "pc \<Rightarrow> bool" where
  "active NotStarted = False" | "active Signalling = False" | "active Exited = False" | "active _ = True"

fun task_of :: "pc \<Rightarrow> nat multiset" where
  "task_of (Running t) = {#t#}" | "task_of _ = {#}"

definition queued :: "thread_pool \<Rightarrow> nat multiset" where
  "queued p = mset (quHigh p @ quNormal p @ quLow p)"

definition busy :: "pc list \<Rightarrow> nat multiset" where "busy cs = (\<Sum>c \<in># mset cs. task_of c)"

text \<open>A thread that will still look into the first, second or third queue before it leaves.\<close>

definition sees :: "nat \<Rightarrow> pc \<Rightarrow> bool" where
  "sees k c \<longleftrightarrow> (\<exists>t. c = Running t) \<or> c = FetchHigh \<or> (1 \<le> k \<and> c = FetchNormal) \<or> (2 \<le> k \<and> c = FetchLow)"

definition looked_after :: "thread_pool \<Rightarrow> pc list \<Rightarrow> bool" where
  "looked_after p cs \<longleftrightarrow> (quHigh p \<noteq> [] \<longrightarrow> list_ex (sees 0) cs) \<and> (quNormal p \<noteq> [] \<longrightarrow> list_ex (sees 1) cs) \<and> (quLow p \<noteq> [] \<longrightarrow> list_ex (sees 2) cs)"

definition pool_sys_inv :: "pool_system \<Rightarrow> bool" where
  "pool_sys_inv s \<longleftrightarrow> mset (ps_appended s) = queued (ps_pool s) + busy (ps_threads s) + mset (map fst (ps_finished s))
     \<and> lIndex (ps_pool s) = int (length (filter active (ps_threads s)))
     \<and> (ps_owner s = Stopping \<or> ps_owner s = Gone \<longrightarrow> looked_after (ps_pool s) (ps_threads s))
     \<and> (ps_owner s = Gone \<longrightarrow> lIndex (ps_pool s) = 0)"

lemma split_at:
  assumes "i < length cs"
  obtains xs ys where "cs = xs @ cs ! i # ys" "\<And>c. cs[i := c] = xs @ c # ys"
  using that [of "take i cs" "drop (Suc i) cs"] assms by (simp add: id_take_nth_drop upd_conv_take_nth_drop)

lemma busy_split: "busy (xs @ c # ys) = busy xs + task_of c + busy ys"
  by (simp add: busy_def)

lemma queued_push: "queued (pool_push lv t p) = add_mset t (queued p)" "lIndex (pool_push lv t p) = lIndex p" "lStop (pool_push lv t p) = lStop p"
  by (simp_all add: pool_push_def queued_def split: TaskLevel.split)

lemma looked_after_running: "Running r \<in> set cs \<Longrightarrow> looked_after p cs"
  by (auto simp: looked_after_def list_ex_iff sees_def)

text \<open>One access of a thread moves at most one task, and a queue that is not empty stays looked after.\<close>

lemma thread_step_account:
  assumes "thread_step del c0 (p, fin) = (c, p', fin')"
  shows "queued p' + task_of c + mset (map fst fin') = queued p + task_of c0 + mset (map fst fin)" "lIndex p' = lIndex p + of_bool (active c) - of_bool (active c0)"
  using assms by (cases c0; auto simp: queued_def split: list.splits if_splits)+

lemma thread_step_looked_after:
  assumes "thread_step del c0 (p, fin) = (c, p', fin')" "looked_after p (xs @ c0 # ys)"
  shows "looked_after p' (xs @ c # ys)"
  using assms by (cases c0) (auto simp: looked_after_def sees_def split: list.splits if_splits)

lemma pool_step_inv:
  assumes "pool_step s s'" "pool_sys_inv s"
  shows "pool_sys_inv s'"
  using assms
proof (cases rule: pool_step.cases)
  case (step_append pTask lv bDel)
  then show ?thesis using assms(2) by (simp add: pool_sys_inv_def pool_Append_def queued_push split: option.split)
next
  case (step_append_task r pTask lv bDel)
  then show ?thesis using assms(2) looked_after_running by (auto simp: pool_sys_inv_def pool_Append_def queued_push split: option.split)
next
  case (step_thread i c p fin)
  obtain xs ys where xs: "ps_threads s = xs @ ps_threads s ! i # ys" "(ps_threads s)[i := c] = xs @ c # ys"
    using split_at [OF step_thread(3)] by blast
  note a = thread_step_account [OF step_thread(4)]
  have "queued p + busy (xs @ c # ys) + mset (map fst fin) = queued (ps_pool s) + busy (ps_threads s) + mset (map fst (ps_finished s))"
    using a(1) by (subst xs(1)) (simp add: busy_split ac_simps)
  moreover have "int (length (filter active (xs @ c # ys))) = int (length (filter active (ps_threads s))) + of_bool (active c) - of_bool (active (ps_threads s ! i))"
    by (subst xs(1)) simp
  moreover have "looked_after p (xs @ c # ys)" if "looked_after (ps_pool s) (ps_threads s)"
    using thread_step_looked_after [OF step_thread(4)] that xs(1) by metis
  ultimately show ?thesis using assms(2) step_thread(1,2) a(2) xs(2) by (auto simp: pool_sys_inv_def)
next
  case (step_owner o' p)
  show ?thesis
  proof (cases "ps_owner s = Draining \<and> getTaskNumber (ps_pool s) = 0")
    case True
    then have "o' = Stopping" "p = (ps_pool s)\<lparr>lStop := True\<rparr>" "quHigh p = []" "quNormal p = []" "quLow p = []"
      using step_owner(2) by (auto simp: owner_step_def getTaskNumber_def)
    then show ?thesis using assms(2) step_owner(1) by (auto simp: pool_sys_inv_def looked_after_def queued_def)
  next
    case False
    then have "p = ps_pool s" "o' = Gone \<longrightarrow> ps_owner s = Gone \<or> (ps_owner s = Stopping \<and> lIndex p \<le> 0)" "o' = Stopping \<longrightarrow> ps_owner s = Stopping"
      using step_owner(2) by (auto simp: owner_step_def split: owner.splits if_splits)
    then show ?thesis using assms(2) step_owner(1) by (auto simp: pool_sys_inv_def)
  qed
qed

lemma pool_reach_inv: "pool_reach n s \<Longrightarrow> pool_sys_inv s"
proof (induction rule: pool_reach.induct)
  case reach_start
  have "busy (replicate k NotStarted) = {#}" for k by (induction k) (simp_all add: busy_def)
  then show ?case by (simp add: pool_sys_inv_def pool_start_def tpool_Init_def queued_def filter_replicate)
next
  case (reach_step s s')
  then show ?case using pool_step_inv by blast
qed

text \<open>
  C10. No task is lost and none runs twice: at every moment the tasks that were appended are those in the queues, those that run and those that are
  done, each once. When the pool is gone no thread is in the middle of anything and every task that was appended is done, also those that tasks
  appended while the pool was being destroyed.
\<close>

theorem pool_runs_all:
  assumes "pool_reach n s"
  shows "mset (ps_appended s) = queued (ps_pool s) + busy (ps_threads s) + mset (map fst (ps_finished s))
    \<and> (ps_owner s = Gone \<longrightarrow> mset (map fst (ps_finished s)) = mset (ps_appended s) \<and> (\<forall>c \<in> set (ps_threads s). \<not> active c))"
proof -
  have i: "pool_sys_inv s" by (rule pool_reach_inv [OF assms])
  have "mset (map fst (ps_finished s)) = mset (ps_appended s) \<and> (\<forall>c \<in> set (ps_threads s). \<not> active c)" if g: "ps_owner s = Gone"
  proof -
    have na: "\<forall>c \<in> set (ps_threads s). \<not> active c" using i g by (auto simp: pool_sys_inv_def filter_empty_conv)
    have "\<not> list_ex (sees k) (ps_threads s)" for k using na by (auto simp: list_ex_iff sees_def)
    then have "queued (ps_pool s) = {#}" using i g by (auto simp: pool_sys_inv_def looked_after_def queued_def)
    moreover have "task_of c = {#}" if "c \<in> set (ps_threads s)" for c using na that by (cases c) auto
    then have "busy (ps_threads s) = {#}" by (simp add: busy_def)
    ultimately show ?thesis using i na by (simp add: pool_sys_inv_def)
  qed
  then show ?thesis using i by (simp add: pool_sys_inv_def)
qed

section \<open>Schedules\<close>

text \<open>Steps in a given order; a step that is not possible leaves the state as it is.\<close>

datatype pool_act = Do_Append TaskLevel nat bool | Do_Thread nat | Do_Owner

fun do_act :: "pool_act \<Rightarrow> pool_system \<Rightarrow> pool_system" where
  "do_act (Do_Append lv t bDel) s =
     (if ps_owner s = Serving then pool_Append (Some t) lv bDel s else s)"
| "do_act (Do_Thread i) s =
     (if ps_owner s \<noteq> Gone \<and> i < length (ps_threads s)
      then case thread_step (ps_del s) (ps_threads s ! i) (ps_pool s, ps_finished s) of
             (c, p, fin) \<Rightarrow> s\<lparr>ps_pool := p, ps_threads := (ps_threads s)[i := c], ps_finished := fin\<rparr>
      else s)"
| "do_act Do_Owner s = (case owner_step (ps_owner s) (ps_pool s) of (o', p) \<Rightarrow> s\<lparr>ps_owner := o', ps_pool := p\<rparr>)"

lemma do_act_reach: "pool_reach n s \<Longrightarrow> pool_reach n (do_act a s)"
  by (cases a) (auto split: prod.split intro: reach_step step_append step_thread step_owner)

lemma pool_acts_reach: "pool_reach n s \<Longrightarrow> pool_reach n (fold do_act as s)"
  by (induction as arbitrary: s) (auto intro: do_act_reach)

definition one_task :: "pool_act list" where
  "one_task = Do_Append TASKLV_LOW 5 True # replicate 10 (Do_Thread 0) @ [Do_Owner, Do_Owner] @ replicate 2 (Do_Thread 0) @ [Do_Owner]"

definition one_task_end :: pool_system where "one_task_end = fold do_act one_task (pool_start 1)"

lemma one_task_end_reach: "pool_reach 1 one_task_end"
  unfolding one_task_end_def by (rule pool_acts_reach [OF reach_start])

lemma one_task_state:
  "ps_owner one_task_end = Gone" "ps_threads one_task_end = [Signalling]"
  "ps_appended one_task_end = [5]"
  by code_simp+

theorem pool_runs_all_witness: "mset (map fst (ps_finished one_task_end)) = {#5#}"
  using pool_runs_all [OF one_task_end_reach, THEN conjunct2] by (simp add: one_task_state)

text \<open>
  \<^verbatim>\<open>Destroy\<close> may delete the pool under a thread that still uses it: the thread counts itself out before it locks \<^verbatim>\<open>objMutex_Main\<close> to signal that, and
  the owner goes on as soon as the count is zero. There is a run, with one thread and one task, at whose end the pool is gone and the
  thread is about to use its mutex.
\<close>

theorem pool_deleted_in_use:
  "\<exists>s. pool_reach 1 s \<and> ps_owner s = Gone \<and> Signalling \<in> set (ps_threads s) \<and> ps_finished s = [(5, True)]"
proof -
  let ?s = "one_task_end"
  have "ps_finished ?s = [(5, True)]" by code_simp
  then have "pool_reach 1 ?s \<and> ps_owner ?s = Gone \<and> Signalling \<in> set (ps_threads ?s) \<and> ps_finished ?s = [(5, True)]"
    using one_task_end_reach by (simp add: one_task_state)
  then show ?thesis by blast
qed

end
