(* ===== verification/Rijndael.thy ===== *)
theory Rijndael
  imports Rijndael_Tables
begin

text \<open>
  \<^verbatim>\<open>QBase/rijndael/rijndael.cpp\<close>: the block cipher of the Advanced Encryption Standard, with its key schedules. A round is four lookups and
  exclusive ors for each word of the state; the decryption uses a schedule of its own, so that its rounds have the same form.
\<close>

section \<open>The code\<close>

definition GETU32 :: "byte list \<Rightarrow> nat \<Rightarrow> u32" where
  "GETU32 p i = push_bit 24 (ucast (p ! i)) XOR push_bit 16 (ucast (p ! (i + 1))) XOR push_bit 8 (ucast (p ! (i + 2))) XOR ucast (p ! (i + 3))"

definition PUTU32 :: "u32 \<Rightarrow> byte list" where
  "PUTU32 st = [ucast (drop_bit 24 st), ucast (drop_bit 16 st), ucast (drop_bit 8 st), ucast st]"

text \<open>The lookups of the key schedule, with and without a rotation of the word.\<close>

definition sub_rot :: "u32 \<Rightarrow> u32" where
  "sub_rot temp = (Te4 ! unat (drop_bit 16 temp AND 0xff) AND 0xff000000) XOR (Te4 ! unat (drop_bit 8 temp AND 0xff) AND 0x00ff0000) XOR
     (Te4 ! unat (temp AND 0xff) AND 0x0000ff00) XOR (Te4 ! unat (drop_bit 24 temp) AND 0x000000ff)"

definition sub_word :: "u32 \<Rightarrow> u32" where
  "sub_word temp = (Te4 ! unat (drop_bit 24 temp) AND 0xff000000) XOR (Te4 ! unat (drop_bit 16 temp AND 0xff) AND 0x00ff0000) XOR
     (Te4 ! unat (drop_bit 8 temp AND 0xff) AND 0x0000ff00) XOR (Te4 ! unat (temp AND 0xff) AND 0x000000ff)"

text \<open>The bodies of the three loops, where \<open>r\<close> is how far the pointer \<^verbatim>\<open>rk\<close> has moved and \<open>i\<close> the counter.\<close>

definition setup128 :: "nat \<Rightarrow> u32 list \<Rightarrow> u32 list" where
  "setup128 i rk =
     (let r = 4 * i; temp = rk ! (r + 3);
          rk = rk[r + 4 := rk ! r XOR sub_rot temp XOR rcon ! i];
          rk = rk[r + 5 := rk ! (r + 1) XOR rk ! (r + 4)];
          rk = rk[r + 6 := rk ! (r + 2) XOR rk ! (r + 5)]
      in rk[r + 7 := rk ! (r + 3) XOR rk ! (r + 6)])"

definition setup192 :: "nat \<Rightarrow> u32 list \<Rightarrow> u32 list" where
  "setup192 i rk =
     (let r = 6 * i; temp = rk ! (r + 5);
          rk = rk[r + 6 := rk ! r XOR sub_rot temp XOR rcon ! i];
          rk = rk[r + 7 := rk ! (r + 1) XOR rk ! (r + 6)];
          rk = rk[r + 8 := rk ! (r + 2) XOR rk ! (r + 7)];
          rk = rk[r + 9 := rk ! (r + 3) XOR rk ! (r + 8)]
      in if i + 1 = 8 then rk
         else let rk = rk[r + 10 := rk ! (r + 4) XOR rk ! (r + 9)]
              in rk[r + 11 := rk ! (r + 5) XOR rk ! (r + 10)])"

definition setup256 :: "nat \<Rightarrow> u32 list \<Rightarrow> u32 list" where
  "setup256 i rk =
     (let r = 8 * i; temp = rk ! (r + 7);
          rk = rk[r + 8 := rk ! r XOR sub_rot temp XOR rcon ! i];
          rk = rk[r + 9 := rk ! (r + 1) XOR rk ! (r + 8)];
          rk = rk[r + 10 := rk ! (r + 2) XOR rk ! (r + 9)];
          rk = rk[r + 11 := rk ! (r + 3) XOR rk ! (r + 10)]
      in if i + 1 = 7 then rk
         else let temp = rk ! (r + 11);
                  rk = rk[r + 12 := rk ! (r + 4) XOR sub_word temp];
                  rk = rk[r + 13 := rk ! (r + 5) XOR rk ! (r + 12)];
                  rk = rk[r + 14 := rk ! (r + 6) XOR rk ! (r + 13)]
              in rk[r + 15 := rk ! (r + 7) XOR rk ! (r + 14)])"

definition load_key :: "nat \<Rightarrow> nat \<Rightarrow> byte list \<Rightarrow> u32 list \<Rightarrow> u32 list" where
  "load_key from to key rk = fold (\<lambda>j rk. rk[j := GETU32 key (4 * j)]) [from..<to] rk"

text \<open>The number of rounds and the array of round keys, which the caller provides.\<close>

definition rijndaelSetupEncrypt :: "u32 list \<Rightarrow> byte list \<Rightarrow> nat \<Rightarrow> nat \<times> u32 list" where
  "rijndaelSetupEncrypt rk key keybits =
     (let rk = load_key 0 4 key rk
      in if keybits = 128 then (10, fold setup128 [0..<10] rk)
         else let rk = load_key 4 6 key rk
              in if keybits = 192 then (12, fold setup192 [0..<8] rk)
                 else let rk = load_key 6 8 key rk
                      in if keybits = 256 then (14, fold setup256 [0..<7] rk) else (0, rk))"

definition swap_at :: "nat \<Rightarrow> nat \<Rightarrow> 'a list \<Rightarrow> 'a list" where
  "swap_at i j rk = (let temp = rk ! i in rk[i := rk ! j, j := temp])"

function swap_rounds :: "nat \<Rightarrow> nat \<Rightarrow> 'a list \<Rightarrow> 'a list" where
  "swap_rounds i j rk =
     (if i < j
      then swap_rounds (i + 4) (j - 4)
             (swap_at (i + 3) (j + 3) (swap_at (i + 2) (j + 2) (swap_at (i + 1) (j + 1) (swap_at i j rk))))
      else rk)"
  by auto
termination by (relation "measure (\<lambda>(i, j, _). j - i)") auto

declare swap_rounds.simps [simp del]

definition inv_mix :: "u32 \<Rightarrow> u32" where
  "inv_mix w = Td0 ! unat (Te4 ! unat (drop_bit 24 w) AND 0xff) XOR Td1 ! unat (Te4 ! unat (drop_bit 16 w AND 0xff) AND 0xff) XOR
     Td2 ! unat (Te4 ! unat (drop_bit 8 w AND 0xff) AND 0xff) XOR Td3 ! unat (Te4 ! unat (w AND 0xff) AND 0xff)"

definition mix_round :: "nat \<Rightarrow> u32 list \<Rightarrow> u32 list" where
  "mix_round i rk = fold (\<lambda>j rk. rk[j := inv_mix (rk ! j)]) [4 * i, 4 * i + 1, 4 * i + 2, 4 * i + 3] rk"

definition rijndaelSetupDecrypt :: "u32 list \<Rightarrow> byte list \<Rightarrow> nat \<Rightarrow> nat \<times> u32 list" where
  "rijndaelSetupDecrypt rk key keybits =
     (case rijndaelSetupEncrypt rk key keybits of (nrounds, rk) \<Rightarrow>
        (nrounds, fold mix_round [1..<nrounds] (swap_rounds 0 (4 * nrounds) rk)))"

type_synonym quad = "u32 \<times> u32 \<times> u32 \<times> u32"

text \<open>The four lines of a round of the unrolled code; \<open>j\<close> is the number of the round key.\<close>

definition enc_round :: "u32 list \<Rightarrow> nat \<Rightarrow> quad \<Rightarrow> quad" where
  "enc_round rk j s = (case s of (s0, s1, s2, s3) \<Rightarrow>
     (Te0 ! unat (drop_bit 24 s0) XOR Te1 ! unat (drop_bit 16 s1 AND 0xff) XOR Te2 ! unat (drop_bit 8 s2 AND 0xff) XOR Te3 ! unat (s3 AND 0xff) XOR rk ! (4 * j),
      Te0 ! unat (drop_bit 24 s1) XOR Te1 ! unat (drop_bit 16 s2 AND 0xff) XOR Te2 ! unat (drop_bit 8 s3 AND 0xff) XOR Te3 ! unat (s0 AND 0xff) XOR rk ! (4 * j + 1),
      Te0 ! unat (drop_bit 24 s2) XOR Te1 ! unat (drop_bit 16 s3 AND 0xff) XOR Te2 ! unat (drop_bit 8 s0 AND 0xff) XOR Te3 ! unat (s1 AND 0xff) XOR rk ! (4 * j + 2),
      Te0 ! unat (drop_bit 24 s3) XOR Te1 ! unat (drop_bit 16 s0 AND 0xff) XOR Te2 ! unat (drop_bit 8 s1 AND 0xff) XOR Te3 ! unat (s2 AND 0xff) XOR rk ! (4 * j + 3)))"

definition dec_round :: "u32 list \<Rightarrow> nat \<Rightarrow> quad \<Rightarrow> quad" where
  "dec_round rk j s = (case s of (s0, s1, s2, s3) \<Rightarrow>
     (Td0 ! unat (drop_bit 24 s0) XOR Td1 ! unat (drop_bit 16 s3 AND 0xff) XOR Td2 ! unat (drop_bit 8 s2 AND 0xff) XOR Td3 ! unat (s1 AND 0xff) XOR rk ! (4 * j),
      Td0 ! unat (drop_bit 24 s1) XOR Td1 ! unat (drop_bit 16 s0 AND 0xff) XOR Td2 ! unat (drop_bit 8 s3 AND 0xff) XOR Td3 ! unat (s2 AND 0xff) XOR rk ! (4 * j + 1),
      Td0 ! unat (drop_bit 24 s2) XOR Td1 ! unat (drop_bit 16 s1 AND 0xff) XOR Td2 ! unat (drop_bit 8 s0 AND 0xff) XOR Td3 ! unat (s3 AND 0xff) XOR rk ! (4 * j + 2),
      Td0 ! unat (drop_bit 24 s3) XOR Td1 ! unat (drop_bit 16 s2 AND 0xff) XOR Td2 ! unat (drop_bit 8 s1 AND 0xff) XOR Td3 ! unat (s0 AND 0xff) XOR rk ! (4 * j + 3)))"

text \<open>How many rounds the unrolled code runs before the last one.\<close>

definition unrolled :: "nat \<Rightarrow> nat" where
  "unrolled nrounds = (if nrounds > 10 then if nrounds > 12 then 13 else 11 else 9)"

definition load_state :: "u32 list \<Rightarrow> byte list \<Rightarrow> quad" where
  "load_state rk p = (GETU32 p 0 XOR rk ! 0, GETU32 p 4 XOR rk ! 1, GETU32 p 8 XOR rk ! 2, GETU32 p 12 XOR rk ! 3)"

definition last4 :: "u32 list \<Rightarrow> u32 \<Rightarrow> u32 \<Rightarrow> u32 \<Rightarrow> u32 \<Rightarrow> u32" where
  "last4 T w x y z = (T ! unat (drop_bit 24 w) AND 0xff000000) XOR (T ! unat (drop_bit 16 x AND 0xff) AND 0x00ff0000) XOR
     (T ! unat (drop_bit 8 y AND 0xff) AND 0x0000ff00) XOR (T ! unat (z AND 0xff) AND 0x000000ff)"

definition rijndaelEncrypt :: "u32 list \<Rightarrow> nat \<Rightarrow> byte list \<Rightarrow> byte list" where
  "rijndaelEncrypt rk nrounds plaintext =
     (case fold (enc_round rk) [1..<unrolled nrounds + 1] (load_state rk plaintext) of (t0, t1, t2, t3) \<Rightarrow>
        PUTU32 (last4 Te4 t0 t1 t2 t3 XOR rk ! (4 * nrounds)) @ PUTU32 (last4 Te4 t1 t2 t3 t0 XOR rk ! (4 * nrounds + 1)) @
        PUTU32 (last4 Te4 t2 t3 t0 t1 XOR rk ! (4 * nrounds + 2)) @ PUTU32 (last4 Te4 t3 t0 t1 t2 XOR rk ! (4 * nrounds + 3)))"

definition rijndaelDecrypt :: "u32 list \<Rightarrow> nat \<Rightarrow> byte list \<Rightarrow> byte list" where
  "rijndaelDecrypt rk nrounds ciphertext =
     (case fold (dec_round rk) [1..<unrolled nrounds + 1] (load_state rk ciphertext) of (t0, t1, t2, t3) \<Rightarrow>
        PUTU32 (last4 Td4 t0 t3 t2 t1 XOR rk ! (4 * nrounds)) @ PUTU32 (last4 Td4 t1 t0 t3 t2 XOR rk ! (4 * nrounds + 1)) @
        PUTU32 (last4 Td4 t2 t1 t0 t3 XOR rk ! (4 * nrounds + 2)) @ PUTU32 (last4 Td4 t3 t2 t1 t0 XOR rk ! (4 * nrounds + 3)))"

section \<open>Rounds as operations on bytes\<close>

definition mc :: "u32 \<Rightarrow> u32" where
  "mc w = (let a = byte3 w; b = byte2 w; c = byte1 w; d = byte0 w
           in pack (xt a XOR xt b XOR b XOR c XOR d) (a XOR xt b XOR xt c XOR c XOR d)
                (a XOR b XOR xt c XOR xt d XOR d) (xt a XOR a XOR b XOR c XOR xt d))"

definition imc :: "u32 \<Rightarrow> u32" where
  "imc w = (let a = byte3 w; b = byte2 w; c = byte1 w; d = byte0 w
            in pack (m14 a XOR m11 b XOR m13 c XOR m9 d) (m9 a XOR m14 b XOR m11 c XOR m13 d)
                 (m13 a XOR m9 b XOR m14 c XOR m11 d) (m11 a XOR m13 b XOR m9 c XOR m14 d))"

fun map_quad :: "('a \<Rightarrow> 'b) \<Rightarrow> 'a \<times> 'a \<times> 'a \<times> 'a \<Rightarrow> 'b \<times> 'b \<times> 'b \<times> 'b" where
  "map_quad f (a, b, c, d) = (f a, f b, f c, f d)"

fun xor_quad :: "quad \<Rightarrow> quad \<Rightarrow> quad" where
  "xor_quad (a, b, c, d) (a', b', c', d') = (a XOR a', b XOR b', c XOR c', d XOR d')"

definition rkey :: "u32 list \<Rightarrow> nat \<Rightarrow> quad" where
  "rkey rk j = (rk ! (4 * j), rk ! (4 * j + 1), rk ! (4 * j + 2), rk ! (4 * j + 3))"

text \<open>Substitution followed by the shift of the rows, and back.\<close>

fun sub_shift :: "quad \<Rightarrow> quad" where
  "sub_shift (s0, s1, s2, s3) =
     (let f = (\<lambda>w x y z. pack (sub_byte (byte3 w)) (sub_byte (byte2 x)) (sub_byte (byte1 y)) (sub_byte (byte0 z)))
      in (f s0 s1 s2 s3, f s1 s2 s3 s0, f s2 s3 s0 s1, f s3 s0 s1 s2))"

fun inv_sub_shift :: "quad \<Rightarrow> quad" where
  "inv_sub_shift (s0, s1, s2, s3) =
     (let f = (\<lambda>w x y z. pack (inv_sub_byte (byte3 w)) (inv_sub_byte (byte2 x)) (inv_sub_byte (byte1 y)) (inv_sub_byte (byte0 z)))
      in (f s0 s3 s2 s1, f s1 s0 s3 s2, f s2 s1 s0 s3, f s3 s2 s1 s0))"

lemma inv_sub_shift_sub_shift [simp]: "inv_sub_shift (sub_shift s) = s"
  by (cases s) (simp add: Let_def)

lemma xor_self_left [simp]: "a XOR (a XOR b) = (b :: 'a :: len word)"
  by (simp flip: xor.assoc)

lemma imc_xor: "imc (v XOR w) = imc v XOR imc w"
  by (simp add: imc_def Let_def m_defs pack_xor ac_simps)

lemma imc_mc [simp]: "imc (mc w) = w"
proof -
  have "imc (mc w) = pack (byte3 w) (byte2 w) (byte1 w) (byte0 w)"
    by (simp add: imc_def mc_def Let_def m_defs ac_simps del: pack_byte)
  then show ?thesis by simp
qed

lemma pack_xor_left: "pack a b c d XOR (pack a' b' c' d' XOR w) = pack (a XOR a') (b XOR b') (c XOR c') (d XOR d') XOR w"
  by (simp add: pack_xor flip: xor.assoc)

lemma byte0_drop: "byte0 (drop_bit 24 w) = byte3 w" "byte0 (drop_bit 16 w) = byte2 w" "byte0 (drop_bit 8 w) = byte1 w"
  by (simp_all add: byte_defs)

lemmas pack_sums = pack_xor pack_xor_left

lemmas lookups = index_byte byte0_drop Te_at Td_at

lemma enc_round_eq: "enc_round rk j s = xor_quad (map_quad mc (sub_shift s)) (rkey rk j)"
  by (cases s) (simp add: enc_round_def rkey_def lookups mc_def Let_def pack_sums ac_simps)

lemma dec_round_eq: "dec_round rk j s = xor_quad (map_quad imc (inv_sub_shift s)) (rkey rk j)"
  by (cases s) (simp add: dec_round_def rkey_def lookups imc_def Let_def pack_sums ac_simps)

lemma inv_mix_imc: "inv_mix w = imc w"
  by (simp add: inv_mix_def lookups imc_def Let_def pack_sums)

lemma last4_Te4: "last4 Te4 w x y z = pack (sub_byte (byte3 w)) (sub_byte (byte2 x)) (sub_byte (byte1 y)) (sub_byte (byte0 z))"
  by (simp add: last4_def lookups pack_mask pack_sums)

lemma last4_Td4: "last4 Td4 w x y z = pack (inv_sub_byte (byte3 w)) (inv_sub_byte (byte2 x)) (inv_sub_byte (byte1 y)) (inv_sub_byte (byte0 z))"
  by (simp add: last4_def lookups pack_mask pack_sums)

text \<open>Blocks as words.\<close>

fun quad_bytes :: "quad \<Rightarrow> byte list" where
  "quad_bytes (a, b, c, d) = PUTU32 a @ PUTU32 b @ PUTU32 c @ PUTU32 d"

definition quad_of :: "byte list \<Rightarrow> quad" where
  "quad_of p = (GETU32 p 0, GETU32 p 4, GETU32 p 8, GETU32 p 12)"

lemma GETU32_pack: "GETU32 p i = pack (p ! i) (p ! (i + 1)) (p ! (i + 2)) (p ! (i + 3))"
  by (simp add: GETU32_def pack_def)

lemma PUTU32_bytes: "PUTU32 w = [byte3 w, byte2 w, byte1 w, byte0 w]"
  by (simp add: PUTU32_def byte_defs)

lemma quad_of_bytes [simp]: "quad_of (quad_bytes q) = q"
  by (cases q) (simp add: quad_of_def GETU32_pack PUTU32_bytes)

lemma length_quad_bytes [simp]: "length (quad_bytes q) = 16"
  by (cases q) (simp add: PUTU32_def)

lemma quad_bytes_of [simp]: "length p = 16 \<Longrightarrow> quad_bytes (quad_of p) = p"
  by (auto simp: quad_of_def GETU32_pack PUTU32_bytes numeral_eq_Suc less_Suc_eq length_Suc_conv)

lemma load_state_eq: "load_state rk p = xor_quad (quad_of p) (rkey rk 0)"
  by (simp add: load_state_def quad_of_def rkey_def numeral_2_eq_2)

lemma rijndaelEncrypt_eq:
  "rijndaelEncrypt rk n p = quad_bytes (xor_quad (sub_shift (fold (enc_round rk) [1..<unrolled n + 1] (xor_quad (quad_of p) (rkey rk 0)))) (rkey rk n))"
  by (cases "fold (enc_round rk) [1..<unrolled n + 1] (xor_quad (quad_of p) (rkey rk 0))")
    (simp add: rijndaelEncrypt_def load_state_eq last4_Te4 rkey_def Let_def)

lemma rijndaelDecrypt_eq:
  "rijndaelDecrypt rk n p = quad_bytes (xor_quad (inv_sub_shift (fold (dec_round rk) [1..<unrolled n + 1] (xor_quad (quad_of p) (rkey rk 0)))) (rkey rk n))"
  by (cases "fold (dec_round rk) [1..<unrolled n + 1] (xor_quad (quad_of p) (rkey rk 0))")
    (simp add: rijndaelDecrypt_def load_state_eq last4_Td4 rkey_def Let_def)

section \<open>Decryption undoes encryption\<close>

lemma xor_quad_cancel [simp]: "xor_quad (xor_quad q k) k = q"
  by (cases q; cases k) (simp add: ac_simps)

lemma map_imc_xor: "map_quad imc (xor_quad p q) = xor_quad (map_quad imc p) (map_quad imc q)"
  by (cases p; cases q) (simp add: imc_xor)

lemma map_imc_mc [simp]: "map_quad imc (map_quad mc q) = q"
  by (cases q) simp

text \<open>The schedule for decryption has the round keys in reverse order, those in the middle transformed.\<close>

definition reversed :: "nat \<Rightarrow> u32 list \<Rightarrow> u32 list \<Rightarrow> bool" where
  "reversed n rk dk \<longleftrightarrow> rkey dk 0 = rkey rk n \<and> rkey dk n = rkey rk 0 \<and> (\<forall>j. 0 < j \<and> j < n \<longrightarrow> rkey dk j = map_quad imc (rkey rk (n - j)))"

lemma dec_round_undoes:
  assumes "reversed n rk dk" "0 < k" "k < n"
  shows "dec_round dk k (sub_shift (enc_round rk (n - k) s)) = sub_shift s"
  using assms by (simp add: dec_round_eq enc_round_eq reversed_def map_imc_xor)

lemma dec_rounds_undo:
  assumes "reversed n rk dk" "k < n"
  shows "fold (dec_round dk) [1..<Suc k] (sub_shift (fold (enc_round rk) [1..<n] s)) = sub_shift (fold (enc_round rk) [1..<n - k] s)"
  using assms(2)
proof (induction k)
  case (Suc k)
  then have "[1..<n - k] = [1..<n - Suc k] @ [n - Suc k]" using upt_Suc_append [of 1 "n - Suc k"] by (simp add: Suc_diff_Suc)
  then show ?case using Suc dec_round_undoes [OF assms(1), of "Suc k"] by simp
qed simp

lemma decrypt_encrypt:
  assumes "reversed n rk dk" "unrolled n + 1 = n" "length p = 16"
  shows "rijndaelDecrypt dk n (rijndaelEncrypt rk n p) = p"
proof -
  let ?s = "xor_quad (quad_of p) (rkey rk 0)"
  have k: "rkey dk 0 = rkey rk n" "rkey dk n = rkey rk 0" using assms(1) by (auto simp: reversed_def)
  have "fold (dec_round dk) [1..<n] (sub_shift (fold (enc_round rk) [1..<n] ?s)) = sub_shift ?s"
    using dec_rounds_undo [OF assms(1), of "n - 1" ?s] assms(2) by simp
  then show ?thesis by (simp only: rijndaelDecrypt_eq rijndaelEncrypt_eq assms(2) quad_of_bytes k xor_quad_cancel
    inv_sub_shift_sub_shift quad_bytes_of [OF assms(3)])
qed

section \<open>The schedule for decryption\<close>

lemma length_setup [simp]:
  "length (setup128 i rk) = length rk" "length (setup192 i rk) = length rk" "length (setup256 i rk) = length rk"
  by (simp_all add: setup128_def setup192_def setup256_def Let_def)

lemma length_fold_same: "(\<And>x xs. length (f x xs) = length xs) \<Longrightarrow> length (fold f ys xs) = length xs"
  by (induction ys arbitrary: xs) simp_all

lemma length_SetupEncrypt: "length (snd (rijndaelSetupEncrypt rk key keybits)) = length rk"
  by (simp add: rijndaelSetupEncrypt_def load_key_def Let_def length_fold_same)

lemma length_swap_at [simp]: "length (swap_at i j rk) = length rk"
  by (simp add: swap_at_def Let_def)

definition swap4 :: "nat \<Rightarrow> nat \<Rightarrow> 'a list \<Rightarrow> 'a list" where
  "swap4 i j rk = swap_at (i + 3) (j + 3) (swap_at (i + 2) (j + 2) (swap_at (i + 1) (j + 1) (swap_at i j rk)))"

lemma rkey_swap4:
  assumes "a < b" "4 * b + 3 < length rk"
  shows "rkey (swap4 (4 * a) (4 * b) rk) k = rkey rk (if k = a then b else if k = b then a else k)"
  using assms by (auto simp: rkey_def swap4_def swap_at_def Let_def nth_list_update)

lemma rkey_swap_rounds:
  assumes "a + b = n" "4 * n + 3 < length rk"
  shows "rkey (swap_rounds (4 * a) (4 * b) rk) k = rkey rk (if a \<le> k \<and> k \<le> b then n - k else k)"
  using assms
proof (induction "b - a" arbitrary: a b rk rule: less_induct)
  case less
  show ?case
  proof (cases "a < b")
    case True
    then have "swap_rounds (4 * a) (4 * b) rk = swap_rounds (4 * Suc a) (4 * (b - 1)) (swap4 (4 * a) (4 * b) rk)"
      by (subst swap_rounds.simps) (simp add: swap4_def algebra_simps diff_mult_distrib2)
    also have "rkey \<dots> k = rkey (swap4 (4 * a) (4 * b) rk) (if Suc a \<le> k \<and> k \<le> b - 1 then n - k else k)"
      using less.prems True by (intro less.hyps) (auto simp: swap4_def)
    also have "\<dots> = rkey rk (if a \<le> k \<and> k \<le> b then n - k else k)"
      using less.prems True by (subst rkey_swap4) auto
    finally show ?thesis .
  next
    case False
    then have "swap_rounds (4 * a) (4 * b) rk = rk" by (subst swap_rounds.simps) simp
    moreover have "(if a \<le> k \<and> k \<le> b then n - k else k) = k" using False less.prems(1) by auto
    ultimately show ?thesis by simp
  qed
qed

lemma length_swap_rounds: "length (swap_rounds i j rk) = length rk"
  by (induction i j rk rule: swap_rounds.induct) (subst swap_rounds.simps, simp)

lemma rkey_mix_round:
  "4 * i + 3 < length rk \<Longrightarrow> rkey (mix_round i rk) k = (if k = i then map_quad imc (rkey rk i) else rkey rk k)"
  by (auto simp: rkey_def mix_round_def inv_mix_imc nth_list_update)

lemma length_mix_round [simp]: "length (mix_round i rk) = length rk"
  by (simp add: mix_round_def)

lemma rkey_mix_rounds:
  assumes "4 * n \<le> length rk" "m \<le> n"
  shows "rkey (fold mix_round [1..<m] rk) k = (if 0 < k \<and> k < m then map_quad imc (rkey rk k) else rkey rk k)"
  using assms(2)
proof (induction m)
  case (Suc m)
  show ?case
  proof (cases "m = 0")
    case False
    have "4 * m + 3 < length (fold mix_round [1..<m] rk)" using assms(1) Suc.prems by (simp add: length_fold_same)
    then show ?thesis using Suc False by (auto simp: rkey_mix_round less_Suc_eq)
  qed auto
qed simp

lemma SetupDecrypt_reversed:
  assumes "rijndaelSetupEncrypt rk0 key keybits = (n, rk)" "4 * n + 3 < length rk0" "0 < n"
  shows "\<exists>dk. rijndaelSetupDecrypt rk0 key keybits = (n, dk) \<and> reversed n rk dk"
proof -
  let ?dk = "fold mix_round [1..<n] (swap_rounds 0 (4 * n) rk)"
  have l: "length rk = length rk0" using length_SetupEncrypt [of rk0 key keybits] assms(1) by simp
  have "rkey ?dk k = (if 0 < k \<and> k < n then map_quad imc (rkey (swap_rounds 0 (4 * n) rk) k) else rkey (swap_rounds 0 (4 * n) rk) k)" for k
    using assms(2) l by (intro rkey_mix_rounds [of n]) (simp_all add: length_swap_rounds)
  moreover have "rkey (swap_rounds 0 (4 * n) rk) k = rkey rk (if k \<le> n then n - k else k)" for k
    using rkey_swap_rounds [of 0 n n rk k] assms(2) l by simp
  ultimately have "reversed n rk ?dk" using assms(3) by (auto simp: reversed_def)
  then show ?thesis using assms(1) by (simp add: rijndaelSetupDecrypt_def)
qed

end
