(* ===== verification/AES_Standard.thy ===== *)
theory AES_Standard
  imports Rijndael
begin

text \<open>
  The cipher of the Advanced Encryption Standard (FIPS 197), on lists of bytes as the standard describes it, and the proof that the tables and
  schedules of \<^verbatim>\<open>rijndael.cpp\<close> implement it.
\<close>

section \<open>The standard\<close>

definition SubBytes :: "byte list \<Rightarrow> byte list" where "SubBytes st = map sub_byte st"

text \<open>The state is stored by columns: the byte in row \<open>i mod 4\<close> and column \<open>i div 4\<close> is at \<open>i\<close>.\<close>

definition ShiftRows :: "byte list \<Rightarrow> byte list" where
  "ShiftRows st = map (\<lambda>i. st ! ((i + 4 * (i mod 4)) mod 16)) [0..<16]"

fun mix_column :: "byte list \<Rightarrow> byte list" where
  "mix_column [a, b, c, d] =
     [xt a XOR (xt b XOR b) XOR c XOR d, a XOR xt b XOR (xt c XOR c) XOR d, a XOR b XOR xt c XOR (xt d XOR d), (xt a XOR a) XOR b XOR c XOR xt d]"
| "mix_column _ = []"

definition MixColumns :: "byte list \<Rightarrow> byte list" where
  "MixColumns st = concat (map (\<lambda>c. mix_column (take 4 (drop (4 * c) st))) [0..<4])"

definition AddRoundKey :: "(nat \<Rightarrow> u32) \<Rightarrow> nat \<Rightarrow> byte list \<Rightarrow> byte list" where
  "AddRoundKey w j st = map2 (XOR) st (concat (map (\<lambda>i. let k = w (4 * j + i) in [byte3 k, byte2 k, byte1 k, byte0 k]) [0..<4]))"

definition aes_cipher :: "nat \<Rightarrow> (nat \<Rightarrow> u32) \<Rightarrow> byte list \<Rightarrow> byte list" where
  "aes_cipher nr w p =
     AddRoundKey w nr (ShiftRows (SubBytes
       (fold (\<lambda>j st. AddRoundKey w j (MixColumns (ShiftRows (SubBytes st)))) [1..<nr] (AddRoundKey w 0 p))))"

definition SubWord :: "u32 \<Rightarrow> u32" where
  "SubWord w = pack (sub_byte (byte3 w)) (sub_byte (byte2 w)) (sub_byte (byte1 w)) (sub_byte (byte0 w))"

definition RotWord :: "u32 \<Rightarrow> u32" where "RotWord w = pack (byte2 w) (byte1 w) (byte0 w) (byte3 w)"

definition Rcon :: "nat \<Rightarrow> u32" where "Rcon i = pack ((xt ^^ (i - 1)) 1) 0 0 0"

text \<open>The words of the key schedule for a key of \<open>nk\<close> words.\<close>

function aes_word :: "nat \<Rightarrow> byte list \<Rightarrow> nat \<Rightarrow> u32" where
  "aes_word nk key i =
     (if i < nk \<or> nk = 0 then pack (key ! (4 * i)) (key ! (4 * i + 1)) (key ! (4 * i + 2)) (key ! (4 * i + 3))
      else aes_word nk key (i - nk) XOR
        (if i mod nk = 0 then SubWord (RotWord (aes_word nk key (i - 1))) XOR Rcon (i div nk)
         else if nk > 6 \<and> i mod nk = 4 then SubWord (aes_word nk key (i - 1))
         else aes_word nk key (i - 1)))"
  by auto
termination by (relation "measure (\<lambda>(nk, key, i). i)") auto

declare aes_word.simps [simp del]

section \<open>Rounds\<close>

lemma quad_bytes_xor: "quad_bytes (xor_quad p q) = map2 (XOR) (quad_bytes p) (quad_bytes q)"
  by (cases p; cases q) (simp add: PUTU32_bytes)

lemma quad_bytes_sub_shift: "quad_bytes (sub_shift s) = ShiftRows (SubBytes (quad_bytes s))"
  by (cases s) (simp add: PUTU32_bytes ShiftRows_def SubBytes_def upt_rec Let_def)

lemma quad_bytes_mc: "quad_bytes (map_quad mc s) = MixColumns (quad_bytes s)"
  by (cases s) (simp add: PUTU32_bytes MixColumns_def mc_def upt_rec Let_def ac_simps)

definition holds_words :: "(nat \<Rightarrow> u32) \<Rightarrow> nat \<Rightarrow> u32 list \<Rightarrow> bool" where
  "holds_words w m rk \<longleftrightarrow> m \<le> length rk \<and> (\<forall>i < m. rk ! i = w i)"

lemma quad_bytes_rkey:
  assumes "holds_words w m rk" "4 * j + 3 < m"
  shows "map2 (XOR) st (quad_bytes (rkey rk j)) = AddRoundKey w j st"
  using assms by (simp add: holds_words_def rkey_def AddRoundKey_def PUTU32_bytes upt_rec Let_def numeral_3_eq_3)

lemma enc_rounds_standard:
  assumes "holds_words w (4 * n + 4) rk" "m \<le> n"
  shows "quad_bytes (fold (enc_round rk) [1..<m] s) = fold (\<lambda>j st. AddRoundKey w j (MixColumns (ShiftRows (SubBytes st)))) [1..<m] (quad_bytes s)"
  using assms(2)
proof (induction m)
  case (Suc m)
  then show ?case using quad_bytes_rkey [OF assms(1), of m]
    by (cases "m = 0") (simp_all add: enc_round_eq quad_bytes_xor quad_bytes_sub_shift quad_bytes_mc)
qed simp

lemma rijndaelEncrypt_standard:
  assumes "holds_words w (4 * n + 4) rk" "unrolled n + 1 = n" "length p = 16"
  shows "rijndaelEncrypt rk n p = aes_cipher n w p"
  using quad_bytes_rkey [OF assms(1), of n] quad_bytes_rkey [OF assms(1), of 0] enc_rounds_standard [OF assms(1), of n] assms(3)
  by (simp only: rijndaelEncrypt_eq assms(2) quad_bytes_xor quad_bytes_sub_shift quad_bytes_of aes_cipher_def)

section \<open>Key schedule\<close>

lemma sub_rot_eq: "sub_rot w = SubWord (RotWord w)"
  by (simp add: sub_rot_def SubWord_def RotWord_def lookups pack_mask pack_sums)

lemma sub_word_eq: "sub_word w = SubWord w"
  by (simp add: sub_word_def SubWord_def lookups pack_mask pack_sums)

lemma rcon_eq: "i < 10 \<Longrightarrow> rcon ! i = Rcon (i + 1)"
proof -
  have "list_all (\<lambda>i. rcon ! i = Rcon (i + 1)) [0..<10]" by code_simp
  then show "i < 10 \<Longrightarrow> rcon ! i = Rcon (i + 1)" by (simp add: list_all_iff)
qed

lemma holds_words_Suc:
  "holds_words w m rk \<Longrightarrow> m < length rk \<Longrightarrow> v = w m \<Longrightarrow> holds_words w (m + 1) (rk[m := v])"
  by (auto simp: holds_words_def less_Suc_eq)

text \<open>The three kinds of assignments, for the word at \<open>m\<close> with the word \<open>nk\<close> places before it at \<open>a\<close> and the last word at \<open>b\<close>.\<close>

lemma word_next:
  assumes "holds_words (aes_word nk key) m0 rk" "m0 = m" "m < length rk" "a + nk = m" "b + 1 = m" "0 < nk" "m mod nk \<noteq> 0" "nk > 6 \<Longrightarrow> m mod nk \<noteq> 4"
  shows "holds_words (aes_word nk key) (m + 1) (rk[m := rk ! a XOR rk ! b])"
proof -
  have "m - nk = a" "m - 1 = b" "\<not> m < nk" using assms(4,5) by auto
  then have "aes_word nk key m = aes_word nk key a XOR aes_word nk key b" using assms(6-8) by (subst aes_word.simps) auto
  then show ?thesis using assms(1-6) by (intro holds_words_Suc) (auto simp: holds_words_def)
qed

lemma word_rot:
  assumes "holds_words (aes_word nk key) m rk" "m < length rk" "a + nk = m" "b + 1 = m" "0 < nk" "m = nk * (c + 1)" "c < 10"
  shows "holds_words (aes_word nk key) (m + 1) (rk[m := rk ! a XOR sub_rot (rk ! b) XOR rcon ! c])"
proof -
  have "m - nk = a" "m - 1 = b" "\<not> m < nk" "m mod nk = 0" "m div nk = c + 1" using assms(3-6) by auto
  then have "aes_word nk key m = aes_word nk key a XOR (SubWord (RotWord (aes_word nk key b)) XOR Rcon (c + 1))"
    using assms(5) by (subst aes_word.simps) auto
  then show ?thesis using assms(1-5,7) by (intro holds_words_Suc) (auto simp: holds_words_def sub_rot_eq rcon_eq ac_simps)
qed

lemma word_sub:
  assumes "holds_words (aes_word nk key) m0 rk" "m0 = m" "m < length rk" "a + nk = m" "b + 1 = m" "nk > 6" "m mod nk = 4"
  shows "holds_words (aes_word nk key) (m + 1) (rk[m := rk ! a XOR sub_word (rk ! b)])"
proof -
  have "m - nk = a" "m - 1 = b" "\<not> m < nk" using assms(4,5) by auto
  then have "aes_word nk key m = aes_word nk key a XOR SubWord (aes_word nk key b)" using assms(6,7) by (subst aes_word.simps) auto
  then show ?thesis using assms(1-6) by (intro holds_words_Suc) (auto simp: holds_words_def sub_word_eq)
qed

lemma load_key_words:
  assumes "holds_words (aes_word nk key) a rk" "a \<le> b" "b \<le> nk" "b \<le> length rk"
  shows "holds_words (aes_word nk key) b (load_key a b key rk)"
  using assms(2-4)
proof (induction b)
  case 0
  then show ?case using assms(1) by (simp add: load_key_def)
next
  case (Suc b)
  show ?case
  proof (cases "a = Suc b")
    case True
    then show ?thesis using assms(1) by (simp add: load_key_def)
  next
    case False
    then have "holds_words (aes_word nk key) b (load_key a b key rk)" using Suc by simp
    moreover have "GETU32 key (4 * b) = aes_word nk key b" using Suc.prems by (subst aes_word.simps) (simp add: GETU32_pack)
    moreover have "length (load_key a b key rk) = length rk" by (simp add: load_key_def length_fold_same)
    moreover have "load_key a (Suc b) key rk = (load_key a b key rk)[b := GETU32 key (4 * b)]"
      using False Suc.prems by (simp add: load_key_def)
    ultimately show ?thesis using holds_words_Suc Suc.prems by fastforce
  qed
qed

text \<open>Three words in a row, as all loops compute them.\<close>

definition next3 :: "nat \<Rightarrow> nat \<Rightarrow> u32 list \<Rightarrow> u32 list" where
  "next3 nk m rk =
     (let rk = rk[m := rk ! (m - nk) XOR rk ! (m - 1)];
          rk = rk[m + 1 := rk ! (m + 1 - nk) XOR rk ! m]
      in rk[m + 2 := rk ! (m + 2 - nk) XOR rk ! (m + 1)])"

lemma next3_words:
  assumes "holds_words (aes_word nk key) m rk" "m + 2 < length rk" "nk \<le> m" "0 < nk" "\<And>j. j < 3 \<Longrightarrow> (m + j) mod nk \<noteq> 0 \<and> (nk > 6 \<longrightarrow> (m + j) mod nk \<noteq> 4)"
  shows "holds_words (aes_word nk key) (m + 3) (next3 nk m rk)"
proof -
  define rk1 where "rk1 = rk[m := rk ! (m - nk) XOR rk ! (m - 1)]"
  define rk2 where "rk2 = rk1[m + 1 := rk1 ! (m + 1 - nk) XOR rk1 ! m]"
  have l: "length rk1 = length rk" "length rk2 = length rk" by (simp_all add: rk1_def rk2_def)
  have "holds_words (aes_word nk key) (m + 1) rk1"
    unfolding rk1_def by (rule word_next [OF assms(1)]) (use assms(2-4) assms(5) [of 0] in auto)
  then have "holds_words (aes_word nk key) (m + 1 + 1) rk2"
    unfolding rk2_def by (rule word_next) (use assms(2-4) assms(5) [of 1] l in auto)
  then have "holds_words (aes_word nk key) (m + 2 + 1) (rk2[m + 2 := rk2 ! (m + 2 - nk) XOR rk2 ! (m + 1)])"
    by (rule word_next) (use assms(2-4) assms(5) [of 2] l in auto)
  then show ?thesis by (simp add: next3_def Let_def rk1_def rk2_def numeral_3_eq_3)
qed

lemma mod_next: "c + j < nk \<Longrightarrow> (nk * i + nk + c + j) mod nk = c + (j :: nat)"
  by (simp add: add.assoc)

lemma setup128_words:
  assumes "holds_words (aes_word 4 key) (4 * i + 4) rk" "4 * i + 8 \<le> length rk" "i < 10"
  shows "holds_words (aes_word 4 key) (4 * i + 8) (setup128 i rk)"
proof -
  let ?rk = "rk[4 * i + 4 := rk ! (4 * i) XOR sub_rot (rk ! (4 * i + 3)) XOR rcon ! i]"
  have "holds_words (aes_word 4 key) (4 * i + 4 + 1) ?rk" by (rule word_rot [OF assms(1)]) (use assms in simp_all)
  then have "holds_words (aes_word 4 key) (4 * i + 4 + 1 + 3) (next3 4 (4 * i + 4 + 1) ?rk)"
    by (rule next3_words) (use assms(2) mod_next [of 1 _ 4 i] in auto)
  moreover have "setup128 i rk = next3 4 (4 * i + 4 + 1) ?rk" by (simp add: setup128_def next3_def Let_def add.commute)
  ultimately show ?thesis by (simp add: add.commute)
qed

lemma setup192_words:
  assumes "holds_words (aes_word 6 key) (6 * i + 6) rk" "6 * i + (if i = 7 then 10 else 12) \<le> length rk" "i < 8"
  shows "holds_words (aes_word 6 key) (6 * i + (if i = 7 then 10 else 12)) (setup192 i rk)"
proof -
  let ?rk = "rk[6 * i + 6 := rk ! (6 * i) XOR sub_rot (rk ! (6 * i + 5)) XOR rcon ! i]"
  define rk' where "rk' = next3 6 (6 * i + 6 + 1) ?rk"
  define rk'' where "rk'' = rk'[6 * i + 10 := rk' ! (6 * i + 4) XOR rk' ! (6 * i + 9)]"
  have l: "length rk' = length rk" "length rk'' = length rk" by (simp_all add: rk'_def rk''_def next3_def Let_def)
  have "6 * i + 10 \<le> length rk" using assms(2) by (simp split: if_splits)
  note len = this
  have "holds_words (aes_word 6 key) (6 * i + 6 + 1) ?rk" by (rule word_rot [OF assms(1)]) (use len assms(3) in simp_all)
  then have "holds_words (aes_word 6 key) (6 * i + 6 + 1 + 3) rk'"
    unfolding rk'_def by (rule next3_words) (use len mod_next [of 1 _ 6 i] in auto)
  then have w: "holds_words (aes_word 6 key) (6 * i + 10) rk'" by (simp add: add.commute)
  have s: "setup192 i rk = (if i = 7 then rk' else rk''[6 * i + 11 := rk'' ! (6 * i + 5) XOR rk'' ! (6 * i + 10)])"
    by (simp add: setup192_def next3_def Let_def rk'_def rk''_def add.commute)
  show ?thesis
  proof (cases "i = 7")
    case False
    then have len: "6 * i + 12 \<le> length rk" using assms(2) by simp
    have "holds_words (aes_word 6 key) (6 * i + 10 + 1) rk''"
      unfolding rk''_def by (rule word_next [OF w]) (use len l mod_next [of 4 0 6 i] in auto)
    then have "holds_words (aes_word 6 key) (6 * i + 11 + 1) (rk''[6 * i + 11 := rk'' ! (6 * i + 5) XOR rk'' ! (6 * i + 10)])"
      by (rule word_next) (use len l mod_next [of 5 0 6 i] in auto)
    then show ?thesis using False by (simp add: s add.commute)
  qed (use s w in simp)
qed

lemma setup256_words:
  assumes "holds_words (aes_word 8 key) (8 * i + 8) rk" "8 * i + (if i = 6 then 12 else 16) \<le> length rk" "i < 7"
  shows "holds_words (aes_word 8 key) (8 * i + (if i = 6 then 12 else 16)) (setup256 i rk)"
proof -
  let ?rk = "rk[8 * i + 8 := rk ! (8 * i) XOR sub_rot (rk ! (8 * i + 7)) XOR rcon ! i]"
  define rk' where "rk' = next3 8 (8 * i + 8 + 1) ?rk"
  define rk'' where "rk'' = rk'[8 * i + 12 := rk' ! (8 * i + 4) XOR sub_word (rk' ! (8 * i + 11))]"
  have l: "length rk' = length rk" "length rk'' = length rk" by (simp_all add: rk'_def rk''_def next3_def Let_def)
  have len: "8 * i + 12 \<le> length rk" using assms(2) by (simp split: if_splits)
  have "holds_words (aes_word 8 key) (8 * i + 8 + 1) ?rk" by (rule word_rot [OF assms(1)]) (use len assms(3) in simp_all)
  then have "holds_words (aes_word 8 key) (8 * i + 8 + 1 + 3) rk'"
    unfolding rk'_def by (rule next3_words) (use len mod_next [of 1 _ 8 i] in auto)
  then have w: "holds_words (aes_word 8 key) (8 * i + 12) rk'" by (simp add: add.commute)
  have s: "setup256 i rk = (if i = 6 then rk' else next3 8 (8 * i + 12 + 1) rk'')"
    by (simp add: setup256_def next3_def Let_def rk'_def rk''_def add.commute)
  show ?thesis
  proof (cases "i = 6")
    case False
    then have len: "8 * i + 16 \<le> length rk" using assms(2) by simp
    have "holds_words (aes_word 8 key) (8 * i + 12 + 1) rk''"
      unfolding rk''_def by (rule word_sub [OF w]) (use len l mod_next [of 4 0 8 i] in auto)
    then have "holds_words (aes_word 8 key) (8 * i + 12 + 1 + 3) (next3 8 (8 * i + 12 + 1) rk'')"
      by (rule next3_words) (use len l mod_next [of 5 _ 8 i] in auto)
    then show ?thesis using False by (simp add: s add.commute)
  qed (use s w in simp)
qed

lemma fold_words:
  assumes "holds_words w (g 0) rk" "\<And>i rk'. i < n \<Longrightarrow> length rk' = length rk \<Longrightarrow> holds_words w (g i) rk' \<Longrightarrow> holds_words w (g (i + 1)) (f i rk')"
    and "\<And>i rk. length (f i rk) = length rk"
  shows "holds_words w (g n) (fold f [0..<n] rk)"
proof -
  have "m \<le> n \<Longrightarrow> holds_words w (g m) (fold f [0..<m] rk)" for m
    by (induction m) (use assms in \<open>simp_all add: length_fold_same\<close>)
  then show ?thesis by simp
qed

lemma fold_setup128_words:
  assumes "holds_words (aes_word 4 key) 4 rk" "44 \<le> length rk"
  shows "holds_words (aes_word 4 key) 44 (fold setup128 [0..<10] rk)"
proof -
  let ?g = "\<lambda>i. if i = 10 then 44 else 4 * i + (4 :: nat)"
  have "holds_words (aes_word 4 key) (?g 10) (fold setup128 [0..<10] rk)"
  proof (rule fold_words [where g = ?g])
    fix i rk'
    assume "i < 10" "length rk' = length rk" "holds_words (aes_word 4 key) (?g i) rk'"
    then show "holds_words (aes_word 4 key) (?g (i + 1)) (setup128 i rk')"
      using setup128_words [of key i rk'] assms(2) by (cases "i = 9") (auto simp: add.commute)
  qed (use assms(1) in simp_all)
  then show ?thesis by simp
qed

lemma fold_setup192_words:
  assumes "holds_words (aes_word 6 key) 6 rk" "52 \<le> length rk"
  shows "holds_words (aes_word 6 key) 52 (fold setup192 [0..<8] rk)"
proof -
  let ?g = "\<lambda>i. if i = 8 then 52 else 6 * i + (6 :: nat)"
  have "holds_words (aes_word 6 key) (?g 8) (fold setup192 [0..<8] rk)"
  proof (rule fold_words [where g = ?g])
    fix i rk'
    assume "i < 8" "length rk' = length rk" "holds_words (aes_word 6 key) (?g i) rk'"
    then show "holds_words (aes_word 6 key) (?g (i + 1)) (setup192 i rk')"
      using setup192_words [of key i rk'] assms(2) by (cases "i = 7") (auto simp: add.commute)
  qed (use assms(1) in simp_all)
  then show ?thesis by simp
qed

lemma fold_setup256_words:
  assumes "holds_words (aes_word 8 key) 8 rk" "60 \<le> length rk"
  shows "holds_words (aes_word 8 key) 60 (fold setup256 [0..<7] rk)"
proof -
  let ?g = "\<lambda>i. if i = 7 then 60 else 8 * i + (8 :: nat)"
  have "holds_words (aes_word 8 key) (?g 7) (fold setup256 [0..<7] rk)"
  proof (rule fold_words [where g = ?g])
    fix i rk'
    assume "i < 7" "length rk' = length rk" "holds_words (aes_word 8 key) (?g i) rk'"
    then show "holds_words (aes_word 8 key) (?g (i + 1)) (setup256 i rk')"
      using setup256_words [of key i rk'] assms(2) by (cases "i = 6") (auto simp: add.commute)
  qed (use assms(1) in simp_all)
  then show ?thesis by simp
qed

definition key_sizes :: "nat set" where "key_sizes = {128, 192, 256}"

lemma SetupEncrypt_standard:
  assumes "keybits \<in> key_sizes" "keybits div 8 + 28 \<le> length rk"
  shows "\<exists>rk'. rijndaelSetupEncrypt rk key keybits = (keybits div 32 + 6, rk')
    \<and> holds_words (aes_word (keybits div 32) key) (4 * (keybits div 32 + 6) + 4) rk'"
proof -
  have e: "holds_words w 0 rk" for w by (simp add: holds_words_def)
  have l: "length (load_key a b key r) = length r" for a b r by (simp add: load_key_def length_fold_same)
  consider "keybits = 128" | "keybits = 192" | "keybits = 256" using assms(1) by (auto simp: key_sizes_def)
  then show ?thesis
  proof cases
    case 1
    have "holds_words (aes_word 4 key) 4 (load_key 0 4 key rk)" using assms(2) 1 by (intro load_key_words e) auto
    then show ?thesis using fold_setup128_words assms(2) 1 l by (simp add: rijndaelSetupEncrypt_def Let_def)
  next
    case 2
    have "holds_words (aes_word 6 key) 4 (load_key 0 4 key rk)" using assms(2) 2 by (intro load_key_words e) auto
    then have "holds_words (aes_word 6 key) 6 (load_key 4 6 key (load_key 0 4 key rk))"
      by (rule load_key_words) (use assms(2) 2 l in auto)
    then show ?thesis using fold_setup192_words assms(2) 2 l by (simp add: rijndaelSetupEncrypt_def Let_def)
  next
    case 3
    have "holds_words (aes_word 8 key) 4 (load_key 0 4 key rk)" using assms(2) 3 by (intro load_key_words e) auto
    then have "holds_words (aes_word 8 key) 6 (load_key 4 6 key (load_key 0 4 key rk))"
      by (rule load_key_words) (use assms(2) 3 l in auto)
    then have "holds_words (aes_word 8 key) 8 (load_key 6 8 key (load_key 4 6 key (load_key 0 4 key rk)))"
      by (rule load_key_words) (use assms(2) 3 l in auto)
    then show ?thesis using fold_setup256_words assms(2) 3 l by (simp add: rijndaelSetupEncrypt_def Let_def)
  qed
qed

lemma unrolled_rounds: "keybits \<in> key_sizes \<Longrightarrow> unrolled (keybits div 32 + 6) + 1 = keybits div 32 + 6"
  by (auto simp: key_sizes_def unrolled_def)

section \<open>The properties\<close>

text \<open>
  C12. The table-driven cipher is the Advanced Encryption Standard: for each of the three key sizes \<^verbatim>\<open>rijndaelSetupEncrypt\<close> reports the number of
  rounds, stays within the \<^verbatim>\<open>RKLENGTH\<close> words its callers provide, and \<^verbatim>\<open>rijndaelEncrypt\<close> with its schedule computes the cipher of FIPS 197,
  which is defined byte by byte.
\<close>

theorem rijndael_standard:
  assumes "keybits \<in> key_sizes" "keybits div 8 + 28 \<le> length rk" "length p = 16"
  shows "\<exists>rk'. rijndaelSetupEncrypt rk key keybits = (keybits div 32 + 6, rk') \<and> length rk' = length rk
    \<and> rijndaelEncrypt rk' (keybits div 32 + 6) p = aes_cipher (keybits div 32 + 6) (aes_word (keybits div 32) key) p"
proof -
  obtain rk' where r: "rijndaelSetupEncrypt rk key keybits = (keybits div 32 + 6, rk')"
    "holds_words (aes_word (keybits div 32) key) (4 * (keybits div 32 + 6) + 4) rk'"
    using SetupEncrypt_standard [OF assms(1,2)] by blast
  then show ?thesis
    using rijndaelEncrypt_standard [OF r(2) unrolled_rounds [OF assms(1)] assms(3)] length_SetupEncrypt [of rk key keybits] by simp
qed

lemma rijndael_decrypt_encrypt:
  assumes "keybits \<in> key_sizes" "keybits div 8 + 28 \<le> length rk" "keybits div 8 + 28 \<le> length rk2"
    and "rijndaelSetupEncrypt rk key keybits = (n, ek)" "rijndaelSetupDecrypt rk2 key keybits = (n', dk)" "length p = 16"
  shows "n' = n \<and> rijndaelDecrypt dk n (rijndaelEncrypt ek n p) = p"
proof -
  let ?n = "keybits div 32 + 6"
  obtain ek' where e: "rijndaelSetupEncrypt rk key keybits = (?n, ek')" "holds_words (aes_word (keybits div 32) key) (4 * ?n + 4) ek'"
    using SetupEncrypt_standard [OF assms(1,2)] by blast
  obtain ek2 where e2: "rijndaelSetupEncrypt rk2 key keybits = (?n, ek2)" "holds_words (aes_word (keybits div 32) key) (4 * ?n + 4) ek2"
    using SetupEncrypt_standard [OF assms(1,3)] by blast
  have n: "0 < ?n" "4 * ?n + 3 < length rk2" using assms(1,3) by (auto simp: key_sizes_def)
  obtain dk' where d: "rijndaelSetupDecrypt rk2 key keybits = (?n, dk')" "reversed ?n ek2 dk'"
    using SetupDecrypt_reversed [OF e2(1) n(2,1)] by blast
  have "rijndaelEncrypt ek' ?n p = rijndaelEncrypt ek2 ?n p"
    using rijndaelEncrypt_standard e(2) e2(2) unrolled_rounds [OF assms(1)] assms(6) by metis
  then show ?thesis using decrypt_encrypt [OF d(2) unrolled_rounds [OF assms(1)] assms(6)] e(1) d(1) assms(4,5) by simp
qed

text \<open>
  C30. Decryption undoes encryption: for each of the three key sizes, with schedules made in separate arrays of any contents, \<^verbatim>\<open>rijndaelDecrypt\<close>
  gives back every block that \<^verbatim>\<open>rijndaelEncrypt\<close> has encrypted.
\<close>

theorem rijndael_roundtrip:
  assumes "keybits \<in> key_sizes" "keybits div 8 + 28 \<le> length rk" "keybits div 8 + 28 \<le> length rk2"
    and "rijndaelSetupEncrypt rk key keybits = (n, ek)" "rijndaelSetupDecrypt rk2 key keybits = (n', dk)" "length p = 16"
  shows "rijndaelDecrypt dk n' (rijndaelEncrypt ek n p) = p"
  using rijndael_decrypt_encrypt [OF assms] by simp

end
