(* ===== verification/AES_Example.thy ===== *)
theory AES_Example
  imports AES_Standard
begin

text \<open>The example of appendix C.1 of FIPS 197, computed round by round.\<close>

definition fips_key :: "byte list" where "fips_key = [0x00, 0x01, 0x02, 0x03, 0x04, 0x05, 0x06, 0x07, 0x08, 0x09, 0x0a, 0x0b, 0x0c, 0x0d, 0x0e, 0x0f]"
definition fips_block :: "byte list" where "fips_block = [0x00, 0x11, 0x22, 0x33, 0x44, 0x55, 0x66, 0x77, 0x88, 0x99, 0xaa, 0xbb, 0xcc, 0xdd, 0xee, 0xff]"

abbreviation fips_word :: "nat \<Rightarrow> u32" where "fips_word \<equiv> aes_word 4 fips_key"

lemma Rcon_values:
  "Rcon (Suc 0) = 0x01000000" "Rcon 2 = 0x02000000" "Rcon 3 = 0x04000000" "Rcon 4 = 0x08000000" "Rcon 5 = 0x10000000"
  "Rcon 6 = 0x20000000" "Rcon 7 = 0x40000000" "Rcon 8 = 0x80000000" "Rcon 9 = 0x1b000000" "Rcon 10 = 0x36000000"
  by code_simp+

lemmas fips_rules = SubWord_def RotWord_def Rcon_values sub_byte_def sbox_eq byte_defs pack_def xt_def

lemma fips_words_0: "fips_word 0 = 0x00010203" "fips_word (Suc 0) = 0x04050607" "fips_word 2 = 0x08090a0b" "fips_word 3 = 0x0c0d0e0f"
  by (subst aes_word.simps; simp add: fips_key_def pack_def)+

lemma fips_words_1: "fips_word 4 = 0xd6aa74fd" "fips_word 5 = 0xd2af72fa" "fips_word 6 = 0xdaa678f1" "fips_word 7 = 0xd6ab76fe"
proof -
  show a: "fips_word 4 = 0xd6aa74fd"
    by (subst aes_word.simps) (simp add: fips_words_0 fips_rules)
  show b: "fips_word 5 = 0xd2af72fa"
    by (subst aes_word.simps) (simp add: fips_words_0 a fips_rules)
  show c: "fips_word 6 = 0xdaa678f1"
    by (subst aes_word.simps) (simp add: fips_words_0 a b fips_rules)
  show "fips_word 7 = 0xd6ab76fe"
    by (subst aes_word.simps) (simp add: fips_words_0 a b c fips_rules)
qed

lemma fips_words_2: "fips_word 8 = 0xb692cf0b" "fips_word 9 = 0x643dbdf1" "fips_word 10 = 0xbe9bc500" "fips_word 11 = 0x6830b3fe"
proof -
  show a: "fips_word 8 = 0xb692cf0b"
    by (subst aes_word.simps) (simp add: fips_words_1 fips_rules)
  show b: "fips_word 9 = 0x643dbdf1"
    by (subst aes_word.simps) (simp add: fips_words_1 a fips_rules)
  show c: "fips_word 10 = 0xbe9bc500"
    by (subst aes_word.simps) (simp add: fips_words_1 a b fips_rules)
  show "fips_word 11 = 0x6830b3fe"
    by (subst aes_word.simps) (simp add: fips_words_1 a b c fips_rules)
qed

lemma fips_words_3: "fips_word 12 = 0xb6ff744e" "fips_word 13 = 0xd2c2c9bf" "fips_word 14 = 0x6c590cbf" "fips_word 15 = 0x0469bf41"
proof -
  show a: "fips_word 12 = 0xb6ff744e"
    by (subst aes_word.simps) (simp add: fips_words_2 fips_rules)
  show b: "fips_word 13 = 0xd2c2c9bf"
    by (subst aes_word.simps) (simp add: fips_words_2 a fips_rules)
  show c: "fips_word 14 = 0x6c590cbf"
    by (subst aes_word.simps) (simp add: fips_words_2 a b fips_rules)
  show "fips_word 15 = 0x0469bf41"
    by (subst aes_word.simps) (simp add: fips_words_2 a b c fips_rules)
qed

lemma fips_words_4: "fips_word 16 = 0x47f7f7bc" "fips_word 17 = 0x95353e03" "fips_word 18 = 0xf96c32bc" "fips_word 19 = 0xfd058dfd"
proof -
  show a: "fips_word 16 = 0x47f7f7bc"
    by (subst aes_word.simps) (simp add: fips_words_3 fips_rules)
  show b: "fips_word 17 = 0x95353e03"
    by (subst aes_word.simps) (simp add: fips_words_3 a fips_rules)
  show c: "fips_word 18 = 0xf96c32bc"
    by (subst aes_word.simps) (simp add: fips_words_3 a b fips_rules)
  show "fips_word 19 = 0xfd058dfd"
    by (subst aes_word.simps) (simp add: fips_words_3 a b c fips_rules)
qed

lemma fips_words_5: "fips_word 20 = 0x3caaa3e8" "fips_word 21 = 0xa99f9deb" "fips_word 22 = 0x50f3af57" "fips_word 23 = 0xadf622aa"
proof -
  show a: "fips_word 20 = 0x3caaa3e8"
    by (subst aes_word.simps) (simp add: fips_words_4 fips_rules)
  show b: "fips_word 21 = 0xa99f9deb"
    by (subst aes_word.simps) (simp add: fips_words_4 a fips_rules)
  show c: "fips_word 22 = 0x50f3af57"
    by (subst aes_word.simps) (simp add: fips_words_4 a b fips_rules)
  show "fips_word 23 = 0xadf622aa"
    by (subst aes_word.simps) (simp add: fips_words_4 a b c fips_rules)
qed

lemma fips_words_6: "fips_word 24 = 0x5e390f7d" "fips_word 25 = 0xf7a69296" "fips_word 26 = 0xa7553dc1" "fips_word 27 = 0x0aa31f6b"
proof -
  show a: "fips_word 24 = 0x5e390f7d"
    by (subst aes_word.simps) (simp add: fips_words_5 fips_rules)
  show b: "fips_word 25 = 0xf7a69296"
    by (subst aes_word.simps) (simp add: fips_words_5 a fips_rules)
  show c: "fips_word 26 = 0xa7553dc1"
    by (subst aes_word.simps) (simp add: fips_words_5 a b fips_rules)
  show "fips_word 27 = 0x0aa31f6b"
    by (subst aes_word.simps) (simp add: fips_words_5 a b c fips_rules)
qed

lemma fips_words_7: "fips_word 28 = 0x14f9701a" "fips_word 29 = 0xe35fe28c" "fips_word 30 = 0x440adf4d" "fips_word 31 = 0x4ea9c026"
proof -
  show a: "fips_word 28 = 0x14f9701a"
    by (subst aes_word.simps) (simp add: fips_words_6 fips_rules)
  show b: "fips_word 29 = 0xe35fe28c"
    by (subst aes_word.simps) (simp add: fips_words_6 a fips_rules)
  show c: "fips_word 30 = 0x440adf4d"
    by (subst aes_word.simps) (simp add: fips_words_6 a b fips_rules)
  show "fips_word 31 = 0x4ea9c026"
    by (subst aes_word.simps) (simp add: fips_words_6 a b c fips_rules)
qed

lemma fips_words_8: "fips_word 32 = 0x47438735" "fips_word 33 = 0xa41c65b9" "fips_word 34 = 0xe016baf4" "fips_word 35 = 0xaebf7ad2"
proof -
  show a: "fips_word 32 = 0x47438735"
    by (subst aes_word.simps) (simp add: fips_words_7 fips_rules)
  show b: "fips_word 33 = 0xa41c65b9"
    by (subst aes_word.simps) (simp add: fips_words_7 a fips_rules)
  show c: "fips_word 34 = 0xe016baf4"
    by (subst aes_word.simps) (simp add: fips_words_7 a b fips_rules)
  show "fips_word 35 = 0xaebf7ad2"
    by (subst aes_word.simps) (simp add: fips_words_7 a b c fips_rules)
qed

lemma fips_words_9: "fips_word 36 = 0x549932d1" "fips_word 37 = 0xf0855768" "fips_word 38 = 0x1093ed9c" "fips_word 39 = 0xbe2c974e"
proof -
  show a: "fips_word 36 = 0x549932d1"
    by (subst aes_word.simps) (simp add: fips_words_8 fips_rules)
  show b: "fips_word 37 = 0xf0855768"
    by (subst aes_word.simps) (simp add: fips_words_8 a fips_rules)
  show c: "fips_word 38 = 0x1093ed9c"
    by (subst aes_word.simps) (simp add: fips_words_8 a b fips_rules)
  show "fips_word 39 = 0xbe2c974e"
    by (subst aes_word.simps) (simp add: fips_words_8 a b c fips_rules)
qed

lemma fips_words_10: "fips_word 40 = 0x13111d7f" "fips_word 41 = 0xe3944a17" "fips_word 42 = 0xf307a78b" "fips_word 43 = 0x4d2b30c5"
proof -
  show a: "fips_word 40 = 0x13111d7f"
    by (subst aes_word.simps) (simp add: fips_words_9 fips_rules)
  show b: "fips_word 41 = 0xe3944a17"
    by (subst aes_word.simps) (simp add: fips_words_9 a fips_rules)
  show c: "fips_word 42 = 0xf307a78b"
    by (subst aes_word.simps) (simp add: fips_words_9 a b fips_rules)
  show "fips_word 43 = 0x4d2b30c5"
    by (subst aes_word.simps) (simp add: fips_words_9 a b c fips_rules)
qed

lemmas fips_words = fips_words_0 fips_words_1 fips_words_2 fips_words_3 fips_words_4 fips_words_5 fips_words_6 fips_words_7 fips_words_8 fips_words_9 fips_words_10

lemmas round_rules = AddRoundKey_def MixColumns_def ShiftRows_def SubBytes_def sub_byte_def sbox_eq xt_def upt_rec byte_defs Let_def

lemma fips_start: "AddRoundKey fips_word 0 fips_block = [0x00, 0x10, 0x20, 0x30, 0x40, 0x50, 0x60, 0x70, 0x80, 0x90, 0xa0, 0xb0, 0xc0, 0xd0, 0xe0, 0xf0]"
  by (simp add: fips_block_def AddRoundKey_def upt_rec byte_defs Let_def fips_words numeral_2_eq_2 [symmetric] numeral_3_eq_3 [symmetric])

lemma fips_round_1: "AddRoundKey fips_word (Suc 0) (MixColumns (ShiftRows (SubBytes [0x00, 0x10, 0x20, 0x30, 0x40, 0x50, 0x60, 0x70, 0x80, 0x90, 0xa0, 0xb0, 0xc0, 0xd0, 0xe0, 0xf0]))) = [0x89, 0xd8, 0x10, 0xe8, 0x85, 0x5a, 0xce, 0x68, 0x2d, 0x18, 0x43, 0xd8, 0xcb, 0x12, 0x8f, 0xe4]"
  by (simp add: round_rules fips_words_1)

lemma fips_round_2: "AddRoundKey fips_word 2 (MixColumns (ShiftRows (SubBytes [0x89, 0xd8, 0x10, 0xe8, 0x85, 0x5a, 0xce, 0x68, 0x2d, 0x18, 0x43, 0xd8, 0xcb, 0x12, 0x8f, 0xe4]))) = [0x49, 0x15, 0x59, 0x8f, 0x55, 0xe5, 0xd7, 0xa0, 0xda, 0xca, 0x94, 0xfa, 0x1f, 0x0a, 0x63, 0xf7]"
  by (simp add: round_rules fips_words_2)

lemma fips_round_3: "AddRoundKey fips_word 3 (MixColumns (ShiftRows (SubBytes [0x49, 0x15, 0x59, 0x8f, 0x55, 0xe5, 0xd7, 0xa0, 0xda, 0xca, 0x94, 0xfa, 0x1f, 0x0a, 0x63, 0xf7]))) = [0xfa, 0x63, 0x6a, 0x28, 0x25, 0xb3, 0x39, 0xc9, 0x40, 0x66, 0x8a, 0x31, 0x57, 0x24, 0x4d, 0x17]"
  by (simp add: round_rules fips_words_3)

lemma fips_round_4: "AddRoundKey fips_word 4 (MixColumns (ShiftRows (SubBytes [0xfa, 0x63, 0x6a, 0x28, 0x25, 0xb3, 0x39, 0xc9, 0x40, 0x66, 0x8a, 0x31, 0x57, 0x24, 0x4d, 0x17]))) = [0x24, 0x72, 0x40, 0x23, 0x69, 0x66, 0xb3, 0xfa, 0x6e, 0xd2, 0x75, 0x32, 0x88, 0x42, 0x5b, 0x6c]"
  by (simp add: round_rules fips_words_4)

lemma fips_round_5: "AddRoundKey fips_word 5 (MixColumns (ShiftRows (SubBytes [0x24, 0x72, 0x40, 0x23, 0x69, 0x66, 0xb3, 0xfa, 0x6e, 0xd2, 0x75, 0x32, 0x88, 0x42, 0x5b, 0x6c]))) = [0xc8, 0x16, 0x77, 0xbc, 0x9b, 0x7a, 0xc9, 0x3b, 0x25, 0x02, 0x79, 0x92, 0xb0, 0x26, 0x19, 0x96]"
  by (simp add: round_rules fips_words_5)

lemma fips_round_6: "AddRoundKey fips_word 6 (MixColumns (ShiftRows (SubBytes [0xc8, 0x16, 0x77, 0xbc, 0x9b, 0x7a, 0xc9, 0x3b, 0x25, 0x02, 0x79, 0x92, 0xb0, 0x26, 0x19, 0x96]))) = [0xc6, 0x2f, 0xe1, 0x09, 0xf7, 0x5e, 0xed, 0xc3, 0xcc, 0x79, 0x39, 0x5d, 0x84, 0xf9, 0xcf, 0x5d]"
  by (simp add: round_rules fips_words_6)

lemma fips_round_7: "AddRoundKey fips_word 7 (MixColumns (ShiftRows (SubBytes [0xc6, 0x2f, 0xe1, 0x09, 0xf7, 0x5e, 0xed, 0xc3, 0xcc, 0x79, 0x39, 0x5d, 0x84, 0xf9, 0xcf, 0x5d]))) = [0xd1, 0x87, 0x6c, 0x0f, 0x79, 0xc4, 0x30, 0x0a, 0xb4, 0x55, 0x94, 0xad, 0xd6, 0x6f, 0xf4, 0x1f]"
  by (simp add: round_rules fips_words_7)

lemma fips_round_8: "AddRoundKey fips_word 8 (MixColumns (ShiftRows (SubBytes [0xd1, 0x87, 0x6c, 0x0f, 0x79, 0xc4, 0x30, 0x0a, 0xb4, 0x55, 0x94, 0xad, 0xd6, 0x6f, 0xf4, 0x1f]))) = [0xfd, 0xe3, 0xba, 0xd2, 0x05, 0xe5, 0xd0, 0xd7, 0x35, 0x47, 0x96, 0x4e, 0xf1, 0xfe, 0x37, 0xf1]"
  by (simp add: round_rules fips_words_8)

lemma fips_round_9: "AddRoundKey fips_word 9 (MixColumns (ShiftRows (SubBytes [0xfd, 0xe3, 0xba, 0xd2, 0x05, 0xe5, 0xd0, 0xd7, 0x35, 0x47, 0x96, 0x4e, 0xf1, 0xfe, 0x37, 0xf1]))) = [0xbd, 0x6e, 0x7c, 0x3d, 0xf2, 0xb5, 0x77, 0x9e, 0x0b, 0x61, 0x21, 0x6e, 0x8b, 0x10, 0xb6, 0x89]"
  by (simp add: round_rules fips_words_9)

lemma fips_end: "AddRoundKey fips_word 10 (ShiftRows (SubBytes [0xbd, 0x6e, 0x7c, 0x3d, 0xf2, 0xb5, 0x77, 0x9e, 0x0b, 0x61, 0x21, 0x6e, 0x8b, 0x10, 0xb6, 0x89])) = [0x69, 0xc4, 0xe0, 0xd8, 0x6a, 0x7b, 0x04, 0x30, 0xd8, 0xcd, 0xb7, 0x80, 0x70, 0xb4, 0xc5, 0x5a]"
  by (simp add: round_rules fips_words_10)

lemma fips_cipher: "aes_cipher 10 fips_word fips_block = [0x69, 0xc4, 0xe0, 0xd8, 0x6a, 0x7b, 0x04, 0x30, 0xd8, 0xcd, 0xb7, 0x80, 0x70, 0xb4, 0xc5, 0x5a]"
proof -
  have "[1..<10] = [1, 2, 3, 4, 5, 6, 7, 8, 9 :: nat]" by (simp add: upt_rec)
  then show ?thesis
    by (simp add: aes_cipher_def fips_start fips_round_1 fips_round_2 fips_round_3 fips_round_4 fips_round_5 fips_round_6 fips_round_7 fips_round_8 fips_round_9 fips_end)
qed

theorem rijndael_standard_witness:
  "\<exists>rk. rijndaelSetupEncrypt (replicate 44 0) fips_key 128 = (10, rk) \<and> rijndaelEncrypt rk 10 fips_block = [0x69, 0xc4, 0xe0, 0xd8, 0x6a, 0x7b, 0x04, 0x30, 0xd8, 0xcd, 0xb7, 0x80, 0x70, 0xb4, 0xc5, 0x5a]"
  using rijndael_standard [of 128 "replicate 44 0" fips_block fips_key] fips_cipher by (auto simp: key_sizes_def fips_block_def)

theorem rijndael_roundtrip_witness:
  "rijndaelDecrypt (snd (rijndaelSetupDecrypt (replicate 45 7) fips_key 128)) 10 (rijndaelEncrypt (snd (rijndaelSetupEncrypt (replicate 44 0) fips_key 128)) 10 fips_block)
    = fips_block"
proof -
  obtain ek where e: "rijndaelSetupEncrypt (replicate 44 0) fips_key 128 = (10, ek)"
    using SetupEncrypt_standard [of 128 "replicate 44 0" fips_key] by (auto simp: key_sizes_def)
  obtain dk where d: "rijndaelSetupDecrypt (replicate 45 7) fips_key 128 = (10, dk)"
    using SetupEncrypt_standard [of 128 "replicate 45 7" fips_key] by (auto simp: key_sizes_def rijndaelSetupDecrypt_def)
  show ?thesis using rijndael_roundtrip [of 128, OF _ _ _ e d, of fips_block] e d by (simp add: key_sizes_def fips_block_def)
qed

end
