(* ===== verification/CMD5.thy ===== *)
theory CMD5
  imports MD45
begin

text \<open>
  \<^verbatim>\<open>QBase/md5.cpp\<close>: \<^verbatim>\<open>CMD5\<close>, the digest of the scripts and of \<^verbatim>\<open>CEncrypt\<close>, beside the one of \<^verbatim>\<open>RSAEuro\<close>. Its context, byte order and buffering are
  those of \<^verbatim>\<open>md5c.c\<close>; it differs in that \<^verbatim>\<open>digest\<close> is meant to leave the object as it was, so that more can be added afterwards. Reading from files
  is adding their contents in pieces.
\<close>

section \<open>The code\<close>

definition cmd5_FF :: "(nat \<times> nat \<times> u32) list" where
  "cmd5_FF =
     [(0, 7, 0xd76aa478), (1, 12, 0xe8c7b756), (2, 17, 0x242070db), (3, 22, 0xc1bdceee),
      (4, 7, 0xf57c0faf), (5, 12, 0x4787c62a), (6, 17, 0xa8304613), (7, 22, 0xfd469501),
      (8, 7, 0x698098d8), (9, 12, 0x8b44f7af), (10, 17, 0xffff5bb1), (11, 22, 0x895cd7be),
      (12, 7, 0x6b901122), (13, 12, 0xfd987193), (14, 17, 0xa679438e), (15, 22, 0x49b40821)]"

definition cmd5_GG :: "(nat \<times> nat \<times> u32) list" where
  "cmd5_GG =
     [(1, 5, 0xf61e2562), (6, 9, 0xc040b340), (11, 14, 0x265e5a51), (0, 20, 0xe9b6c7aa),
      (5, 5, 0xd62f105d), (10, 9, 0x2441453), (15, 14, 0xd8a1e681), (4, 20, 0xe7d3fbc8),
      (9, 5, 0x21e1cde6), (14, 9, 0xc33707d6), (3, 14, 0xf4d50d87), (8, 20, 0x455a14ed),
      (13, 5, 0xa9e3e905), (2, 9, 0xfcefa3f8), (7, 14, 0x676f02d9), (12, 20, 0x8d2a4c8a)]"

definition cmd5_HH :: "(nat \<times> nat \<times> u32) list" where
  "cmd5_HH =
     [(5, 4, 0xfffa3942), (8, 11, 0x8771f681), (11, 16, 0x6d9d6122), (14, 23, 0xfde5380c),
      (1, 4, 0xa4beea44), (4, 11, 0x4bdecfa9), (7, 16, 0xf6bb4b60), (10, 23, 0xbebfbc70),
      (13, 4, 0x289b7ec6), (0, 11, 0xeaa127fa), (3, 16, 0xd4ef3085), (6, 23, 0x4881d05),
      (9, 4, 0xd9d4d039), (12, 11, 0xe6db99e5), (15, 16, 0x1fa27cf8), (2, 23, 0xc4ac5665)]"

definition cmd5_II :: "(nat \<times> nat \<times> u32) list" where
  "cmd5_II =
     [(0, 6, 0xf4292244), (7, 10, 0x432aff97), (14, 15, 0xab9423a7), (5, 21, 0xfc93a039),
      (12, 6, 0x655b59c3), (3, 10, 0x8f0ccc92), (10, 15, 0xffeff47d), (1, 21, 0x85845dd1),
      (8, 6, 0x6fa87e4f), (15, 10, 0xfe2ce6e0), (6, 15, 0xa3014314), (13, 21, 0x4e0811a1),
      (4, 6, 0xf7537e82), (11, 10, 0xbd3af235), (2, 15, 0x2ad7d2bb), (9, 21, 0xeb86d391)]"

definition cmd5_transform :: "u32 list \<Rightarrow> byte list \<Rightarrow> u32 list" where
  "cmd5_transform state block =
     (let x = md_Decode block;
          r = (state ! 0, state ! 1, state ! 2, state ! 3);
          r = fold (md5_step md5_F x) cmd5_FF r;
          r = fold (md5_step md5_G x) cmd5_GG r;
          r = fold (md5_step md5_H x) cmd5_HH r;
          (a, b, c, d) = fold (md5_step md5_I x) cmd5_II r
      in [state ! 0 + a, state ! 1 + b, state ! 2 + c, state ! 3 + d])"

record cmd5 =
  cm_ctx :: md_ctx
  cm_digest :: "byte list"
  cm_finished :: bool

definition cmd5_reset :: "cmd5 \<Rightarrow> cmd5" where
  "cmd5_reset c = c\<lparr>cm_finished := False,
     cm_ctx := (cm_ctx c)\<lparr>md_count0 := 0, md_count1 := 0, md_state := [0x67452301, 0xefcdab89, 0x98badcfe, 0x10325476]\<rparr>\<rparr>"

definition cmd5_update :: "cmd5 \<Rightarrow> byte list \<Rightarrow> cmd5" where
  "cmd5_update c input =
     (let ctx = cm_ctx c
      in case blk_update 64 cmd5_transform (md_state ctx) (md_buffer ctx) (md_index ctx) input of
           (state, buffer) \<Rightarrow>
             c\<lparr>cm_finished := False, cm_ctx := (md_count_add (of_nat (length input)) ctx)\<lparr>md_state := state, md_buffer := buffer\<rparr>\<rparr>)"

text \<open>The state and the counter are saved and restored, the buffer is not.\<close>

definition cmd5_final :: "cmd5 \<Rightarrow> cmd5" where
  "cmd5_final c =
     (let ctx = cm_ctx c; oldState = md_state ctx; oldCount0 = md_count0 ctx; oldCount1 = md_count1 ctx;
          bits = md_Encode [md_count0 ctx, md_count1 ctx];
          index = md_index ctx;
          padLen = (if index < 56 then 56 - index else 120 - index);
          c = cmd5_update c (take padLen md_PADDING);
          c = cmd5_update c bits;
          c = c\<lparr>cm_digest := md_Encode (md_state (cm_ctx c))\<rparr>
      in c\<lparr>cm_ctx := (cm_ctx c)\<lparr>md_state := oldState, md_count0 := oldCount0, md_count1 := oldCount1\<rparr>\<rparr>)"

definition cmd5_get_digest :: "cmd5 \<Rightarrow> byte list \<times> cmd5" where
  "cmd5_get_digest c =
     (let c = (if \<not> cm_finished c then cmd5_final (c\<lparr>cm_finished := True\<rparr>) else c)
      in (cm_digest c, c))"

definition cmd5_HEX :: "byte list" where
  "cmd5_HEX = [48, 49, 50, 51, 52, 53, 54, 55, 56, 57, 97, 98, 99, 100, 101, 102]"

definition bytesToHexString :: "byte list \<Rightarrow> byte list" where
  "bytesToHexString input = concat (map (\<lambda>t. [cmd5_HEX ! (unat t div 16), cmd5_HEX ! (unat t mod 16)]) input)"

definition cmd5_toString :: "cmd5 \<Rightarrow> byte list \<times> cmd5" where
  "cmd5_toString c = (case cmd5_get_digest c of (d, c) \<Rightarrow> (bytesToHexString d, c))"

text \<open>\<^verbatim>\<open>CEncrypt::md5Str\<close>.\<close>

definition md5Str :: "byte list \<Rightarrow> cmd5 \<Rightarrow> byte list \<times> cmd5" where
  "md5Str strVal c = cmd5_toString (cmd5_update (cmd5_reset c) strVal)"

section \<open>The same digest as that of RSAEuro\<close>

lemma cmd5_tables: "cmd5_FF = md5_FF" "cmd5_GG = md5_GG" "cmd5_HH = md5_HH" "cmd5_II = md5_II"
  by (simp_all only: cmd5_FF_def md5_FF_def cmd5_GG_def md5_GG_def cmd5_HH_def md5_HH_def cmd5_II_def md5_II_def)

lemma cmd5_transform_eq: "cmd5_transform = MD5Transform"
  by (intro ext) (simp only: cmd5_transform_def MD5Transform_def cmd5_tables)

lemma cmd5_update_eq: "cm_ctx (cmd5_update c xs) = MD5Update (cm_ctx c) xs" "cm_finished (cmd5_update c xs) = False"
  by (simp_all add: cmd5_update_def MD5Update_def md_update_def cmd5_transform_eq Let_def split: prod.split)

lemma cmd5_reset_eq: "cm_ctx (cmd5_reset c) = MD5Init (cm_ctx c)" "cm_finished (cmd5_reset c) = False"
  by (simp_all add: cmd5_reset_def MD5Init_def)

lemma cmd5_final_digest: "cm_digest (cmd5_final c) = MD5Final (cm_ctx c)"
  by (simp add: cmd5_final_def MD5Final_def cmd5_update_eq Let_def)

abbreviation cmd5_rep :: "cmd5 \<Rightarrow> byte list \<Rightarrow> bool" where
  "cmd5_rep c m \<equiv> md_rep MD5Transform (cm_ctx c) m \<and> \<not> cm_finished c"

text \<open>\<^verbatim>\<open>CMD5\<close> is another provider of the interface of a digest.\<close>

interpretation cmd5: message_digest "\<lambda>c. md_valid (cm_ctx c)" cmd5_reset cmd5_update "\<lambda>c. fst (cmd5_get_digest c)" cmd5_rep "md_digest MD5Transform"
proof
  show "cmd5_rep (cmd5_reset c) []" if "md_valid (cm_ctx c)" for c
    using md5.rep_init [OF that] by (simp add: cmd5_reset_eq)
  show "cmd5_rep (cmd5_update c xs) (m @ xs)" if "cmd5_rep c m" "length xs < 2 ^ 31" for c m xs
    using md5.rep_update [of "cm_ctx c" m xs] that by (simp add: cmd5_update_eq)
  show "fst (cmd5_get_digest c) = md_digest MD5Transform m" if "cmd5_rep c m" for c m
    using md5.rep_final [of "cm_ctx c" m] that by (simp add: cmd5_get_digest_def cmd5_final_digest)
qed

section \<open>After the digest\<close>

text \<open>What the buffer holds after the padding and the counter have gone through it.\<close>

lemma md_update_buffer: "md_buffer (md_update f c xs) = snd (blk_update 64 f (md_state c) (md_buffer c) (md_index c) xs)"
  by (simp add: md_update_def split: prod.split)

lemma buffer_after_padding:
  assumes "md_rep f c m" "r = length m mod 64" "padLen = (if r < 56 then 56 - r else 120 - r)" "length bits = 8"
  shows "take r (md_buffer (md_update f (md_update f c (take padLen md_PADDING)) bits))
    = (if r < 56 then take r (md_buffer c) else take r (replicate 56 0 @ bits))"
proof -
  let ?pad = "take padLen md_PADDING" and ?c1 = "md_update f c (take padLen md_PADDING)"
  have b: "length (md_buffer c) = 64" and i: "md_index c = r" using assms(1,2) md_rep_index by (auto simp: md_rep_def blk_rep_def)
  have r: "r < 64" using assms(2) by simp
  have pl: "length ?pad = padLen" using r assms(3) by (auto simp: md_PADDING_def)
  have r1: "md_rep f ?c1 (m @ ?pad)" by (rule md_rep_update [OF assms(1)]) (use r assms(3) in \<open>auto simp: md_PADDING_def\<close>)
  obtain k where "length m = 64 * k + r" using assms(2) by (metis mult_div_mod_eq)
  then have "length m + padLen = 64 * (k + (if r < 56 then 0 else 1)) + 56" using assms(3) r by simp
  then have "(length m + padLen) mod 64 = 56" by simp
  then have i1: "md_index ?c1 = 56" using md_rep_index [OF r1] pl by simp
  have b1: "length (md_buffer ?c1) = 64" using r1 by (simp add: md_rep_def blk_rep_def)
  have b2: "md_buffer (md_update f ?c1 bits) = take 56 (md_buffer ?c1) @ bits"
    using assms(4) b1 i1 by (simp add: md_update_buffer blk_update_def Let_def blk_loop.simps R_memcpy_eq)
  show ?thesis
  proof (cases "r < 56")
    case True
    then have "\<not> 64 - r \<le> 56 - r" by simp
    then have "take r (md_buffer ?c1) = take r (md_buffer c)"
      using True b i pl assms(3) by (simp add: md_update_buffer blk_update_def Let_def R_memcpy_eq)
    then show ?thesis using True b1 b2 by (simp add: min_def)
  next
    case False
    have z: "drop (64 - r) ?pad = replicate 56 0"
      using False r assms(3) by (auto simp: md_PADDING_def drop_Cons' take_Cons' min_def)
    have "64 - r \<le> 120 - r" by simp
    then have "take 56 (md_buffer ?c1) = replicate 56 0"
      using False b i r pl assms(3) z by (simp add: md_update_buffer blk_update_def Let_def blk_loop.simps R_memcpy_eq)
    then show ?thesis using False b2 by simp
  qed
qed

text \<open>A context for \<open>m\<close> whose buffer is replaced stands for \<open>m\<close> with its last, incomplete block replaced.\<close>

lemma md_rep_buffer:
  assumes "md_rep f c m" "r = length m mod 64" "length b = 64"
  shows "md_rep f (c\<lparr>md_buffer := b\<rparr>) (take (length m - r) m @ take r b)"
proof -
  let ?st0 = "[0x67452301, 0xefcdab89, 0x98badcfe, 0x10325476] :: u32 list" and ?whole = "take (length m - r) m"
  have l: "length ?whole mod 64 = 0" "length (take r b) = r" "r < 64" "r \<le> length m"
    using assms(2,3) by (auto simp: minus_mod_eq_mult_div)
  obtain st where w: "blk_loop 64 f ?st0 ?whole = (st, [])"
    using md_blk.length_blk_loop [of f ?st0 ?whole] l(1) by (cases "blk_loop 64 f ?st0 ?whole") auto
  have cut: "blk_loop 64 f ?st0 (?whole @ xs) = (st, xs)" if "length xs = r" for xs
    using md_blk.blk_loop_append [of f ?st0 ?whole xs] w that l(3) by (simp add: md_blk.blk_loop_short)
  have "blk_loop 64 f ?st0 (?whole @ drop (length m - r) m) = (md_state c, take r (md_buffer c))"
    using assms(1,2) by (simp add: md_rep_def blk_rep_def)
  then have "st = md_state c" using cut [of "drop (length m - r) m"] l(4) by simp
  moreover have "length (?whole @ take r b) = length m" using l by simp
  ultimately show ?thesis using assms cut [OF l(2)] by (simp add: md_rep_def blk_rep_def md_bits_def)
qed

lemma cmd5_after_digest:
  assumes "cmd5_rep c m" "r = length m mod 64"
  shows "cmd5_rep (snd (cmd5_get_digest c)) (if r < 56 then m else take (length m - r) m @ take r (replicate 56 0 @ le_bytes 8 (8 * length m)))"
proof -
  let ?bits = "md_Encode [md_count0 (cm_ctx c), md_count1 (cm_ctx c)]"
  let ?p = "if md_index (cm_ctx c) < 56 then 56 - md_index (cm_ctx c) else 120 - md_index (cm_ctx c)"
  let ?b = "md_buffer (MD5Update (MD5Update (cm_ctx c) (take ?p md_PADDING)) ?bits)"
  have i: "md_index (cm_ctx c) = r" using md_rep_index assms by blast
  have bits: "?bits = le_bytes 8 (8 * length m)"
    using assms(1) le_bytes_mod [of 8 "8 * length m"] by (simp only: md_Encode_le) (simp add: md_rep_def md_bits_def)
  have ctx: "cm_ctx (snd (cmd5_get_digest c)) = (cm_ctx c)\<lparr>md_buffer := ?b\<rparr>" "\<not> cm_finished (snd (cmd5_get_digest c))"
    using assms(1) by (simp_all add: cmd5_get_digest_def cmd5_final_def cmd5_update_eq Let_def MD5Update_def md_update_def split: prod.split)
  have tb: "take r ?b = (if r < 56 then take r (md_buffer (cm_ctx c)) else take r (replicate 56 0 @ ?bits))"
    unfolding MD5Update_def by (rule buffer_after_padding) (use assms i in auto)
  have "md_rep MD5Transform (MD5Update (MD5Update (cm_ctx c) (take ?p md_PADDING)) ?bits) ((m @ take ?p md_PADDING) @ ?bits)"
    using md5.rep_update [OF md5.rep_update] assms(1) i by (auto simp: md_PADDING_def)
  then have "length ?b = 64" by (simp add: md_rep_def blk_rep_def)
  from md_rep_buffer [OF conjunct1 [OF assms(1)] assms(2) this]
  have rep: "md_rep MD5Transform ((cm_ctx c)\<lparr>md_buffer := ?b\<rparr>) (take (length m - r) m @ take r ?b)" .
  show ?thesis
  proof (cases "r < 56")
    case True
    then have "md_rep MD5Transform ((cm_ctx c)\<lparr>md_buffer := ?b\<rparr>) m"
      using assms tb \<open>length ?b = 64\<close> by (simp add: md_rep_def blk_rep_def md_bits_def)
    then show ?thesis using True ctx by simp
  qed (use rep ctx tb bits in simp)
qed

text \<open>
  C33. \<^verbatim>\<open>CMD5\<close> computes the digest of \<^verbatim>\<open>md5c.c\<close>: for a message added in any pieces \<^verbatim>\<open>digest\<close> gives what \<^verbatim>\<open>MD5Init\<close>, \<^verbatim>\<open>MD5Update\<close> and \<^verbatim>\<open>MD5Final\<close> give for the
  whole message. When the last block holds less than 56 bytes the object is as before, so that calling \<^verbatim>\<open>digest\<close> again gives the same result; otherwise
  the beginning of the last block is lost, and the second result is the digest of a message that nobody added.
\<close>

theorem cmd5_correct:
  assumes "md_valid (cm_ctx c)" "md_valid ctx" "\<forall>xs \<in> set chunks. length xs < 2 ^ 31" "length (concat chunks) < 2 ^ 31"
    and "m = concat chunks" "r = length m mod 64" "c' = fold (\<lambda>xs c. cmd5_update c xs) chunks (cmd5_reset c)"
  shows "fst (cmd5_get_digest c') = MD5Final (MD5Update (MD5Init ctx) m)
    \<and> fst (cmd5_get_digest (snd (cmd5_get_digest c')))
       = md_digest MD5Transform (if r < 56 then m else take (length m - r) m @ take r (replicate 56 0 @ le_bytes 8 (8 * length m)))"
proof -
  have "cmd5_rep c' m" using cmd5.rep_fold [OF cmd5.rep_init [OF assms(1)] assms(3)] assms(5,7) by simp
  moreover have "MD5Final (MD5Update (MD5Init ctx) m) = md_digest MD5Transform m"
    using md5.digest_of_chunks [OF assms(2), of "[m]"] assms(4,5) by simp
  ultimately show ?thesis using cmd5.rep_final cmd5.rep_final [OF cmd5_after_digest [OF _ assms(6)]] by metis
qed

definition zero_cmd5 :: cmd5 where
  "zero_cmd5 = \<lparr>cm_ctx = \<lparr>md_state = [], md_count0 = 0, md_count1 = 0, md_buffer = replicate 64 0\<rparr>, cm_digest = [], cm_finished = False\<rparr>"

theorem cmd5_correct_witness:
  "fst (cmd5_get_digest (fold (\<lambda>xs c. cmd5_update c xs) [replicate 50 1, replicate 7 2] (cmd5_reset zero_cmd5)))
     = MD5Final (MD5Update (MD5Init (cm_ctx zero_cmd5)) (replicate 50 1 @ replicate 7 2))
   \<and> fst (cmd5_get_digest (snd (cmd5_get_digest (fold (\<lambda>xs c. cmd5_update c xs) [replicate 50 1, replicate 7 2] (cmd5_reset zero_cmd5)))))
     = md_digest MD5Transform (replicate 56 0 @ [200])"
proof -
  have v: "md_valid (cm_ctx zero_cmd5)" by (simp add: md_valid_def zero_cmd5_def)
  have "le_bytes 8 456 = 200 # le_bytes 7 1" using le_bytes.simps(2) [of 7 456] by simp
  then have t: "take 57 (replicate 56 0 @ le_bytes 8 456) = replicate 56 0 @ [200 :: byte]" by simp
  let ?m = "replicate 50 1 @ replicate 7 (2 :: byte)"
  have l: "length ?m = 57" "length ?m mod 64 = 57" "concat [replicate 50 1, replicate 7 2] = ?m" by simp_all
  show ?thesis
    using cmd5_correct [OF v v _ _ refl refl refl, of "[replicate 50 1, replicate 7 2]", unfolded l] t by (simp del: append_replicate_commute)
qed

end
