(* ===== verification/AES_Code.thy ===== *)
theory AES_Code
  imports AES_Standard Comm_Encrypt Event_Buffer
begin

text \<open>
  \<^verbatim>\<open>QBase/AES.cpp\<close>: \<^verbatim>\<open>CAESEncode\<close> and \<^verbatim>\<open>CAESDecode\<close>, which cut a message into blocks, fill the last one up and encrypt block by block.
  The two classes have the same members. The allocator for the array of round keys, \<open>new_rk\<close>, is an argument, as that for bytes is: it
  gives the array as it is after the call that clears its first bytes, with any contents.
\<close>

section \<open>The code\<close>

definition Q_ERROR_ALLOCMEMORY :: int where "Q_ERROR_ALLOCMEMORY = 0x10001"

definition AESKEY_NONE :: nat where "AESKEY_NONE = 0"

record caes =
  m_pRK :: "u32 list option"
  m_pKey :: "byte list option"
  m_iRounds :: nat
  m_uacPlain :: "byte list"
  m_uacCipher :: "byte list"
  aes_objBuffer :: cbuffer

definition CAES_init :: "allocator \<Rightarrow> caes" where
  "CAES_init alloc = \<lparr>m_pRK = None, m_pKey = None, m_iRounds = 0, m_uacPlain = replicate 16 0, m_uacCipher = replicate 16 0, aes_objBuffer = CBuffer_init alloc\<rparr>"

definition KEYLENGTH :: "nat \<Rightarrow> nat" where "KEYLENGTH keybits = keybits div 8"
definition RKLENGTH :: "nat \<Rightarrow> nat" where "RKLENGTH keybits = keybits div 8 + 28"

text \<open>How much of the key the schedules read; a number that is no key size makes them read all 32 bytes.\<close>

definition key_reads :: "nat \<Rightarrow> nat" where
  "key_reads keybits = (if keybits = 128 then 16 else if keybits = 192 then 24 else 32)"

text \<open>\<open>pszKey\<close> are the characters of the key, without the zero that ends them.\<close>

definition aes_setKey ::
  "(u32 list \<Rightarrow> byte list \<Rightarrow> nat \<Rightarrow> nat \<times> u32 list) \<Rightarrow> (nat \<Rightarrow> u32 list option) \<Rightarrow> allocator \<Rightarrow> byte list \<Rightarrow> nat \<Rightarrow> caes \<Rightarrow> cfault + int \<times> caes" where
  "aes_setKey setup new_rk alloc pszKey emKeyType a =
     (let a = a\<lparr>m_pRK := None, m_pKey := None\<rparr>
      in if AESKEY_NONE = emKeyType then Inr (Q_RTN_FAILE, a)
         else let iRKLens = RKLENGTH emKeyType; iKeyLens = KEYLENGTH emKeyType
              in case new_rk (iRKLens + 1) of
                   None \<Rightarrow> Inr (Q_ERROR_ALLOCMEMORY, a)
                 | Some rk \<Rightarrow>
                     (case alloc (iKeyLens + 1) of
                        None \<Rightarrow> Inr (Q_ERROR_ALLOCMEMORY, a)
                      | Some _ \<Rightarrow>
                          let n = (if length pszKey > iKeyLens then iKeyLens else length pszKey);
                              key = take n pszKey @ drop n (replicate (iKeyLens + 1) 0)
                          in if length key < key_reads emKeyType then Inl OutOfBounds
                             else case setup rk key emKeyType of (iRounds, rk) \<Rightarrow>
                                    Inr (Q_RTN_OK, a\<lparr>m_pRK := Some rk, m_pKey := Some key, m_iRounds := iRounds\<rparr>)))"

definition CAESEncode_setKey where "CAESEncode_setKey = aes_setKey rijndaelSetupEncrypt"
definition CAESDecode_setKey where "CAESDecode_setKey = aes_setKey rijndaelSetupDecrypt"

definition AES_BlockSize :: nat where "AES_BlockSize = 16"

definition aes_encode_block :: "nat \<Rightarrow> allocator \<Rightarrow> u32 list \<Rightarrow> byte list \<Rightarrow> caes \<Rightarrow> qerror + caes" where
  "aes_encode_block sz alloc rk plain a =
     (let cipher = rijndaelEncrypt rk (m_iRounds a) plain; a = a\<lparr>m_uacPlain := plain, m_uacCipher := cipher\<rparr>
      in case pushBuff sz alloc (Some cipher) AES_BlockSize (aes_objBuffer a) of
           Inl e \<Rightarrow> Inl e
         | Inr b \<Rightarrow> Inr (a\<lparr>aes_objBuffer := b\<rparr>))"

text \<open>The loop, with the bytes that are left.\<close>

function aes_encode_loop :: "nat \<Rightarrow> allocator \<Rightarrow> u32 list \<Rightarrow> byte list \<Rightarrow> caes \<Rightarrow> qerror + caes" where
  "aes_encode_loop sz alloc rk msg a =
     (if msg = [] then Inr a
      else let iCopyLen = (if length msg \<ge> AES_BlockSize then AES_BlockSize else length msg);
               plain = take iCopyLen msg @ replicate (AES_BlockSize - iCopyLen) (of_nat (AES_BlockSize - iCopyLen))
           in case aes_encode_block sz alloc rk plain a of
                Inl e \<Rightarrow> Inl e
              | Inr a \<Rightarrow> aes_encode_loop sz alloc rk (drop AES_BlockSize msg) a)"
  by auto
termination by (relation "measure (\<lambda>(sz, alloc, rk, msg, a). length msg)") (auto simp: AES_BlockSize_def)

declare aes_encode_loop.simps [simp del]

text \<open>The result is the pointer to the buffer and the length.\<close>

definition CAESEncode_Encode :: "nat \<Rightarrow> allocator \<Rightarrow> byte list \<Rightarrow> caes \<Rightarrow> qerror + (byte list option \<times> nat) \<times> caes" where
  "CAESEncode_Encode sz alloc pszPlaint a =
     (let a = a\<lparr>aes_objBuffer := reSet (aes_objBuffer a)\<rparr>
      in case m_pRK a of
           None \<Rightarrow> Inr ((None, 0), a)
         | Some rk \<Rightarrow>
             (case aes_encode_loop sz alloc rk pszPlaint a of
                Inl e \<Rightarrow> Inl e
              | Inr a \<Rightarrow>
                  (case (if 0 = length pszPlaint mod AES_BlockSize then aes_encode_block sz alloc rk (replicate AES_BlockSize (of_nat AES_BlockSize)) a else Inr a) of
                     Inl e \<Rightarrow> Inl e
                   | Inr a \<Rightarrow> Inr ((m_pBuffer (aes_objBuffer a), buf_getLens (aes_objBuffer a)), a))))"

function aes_decode_loop :: "nat \<Rightarrow> allocator \<Rightarrow> u32 list \<Rightarrow> byte list \<Rightarrow> caes \<Rightarrow> qerror + caes" where
  "aes_decode_loop sz alloc rk msg a =
     (if msg = [] then Inr a
      else let cipher = take AES_BlockSize msg; plain = rijndaelDecrypt rk (m_iRounds a) cipher;
               a = a\<lparr>m_uacCipher := cipher, m_uacPlain := plain\<rparr>
           in case pushBuff sz alloc (Some plain) AES_BlockSize (aes_objBuffer a) of
                Inl e \<Rightarrow> Inl e
              | Inr b \<Rightarrow> aes_decode_loop sz alloc rk (drop AES_BlockSize msg) (a\<lparr>aes_objBuffer := b\<rparr>))"
  by auto
termination by (relation "measure (\<lambda>(sz, alloc, rk, msg, a). length msg)") (auto simp: AES_BlockSize_def)

declare aes_decode_loop.simps [simp del]

definition CAESDecode_Decode :: "nat \<Rightarrow> allocator \<Rightarrow> byte list \<Rightarrow> caes \<Rightarrow> qerror + (byte list option \<times> nat) \<times> caes" where
  "CAESDecode_Decode sz alloc pszCipher a =
     (let a = a\<lparr>aes_objBuffer := reSet (aes_objBuffer a)\<rparr>
      in case m_pRK a of
           None \<Rightarrow> Inr ((None, 0), a)
         | Some rk \<Rightarrow>
             if 0 \<noteq> length pszCipher mod AES_BlockSize then Inr ((None, 0), a)
             else (case aes_decode_loop sz alloc rk pszCipher a of
                     Inl e \<Rightarrow> Inl e
                   | Inr a \<Rightarrow>
                       Inr ((m_pBuffer (aes_objBuffer a),
                             (buf_getLens (aes_objBuffer a) + (size_mod sz - unat (m_uacPlain a ! (AES_BlockSize - 1)))) mod size_mod sz), a)))"

section \<open>Messages as lists of blocks\<close>

definition aes_pad :: "byte list \<Rightarrow> byte list" where
  "aes_pad msg = msg @ replicate (16 - length msg mod 16) (of_nat (16 - length msg mod 16))"

fun blocks16 :: "byte list \<Rightarrow> byte list list" where
  "blocks16 xs = (if xs = [] then [] else take 16 xs # blocks16 (drop 16 xs))"

declare blocks16.simps [simp del]

lemma concat_blocks16: "concat (blocks16 xs) = xs"
  by (induction xs rule: blocks16.induct) (subst blocks16.simps, simp)

lemma blocks16_concat: "(\<forall>b \<in> set bs. length b = 16) \<Longrightarrow> blocks16 (concat bs) = bs"
proof (induction bs)
  case Nil
  then show ?case by (simp add: blocks16.simps)
next
  case (Cons b bs)
  then show ?case by (subst blocks16.simps) auto
qed

lemma length_blocks16: "length xs mod 16 = 0 \<Longrightarrow> b \<in> set (blocks16 xs) \<Longrightarrow> length b = 16"
proof (induction xs rule: blocks16.induct)
  case (1 xs)
  show ?case
  proof (cases "xs = []")
    case False
    then have l: "16 \<le> length xs" using 1(2) by (metis dvd_imp_le length_0_conv mod_0_imp_dvd neq0_conv)
    then have "length (drop 16 xs) mod 16 = 0" using 1(2) by (simp add: le_mod_geq)
    then show ?thesis using 1(1) [OF False] 1(3) l False by (subst (asm) blocks16.simps) auto
  qed (use 1(3) in \<open>simp add: blocks16.simps\<close>)
qed

lemma length_aes_pad: "length (aes_pad msg) = 16 * (length msg div 16 + 1)"
proof -
  have "length msg + (16 - length msg mod 16) = 16 * (length msg div 16 + 1)" by presburger
  then show ?thesis by (simp add: aes_pad_def)
qed

lemma last_aes_pad: "last (aes_pad msg) = of_nat (16 - length msg mod 16)"
proof -
  have "\<not> 16 \<le> length msg mod 16" by (simp add: not_le)
  then show ?thesis by (simp add: aes_pad_def last_append last_replicate)
qed

lemma take_aes_pad: "take (length (aes_pad msg) - (16 - length msg mod 16)) (aes_pad msg) = msg"
  by (simp add: aes_pad_def)

section \<open>What the loops push\<close>

definition same_key :: "caes \<Rightarrow> caes \<Rightarrow> bool" where
  "same_key a a' \<longleftrightarrow> m_pRK a' = m_pRK a \<and> m_iRounds a' = m_iRounds a \<and> m_pKey a' = m_pKey a"

lemma length_rijndael [simp]: "length (rijndaelEncrypt rk n p) = 16" "length (rijndaelDecrypt rk n p) = 16"
  by (simp_all add: rijndaelEncrypt_eq rijndaelDecrypt_eq)

lemma aes_encode_block_ok:
  assumes "alloc_ok alloc" "buf_inv (aes_objBuffer a)" "length (buf_bytes (aes_objBuffer a)) + 16 < size_mod sz"
  shows "\<exists>a'. aes_encode_block sz alloc rk plain a = Inr a' \<and> same_key a a' \<and> buf_inv (aes_objBuffer a')
    \<and> buf_bytes (aes_objBuffer a') = buf_bytes (aes_objBuffer a) @ rijndaelEncrypt rk (m_iRounds a) plain"
  using pushBuff_ok [of alloc "aes_objBuffer a" "rijndaelEncrypt rk (m_iRounds a) plain" sz] assms
  by (auto simp: aes_encode_block_def AES_BlockSize_def same_key_def Let_def)

text \<open>What the loop of the encoder sees: the message, filled up when its length is no multiple of sixteen.\<close>

definition loop_pad :: "byte list \<Rightarrow> byte list" where
  "loop_pad msg = (if length msg mod 16 = 0 then msg else aes_pad msg)"

abbreviation enc_blocks :: "u32 list \<Rightarrow> nat \<Rightarrow> byte list \<Rightarrow> byte list" where
  "enc_blocks rk n xs \<equiv> concat (map (rijndaelEncrypt rk n) (blocks16 xs))"

lemma loop_pad_cut: "16 \<le> length msg \<Longrightarrow> loop_pad msg = take 16 msg @ loop_pad (drop 16 msg)"
  by (simp add: loop_pad_def aes_pad_def le_mod_geq flip: append_assoc)

lemma loop_pad_short: "msg \<noteq> [] \<Longrightarrow> length msg < 16 \<Longrightarrow> loop_pad msg = msg @ replicate (16 - length msg) (of_nat (16 - length msg)) \<and> length (loop_pad msg) = 16"
  by (simp add: loop_pad_def aes_pad_def)

lemma blocks16_step: "length b = 16 \<Longrightarrow> blocks16 (b @ xs) = b # blocks16 xs"
  by (subst blocks16.simps) auto

lemma aes_encode_loop_ok:
  assumes "alloc_ok alloc" "buf_inv (aes_objBuffer a)" "length (buf_bytes (aes_objBuffer a)) + length (loop_pad msg) < size_mod sz"
  shows "\<exists>a'. aes_encode_loop sz alloc rk msg a = Inr a' \<and> same_key a a' \<and> buf_inv (aes_objBuffer a')
    \<and> buf_bytes (aes_objBuffer a') = buf_bytes (aes_objBuffer a) @ enc_blocks rk (m_iRounds a) (loop_pad msg)"
  using assms(2,3)
proof (induction "length msg" arbitrary: msg a rule: less_induct)
  case less
  show ?case
  proof (cases "msg = []")
    case True
    then show ?thesis using less.prems(1) by (simp add: aes_encode_loop.simps same_key_def loop_pad_def blocks16.simps)
  next
    case False
    let ?n = "if length msg \<ge> 16 then 16 else length msg"
    let ?plain = "take ?n msg @ replicate (16 - ?n) (of_nat (16 - ?n))"
    have p: "length ?plain = 16" "loop_pad msg = ?plain @ loop_pad (drop 16 msg)"
      using loop_pad_cut [of msg] loop_pad_short [OF False] by (auto simp: loop_pad_def [of "[]"])
    then have len: "length (buf_bytes (aes_objBuffer a)) + 16 < size_mod sz" using less.prems(2) by simp
    obtain a1 where a1: "aes_encode_block sz alloc rk ?plain a = Inr a1" "same_key a a1" "buf_inv (aes_objBuffer a1)"
      "buf_bytes (aes_objBuffer a1) = buf_bytes (aes_objBuffer a) @ rijndaelEncrypt rk (m_iRounds a) ?plain"
      using aes_encode_block_ok [OF assms(1) less.prems(1) len] by blast
    have "length (drop 16 msg) < length msg" using False by simp
    moreover have "length (buf_bytes (aes_objBuffer a1)) + length (loop_pad (drop 16 msg)) < size_mod sz" using less.prems(2) p a1(4) by simp
    ultimately obtain a2 where a2: "aes_encode_loop sz alloc rk (drop 16 msg) a1 = Inr a2" "same_key a1 a2" "buf_inv (aes_objBuffer a2)"
      "buf_bytes (aes_objBuffer a2) = buf_bytes (aes_objBuffer a1) @ enc_blocks rk (m_iRounds a1) (loop_pad (drop 16 msg))"
      using less.hyps [OF _ a1(3)] by blast
    have "aes_encode_loop sz alloc rk msg a = Inr a2"
      using False a1(1) a2(1) by (subst aes_encode_loop.simps) (simp only: AES_BlockSize_def Let_def sum.case if_False)
    moreover have "blocks16 (loop_pad msg) = ?plain # blocks16 (loop_pad (drop 16 msg))" using blocks16_step [OF p(1)] p(2) by simp
    ultimately show ?thesis using a1 a2 by (auto simp: same_key_def)
  qed
qed

lemma blocks16_snoc:
  assumes "length xs mod 16 = 0" "length b = 16"
  shows "blocks16 (xs @ b) = blocks16 xs @ [b]"
proof -
  have "\<forall>c \<in> set (blocks16 xs @ [b]). length c = 16" using length_blocks16 [OF assms(1)] assms(2) by auto
  from blocks16_concat [OF this] show ?thesis by (simp add: concat_blocks16)
qed

lemma buf_read: "buf_inv b \<Longrightarrow> buf_bytes b \<noteq> [] \<Longrightarrow> \<exists>blk. m_pBuffer b = Some blk \<and> take (buf_getLens b) blk = buf_bytes b \<and> buf_getLens b = length (buf_bytes b)"
  by (auto simp: buf_inv_def buf_bytes_def buf_getLens_def split: option.splits)

lemma length_enc_list: "\<forall>b \<in> set bs. length b = 16 \<Longrightarrow> length (concat (map (rijndaelEncrypt rk n) bs)) = length (concat bs)"
  by (induction bs) simp_all

lemma length_enc_blocks: 
  assumes "length xs mod 16 = 0"
  shows "length (enc_blocks rk n xs) = length xs"
proof -
  have "\<forall>b \<in> set (blocks16 xs). length b = 16" using length_blocks16 [OF assms] by blast
  from length_enc_list [OF this] show ?thesis by (simp add: concat_blocks16)
qed

lemma Encode_ok:
  assumes "alloc_ok alloc" "buf_inv (aes_objBuffer a)" "length (aes_pad msg) < size_mod sz" "m_pRK a = Some rk"
  shows "\<exists>blk a'. CAESEncode_Encode sz alloc msg a = Inr ((Some blk, length (aes_pad msg)), a') \<and> same_key a a' \<and> buf_inv (aes_objBuffer a')
    \<and> take (length (aes_pad msg)) blk = enc_blocks rk (m_iRounds a) (aes_pad msg)"
proof -
  let ?a = "a\<lparr>aes_objBuffer := reSet (aes_objBuffer a)\<rparr>"
  have r: "buf_inv (aes_objBuffer ?a)" "buf_bytes (aes_objBuffer ?a) = []"
    using buf.clear_inv [of alloc "aes_objBuffer a"] buf.clear_bytes [of alloc "aes_objBuffer a"] assms(1,2) by simp_all
  have "length (loop_pad msg) \<le> length (aes_pad msg)" by (simp add: loop_pad_def aes_pad_def)
  then obtain a1 where a1: "aes_encode_loop sz alloc rk msg ?a = Inr a1" "same_key ?a a1" "buf_inv (aes_objBuffer a1)"
    "buf_bytes (aes_objBuffer a1) = enc_blocks rk (m_iRounds a) (loop_pad msg)"
    using aes_encode_loop_ok [OF assms(1) r(1), of msg sz rk] r(2) assms(3) by auto
  have "\<exists>a'. (if 0 = length msg mod 16 then aes_encode_block sz alloc rk (replicate 16 (of_nat 16)) a1 else Inr a1) = Inr a'
      \<and> same_key a a' \<and> buf_inv (aes_objBuffer a') \<and> buf_bytes (aes_objBuffer a') = enc_blocks rk (m_iRounds a) (aes_pad msg)"
  proof (cases "length msg mod 16 = 0")
    case True
    then have "aes_pad msg = msg @ replicate 16 (of_nat 16)" "loop_pad msg = msg" by (simp_all add: aes_pad_def loop_pad_def)
    then show ?thesis
      using aes_encode_block_ok [OF assms(1) a1(3), of sz rk "replicate 16 (of_nat 16)"] True a1 assms(3)
      by (auto simp: length_enc_blocks blocks16_snoc same_key_def)
  qed (use a1 in \<open>auto simp: loop_pad_def same_key_def\<close>)
  then obtain a' where a': "(if 0 = length msg mod 16 then aes_encode_block sz alloc rk (replicate 16 (of_nat 16)) a1 else Inr a1) = Inr a'"
    "same_key a a'" "buf_inv (aes_objBuffer a')" "buf_bytes (aes_objBuffer a') = enc_blocks rk (m_iRounds a) (aes_pad msg)" by blast
  have l: "length (buf_bytes (aes_objBuffer a')) = length (aes_pad msg)" by (simp only: a'(4)) (simp add: length_enc_blocks length_aes_pad)
  then have "buf_bytes (aes_objBuffer a') \<noteq> []" by (auto simp: length_aes_pad)
  then obtain blk where "m_pBuffer (aes_objBuffer a') = Some blk" "take (length (aes_pad msg)) blk = buf_bytes (aes_objBuffer a')"
    "buf_getLens (aes_objBuffer a') = length (aes_pad msg)"
    using buf_read [OF a'(3)] l by metis
  then show ?thesis using a1(1) a' assms(4) by (auto simp: CAESEncode_Encode_def AES_BlockSize_def Let_def)
qed

section \<open>Decoding\<close>

lemma aes_decode_loop_ok:
  assumes "alloc_ok alloc" "buf_inv (aes_objBuffer a)" "length (buf_bytes (aes_objBuffer a)) + length msg < size_mod sz" "length msg mod 16 = 0"
  shows "\<exists>a'. aes_decode_loop sz alloc rk msg a = Inr a' \<and> same_key a a' \<and> buf_inv (aes_objBuffer a')
    \<and> buf_bytes (aes_objBuffer a') = buf_bytes (aes_objBuffer a) @ concat (map (rijndaelDecrypt rk (m_iRounds a)) (blocks16 msg))
    \<and> m_uacPlain a' = (if msg = [] then m_uacPlain a else rijndaelDecrypt rk (m_iRounds a) (last (blocks16 msg)))"
  using assms(2-4)
proof (induction "length msg" arbitrary: msg a rule: less_induct)
  case less
  show ?case
  proof (cases "msg = []")
    case True
    then show ?thesis using less.prems(1) by (simp add: aes_decode_loop.simps same_key_def blocks16.simps)
  next
    case False
    let ?p = "rijndaelDecrypt rk (m_iRounds a) (take 16 msg)"
    let ?a = "a\<lparr>m_uacCipher := take 16 msg, m_uacPlain := ?p\<rparr>"
    have l: "16 \<le> length msg" using False less.prems(3) by (metis dvd_imp_le length_0_conv mod_0_imp_dvd neq0_conv)
    obtain b where b: "pushBuff sz alloc (Some ?p) 16 (aes_objBuffer ?a) = Inr b" "buf_inv b" "buf_bytes b = buf_bytes (aes_objBuffer a) @ ?p"
      using pushBuff_ok [of alloc "aes_objBuffer a" ?p sz] assms(1) less.prems l by auto
    let ?a1 = "?a\<lparr>aes_objBuffer := b\<rparr>"
    have "length (drop 16 msg) mod 16 = 0" using less.prems(3) l by (simp add: le_mod_geq)
    then obtain a2 where a2: "aes_decode_loop sz alloc rk (drop 16 msg) ?a1 = Inr a2" "same_key ?a1 a2" "buf_inv (aes_objBuffer a2)"
      "buf_bytes (aes_objBuffer a2) = buf_bytes b @ concat (map (rijndaelDecrypt rk (m_iRounds a)) (blocks16 (drop 16 msg)))"
      "m_uacPlain a2 = (if drop 16 msg = [] then ?p else rijndaelDecrypt rk (m_iRounds a) (last (blocks16 (drop 16 msg))))"
      using less.hyps [of "drop 16 msg" ?a1] False less.prems b l by auto
    have "aes_decode_loop sz alloc rk msg a = Inr a2"
      using False a2(1) b(1) by (subst aes_decode_loop.simps) (simp add: AES_BlockSize_def Let_def)
    moreover have "blocks16 msg = take 16 msg # blocks16 (drop 16 msg)" using False by (subst blocks16.simps) simp
    moreover have "blocks16 (drop 16 msg) = [] \<longleftrightarrow> drop 16 msg = []" by (subst blocks16.simps) simp
    ultimately show ?thesis using a2 b(3) False by (auto simp: same_key_def)
  qed
qed

lemma Decode_ok:
  assumes "alloc_ok alloc" "buf_inv (aes_objBuffer a)" "m_pRK a = Some dk" "length msg < size_mod sz - 16" "c = enc_blocks rk (m_iRounds a) (aes_pad msg)"
    and "\<And>p. length p = 16 \<Longrightarrow> rijndaelDecrypt dk (m_iRounds a) (rijndaelEncrypt rk (m_iRounds a) p) = p"
  shows "\<exists>blk a'. CAESDecode_Decode sz alloc c a = Inr ((Some blk, length msg), a') \<and> same_key a a' \<and> buf_inv (aes_objBuffer a') \<and> take (length msg) blk = msg"
proof -
  let ?a = "a\<lparr>aes_objBuffer := reSet (aes_objBuffer a)\<rparr>" and ?bs = "blocks16 (aes_pad msg)" and ?k = "16 - length msg mod 16"
  have r: "buf_inv (aes_objBuffer ?a)" "buf_bytes (aes_objBuffer ?a) = []"
    using buf.clear_inv [of alloc "aes_objBuffer a"] buf.clear_bytes [of alloc "aes_objBuffer a"] assms(1,2) by simp_all
  have pm: "length (aes_pad msg) mod 16 = 0" by (simp add: length_aes_pad)
  have bl: "\<forall>b \<in> set ?bs. length b = 16" using length_blocks16 [OF pm] by blast
  have cb: "blocks16 c = map (rijndaelEncrypt rk (m_iRounds a)) ?bs" unfolding assms(5) by (rule blocks16_concat) simp
  have lc: "length c = length (aes_pad msg)" unfolding assms(5) by (rule length_enc_blocks [OF pm])
  have d: "map (rijndaelDecrypt dk (m_iRounds a)) (blocks16 c) = ?bs"
    unfolding cb map_map by (rule map_idI) (use bl assms(6) in simp)
  have lp: "length (aes_pad msg) = length msg + ?k" by (simp add: aes_pad_def)
  then have len: "length c < size_mod sz" using lc assms(4) by simp
  have ne: "c \<noteq> []" "?bs \<noteq> []" using lc length_aes_pad [of msg] concat_blocks16 [of "aes_pad msg"] by auto
  obtain a1 where a1: "aes_decode_loop sz alloc dk c ?a = Inr a1" "same_key ?a a1" "buf_inv (aes_objBuffer a1)"
    "buf_bytes (aes_objBuffer a1) = concat (map (rijndaelDecrypt dk (m_iRounds a)) (blocks16 c))"
    "m_uacPlain a1 = rijndaelDecrypt dk (m_iRounds a) (last (blocks16 c))"
    using aes_decode_loop_ok [OF assms(1) r(1), of c sz dk] r(2) len lc pm ne by auto
  have bb: "buf_bytes (aes_objBuffer a1) = aes_pad msg" using a1(4) d concat_blocks16 by simp
  have "m_uacPlain a1 = last ?bs" using a1(5) d ne cb by (metis last_map list.map_disc_iff)
  moreover have "length (last ?bs) = 16" "last ?bs \<noteq> []" using bl last_in_set [OF ne(2)] by fastforce+
  moreover have "last (last ?bs) = last (aes_pad msg)"
    using ne(2) concat_blocks16 [of "aes_pad msg"] \<open>last ?bs \<noteq> []\<close> by (metis append_butlast_last_id concat_append concat.simps last_append append_Nil2)
  ultimately have "m_uacPlain a1 ! 15 = of_nat ?k" by (simp add: last_aes_pad last_conv_nth)
  moreover have "unat (of_nat ?k :: byte) = ?k" by (simp only: unsigned_of_nat) (simp add: take_bit_nat_eq_self)
  ultimately have u: "unat (m_uacPlain a1 ! 15) = ?k" by simp
  obtain blk where blk: "m_pBuffer (aes_objBuffer a1) = Some blk" "take (length (aes_pad msg)) blk = aes_pad msg" "buf_getLens (aes_objBuffer a1) = length (aes_pad msg)"
    using buf_read [OF a1(3)] bb lc ne(1) by fastforce
  have "(length (aes_pad msg) + (size_mod sz - ?k)) mod size_mod sz = length msg" using lp len lc assms(4) by simp
  moreover have "take (length msg) blk = msg"
  proof -
    have "take (length msg) blk = take (length msg) (take (length (aes_pad msg)) blk)" using lp by simp
    also have "\<dots> = msg" unfolding blk(2) by (simp add: aes_pad_def)
    finally show ?thesis .
  qed
  ultimately show ?thesis using assms(3) a1(1-3) lc pm u blk
    by (auto simp: CAESDecode_Decode_def AES_BlockSize_def Let_def same_key_def)
qed

section \<open>The properties\<close>

definition rk_alloc_ok :: "(nat \<Rightarrow> u32 list option) \<Rightarrow> bool" where
  "rk_alloc_ok new_rk \<longleftrightarrow> (\<forall>n. \<exists>rk. new_rk n = Some rk \<and> length rk = n)"

lemma setKey_ok:
  assumes "rk_alloc_ok new_rk" "alloc_ok alloc" "kt \<in> key_sizes"
  shows "\<exists>rk key. KEYLENGTH kt < length key \<and> RKLENGTH kt < length rk \<and> key = take (KEYLENGTH kt) pszKey @ replicate (KEYLENGTH kt + 1 - min (KEYLENGTH kt) (length pszKey)) 0
    \<and> aes_setKey setup new_rk alloc pszKey kt a
       = Inr (Q_RTN_OK, a\<lparr>m_pRK := Some (snd (setup rk key kt)), m_pKey := Some key, m_iRounds := fst (setup rk key kt)\<rparr>)"
proof -
  let ?key = "take (KEYLENGTH kt) pszKey @ replicate (KEYLENGTH kt + 1 - min (KEYLENGTH kt) (length pszKey)) 0"
  obtain rk where rk: "new_rk (RKLENGTH kt + 1) = Some rk" "length rk = RKLENGTH kt + 1" using assms(1) by (auto simp: rk_alloc_ok_def)
  obtain blk where "alloc (KEYLENGTH kt + 1) = Some blk" using assms(2) by (auto simp: alloc_ok_def)
  moreover have "take (if length pszKey > KEYLENGTH kt then KEYLENGTH kt else length pszKey) pszKey @
      drop (if length pszKey > KEYLENGTH kt then KEYLENGTH kt else length pszKey) (replicate (KEYLENGTH kt + 1) 0) = ?key"
    by (simp only: drop_replicate) (simp add: min_def)
  moreover have "length ?key = KEYLENGTH kt + 1" by (simp add: min_def)
  moreover have "\<not> KEYLENGTH kt + 1 < key_reads kt" "kt \<noteq> AESKEY_NONE"
    using assms(3) by (auto simp: key_sizes_def key_reads_def KEYLENGTH_def AESKEY_NONE_def)
  ultimately show ?thesis using rk
    by (intro exI [of _ rk] exI [of _ ?key]) (simp add: aes_setKey_def Let_def split: prod.split)
qed

lemma KEYLENGTH_RKLENGTH: "RKLENGTH kt = kt div 8 + 28" by (simp add: RKLENGTH_def)

lemma aes_objects:
  assumes "rk_alloc_ok new_rk" "rk_alloc_ok new_rk2" "alloc_ok alloc" "kt \<in> key_sizes"
  shows "\<exists>n ek dk e1 d1. CAESEncode_setKey new_rk alloc pszKey kt e = Inr (Q_RTN_OK, e1) \<and> CAESDecode_setKey new_rk2 alloc pszKey kt d = Inr (Q_RTN_OK, d1)
    \<and> m_pRK e1 = Some ek \<and> m_pRK d1 = Some dk \<and> m_iRounds e1 = n \<and> m_iRounds d1 = n \<and> aes_objBuffer e1 = aes_objBuffer e \<and> aes_objBuffer d1 = aes_objBuffer d
    \<and> m_uacPlain d1 = m_uacPlain d \<and> (\<forall>p. length p = 16 \<longrightarrow> rijndaelDecrypt dk n (rijndaelEncrypt ek n p) = p)"
proof -
  obtain rk key where e: "RKLENGTH kt < length rk"
    "key = take (KEYLENGTH kt) pszKey @ replicate (KEYLENGTH kt + 1 - min (KEYLENGTH kt) (length pszKey)) 0"
    "CAESEncode_setKey new_rk alloc pszKey kt e
      = Inr (Q_RTN_OK, e\<lparr>m_pRK := Some (snd (rijndaelSetupEncrypt rk key kt)), m_pKey := Some key, m_iRounds := fst (rijndaelSetupEncrypt rk key kt)\<rparr>)"
    using setKey_ok [OF assms(1,3,4), of pszKey rijndaelSetupEncrypt e] unfolding CAESEncode_setKey_def by blast
  obtain rk2 where d: "RKLENGTH kt < length rk2"
    "CAESDecode_setKey new_rk2 alloc pszKey kt d
      = Inr (Q_RTN_OK, d\<lparr>m_pRK := Some (snd (rijndaelSetupDecrypt rk2 key kt)), m_pKey := Some key, m_iRounds := fst (rijndaelSetupDecrypt rk2 key kt)\<rparr>)"
    using setKey_ok [OF assms(2,3,4), of pszKey rijndaelSetupDecrypt d] unfolding CAESDecode_setKey_def e(2) by blast
  obtain n ek where n: "rijndaelSetupEncrypt rk key kt = (n, ek)" by fastforce
  obtain n' dk where n': "rijndaelSetupDecrypt rk2 key kt = (n', dk)" by fastforce
  have l: "kt div 8 + 28 \<le> length rk" "kt div 8 + 28 \<le> length rk2" using e(1) d(1) by (simp_all add: RKLENGTH_def)
  have "n' = n" "length p = 16 \<Longrightarrow> rijndaelDecrypt dk n (rijndaelEncrypt ek n p) = p" for p
    using rijndael_decrypt_encrypt [OF assms(4) l n n'] Ex_list_of_length [of 16] by blast+
  then show ?thesis using e(3) d(2) n n' by auto
qed

text \<open>
  C31. A message survives \<^verbatim>\<open>CAESEncode\<close> and \<^verbatim>\<open>CAESDecode\<close> with the same key and key size, whatever was in their buffers: the encoder returns whole blocks,
  one more than the message fills, and the decoder the message, of the length it had.
\<close>

theorem aes_roundtrip:
  assumes "rk_alloc_ok new_rk" "rk_alloc_ok new_rk2" "alloc_ok alloc" "kt \<in> key_sizes" "buf_inv (aes_objBuffer e)" "buf_inv (aes_objBuffer d)"
    and "length msg < size_mod sz - 16"
  shows "\<exists>e1 d1 blk n e2 blk' d2. CAESEncode_setKey new_rk alloc pszKey kt e = Inr (Q_RTN_OK, e1) \<and> CAESDecode_setKey new_rk2 alloc pszKey kt d = Inr (Q_RTN_OK, d1)
    \<and> CAESEncode_Encode sz alloc msg e1 = Inr ((Some blk, n), e2) \<and> n = 16 * (length msg div 16 + 1)
    \<and> CAESDecode_Decode sz alloc (take n blk) d1 = Inr ((Some blk', length msg), d2) \<and> take (length msg) blk' = msg"
proof -
  obtain n ek dk e1 d1 where o: "CAESEncode_setKey new_rk alloc pszKey kt e = Inr (Q_RTN_OK, e1)" "CAESDecode_setKey new_rk2 alloc pszKey kt d = Inr (Q_RTN_OK, d1)"
    "m_pRK e1 = Some ek" "m_pRK d1 = Some dk" "m_iRounds e1 = n" "m_iRounds d1 = n" "aes_objBuffer e1 = aes_objBuffer e" "aes_objBuffer d1 = aes_objBuffer d"
    "\<And>p. length p = 16 \<Longrightarrow> rijndaelDecrypt dk n (rijndaelEncrypt ek n p) = p"
    using aes_objects [OF assms(1-4)] by metis
  have "length (aes_pad msg) < size_mod sz" using assms(7) by (simp add: aes_pad_def)
  then obtain blk e2 where e2: "CAESEncode_Encode sz alloc msg e1 = Inr ((Some blk, length (aes_pad msg)), e2)"
    "take (length (aes_pad msg)) blk = enc_blocks ek n (aes_pad msg)"
    using Encode_ok [OF assms(3), of e1 msg sz ek] assms(5) o by auto
  obtain blk' d2 where "CAESDecode_Decode sz alloc (take (length (aes_pad msg)) blk) d1 = Inr ((Some blk', length msg), d2)" "take (length msg) blk' = msg"
    using Decode_ok [OF assms(3) _ o(4) assms(7), of "take (length (aes_pad msg)) blk" ek] assms(6) e2(2) o by auto
  then show ?thesis using o(1,2) e2(1) length_aes_pad by blast
qed

text \<open>
  C32. The decoder trusts the last byte. For every block whose decryption ends with a byte above sixteen it reports a length that wraps around, close to the
  largest number of type \<^verbatim>\<open>size_t\<close>, for a buffer that holds sixteen bytes; its callers then copy that many.
\<close>

theorem aes_bad_padding:
  assumes "alloc_ok alloc" "buf_inv (aes_objBuffer a)" "m_pRK a = Some rk" "length c = 16" "sz = 4 \<or> sz = 8"
    and "16 < unat (rijndaelDecrypt rk (m_iRounds a) c ! 15)"
  shows "\<exists>blk a'. CAESDecode_Decode sz alloc c a = Inr ((Some blk, size_mod sz + 16 - unat (rijndaelDecrypt rk (m_iRounds a) c ! 15)), a')
    \<and> buf_bytes (aes_objBuffer a') = rijndaelDecrypt rk (m_iRounds a) c"
proof -
  let ?a = "a\<lparr>aes_objBuffer := reSet (aes_objBuffer a)\<rparr>" and ?p = "rijndaelDecrypt rk (m_iRounds a) c"
  have r: "buf_inv (aes_objBuffer ?a)" "buf_bytes (aes_objBuffer ?a) = []"
    using buf.clear_inv [of alloc "aes_objBuffer a"] buf.clear_bytes [of alloc "aes_objBuffer a"] assms(1,2) by simp_all
  have s: "256 < size_mod sz" using assms(5) by (auto simp: size_mod_def)
  have b: "blocks16 c = [c]" using blocks16_concat [of "[c]"] assms(4) by simp
  obtain a1 where a1: "aes_decode_loop sz alloc rk c ?a = Inr a1" "buf_inv (aes_objBuffer a1)" "buf_bytes (aes_objBuffer a1) = ?p" "m_uacPlain a1 = ?p"
    using aes_decode_loop_ok [OF assms(1) r(1), of c sz rk] r(2) s assms(4) b by (cases "c = []") auto
  have "buf_bytes (aes_objBuffer a1) \<noteq> []" using a1(3) length_rijndael(2) [of rk "m_iRounds a" c] by force
  then obtain blk where "m_pBuffer (aes_objBuffer a1) = Some blk" "buf_getLens (aes_objBuffer a1) = 16"
    using buf_read [OF a1(2)] a1(3) by auto
  moreover have "(16 + (size_mod sz - u)) mod size_mod sz = size_mod sz + 16 - u" if "16 < u" "u < 256" for u
  proof -
    have "16 + (size_mod sz - u) = size_mod sz + 16 - u" "16 + (size_mod sz - u) < size_mod sz" using s that by linarith+
    then show ?thesis by simp
  qed
  ultimately show ?thesis using a1 assms(3,4,6) by (auto simp: CAESDecode_Decode_def AES_BlockSize_def Let_def)
qed

section \<open>The hypotheses hold\<close>

definition zero_rk :: "nat \<Rightarrow> u32 list option" where "zero_rk n = Some (replicate n 0)"

lemma zero_rk_ok: "rk_alloc_ok zero_rk" by (simp add: rk_alloc_ok_def zero_rk_def)

lemma CAES_init_ok: "buf_inv (aes_objBuffer (CAES_init zero_alloc))"
  by (simp add: CAES_init_def CBuffer_init_def buf_New_def zero_alloc_def buf_inv_def)

theorem aes_roundtrip_witness:
  "\<exists>e1 d1 blk e2 blk' d2. CAESEncode_setKey zero_rk zero_alloc [107, 101, 121] 256 (CAES_init zero_alloc) = Inr (Q_RTN_OK, e1)
    \<and> CAESDecode_setKey zero_rk zero_alloc [107, 101, 121] 256 (CAES_init zero_alloc) = Inr (Q_RTN_OK, d1)
    \<and> CAESEncode_Encode 8 zero_alloc [1, 2, 3] e1 = Inr ((Some blk, 16), e2)
    \<and> CAESDecode_Decode 8 zero_alloc (take 16 blk) d1 = Inr ((Some blk', 3), d2) \<and> take 3 blk' = [1, 2, 3]"
proof -
  have l: "length [1, 2, 3 :: byte] = 3" by simp
  have "length [1, 2, 3 :: byte] < size_mod 8 - 16" "256 \<in> key_sizes" by (simp_all add: size_mod_def key_sizes_def)
  from aes_roundtrip [OF zero_rk_ok zero_rk_ok zero_alloc_ok this(2) CAES_init_ok CAES_init_ok this(1), of "[107, 101, 121]"]
  show ?thesis unfolding l by auto
qed

theorem aes_bad_padding_witness:
  "\<exists>c d1 blk d2. length c = 16 \<and> CAESDecode_setKey zero_rk zero_alloc [107] 128 (CAES_init zero_alloc) = Inr (Q_RTN_OK, d1)
    \<and> CAESDecode_Decode 4 zero_alloc c d1 = Inr ((Some blk, 0xffffff11), d2)"
proof -
  obtain n ek dk e1 d1 where o: "CAESDecode_setKey zero_rk zero_alloc [107] 128 (CAES_init zero_alloc) = Inr (Q_RTN_OK, d1)"
    "m_pRK d1 = Some dk" "m_iRounds d1 = n" "aes_objBuffer d1 = aes_objBuffer (CAES_init zero_alloc)"
    "\<And>p. length p = 16 \<Longrightarrow> rijndaelDecrypt dk n (rijndaelEncrypt ek n p) = p"
    using aes_objects [OF zero_rk_ok zero_rk_ok zero_alloc_ok, of 128 "[107]" "CAES_init zero_alloc" "CAES_init zero_alloc"] unfolding key_sizes_def by fast
  let ?p = "replicate 16 (0xff :: byte)"
  have p: "rijndaelDecrypt dk n (rijndaelEncrypt ek n ?p) = ?p" by (rule o(5)) simp
  have "\<exists>blk d2. CAESDecode_Decode 4 zero_alloc (rijndaelEncrypt ek n ?p) d1 = Inr ((Some blk, 0xffffff11), d2)"
    using aes_bad_padding [OF zero_alloc_ok _ o(2), of "rijndaelEncrypt ek n ?p" 4] CAES_init_ok o(3,4) p by (auto simp: size_mod_def)
  then show ?thesis using o(1) length_rijndael(1) by blast
qed

end
