(* ===== verification/Q_RSA.thy ===== *)
theory Q_RSA
  imports R_Keygen RSA_Example AES_Code
begin

text \<open>
  \<^verbatim>\<open>QBase/QRSA.cpp\<close> and \<^verbatim>\<open>QBase/RSAKey.cpp\<close>: messages of any length under RSA. A message is cut into pieces that fit into a block of the key, each piece
  is encrypted by the functions of \<open>RSA\<close>, and the blocks are put together; decryption cuts at the length of the modulus.
\<close>

section \<open>Keys and objects\<close>

record rsakey =
  m_stRandom :: r_random_struct
  m_stPublicKey :: r_rsa_public_key
  m_stPrivateKey :: r_rsa_private_key

definition RSAKeyMinLen :: nat where "RSAKeyMinLen = 512"
definition RSAKeyMaxLen :: nat where "RSAKeyMaxLen = 1024"

text \<open>\<^verbatim>\<open>creatKey\<close>; \<open>env\<close> and \<open>idums\<close> are what \<^verbatim>\<open>R_RandomCreate\<close> reads from clock and processor.\<close>

definition creatKey ::
  "(nat \<Rightarrow> int \<times> byte list \<times> byte list) \<Rightarrow> int \<Rightarrow> nat \<Rightarrow> rsakey \<Rightarrow> (int \<times> rsakey) option" where
  "creatKey env idums usKeyLens k =
     (if usKeyLens < RSAKeyMinLen \<or> usKeyLens > RSAKeyMaxLen then Some (Q_RTN_FAILE, k)
      else do { (r, random) \<leftarrow> R_GeneratePEMKeys \<lparr>proto_bits = usKeyLens, useFermat4 = True\<rparr> (R_RandomCreate env idums (m_stRandom k));
                Some (case r of
                  Inl status \<Rightarrow> (status, k\<lparr>m_stRandom := random\<rparr>)
                | Inr (pub, prv) \<Rightarrow> (ID_OK, k\<lparr>m_stRandom := random, m_stPublicKey := pub, m_stPrivateKey := prv\<rparr>)) })"

text \<open>The getters return the addresses of members, which are never null.\<close>

definition getPublicKey :: "rsakey \<Rightarrow> r_rsa_public_key option" where "getPublicKey k = Some (m_stPublicKey k)"
definition getPrivateKey :: "rsakey \<Rightarrow> r_rsa_private_key option" where "getPrivateKey k = Some (m_stPrivateKey k)"
definition getRandom :: "rsakey \<Rightarrow> r_random_struct option" where "getRandom k = Some (m_stRandom k)"

datatype RSAEncryptType = RSAEncryptType_Public | RSAEncryptType_Private
datatype RSADecryptType = RSADecryptType_Public | RSADecryptType_Private

record crsa =
  m_pRSAKey :: "rsakey option"
  m_acOutBuf :: "byte list"
  rsa_objBuffer :: cbuffer

definition CRSA_init :: "allocator \<Rightarrow> crsa" where
  "CRSA_init alloc = \<lparr>m_pRSAKey = None, m_acOutBuf = replicate MAX_RSA_MODULUS_LEN 0, rsa_objBuffer = CBuffer_init alloc\<rparr>"

definition crsa_setKey :: "rsakey \<Rightarrow> crsa \<Rightarrow> crsa" where "crsa_setKey k a = a\<lparr>m_pRSAKey := Some k\<rparr>"

section \<open>Messages\<close>

text \<open>One block: the call of the library that the type selects. The random structure is changed in the key.\<close>

definition encrypt_piece :: "RSAEncryptType \<Rightarrow> byte list \<Rightarrow> rsakey \<Rightarrow> ((int + byte list) \<times> rsakey) option" where
  "encrypt_piece emEnType input k =
     (case emEnType of
        RSAEncryptType_Public \<Rightarrow>
          do { (r, random) \<leftarrow> RSAPublicEncrypt input (m_stPublicKey k) (m_stRandom k); Some (r, k\<lparr>m_stRandom := random\<rparr>) }
      | RSAEncryptType_Private \<Rightarrow> do { r \<leftarrow> RSAPrivateEncrypt input (m_stPrivateKey k); Some (r, k) })"

definition decrypt_piece :: "RSADecryptType \<Rightarrow> byte list \<Rightarrow> rsakey \<Rightarrow> ((int + byte list) \<times> rsakey) option" where
  "decrypt_piece emEnType input k =
     (case emEnType of
        RSADecryptType_Public \<Rightarrow> do { r \<leftarrow> RSAPublicDecrypt input (m_stPublicKey k); Some (r, k) }
      | RSADecryptType_Private \<Rightarrow> do { r \<leftarrow> RSAPrivateDecrypt input (m_stPrivateKey k); Some (r, k) })"

text \<open>
  The loop of both directions from position \<open>i\<close> on, with the call for one piece. The functions of the library write their output when they succeed, at the
  start of \<^verbatim>\<open>m_acOutBuf\<close>. The result says whether all pieces were processed.
\<close>

partial_function (option) rsa_loop ::
  "(byte list \<Rightarrow> rsakey \<Rightarrow> ((int + byte list) \<times> rsakey) option) \<Rightarrow> nat \<Rightarrow> allocator \<Rightarrow> nat \<Rightarrow> byte list \<Rightarrow> nat \<Rightarrow> crsa \<Rightarrow> (qerror + bool \<times> crsa) option"
where
  "rsa_loop piece sz alloc iStep data i a =
     (if i \<ge> length data then Some (Inr (True, a))
      else case m_pRSAKey a of
        None \<Rightarrow> Some (Inl (Fault NullDeref))
      | Some k \<Rightarrow>
          let iBufLens = (if (i + iStep) mod size_mod sz > length data then length data - i else iStep) mod 2 ^ 32
          in do { (r, k) \<leftarrow> piece (take iBufLens (drop i data)) k;
                  (let a = a\<lparr>m_pRSAKey := Some k\<rparr>
                   in case r of
                        Inl iRtn \<Rightarrow> Some (Inr (False, a))
                      | Inr out \<Rightarrow>
                          if length out > length (m_acOutBuf a) then Some (Inl (Fault OutOfBounds))
                          else let a = a\<lparr>m_acOutBuf := out @ drop (length out) (m_acOutBuf a)\<rparr>
                               in case pushBuff sz alloc (Some (m_acOutBuf a)) (length out) (rsa_objBuffer a) of
                                    Inl e \<Rightarrow> Some (Inl e)
                                  | Inr b \<Rightarrow> rsa_loop piece sz alloc iStep data ((i + iStep) mod size_mod sz) (a\<lparr>rsa_objBuffer := b\<rparr>)) })"

text \<open>What both functions return: the pointer and the length.\<close>

definition rsa_result :: "(qerror + bool \<times> crsa) option \<Rightarrow> (qerror + (byte list option \<times> nat) \<times> crsa) option" where
  "rsa_result r = map_option (\<lambda>r. case r of
       Inl e \<Rightarrow> Inl e
     | Inr (done, a) \<Rightarrow> Inr (if done then (m_pBuffer (rsa_objBuffer a), buf_getLens (rsa_objBuffer a)) else (None, 0), a)) r"

definition RSAEncrypt ::
  "RSAEncryptType \<Rightarrow> nat \<Rightarrow> allocator \<Rightarrow> byte list \<Rightarrow> crsa \<Rightarrow> (qerror + (byte list option \<times> nat) \<times> crsa) option" where
  "RSAEncrypt emEnType sz alloc data a =
     (let a = a\<lparr>rsa_objBuffer := reSet (rsa_objBuffer a)\<rparr>
      in case m_pRSAKey a of
           None \<Rightarrow> Some (Inl (Fault NullDeref))
         | Some k \<Rightarrow>
             (case emEnType of
                RSAEncryptType_Public \<Rightarrow>
                  (case (getPublicKey k, getRandom k) of
                     (Some pub, Some _) \<Rightarrow>
                       let iStep = ((pub_bits pub + 7) div 8 + 2 ^ 32 - 11) mod 2 ^ 32
                       in rsa_result (rsa_loop (encrypt_piece emEnType) sz alloc iStep data 0 a)
                   | _ \<Rightarrow> Some (Inr ((None, 0), a)))
              | RSAEncryptType_Private \<Rightarrow>
                  (case getPrivateKey k of
                     Some prv \<Rightarrow>
                       let iStep = ((prv_bits prv + 7) div 8 + 2 ^ 32 - 11) mod 2 ^ 32
                       in rsa_result (rsa_loop (encrypt_piece emEnType) sz alloc iStep data 0 a)
                   | None \<Rightarrow> Some (Inr ((None, 0), a)))))"

definition RSADecrypt ::
  "RSADecryptType \<Rightarrow> nat \<Rightarrow> allocator \<Rightarrow> byte list \<Rightarrow> crsa \<Rightarrow> (qerror + (byte list option \<times> nat) \<times> crsa) option" where
  "RSADecrypt emEnType sz alloc data a =
     (let a = a\<lparr>rsa_objBuffer := reSet (rsa_objBuffer a)\<rparr>
      in case m_pRSAKey a of
           None \<Rightarrow> Some (Inl (Fault NullDeref))
         | Some k \<Rightarrow>
             (case (case emEnType of
                      RSADecryptType_Public \<Rightarrow> map_option pub_bits (getPublicKey k)
                    | RSADecryptType_Private \<Rightarrow> map_option prv_bits (getPrivateKey k)) of
                Some bits \<Rightarrow> rsa_result (rsa_loop (decrypt_piece emEnType) sz alloc ((bits + 7) div 8 mod 2 ^ 32) data 0 a)
              | None \<Rightarrow> Some (Inr ((None, 0), a))))"

definition crsa_publicKeyEncrypt where "crsa_publicKeyEncrypt = RSAEncrypt RSAEncryptType_Public"
definition crsa_privateKeyEncrypt where "crsa_privateKeyEncrypt = RSAEncrypt RSAEncryptType_Private"
definition crsa_publicKeyDecrypt where "crsa_publicKeyDecrypt = RSADecrypt RSADecryptType_Public"
definition crsa_privateKeyDecrypt where "crsa_privateKeyDecrypt = RSADecrypt RSADecryptType_Private"

section \<open>Pieces\<close>

function cut_pieces :: "nat \<Rightarrow> byte list \<Rightarrow> byte list list" where
  "cut_pieces n xs = (if n = 0 \<or> xs = [] then [] else take n xs # cut_pieces n (drop n xs))"
  by auto
termination by (relation "measure (\<lambda>(n, xs). length xs)") auto

declare cut_pieces.simps [simp del]

lemma cut_pieces_Nil [simp]: "cut_pieces n [] = []" by (simp add: cut_pieces.simps)

lemma cut_pieces_step: "0 < n \<Longrightarrow> xs \<noteq> [] \<Longrightarrow> cut_pieces n xs = take n xs # cut_pieces n (drop n xs)"
  by (subst cut_pieces.simps) simp

lemma concat_cut_pieces: "0 < n \<Longrightarrow> concat (cut_pieces n xs) = xs"
proof (induction n xs rule: cut_pieces.induct)
  case (1 n xs)
  then show ?case by (cases "xs = []") (simp_all add: cut_pieces_step)
qed

lemma cut_pieces_bounds: "c \<in> set (cut_pieces n xs) \<Longrightarrow> c \<noteq> [] \<and> length c \<le> n"
proof (induction n xs rule: cut_pieces.induct)
  case (1 n xs)
  then show ?case by (subst (asm) (2) cut_pieces.simps) (auto split: if_splits)
qed

lemma cut_pieces_concat: "0 < n \<Longrightarrow> \<forall>b \<in> set bs. length b = n \<Longrightarrow> cut_pieces n (concat bs) = bs"
proof (induction bs)
  case (Cons b bs)
  then show ?case using cut_pieces_step [of n "b @ concat bs"] by auto
qed simp

text \<open>A run of the call over the pieces, when all succeed.\<close>

fun piece_run :: "(byte list \<Rightarrow> rsakey \<Rightarrow> ((int + byte list) \<times> rsakey) option) \<Rightarrow> byte list list \<Rightarrow> rsakey \<Rightarrow> (byte list list \<times> rsakey) option" where
  "piece_run piece [] k = Some ([], k)"
| "piece_run piece (c # cs) k =
     (case piece c k of
        Some (Inr out, k) \<Rightarrow> map_option (\<lambda>(outs, k). (out # outs, k)) (piece_run piece cs k)
      | _ \<Rightarrow> None)"

lemma pushBuff_prefix: "pushBuff sz alloc (Some (xs @ ys)) (length xs) b = pushBuff sz alloc (Some xs) (length xs) b"
  by (simp add: pushBuff_def split: prod.split option.split)

lemma rsa_loop_runs:
  assumes "alloc_ok alloc" "0 < iStep" "iStep < 2 ^ 32" "length data + iStep < size_mod sz" "\<forall>b \<in> set outs. length b \<le> length (m_acOutBuf a)"
    and "length (buf_bytes (rsa_objBuffer a)) + length (concat outs) < size_mod sz" "buf_inv (rsa_objBuffer a)" "m_pRSAKey a = Some k"
    and "piece_run piece (cut_pieces iStep (drop i data)) k = Some (outs, k')"
  shows "\<exists>a'. rsa_loop piece sz alloc iStep data i a = Some (Inr (True, a')) \<and> buf_inv (rsa_objBuffer a') \<and> m_pRSAKey a' = Some k'
    \<and> buf_bytes (rsa_objBuffer a') = buf_bytes (rsa_objBuffer a) @ concat outs \<and> length (m_acOutBuf a') = length (m_acOutBuf a)"
  using assms(5-)
proof (induction "length data - i" arbitrary: i a k outs rule: less_induct)
  case less
  show ?case
  proof (cases "i \<ge> length data")
    case True
    then show ?thesis using less.prems by (simp add: rsa_loop.simps)
  next
    case False
    then have ne: "drop i data \<noteq> []" by simp
    have m: "(i + iStep) mod size_mod sz = i + iStep" using False assms(4) by simp
    let ?c = "take iStep (drop i data)"
    have tk: "take ((if (i + iStep) mod size_mod sz > length data then length data - i else iStep) mod 2 ^ 32) (drop i data) = ?c"
      using assms(3) False unfolding m by auto
    obtain out outs' k1 where o: "piece ?c k = Some (Inr out, k1)" "outs = out # outs'"
      "piece_run piece (cut_pieces iStep (drop (i + iStep) data)) k1 = Some (outs', k')"
      using less.prems(5) unfolding cut_pieces_step [OF assms(2) ne]
      by (auto simp: add.commute split: option.splits sum.splits prod.splits)
    let ?o = "out @ drop (length out) (m_acOutBuf a)"
    have l: "length out \<le> length (m_acOutBuf a)" using less.prems(1) o(2) by simp
    obtain b where b: "pushBuff sz alloc (Some out) (length out) (rsa_objBuffer a) = Inr b" "buf_inv b"
      "buf_bytes b = buf_bytes (rsa_objBuffer a) @ out"
      using pushBuff_ok [OF assms(1) less.prems(3), of out sz] less.prems(2) o(2) by auto
    have s: "rsa_loop piece sz alloc iStep data i a
        = rsa_loop piece sz alloc iStep data (i + iStep) (a\<lparr>m_pRSAKey := Some k1, m_acOutBuf := ?o, rsa_objBuffer := b\<rparr>)"
      using False l o(1) b(1) less.prems(4) tk by (subst rsa_loop.simps) (simp add: m Let_def pushBuff_prefix)
    have "length data - (i + iStep) < length data - i" using assms(2) False by simp
    from less.hyps [OF this, of outs' "a\<lparr>m_pRSAKey := Some k1, m_acOutBuf := ?o, rsa_objBuffer := b\<rparr>" k1] show ?thesis
      unfolding s using less.prems(1,2) o(2,3) b(2,3) l by auto
  qed
qed

lemma length_cut_pieces: "0 < n \<Longrightarrow> length (cut_pieces n xs) = (length xs + n - 1) div n"
proof (induction n xs rule: cut_pieces.induct)
  case (1 n xs)
  show ?case
  proof (cases "xs = []")
    case False
    then have "length (cut_pieces n xs) = Suc (length (cut_pieces n (drop n xs)))" using 1(2) by (simp add: cut_pieces_step)
    also have "\<dots> = Suc ((length xs - n + n - 1) div n)" using 1 False by simp
    also have "\<dots> = (length xs + n - 1) div n"
    proof (cases "n \<le> length xs")
      case True
      then have "length xs + n - 1 = length xs - n + n - 1 + n" using 1(2) by simp
      then show ?thesis using 1(2) by (metis div_add_self2 add.commute not_gr_zero plus_1_eq_Suc)
    next
      case less: False
      have e: "length xs + n - 1 = n + (length xs - 1)" "(length xs - 1) div n = 0" "(length xs - n + n - 1) div n = 0"
        using False less by (cases xs; simp)+
      show ?thesis unfolding e(1,3) using div_add_self1 [of n "length xs - 1"] 1(2) e(2) by simp
    qed
    finally show ?thesis .
  qed (use 1(2) in simp)
qed

section \<open>Objects that work\<close>

definition crsa_ok :: "rsakey \<Rightarrow> crsa \<Rightarrow> bool" where
  "crsa_ok k a \<longleftrightarrow> m_pRSAKey a = Some k \<and> length (m_acOutBuf a) = MAX_RSA_MODULUS_LEN \<and> buf_inv (rsa_objBuffer a)"

lemma rsa_result_runs:
  assumes "alloc_ok alloc" "0 < iStep" "iStep < 2 ^ 32" "length data + iStep < size_mod sz" "crsa_ok k a"
    and "\<forall>b \<in> set outs. length b \<le> MAX_RSA_MODULUS_LEN" "length (concat outs) < size_mod sz" "concat outs \<noteq> []"
    and "piece_run piece (cut_pieces iStep data) k = Some (outs, k')"
  shows "\<exists>blk a'. rsa_result (rsa_loop piece sz alloc iStep data 0 (a\<lparr>rsa_objBuffer := reSet (rsa_objBuffer a)\<rparr>))
      = Some (Inr ((Some blk, length (concat outs)), a')) \<and> take (length (concat outs)) blk = concat outs \<and> crsa_ok k' a'"
proof -
  let ?a = "a\<lparr>rsa_objBuffer := reSet (rsa_objBuffer a)\<rparr>"
  have b: "buf_inv (rsa_objBuffer ?a)" "buf_bytes (rsa_objBuffer ?a) = []"
    using buf.clear_inv [of alloc "rsa_objBuffer a"] buf.clear_bytes [of alloc "rsa_objBuffer a"] assms(1,5) by (simp_all add: crsa_ok_def)
  obtain a' where a': "rsa_loop piece sz alloc iStep data 0 ?a = Some (Inr (True, a'))" "buf_inv (rsa_objBuffer a')" "m_pRSAKey a' = Some k'"
    "buf_bytes (rsa_objBuffer a') = concat outs" "length (m_acOutBuf a') = MAX_RSA_MODULUS_LEN"
    using rsa_loop_runs [OF assms(1-4), of outs ?a k piece 0 k'] assms(5-9) b by (auto simp: crsa_ok_def)
  then obtain blk where "m_pBuffer (rsa_objBuffer a') = Some blk" "buf_getLens (rsa_objBuffer a') = length (concat outs)"
      "take (length (concat outs)) blk = concat outs"
    using buf_read [of "rsa_objBuffer a'"] assms(8) by metis
  then show ?thesis using a' by (auto simp: rsa_result_def crsa_ok_def)
qed

text \<open>Enough randomness for padding of the given lengths.\<close>

fun pads_ok :: "nat list \<Rightarrow> r_random_struct \<Rightarrow> bool" where
  "pads_ok [] random \<longleftrightarrow> True"
| "pads_ok (n # ns) random \<longleftrightarrow> R_GetRandomBytesNeeded random = 0
     \<and> (case rsa_random_pad n random of None \<Rightarrow> False | Some (_, random) \<Rightarrow> pads_ok ns random)"

lemma private_run:
  assumes "rsa_keys_ok pub prv" "m_stPrivateKey k = prv" "m_stPublicKey k2 = pub" "\<forall>c \<in> set cs. length c + 11 \<le> rsa_len prv"
  shows "\<exists>outs. piece_run (encrypt_piece RSAEncryptType_Private) cs k = Some (outs, k) \<and> (\<forall>b \<in> set outs. length b = rsa_len prv)
    \<and> length outs = length cs \<and> piece_run (decrypt_piece RSADecryptType_Public) outs k2 = Some (cs, k2)"
  using assms(4)
proof (induction cs)
  case (Cons c cs)
  then obtain out where "RSAPrivateEncrypt c prv = Some (Inr out)" "length out = rsa_len prv" "RSAPublicDecrypt out pub = Some (Inr c)"
    using RSAPrivateEncrypt_ok [OF assms(1), of c] by auto
  then show ?case using Cons assms(2,3) by (force simp: encrypt_piece_def decrypt_piece_def)
qed simp

lemma public_run:
  assumes "rsa_keys_ok pub prv" "m_stPrivateKey k2 = prv"
    and "m_stPublicKey k = pub" "\<forall>c \<in> set cs. c \<noteq> [] \<and> length c + 11 \<le> rsa_len prv"
    and "pads_ok (map (\<lambda>c. rsa_len prv - length c - 3) cs) (m_stRandom k)"
  shows "\<exists>outs k'. piece_run (encrypt_piece RSAEncryptType_Public) cs k = Some (outs, k') \<and> (\<forall>b \<in> set outs. length b = rsa_len prv)
    \<and> length outs = length cs \<and> piece_run (decrypt_piece RSADecryptType_Private) outs k2 = Some (cs, k2)"
  using assms(3-)
proof (induction cs arbitrary: k)
  case (Cons c cs)
  obtain ps random where r: "R_GetRandomBytesNeeded (m_stRandom k) = 0" "rsa_random_pad (rsa_len prv - length c - 3) (m_stRandom k) = Some (ps, random)"
    "pads_ok (map (\<lambda>c. rsa_len prv - length c - 3) cs) random"
    using Cons.prems(3) by (auto split: option.splits)
  then obtain out where o: "RSAPublicEncrypt c pub (m_stRandom k) = Some (Inr out, random)" "length out = rsa_len prv" "RSAPrivateDecrypt out prv = Some (Inr c)"
    using RSAPublicEncrypt_ok [OF assms(1) _ r(1,2)] Cons.prems(2) by auto
  show ?case using Cons.IH [of "k\<lparr>m_stRandom := random\<rparr>"] Cons.prems r(3) o assms(2) by (force simp: encrypt_piece_def decrypt_piece_def)
qed simp

definition rsa_step :: "r_rsa_private_key \<Rightarrow> nat" where "rsa_step prv = rsa_len prv - 11"

text \<open>The length of an encrypted message: a block for every piece.\<close>

definition rsa_coded_len :: "r_rsa_private_key \<Rightarrow> nat \<Rightarrow> nat" where
  "rsa_coded_len prv n = rsa_len prv * ((n + rsa_step prv - 1) div rsa_step prv)"

lemma rsa_message:
  assumes "alloc_ok alloc" "rsa_keys_ok pub prv" "12 \<le> rsa_len prv" "msg \<noteq> []" "rsa_coded_len prv (length msg) + rsa_len prv < size_mod sz"
    and "crsa_ok k a" "crsa_ok k2 b"
    and "piece_run enc (cut_pieces (rsa_step prv) msg) k = Some (outs, k')" "\<forall>c \<in> set outs. length c = rsa_len prv"
    and "length outs = length (cut_pieces (rsa_step prv) msg)" "piece_run dec outs k2 = Some (cut_pieces (rsa_step prv) msg, k2)"
  shows "\<exists>blk a' blk' b'. rsa_result (rsa_loop enc sz alloc (rsa_step prv) msg 0 (a\<lparr>rsa_objBuffer := reSet (rsa_objBuffer a)\<rparr>))
        = Some (Inr ((Some blk, rsa_coded_len prv (length msg)), a'))
    \<and> rsa_result (rsa_loop dec sz alloc (rsa_len prv) (take (rsa_coded_len prv (length msg)) blk) 0 (b\<lparr>rsa_objBuffer := reSet (rsa_objBuffer b)\<rparr>))
        = Some (Inr ((Some blk', length msg), b'))
    \<and> take (length msg) blk' = msg"
proof -
  have st: "0 < rsa_step prv" "rsa_step prv \<le> rsa_len prv" using assms(3) by (simp_all add: rsa_step_def)
  have L: "rsa_len prv \<le> 128" using assms(2) rsa_len_bounds by (simp add: rsa_keys_ok_def)
  have cs: "concat (cut_pieces (rsa_step prv) msg) = msg" "\<forall>c \<in> set (cut_pieces (rsa_step prv) msg). length c \<le> rsa_len prv"
    using concat_cut_pieces [OF st(1)] cut_pieces_bounds st(2) by fastforce+
  have "length (concat outs) = length outs * rsa_len prv" using assms(9) by (induction outs) simp_all
  then have l: "length (concat outs) = rsa_coded_len prv (length msg)" using length_cut_pieces [OF st(1)] assms(10) by (simp add: rsa_coded_len_def)
  have "length (concat xs) \<le> length xs * rsa_len prv" if "\<forall>c \<in> set xs. length c \<le> rsa_len prv" for xs :: "byte list list"
    using that by (induction xs) auto
  from this [OF cs(2)] have m: "length msg \<le> rsa_coded_len prv (length msg)"
    using cs(1) length_cut_pieces [OF st(1)] by (simp add: rsa_coded_len_def mult.commute)
  have ne: "concat outs \<noteq> []" using m l assms(4) by force
  obtain blk a' where e: "rsa_result (rsa_loop enc sz alloc (rsa_step prv) msg 0 (a\<lparr>rsa_objBuffer := reSet (rsa_objBuffer a)\<rparr>))
      = Some (Inr ((Some blk, length (concat outs)), a'))" "take (length (concat outs)) blk = concat outs"
    using rsa_result_runs [OF assms(1) st(1) _ _ assms(6) _ _ ne assms(8), of sz] assms(5,9) m l L st(2) by (auto simp: MAX_RSA_MODULUS_LEN_def)
  have "cut_pieces (rsa_len prv) (concat outs) = outs" using cut_pieces_concat assms(3,9) by simp
  then obtain blk' b' where "rsa_result (rsa_loop dec sz alloc (rsa_len prv) (concat outs) 0 (b\<lparr>rsa_objBuffer := reSet (rsa_objBuffer b)\<rparr>))
      = Some (Inr ((Some blk', length msg), b'))" "take (length msg) blk' = msg"
    using rsa_result_runs [OF assms(1) _ _ _ assms(7) _ _ _ , of "rsa_len prv" "concat outs" sz "cut_pieces (rsa_step prv) msg" dec k2] assms(3,4,5,11) cs m l L
    by (fastforce simp: MAX_RSA_MODULUS_LEN_def)
  then show ?thesis using e unfolding l by metis
qed

lemma rsa_calls:
  assumes "rsa_keys_ok pub prv" "12 \<le> rsa_len prv" "m_pRSAKey a = Some k"
  shows "m_stPublicKey k = pub \<Longrightarrow> crsa_publicKeyEncrypt sz alloc data a
      = rsa_result (rsa_loop (encrypt_piece RSAEncryptType_Public) sz alloc (rsa_step prv) data 0 (a\<lparr>rsa_objBuffer := reSet (rsa_objBuffer a)\<rparr>))"
    and "m_stPublicKey k = pub \<Longrightarrow> crsa_publicKeyDecrypt sz alloc data a
      = rsa_result (rsa_loop (decrypt_piece RSADecryptType_Public) sz alloc (rsa_len prv) data 0 (a\<lparr>rsa_objBuffer := reSet (rsa_objBuffer a)\<rparr>))"
    and "m_stPrivateKey k = prv \<Longrightarrow> crsa_privateKeyEncrypt sz alloc data a
      = rsa_result (rsa_loop (encrypt_piece RSAEncryptType_Private) sz alloc (rsa_step prv) data 0 (a\<lparr>rsa_objBuffer := reSet (rsa_objBuffer a)\<rparr>))"
    and "m_stPrivateKey k = prv \<Longrightarrow> crsa_privateKeyDecrypt sz alloc data a
      = rsa_result (rsa_loop (decrypt_piece RSADecryptType_Private) sz alloc (rsa_len prv) data 0 (a\<lparr>rsa_objBuffer := reSet (rsa_objBuffer a)\<rparr>))"
proof -
  have p: "pub_bits pub = prv_bits prv" "rsa_len prv \<le> 128" using assms(1) rsa_len_bounds by (simp_all add: rsa_keys_ok_def)
  have s: "((prv_bits prv + 7) div 8 + 2 ^ 32 - 11) mod 2 ^ 32 = rsa_step prv" "(prv_bits prv + 7) div 8 mod 2 ^ 32 = rsa_len prv"
    using assms(2) p(2) unfolding rsa_len_def rsa_step_def by (simp_all add: mod_if)
  show "m_stPublicKey k = pub \<Longrightarrow> crsa_publicKeyEncrypt sz alloc data a
      = rsa_result (rsa_loop (encrypt_piece RSAEncryptType_Public) sz alloc (rsa_step prv) data 0 (a\<lparr>rsa_objBuffer := reSet (rsa_objBuffer a)\<rparr>))"
    "m_stPublicKey k = pub \<Longrightarrow> crsa_publicKeyDecrypt sz alloc data a
      = rsa_result (rsa_loop (decrypt_piece RSADecryptType_Public) sz alloc (rsa_len prv) data 0 (a\<lparr>rsa_objBuffer := reSet (rsa_objBuffer a)\<rparr>))"
    "m_stPrivateKey k = prv \<Longrightarrow> crsa_privateKeyEncrypt sz alloc data a
      = rsa_result (rsa_loop (encrypt_piece RSAEncryptType_Private) sz alloc (rsa_step prv) data 0 (a\<lparr>rsa_objBuffer := reSet (rsa_objBuffer a)\<rparr>))"
    "m_stPrivateKey k = prv \<Longrightarrow> crsa_privateKeyDecrypt sz alloc data a
      = rsa_result (rsa_loop (decrypt_piece RSADecryptType_Private) sz alloc (rsa_len prv) data 0 (a\<lparr>rsa_objBuffer := reSet (rsa_objBuffer a)\<rparr>))"
    using assms(3) s p(1)
    by (simp_all add: crsa_publicKeyEncrypt_def crsa_publicKeyDecrypt_def crsa_privateKeyEncrypt_def crsa_privateKeyDecrypt_def RSAEncrypt_def RSADecrypt_def
        getPublicKey_def getPrivateKey_def getRandom_def Let_def)
qed

text \<open>
  C34. A message of any length survives \<^verbatim>\<open>CRSA\<close>: what \<^verbatim>\<open>privateKeyEncrypt\<close> makes of it \<^verbatim>\<open>publicKeyDecrypt\<close> gives back, and what \<^verbatim>\<open>publicKeyEncrypt\<close> makes of it, with
  enough randomness, \<^verbatim>\<open>privateKeyDecrypt\<close> gives back; the loops end, and an encrypted message has a block of the length of the
  modulus for every piece of at most eleven bytes less.
\<close>

theorem crsa_roundtrip:
  assumes "alloc_ok alloc" "rsa_keys_ok pub prv" "12 \<le> rsa_len prv" "msg \<noteq> []" "rsa_coded_len prv (length msg) + rsa_len prv < size_mod sz"
    and "n = rsa_coded_len prv (length msg)" "crsa_ok k a" "crsa_ok k2 b"
  shows "(m_stPrivateKey k = prv \<and> m_stPublicKey k2 = pub \<longrightarrow>
       (\<exists>blk a' blk' b'. crsa_privateKeyEncrypt sz alloc msg a = Some (Inr ((Some blk, n), a'))
          \<and> crsa_publicKeyDecrypt sz alloc (take n blk) b = Some (Inr ((Some blk', length msg), b')) \<and> take (length msg) blk' = msg))
   \<and> (m_stPublicKey k = pub \<and> m_stPrivateKey k2 = prv
        \<and> pads_ok (map (\<lambda>c. rsa_len prv - length c - 3) (cut_pieces (rsa_len prv - 11) msg)) (m_stRandom k) \<longrightarrow>
       (\<exists>blk a' blk' b'. crsa_publicKeyEncrypt sz alloc msg a = Some (Inr ((Some blk, n), a'))
          \<and> crsa_privateKeyDecrypt sz alloc (take n blk) b = Some (Inr ((Some blk', length msg), b')) \<and> take (length msg) blk' = msg))"
proof -
  have ka: "m_pRSAKey a = Some k" "m_pRSAKey b = Some k2" using assms(7,8) by (simp_all add: crsa_ok_def)
  note ca = rsa_calls [OF assms(2,3) ka(1)] and cb = rsa_calls [OF assms(2,3) ka(2)]
  have cs: "\<forall>c \<in> set (cut_pieces (rsa_step prv) msg). c \<noteq> [] \<and> length c + 11 \<le> rsa_len prv"
    using cut_pieces_bounds assms(3) by (fastforce simp: rsa_step_def)
  have "\<exists>blk a' blk' b'. crsa_privateKeyEncrypt sz alloc msg a = Some (Inr ((Some blk, n), a'))
        \<and> crsa_publicKeyDecrypt sz alloc (take n blk) b = Some (Inr ((Some blk', length msg), b')) \<and> take (length msg) blk' = msg"
    if "m_stPrivateKey k = prv" "m_stPublicKey k2 = pub"
    using private_run [OF assms(2) that, of "cut_pieces (rsa_step prv) msg"] cs
      rsa_message [OF assms(1-5,7,8)] unfolding ca(3) [OF that(1)] cb(2) [OF that(2)] assms(6) by metis
  moreover have "\<exists>blk a' blk' b'. crsa_publicKeyEncrypt sz alloc msg a = Some (Inr ((Some blk, n), a'))
        \<and> crsa_privateKeyDecrypt sz alloc (take n blk) b = Some (Inr ((Some blk', length msg), b')) \<and> take (length msg) blk' = msg"
    if "m_stPublicKey k = pub" "m_stPrivateKey k2 = prv" "pads_ok (map (\<lambda>c. rsa_len prv - length c - 3) (cut_pieces (rsa_step prv) msg)) (m_stRandom k)"
    using public_run [OF assms(2) that(2,1) cs that(3)] rsa_message [OF assms(1-5,7,8)]
    unfolding ca(1) [OF that(1)] cb(4) [OF that(2)] assms(6) by metis
  ultimately show ?thesis unfolding rsa_step_def by blast
qed

text \<open>Two bytes under a key of twelve bytes: two blocks.\<close>

definition example_rsakey :: rsakey where
  "example_rsakey = \<lparr>m_stRandom = example_random 16, m_stPublicKey = example_public, m_stPrivateKey = example_private\<rparr>"

lemma example_crsa_ok: "crsa_ok example_rsakey (crsa_setKey example_rsakey (CRSA_init zero_alloc))"
  by (simp add: crsa_ok_def crsa_setKey_def CRSA_init_def CBuffer_init_def buf_New_def zero_alloc_def buf_inv_def)

lemma example_pads: "pads_ok [8, 8] (example_random 16)"
proof -
  have "rsa_random_pad 8 (example_random 8) = Some ([9, 10, 11, 12, 13, 14, 15, 16], example_random 0)"
    by (simp add: numeral_eq_Suc example_random_byte)
  then show ?thesis by (simp add: example_random_pad example_random_needed)
qed

theorem crsa_roundtrip_witness:
  "let a = crsa_setKey example_rsakey (CRSA_init zero_alloc) in
     (\<exists>blk a' blk' b'. crsa_privateKeyEncrypt 4 zero_alloc [5, 6] a = Some (Inr ((Some blk, 24), a'))
        \<and> crsa_publicKeyDecrypt 4 zero_alloc (take 24 blk) a = Some (Inr ((Some blk', 2), b')) \<and> take 2 blk' = [5, 6])
   \<and> (\<exists>blk a' blk' b'. crsa_publicKeyEncrypt 4 zero_alloc [5, 6] a = Some (Inr ((Some blk, 24), a'))
        \<and> crsa_privateKeyDecrypt 4 zero_alloc (take 24 blk) a = Some (Inr ((Some blk', 2), b')) \<and> take 2 blk' = [5, 6])"
proof -
  have c: "cut_pieces (Suc 0) [5, 6] = [[5], [6]]" by (simp add: cut_pieces_step)
  have l: "rsa_coded_len example_private 2 = 24" by (simp add: rsa_coded_len_def rsa_step_def example_values)
  have n: "length [5, 6 :: byte] = 2" by simp
  show ?thesis
    using crsa_roundtrip [OF zero_alloc_ok example_keys_ok _ _ _ refl example_crsa_ok example_crsa_ok, of "[5, 6]" 4, unfolded n] example_pads
    by (simp add: example_values l c size_mod_def example_rsakey_def Let_def del: pads_ok.simps)
qed

text \<open>
  A modulus of eleven bytes leaves no room for a message, and the step is zero: the loop makes no progress and never reports success or failure.
\<close>

lemma rsa_loop_stuck:
  "rsa_loop piece sz alloc iStep data i a = Some r \<Longrightarrow> iStep = 0 \<Longrightarrow> i < length data \<Longrightarrow> length data < size_mod sz
    \<Longrightarrow> \<forall>k. \<exists>out k'. piece [] k = Some (Inr out, k') \<Longrightarrow> \<exists>e. r = Inl e"
proof (rule rsa_loop.raw_induct [where P = "\<lambda>piece sz alloc iStep data i a r. iStep = 0 \<longrightarrow> i < length data \<longrightarrow> length data < size_mod sz
    \<longrightarrow> (\<forall>k. \<exists>out k'. piece [] k = Some (Inr out, k')) \<longrightarrow> (\<exists>e. r = Inl e)", THEN mp, THEN mp, THEN mp, THEN mp], goal_cases)
  case (1 f piece sz alloc iStep data i a r)
  show ?case
  proof (intro impI)
    assume h: "iStep = 0" "i < length data" "length data < size_mod sz" "\<forall>k. \<exists>out k'. piece [] k = Some (Inr out, k')"
    show "\<exists>e. r = Inl e"
    proof (cases "m_pRSAKey a")
      case (Some k)
      obtain out k' where o: "piece [] k = Some (Inr out, k')" using h(4) by blast
      have m: "(i + 0) mod size_mod sz = i" "\<not> i \<ge> length data" using h(2,3) by simp_all
      have t: "take ((if length data < i then length data - i else 0) mod 2 ^ 32) (drop i data) = []" using h(2) by simp
      have "(\<exists>e. r = Inl e) \<or> (\<exists>a. f piece sz alloc 0 data i a = Some r)"
        using 1(7) unfolding h(1) m(1) Some Let_def if_not_P [OF m(2)] by (auto simp: t o split: if_splits sum.splits)
      then show ?thesis using 1(6) [of piece sz alloc 0 data i] h by blast
    qed (use 1(7) h in auto)
  qed
qed assumption+

end
