(* ===== verification/Comm_Codecs.thy ===== *)
theory Comm_Codecs
  imports Q_RSA
begin

text \<open>
  The chain of \<^verbatim>\<open>QBase/CommEncrypt.cpp\<close> with the transformations of the repository in it: AES is \<^verbatim>\<open>QBase/AES.cpp\<close> (\<open>AES_Code\<close>) and RSA is
  \<^verbatim>\<open>QBase/QRSA.cpp\<close> (\<open>Q_RSA\<close>), with the objects of \<^verbatim>\<open>CEncrypt\<close> after their keys are set. Only the compression, which is zlib's, stays an argument. The laws that
  the chain relies on are proved for them.
\<close>

section \<open>The stages\<close>

text \<open>
  What a caller reads of a returned pointer and length. A message is not empty, and so short that the result and the buffer for it have a length
  that \<^verbatim>\<open>size_t\<close> can express: RSA makes at most 128 bytes of one.
\<close>

definition code_out :: "nat \<Rightarrow> qerror + (byte list option \<times> nat) \<times> 'a \<Rightarrow> byte list option" where
  "code_out sz r = (case r of Inr ((Some blk, n), _) \<Rightarrow> if n < size_mod sz \<and> n \<le> length blk then Some (take n blk) else None | _ \<Rightarrow> None)"

definition room :: "nat \<Rightarrow> nat \<Rightarrow> bool" where "room sz n \<longleftrightarrow> 0 < n \<and> 128 * n + 128 < size_mod sz"

definition in_room :: "nat \<Rightarrow> (byte list \<Rightarrow> byte list option) \<Rightarrow> byte list \<Rightarrow> byte list option" where
  "in_room sz f x = (if room sz (length x) then f x else None)"

text \<open>
  \<open>e\<close> and \<open>a\<close> are the objects of the end that encodes, \<open>d\<close> and \<open>b\<close> those of the end that decodes. The lemmas below show that no result depends on what
  their buffers hold, so that it is the same in every call.
\<close>

definition code_ops ::
  "nat \<Rightarrow> allocator \<Rightarrow> caes \<Rightarrow> caes \<Rightarrow> crsa \<Rightarrow> crsa \<Rightarrow> (byte list \<Rightarrow> byte list option) \<Rightarrow> (byte list \<Rightarrow> byte list option) \<Rightarrow> codec_ops" where
  "code_ops sz alloc e d a b zc zd =
     \<lparr>aes_Encode = in_room sz (\<lambda>x. code_out sz (CAESEncode_Encode sz alloc x e)),
      aes_Decode = (\<lambda>x. code_out sz (CAESDecode_Decode sz alloc x d)),
      privateKeyEncrypt = in_room sz (\<lambda>x. Option.bind (crsa_privateKeyEncrypt sz alloc x a) (code_out sz)),
      publicKeyEncrypt = in_room sz (\<lambda>x. Option.bind (crsa_publicKeyEncrypt sz alloc x a) (code_out sz)),
      publicKeyDecrypt = (\<lambda>x. Option.bind (crsa_publicKeyDecrypt sz alloc x b) (code_out sz)),
      zlibCompress = zc, zlibDecompression = zd\<rparr>"

lemma code_out_len: "code_out sz r = Some y \<Longrightarrow> length y < size_mod sz"
  by (auto simp: code_out_def split: sum.splits option.splits if_splits)

lemma code_out_Some: "take n blk = y \<Longrightarrow> length y = n \<Longrightarrow> n < size_mod sz \<Longrightarrow> code_out sz (Inr ((Some blk, n), s)) = Some y"
  by (auto simp: code_out_def)

text \<open>Objects that \<^verbatim>\<open>setKey\<close> made ready with the same key, and the two ends of RSA.\<close>

definition aes_ready :: "caes \<Rightarrow> caes \<Rightarrow> bool" where
  "aes_ready e d \<longleftrightarrow> buf_inv (aes_objBuffer e) \<and> buf_inv (aes_objBuffer d) \<and> m_iRounds e = m_iRounds d
     \<and> (\<exists>ek dk. m_pRK e = Some ek \<and> m_pRK d = Some dk
          \<and> (\<forall>p. length p = 16 \<longrightarrow> rijndaelDecrypt dk (m_iRounds d) (rijndaelEncrypt ek (m_iRounds d) p) = p))"

definition rsa_ready :: "r_rsa_private_key \<Rightarrow> crsa \<Rightarrow> crsa \<Rightarrow> bool" where
  "rsa_ready prv a b \<longleftrightarrow> 12 \<le> rsa_len prv \<and>
     (\<exists>k k2. crsa_ok k a \<and> crsa_ok k2 b \<and> m_stPrivateKey k = prv \<and> rsa_keys_ok (m_stPublicKey k2) prv)"

lemma aes_ready_setKey:
  assumes "rk_alloc_ok new_rk" "rk_alloc_ok new_rk2" "alloc_ok alloc" "kt \<in> key_sizes" "buf_inv (aes_objBuffer e)" "buf_inv (aes_objBuffer d)"
  shows "\<exists>e1 d1. CAESEncode_setKey new_rk alloc pszKey kt e = Inr (Q_RTN_OK, e1) \<and> CAESDecode_setKey new_rk2 alloc pszKey kt d = Inr (Q_RTN_OK, d1) \<and> aes_ready e1 d1"
proof -
  from aes_objects [OF assms(1-4), of pszKey e d]
  obtain n ek dk e1 d1 where o: "CAESEncode_setKey new_rk alloc pszKey kt e = Inr (Q_RTN_OK, e1)" "CAESDecode_setKey new_rk2 alloc pszKey kt d = Inr (Q_RTN_OK, d1)"
    "m_pRK e1 = Some ek" "m_pRK d1 = Some dk" "m_iRounds e1 = n" "m_iRounds d1 = n" "aes_objBuffer e1 = aes_objBuffer e" "aes_objBuffer d1 = aes_objBuffer d"
    "\<forall>p. length p = 16 \<longrightarrow> rijndaelDecrypt dk n (rijndaelEncrypt ek n p) = p"
    by blast
  then show ?thesis using assms(5,6) by (auto simp: aes_ready_def)
qed

section \<open>The laws\<close>

lemma aes_stage:
  assumes "alloc_ok alloc" "aes_ready e d" "room sz (length x)"
  shows "\<exists>y. code_out sz (CAESEncode_Encode sz alloc x e) = Some y \<and> length y = 16 * (length x div 16 + 1)
    \<and> code_out sz (CAESDecode_Decode sz alloc y d) = Some x"
proof -
  obtain ek dk where k: "m_pRK e = Some ek" "m_pRK d = Some dk" "buf_inv (aes_objBuffer e)" "buf_inv (aes_objBuffer d)" "m_iRounds e = m_iRounds d"
    "\<And>p. length p = 16 \<Longrightarrow> rijndaelDecrypt dk (m_iRounds d) (rijndaelEncrypt ek (m_iRounds d) p) = p"
    using assms(2) by (auto simp: aes_ready_def)
  have r: "length x < size_mod sz - 16" "length (aes_pad x) < size_mod sz" "length x < size_mod sz"
    using assms(3) length_aes_pad [of x] by (auto simp: room_def)
  let ?y = "enc_blocks ek (m_iRounds d) (aes_pad x)"
  have l: "length ?y = length (aes_pad x)" by (rule length_enc_blocks) (simp add: length_aes_pad)
  obtain blk e' where "CAESEncode_Encode sz alloc x e = Inr ((Some blk, length (aes_pad x)), e')" "take (length (aes_pad x)) blk = ?y"
    using Encode_ok [OF assms(1) k(3) r(2) k(1)] k(5) by auto
  then have "code_out sz (CAESEncode_Encode sz alloc x e) = Some ?y" using code_out_Some l r(2) by metis
  moreover obtain blk' d' where "CAESDecode_Decode sz alloc ?y d = Inr ((Some blk', length x), d')" "take (length x) blk' = x"
    using Decode_ok [OF assms(1) k(4,2) r(1) refl k(6)] by auto
  then have "code_out sz (CAESDecode_Decode sz alloc ?y d) = Some x" using code_out_Some r(3) by metis
  ultimately show ?thesis using l length_aes_pad [of x] by auto
qed

lemma rsa_coded_len_bounds:
  assumes "12 \<le> rsa_len prv" "rsa_len prv \<le> 128" "room sz n"
  shows "rsa_coded_len prv n + rsa_len prv < size_mod sz" "0 < rsa_coded_len prv n"
proof -
  have s: "0 < rsa_step prv" using assms(1) by (simp add: rsa_step_def)
  have n: "0 < n" using assms(3) by (simp add: room_def)
  have "(n + rsa_step prv - 1) div rsa_step prv \<le> n"
  proof -
    have "n + rsa_step prv - 1 \<le> n * rsa_step prv" using s n by (cases n; cases "rsa_step prv") auto
    then show ?thesis using s by (metis div_le_mono nonzero_mult_div_cancel_right not_gr_zero)
  qed
  then have "rsa_coded_len prv n \<le> 128 * n" using assms(2) by (simp add: rsa_coded_len_def mult_le_mono)
  then show "rsa_coded_len prv n + rsa_len prv < size_mod sz" using assms(2,3) by (simp add: room_def)
  have "0 < (n + rsa_step prv - 1) div rsa_step prv" using s n by (simp add: div_greater_zero_iff)
  then show "0 < rsa_coded_len prv n" using assms(1) by (simp add: rsa_coded_len_def)
qed

lemma rsa_stage:
  assumes "alloc_ok alloc" "rsa_ready prv a b" "room sz (length x)"
  shows "\<exists>y. Option.bind (crsa_privateKeyEncrypt sz alloc x a) (code_out sz) = Some y \<and> length y = rsa_coded_len prv (length x)
    \<and> Option.bind (crsa_publicKeyDecrypt sz alloc y b) (code_out sz) = Some x \<and> y \<noteq> []"
proof -
  obtain k k2 where k: "12 \<le> rsa_len prv" "crsa_ok k a" "crsa_ok k2 b" "m_stPrivateKey k = prv" "rsa_keys_ok (m_stPublicKey k2) prv"
    using assms(2) by (auto simp: rsa_ready_def)
  have L: "rsa_len prv \<le> 128" using k(5) rsa_len_bounds by (simp add: rsa_keys_ok_def)
  note c = rsa_coded_len_bounds [OF k(1) L assms(3)]
  have x: "x \<noteq> []" "length x < size_mod sz" using assms(3) by (auto simp: room_def)
  have ka: "m_pRSAKey a = Some k" "m_pRSAKey b = Some k2" using k by (simp_all add: crsa_ok_def)
  note ca = rsa_calls(3) [OF k(5,1) ka(1) k(4)] and cb = rsa_calls(2) [OF k(5,1) ka(2) refl]
  let ?cs = "cut_pieces (rsa_step prv) x"
  have cs: "\<forall>c \<in> set ?cs. length c + 11 \<le> rsa_len prv" using cut_pieces_bounds k(1) by (fastforce simp: rsa_step_def)
  from private_run [OF k(5,4) refl cs]
  obtain outs where o: "piece_run (encrypt_piece RSAEncryptType_Private) ?cs k = Some (outs, k)" "\<forall>b \<in> set outs. length b = rsa_len prv"
    "length outs = length ?cs" "piece_run (decrypt_piece RSADecryptType_Public) outs k2 = Some (?cs, k2)" by blast
  from rsa_message [OF assms(1) k(5,1) x(1) c(1) k(2,3) o]
  obtain blk a' blk' b' where m: "crsa_privateKeyEncrypt sz alloc x a = Some (Inr ((Some blk, rsa_coded_len prv (length x)), a'))"
    "crsa_publicKeyDecrypt sz alloc (take (rsa_coded_len prv (length x)) blk) b = Some (Inr ((Some blk', length x), b'))" "take (length x) blk' = x"
    unfolding ca cb by blast
  let ?y = "take (rsa_coded_len prv (length x)) blk"
  have "length (concat outs) = length outs * rsa_len prv" using o(2) by (induction outs) simp_all
  then have lo: "length (concat outs) = rsa_coded_len prv (length x)"
    using length_cut_pieces [of "rsa_step prv" x] o(3) k(1) by (simp add: rsa_coded_len_def rsa_step_def)
  moreover have "\<forall>b \<in> set outs. length b \<le> MAX_RSA_MODULUS_LEN" using o(2) L by (simp add: MAX_RSA_MODULUS_LEN_def)
  moreover have "length x + rsa_step prv < size_mod sz" using assms(3) L by (auto simp: room_def rsa_step_def)
  ultimately have "length ?y = rsa_coded_len prv (length x)"
    using rsa_result_runs [OF assms(1) _ _ _ k(2) _ _ _ o(1), of sz] m(1) c k(1) L unfolding ca
    by (fastforce simp: rsa_step_def)
  then have "code_out sz (Inr ((Some blk, rsa_coded_len prv (length x)), a')) = Some ?y" "?y \<noteq> []" using c by (auto intro: code_out_Some)
  then show ?thesis using m \<open>length ?y = _\<close> code_out_Some [OF m(3) refl x(2)] by (intro exI [of _ ?y]) simp
qed

definition zlib_laws :: "nat \<Rightarrow> (byte list \<Rightarrow> byte list option) \<Rightarrow> (byte list \<Rightarrow> byte list option) \<Rightarrow> bool" where
  "zlib_laws sz zc zd \<longleftrightarrow> (\<forall>x y. zc x = Some y \<longrightarrow> zd y = Some x \<and> (x \<noteq> [] \<longrightarrow> y \<noteq> []) \<and> length y < size_mod sz)
     \<and> (\<forall>x y. zd x = Some y \<longrightarrow> length y < size_mod sz)"

lemma code_ops_laws:
  assumes "alloc_ok alloc" "aes_ready e d" "rsa_ready prv a b" "zlib_laws sz zc zd"
  shows "codec_laws (code_ops sz alloc e d a b zc zd)"
proof -
  have "aes_Decode (code_ops sz alloc e d a b zc zd) y = Some x \<and> (x \<noteq> [] \<longrightarrow> y \<noteq> [])"
    if "aes_Encode (code_ops sz alloc e d a b zc zd) x = Some y" for x y
    using that aes_stage [OF assms(1,2), of sz x] by (force simp: code_ops_def in_room_def split: if_splits)
  moreover have "publicKeyDecrypt (code_ops sz alloc e d a b zc zd) y = Some x \<and> (x \<noteq> [] \<longrightarrow> y \<noteq> [])"
    if "privateKeyEncrypt (code_ops sz alloc e d a b zc zd) x = Some y" for x y
    using that rsa_stage [OF assms(1,3), of sz x] by (force simp: code_ops_def in_room_def split: if_splits)
  ultimately show ?thesis using assms(4) unfolding codec_laws_def zlib_laws_def by (simp add: code_ops_def)
qed

lemma code_ops_fits:
  assumes "zlib_laws sz zc zd"
  shows "stage_fits sz (encode_stage (code_ops sz alloc e d a b zc zd) s)" "stage_fits sz (decode_stage (code_ops sz alloc e d a b zc zd))"
proof -
  let ?o = "code_ops sz alloc e d a b zc zd"
  have "length y < size_mod sz" if "encode_stage ?o s t x = Some y" for t x y
    using that assms by (cases t) (auto simp: code_ops_def in_room_def zlib_laws_def split: if_splits bind_splits intro: code_out_len)
  moreover have "length y < size_mod sz" if "decode_stage ?o t x = Some y" for t x y
    using that assms by (cases t) (auto simp: code_ops_def zlib_laws_def split: bind_splits intro: code_out_len)
  ultimately show "stage_fits sz (encode_stage ?o s)" "stage_fits sz (decode_stage ?o)" unfolding stage_fits_def by blast+
qed

section \<open>Messages through the chain\<close>

text \<open>The lengths of a message of \<open>n\<close> bytes behind the stages of AES and RSA; each has to leave room for the next stage.\<close>

fun coded_len :: "r_rsa_private_key \<Rightarrow> encrypt_type list \<Rightarrow> nat \<Rightarrow> nat" where
  "coded_len prv [] n = n"
| "coded_len prv (t # ts) n = coded_len prv ts (case t of AES \<Rightarrow> 16 * (n div 16 + 1) | RSA \<Rightarrow> rsa_coded_len prv n | ZLib \<Rightarrow> n)"

fun chain_room :: "nat \<Rightarrow> r_rsa_private_key \<Rightarrow> encrypt_type list \<Rightarrow> nat \<Rightarrow> bool" where
  "chain_room sz prv [] n \<longleftrightarrow> True"
| "chain_room sz prv (t # ts) n \<longleftrightarrow> t \<noteq> ZLib \<and> room sz n \<and> chain_room sz prv ts (case t of AES \<Rightarrow> 16 * (n div 16 + 1) | RSA \<Rightarrow> rsa_coded_len prv n | ZLib \<Rightarrow> n)"

lemma chain_room_Some:
  assumes "alloc_ok alloc" "aes_ready e d" "rsa_ready prv a b"
  shows "chain_room sz prv ts (length x) \<Longrightarrow> RSA \<notin> set ts \<or> s \<Longrightarrow>
    \<exists>y. chain (encode_stage (code_ops sz alloc e d a b zc zd) s) ts x = Some y \<and> length y = coded_len prv ts (length x)"
proof (induction ts arbitrary: x)
  case (Cons t ts)
  have r: "room sz (length x)" "t \<noteq> ZLib" "t = RSA \<Longrightarrow> s" using Cons.prems by auto
  have "\<exists>z. encode_stage (code_ops sz alloc e d a b zc zd) s t x = Some z
      \<and> length z = (case t of AES \<Rightarrow> 16 * (length x div 16 + 1) | RSA \<Rightarrow> rsa_coded_len prv (length x) | ZLib \<Rightarrow> length x)"
    using r aes_stage [OF assms(1,2) r(1)] rsa_stage [OF assms(1,3) r(1)] by (cases t) (auto simp: code_ops_def in_room_def)
  then obtain z where z: "encode_stage (code_ops sz alloc e d a b zc zd) s t x = Some z"
    "length z = (case t of AES \<Rightarrow> 16 * (length x div 16 + 1) | RSA \<Rightarrow> rsa_coded_len prv (length x) | ZLib \<Rightarrow> length x)" by blast
  then show ?case using Cons.IH [of z] Cons.prems by auto
qed simp

text \<open>
  C9. What one end encodes, the other decodes to the same message, with the AES and the RSA of the repository and zlib, whatever the buffers of the two ends held
  before: on links between servers for every list of transformations that is not empty, on links to clients for every such list without RSA, which there
  uses the public key for both directions. The list for clients must not be empty, and zlib must decompress what it compressed.
  Without zlib the encoder always succeeds when the lengths leave room in \<^verbatim>\<open>size_t\<close>, and the length of what it sends is known.
\<close>

theorem comm_roundtrip:
  assumes "alloc_ok alloc" "aes_ready e d" "rsa_ready prv a b" "zlib_laws sz zc zd"
    and "ce_inv ce" "ce_inv ce2" "comm_types bSVLink ce2 = comm_types bSVLink ce" "comm_types bSVLink ce \<noteq> []"
    and "m_vcClinetType ce \<noteq> []" "m_vcClinetType ce2 \<noteq> []" "RSA \<notin> set (comm_types bSVLink ce) \<or> bSVLink" "msg \<noteq> []"
    and "ops = code_ops sz alloc e d a b zc zd"
  shows "(\<forall>c ce'. comm_Encode sz alloc ops (Some msg) bSVLink ce = Inr (Some c, ce') \<longrightarrow>
         ce_inv ce' \<and> (\<exists>ce2'. comm_Decode sz alloc ops (Some c) bSVLink ce2 = Inr (Some msg, ce2') \<and> ce_inv ce2'))
    \<and> (chain_room sz prv (comm_types bSVLink ce) (length msg) \<longrightarrow>
         (\<exists>c ce'. comm_Encode sz alloc ops (Some msg) bSVLink ce = Inr (Some c, ce') \<and> length c = coded_len prv (comm_types bSVLink ce) (length msg)))"
proof (intro conjI allI impI)
  note laws = code_ops_laws [OF assms(1-4), folded assms(13)] and fits = code_ops_fits [OF assms(4), where alloc = alloc and e = e and d = d and a = a and b = b, folded assms(13)]
  fix c ce' assume "comm_Encode sz alloc ops (Some msg) bSVLink ce = Inr (Some c, ce')"
  from comm_Decode_Encode [OF assms(1) laws fits assms(5-12) this]
  show "ce_inv ce'" "\<exists>ce2'. comm_Decode sz alloc ops (Some c) bSVLink ce2 = Inr (Some msg, ce2') \<and> ce_inv ce2'" by blast+
next
  note fits = code_ops_fits(1) [OF assms(4), where alloc = alloc and e = e and d = d and a = a and b = b, folded assms(13)]
  assume "chain_room sz prv (comm_types bSVLink ce) (length msg)"
  from chain_room_Some [OF assms(1-3) this assms(11), of zc zd, folded assms(13)]
  obtain c where "chain (encode_stage ops bSVLink) (comm_types bSVLink ce) msg = Some c" "length c = coded_len prv (comm_types bSVLink ce) (length msg)" by blast
  then show "\<exists>c ce'. comm_Encode sz alloc ops (Some msg) bSVLink ce = Inr (Some c, ce') \<and> length c = coded_len prv (comm_types bSVLink ce) (length msg)"
    using comm_code_chain [OF assms(1) fits [of bSVLink] assms(5,8,9,12)] by (auto simp: comm_Encode_def comm_types_def)
qed

text \<open>AES with 256 bits and then RSA with a modulus of twelve bytes, on a link between servers.\<close>

definition example_types :: comm_encrypt where "example_types = example_ce\<lparr>m_vcSVLinkType := [AES, RSA]\<rparr>"

theorem comm_roundtrip_witness:
  "\<exists>e d c ce' ce2'. CAESEncode_setKey zero_rk zero_alloc [107, 101, 121] 256 (CAES_init zero_alloc) = Inr (Q_RTN_OK, e)
     \<and> CAESDecode_setKey zero_rk zero_alloc [107, 101, 121] 256 (CAES_init zero_alloc) = Inr (Q_RTN_OK, d)
     \<and> (let a = crsa_setKey example_rsakey (CRSA_init zero_alloc); ops = code_ops 4 zero_alloc e d a a (up_to_1000 id) (up_to_1000 id)
        in comm_Encode 4 zero_alloc ops (Some [1, 2]) True example_types = Inr (Some c, ce') \<and> length c = 192
           \<and> comm_Decode 4 zero_alloc ops (Some c) True example_types = Inr (Some [1, 2], ce2'))"
proof -
  let ?a = "crsa_setKey example_rsakey (CRSA_init zero_alloc)"
  obtain e d where ed: "CAESEncode_setKey zero_rk zero_alloc [107, 101, 121] 256 (CAES_init zero_alloc) = Inr (Q_RTN_OK, e)"
    "CAESDecode_setKey zero_rk zero_alloc [107, 101, 121] 256 (CAES_init zero_alloc) = Inr (Q_RTN_OK, d)" "aes_ready e d"
    using aes_ready_setKey [OF zero_rk_ok zero_rk_ok zero_alloc_ok _ CAES_init_ok CAES_init_ok, of 256 "[107, 101, 121]"] by (auto simp: key_sizes_def)
  have r: "rsa_ready example_private ?a ?a"
    unfolding rsa_ready_def using example_crsa_ok example_keys_ok
    by (intro conjI exI [of _ example_rsakey]) (simp_all add: example_rsakey_def example_values)
  have z: "zlib_laws 4 (up_to_1000 id) (up_to_1000 id)" by (simp add: zlib_laws_def up_to_1000_def size_mod_def)
  have i: "ce_inv example_types" by (simp add: ce_inv_def buf_inv_def example_types_def example_ce_def)
  have t: "comm_types True example_types = [AES, RSA]" "m_vcClinetType example_types \<noteq> []" by (simp_all add: comm_types_def example_types_def example_ce_def)
  have l: "rsa_coded_len example_private 16 = 192" by (simp add: rsa_coded_len_def rsa_step_def example_values)
  have n: "chain_room 4 example_private (comm_types True example_types) (length [1, 2 :: byte])"
    "coded_len example_private (comm_types True example_types) (length [1, 2 :: byte]) = 192"
    by (simp_all add: t room_def size_mod_def l)
  note c = comm_roundtrip [OF zero_alloc_ok ed(3) r z i i refl _ t(2) t(2) _ _ refl, of True "[1, 2]"]
  then obtain c ce' where c': "comm_Encode 4 zero_alloc (code_ops 4 zero_alloc e d ?a ?a (up_to_1000 id) (up_to_1000 id)) (Some [1, 2]) True example_types = Inr (Some c, ce')"
    "length c = 192"
    using n t(1) by auto
  then show ?thesis using c ed(1,2) t(1) by (auto simp: Let_def)
qed

end
