(* ===== verification/Q_Encrypt.thy ===== *)
theory Q_Encrypt
  imports QS_Prelude
begin

text \<open>
  The codes of \<^verbatim>\<open>QBase/Encrypt.cpp\<close> that are written there: percent-encoding of addresses and the checksums of 16 and 32 bits. Encoding can be undone; the
  checksums, which look up a table for every byte, are those of their generator polynomials, and notice every change within two
  and four adjacent bytes. The other functions of the class call \<open>Base64\<close>, \<open>CMD5\<close>, \<open>CSHA1\<close>, \<open>AES_Code\<close> and \<open>Q_RSA\<close>.
\<close>

section \<open>Percent-encoding\<close>

text \<open>\<^verbatim>\<open>isalnum\<close> in the default locale. In \<open>fromHex\<close> and \<open>urlDecode\<close> a failed assertion is \<open>None\<close>.\<close>

definition is_alnum :: "byte \<Rightarrow> bool" where
  "is_alnum c \<longleftrightarrow> (48 \<le> c \<and> c \<le> 57) \<or> (65 \<le> c \<and> c \<le> 90) \<or> (97 \<le> c \<and> c \<le> 122)"

definition toHex :: "byte \<Rightarrow> byte" where
  "toHex x = (if x > 9 then x + 55 else x + 48)"

definition fromHex :: "byte \<Rightarrow> byte option" where
  "fromHex x =
    (if 65 \<le> x \<and> x \<le> 90 then Some (x - 65 + 10)
     else if 97 \<le> x \<and> x \<le> 122 then Some (x - 97 + 10)
     else if 48 \<le> x \<and> x \<le> 57 then Some (x - 48)
     else None)"

fun urlEncode :: "byte list \<Rightarrow> byte list" where
  "urlEncode [] = []"
| "urlEncode (c # cs) =
    (if is_alnum c \<or> c = 45 \<or> c = 95 \<or> c = 46 \<or> c = 126 then c # urlEncode cs
     else if c = 32 then 43 # urlEncode cs
     else 37 # toHex (drop_bit 4 c) # toHex (c mod 16) # urlEncode cs)"

fun urlDecode :: "byte list \<Rightarrow> byte list option" where
  "urlDecode [] = Some []"
| "urlDecode (c # cs) =
    (if c = 43 then map_option ((#) 32) (urlDecode cs)
     else if c = 37 then
       (case cs of
          h # l # rest \<Rightarrow>
            (case fromHex h of
               None \<Rightarrow> None
             | Some cHigh \<Rightarrow>
                 (case fromHex l of
                    None \<Rightarrow> None
                  | Some cLow \<Rightarrow> map_option ((#) (cHigh * 16 + cLow)) (urlDecode rest)))
        | _ \<Rightarrow> None)
     else map_option ((#) c) (urlDecode cs))"

section \<open>Checksums\<close>

definition ausCRC16 :: "u16 list" where
  "ausCRC16 = [
     0x0000, 0x1021, 0x2042, 0x3063, 0x4084, 0x50a5, 0x60c6, 0x70e7,
     0x8108, 0x9129, 0xa14a, 0xb16b, 0xc18c, 0xd1ad, 0xe1ce, 0xf1ef,
     0x1231, 0x0210, 0x3273, 0x2252, 0x52b5, 0x4294, 0x72f7, 0x62d6,
     0x9339, 0x8318, 0xb37b, 0xa35a, 0xd3bd, 0xc39c, 0xf3ff, 0xe3de,
     0x2462, 0x3443, 0x0420, 0x1401, 0x64e6, 0x74c7, 0x44a4, 0x5485,
     0xa56a, 0xb54b, 0x8528, 0x9509, 0xe5ee, 0xf5cf, 0xc5ac, 0xd58d,
     0x3653, 0x2672, 0x1611, 0x0630, 0x76d7, 0x66f6, 0x5695, 0x46b4,
     0xb75b, 0xa77a, 0x9719, 0x8738, 0xf7df, 0xe7fe, 0xd79d, 0xc7bc,
     0x48c4, 0x58e5, 0x6886, 0x78a7, 0x0840, 0x1861, 0x2802, 0x3823,
     0xc9cc, 0xd9ed, 0xe98e, 0xf9af, 0x8948, 0x9969, 0xa90a, 0xb92b,
     0x5af5, 0x4ad4, 0x7ab7, 0x6a96, 0x1a71, 0x0a50, 0x3a33, 0x2a12,
     0xdbfd, 0xcbdc, 0xfbbf, 0xeb9e, 0x9b79, 0x8b58, 0xbb3b, 0xab1a,
     0x6ca6, 0x7c87, 0x4ce4, 0x5cc5, 0x2c22, 0x3c03, 0x0c60, 0x1c41,
     0xedae, 0xfd8f, 0xcdec, 0xddcd, 0xad2a, 0xbd0b, 0x8d68, 0x9d49,
     0x7e97, 0x6eb6, 0x5ed5, 0x4ef4, 0x3e13, 0x2e32, 0x1e51, 0x0e70,
     0xff9f, 0xefbe, 0xdfdd, 0xcffc, 0xbf1b, 0xaf3a, 0x9f59, 0x8f78,
     0x9188, 0x81a9, 0xb1ca, 0xa1eb, 0xd10c, 0xc12d, 0xf14e, 0xe16f,
     0x1080, 0x00a1, 0x30c2, 0x20e3, 0x5004, 0x4025, 0x7046, 0x6067,
     0x83b9, 0x9398, 0xa3fb, 0xb3da, 0xc33d, 0xd31c, 0xe37f, 0xf35e,
     0x02b1, 0x1290, 0x22f3, 0x32d2, 0x4235, 0x5214, 0x6277, 0x7256,
     0xb5ea, 0xa5cb, 0x95a8, 0x8589, 0xf56e, 0xe54f, 0xd52c, 0xc50d,
     0x34e2, 0x24c3, 0x14a0, 0x0481, 0x7466, 0x6447, 0x5424, 0x4405,
     0xa7db, 0xb7fa, 0x8799, 0x97b8, 0xe75f, 0xf77e, 0xc71d, 0xd73c,
     0x26d3, 0x36f2, 0x0691, 0x16b0, 0x6657, 0x7676, 0x4615, 0x5634,
     0xd94c, 0xc96d, 0xf90e, 0xe92f, 0x99c8, 0x89e9, 0xb98a, 0xa9ab,
     0x5844, 0x4865, 0x7806, 0x6827, 0x18c0, 0x08e1, 0x3882, 0x28a3,
     0xcb7d, 0xdb5c, 0xeb3f, 0xfb1e, 0x8bf9, 0x9bd8, 0xabbb, 0xbb9a,
     0x4a75, 0x5a54, 0x6a37, 0x7a16, 0x0af1, 0x1ad0, 0x2ab3, 0x3a92,
     0xfd2e, 0xed0f, 0xdd6c, 0xcd4d, 0xbdaa, 0xad8b, 0x9de8, 0x8dc9,
     0x7c26, 0x6c07, 0x5c64, 0x4c45, 0x3ca2, 0x2c83, 0x1ce0, 0x0cc1,
     0xef1f, 0xff3e, 0xcf5d, 0xdf7c, 0xaf9b, 0xbfba, 0x8fd9, 0x9ff8,
     0x6e17, 0x7e36, 0x4e55, 0x5e74, 0x2e93, 0x3eb2, 0x0ed1, 0x1ef0]"

text \<open>The character is of type \<^verbatim>\<open>char\<close> and is extended with its sign; \<open>AND\<close> removes the sign again.\<close>

definition crc16_step :: "u16 \<Rightarrow> byte \<Rightarrow> u16" where
  "crc16_step usCRC c = push_bit 8 usCRC XOR ausCRC16 ! unat ((drop_bit 8 usCRC XOR scast c) AND 0x00ff)"

definition hashCRC16 :: "byte list \<Rightarrow> u16" where
  "hashCRC16 pszKey = foldl crc16_step 0 pszKey"

definition auiCRC32 :: "u32 list" where
  "auiCRC32 = [
     0x00000000, 0x77073096, 0xee0e612c, 0x990951ba, 0x076dc419, 0x706af48f, 0xe963a535, 0x9e6495a3,
     0x0edb8832, 0x79dcb8a4, 0xe0d5e91e, 0x97d2d988, 0x09b64c2b, 0x7eb17cbd, 0xe7b82d07, 0x90bf1d91,
     0x1db71064, 0x6ab020f2, 0xf3b97148, 0x84be41de, 0x1adad47d, 0x6ddde4eb, 0xf4d4b551, 0x83d385c7,
     0x136c9856, 0x646ba8c0, 0xfd62f97a, 0x8a65c9ec, 0x14015c4f, 0x63066cd9, 0xfa0f3d63, 0x8d080df5,
     0x3b6e20c8, 0x4c69105e, 0xd56041e4, 0xa2677172, 0x3c03e4d1, 0x4b04d447, 0xd20d85fd, 0xa50ab56b,
     0x35b5a8fa, 0x42b2986c, 0xdbbbc9d6, 0xacbcf940, 0x32d86ce3, 0x45df5c75, 0xdcd60dcf, 0xabd13d59,
     0x26d930ac, 0x51de003a, 0xc8d75180, 0xbfd06116, 0x21b4f4b5, 0x56b3c423, 0xcfba9599, 0xb8bda50f,
     0x2802b89e, 0x5f058808, 0xc60cd9b2, 0xb10be924, 0x2f6f7c87, 0x58684c11, 0xc1611dab, 0xb6662d3d,
     0x76dc4190, 0x01db7106, 0x98d220bc, 0xefd5102a, 0x71b18589, 0x06b6b51f, 0x9fbfe4a5, 0xe8b8d433,
     0x7807c9a2, 0x0f00f934, 0x9609a88e, 0xe10e9818, 0x7f6a0dbb, 0x086d3d2d, 0x91646c97, 0xe6635c01,
     0x6b6b51f4, 0x1c6c6162, 0x856530d8, 0xf262004e, 0x6c0695ed, 0x1b01a57b, 0x8208f4c1, 0xf50fc457,
     0x65b0d9c6, 0x12b7e950, 0x8bbeb8ea, 0xfcb9887c, 0x62dd1ddf, 0x15da2d49, 0x8cd37cf3, 0xfbd44c65,
     0x4db26158, 0x3ab551ce, 0xa3bc0074, 0xd4bb30e2, 0x4adfa541, 0x3dd895d7, 0xa4d1c46d, 0xd3d6f4fb,
     0x4369e96a, 0x346ed9fc, 0xad678846, 0xda60b8d0, 0x44042d73, 0x33031de5, 0xaa0a4c5f, 0xdd0d7cc9,
     0x5005713c, 0x270241aa, 0xbe0b1010, 0xc90c2086, 0x5768b525, 0x206f85b3, 0xb966d409, 0xce61e49f,
     0x5edef90e, 0x29d9c998, 0xb0d09822, 0xc7d7a8b4, 0x59b33d17, 0x2eb40d81, 0xb7bd5c3b, 0xc0ba6cad,
     0xedb88320, 0x9abfb3b6, 0x03b6e20c, 0x74b1d29a, 0xead54739, 0x9dd277af, 0x04db2615, 0x73dc1683,
     0xe3630b12, 0x94643b84, 0x0d6d6a3e, 0x7a6a5aa8, 0xe40ecf0b, 0x9309ff9d, 0x0a00ae27, 0x7d079eb1,
     0xf00f9344, 0x8708a3d2, 0x1e01f268, 0x6906c2fe, 0xf762575d, 0x806567cb, 0x196c3671, 0x6e6b06e7,
     0xfed41b76, 0x89d32be0, 0x10da7a5a, 0x67dd4acc, 0xf9b9df6f, 0x8ebeeff9, 0x17b7be43, 0x60b08ed5,
     0xd6d6a3e8, 0xa1d1937e, 0x38d8c2c4, 0x4fdff252, 0xd1bb67f1, 0xa6bc5767, 0x3fb506dd, 0x48b2364b,
     0xd80d2bda, 0xaf0a1b4c, 0x36034af6, 0x41047a60, 0xdf60efc3, 0xa867df55, 0x316e8eef, 0x4669be79,
     0xcb61b38c, 0xbc66831a, 0x256fd2a0, 0x5268e236, 0xcc0c7795, 0xbb0b4703, 0x220216b9, 0x5505262f,
     0xc5ba3bbe, 0xb2bd0b28, 0x2bb45a92, 0x5cb36a04, 0xc2d7ffa7, 0xb5d0cf31, 0x2cd99e8b, 0x5bdeae1d,
     0x9b64c2b0, 0xec63f226, 0x756aa39c, 0x026d930a, 0x9c0906a9, 0xeb0e363f, 0x72076785, 0x05005713,
     0x95bf4a82, 0xe2b87a14, 0x7bb12bae, 0x0cb61b38, 0x92d28e9b, 0xe5d5be0d, 0x7cdcefb7, 0x0bdbdf21,
     0x86d3d2d4, 0xf1d4e242, 0x68ddb3f8, 0x1fda836e, 0x81be16cd, 0xf6b9265b, 0x6fb077e1, 0x18b74777,
     0x88085ae6, 0xff0f6a70, 0x66063bca, 0x11010b5c, 0x8f659eff, 0xf862ae69, 0x616bffd3, 0x166ccf45,
     0xa00ae278, 0xd70dd2ee, 0x4e048354, 0x3903b3c2, 0xa7672661, 0xd06016f7, 0x4969474d, 0x3e6e77db,
     0xaed16a4a, 0xd9d65adc, 0x40df0b66, 0x37d83bf0, 0xa9bcae53, 0xdebb9ec5, 0x47b2cf7f, 0x30b5ffe9,
     0xbdbdf21c, 0xcabac28a, 0x53b39330, 0x24b4a3a6, 0xbad03605, 0xcdd70693, 0x54de5729, 0x23d967bf,
     0xb3667a2e, 0xc4614ab8, 0x5d681b02, 0x2a6f2b94, 0xb40bbe37, 0xc30c8ea1, 0x5a05df1b, 0x2d02ef8d]"

definition crc32_step :: "u32 \<Rightarrow> byte \<Rightarrow> u32" where
  "crc32_step uiCRC c = auiCRC32 ! unat ((uiCRC XOR ucast c) AND 0xFF) XOR drop_bit 8 uiCRC"

definition hashCRC32 :: "byte list \<Rightarrow> u32" where
  "hashCRC32 pszKey = foldl crc32_step (NOT 0) pszKey XOR NOT 0"

section \<open>The checksums bit by bit\<close>

text \<open>
  Division by the generator polynomial, one bit of the message at a time: \<open>x ^ 16 + x ^ 12 + x ^ 5 + 1\<close> with the highest bit first, and the polynomial of
  \<open>IEEE 802.3\<close> with the lowest bit first.
\<close>

definition crc16_bit :: "u16 \<Rightarrow> u16" where "crc16_bit c = push_bit 1 c XOR (if bit c 15 then 0x1021 else 0)"

definition crc16_byte :: "u16 \<Rightarrow> byte \<Rightarrow> u16" where "crc16_byte c b = (crc16_bit ^^ 8) (c XOR push_bit 8 (ucast b))"

definition crc32_bit :: "u32 \<Rightarrow> u32" where "crc32_bit c = drop_bit 1 c XOR (if bit c 0 then 0xedb88320 else 0)"

definition crc32_byte :: "u32 \<Rightarrow> byte \<Rightarrow> u32" where "crc32_byte c b = (crc32_bit ^^ 8) (c XOR ucast b)"

lemma crc16_bit_xor: "crc16_bit (a XOR b) = crc16_bit a XOR crc16_bit b"
  by (simp add: crc16_bit_def push_bit_xor bit_simps ac_simps)

lemma crc32_bit_xor: "crc32_bit (a XOR b) = crc32_bit a XOR crc32_bit b"
  by (simp add: crc32_bit_def drop_bit_xor bit_simps ac_simps)

lemma funpow_xor:
  fixes f :: "'a::len word \<Rightarrow> 'a word"
  assumes "\<And>a b. f (a XOR b) = f a XOR f b"
  shows "(f ^^ n) (a XOR b) = (f ^^ n) a XOR (f ^^ n) b"
  by (induction n) (simp_all add: assms)

lemma crc16_bit_numeral:
  "crc16_bit 0 = 0" "crc16_bit 1 = 2"
  "crc16_bit (numeral n) = push_bit 1 (numeral n) XOR (if bit (numeral n :: u16) 15 then 0x1021 else 0)"
  by (simp_all add: crc16_bit_def)

lemma crc32_bit_numeral:
  "crc32_bit 0 = 0" "crc32_bit 1 = 0xedb88320"
  "crc32_bit (numeral n) = drop_bit 1 (numeral n) XOR (if bit (numeral n :: u32) 0 then 0xedb88320 else 0)"
  by (simp_all add: crc32_bit_def)

lemma funpow_8: "(f ^^ 8) x = f (f (f (f (f (f (f (f x)))))))"
  by (simp add: numeral_eq_Suc)

lemma ausCRC16_bits: "ausCRC16 = map (\<lambda>n. (crc16_bit ^^ 8) (push_bit 8 (of_nat n))) [0..<256]"
  by (simp add: ausCRC16_def funpow_8 crc16_bit_numeral upt_rec)

lemma auiCRC32_bits: "auiCRC32 = map (\<lambda>n. (crc32_bit ^^ 8) (of_nat n)) [0..<256]"
  by (simp add: auiCRC32_def funpow_8 crc32_bit_numeral upt_rec)

lemma funpow_keeps:
  fixes f :: "'a::len word \<Rightarrow> 'a word"
  assumes "\<And>a. f a = 0 \<Longrightarrow> a = 0"
  shows "(f ^^ n) a = 0 \<Longrightarrow> a = 0"
  by (induction n) (auto dest: assms)

lemma bit_crc16_bit: "bit (crc16_bit c) n \<longleftrightarrow> (0 < n \<and> n < 16 \<and> bit c (n - 1)) \<noteq> (bit c 15 \<and> bit (0x1021 :: u16) n)"
  unfolding crc16_bit_def bit_xor_iff bit_push_bit_iff by (cases n) (auto dest: bit_imp_le_length)

lemma crc16_bit_nonzero: "crc16_bit c = 0 \<Longrightarrow> c = 0"
proof (rule bit_word_eqI)
  fix n
  assume z: "crc16_bit c = 0" and n: "n < LENGTH(16)"
  have "\<not> bit c 15" using arg_cong [OF z, of "\<lambda>w. bit w 0"] by (simp add: bit_crc16_bit)
  moreover from this have "n < 15 \<Longrightarrow> \<not> bit c n" using arg_cong [OF z, of "\<lambda>w. bit w (Suc n)"] by (auto simp: bit_crc16_bit)
  moreover have "n < 15 \<or> n = 15" using n by auto
  ultimately show "bit c n = bit 0 n" by auto
qed

lemma crc32_bit_nonzero: "crc32_bit c = 0 \<Longrightarrow> c = 0"
proof (rule bit_word_eqI)
  fix n
  assume z: "crc32_bit c = 0" and n: "n < LENGTH(32)"
  have b: "\<not> bit c 32" by (auto dest: bit_imp_le_length)
  have l: "\<not> bit c 0" using arg_cong [OF z, of "\<lambda>w. bit w 31"] b by (auto simp: crc32_bit_def bit_simps split: if_splits)
  then have "\<not> bit c (Suc m)" for m using arg_cong [OF z, of "\<lambda>w. bit w m"] by (auto simp: crc32_bit_def bit_simps)
  with l show "bit c n = bit 0 n" by (cases n) auto
qed

lemma crc16_low: "(crc16_bit ^^ 8) (ucast (b :: byte)) = push_bit 8 (ucast b)"
proof -
  have "n \<le> 8 \<Longrightarrow> (crc16_bit ^^ n) (ucast b) = push_bit n (ucast b)" for n
  proof (induction n)
    case (Suc n)
    have "\<not> bit (push_bit n (ucast b :: u16)) 15" using Suc.prems by (auto simp: bit_simps dest: bit_imp_le_length)
    then have "crc16_bit (push_bit n (ucast b)) = push_bit 1 (push_bit n (ucast b))" unfolding crc16_bit_def by simp
    then show ?case using Suc unfolding push_bit_push_bit by simp
  qed simp
  then show ?thesis by simp
qed

lemma crc32_high: "(crc32_bit ^^ 8) (push_bit 8 c) = drop_bit 8 (push_bit 8 c)"
proof -
  have "n \<le> 8 \<Longrightarrow> (crc32_bit ^^ n) (push_bit 8 c) = drop_bit n (push_bit 8 c)" for n
  proof (induction n)
    case (Suc n)
    have "\<not> bit (drop_bit n (push_bit 8 c)) 0" using Suc.prems by (auto simp: bit_simps)
    then show ?case using Suc by (simp add: crc32_bit_def drop_bit_drop_bit)
  qed simp
  then show ?thesis by simp
qed

lemma and_ff: "(x :: 'a::len word) AND 0xff = take_bit 8 x"
  by (simp add: take_bit_eq_mask mask_eq_exp_minus_1)

lemma of_nat_unat_ucast: "of_nat (unat (b :: byte)) = (ucast b :: 'a::len word)"
  by simp

lemma unat_ucast_16: "unat (ucast (b :: byte) :: u16) = unat b"
proof -
  have "unat b < 2 ^ 16" by (rule less_trans [OF unat_byte_less]) simp
  then show ?thesis by (simp add: unsigned_ucast_eq take_bit_nat_eq_self)
qed

lemma crc16_step_eq: "crc16_step c b = crc16_byte c b"
proof -
  let ?F = "crc16_bit ^^ 8" and ?h = "ucast (drop_bit 8 c) XOR b :: byte" and ?l = "ucast c :: byte"
  have i: "unat ((drop_bit 8 c XOR scast b) AND 0x00ff) = unat ?h"
  proof -
    have "(drop_bit 8 c XOR scast b) AND 0x00ff = (ucast ?h :: u16)"
    proof (unfold and_ff, rule bit_word_eqI)
      fix n
      show "bit (take_bit 8 (drop_bit 8 c XOR scast b)) n = bit (ucast ?h :: u16) n"
      proof (cases "n < 8")
        case True
        then have "min 7 n = n" by simp
        then show ?thesis using True by (auto simp: bit_simps)
      qed (auto simp: bit_simps dest: bit_imp_le_length)
    qed
    then show ?thesis by (simp add: unat_ucast_16)
  qed
  have t: "ausCRC16 ! unat ?h = ?F (push_bit 8 (ucast ?h))"
    using unat_byte_less [of ?h] by (simp add: ausCRC16_bits of_nat_unat_ucast)
  have "c XOR push_bit 8 (ucast b) = push_bit 8 (ucast ?h) XOR ucast ?l"
    by (rule bit_word_eqI) (auto simp: bit_simps dest: bit_imp_le_length)
  moreover have "push_bit 8 c = push_bit 8 (ucast ?l)" by (rule bit_word_eqI) (auto simp: bit_simps)
  ultimately have "crc16_byte c b = ?F (push_bit 8 (ucast ?h)) XOR push_bit 8 c"
    by (simp add: crc16_byte_def funpow_xor [OF crc16_bit_xor] crc16_low)
  then show ?thesis unfolding crc16_step_def i t by (simp add: xor.commute)
qed

lemma crc32_step_eq: "crc32_step c b = crc32_byte c b"
proof -
  let ?F = "crc32_bit ^^ 8" and ?l = "ucast c XOR b :: byte"
  have i: "unat ((c XOR ucast b) AND 0xFF) = unat ?l"
  proof -
    have "(c XOR ucast b) AND 0xFF = (ucast ?l :: u32)"
      unfolding and_ff by (rule bit_word_eqI) (auto simp: bit_simps dest: bit_imp_le_length)
    then show ?thesis by (simp add: unat_ucast_byte)
  qed
  have t: "auiCRC32 ! unat ?l = ?F (ucast ?l)"
    using unat_byte_less [of ?l] by (simp add: auiCRC32_bits of_nat_unat_ucast)
  have "c XOR ucast b = ucast ?l XOR push_bit 8 (drop_bit 8 c)"
    by (rule bit_word_eqI) (auto simp: bit_simps dest: bit_imp_le_length)
  moreover have "drop_bit 8 (push_bit 8 (drop_bit 8 c)) = drop_bit 8 c" by (rule bit_word_eqI) (auto simp: bit_simps dest: bit_imp_le_length)
  ultimately have "crc32_byte c b = ?F (ucast ?l) XOR drop_bit 8 c"
    by (simp add: crc32_byte_def funpow_xor [OF crc32_bit_xor] crc32_high)
  then show ?thesis by (simp add: crc32_step_def i t)
qed

section \<open>What a checksum notices\<close>

text \<open>
  A checksum that is linear and loses nothing: two messages of the same length that differ only within \<open>width\<close> adjacent bytes never have the same one.
\<close>

locale linear_check =
  fixes step :: "'a::len word \<Rightarrow> byte \<Rightarrow> 'a word" and width :: nat
  assumes step_xor: "step (c XOR d) (a XOR b) = step c a XOR step d b"
    and step_nonzero: "step c 0 = 0 \<Longrightarrow> c = 0"
    and burst_nonzero: "length xs = width \<Longrightarrow> foldl step 0 xs = 0 \<Longrightarrow> set xs \<subseteq> {0}"
begin

lemma step_0: "step 0 0 = 0"
  using step_xor [of 0 0 0 0] by simp

lemma fold_xor: "length xs = length ys \<Longrightarrow> foldl step (c XOR d) (map2 (XOR) xs ys) = foldl step c xs XOR foldl step d ys"
  by (induction xs ys arbitrary: c d rule: list_induct2) (simp_all add: step_xor)

lemma fold_zeros: "foldl step c (replicate n 0) = 0 \<Longrightarrow> c = 0"
  by (induction n arbitrary: c) (auto dest: step_nonzero)

lemma zeros_fold: "foldl step 0 (replicate n 0) = 0"
  by (induction n) (simp_all add: step_0)

lemma map2_xor_self: "map2 (XOR) xs xs = replicate (length xs) (0 :: byte)"
  by (induction xs) simp_all

lemma xor_zero: "(x :: byte) XOR y = 0 \<Longrightarrow> x = y"
proof -
  assume z: "x XOR y = 0"
  have "x = (x XOR y) XOR y" by (simp add: xor.assoc)
  also have "\<dots> = y" by (simp add: z)
  finally show ?thesis .
qed

lemma map2_xor_zero: "length xs = length ys \<Longrightarrow> set (map2 (XOR) xs ys) \<subseteq> {0 :: byte} \<Longrightarrow> xs = ys"
  by (induction xs ys rule: list_induct2) (auto dest: xor_zero)

lemma notices_burst:
  assumes "length d = length d'" "length d \<le> width" "foldl step c (p @ d @ s) = foldl step c (p @ d' @ s)"
  shows "d = d'"
proof -
  let ?e = "map2 (XOR) d d'" and ?c = "foldl step c p"
  have "foldl step ?c (d @ s) = foldl step ?c (d' @ s)" using assms(3) by simp
  then have "foldl step (?c XOR ?c) (map2 (XOR) (d @ s) (d' @ s)) = 0" using fold_xor [of "d @ s" "d' @ s" ?c ?c] assms(1) by simp
  then have "foldl step 0 (?e @ replicate (length s) 0) = 0" using assms(1) by (simp add: map2_xor_self)
  then have "foldl step 0 ?e = 0" using fold_zeros by simp
  then have "foldl step 0 (?e @ replicate (width - length d) 0) = 0" using zeros_fold by simp
  then have "set (?e @ replicate (width - length d) 0) \<subseteq> {0}" using assms(1,2) by (intro burst_nonzero) simp_all
  then show ?thesis using map2_xor_zero [OF assms(1)] by simp
qed

end

lemma crc16_byte_xor: "crc16_byte (c XOR d) (a XOR b) = crc16_byte c a XOR crc16_byte d b"
  by (simp add: crc16_byte_def funpow_xor [OF crc16_bit_xor, symmetric] unsigned_xor_eq push_bit_xor ac_simps)

lemma crc32_byte_xor: "crc32_byte (c XOR d) (a XOR b) = crc32_byte c a XOR crc32_byte d b"
  by (simp add: crc32_byte_def funpow_xor [OF crc32_bit_xor, symmetric] unsigned_xor_eq ac_simps)

lemma crc16_burst: "crc16_byte (crc16_byte 0 a) b = 0 \<Longrightarrow> a = 0 \<and> b = 0"
proof -
  let ?F = "crc16_bit ^^ 8" and ?w = "push_bit 8 (ucast a) XOR ucast b :: u16"
  assume "crc16_byte (crc16_byte 0 a) b = 0"
  then have "?F (?F ?w) = 0" by (simp add: crc16_byte_def funpow_xor [OF crc16_bit_xor] crc16_low)
  then have w: "?w = 0" using funpow_keeps [OF crc16_bit_nonzero] by blast
  have "bit a n = bit 0 n \<and> bit b n = bit 0 n" if "n < 8" for n
    using arg_cong [OF w, of "\<lambda>w. bit w n"] arg_cong [OF w, of "\<lambda>w. bit w (n + 8)"] that by (auto simp: bit_simps dest: bit_imp_le_length)
  then show ?thesis by (auto intro!: bit_word_eqI)
qed

lemma crc32_burst:
  assumes "foldl crc32_byte 0 [a, b, c, d] = 0"
  shows "a = 0 \<and> b = 0 \<and> c = 0 \<and> d = 0"
proof -
  let ?F = "crc32_bit ^^ 8" and ?w = "ucast a XOR push_bit 8 (ucast b) XOR push_bit 16 (ucast c) XOR push_bit 24 (ucast d) :: u32"
  have f: "?F (push_bit (n + 8) (ucast x)) = push_bit n (ucast (x :: byte))" if "n \<le> 16" for n x
  proof -
    have "drop_bit 8 (push_bit 8 (push_bit n (ucast x))) = (push_bit n (ucast x) :: u32)"
      using that by (intro bit_word_eqI) (auto simp: bit_simps dest: bit_imp_le_length)
    then show ?thesis using crc32_high [of "push_bit n (ucast x)"] by (simp add: add.commute)
  qed
  have k: "?F v = 0 \<Longrightarrow> v = 0" for v by (rule funpow_keeps [OF crc32_bit_nonzero])
  have "?F (?F (?F (?F ?w))) = foldl crc32_byte 0 [a, b, c, d]"
    using f [of 0 b] f [of 8 c] f [of 0 c] f [of 16 d] f [of 8 d] f [of 0 d]
    by (simp add: crc32_byte_def funpow_xor [OF crc32_bit_xor] xor.assoc)
  then have "?F (?F (?F (?F ?w))) = 0" using assms by simp
  then have w: "?w = 0" by (rule k [OF k [OF k [OF k]]])
  have "bit a n = bit 0 n \<and> bit b n = bit 0 n \<and> bit c n = bit 0 n \<and> bit d n = bit 0 n" if "n < 8" for n
    using arg_cong [OF w, of "\<lambda>w. bit w n"] arg_cong [OF w, of "\<lambda>w. bit w (n + 8)"] arg_cong [OF w, of "\<lambda>w. bit w (n + 16)"]
      arg_cong [OF w, of "\<lambda>w. bit w (n + 24)"] that by (auto simp: bit_simps dest: bit_imp_le_length)
  then show ?thesis by (auto intro!: bit_word_eqI)
qed

lemma crc16_byte_nonzero: "crc16_byte c 0 = 0 \<Longrightarrow> c = 0"
  using funpow_keeps [OF crc16_bit_nonzero, where n = 8 and a = c] by (simp add: crc16_byte_def)

lemma crc32_byte_nonzero: "crc32_byte c 0 = 0 \<Longrightarrow> c = 0"
  using funpow_keeps [OF crc32_bit_nonzero, where n = 8 and a = c] by (simp add: crc32_byte_def)

lemma length_is_2: "length xs = 2 \<Longrightarrow> \<exists>a b. xs = [a, b]"
  by (auto simp: numeral_eq_Suc length_Suc_conv)

lemma length_is_4: "length xs = 4 \<Longrightarrow> \<exists>a b c d. xs = [a, b, c, d]"
  by (auto simp: numeral_eq_Suc length_Suc_conv)

interpretation crc16: linear_check crc16_step 2
proof
  show "crc16_step (c XOR d) (a XOR b) = crc16_step c a XOR crc16_step d b" for c d a b
    by (simp add: crc16_step_eq crc16_byte_xor)
  show "crc16_step c 0 = 0 \<Longrightarrow> c = 0" for c using crc16_byte_nonzero by (simp add: crc16_step_eq)
  show "length xs = 2 \<Longrightarrow> foldl crc16_step 0 xs = 0 \<Longrightarrow> set xs \<subseteq> {0}" for xs
    by (drule length_is_2) (auto simp: crc16_step_eq dest: crc16_burst)
qed

interpretation crc32: linear_check crc32_step 4
proof
  show "crc32_step (c XOR d) (a XOR b) = crc32_step c a XOR crc32_step d b" for c d a b
    by (simp add: crc32_step_eq crc32_byte_xor)
  show "crc32_step c 0 = 0 \<Longrightarrow> c = 0" for c using crc32_byte_nonzero by (simp add: crc32_step_eq)
  show "set xs \<subseteq> {0}" if "length xs = 4" "foldl crc32_step 0 xs = 0" for xs
  proof -
    have e: "crc32_step = crc32_byte" using crc32_step_eq by blast
    from that(1) obtain a b c d where x: "xs = [a, b, c, d]" using length_is_4 by blast
    show ?thesis using crc32_burst [of a b c d] that(2) unfolding x e by auto
  qed
qed

section \<open>The properties\<close>

text \<open>
  C35. The checksums are those of their generator polynomials, computed bit by bit, and they notice small changes: strings that differ only within two
  adjacent bytes never have the same checksum of 16 bits, strings that differ only within four adjacent bytes never the same of 32 bits.
\<close>

theorem crc_correct:
  "hashCRC16 m = foldl crc16_byte 0 m \<and> hashCRC32 m = NOT (foldl crc32_byte (NOT 0) m)
   \<and> (length d = length d' \<and> length d \<le> 2 \<and> d \<noteq> d' \<longrightarrow> hashCRC16 (p @ d @ s) \<noteq> hashCRC16 (p @ d' @ s))
   \<and> (length d = length d' \<and> length d \<le> 4 \<and> d \<noteq> d' \<longrightarrow> hashCRC32 (p @ d @ s) \<noteq> hashCRC32 (p @ d' @ s))"
proof -
  have e: "crc16_step = crc16_byte" "crc32_step = crc32_byte" using crc16_step_eq crc32_step_eq by blast+
  have n: "x XOR NOT 0 = NOT x" "x XOR NOT 0 = y XOR NOT 0 \<longleftrightarrow> x = y" for x y :: u32 by simp_all
  show ?thesis
    using crc16.notices_burst [of d d' 0 p s] crc32.notices_burst [of d d' "NOT 0" p s] n(2)
    unfolding hashCRC16_def hashCRC32_def n(1) e bit.compl_eq_compl_iff by blast
qed

text \<open>The usual test value of both checksums, for the string \<^verbatim>\<open>123456789\<close>, with the last two digits exchanged in the second string.\<close>

lemma crc16_check_value: "hashCRC16 [0x31, 0x32, 0x33, 0x34, 0x35, 0x36, 0x37, 0x38, 0x39] = 0x31c3"
  by (simp add: hashCRC16_def crc16_step_def ausCRC16_def)

theorem crc_correct_witness:
  "hashCRC16 [0x31, 0x32, 0x33, 0x34, 0x35, 0x36, 0x37, 0x38, 0x39] = 0x31c3
   \<and> hashCRC16 [0x31, 0x32, 0x33, 0x34, 0x35, 0x36, 0x37, 0x39, 0x38] \<noteq> 0x31c3
   \<and> hashCRC32 ([0x31, 0x32] @ [0x33, 0x34, 0x35, 0x36] @ [0x37]) \<noteq> hashCRC32 ([0x31, 0x32] @ [0x36, 0x34, 0x35, 0x33] @ [0x37])"
  using crc_correct [of "[]" "[0x38, 0x39]" "[0x39, 0x38]" "[0x31, 0x32, 0x33, 0x34, 0x35, 0x36, 0x37]" "[]"]
    crc_correct [of "[]" "[0x33, 0x34, 0x35, 0x36]" "[0x36, 0x34, 0x35, 0x33]" "[0x31, 0x32]" "[0x37]"] crc16_check_value by simp

lemma nibble_cases: "x < 16 \<Longrightarrow> x \<in> {0, 1, 2, 3, 4, 5, 6, 7, 8, 9, 10, 11, 12, 13, 14, 15 :: byte}"
proof -
  assume "x < 16"
  then have "unat x \<in> set [0..<16]" by (simp add: word_less_nat_alt)
  then have "of_nat (unat x) \<in> {0, 1, 2, 3, 4, 5, 6, 7, 8, 9, 10, 11, 12, 13, 14, 15 :: byte}" by (auto simp: upt_rec simp del: of_nat_unat)
  then show ?thesis by simp
qed

lemma hex_digit: "x < 16 \<Longrightarrow> fromHex (toHex x) = Some x"
  by (drule nibble_cases) (elim insertE emptyE; simp add: fromHex_def toHex_def)

lemma hex_alnum: "x < 16 \<Longrightarrow> is_alnum (toHex x)"
  by (drule nibble_cases) (elim insertE emptyE; simp add: is_alnum_def toHex_def)

lemma hex_parts: "drop_bit 4 c < 16" "c mod 16 < 16" "drop_bit 4 c * 16 + c mod 16 = c" for c :: byte
proof -
  have "unat c div 16 < 16" using unat_byte_less [of c] by linarith
  then show "drop_bit 4 c < 16" by (simp add: word_less_nat_alt drop_bit_eq_div unat_div)
  show "c mod 16 < 16" by (simp add: word_less_nat_alt unat_mod)
  show "drop_bit 4 c * 16 + c mod 16 = c" unfolding drop_bit_eq_div using div_mult_mod_eq [of c 16] by simp
qed

text \<open>
  Every string survives percent-encoding, and the encoded string holds only letters, digits and the characters \<^verbatim>\<open>- _ . ~ + %\<close>.
\<close>

theorem url_roundtrip:
  "urlDecode (urlEncode s) = Some s \<and> set (urlEncode s) \<subseteq> {c. is_alnum c} \<union> {45, 95, 46, 126, 43, 37}"
proof -
  have "urlDecode (urlEncode s) = Some s"
  proof (induction s)
    case (Cons c s)
    then show ?case using hex_digit [OF hex_parts(1) [of c]] hex_digit [OF hex_parts(2) [of c]] hex_parts(3) [of c]
      by (auto simp: is_alnum_def)
  qed simp
  moreover have "set (urlEncode s) \<subseteq> {c. is_alnum c} \<union> {45, 95, 46, 126, 43, 37}"
    by (induction s) (auto simp: hex_alnum hex_parts)
  ultimately show ?thesis by blast
qed

end
