(* ===== verification/Q_Binary.thy ===== *)
theory Q_Binary
  imports Comm_Encrypt
begin

text \<open>
  \<^verbatim>\<open>QBase/Binary.cpp\<close>: \<^verbatim>\<open>CLuaBinary\<close>, with which scripts write numbers and strings into a message and read them again. Shorts, integers and
  characters are words of their width, floating-point numbers the words that represent them. The functions for
  integers of 64 bits, which convert from and to text, and those that walk tables of the scripts are not modelled.
\<close>

section \<open>State and writing\<close>

text \<open>
  The buffer to parse is memory of which the first \<^verbatim>\<open>m_iParseBufLens\<close> bytes are the message; what follows is whatever lies behind it.
\<close>

record lua_binary =
  m_pParseBuffer :: "byte list option"
  m_iParseBufLens :: nat
  m_iCurParseLens :: nat
  m_objWritBuffer :: cbuffer

definition CLuaBinary_init :: "allocator \<Rightarrow> lua_binary" where
  "CLuaBinary_init alloc = \<lparr>m_pParseBuffer = None, m_iParseBufLens = 0, m_iCurParseLens = 0, m_objWritBuffer = CBuffer_init alloc\<rparr>"

definition bin_setBuffer :: "byte list \<Rightarrow> nat \<Rightarrow> lua_binary \<Rightarrow> lua_binary" where
  "bin_setBuffer mem iLens a = a\<lparr>m_pParseBuffer := Some mem, m_iParseBufLens := iLens, m_iCurParseLens := 0\<rparr>"

definition bin_getLens :: "lua_binary \<Rightarrow> u32" where "bin_getLens a = of_nat (m_iParseBufLens a)"

definition reSetWrite :: "lua_binary \<Rightarrow> lua_binary" where
  "reSetWrite a = a\<lparr>m_objWritBuffer := reSet (m_objWritBuffer a)\<rparr>"

text \<open>\<^verbatim>\<open>setVal\<close> catches the exception for lack of memory, which leaves a buffer without a block.\<close>

definition setVal :: "nat \<Rightarrow> allocator \<Rightarrow> byte list option \<Rightarrow> nat \<Rightarrow> lua_binary \<Rightarrow> cfault + bool \<times> lua_binary" where
  "setVal sz alloc pszBuf iLens a =
     (case pushBuff sz alloc pszBuf iLens (m_objWritBuffer a) of
        Inr b \<Rightarrow> Inr (True, a\<lparr>m_objWritBuffer := b\<rparr>)
      | Inl AllocMemory \<Rightarrow>
          Inr (False, a\<lparr>m_objWritBuffer := snd (buf_reNew alloc ((m_iOffset (m_objWritBuffer a) + iLens) mod size_mod sz) (m_objWritBuffer a))\<rparr>)
      | Inl (Fault e) \<Rightarrow> Inl e)"

definition skipWrite :: "nat \<Rightarrow> allocator \<Rightarrow> u32 \<Rightarrow> lua_binary \<Rightarrow> cfault + bool \<times> lua_binary" where
  "skipWrite sz alloc iLens a = (if iLens = 0 then Inr (True, a) else setVal sz alloc None (unat iLens) a)"

definition setSint8 :: "nat \<Rightarrow> allocator \<Rightarrow> u16 \<Rightarrow> lua_binary \<Rightarrow> cfault + bool \<times> lua_binary" where
  "setSint8 sz alloc sVal = setVal sz alloc (Some [ucast sVal]) 1"

definition setUint8 :: "nat \<Rightarrow> allocator \<Rightarrow> u16 \<Rightarrow> lua_binary \<Rightarrow> cfault + bool \<times> lua_binary" where
  "setUint8 sz alloc usVal = setVal sz alloc (Some [ucast usVal]) 1"

definition setBool :: "nat \<Rightarrow> allocator \<Rightarrow> bool \<Rightarrow> lua_binary \<Rightarrow> cfault + bool \<times> lua_binary" where
  "setBool sz alloc bVal = setVal sz alloc (Some [if bVal then 1 else 0]) 1"

definition setSint16 :: "nat \<Rightarrow> allocator \<Rightarrow> u16 \<Rightarrow> lua_binary \<Rightarrow> cfault + bool \<times> lua_binary" where
  "setSint16 sz alloc sVal = setVal sz alloc (Some (le_bytes 2 (ntohs (unat sVal)))) 2"

definition setUint16 :: "nat \<Rightarrow> allocator \<Rightarrow> u16 \<Rightarrow> lua_binary \<Rightarrow> cfault + bool \<times> lua_binary" where
  "setUint16 sz alloc usVal = setVal sz alloc (Some (le_bytes 2 (ntohs (unat usVal)))) 2"

definition setSint32 :: "nat \<Rightarrow> allocator \<Rightarrow> u32 \<Rightarrow> lua_binary \<Rightarrow> cfault + bool \<times> lua_binary" where
  "setSint32 sz alloc iVal = setVal sz alloc (Some (le_bytes 4 (ntohl (unat iVal)))) 4"

definition setUint32 :: "nat \<Rightarrow> allocator \<Rightarrow> u32 \<Rightarrow> lua_binary \<Rightarrow> cfault + bool \<times> lua_binary" where
  "setUint32 sz alloc uiVal = setVal sz alloc (Some (le_bytes 4 (ntohl (unat uiVal)))) 4"

definition setDouble :: "nat \<Rightarrow> allocator \<Rightarrow> u64 \<Rightarrow> lua_binary \<Rightarrow> cfault + bool \<times> lua_binary" where
  "setDouble sz alloc dVal = setVal sz alloc (Some (le_bytes 8 (unat dVal))) 8"

definition setFloat :: "nat \<Rightarrow> allocator \<Rightarrow> u32 \<Rightarrow> lua_binary \<Rightarrow> cfault + bool \<times> lua_binary" where
  "setFloat sz alloc fVal = setVal sz alloc (Some (le_bytes 4 (unat fVal))) 4"

text \<open>The argument of \<^verbatim>\<open>setString\<close> is what precedes the zero byte.\<close>

definition setString :: "nat \<Rightarrow> allocator \<Rightarrow> byte list \<Rightarrow> lua_binary \<Rightarrow> cfault + bool \<times> lua_binary" where
  "setString sz alloc pszVal a =
     (case setVal sz alloc (Some pszVal) (length pszVal) a of
        Inl e \<Rightarrow> Inl e
      | Inr (bOk, a) \<Rightarrow> if bOk then skipWrite sz alloc 1 a else Inr (bOk, a))"

definition setByte :: "nat \<Rightarrow> allocator \<Rightarrow> byte list \<Rightarrow> u32 \<Rightarrow> lua_binary \<Rightarrow> cfault + bool \<times> lua_binary" where
  "setByte sz alloc pszVal iLens = setVal sz alloc (Some pszVal) (unat iLens)"

definition bin_getBuffer :: "lua_binary \<Rightarrow> byte list" where "bin_getBuffer a = buf_bytes (m_objWritBuffer a)"

section \<open>Reading\<close>

definition skipRead :: "nat \<Rightarrow> u32 \<Rightarrow> lua_binary \<Rightarrow> lua_binary" where
  "skipRead sz iLens a = a\<lparr>m_iCurParseLens := (m_iCurParseLens a + unat iLens) mod size_mod sz\<rparr>"

text \<open>\<^verbatim>\<open>readNumber\<close> for a type of \<open>k\<close> bytes.\<close>

definition readNumber :: "nat \<Rightarrow> nat \<Rightarrow> lua_binary \<Rightarrow> cfault + nat \<times> lua_binary" where
  "readNumber sz k a =
     (if (m_iCurParseLens a + k) mod size_mod sz > m_iParseBufLens a then Inr (0, a)
      else case m_pParseBuffer a of
             None \<Rightarrow> Inl NullDeref
           | Some mem \<Rightarrow>
               (case load_le k (m_iCurParseLens a) mem of
                  Inl e \<Rightarrow> Inl e
                | Inr tVal \<Rightarrow> Inr (tVal, a\<lparr>m_iCurParseLens := (m_iCurParseLens a + k) mod size_mod sz\<rparr>)))"

definition getSint8 :: "nat \<Rightarrow> lua_binary \<Rightarrow> cfault + u16 \<times> lua_binary" where
  "getSint8 sz a = map_sum id (map_prod (\<lambda>v. scast (of_nat v :: byte)) id) (readNumber sz 1 a)"

definition getUint8 :: "nat \<Rightarrow> lua_binary \<Rightarrow> cfault + u16 \<times> lua_binary" where
  "getUint8 sz a = map_sum id (map_prod (\<lambda>v. ucast (of_nat v :: byte)) id) (readNumber sz 1 a)"

definition getBool :: "nat \<Rightarrow> lua_binary \<Rightarrow> cfault + bool \<times> lua_binary" where
  "getBool sz a = map_sum id (map_prod (\<lambda>v. if 0 = v then False else True) id) (readNumber sz 1 a)"

definition getSint16 :: "nat \<Rightarrow> lua_binary \<Rightarrow> cfault + u16 \<times> lua_binary" where
  "getSint16 sz a = map_sum id (map_prod (\<lambda>v. of_nat (ntohs v)) id) (readNumber sz 2 a)"

definition getUint16 :: "nat \<Rightarrow> lua_binary \<Rightarrow> cfault + u16 \<times> lua_binary" where
  "getUint16 sz a = map_sum id (map_prod (\<lambda>v. of_nat (ntohs v)) id) (readNumber sz 2 a)"

definition getSint32 :: "nat \<Rightarrow> lua_binary \<Rightarrow> cfault + u32 \<times> lua_binary" where
  "getSint32 sz a = map_sum id (map_prod (\<lambda>v. of_nat (ntohl v)) id) (readNumber sz 4 a)"

definition getUint32 :: "nat \<Rightarrow> lua_binary \<Rightarrow> cfault + u32 \<times> lua_binary" where
  "getUint32 sz a = map_sum id (map_prod (\<lambda>v. of_nat (ntohl v)) id) (readNumber sz 4 a)"

definition getDouble :: "nat \<Rightarrow> lua_binary \<Rightarrow> cfault + u64 \<times> lua_binary" where
  "getDouble sz a = map_sum id (map_prod of_nat id) (readNumber sz 8 a)"

definition getFloat :: "nat \<Rightarrow> lua_binary \<Rightarrow> cfault + u32 \<times> lua_binary" where
  "getFloat sz a = map_sum id (map_prod of_nat id) (readNumber sz 4 a)"

text \<open>\<^verbatim>\<open>getString\<close> makes a \<^verbatim>\<open>std::string\<close> of what precedes the next zero byte, wherever that is.\<close>

definition getString :: "nat \<Rightarrow> lua_binary \<Rightarrow> cfault + byte list \<times> lua_binary" where
  "getString sz a =
     (if m_iCurParseLens a \<ge> m_iParseBufLens a then Inr ([], a)
      else case m_pParseBuffer a of
             None \<Rightarrow> Inl NullDeref
           | Some mem \<Rightarrow>
               let strVal = takeWhile (\<lambda>c. c \<noteq> 0) (drop (m_iCurParseLens a) mem)
               in if m_iCurParseLens a + length strVal \<ge> length mem then Inl OutOfBounds
                  else Inr (strVal, a\<lparr>m_iCurParseLens := (m_iCurParseLens a + (length strVal + 1)) mod size_mod sz\<rparr>))"

definition getByte :: "nat \<Rightarrow> u32 \<Rightarrow> lua_binary \<Rightarrow> cfault + byte list \<times> lua_binary" where
  "getByte sz iLens a =
     (if (m_iCurParseLens a + unat iLens) mod size_mod sz > m_iParseBufLens a then Inr ([], a)
      else case m_pParseBuffer a of
             None \<Rightarrow> Inl NullDeref
           | Some mem \<Rightarrow>
               if m_iCurParseLens a + unat iLens > length mem then Inl OutOfBounds
               else Inr (take (unat iLens) (drop (m_iCurParseLens a) mem),
                         a\<lparr>m_iCurParseLens := (m_iCurParseLens a + unat iLens) mod size_mod sz\<rparr>))"

section \<open>Messages\<close>

text \<open>A message as a script makes it: values of the types above, one after the other, and what a script does to read one of a type.\<close>

datatype bin_val = VSint8 u16 | VUint8 u16 | VBool bool | VSint16 u16 | VUint16 u16 | VSint32 u32 | VUint32 u32
  | VDouble u64 | VFloat u32 | VString "byte list" | VByte "byte list" | VSkip u32

fun bin_put :: "nat \<Rightarrow> allocator \<Rightarrow> bin_val \<Rightarrow> lua_binary \<Rightarrow> cfault + bool \<times> lua_binary" where
  "bin_put sz alloc (VSint8 v) = setSint8 sz alloc v"
| "bin_put sz alloc (VUint8 v) = setUint8 sz alloc v"
| "bin_put sz alloc (VBool v) = setBool sz alloc v"
| "bin_put sz alloc (VSint16 v) = setSint16 sz alloc v"
| "bin_put sz alloc (VUint16 v) = setUint16 sz alloc v"
| "bin_put sz alloc (VSint32 v) = setSint32 sz alloc v"
| "bin_put sz alloc (VUint32 v) = setUint32 sz alloc v"
| "bin_put sz alloc (VDouble v) = setDouble sz alloc v"
| "bin_put sz alloc (VFloat v) = setFloat sz alloc v"
| "bin_put sz alloc (VString v) = setString sz alloc v"
| "bin_put sz alloc (VByte v) = setByte sz alloc v (of_nat (length v))"
| "bin_put sz alloc (VSkip v) = skipWrite sz alloc v"

fun bin_get :: "nat \<Rightarrow> bin_val \<Rightarrow> lua_binary \<Rightarrow> cfault + bin_val \<times> lua_binary" where
  "bin_get sz (VSint8 _) a = map_sum id (map_prod VSint8 id) (getSint8 sz a)"
| "bin_get sz (VUint8 _) a = map_sum id (map_prod VUint8 id) (getUint8 sz a)"
| "bin_get sz (VBool _) a = map_sum id (map_prod VBool id) (getBool sz a)"
| "bin_get sz (VSint16 _) a = map_sum id (map_prod VSint16 id) (getSint16 sz a)"
| "bin_get sz (VUint16 _) a = map_sum id (map_prod VUint16 id) (getUint16 sz a)"
| "bin_get sz (VSint32 _) a = map_sum id (map_prod VSint32 id) (getSint32 sz a)"
| "bin_get sz (VUint32 _) a = map_sum id (map_prod VUint32 id) (getUint32 sz a)"
| "bin_get sz (VDouble _) a = map_sum id (map_prod VDouble id) (getDouble sz a)"
| "bin_get sz (VFloat _) a = map_sum id (map_prod VFloat id) (getFloat sz a)"
| "bin_get sz (VString _) a = map_sum id (map_prod VString id) (getString sz a)"
| "bin_get sz (VByte v) a = map_sum id (map_prod VByte id) (getByte sz (of_nat (length v)) a)"
| "bin_get sz (VSkip v) a = Inr (VSkip v, skipRead sz v a)"

fun bin_put_all :: "nat \<Rightarrow> allocator \<Rightarrow> bin_val list \<Rightarrow> lua_binary \<Rightarrow> cfault + bool \<times> lua_binary" where
  "bin_put_all sz alloc [] a = Inr (True, a)"
| "bin_put_all sz alloc (v # vs) a =
     (case bin_put sz alloc v a of Inl e \<Rightarrow> Inl e | Inr (bOk, a) \<Rightarrow> if bOk then bin_put_all sz alloc vs a else Inr (False, a))"

fun bin_get_all :: "nat \<Rightarrow> bin_val list \<Rightarrow> lua_binary \<Rightarrow> cfault + bin_val list \<times> lua_binary" where
  "bin_get_all sz [] a = Inr ([], a)"
| "bin_get_all sz (v # vs) a =
     (case bin_get sz v a of Inl e \<Rightarrow> Inl e | Inr (x, a) \<Rightarrow> map_sum id (map_prod ((#) x) id) (bin_get_all sz vs a))"

text \<open>The format: numbers of 16 and 32 bits with the highest byte first, floating-point numbers as the host has them.\<close>

fun bin_bytes :: "bin_val \<Rightarrow> byte list" where
  "bin_bytes (VSint8 v) = [ucast v]"
| "bin_bytes (VUint8 v) = [ucast v]"
| "bin_bytes (VBool v) = [if v then 1 else 0]"
| "bin_bytes (VSint16 v) = be_bytes 2 (unat v)"
| "bin_bytes (VUint16 v) = be_bytes 2 (unat v)"
| "bin_bytes (VSint32 v) = be_bytes 4 (unat v)"
| "bin_bytes (VUint32 v) = be_bytes 4 (unat v)"
| "bin_bytes (VDouble v) = le_bytes 8 (unat v)"
| "bin_bytes (VFloat v) = le_bytes 4 (unat v)"
| "bin_bytes (VString v) = v @ [0]"
| "bin_bytes (VByte v) = v"
| "bin_bytes (VSkip v) = replicate (unat v) 0"

text \<open>Values that fit: small numbers within a byte, strings without a zero byte, byte strings with a length of 32 bits.\<close>

fun bin_fits :: "bin_val \<Rightarrow> bool" where
  "bin_fits (VSint8 v) \<longleftrightarrow> scast (ucast v :: byte) = v"
| "bin_fits (VUint8 v) \<longleftrightarrow> ucast (ucast v :: byte) = v"
| "bin_fits (VString v) \<longleftrightarrow> 0 \<notin> set v"
| "bin_fits (VByte v) \<longleftrightarrow> length v < 2 ^ 32"
| "bin_fits _ \<longleftrightarrow> True"

definition bin_ready :: "lua_binary \<Rightarrow> bool" where "bin_ready a \<longleftrightarrow> buf_inv (m_objWritBuffer a)"

lemma setVal_ok:
  assumes "alloc_ok alloc" "bin_ready a" "length (bin_getBuffer a) + length xs < size_mod sz"
  shows "\<exists>a'. setVal sz alloc (Some xs) (length xs) a = Inr (True, a') \<and> bin_ready a' \<and> bin_getBuffer a' = bin_getBuffer a @ xs"
  using pushBuff_ok [OF assms(1), of "m_objWritBuffer a" xs sz] assms(2,3) by (auto simp: setVal_def bin_ready_def bin_getBuffer_def)

lemma setVal_zeros: "setVal sz alloc None n = setVal sz alloc (Some (replicate n 0)) n"
  by (simp add: setVal_def pushBuff_def fun_eq_iff cong: option.case_cong)

lemma le_bytes_ntoh: "le_bytes 2 (ntohs v) = be_bytes 2 v" "le_bytes 4 (ntohl v) = be_bytes 4 v"
  by (simp_all add: ntohs_def ntohl_def byte_simps)

lemma bin_put_setVal:
  assumes "bin_fits v" "\<forall>s. v \<noteq> VString s" "v \<noteq> VSkip 0"
  shows "bin_put sz alloc v = setVal sz alloc (Some (bin_bytes v)) (length (bin_bytes v))"
  using assms
  by (cases v) (simp_all add: setSint8_def setUint8_def setBool_def setSint16_def setUint16_def setSint32_def setUint32_def setDouble_def setFloat_def
      setByte_def skipWrite_def le_bytes_ntoh setVal_zeros unat_of_nat take_bit_nat_eq_self fun_eq_iff)

lemma bin_put_ok:
  assumes "alloc_ok alloc" "bin_ready a" "bin_fits v" "length (bin_getBuffer a) + length (bin_bytes v) < size_mod sz"
  shows "\<exists>a'. bin_put sz alloc v a = Inr (True, a') \<and> bin_ready a' \<and> bin_getBuffer a' = bin_getBuffer a @ bin_bytes v"
proof (cases "(\<exists>s. v = VString s) \<or> v = VSkip 0")
  case False
  then show ?thesis using bin_put_setVal [OF assms(3)] setVal_ok [OF assms(1,2,4)] by simp
next
  case True
  then show ?thesis
  proof
    assume "\<exists>s. v = VString s"
    then obtain s where v: "v = VString s" by blast
    obtain a1 where a1: "setVal sz alloc (Some s) (length s) a = Inr (True, a1)" "bin_ready a1" "bin_getBuffer a1 = bin_getBuffer a @ s"
      using setVal_ok [OF assms(1,2), of s sz] assms(4) v by auto
    then show ?thesis using setVal_ok [OF assms(1) a1(2), of "[0]" sz] assms(4) v
      by (auto simp: setString_def skipWrite_def setVal_zeros)
  qed (use assms in \<open>simp add: skipWrite_def\<close>)
qed

lemma bin_put_all_ok:
  assumes "alloc_ok alloc" "bin_ready a" "\<forall>v \<in> set vs. bin_fits v" "length (bin_getBuffer a) + length (concat (map bin_bytes vs)) < size_mod sz"
  shows "\<exists>a'. bin_put_all sz alloc vs a = Inr (True, a') \<and> bin_ready a' \<and> bin_getBuffer a' = bin_getBuffer a @ concat (map bin_bytes vs)"
  using assms(2-)
proof (induction vs arbitrary: a)
  case (Cons v vs)
  then obtain a1 where "bin_put sz alloc v a = Inr (True, a1)" "bin_ready a1" "bin_getBuffer a1 = bin_getBuffer a @ bin_bytes v"
    using bin_put_ok [OF assms(1) Cons.prems(1), of v sz] by auto
  then show ?case using Cons.IH [of a1] Cons.prems by auto
qed simp

lemma readNumber_at:
  assumes "m_pParseBuffer a = Some (pre @ xs @ rest)" "m_iCurParseLens a = length pre" "length pre + length xs \<le> m_iParseBufLens a" "m_iParseBufLens a < size_mod sz"
  shows "readNumber sz (length xs) a = Inr (le_val xs, a\<lparr>m_iCurParseLens := length pre + length xs\<rparr>)"
  using assms by (simp add: readNumber_def)

lemma ntoh_back: "of_nat (ntohs (le_val (be_bytes 2 (unat (v :: u16))))) = v" "of_nat (ntohl (le_val (be_bytes 4 (unat (w :: u32))))) = w"
proof -
  have "unat v < 256 ^ 2" "unat w < 256 ^ 4" using unsigned_less [of v] unsigned_less [of w] by simp_all
  then show "of_nat (ntohs (le_val (be_bytes 2 (unat v)))) = v" "of_nat (ntohl (le_val (be_bytes 4 (unat w)))) = w"
    by (simp_all add: ntohs_def ntohl_def bswap_le_val be_val_be_bytes)
qed

lemma host_back: "of_nat (le_val (le_bytes 8 (unat (v :: u64)))) = v" "of_nat (le_val (le_bytes 4 (unat (w :: u32)))) = w"
proof -
  have "unat v < 256 ^ 8" "unat w < 256 ^ 4" using unsigned_less [of v] unsigned_less [of w] by simp_all
  then show "of_nat (le_val (le_bytes 8 (unat v))) = v" "of_nat (le_val (le_bytes 4 (unat w))) = w" by (simp_all add: le_val_le_bytes)
qed

lemma takeWhile_zero: "0 \<notin> set s \<Longrightarrow> takeWhile (\<lambda>c. c \<noteq> 0) (s @ 0 # rest) = (s :: byte list)"
  by (induction s) auto

lemma bin_get_at:
  assumes "m_pParseBuffer a = Some (pre @ bin_bytes v @ rest)" "m_iCurParseLens a = length pre"
    and "length pre + length (bin_bytes v) \<le> m_iParseBufLens a" "m_iParseBufLens a < size_mod sz" "bin_fits v"
  shows "bin_get sz v a = Inr (v, a\<lparr>m_iCurParseLens := length pre + length (bin_bytes v)\<rparr>)"
proof -
  note r = readNumber_at [OF assms(1-4)]
  show ?thesis
  proof (cases v)
    case (VString s)
    then have "takeWhile (\<lambda>c. c \<noteq> 0) (s @ 0 # rest) = s" using assms(5) takeWhile_zero by simp
    then show ?thesis using assms VString by (simp add: getString_def)
  next
    case (VByte s)
    then show ?thesis using assms by (simp add: getByte_def unat_of_nat take_bit_nat_eq_self)
  next
    case (VSkip n)
    then show ?thesis using assms by (simp add: skipRead_def)
  qed (use r assms(5) in \<open>simp_all add: getSint8_def getUint8_def getBool_def getSint16_def getUint16_def getSint32_def getUint32_def getDouble_def getFloat_def
      ntoh_back host_back\<close>)
qed

lemma bin_get_all_at:
  assumes "m_pParseBuffer a = Some (pre @ concat (map bin_bytes vs) @ rest)" "m_iCurParseLens a = length pre"
    and "length pre + length (concat (map bin_bytes vs)) \<le> m_iParseBufLens a" "m_iParseBufLens a < size_mod sz" "\<forall>v \<in> set vs. bin_fits v"
  shows "bin_get_all sz vs a = Inr (vs, a\<lparr>m_iCurParseLens := length pre + length (concat (map bin_bytes vs))\<rparr>)"
  using assms
proof (induction vs arbitrary: a pre)
  case (Cons v vs)
  let ?a = "a\<lparr>m_iCurParseLens := length (pre @ bin_bytes v)\<rparr>"
  have "bin_get sz v a = Inr (v, ?a)" using bin_get_at [of a pre v "concat (map bin_bytes vs) @ rest" sz] Cons.prems by simp
  moreover have "bin_get_all sz vs ?a = Inr (vs, ?a\<lparr>m_iCurParseLens := length (pre @ bin_bytes v) + length (concat (map bin_bytes vs))\<rparr>)"
    using Cons.prems by (intro Cons.IH) simp_all
  ultimately show ?case by (simp add: add.assoc)
qed simp

section \<open>The properties\<close>

text \<open>
  C37. What a script writes another reads: values of any types, written one after the other, make exactly the bytes of the format, and reading the same types
  from a message that begins with them gives the values back and stops behind them.
\<close>

theorem binary_roundtrip:
  assumes "alloc_ok alloc" "bin_ready a" "\<forall>v \<in> set vs. bin_fits v" "bs = concat (map bin_bytes vs)"
    and "length bs + length follow < size_mod sz" "length (bs @ follow) = n"
  shows "\<exists>a'. bin_put_all sz alloc vs (reSetWrite a) = Inr (True, a') \<and> bin_getBuffer a' = bs
    \<and> bin_get_all sz vs (bin_setBuffer (bs @ follow @ behind) n b) = Inr (vs, (bin_setBuffer (bs @ follow @ behind) n b)\<lparr>m_iCurParseLens := length bs\<rparr>)"
proof -
  have "bin_ready (reSetWrite a)" "bin_getBuffer (reSetWrite a) = []"
    using buf.clear_inv [of alloc "m_objWritBuffer a"] buf.clear_bytes [of alloc "m_objWritBuffer a"] assms(1,2)
    by (simp_all add: bin_ready_def bin_getBuffer_def reSetWrite_def)
  then obtain a' where "bin_put_all sz alloc vs (reSetWrite a) = Inr (True, a')" "bin_getBuffer a' = bs"
    using bin_put_all_ok [OF assms(1), of "reSetWrite a" vs sz] assms(3-5) by auto
  moreover have "bin_get_all sz vs (bin_setBuffer (bs @ follow @ behind) n b) = Inr (vs, (bin_setBuffer (bs @ follow @ behind) n b)\<lparr>m_iCurParseLens := length bs\<rparr>)"
    using bin_get_all_at [of "bin_setBuffer (bs @ follow @ behind) n b" "[]" vs "follow @ behind" sz] assms(3-6) by (simp add: bin_setBuffer_def)
  ultimately show ?thesis by blast
qed

definition example_vals :: "bin_val list" where
  "example_vals = [VSint8 0xfffe, VUint16 0x1234, VString [104, 105], VBool True, VSkip 2, VUint32 7, VByte [0, 9]]"

lemma be_bytes_2_4:
  "be_bytes 2 v = [of_nat (v div 256 mod 256), of_nat (v mod 256)]"
  "be_bytes 4 v = [of_nat (v div 256 div 256 div 256 mod 256), of_nat (v div 256 div 256 mod 256), of_nat (v div 256 mod 256), of_nat (v mod 256)]"
proof -
  have n: "(2 :: nat) = Suc (Suc 0)" "(4 :: nat) = Suc (Suc (Suc (Suc 0)))" by simp_all
  show "be_bytes 2 v = [of_nat (v div 256 mod 256), of_nat (v mod 256)]"
    "be_bytes 4 v = [of_nat (v div 256 div 256 div 256 mod 256), of_nat (v div 256 div 256 mod 256), of_nat (v div 256 mod 256), of_nat (v mod 256)]"
    unfolding be_bytes_def n le_bytes.simps by simp_all
qed

theorem binary_roundtrip_witness:
  "\<exists>a'. bin_put_all 8 zero_alloc example_vals (reSetWrite (CLuaBinary_init zero_alloc)) = Inr (True, a')
    \<and> bin_getBuffer a' = [0xfe, 0x12, 0x34, 104, 105, 0, 1, 0, 0, 0, 0, 0, 7, 0, 9]
    \<and> (\<exists>b'. bin_get_all 8 example_vals (bin_setBuffer [0xfe, 0x12, 0x34, 104, 105, 0, 1, 0, 0, 0, 0, 0, 7, 0, 9, 55] 15 (CLuaBinary_init zero_alloc)) = Inr (example_vals, b'))"
proof -
  have z: "replicate 2 (0 :: byte) = [0, 0]" by (simp add: numeral_2_eq_2)
  have b: "concat (map bin_bytes example_vals) = [0xfe, 0x12, 0x34, 104, 105, 0, 1, 0, 0, 0, 0, 0, 7, 0, 9]"
    by (simp add: example_vals_def be_bytes_2_4 z)
  have r: "bin_ready (CLuaBinary_init zero_alloc)"
    by (simp add: bin_ready_def CLuaBinary_init_def CBuffer_init_def buf_New_def zero_alloc_def buf_inv_def)
  have f: "\<forall>v \<in> set example_vals. bin_fits v" by (simp add: example_vals_def)
  show ?thesis
    using binary_roundtrip [OF zero_alloc_ok r f b [symmetric], of "[]" 8 15 "[55]" "CLuaBinary_init zero_alloc"] by (auto simp: size_mod_def)
qed

text \<open>
  C38. The ends of a message, for every size of \<^verbatim>\<open>size_t\<close>: a number that does not fit into the rest of the message is not read, and nothing moves. The same
  holds for bytes as long as the position plus the length does not wrap around \<^verbatim>\<open>size_t\<close>; when it wraps to a sum inside the message, which four bytes
  of \<^verbatim>\<open>size_t\<close> allow, the check passes and the read runs out of the memory. A string without a zero byte before the end of the message is read on behind
  it, up to the first zero byte in whatever memory follows, and out of the memory if there is none.
\<close>

theorem binary_ends:
  assumes "m_pParseBuffer a = Some (msg @ behind)" "m_iParseBufLens a = length msg" "m_iCurParseLens a \<le> length msg"
    and "length (msg @ behind) + 8 < size_mod sz"
  shows "(k \<le> 8 \<and> length msg < m_iCurParseLens a + k \<longrightarrow> readNumber sz k a = Inr (0, a))
    \<and> (length msg < m_iCurParseLens a + unat iLens \<longrightarrow> getByte sz iLens a =
         (if size_mod sz \<le> m_iCurParseLens a + unat iLens \<and> (m_iCurParseLens a + unat iLens) mod size_mod sz \<le> length msg
          then Inl OutOfBounds else Inr ([], a)))
    \<and> (m_iCurParseLens a < length msg \<and> 0 \<notin> set (drop (m_iCurParseLens a) msg) \<longrightarrow>
         (behind = s @ 0 # rest \<and> 0 \<notin> set s
            \<longrightarrow> getString sz a = Inr (drop (m_iCurParseLens a) msg @ s, a\<lparr>m_iCurParseLens := length msg + length s + 1\<rparr>))
       \<and> (0 \<notin> set behind \<longrightarrow> getString sz a = Inl OutOfBounds))"
proof (intro conjI impI)
  show "readNumber sz k a = Inr (0, a)" if "k \<le> 8 \<and> length msg < m_iCurParseLens a + k"
    using assms that by (simp add: readNumber_def)
  show "getByte sz iLens a = (if size_mod sz \<le> m_iCurParseLens a + unat iLens \<and> (m_iCurParseLens a + unat iLens) mod size_mod sz \<le> length msg
      then Inl OutOfBounds else Inr ([], a))" if n: "length msg < m_iCurParseLens a + unat iLens"
  proof (cases "size_mod sz \<le> m_iCurParseLens a + unat iLens")
    case True
    then show ?thesis using assms by (simp add: getByte_def)
  next
    case False
    then show ?thesis using assms(2) n by (simp add: getByte_def)
  qed
next
  assume z: "m_iCurParseLens a < length msg \<and> 0 \<notin> set (drop (m_iCurParseLens a) msg)"
  show "getString sz a = Inr (drop (m_iCurParseLens a) msg @ s, a\<lparr>m_iCurParseLens := length msg + length s + 1\<rparr>)"
    if "behind = s @ 0 # rest \<and> 0 \<notin> set s"
    using assms takeWhile_zero [of "drop (m_iCurParseLens a) msg @ s" rest] z that by (simp add: getString_def)
  show "getString sz a = Inl OutOfBounds" if "0 \<notin> set behind"
  proof -
    have "takeWhile (\<lambda>c. c \<noteq> 0) (drop (m_iCurParseLens a) (msg @ behind)) = drop (m_iCurParseLens a) (msg @ behind)"
      unfolding takeWhile_eq_all_conv using z that by auto
    moreover have "m_iCurParseLens a + length (drop (m_iCurParseLens a) (msg @ behind)) \<ge> length (msg @ behind)" by simp
    ultimately show ?thesis using assms(1,2) z unfolding getString_def Let_def by (simp only: option.case if_True if_False not_le [symmetric])
  qed
qed

text \<open>A message of two bytes; with a \<^verbatim>\<open>size_t\<close> of four bytes the length \<open>2\<^sup>3\<^sup>2 - 1\<close> at the second byte wraps to zero.\<close>

theorem binary_ends_witness:
  "(let a = bin_setBuffer ([65, 66] @ [67, 0]) 2 (CLuaBinary_init zero_alloc) in
     readNumber 8 4 a = Inr (0, a) \<and> getByte 8 3 a = Inr ([], a) \<and> getString 8 a = Inr ([65, 66, 67], a\<lparr>m_iCurParseLens := 4\<rparr>))
   \<and> getByte 4 0xffffffff (skipRead 4 1 (bin_setBuffer ([65, 66] @ [67, 0]) 2 (CLuaBinary_init zero_alloc))) = Inl OutOfBounds"
  using binary_ends [of "bin_setBuffer ([65, 66] @ [67, 0]) 2 (CLuaBinary_init zero_alloc)" "[65, 66]" "[67, 0]" 8 4 3 "[67]" "[]"]
    binary_ends [of "skipRead 4 1 (bin_setBuffer ([65, 66] @ [67, 0]) 2 (CLuaBinary_init zero_alloc))" "[65, 66]" "[67, 0]" 4 4 "0xffffffff"]
  by (simp add: bin_setBuffer_def skipRead_def size_mod_def Let_def)

end
