(* ===== verification/Table_File.thy ===== *)
theory Table_File
  imports QString Event_Buffer
begin

text \<open>
  \<^verbatim>\<open>QBase/TableFile.cpp\<close>: \<^verbatim>\<open>CTableFile\<close>, which reads tables from text files: a line with names and one line per row, cells separated by a string, notes and empty
  lines left out. The file is an argument, its bytes or nothing when it cannot be opened. \<^verbatim>\<open>getIntValue\<close> and \<^verbatim>\<open>getFloatValue\<close>, which convert the
  result of \<^verbatim>\<open>getStringValue\<close>, are not modelled.
\<close>

section \<open>State and parts of the parser\<close>

text \<open>
  The map from indices to names holds the indices from zero on and is the list of names. A row is an association list in which names occur once; the current
  row is an index, the number of rows standing for the end.
\<close>

type_synonym table_row = "(byte list \<times> byte list) list"

record table_file =
  tf_bEof :: bool
  tf_iRemoveCount :: nat
  tf_strSplitFlag :: "byte list"
  tf_mapTableHead :: "byte list list"
  tf_itNowRow :: nat
  tf_lstAllValue :: "table_row list"

definition CTableFile_init :: table_file where
  "CTableFile_init = \<lparr>tf_bEof = True, tf_iRemoveCount = 0, tf_strSplitFlag = [], tf_mapTableHead = [], tf_itNowRow = 0, tf_lstAllValue = []\<rparr>"

definition setSplitFlag :: "byte list \<Rightarrow> table_file \<Rightarrow> table_file" where
  "setSplitFlag pszSplitFlag t = t\<lparr>tf_strSplitFlag := pszSplitFlag\<rparr>"

definition checkNote :: "byte list \<Rightarrow> bool" where
  "checkNote strMsg \<longleftrightarrow> take 2 strMsg = [47, 47] \<or> take 1 strMsg = [35]"

definition tf_Clear :: "table_file \<Rightarrow> table_file" where
  "tf_Clear t = t\<lparr>tf_bEof := True, tf_iRemoveCount := 0, tf_mapTableHead := [], tf_lstAllValue := [], tf_itNowRow := 0\<rparr>"

text \<open>Sizes are of type \<^verbatim>\<open>size_t\<close>: the number of cells less the number of removed columns wraps around.\<close>

definition cell_limit :: "nat \<Rightarrow> nat \<Rightarrow> table_file \<Rightarrow> nat" where
  "cell_limit sz n t = (n + size_mod sz - tf_iRemoveCount t mod size_mod sz) mod size_mod sz"

definition tf_checkHead :: "nat \<Rightarrow> byte list list \<Rightarrow> table_file \<Rightarrow> bool" where
  "tf_checkHead sz lstTableHead t \<longleftrightarrow> lstTableHead \<noteq> [] \<and> (\<forall>x \<in> set (take (cell_limit sz (length lstTableHead) t) lstTableHead). x \<noteq> [])"

text \<open>The loop of \<^verbatim>\<open>parseHead\<close> over the cells up to the limit: a repeated name ends it.\<close>

fun parse_names :: "byte list list \<Rightarrow> byte list list \<Rightarrow> bool \<times> byte list list" where
  "parse_names [] mapTableHead = (True, mapTableHead)"
| "parse_names (x # xs) mapTableHead =
     (let strTmp = Q_Trim x
      in if strTmp \<in> set mapTableHead then (False, mapTableHead) else parse_names xs (mapTableHead @ [strTmp]))"

definition tf_parseHead :: "nat \<Rightarrow> byte list list \<Rightarrow> table_file \<Rightarrow> bool \<times> table_file" where
  "tf_parseHead sz lstTableHead t =
     (case parse_names (take (cell_limit sz (length lstTableHead) t) lstTableHead) (tf_mapTableHead t) of
        (ok, names) \<Rightarrow> (ok, t\<lparr>tf_mapTableHead := names\<rparr>))"

definition tf_getHead :: "nat \<Rightarrow> byte list \<Rightarrow> table_file \<Rightarrow> bool \<times> table_file" where
  "tf_getHead sz strHead t =
     (let lstTableHead = Q_Split strHead (tf_strSplitFlag t);
          t = t\<lparr>tf_iRemoveCount := tf_iRemoveCount t + length (takeWhile (\<lambda>x. x = []) (rev lstTableHead))\<rparr>
      in if \<not> tf_checkHead sz lstTableHead t then (False, t) else tf_parseHead sz lstTableHead t)"

text \<open>\<^verbatim>\<open>std::map::insert\<close>, which keeps a value that is there.\<close>

definition row_insert :: "byte list \<times> byte list \<Rightarrow> table_row \<Rightarrow> table_row" where
  "row_insert p row = (if fst p \<in> fst ` set row then row else row @ [p])"

text \<open>
  The first loop of \<^verbatim>\<open>getValue\<close> trims every cell in place, as \<^verbatim>\<open>Q_Trim\<close> changes its argument; it does nothing when there are no names.
\<close>

definition tf_getValue :: "nat \<Rightarrow> byte list \<Rightarrow> table_file \<Rightarrow> table_file" where
  "tf_getValue sz strValue t =
     (let lstValue = Q_Split strValue (tf_strSplitFlag t);
          names = tf_mapTableHead t;
          lstValue = (if names = [] then lstValue else map Q_Trim lstValue);
          bAllEmpty = (names = [] \<or> (\<forall>x \<in> set lstValue. x = []))
      in if bAllEmpty then t
         else t\<lparr>tf_lstAllValue := tf_lstAllValue t
                  @ [fold row_insert (zip names (take (cell_limit sz (length lstValue) t) lstValue)) []]\<rparr>)"

section \<open>Reading the file\<close>

text \<open>
  \<^verbatim>\<open>getline\<close> with a buffer of 2047 characters, one of them for the zero byte: the line, what is left, and whether the stream is still good, which it is not at
  the end of the file and after a line that does not fit. A line read into the buffer ends at a zero byte.
\<close>

definition line_max :: nat where "line_max = 2 * 1024 - 1 - 1"

definition getline :: "byte list \<Rightarrow> byte list \<times> byte list \<times> bool" where
  "getline bs =
     (let line = takeWhile (\<lambda>c. c \<noteq> 10) bs
      in if length line > line_max then (take line_max bs, drop line_max bs, False)
         else if length line = length bs then (line, [], False)
         else (line, drop (length line + 1) bs, True))"

definition buffer_str :: "byte list \<Rightarrow> byte list" where "buffer_str line = takeWhile (\<lambda>c. c \<noteq> 0) line"

lemma getline_less: "getline bs = (line, rest, True) \<Longrightarrow> length rest < length bs"
  using length_takeWhile_le [of "\<lambda>c. c \<noteq> 10" bs] by (auto simp: getline_def Let_def split: if_splits)

text \<open>The two loops of \<^verbatim>\<open>Parse\<close>: the head, with what is left and the state of the stream, or a failure; and the rows.\<close>

function head_loop :: "nat \<Rightarrow> byte list \<Rightarrow> bool \<Rightarrow> table_file \<Rightarrow> (byte list \<times> bool) option \<times> table_file" where
  "head_loop sz bs good t =
     (if \<not> good then (None, t)
      else case getline bs of (line, rest, good) \<Rightarrow>
        let strTmp = Q_Trim (buffer_str line)
        in if strTmp = [] \<or> checkNote strTmp then head_loop sz rest good t
           else case tf_getHead sz strTmp t of (ok, t) \<Rightarrow> (if ok then Some (rest, good) else None, t))"
  by auto
termination
  by (relation "measure (\<lambda>(sz, bs, good, t). if good then Suc (length bs) else 0)") (auto dest: getline_less [OF sym])

function rows_loop :: "nat \<Rightarrow> byte list \<Rightarrow> bool \<Rightarrow> table_file \<Rightarrow> table_file" where
  "rows_loop sz bs good t =
     (if \<not> good then t
      else case getline bs of (line, rest, good) \<Rightarrow>
        let strTmp = buffer_str line
        in rows_loop sz rest good (if strTmp = [] \<or> checkNote strTmp then t else tf_getValue sz strTmp t))"
  by auto
termination
  by (relation "measure (\<lambda>(sz, bs, good, t). if good then Suc (length bs) else 0)") (auto dest: getline_less [OF sym])

declare head_loop.simps [simp del] rows_loop.simps [simp del]

definition checkEof :: "table_file \<Rightarrow> table_file" where
  "checkEof t = t\<lparr>tf_bEof := (tf_itNowRow t = length (tf_lstAllValue t))\<rparr>"

definition tf_Parse :: "nat \<Rightarrow> byte list option \<Rightarrow> table_file \<Rightarrow> int \<times> table_file" where
  "tf_Parse sz file t =
     (let t = tf_Clear t
      in case file of
           None \<Rightarrow> (Q_RTN_FAILE, t)
         | Some bs \<Rightarrow>
             (case head_loop sz bs True (t\<lparr>tf_iRemoveCount := 0\<rparr>) of
                (None, t) \<Rightarrow> (Q_RTN_FAILE, t)
              | (Some (rest, good), t) \<Rightarrow> (Q_RTN_OK, checkEof ((rows_loop sz rest good t)\<lparr>tf_itNowRow := 0\<rparr>))))"

section \<open>Walking the rows\<close>

definition tf_eof :: "table_file \<Rightarrow> bool" where "tf_eof t = tf_bEof t"

text \<open>Moving on from the end is undefined.\<close>

definition nextRow :: "table_file \<Rightarrow> cfault + table_file" where
  "nextRow t = (if tf_itNowRow t \<ge> length (tf_lstAllValue t) then Inl OutOfBounds else Inr (checkEof (t\<lparr>tf_itNowRow := tf_itNowRow t + 1\<rparr>)))"

definition tf_reSet :: "table_file \<Rightarrow> table_file" where "tf_reSet t = checkEof (t\<lparr>tf_itNowRow := 0\<rparr>)"

definition getStringValue :: "byte list \<Rightarrow> byte list \<Rightarrow> table_file \<Rightarrow> byte list" where
  "getStringValue pszName pszDefault t =
     (if tf_itNowRow t \<ge> length (tf_lstAllValue t) then pszDefault
      else case map_of (tf_lstAllValue t ! tf_itNowRow t) pszName of None \<Rightarrow> pszDefault | Some v \<Rightarrow> takeWhile (\<lambda>c. c \<noteq> 0) v)"

section \<open>Tables\<close>

lemma str_find_char: "f \<notin> set x \<Longrightarrow> str_find [f] (x @ f # r) = Some (length x)"
  by (induction x) auto

lemma str_find_no_char: "f \<notin> set x \<Longrightarrow> str_find [f] x = None"
  by (induction x) auto

lemma split_loop_cells: "cs \<noteq> [] \<Longrightarrow> \<forall>c \<in> set cs. f \<notin> set c \<Longrightarrow> split_loop f [] (join [f] cs) = cs"
proof (induction cs rule: induct_list012)
  case (3 x y zs)
  then show ?case by (subst split_loop.simps) (simp add: str_find_char)
qed (simp_all add: split_loop.simps str_find_no_char)

lemma join_Nil_iff: "cs \<noteq> [] \<Longrightarrow> join [f] cs = [] \<longleftrightarrow> cs = [[]]"
  by (cases cs rule: remdups_adj.cases) simp_all

lemma Q_Split_cells:
  assumes "cs \<noteq> []" "cs \<noteq> [[]]" "\<forall>c \<in> set cs. f \<notin> set c"
  shows "Q_Split (join [f] cs) [f] = cs"
  using split_loop_cells [OF assms(1,3)] join_Nil_iff [OF assms(1), of f] assms(2) by (simp add: Q_Split_def)

lemma length_cells: "length cs \<le> Suc (length (join [f] cs))"
  by (induction cs rule: induct_list012) simp_all

lemma set_join: "set (join [f] cs) \<subseteq> insert f (\<Union> (set ` set cs))"
  by (induction cs rule: induct_list012) auto

lemma Q_Trim_fixed: "s \<noteq> [] \<Longrightarrow> Q_Trim s = s \<longleftrightarrow> \<not> blank (hd s) \<and> \<not> blank (last s)"
proof
  assume "s \<noteq> []" "Q_Trim s = s"
  then show "\<not> blank (hd s) \<and> \<not> blank (last s)" using Q_Trim_spec [of s] by metis
next
  assume s: "s \<noteq> []" "\<not> blank (hd s) \<and> \<not> blank (last s)"
  have d: "dropWhile blank xs = xs" if "xs \<noteq> []" "\<not> blank (hd xs)" for xs using that by (cases xs) auto
  show "Q_Trim s = s" using d [of "rev s"] d [of s] s by (simp add: Q_Trim_def Q_TrimLeft_eq Q_TrimRight_eq hd_rev)
qed

lemma join_last: "cs \<noteq> [] \<Longrightarrow> last cs \<noteq> [] \<Longrightarrow> join [f] cs \<noteq> [] \<and> last (join [f] cs) = last (last cs)"
proof (induction cs)
  case (Cons x cs)
  then show ?case by (cases cs) auto
qed simp

lemma join_hd: "cs \<noteq> [] \<Longrightarrow> hd cs \<noteq> [] \<Longrightarrow> hd (join [f] cs) = hd (hd cs)"
  by (cases cs rule: remdups_adj.cases) simp_all

lemma getline_line: "10 \<notin> set line \<Longrightarrow> length line \<le> line_max \<Longrightarrow> getline (line @ 10 # rest) = (line, rest, True)"
proof -
  assume l: "10 \<notin> set line" "length line \<le> line_max"
  then have "takeWhile (\<lambda>c. c \<noteq> 10) (line @ 10 # rest) = line" by (induction line) auto
  then show ?thesis using l by (simp add: getline_def)
qed

lemma buffer_str_id: "0 \<notin> set line \<Longrightarrow> buffer_str line = line"
  unfolding buffer_str_def by (induction line) auto

lemma row_insert_all: "distinct (map fst (acc @ ps)) \<Longrightarrow> fold row_insert ps acc = acc @ ps"
proof (induction ps arbitrary: acc)
  case (Cons p ps)
  then have "row_insert p acc = acc @ [p]" by (auto simp: row_insert_def)
  then show ?case using Cons.IH [of "acc @ [p]"] Cons.prems by simp
qed simp

text \<open>
  Cells that the format can hold, with the separator \<open>f\<close>: no separator, line end or zero byte inside and no blanks around; and lines: not taken for a note, and not
  longer than the buffer.
\<close>

definition cells_ok :: "byte \<Rightarrow> byte list list \<Rightarrow> bool" where
  "cells_ok f cs \<longleftrightarrow> (\<forall>c \<in> set cs. f \<notin> set c \<and> 0 \<notin> set c \<and> 10 \<notin> set c \<and> Q_Trim c = c)
     \<and> \<not> checkNote (join [f] cs) \<and> length (join [f] cs) \<le> line_max"

definition head_ok :: "byte \<Rightarrow> byte list list \<Rightarrow> bool" where
  "head_ok f names \<longleftrightarrow> cells_ok f names \<and> names \<noteq> [] \<and> distinct names \<and> [] \<notin> set names"

definition row_ok :: "byte \<Rightarrow> nat \<Rightarrow> byte list list \<Rightarrow> bool" where
  "row_ok f n r \<longleftrightarrow> cells_ok f r \<and> length r = n \<and> (\<exists>c \<in> set r. c \<noteq> [])"

definition sep_ok :: "byte \<Rightarrow> bool" where "sep_ok f \<longleftrightarrow> \<not> blank f \<and> f \<noteq> 0"

lemma cells_line:
  assumes "sep_ok f" "cells_ok f cs"
  shows "getline (join [f] cs @ 10 # rest) = (join [f] cs, rest, True)" "buffer_str (join [f] cs) = join [f] cs"
proof -
  have "10 \<notin> set (join [f] cs)" "0 \<notin> set (join [f] cs)"
    using set_join [of f cs] assms by (auto simp: cells_ok_def sep_ok_def blank_def)
  then show "getline (join [f] cs @ 10 # rest) = (join [f] cs, rest, True)" "buffer_str (join [f] cs) = join [f] cs"
    using getline_line buffer_str_id assms(2) by (simp_all add: cells_ok_def)
qed

lemma cell_limit_full:
  assumes "cells_ok f cs" "tf_iRemoveCount t = 0" "sz = 4 \<or> sz = 8"
  shows "cell_limit sz (length cs) t = length cs"
proof -
  have "length cs < size_mod sz" using length_cells [of cs f] assms by (auto simp: cells_ok_def line_max_def size_mod_def)
  then show ?thesis using assms(2) by (simp add: cell_limit_def)
qed

lemma getValue_row:
  assumes "row_ok f (length (tf_mapTableHead t)) r" "distinct (tf_mapTableHead t)" "tf_strSplitFlag t = [f]" "tf_iRemoveCount t = 0" "sz = 4 \<or> sz = 8"
  shows "tf_getValue sz (join [f] r) t = t\<lparr>tf_lstAllValue := tf_lstAllValue t @ [zip (tf_mapTableHead t) r]\<rparr>"
proof -
  have ok: "cells_ok f r" "length r = length (tf_mapTableHead t)" "\<exists>c \<in> set r. c \<noteq> []" using assms(1) by (simp_all add: row_ok_def)
  have "r \<noteq> []" "r \<noteq> [[]]" using ok(3) by auto
  then have s: "Q_Split (join [f] r) [f] = r" using Q_Split_cells ok(1) by (simp add: cells_ok_def)
  have m: "map Q_Trim r = r" using ok(1) by (simp add: cells_ok_def map_idI)
  have "fold row_insert (zip (tf_mapTableHead t) r) [] = zip (tf_mapTableHead t) r" using row_insert_all [of "[]"] ok(2) assms(2) by simp
  then show ?thesis using s m ok cell_limit_full [OF ok(1) assms(4,5)] assms(3) by (auto simp: tf_getValue_def Let_def)
qed

definition table_lines :: "byte \<Rightarrow> byte list list list \<Rightarrow> byte list" where
  "table_lines f rows = concat (map (\<lambda>r. join [f] r @ [10]) rows)"

lemma rows_loop_end: "rows_loop sz [] True t = t"
  by (subst rows_loop.simps) (simp add: getline_def buffer_str_def rows_loop.simps)

lemma rows_loop_rows:
  assumes "sep_ok f" "distinct (tf_mapTableHead t)" "tf_strSplitFlag t = [f]" "tf_iRemoveCount t = 0" "sz = 4 \<or> sz = 8"
    and "\<forall>r \<in> set rows. row_ok f (length (tf_mapTableHead t)) r"
  shows "rows_loop sz (table_lines f rows) True t = t\<lparr>tf_lstAllValue := tf_lstAllValue t @ map (zip (tf_mapTableHead t)) rows\<rparr>"
  using assms(2-4,6)
proof (induction rows arbitrary: t)
  case (Cons r rows)
  have c: "cells_ok f r" "row_ok f (length (tf_mapTableHead t)) r" using Cons.prems(4) by (simp_all add: row_ok_def)
  have "r \<noteq> []" "r \<noteq> [[]]" using c(2) by (auto simp: row_ok_def)
  then have "join [f] r \<noteq> []" using join_Nil_iff [of r f] by simp
  then have "rows_loop sz (table_lines f (r # rows)) True t = rows_loop sz (table_lines f rows) True (tf_getValue sz (join [f] r) t)"
    using cells_line(1) [OF assms(1) c(1), of "table_lines f rows"] cells_line(2) [OF assms(1) c(1)] c(1)
    by (subst rows_loop.simps) (simp add: table_lines_def cells_ok_def)
  then show ?case using Cons.IH [of "tf_getValue sz (join [f] r) t"] Cons.prems getValue_row [OF c(2) Cons.prems(1-3) assms(5)] by simp
qed (simp add: table_lines_def rows_loop_end)

lemma parse_names_all: "\<forall>x \<in> set xs. Q_Trim x = x \<Longrightarrow> distinct (acc @ xs) \<Longrightarrow> parse_names xs acc = (True, acc @ xs)"
  by (induction xs arbitrary: acc) auto

lemma head_loop_names:
  assumes "sep_ok f" "head_ok f names" "tf_strSplitFlag t = [f]" "tf_iRemoveCount t = 0" "tf_mapTableHead t = []" "sz = 4 \<or> sz = 8"
  shows "head_loop sz (join [f] names @ 10 # rest) True t = (Some (rest, True), t\<lparr>tf_mapTableHead := names\<rparr>)"
proof -
  have n: "cells_ok f names" "names \<noteq> []" "distinct names" "[] \<notin> set names" using assms(2) by (simp_all add: head_ok_def)
  then have e: "hd names \<noteq> []" "last names \<noteq> []" "\<forall>x \<in> set names. Q_Trim x = x" by (auto simp: cells_ok_def) (metis hd_in_set, metis last_in_set)
  have j: "join [f] names \<noteq> []" "Q_Trim (join [f] names) = join [f] names"
    using join_last [OF n(2) e(2), of f] join_hd [OF n(2) e(1), of f] Q_Trim_fixed [of "join [f] names"] Q_Trim_fixed [OF e(1)] Q_Trim_fixed [OF e(2)] e(3) n(2) by auto
  have "names \<noteq> [[]]" using n(4) by auto
  then have s: "Q_Split (join [f] names) [f] = names" using Q_Split_cells [OF n(2), of f] n(1,4) by (auto simp: cells_ok_def)
  have t: "takeWhile (\<lambda>x. x = []) (rev names) = []" using n(2) e(2) by (cases names rule: rev_cases) auto
  have l: "cell_limit sz (length names) t = length names" using cell_limit_full [OF n(1) assms(4,6)] .
  have z: "t\<lparr>tf_iRemoveCount := tf_iRemoveCount t + length (takeWhile (\<lambda>x. x = []) (rev names))\<rparr> = t" using t assms(4) by (cases t) simp
  have "tf_getHead sz (join [f] names) t = (True, t\<lparr>tf_mapTableHead := names\<rparr>)"
    unfolding tf_getHead_def Let_def assms(3) s z using l n(2-4) e(3) assms(5) parse_names_all [of names "[]"]
    by (auto simp: tf_checkHead_def tf_parseHead_def)
  then show ?thesis using cells_line(1) [OF assms(1) n(1), of rest] cells_line(2) [OF assms(1) n(1)] j n(1) by (subst head_loop.simps) (simp add: cells_ok_def)
qed

fun next_rows :: "nat \<Rightarrow> table_file \<Rightarrow> cfault + table_file" where
  "next_rows 0 t = Inr t"
| "next_rows (Suc i) t = (case next_rows i t of Inl e \<Rightarrow> Inl e | Inr t \<Rightarrow> nextRow t)"

lemma next_rows_at: "i \<le> length (tf_lstAllValue t) \<Longrightarrow> tf_itNowRow t = 0 \<Longrightarrow> tf_bEof t = (tf_lstAllValue t = [])
    \<Longrightarrow> next_rows i t = Inr (t\<lparr>tf_itNowRow := i, tf_bEof := (i = length (tf_lstAllValue t))\<rparr>)"
  by (induction i) (auto simp: nextRow_def checkEof_def)

text \<open>
  C36. A table comes back from its file: names in the first line and one line per row, with any separator of one character that is no blank. \<^verbatim>\<open>Parse\<close> succeeds, after \<open>i\<close>
  times \<^verbatim>\<open>nextRow\<close> each name gives the cell of row \<open>i\<close>, and \<^verbatim>\<open>eof\<close> holds behind the last row and nowhere before.
\<close>

theorem table_roundtrip:
  assumes "sep_ok f" "head_ok f names" "\<forall>r \<in> set rows. row_ok f (length names) r" "sz = 4 \<or> sz = 8"
  shows "\<exists>t'. tf_Parse sz (Some (table_lines f (names # rows))) (setSplitFlag [f] t) = (Q_RTN_OK, t') \<and> tf_mapTableHead t' = names
    \<and> (\<forall>i < length rows. \<exists>ti. next_rows i t' = Inr ti \<and> \<not> tf_eof ti \<and> (\<forall>j < length names. getStringValue (names ! j) d ti = rows ! i ! j))
    \<and> (\<exists>te. next_rows (length rows) t' = Inr te \<and> tf_eof te)"
proof -
  let ?t = "tf_Clear (setSplitFlag [f] t)" and ?rows = "map (zip names) rows"
  let ?t' = "?t\<lparr>tf_mapTableHead := names, tf_lstAllValue := ?rows, tf_bEof := (rows = [])\<rparr>"
  have t: "tf_strSplitFlag ?t = [f]" "tf_iRemoveCount ?t = 0" "tf_mapTableHead ?t = []" by (simp_all add: tf_Clear_def setSplitFlag_def)
  have h: "head_loop sz (table_lines f (names # rows)) True ?t = (Some (table_lines f rows, True), ?t\<lparr>tf_mapTableHead := names\<rparr>)"
    using head_loop_names [OF assms(1,2) t assms(4), of "table_lines f rows"] by (simp add: table_lines_def)
  have r: "rows_loop sz (table_lines f rows) True (?t\<lparr>tf_mapTableHead := names\<rparr>) = ?t\<lparr>tf_mapTableHead := names, tf_lstAllValue := ?rows\<rparr>"
    using rows_loop_rows [OF assms(1), of "?t\<lparr>tf_mapTableHead := names\<rparr>" sz rows] assms(2-4) t by (simp add: head_ok_def tf_Clear_def setSplitFlag_def)
  have p: "tf_Parse sz (Some (table_lines f (names # rows))) (setSplitFlag [f] t) = (Q_RTN_OK, ?t')"
  proof -
    have c: "?t\<lparr>tf_iRemoveCount := 0\<rparr> = ?t" by (simp add: tf_Clear_def)
    show ?thesis unfolding tf_Parse_def Let_def c option.case h prod.case r by (simp add: checkEof_def tf_Clear_def)
  qed
  have n: "next_rows i ?t' = Inr (?t'\<lparr>tf_itNowRow := i, tf_bEof := (i = length rows)\<rparr>)" if "i \<le> length rows" for i
    using next_rows_at [of i ?t'] that by (simp add: tf_Clear_def)
  have "getStringValue (names ! j) d (?t'\<lparr>tf_itNowRow := i, tf_bEof := False\<rparr>) = rows ! i ! j" if "i < length rows" "j < length names" for i j
  proof -
    have ri: "row_ok f (length names) (rows ! i)" using assms(3) that(1) by simp
    then have "0 \<notin> set (rows ! i ! j)" "length names = length (rows ! i)" using that(2) by (simp_all add: row_ok_def cells_ok_def)
    then show ?thesis using that assms(2) buffer_str_id [of "rows ! i ! j"]
      by (simp add: getStringValue_def map_of_zip_nth head_ok_def buffer_str_def)
  qed
  then have "\<forall>i < length rows. \<exists>ti. next_rows i ?t' = Inr ti \<and> \<not> tf_eof ti \<and> (\<forall>j < length names. getStringValue (names ! j) d ti = rows ! i ! j)"
    using n by (simp add: tf_eof_def)
  moreover have "\<exists>te. next_rows (length rows) ?t' = Inr te \<and> tf_eof te" using n [of "length rows"] by (simp add: tf_eof_def)
  ultimately show ?thesis using p by (intro exI [of _ ?t']) simp
qed

text \<open>The names \<^verbatim>\<open>id\<close> and \<^verbatim>\<open>n\<close> and two rows, separated by commas.\<close>

theorem table_roundtrip_witness:
  "\<exists>t'. tf_Parse 8 (Some [105, 100, 44, 110, 10, 55, 44, 10, 56, 44, 97, 98, 10]) (setSplitFlag [44] CTableFile_init) = (Q_RTN_OK, t')
    \<and> (\<exists>t1. next_rows 1 t' = Inr t1 \<and> getStringValue [105, 100] [] t1 = [56] \<and> getStringValue [110] [] t1 = [97, 98])"
proof -
  have f: "table_lines 44 [[[105, 100], [110]], [[55], []], [[56], [97, 98]]] = [105, 100, 44, 110, 10, 55, 44, 10, 56, 44, 97, 98, 10]"
    by (simp add: table_lines_def)
  have tr: "Q_Trim x = x" if "x \<in> {[105, 100], [110], [55], [], [56], [97, 98]}" for x
    using that Q_Trim_fixed [of x] by (cases "x = []") (auto simp: blank_def Q_Trim_def Q_TrimLeft_eq Q_TrimRight_eq)
  have h: "head_ok 44 [[105, 100], [110]]" "\<forall>r \<in> set [[[55], []], [[56], [97, 98]]]. row_ok 44 (length [[105, 100], [110 :: byte]]) r" "sep_ok 44"
    by (simp_all add: head_ok_def row_ok_def cells_ok_def sep_ok_def blank_def line_max_def checkNote_def tr)
  show ?thesis
    using table_roundtrip [OF h(3,1,2), of 8 CTableFile_init "[]"] unfolding f by (auto simp: nth_Cons' less_Suc_eq numeral_2_eq_2)
qed

text \<open>
  Two flaws. A line that does not fit into the buffer ends the reading, and the rows behind it are lost without an error. And when the line of names ends with
  separators, that many cells are cut off every row, also off rows that do not end with separators.
\<close>

lemma long_line_ends:
  assumes "length (takeWhile (\<lambda>c. c \<noteq> 10) bs) > line_max"
  shows "rows_loop sz bs True t = (let strTmp = buffer_str (take line_max bs) in if strTmp = [] \<or> checkNote strTmp then t else tf_getValue sz strTmp t)"
  using assms by (subst rows_loop.simps) (simp add: getline_def Let_def rows_loop.simps)

lemma row_loses_cells:
  assumes "Q_Split line (tf_strSplitFlag t) = cells" "length cells = tf_iRemoveCount t" "\<exists>c \<in> set cells. Q_Trim c \<noteq> []" "tf_mapTableHead t \<noteq> []"
    and "length cells < size_mod sz"
  shows "tf_getValue sz line t = t\<lparr>tf_lstAllValue := tf_lstAllValue t @ [[]]\<rparr>"
  using assms by (auto simp: tf_getValue_def Let_def cell_limit_def)

end
