(* ===== verification/Spec2Isabelle.thy ===== *)
theory Spec2Isabelle
  imports RSA_Example R_Keygen R_DH DES_Width R_PEM Work_Callbacks Q_Filter Snowflake_ID Thread_Pool AES_Example CMD5 Comm_Codecs Q_Encrypt
    Q_Binary Table_File
begin

text \<open>
  A verification development of QService, a game server in C and C++ (\<^verbatim>\<open>src/QBase\<close>, \<^verbatim>\<open>src/QService\<close>): a worker thread
  that talks TCP and WebSocket to clients and to other servers and hands the messages to scripts, over
  cryptographic code of its own.

  \<^bold>\<open>The parts and how they interact.\<close> Bytes arrive in the buffer of a session (\<^verbatim>\<open>EventBuffer.cpp\<close>, over libevent).
  The worker thread (\<^verbatim>\<open>WorkThreadEvent.cpp\<close>) finds the session of a socket (\<^verbatim>\<open>SessionManager.cpp\<close>, with the objects of a
  pool, \<^verbatim>\<open>ObjectPool.h\<close>), cuts frames off the buffer (\<^verbatim>\<open>TcpParser.cpp\<close>, \<^verbatim>\<open>WebSockParser.cpp\<close>), undoes the configured transformations
  (\<^verbatim>\<open>CommEncrypt.cpp\<close>, with the growing buffer of \<^verbatim>\<open>BufferMgr.cpp\<close>) and calls the scripts. What scripts
  send goes the other way. A WebSocket session begins with a handshake, for which \<^verbatim>\<open>SHA1.cpp\<close> and \<^verbatim>\<open>Base64.cpp\<close> compute the answer. Links to other
  servers are kept open by \<^verbatim>\<open>LinkOther.cpp\<close>. Tasks run in a pool of threads (\<^verbatim>\<open>ThreadPool.cpp\<close>). The scripts also use a word filter
  (\<^verbatim>\<open>QFilter.cpp\<close>), unique numbers (\<^verbatim>\<open>SnowflakeID.cpp\<close>), the functions on strings of \<^verbatim>\<open>QString.cpp\<close>, AES (\<^verbatim>\<open>AES.cpp\<close> over \<^verbatim>\<open>rijndael.cpp\<close>),
  MD5 (\<^verbatim>\<open>md5.cpp\<close>), RSA (\<^verbatim>\<open>QRSA.cpp\<close>), checksums (\<^verbatim>\<open>Encrypt.cpp\<close>), binary messages (\<^verbatim>\<open>Binary.cpp\<close>) and tables in text files
  (\<^verbatim>\<open>TableFile.cpp\<close>). The library
  \<^verbatim>\<open>RSAEuro\<close> has digests, block ciphers, a random generator, multiple-precision arithmetic, primes, RSA, Diffie-Hellman, and signatures and
  envelopes in plain and in printable form on top of them.

  \<^bold>\<open>How code becomes definitions.\<close> A class or struct is a record with the fields of the source, an enumeration a datatype or a constant
  per name, an integer of \<open>w\<close> bits a \<open>w word\<close> where it can wrap around. Sizes of type \<^verbatim>\<open>size_t\<close> are natural numbers, reduced modulo
  \<open>size_mod sz\<close> where the code adds them, for \<open>sz\<close> bytes, 4 or 8. A function returns its result and the changed objects; reading or writing
  outside an array, a null pointer and a failed allocation are values of the types \<open>cfault\<close> and \<open>qerror\<close>. Loops that need not end are
  \<open>partial_function (option)\<close>, and that they return is proved. libevent, the allocator, zlib, the clock and
  the scripts are arguments; what is assumed of them are the predicates \<open>evbuffer_laws\<close>, \<open>alloc_ok\<close>, \<open>zlib_laws\<close>, \<open>quiet\<close>, \<open>tame\<close> and \<open>polite\<close>, and
  each is shown to hold for a concrete instance. The worker and the chain of \<^verbatim>\<open>CommEncrypt\<close> are stated over any transformations with the laws \<open>codec_laws\<close>;
  \<open>Comm_Codecs\<close> proves these laws for the AES and the RSA of the repository.

  \<^bold>\<open>Theories of the server.\<close>
  \<^item> \<open>QS_Prelude\<close>: words, byte strings in both byte orders, faults, lists.
  \<^item> \<open>Event_Buffer\<close>: \<^verbatim>\<open>CEventBuffer\<close>; what its operations do to the unread and unsent bytes.
  \<^item> \<open>Tcp_Parser\<close>, \<open>WebSock_Parser\<close>: framing. \<open>tcp_next\<close> and \<open>ws_next\<close> describe the first frame of a byte string; the parsers refine
    them, headers written are those of the format, and the inputs on which the length computation overflows are described exactly.
  \<^item> \<open>Buffer_Mgr\<close>, \<open>Comm_Encrypt\<close>: \<^verbatim>\<open>CBuffer\<close> as a sink for bytes (locale \<open>byte_sink\<close>), and the chain of transformations as a function
    \<open>chain\<close>. \<open>Comm_Codecs\<close>: the chain with the repository's AES and RSA in it; decoding undoes encoding.
  \<^item> \<open>Object_Pool\<close>, \<open>Link_Other\<close>, \<open>Session_Mgr\<close>: the pool (locale \<open>object_pool\<close>), the table of links, and the session
    manager as a step relation with its invariant \<open>sess_inv\<close>.
  \<^item> \<open>Work_Thread\<close>: sending, and the loop that receives over TCP; it delivers exactly \<open>tcp_stream\<close> of the bytes received, and that
    does not depend on how they were cut into pieces.
  \<^item> \<open>CSHA1\<close>, \<open>SHA_Example\<close>, \<open>Base64\<close>, \<open>QString\<close>, \<open>WebSock_Shake\<close>: the opening handshake and what it is made of. \<^verbatim>\<open>CSHA1\<close> computes the
    digest of \<open>SHS\<close>, \<^verbatim>\<open>CBase64\<close> the encoding of \<open>R_Encode\<close>, and the answer is that of RFC 6455.
  \<^item> \<open>Work_WebSock\<close>: the loop that receives over WebSocket, with fragments, pings and closing, as a refinement of a function of the byte stream.
  \<^item> \<open>Work_Callbacks\<close>: the callbacks of the worker (sockets handed over, timer, read and event callbacks); in any order they keep \<open>sess_inv\<close>,
    no session holds a buffer event that was freed, and none is freed twice.
  \<^item> \<open>Thread_Pool\<close>: the threads of the pool and its owner as an interleaving of atomic steps; every task runs once.
  \<^item> \<open>Q_Filter\<close>, \<open>Snowflake_ID\<close>: the tree of filter words, and numbers that are pairwise different.

  \<^bold>\<open>Theories of the library.\<close>
  \<^item> \<open>NN_Basic\<close>, \<open>NN_Div\<close>, \<open>NN_Exp\<close> (\<^verbatim>\<open>nn.c\<close>): arithmetic on lists of 32-bit digits, related to natural numbers by \<open>nn_val\<close>; division, modular
    powers, inverses and greatest common divisors are correct and return.
  \<^item> \<open>Digest_Base\<close>, \<open>MD45\<close>, \<open>MD2\<close>, \<open>SHS\<close>: the digests on their contexts. The locale \<open>message_digest\<close> has the fact that cutting the input into
    pieces changes nothing; it is interpreted for all four.
  \<^item> \<open>R_Random\<close> (\<^verbatim>\<open>r_random.c\<close>), \<open>R_Encode\<close> (\<^verbatim>\<open>r_encode.c\<close>), \<open>DES\<close> and \<open>DES_Width\<close> (\<^verbatim>\<open>desc.c\<close>): generator, printable encoding, block
    ciphers in three modes.
  \<^item> \<open>RSA_Math\<close>, \<open>RSA\<close>, \<open>RSA_Example\<close> (\<^verbatim>\<open>rsa.c\<close>), \<open>R_Prime\<close> (\<^verbatim>\<open>prime.c\<close>), \<open>R_Keygen\<close> (\<^verbatim>\<open>r_keygen.c\<close>), \<open>R_DH\<close> (\<^verbatim>\<open>r_dh.c\<close>): the operations with
    keys, the search for primes, key generation and key agreement; the generation of parameters faults for primes longer than the arrays.
  \<^item> \<open>R_Sign\<close>, \<open>R_Envelope\<close>, \<open>R_PEM\<close> (\<^verbatim>\<open>r_enhanc.c\<close>): digests by number, signatures, sealing and opening.

  \<^bold>\<open>Theories of the ciphers and digests for scripts.\<close>
  \<^item> \<open>Rijndael_Tables\<close>, \<open>Rijndael\<close> (\<^verbatim>\<open>rijndael.cpp\<close>): the tables as the source has them, the two key schedules and the two directions.
  \<^item> \<open>AES_Standard\<close>, \<open>AES_Example\<close>: the cipher of FIPS 197 on bytes, with which the code agrees; its first example.
  \<^item> \<open>AES_Code\<close> (\<^verbatim>\<open>AES.cpp\<close>): keys, padding, messages; what a wrong last byte does.
  \<^item> \<open>CMD5\<close> (\<^verbatim>\<open>md5.cpp\<close>): the class computes the digest of \<open>MD45\<close>; what calling it twice gives.
  \<^item> \<open>Q_RSA\<close> (\<^verbatim>\<open>QRSA.cpp\<close>, \<^verbatim>\<open>RSAKey.cpp\<close>): messages of any length in pieces, over the operations of \<open>RSA\<close>.
  \<^item> \<open>Q_Encrypt\<close> (\<^verbatim>\<open>Encrypt.cpp\<close>): percent-encoding and its inverse, and checksums; the locale \<open>linear_check\<close> has what a linear
    checksum notices, and is interpreted for both.

  \<^bold>\<open>Theories of the data of scripts.\<close>
  \<^item> \<open>Q_Binary\<close> (\<^verbatim>\<open>Binary.cpp\<close>): writing and reading of typed values; what is written is read back, and what happens at the end of a message.
  \<^item> \<open>Table_File\<close> (\<^verbatim>\<open>TableFile.cpp\<close>): the parser of tables, as an inverse of the text format, and the lines it does not read.

  \<^bold>\<open>Bounds.\<close> No loop has fuel. Inputs are bounded where the code is only correct below a bound: received data less than half the range of
  \<^verbatim>\<open>size_t\<close>, digests below \<open>2 ^ 32\<close> bits where the counters are words, keys within the limits of
  \<^verbatim>\<open>rsaeuro.h\<close>; each bound is a premise of the theorem that needs it.

  \<^bold>\<open>Not modelled.\<close> Vendored code (Lua, pugixml, jsoncpp, zlib, sigar, uchardet, pbc, LuaSocket, LuaBridge and other Lua modules, curl, MySQL and SQLite
  headers); what is only calls of the operating system or of such a library (sockets, threads, locks, files, logging,
  databases, mail, HTTP); the scripts, and with them structures of \<^verbatim>\<open>CLuaBinary\<close> that Lua tables describe; conversions
  between numbers and text by streams; key files; and the assembler variants of the library. The component list of the manifest names each.
\<close>


text \<open>
  C1. From one process to another: what the worker of one end sends over a TCP session, message by message, the worker of the other end gives
  to its interface, the same messages in the same order and nothing else, however the network cuts the bytes into
  pieces, and nothing stays unread.
\<close>

theorem tcp_delivery:
  assumes "evbuffer_laws api content" "evbuffer_laws api2 content2" "alloc_ok alloc" "codec_laws ops" "polite content2 q iface"
    and "stage_fits sz (encode_stage ops (STYPE_TCPCLIENT = m_emSessionType (wsess w p)))" "stage_fits sz (decode_stage ops)"
    and "sending w p" "wr content (wbuf w p) = []" "receiving content2 q w2" "rd content2 (wbuf w2 q) = []" "same_chain w p w2 q"
    and "map (wenc ops p w) ms = map Some cs" "\<forall>c \<in> set cs. tcp_msg_ok sz c" "sz = 4 \<or> sz = 8"
    and "2 * length (concat (map tcp_frame cs)) < size_mod sz"
  shows "\<exists>w'. send_all sz alloc ops api p ms w = Inr (True, w')
     \<and> (\<forall>pieces. concat pieces = wr content (wbuf w' p) \<longrightarrow>
          (\<exists>w2'. feed sz alloc ops api2 iface q pieces w2 = Some (Inr w2')
             \<and> wk_calls w2' = wk_calls w2 @ ms \<and> rd content2 (wbuf w2' q) = []))"
proof -
  obtain w' where w': "send_all sz alloc ops api p ms w = Inr (True, w')" "wr content (wbuf w' p) = concat (map tcp_frame cs)"
    using send_all_frames [OF assms(1,3,6,8,13,14)] assms(9) by auto
  have "map (wdec ops q w2) cs = map Some ms"
    using assms(13) wdec_wenc [OF assms(4,12)] by (induction ms arbitrary: cs) (auto simp: Cons_eq_map_conv)
  moreover have "\<forall>c \<in> set cs. length c < 2 ^ 32" using assms(14) tcp_msg_ok_lens by fastforce
  ultimately have st: "tcp_stream (wdec ops q w2) (concat (map tcp_frame cs)) = (ms, [])" by (intro tcp_stream_frames)
  have nil: "tcp_stream (wdec ops q w2) [] = ([], [])" using tcp_stream_frames [of "[]"] by simp
  have "\<exists>w2'. feed sz alloc ops api2 iface q pieces w2 = Some (Inr w2') \<and> wk_calls w2' = wk_calls w2 @ ms \<and> rd content2 (wbuf w2' q) = []
     \<and> receiving content2 q w2'" if "concat pieces = concat (map tcp_frame cs)" for pieces
    by (rule feed_stream [OF assms(2,3,7,5,15,10)]) (use that assms(11,16) tcp_clean_frames [OF assms(14)] st nil in simp_all)
  then show ?thesis using w' by auto
qed

text \<open>Two processes with the same configuration, two messages and the pieces \<open>2\<close>, \<open>2 3 1\<close>, nothing and \<open>4\<close>.\<close>

definition example_worker :: "(int, byte list) worker" where
  "example_worker = \<lparr>wk_mgr = \<lparr>sm_uiTimer = 0, sm_uiCount = 0, sm_pCurrent = 0, sm_umapSession = [(7, 1)],
       sm_objSessionPool = \<lparr>pool_uiCount = 1, m_lstUsed = [1], m_quFree = []\<rparr>,
       sm_heap = \<lparr>hp_obj = \<lambda>_. CSession_init\<lparr>m_emStatus := SESSSTATUS_LINKED, m_iSessionID := 7,
           m_objBuffer := \<lparr>m_pBev = Some 7, m_pReadBuffer = Some [], m_pWriteBuffer = Some [], m_FD = 7\<rparr>\<rparr>, hp_next = 2\<rparr>,
       sm_link = [], sm_freed = []\<rparr>,
     wk_objTcpParser = CTcpParser_init, wk_objWebSockParser = CWebSockParser_init zero_sha1, wk_mapWebSockPack = [],
     sm_objTcpParser = CTcpParser_init, sm_objWebSockParser = CWebSockParser_init zero_sha1, wk_comm = example_ce, wk_calls = [], wk_closed = []\<rparr>"

definition silent :: "(int, byte list) event_interface" where
  "silent = \<lparr>onSockRead = \<lambda>_ w. w, onDebug = \<lambda>_ w. w, onConnected = \<lambda>_ w. w, onLinkedOther = \<lambda>_ w. w, onSockClose = \<lambda>_ m. m\<rparr>"

lemma fd_evbuffer_laws: "evbuffer_laws fd_evbuffer id"
  using list_evbuffer_laws by (simp add: evbuffer_laws_def fd_evbuffer_def list_evbuffer_def)

lemma example_worker_facts:
  "sending example_worker 1" "receiving id 1 example_worker" "wr id (wbuf example_worker 1) = []" "rd id (wbuf example_worker 1) = []"
  "same_chain example_worker 1 example_worker 1" "wenc shift_ops 1 example_worker [1, 2] = Some [2, 3]"
  "wenc shift_ops 1 example_worker [3] = Some [4]" "wk_calls example_worker = []"
  by (simp_all add: example_worker_def sending_def receiving_def comm_ready_def ce_inv_def buf_inv_def example_ce_def comm_types_def
      CTcpParser_init_def tcp_consts wr_def rd_def same_chain_def CSession_init_def sess_types sess_status Let_def wenc_def comm_fun_def
      shift_ops_def up_to_1000_def)

lemma tcp_delivery_witness:
  "\<exists>w2'. feed 8 zero_alloc shift_ops fd_evbuffer silent 1 [[2], [2, 3, 1], [], [4]] example_worker = Some (Inr w2')
     \<and> wk_calls w2' = [[1, 2], [3]] \<and> rd id (wbuf w2' 1) = []"
proof -
  note f = example_worker_facts
  have p: "polite id 1 silent" by (simp add: polite_def silent_def)
  have fr: "concat (map tcp_frame [[2, 3], [4]]) = [2, 2, 3, 1, 4]" by (simp add: tcp_frame_def tcp_frame_head_def)
  have m: "map (wenc shift_ops 1 example_worker) [[1, 2], [3]] = map Some [[2, 3], [4]]" using f by simp
  have ok: "\<forall>c \<in> set [[2, 3], [4]]. tcp_msg_ok 8 c" by (simp add: tcp_msg_ok_def size_mod_def)
  have sz: "8 = (4 :: nat) \<or> 8 = (8 :: nat)" "2 * length (concat (map tcp_frame [[2, 3], [4]])) < size_mod 8"
    unfolding fr by (simp_all add: size_mod_def)
  have s: "wr id (wbuf w' 1) = [2, 2, 3, 1, 4]"
    if "send_all 8 zero_alloc shift_ops fd_evbuffer 1 [[1, 2], [3]] example_worker = Inr (True, w')" for w'
    using send_all_frames [OF fd_evbuffer_laws zero_alloc_ok shift_ops_fits(1) f(1) m ok] that f(3) fr by auto
  obtain w' where w': "send_all 8 zero_alloc shift_ops fd_evbuffer 1 [[1, 2], [3]] example_worker = Inr (True, w')"
      "\<And>pieces. concat pieces = wr id (wbuf w' 1) \<Longrightarrow>
         \<exists>w2'. feed 8 zero_alloc shift_ops fd_evbuffer silent 1 pieces example_worker = Some (Inr w2')
            \<and> wk_calls w2' = wk_calls example_worker @ [[1, 2], [3]] \<and> rd id (wbuf w2' 1) = []"
    using tcp_delivery [OF fd_evbuffer_laws fd_evbuffer_laws zero_alloc_ok shift_ops_laws p shift_ops_fits f(1,3,2,4,5) m ok sz] by blast
  show ?thesis using w'(2) [of "[[2], [2, 3, 1], [], [4]]"] s [OF w'(1)] f(8) by simp
qed

end
